(* ===== verification/NosPrelude.thy ===== *)
theory NosPrelude
  imports Main "HOL-Library.Word" "HOL-Library.Multiset"
begin

unbundle bit_operations_syntax

text \<open>
  Shared vocabulary of the development: the fixed-width integer types of \<open>stdint.h\<close>,
  the status codes of \<open>include/nos_types.h\<close>, C strings in fixed-size arrays, and the
  two array idioms that the node's tables share: exchanging two slots of an array and
  removing a slot by moving the last one over it (\<open>a[i] = a[--n]\<close>).
\<close>

section \<open>Machine integers and status codes\<close>

type_synonym u8 = "8 word"
type_synonym u16 = "16 word"
type_synonym u32 = "32 word"
type_synonym u64 = "64 word"

datatype nos_status =
    NOS_OK
  | NOS_ERR
  | NOS_ERR_NOMEM
  | NOS_ERR_NOT_FOUND
  | NOS_ERR_BUSY
  | NOS_ERR_TIMEOUT

named_theorems nos_defs \<open>definitions of straight-line operations, unfolded together\<close>
named_theorems nos_simps \<open>rewrite rules about the operations of a component\<close>

lemma less_eq_32: "of_nat n = (x :: u32) \<Longrightarrow> n < 4294967296 \<Longrightarrow> unat x = n"
  by (auto simp: unat_of_nat)

lemma unat_add_no_wrap: "unat (a :: u32) + unat b < 4294967296 \<Longrightarrow> unat (a + b) = unat a + unat b"
  by (simp add: unat_word_ariths)

lemma unat_sub_le: "b \<le> (a :: u32) \<Longrightarrow> unat (a - b) = unat a - unat b"
  by (rule unat_sub)

lemma unat_u32_bound: "unat (x :: u32) < 4294967296"
  by (rule order_less_le_trans[OF unsigned_less]) simp

lemma unat_ucast_u32: "unat (ucast (x :: u32) :: u64) = unat x"
  using unat_u32_bound[of x] by (simp add: unsigned_ucast_eq take_bit_nat_eq_self)

lemma sint_32_add1: "sint (x :: u32) < 2 ^ 31 - 1 \<Longrightarrow> sint (x + 1) = sint x + 1"
  using sint_ge[of x] by (simp add: sint_word_add signed_take_bit_int_eq_self)

lemma sint_32_sub1: "- (2 ^ 31) < sint (x :: u32) \<Longrightarrow> sint (x - 1) = sint x - 1"
  using sint_lt[of x] by (simp add: sint_word_diff signed_take_bit_int_eq_self)

lemma sint_32_eq_1: "sint (x :: u32) = 1 \<longleftrightarrow> x = 1"
  using signed_word_eqI[of x 1] by auto

lemma sint_small: "unat (x :: u32) < 2 ^ 31 \<Longrightarrow> sint x = int (unat x)"
proof -
  assume "unat x < 2 ^ 31"
  then have "uint x < 2 ^ 31" by (simp only: unat_eq_nat_uint nat_less_iff[OF uint_ge_0]) simp
  moreover have "- (2 ^ 31) \<le> uint x" by (rule order_trans[OF _ uint_ge_0]) simp
  ultimately have "sint x = uint x"
    by (simp add: sint_uint signed_take_bit_int_eq_self)
  then show ?thesis by simp
qed

lemma option_case_Some: "(case x of None \<Rightarrow> False | Some y \<Rightarrow> P y) \<Longrightarrow> \<exists>y. x = Some y \<and> P y"
  by (simp split: option.splits)

section \<open>C strings in fixed-size arrays\<close>

text \<open>
  A string the code passes around is a \<open>char list\<close> without its terminating NUL. The
  only way the node stores a name is \<open>strncpy (dst, src, n - 1)\<close> into a zeroed array of
  \<open>n\<close> bytes, which keeps the first \<open>n - 1\<close> characters: \<open>strncpy_field n\<close>.
\<close>

definition strncpy_field :: "nat \<Rightarrow> string \<Rightarrow> string" where
  "strncpy_field n s = take (n - 1) s"

lemma strncpy_field_id [simp]: "length s < n \<Longrightarrow> strncpy_field n s = s"
  by (simp add: strncpy_field_def)

lemma length_strncpy_field: "0 < n \<Longrightarrow> length (strncpy_field n s) < n"
  by (auto simp: strncpy_field_def)

section \<open>Exchanging two slots of an array\<close>

definition swap_slots :: "'a list \<Rightarrow> nat \<Rightarrow> nat \<Rightarrow> 'a list" where
  "swap_slots xs i j = xs[i := xs ! j, j := xs ! i]"

lemma length_swap_slots [simp]: "length (swap_slots xs i j) = length xs"
  by (simp add: swap_slots_def)

lemma nth_swap_slots:
  "i < length xs \<Longrightarrow> j < length xs \<Longrightarrow> k < length xs \<Longrightarrow>
   swap_slots xs i j ! k = (if k = i then xs ! j else if k = j then xs ! i else xs ! k)"
  by (auto simp: swap_slots_def nth_list_update)

lemma mset_swap_slots [simp]:
  "i < length xs \<Longrightarrow> j < length xs \<Longrightarrow> mset (swap_slots xs i j) = mset xs"
  by (simp add: swap_slots_def mset_swap)

lemma drop_swap_slots [simp]: "i < n \<Longrightarrow> j < n \<Longrightarrow> drop n (swap_slots xs i j) = drop n xs"
  by (simp add: swap_slots_def)

lemma take_swap_slots:
  "i < n \<Longrightarrow> j < n \<Longrightarrow> n \<le> length xs \<Longrightarrow> take n (swap_slots xs i j) = swap_slots (take n xs) i j"
  by (simp add: swap_slots_def take_update_swap)

lemma mset_take_swap_slots [simp]:
  "i < n \<Longrightarrow> j < n \<Longrightarrow> n \<le> length xs \<Longrightarrow> mset (take n (swap_slots xs i j)) = mset (take n xs)"
  by (simp add: take_swap_slots)

section \<open>Removing a slot by moving the last one over it\<close>

definition move_last :: "'a list \<Rightarrow> nat \<Rightarrow> nat \<Rightarrow> 'a list" where
  "move_last xs n i = xs[i := xs ! (n - 1)]"

lemma length_move_last [simp]: "length (move_last xs n i) = length xs"
  by (simp add: move_last_def)

lemma nth_move_last:
  "i < length xs \<Longrightarrow> k < length xs \<Longrightarrow> move_last xs n i ! k = (if k = i then xs ! (n - 1) else xs ! k)"
  by (simp add: move_last_def nth_list_update)

lemma mset_take_move_last:
  assumes "i < n" "n \<le> length xs"
  shows "mset (take (n - 1) (move_last xs n i)) = mset (take n xs) - {#xs ! i#}"
proof -
  obtain m where n: "n = Suc m" using assms by (cases n) auto
  have split: "take n xs = take m xs @ [xs ! m]"
    using assms n by (simp add: take_Suc_conv_app_nth)
  show ?thesis
  proof (cases "i = m")
    case True
    then show ?thesis by (simp add: n split[unfolded n] move_last_def)
  next
    case False
    then have i: "i < m" using assms n by simp
    have "take m (move_last xs n i) = (take m xs)[i := xs ! m]"
      using i n by (simp add: move_last_def take_update_swap)
    moreover have "xs ! i \<in># mset (take m xs)"
      using i assms n by (auto simp: in_set_conv_nth)
    ultimately show ?thesis
      using i assms n by (simp add: split[unfolded n] mset_update)
  qed
qed

lemma distinct_submultiset:
  assumes "distinct xs" "mset ys \<subseteq># mset xs"
  shows "distinct ys"
proof -
  have "count (mset ys) a \<le> 1" for a
  proof -
    have "count (mset ys) a \<le> count (mset xs) a" using assms(2) by (rule mset_subset_eq_count)
    also have "\<dots> \<le> 1" using assms(1) by (simp add: distinct_count_atmost_1 del: count_mset_0_iff)
    finally show ?thesis .
  qed
  then show ?thesis
    unfolding distinct_count_atmost_1 by (metis One_nat_def count_mset_0_iff le_SucE le_zero_eq)
qed

lemma distinct_take_move_last:
  assumes "distinct (take n xs)" "i < n" "n \<le> length xs"
  shows "distinct (take (n - 1) (move_last xs n i))"
  by (rule distinct_submultiset[OF assms(1)]) (simp only: mset_take_move_last[OF assms(2,3)] diff_subset_eq_self)

section \<open>Linear search\<close>

text \<open>The loop \<open>for (i = 0; i < n; i++) if (p (a[i])) return i\<close>.\<close>

fun find_from :: "nat \<Rightarrow> ('a \<Rightarrow> bool) \<Rightarrow> 'a list \<Rightarrow> nat option" where
  "find_from i p [] = None"
| "find_from i p (x # xs) = (if p x then Some i else find_from (Suc i) p xs)"

definition find_slot :: "('a \<Rightarrow> bool) \<Rightarrow> nat \<Rightarrow> 'a list \<Rightarrow> nat option" where
  "find_slot p n xs = find_from 0 p (take n xs)"

lemma find_from_None: "find_from i p xs = None \<longleftrightarrow> (\<forall>x \<in> set xs. \<not> p x)"
  by (induction xs arbitrary: i) auto

lemma find_from_Some:
  "find_from i p xs = Some k \<Longrightarrow> i \<le> k \<and> k - i < length xs \<and> p (xs ! (k - i)) \<and> (\<forall>j < k - i. \<not> p (xs ! j))"
proof (induction xs arbitrary: i)
  case Nil
  then show ?case by simp
next
  case (Cons x xs)
  show ?case
  proof (cases "p x")
    case True
    then show ?thesis using Cons.prems by simp
  next
    case False
    then have IH: "Suc i \<le> k \<and> k - Suc i < length xs \<and> p (xs ! (k - Suc i)) \<and> (\<forall>j < k - Suc i. \<not> p (xs ! j))"
      using Cons by simp
    then obtain d where k: "k = Suc (i + d)" by (metis Suc_le_D add_Suc le_Suc_ex)
    with IH have "d < length xs" "p (xs ! d)" "\<forall>j < d. \<not> p (xs ! j)" by auto
    then show ?thesis using False k by (auto simp: nth_Cons split: nat.splits)
  qed
qed

lemma find_slot_None: "n \<le> length xs \<Longrightarrow> find_slot p n xs = None \<longleftrightarrow> (\<forall>i < n. \<not> p (xs ! i))"
  by (auto simp: find_slot_def find_from_None in_set_conv_nth Ball_def min_def)

lemma find_slot_Some:
  "find_slot p n xs = Some k \<Longrightarrow> k < n \<and> k < length xs \<and> p (xs ! k) \<and> (\<forall>j < k. \<not> p (xs ! j))"
  using find_from_Some[of 0 p "take n xs" k] by (auto simp: find_slot_def)

end
