(* ===== verification/RingQueue.thy ===== *)
theory RingQueue
  imports NosPrelude
begin

text \<open>
  The node keeps three rings with the same discipline: the message queue of a scheduler
  thread (\<open>nos_scheduler.c\<close>), the transmit queue of an IPC connection
  (\<open>nos_ipc_p2p.c\<close>) and the receive queue in shared memory (\<open>nos_shm.c\<close>). Each is an
  array of \<open>N\<close> slots with a head and a tail index; it is empty when they are equal and full
  when advancing the tail would reach the head, so it holds at most \<open>N - 1\<close> items.
  This theory reads such an array as the list of its items, states the bounded FIFO
  interface the rings provide, and proves the facts their clients use once.
\<close>

section \<open>The items of a ring\<close>

definition ring_succ :: "nat \<Rightarrow> nat \<Rightarrow> nat" where
  "ring_succ N i = (i + 1) mod N"

definition ring_used :: "nat \<Rightarrow> nat \<Rightarrow> nat \<Rightarrow> nat" where
  "ring_used N h t = (if h \<le> t then t - h else N - (h - t))"

definition ring_items :: "nat \<Rightarrow> 'a list \<Rightarrow> nat \<Rightarrow> nat \<Rightarrow> 'a list" where
  "ring_items N a h t = map (\<lambda>i. a ! ((h + i) mod N)) [0..<ring_used N h t]"

definition ring_ok :: "nat \<Rightarrow> 'a list \<Rightarrow> nat \<Rightarrow> nat \<Rightarrow> bool" where
  "ring_ok N a h t \<longleftrightarrow> length a = N \<and> h < N \<and> t < N"

lemma length_ring_items [simp]: "length (ring_items N a h t) = ring_used N h t"
  by (simp add: ring_items_def)

lemma ring_succ_eq: "i < N \<Longrightarrow> ring_succ N i = (if Suc i = N then 0 else Suc i)"
  by (simp add: ring_succ_def)

lemma ring_succ_less [simp]: "i < N \<Longrightarrow> ring_succ N i < N"
  by (simp add: ring_succ_def)

lemma ring_used_less: "h < N \<Longrightarrow> t < N \<Longrightarrow> ring_used N h t < N"
  by (auto simp: ring_used_def)

lemma ring_used_0: "h < N \<Longrightarrow> t < N \<Longrightarrow> ring_used N h t = 0 \<longleftrightarrow> h = t"
  by (auto simp: ring_used_def)

lemma ring_full_used:
  "h < N \<Longrightarrow> t < N \<Longrightarrow> ring_succ N t = h \<longleftrightarrow> ring_used N h t = N - 1"
  by (auto simp: ring_used_def ring_succ_eq)

lemma ring_used_push:
  "h < N \<Longrightarrow> t < N \<Longrightarrow> ring_succ N t \<noteq> h \<Longrightarrow> ring_used N h (ring_succ N t) = Suc (ring_used N h t)"
  by (auto simp: ring_used_def ring_succ_eq split: if_splits)

lemma ring_used_pop:
  "h < N \<Longrightarrow> t < N \<Longrightarrow> h \<noteq> t \<Longrightarrow> ring_used N h t = Suc (ring_used N (ring_succ N h) t)"
  by (auto simp: ring_used_def ring_succ_eq split: if_splits)

lemma ring_index: "(h :: nat) < N \<Longrightarrow> i < N \<Longrightarrow> (h + i) mod N = (if h + i < N then h + i else h + i - N)"
  by (cases "h + i < N") (simp_all add: le_mod_geq not_less)

lemma ring_tail_index: "h < N \<Longrightarrow> t < N \<Longrightarrow> (h + ring_used N h t) mod N = t"
  using ring_used_less[of h N t] by (simp add: ring_index) (auto simp: ring_used_def)

lemma ring_index_not_tail:
  "h < N \<Longrightarrow> t < N \<Longrightarrow> i < ring_used N h t \<Longrightarrow> (h + i) mod N \<noteq> t"
  using ring_used_less[of h N t] by (simp add: ring_index) (auto simp: ring_used_def split: if_splits)

lemma ring_items_empty: "h < N \<Longrightarrow> t < N \<Longrightarrow> ring_items N a h t = [] \<longleftrightarrow> h = t"
  by (metis length_0_conv length_ring_items ring_used_0)

lemma ring_items_push:
  assumes "ring_ok N a h t" "ring_succ N t \<noteq> h"
  shows "ring_items N (a[t := x]) h (ring_succ N t) = ring_items N a h t @ [x]"
proof -
  have ht: "h < N" "t < N" "length a = N" using assms(1) by (auto simp: ring_ok_def)
  have old: "a[t := x] ! ((h + i) mod N) = a ! ((h + i) mod N)" if "i < ring_used N h t" for i
    by (metis ring_index_not_tail[OF ht(1,2) that] nth_list_update_neq)
  have "map (\<lambda>i. a[t := x] ! ((h + i) mod N)) [0..<ring_used N h t] = ring_items N a h t"
    unfolding ring_items_def by (rule map_cong) (simp_all add: old)
  moreover have "a[t := x] ! ((h + ring_used N h t) mod N) = x"
    using ht by (simp add: ring_tail_index)
  ultimately show ?thesis
    using ht assms(2) by (simp add: ring_items_def ring_used_push)
qed

lemma ring_items_pop:
  assumes "ring_ok N a h t" "h \<noteq> t"
  shows "ring_items N a h t = a ! h # ring_items N a (ring_succ N h) t"
proof -
  have ht: "h < N" "t < N" using assms(1) by (auto simp: ring_ok_def)
  have idx: "(ring_succ N h + i) mod N = (h + Suc i) mod N" for i
    by (simp add: ring_succ_def mod_simps)
  have u: "ring_used N h t = Suc (ring_used N (ring_succ N h) t)"
    using ht assms(2) by (rule ring_used_pop)
  have "ring_items N a h t =
      a ! ((h + 0) mod N) # map (\<lambda>i. a ! ((h + Suc i) mod N)) [0..<ring_used N (ring_succ N h) t]"
    unfolding ring_items_def u by (simp add: upt_conv_Cons map_Suc_upt[symmetric] comp_def del: upt_Suc)
  then show ?thesis
    using ht by (simp add: ring_items_def idx del: add_Suc_right)
qed

lemma ring_items_upd_outside:
  assumes "h < N" "t < N"
  shows "ring_items N (a[t := x]) h t = ring_items N a h t"
  unfolding ring_items_def
  by (rule map_cong) (auto dest: ring_index_not_tail[OF assms] intro: nth_list_update_neq)

lemma ring_ok_push: "ring_ok N a h t \<Longrightarrow> ring_ok N (a[t := x]) h (ring_succ N t)"
  by (simp add: ring_ok_def)

lemma ring_ok_pop: "ring_ok N a h t \<Longrightarrow> ring_ok N a (ring_succ N h) t"
  by (simp add: ring_ok_def)

section \<open>The bounded FIFO interface\<close>

text \<open>
  What a client of a ring relies on: \<open>enq\<close> refuses an item the ring can hold (\<open>item_ok\<close>)
  exactly when the ring is full and otherwise appends, \<open>deq\<close> has nothing to give exactly when it is empty and otherwise
  takes the oldest item, and both keep the ring's invariant.
\<close>

datatype 'a fifo_op = Enq 'a | Deq

text \<open>A run of the interface: the final queue, the accepted and the delivered items.\<close>

fun fifo_run ::
  "('a \<Rightarrow> 'q \<Rightarrow> 'q option) \<Rightarrow> ('q \<Rightarrow> ('a \<times> 'q) option) \<Rightarrow> 'q \<Rightarrow> 'a fifo_op list \<Rightarrow> 'q \<times> 'a list \<times> 'a list"
where
  "fifo_run enq deq q [] = (q, [], [])"
| "fifo_run enq deq q (Enq x # ops) =
     (case enq x q of
        None \<Rightarrow> fifo_run enq deq q ops
      | Some q' \<Rightarrow> (let (r, acc, del) = fifo_run enq deq q' ops in (r, x # acc, del)))"
| "fifo_run enq deq q (Deq # ops) =
     (case deq q of
        None \<Rightarrow> fifo_run enq deq q ops
      | Some (x, q') \<Rightarrow> (let (r, acc, del) = fifo_run enq deq q' ops in (r, acc, x # del)))"

text \<open>Taking items until the queue is empty, with fuel for the number of items.\<close>

fun fifo_drain :: "nat \<Rightarrow> ('q \<Rightarrow> ('a \<times> 'q) option) \<Rightarrow> 'q \<Rightarrow> 'a list \<times> 'q" where
  "fifo_drain 0 deq q = ([], q)"
| "fifo_drain (Suc n) deq q =
     (case deq q of
        None \<Rightarrow> ([], q)
      | Some (x, q') \<Rightarrow> (let (xs, r) = fifo_drain n deq q' in (x # xs, r)))"

locale bounded_fifo =
  fixes items :: "'q \<Rightarrow> 'a list"
    and invar :: "'q \<Rightarrow> bool"
    and cap :: nat
    and item_ok :: "'a \<Rightarrow> bool"
    and enq :: "'a \<Rightarrow> 'q \<Rightarrow> 'q option"
    and deq :: "'q \<Rightarrow> ('a \<times> 'q) option"
  assumes bounded: "invar q \<Longrightarrow> length (items q) \<le> cap"
    and enq_None: "invar q \<Longrightarrow> item_ok x \<Longrightarrow> enq x q = None \<longleftrightarrow> length (items q) = cap"
    and enq_Some: "invar q \<Longrightarrow> enq x q = Some q' \<Longrightarrow> invar q' \<and> items q' = items q @ [x]"
    and deq_None: "invar q \<Longrightarrow> deq q = None \<longleftrightarrow> items q = []"
    and deq_Some: "invar q \<Longrightarrow> deq q = Some (x, q') \<Longrightarrow> invar q' \<and> items q = x # items q'"
begin

lemma enq_room: "invar q \<Longrightarrow> item_ok x \<Longrightarrow> length (items q) < cap \<Longrightarrow> \<exists>q'. enq x q = Some q' \<and> invar q' \<and> items q' = items q @ [x]"
  using enq_None[of q x] enq_Some[of q x] by (cases "enq x q") auto

lemma deq_ready: "invar q \<Longrightarrow> items q = x # xs \<Longrightarrow> \<exists>q'. deq q = Some (x, q') \<and> invar q' \<and> items q' = xs"
  using deq_None[of q] deq_Some[of q] by (cases "deq q") auto

lemma run_invar: "invar q \<Longrightarrow> fifo_run enq deq q ops = (r, acc, del) \<Longrightarrow> invar r"
proof (induction ops arbitrary: q r acc del)
  case (Cons op ops)
  then show ?case
    by (cases op) (auto split: option.splits prod.splits dest: enq_Some deq_Some)
qed simp

lemma run_conserves:
  "invar q \<Longrightarrow> fifo_run enq deq q ops = (r, acc, del) \<Longrightarrow> items q @ acc = del @ items r"
proof (induction ops arbitrary: q r acc del)
  case (Cons op ops)
  show ?case
  proof (cases op)
    case (Enq x)
    then show ?thesis
      using Cons by (fastforce split: option.splits prod.splits dest: enq_Some)
  next
    case Deq
    then show ?thesis
      using Cons by (fastforce split: option.splits prod.splits dest: deq_Some)
  qed
qed simp

lemma drain_all:
  "invar q \<Longrightarrow> length (items q) \<le> n \<Longrightarrow> \<exists>r. fifo_drain n deq q = (items q, r) \<and> invar r \<and> items r = []"
proof (induction n arbitrary: q)
  case (Suc n)
  show ?case
  proof (cases "items q")
    case Nil
    then have "deq q = None" using Suc.prems deq_None by simp
    then show ?thesis using Suc.prems Nil by simp
  next
    case (Cons x xs)
    then obtain q' where q': "deq q = Some (x, q')" "invar q'" "items q' = xs"
      using deq_ready Suc.prems by blast
    then obtain r where "fifo_drain n deq q' = (xs, r)" "invar r" "items r = []"
      using Suc Cons by fastforce
    then show ?thesis using q' Cons by simp
  qed
qed simp

end

section \<open>A ring provides the interface\<close>

text \<open>
  The ring operations over a triple of array, head and tail. The components' own
  operations are shown to be these on the fields they keep.
\<close>

type_synonym 'a ring = "'a list \<times> nat \<times> nat"

fun ring_put :: "nat \<Rightarrow> 'a \<Rightarrow> 'a ring \<Rightarrow> 'a ring option" where
  "ring_put N x (a, h, t) = (if ring_succ N t = h then None else Some (a[t := x], h, ring_succ N t))"

fun ring_get :: "nat \<Rightarrow> 'a ring \<Rightarrow> ('a \<times> 'a ring) option" where
  "ring_get N (a, h, t) = (if h = t then None else Some (a ! h, a, ring_succ N h, t))"

fun ring_list :: "nat \<Rightarrow> 'a ring \<Rightarrow> 'a list" where
  "ring_list N (a, h, t) = ring_items N a h t"

fun ring_inv :: "nat \<Rightarrow> 'a ring \<Rightarrow> bool" where
  "ring_inv N (a, h, t) = ring_ok N a h t"

lemma ring_list_bounded: "ring_inv N q \<Longrightarrow> length (ring_list N q) \<le> N - 1"
  using ring_used_less by (cases q) (fastforce simp: ring_ok_def)

lemma ring_put_None: "ring_inv N q \<Longrightarrow> ring_put N x q = None \<longleftrightarrow> length (ring_list N q) = N - 1"
  by (cases q) (simp add: ring_ok_def ring_full_used)

lemma ring_put_Some:
  "ring_inv N q \<Longrightarrow> ring_put N x q = Some q' \<Longrightarrow> ring_inv N q' \<and> ring_list N q' = ring_list N q @ [x]"
  by (cases q) (auto simp: ring_items_push ring_ok_push split: if_splits)

lemma ring_get_None: "ring_inv N q \<Longrightarrow> ring_get N q = None \<longleftrightarrow> ring_list N q = []"
  by (cases q) (auto simp: ring_ok_def ring_items_empty)

lemma ring_get_Some:
  "ring_inv N q \<Longrightarrow> ring_get N q = Some (x, q') \<Longrightarrow> ring_inv N q' \<and> ring_list N q = x # ring_list N q'"
  by (cases q) (auto simp: ring_items_pop ring_ok_pop split: if_splits)

interpretation ring: bounded_fifo "ring_list N" "ring_inv N" "N - 1" "\<lambda>_. True" "ring_put N" "ring_get N" for N
proof (unfold_locales, goal_cases)
  case (1 q) then show ?case by (rule ring_list_bounded)
next
  case (2 q x) then show ?case by (simp add: ring_put_None)
next
  case (3 q x q') then show ?case by (rule ring_put_Some)
next
  case (4 q) then show ?case by (rule ring_get_None)
next
  case (5 q x q') then show ?case by (rule ring_get_Some)
qed

end
