(* ===== verification/TimerHeap.thy ===== *)
theory TimerHeap
  imports NosPrelude
begin

text \<open>
  The binary min-heap of timer pointers that every scheduler thread keeps
  (\<open>nos_timer_heap_t\<close>, \<open>heapify_up\<close> and \<open>heapify_down\<close> in \<open>src/core/nos_scheduler.c\<close>):
  an array \<open>ns\<close> whose first \<open>n\<close> slots hold pointers, ordered by the expiry the pointers
  lead to, \<open>key\<close>. The two sift loops are shown to restore the heap order from the two
  kinds of single violation, and to only permute the first \<open>n\<close> slots.
\<close>

section \<open>Heap order\<close>

definition hparent :: "nat \<Rightarrow> nat" where
  "hparent i = (i - 1) div 2"

lemma hparent_less: "0 < i \<Longrightarrow> hparent i < i"
  by (auto simp: hparent_def)

lemma hparent_le: "hparent i \<le> i"
  by (simp add: hparent_def div_le_dividend le_diff_conv)

lemma hparent_child_cases: "0 < j \<Longrightarrow> hparent j = i \<longleftrightarrow> j = 2 * i + 1 \<or> j = 2 * i + 2"
  by (auto simp: hparent_def)

lemma hparent_left [simp]: "hparent (Suc (2 * i)) = i"
  and hparent_right [simp]: "hparent (Suc (Suc (2 * i))) = i"
  by (auto simp: hparent_def)

definition heap_ordered :: "('p \<Rightarrow> 'k :: linorder) \<Rightarrow> 'p list \<Rightarrow> nat \<Rightarrow> bool" where
  "heap_ordered key ns n \<longleftrightarrow> (\<forall>i < n. 0 < i \<longrightarrow> key (ns ! hparent i) \<le> key (ns ! i))"

text \<open>Heap order except that slot \<open>k\<close> may be smaller than its parent.\<close>

definition heap_but_up :: "('p \<Rightarrow> 'k :: linorder) \<Rightarrow> 'p list \<Rightarrow> nat \<Rightarrow> nat \<Rightarrow> bool" where
  "heap_but_up key ns n k \<longleftrightarrow>
     (\<forall>i < n. 0 < i \<longrightarrow> i \<noteq> k \<longrightarrow> key (ns ! hparent i) \<le> key (ns ! i)) \<and>
     (\<forall>i < n. 0 < i \<longrightarrow> 0 < k \<longrightarrow> hparent i = k \<longrightarrow> key (ns ! hparent k) \<le> key (ns ! i))"

text \<open>Heap order except that slot \<open>k\<close> may be larger than its children.\<close>

definition heap_but_down :: "('p \<Rightarrow> 'k :: linorder) \<Rightarrow> 'p list \<Rightarrow> nat \<Rightarrow> nat \<Rightarrow> bool" where
  "heap_but_down key ns n k \<longleftrightarrow>
     (\<forall>i < n. 0 < i \<longrightarrow> hparent i \<noteq> k \<longrightarrow> key (ns ! hparent i) \<le> key (ns ! i)) \<and>
     (\<forall>i < n. 0 < i \<longrightarrow> 0 < k \<longrightarrow> hparent i = k \<longrightarrow> key (ns ! hparent k) \<le> key (ns ! i))"

lemma heap_orderedD: "heap_ordered key ns n \<Longrightarrow> i < n \<Longrightarrow> 0 < i \<Longrightarrow> key (ns ! hparent i) \<le> key (ns ! i)"
  by (simp add: heap_ordered_def)

lemma heap_ordered_root:
  assumes "heap_ordered key ns n" "i < n"
  shows "key (ns ! 0) \<le> key (ns ! i)"
  using assms(2)
proof (induction i rule: less_induct)
  case (less i)
  show ?case
  proof (cases "i = 0")
    case False
    then have "hparent i < i" by (simp add: hparent_less)
    with less have "key (ns ! 0) \<le> key (ns ! hparent i)" by simp
    also have "\<dots> \<le> key (ns ! i)" using False less.prems assms(1) by (simp add: heap_orderedD)
    finally show ?thesis .
  qed simp
qed

lemma heap_ordered_prefix: "heap_ordered key ns n \<Longrightarrow> m \<le> n \<Longrightarrow> heap_ordered key ns m"
  by (auto simp: heap_ordered_def)

lemma heap_ordered_cong:
  "(\<And>i. i < n \<Longrightarrow> key (ns ! i) = key' (ns' ! i)) \<Longrightarrow> heap_ordered key ns n = heap_ordered key' ns' n"
  by (auto simp: heap_ordered_def) (metis hparent_less less_trans)+

section \<open>Sifting up\<close>

function heapify_up :: "('p \<Rightarrow> 'k :: linorder) \<Rightarrow> 'p list \<Rightarrow> nat \<Rightarrow> 'p list" where
  "heapify_up key ns idx =
     (if idx > 0 then
        let parent = (idx - 1) div 2 in
        if key (ns ! idx) \<ge> key (ns ! parent) then ns
        else heapify_up key (swap_slots ns idx parent) parent
      else ns)"
  by pat_completeness auto
termination
  by (relation "measure (\<lambda>(key, ns, idx). idx)") auto

declare heapify_up.simps [simp del]

lemma heapify_up_permutes:
  "idx < n \<Longrightarrow> n \<le> length ns \<Longrightarrow>
     length (heapify_up key ns idx) = length ns \<and>
     mset (take n (heapify_up key ns idx)) = mset (take n ns) \<and>
     drop n (heapify_up key ns idx) = drop n ns"
proof (induction key ns idx rule: heapify_up.induct)
  case (1 key ns idx)
  show ?case
  proof (cases "idx > 0 \<and> \<not> key (ns ! idx) \<ge> key (ns ! ((idx - 1) div 2))")
    case True
    have less: "(idx - 1) div 2 < n" using "1.prems" by auto
    show ?thesis
      using "1.IH"[OF _ refl] "1.prems" True less
      by (subst (1 2 3) heapify_up.simps) (simp add: Let_def)
  next
    case False
    then show ?thesis by (subst (1 2 3) heapify_up.simps) (auto simp: Let_def)
  qed
qed

lemma heap_but_up_step:
  assumes but: "heap_but_up key ns n k" and k: "0 < k" "k < n" and len: "n \<le> length ns"
    and lt: "key (ns ! k) < key (ns ! hparent k)"
  shows "heap_but_up key (swap_slots ns k (hparent k)) n (hparent k)"
proof -
  let ?p = "hparent k"
  have p: "?p < k" using k(1) by (rule hparent_less)
  have kl: "k < length ns" "?p < length ns" using p k len by auto
  let ?ns = "swap_slots ns k ?p"
  have sw: "?ns ! j = (if j = k then ns ! ?p else if j = ?p then ns ! k else ns ! j)" if "j < n" for j
    using that kl len by (simp add: nth_swap_slots)
  have ord: "key (ns ! hparent i) \<le> key (ns ! i)" if "i < n" "0 < i" "i \<noteq> k" for i
    using but that by (auto simp: heap_but_up_def)
  have gp: "key (ns ! ?p) \<le> key (ns ! i)" if "i < n" "0 < i" "hparent i = k" for i
    using but that k by (auto simp: heap_but_up_def)
  show ?thesis
    unfolding heap_but_up_def
  proof (intro conjI allI impI)
    fix i assume i: "i < n" "0 < i" "i \<noteq> ?p"
    have h: "hparent i < n" "hparent i \<noteq> i" using i hparent_less[of i] by auto
    show "key (?ns ! hparent i) \<le> key (?ns ! i)"
    proof (cases "hparent i = k")
      case True
      then show ?thesis using i h gp[of i] by (simp add: sw)
    next
      case False
      then show ?thesis using i h ord[of i] lt by (cases "i = k") (auto simp: sw)
    qed
  next
    fix i assume i: "i < n" "0 < i" "0 < ?p" "hparent i = ?p"
    have pp: "hparent ?p < n" "hparent ?p \<noteq> ?p" "hparent ?p \<noteq> k"
      using i(3) hparent_less[of ?p] p k by auto
    have up: "key (ns ! hparent ?p) \<le> key (ns ! ?p)" using ord[of ?p] i p k by auto
    show "key (?ns ! hparent ?p) \<le> key (?ns ! i)"
      using i pp up ord[of i] hparent_less[of i] by (cases "i = k") (auto simp: sw)
  qed
qed

lemma heapify_up_ordered:
  "heap_but_up key ns n idx \<Longrightarrow> idx < n \<Longrightarrow> n \<le> length ns \<Longrightarrow> heap_ordered key (heapify_up key ns idx) n"
proof (induction key ns idx rule: heapify_up.induct)
  case (1 key ns idx)
  show ?case
  proof (cases "idx > 0 \<and> \<not> key (ns ! idx) \<ge> key (ns ! ((idx - 1) div 2))")
    case True
    then have "heap_but_up key (swap_slots ns idx (hparent idx)) n (hparent idx)"
      using "1.prems" by (intro heap_but_up_step) (auto simp: hparent_def)
    moreover have "hparent idx < n" using "1.prems" hparent_le[of idx] by simp
    ultimately show ?thesis
      using "1.IH"[OF _ refl] "1.prems" True
      by (subst heapify_up.simps) (simp add: Let_def hparent_def)
  next
    case False
    have "heap_ordered key ns n"
      unfolding heap_ordered_def
    proof (intro allI impI)
      fix i assume "i < n" "0 < i"
      then show "key (ns ! hparent i) \<le> key (ns ! i)"
        using "1.prems" False by (cases "i = idx") (auto simp: heap_but_up_def hparent_def)
    qed
    with False show ?thesis by (subst heapify_up.simps) (auto simp: Let_def)
  qed
qed

text \<open>Appending a pointer and sifting it up.\<close>

lemma heap_but_up_append:
  assumes "heap_ordered key ns n" "n < length ns"
  shows "heap_but_up key (ns[n := x]) (Suc n) n"
proof -
  have old: "(ns[n := x]) ! hparent i = ns ! hparent i" if "0 < i" "i < Suc n" for i
    using hparent_less[OF that(1)] that(2) by (intro nth_list_update_neq) simp
  have nochild: "hparent i \<noteq> n" if "0 < i" "i < Suc n" for i
    using hparent_less[OF that(1)] that(2) by simp
  show ?thesis
    using assms old nochild by (auto simp: heap_but_up_def heap_ordered_def)
qed

section \<open>Sifting down\<close>

function heapify_down :: "('p \<Rightarrow> 'k :: linorder) \<Rightarrow> 'p list \<Rightarrow> nat \<Rightarrow> nat \<Rightarrow> 'p list" where
  "heapify_down key ns sz idx =
     (if idx * 2 + 1 < sz then
        let smallest = idx * 2 + 1;
            right = idx * 2 + 2;
            smallest = (if right < sz \<and> key (ns ! right) < key (ns ! smallest) then right else smallest)
        in if key (ns ! idx) \<le> key (ns ! smallest) then ns
           else heapify_down key (swap_slots ns idx smallest) sz smallest
      else ns)"
  by pat_completeness auto
termination
  by (relation "measure (\<lambda>(key, ns, sz, idx). sz - idx)") (auto simp: Let_def split: if_splits)

declare heapify_down.simps [simp del]

text \<open>The child the loop looks at.\<close>

definition min_child :: "('p \<Rightarrow> 'k :: linorder) \<Rightarrow> 'p list \<Rightarrow> nat \<Rightarrow> nat \<Rightarrow> nat" where
  "min_child key ns sz i =
     (if 2 * i + 2 < sz \<and> key (ns ! (2 * i + 2)) < key (ns ! (2 * i + 1)) then 2 * i + 2 else 2 * i + 1)"

lemma heapify_down_unfold:
  "heapify_down key ns sz idx =
     (if 2 * idx + 1 < sz \<and> key (ns ! min_child key ns sz idx) < key (ns ! idx)
      then heapify_down key (swap_slots ns idx (min_child key ns sz idx)) sz (min_child key ns sz idx)
      else ns)"
  by (subst heapify_down.simps) (auto simp: Let_def min_child_def mult.commute)

lemma heapify_down_induct [case_names step]:
  assumes "\<And>ns idx. (2 * idx + 1 < sz \<Longrightarrow> key (ns ! min_child key ns sz idx) < key (ns ! idx) \<Longrightarrow>
      P (swap_slots ns idx (min_child key ns sz idx)) (min_child key ns sz idx)) \<Longrightarrow> P ns idx"
  shows "P ns idx"
proof (induction "sz - idx" arbitrary: ns idx rule: less_induct)
  case less
  show ?case
    by (rule assms) (rule less, auto simp: min_child_def)
qed

lemma min_child_facts:
  assumes "2 * i + 1 < n"
  shows "i < min_child key ns n i" "min_child key ns n i < n" "hparent (min_child key ns n i) = i"
    "0 < j \<Longrightarrow> j < n \<Longrightarrow> hparent j = i \<Longrightarrow> key (ns ! min_child key ns n i) \<le> key (ns ! j)"
  using assms by (auto simp: min_child_def hparent_child_cases not_less)

lemma heapify_down_permutes:
  "n \<le> length ns \<Longrightarrow>
     length (heapify_down key ns n idx) = length ns \<and>
     mset (take n (heapify_down key ns n idx)) = mset (take n ns) \<and>
     drop n (heapify_down key ns n idx) = drop n ns"
proof (induction ns idx rule: heapify_down_induct[where sz = n and key = key])
  case (step ns idx)
  show ?case
  proof (cases "2 * idx + 1 < n \<and> key (ns ! min_child key ns n idx) < key (ns ! idx)")
    case True
    moreover have "idx < n" "min_child key ns n idx < n"
      using True min_child_facts[where i = idx and n = n and key = key and ns = ns] by auto
    ultimately show ?thesis
      using step by (subst (1 2 3) heapify_down_unfold) simp
  next
    case False
    then show ?thesis by (subst (1 2 3) heapify_down_unfold) auto
  qed
qed

lemma heap_but_down_step:
  assumes but: "heap_but_down key ns n k" and k: "2 * k + 1 < n" and len: "n \<le> length ns"
    and lt: "key (ns ! min_child key ns n k) < key (ns ! k)"
  shows "heap_but_down key (swap_slots ns k (min_child key ns n k)) n (min_child key ns n k)"
proof -
  obtain c where c: "c = min_child key ns n k" by simp
  have c': "k < c" "c < n" "hparent c = k"
    using min_child_facts[OF k, where key = key and ns = ns] by (auto simp: c)
  have cmin: "key (ns ! c) \<le> key (ns ! j)" if "0 < j" "j < n" "hparent j = k" for j
    using min_child_facts(4)[OF k, where key = key and ns = ns] that by (simp add: c)
  have lt': "key (ns ! c) < key (ns ! k)" using lt by (simp add: c)
  let ?ns = "swap_slots ns k c"
  have sw: "?ns ! j = (if j = k then ns ! c else if j = c then ns ! k else ns ! j)" if "j < n" for j
    using that c' len by (simp add: nth_swap_slots)
  have ord: "key (ns ! hparent i) \<le> key (ns ! i)" if "i < n" "0 < i" "hparent i \<noteq> k" for i
    using but that by (auto simp: heap_but_down_def)
  have gp: "key (ns ! hparent k) \<le> key (ns ! i)" if "i < n" "0 < i" "0 < k" "hparent i = k" for i
    using but that by (auto simp: heap_but_down_def)
  have "heap_but_down key ?ns n c"
    unfolding heap_but_down_def
  proof (intro conjI allI impI)
    fix i assume i: "i < n" "0 < i" "hparent i \<noteq> c"
    have h: "hparent i < n" "hparent i \<noteq> i" using i hparent_less[of i] by auto
    show "key (?ns ! hparent i) \<le> key (?ns ! i)"
    proof (cases "hparent i = k")
      case True
      then show ?thesis using i h c' lt' cmin[of i] by (cases "i = c") (auto simp: sw)
    next
      case False
      then show ?thesis using i h c' ord[of i] gp[of c] by (cases "i = k") (auto simp: sw)
    qed
  next
    fix i assume i: "i < n" "0 < i" "0 < c" "hparent i = c"
    have "i \<noteq> k" "i \<noteq> c" "k < n" using i c' hparent_less[of i] by auto
    then show "key (?ns ! hparent c) \<le> key (?ns ! i)"
      using i c' ord[of i] by (auto simp: sw)
  qed
  then show ?thesis by (simp add: c)
qed

lemma heapify_down_ordered:
  "heap_but_down key ns n idx \<Longrightarrow> n \<le> length ns \<Longrightarrow> heap_ordered key (heapify_down key ns n idx) n"
proof (induction ns idx rule: heapify_down_induct[where sz = n and key = key])
  case (step ns idx)
  show ?case
  proof (cases "2 * idx + 1 < n \<and> key (ns ! min_child key ns n idx) < key (ns ! idx)")
    case True
    then have "heap_ordered key (heapify_down key (swap_slots ns idx (min_child key ns n idx)) n
        (min_child key ns n idx)) n"
      using step by (auto intro!: step.IH heap_but_down_step)
    with True show ?thesis by (subst heapify_down_unfold) simp
  next
    case False
    have "heap_ordered key ns n"
      unfolding heap_ordered_def
    proof (intro allI impI)
      fix i assume i: "i < n" "0 < i"
      show "key (ns ! hparent i) \<le> key (ns ! i)"
      proof (cases "hparent i = idx")
        case True
        then have "2 * idx + 1 < n" using i hparent_child_cases[of i idx] by auto
        moreover have "key (ns ! idx) \<le> key (ns ! min_child key ns n idx)"
          using False calculation by auto
        ultimately show ?thesis
          using True i min_child_facts(4)[where i = idx and n = n and j = i and key = key and ns = ns]
          by (metis order_trans)
      next
        case False
        then show ?thesis using step.prems i by (auto simp: heap_but_down_def)
      qed
    qed
    with False show ?thesis by (subst heapify_down_unfold) auto
  qed
qed

section \<open>Taking a slot out\<close>

text \<open>
  \<open>nodes[i] = nodes[--size]; heapify_down(i)\<close>. The order survives when the pointer moved
  into slot \<open>i\<close> is not smaller than the parent of that slot; that is always so for the
  root.
\<close>

lemma heap_but_down_move_last:
  assumes ord: "heap_ordered key ns n" and i: "i < n" and len: "n \<le> length ns"
    and par: "0 < i \<Longrightarrow> key (ns ! hparent i) \<le> key (ns ! (n - 1))"
  shows "heap_but_down key (move_last ns n i) (n - 1) i"
proof -
  have at: "move_last ns n i ! j = (if j = i then ns ! (n - 1) else ns ! j)" if "j < n" for j
    using that i len by (simp add: nth_move_last)
  have up: "key (ns ! hparent j) \<le> key (ns ! j)" if "j < n" "0 < j" for j
    using ord that by (simp add: heap_orderedD)
  show ?thesis
    unfolding heap_but_down_def
  proof (intro conjI allI impI)
    fix j assume j: "j < n - 1" "0 < j" "hparent j \<noteq> i"
    then have "hparent j < n" "hparent j < j" using hparent_less[of j] by auto
    then show "key (move_last ns n i ! hparent j) \<le> key (move_last ns n i ! j)"
      using j par up[of j] by (cases "j = i") (auto simp: at)
  next
    fix j assume j: "j < n - 1" "0 < j" "0 < i" "hparent j = i"
    then have i': "hparent i < i" "i < j" using hparent_less[of j] hparent_less[of i] by auto
    have "key (ns ! hparent i) \<le> key (ns ! i)" using j i' by (intro up) auto
    also have "\<dots> \<le> key (ns ! j)" using up[of j] j by simp
    finally show "key (move_last ns n i ! hparent i) \<le> key (move_last ns n i ! j)"
      using j i' i by (simp add: at)
  qed
qed

definition heap_take_out :: "('p \<Rightarrow> 'k :: linorder) \<Rightarrow> 'p list \<Rightarrow> nat \<Rightarrow> nat \<Rightarrow> 'p list" where
  "heap_take_out key ns n i = heapify_down key (move_last ns n i) (n - 1) i"

lemma length_heap_take_out [simp]: "n \<le> length ns \<Longrightarrow> length (heap_take_out key ns n i) = length ns"
  using heapify_down_permutes[of "n - 1" "move_last ns n i" key i] by (simp add: heap_take_out_def)

lemma mset_heap_take_out:
  assumes "i < n" "n \<le> length ns"
  shows "mset (take (n - 1) (heap_take_out key ns n i)) = mset (take n ns) - {#ns ! i#}"
  using heapify_down_permutes[of "n - 1" "move_last ns n i" key i] assms
    mset_take_move_last[OF assms] by (simp add: heap_take_out_def)

lemma heap_take_out_ordered:
  assumes "heap_ordered key ns n" "i < n" "n \<le> length ns"
    "0 < i \<Longrightarrow> key (ns ! hparent i) \<le> key (ns ! (n - 1))"
  shows "heap_ordered key (heap_take_out key ns n i) (n - 1)"
  unfolding heap_take_out_def
  by (rule heapify_down_ordered) (use assms heap_but_down_move_last in auto)

section \<open>The priority-queue interface\<close>

text \<open>
  What the timer code relies on: pushing adds one element, the least element is one with the
  least key, popping removes it. \<open>pop_due\<close> takes least elements while their key is at most a
  deadline, with fuel for the number of elements.
\<close>

fun pop_due :: "nat \<Rightarrow> ('p \<Rightarrow> 'k :: linorder) \<Rightarrow> ('q \<Rightarrow> bool) \<Rightarrow> ('q \<Rightarrow> 'p) \<Rightarrow> ('q \<Rightarrow> 'q) \<Rightarrow> 'k \<Rightarrow> 'q \<Rightarrow> 'p list \<times> 'q"
where
  "pop_due 0 key nothing least pop now q = ([], q)"
| "pop_due (Suc n) key nothing least pop now q =
     (if \<not> nothing q \<and> key (least q) \<le> now
      then let (xs, r) = pop_due n key nothing least pop now (pop q) in (least q # xs, r)
      else ([], q))"

locale min_queue =
  fixes key :: "'p \<Rightarrow> 'k :: linorder"
    and bag :: "'q \<Rightarrow> 'p multiset"
    and invar :: "'q \<Rightarrow> bool"
    and room :: "'q \<Rightarrow> bool"
    and nothing :: "'q \<Rightarrow> bool"
    and push :: "'p \<Rightarrow> 'q \<Rightarrow> 'q"
    and least :: "'q \<Rightarrow> 'p"
    and pop :: "'q \<Rightarrow> 'q"
  assumes bag_push: "invar q \<Longrightarrow> room q \<Longrightarrow> invar (push p q) \<and> bag (push p q) = add_mset p (bag q)"
    and empty_iff: "invar q \<Longrightarrow> nothing q \<longleftrightarrow> bag q = {#}"
    and top_in: "invar q \<Longrightarrow> bag q \<noteq> {#} \<Longrightarrow> least q \<in># bag q"
    and top_least: "invar q \<Longrightarrow> p \<in># bag q \<Longrightarrow> key (least q) \<le> key p"
    and bag_pop: "invar q \<Longrightarrow> bag q \<noteq> {#} \<Longrightarrow> invar (pop q) \<and> bag (pop q) = bag q - {#least q#}"
begin

lemma bag_pop_add: "invar q \<Longrightarrow> bag q \<noteq> {#} \<Longrightarrow> bag q = add_mset (least q) (bag (pop q))"
  using bag_pop[of q] top_in[of q] by simp

lemma pop_due_spec:
  "invar q \<Longrightarrow> size (bag q) \<le> n \<Longrightarrow> pop_due n key nothing least pop now q = (xs, r) \<Longrightarrow>
     invar r \<and> bag q = mset xs + bag r \<and> sorted (map key xs) \<and>
     (\<forall>x \<in> set xs. key x \<le> now) \<and> (\<forall>p. p \<in># bag r \<longrightarrow> now < key p)"
proof (induction n arbitrary: q xs r)
  case (Suc n)
  show ?case
  proof (cases "\<not> nothing q \<and> key (least q) \<le> now")
    case True
    then have ne: "bag q \<noteq> {#}" using empty_iff Suc.prems(1) by simp
    obtain ys where ys: "pop_due n key nothing least pop now (pop q) = (ys, r)" "xs = least q # ys"
      using True Suc.prems(3) by (auto split: prod.splits)
    have add: "bag q = add_mset (least q) (bag (pop q))" using Suc.prems(1) ne by (rule bag_pop_add)
    have inv': "invar (pop q)" using bag_pop[OF Suc.prems(1) ne] by simp
    have sz: "size (bag (pop q)) \<le> n"
      using Suc.prems(2) arg_cong[OF add, of size] by simp
    have IH: "invar r \<and> bag (pop q) = mset ys + bag r \<and> sorted (map key ys) \<and>
        (\<forall>x \<in> set ys. key x \<le> now) \<and> (\<forall>p. p \<in># bag r \<longrightarrow> now < key p)"
      by (rule Suc.IH[OF inv' sz ys(1)])
    then have bagq: "bag q = add_mset (least q) (mset ys + bag r)" using add by simp
    have "key (least q) \<le> key y" if "y \<in> set ys" for y
      using top_least[OF Suc.prems(1), of y] that by (simp add: bagq)
    then show ?thesis using IH bagq ys(2) True by simp
  next
    case False
    then have [simp]: "xs = []" "r = q" using Suc.prems(3) by (auto split: if_splits)
    have "now < key p" if "p \<in># bag q" for p
    proof -
      have "\<not> nothing q" using that empty_iff[OF Suc.prems(1)] by auto
      then have "now < key (least q)" using False by auto
      also have "\<dots> \<le> key p" using top_least[OF Suc.prems(1) that] .
      finally show ?thesis .
    qed
    then show ?thesis using Suc.prems by simp
  qed
qed simp

end

end
