(* ===== verification/NodeState.thy ===== *)
theory NodeState
  imports RingQueue TimerHeap
begin

text \<open>
  The state of a node process that the scheduler works on: the thread objects
  (\<open>nos_thread_t\<close> of \<open>include/nos_scheduler.h\<close>), the timer objects they share and the
  monotonic clock. Pointers to components, callbacks and arguments are numbers with 0 for
  \<open>NULL\<close>; a buffer pointer says which pool it comes from.

  Arrays keep their C length and their separate element count, so a slot beyond the count
  holds whatever was last written there, as it does in the code.
\<close>

type_synonym ptr = nat

abbreviation (input) NULL :: ptr where "NULL \<equiv> 0"

text \<open>A chunk of the local pool (\<open>bin_idx\<close>, \<open>pool_idx\<close>) or a shared-memory block (its offset).\<close>

datatype buf_ref = PoolBuf nat nat | ShmBuf u32

datatype thread_ref = Mgmt | Worker nat

definition MAX_QUEUE_SIZE :: nat where "MAX_QUEUE_SIZE = 1024"

definition MAX_COMP_PER_THREAD :: nat where "MAX_COMP_PER_THREAD = 32"

definition MAX_FDS :: nat where "MAX_FDS = 32"

definition TIMER_HEAP_CAPACITY :: nat where "TIMER_HEAP_CAPACITY = 128"

section \<open>Threads\<close>

record nos_fd_entry =
  fde_fd :: int
  fde_callback :: ptr
  fde_arg :: ptr

text \<open>What \<open>epoll_event.data.ptr\<close> points to: the notify entry or a slot of \<open>fd_entries\<close>.\<close>

datatype epoll_data = NotifyEntry | FdSlot nat

record nos_timer_heap =
  heap_nodes :: "ptr list"
  heap_size :: nat
  heap_capacity :: nat

text \<open>
  \<open>epoll_set\<close> is the kernel's interest list of \<open>epoll_fd\<close> and \<open>notify_count\<close> the counter
  of the eventfd \<open>notify_fd\<close>.
\<close>

record nos_thread =
  thread_id :: nat
  thread_name :: string
  epoll_set :: "int \<rightharpoonup> u32 \<times> epoll_data"
  notify_fd :: int
  notify_count :: nat
  notify_entry :: nos_fd_entry
  stop_requested :: bool
  is_sleeping :: bool
  msg_queue :: "buf_ref option list"
  head :: nat
  tail :: nat
  components :: "ptr list"
  component_count :: nat
  fd_entries :: "nos_fd_entry list"
  fd_count :: nat
  timer_heap :: nos_timer_heap

definition zero_fd_entry :: nos_fd_entry where
  "zero_fd_entry = \<lparr>fde_fd = 0, fde_callback = NULL, fde_arg = NULL\<rparr>"

definition EPOLLIN :: u32 where "EPOLLIN = 1"

text \<open>
  \<open>nos_scheduler_init_thread\<close>: \<open>efd\<close> is what \<open>eventfd\<close> returns. The \<open>calloc\<close> calls are
  not checked by the code and are taken to succeed. \<open>self\<close> is the thread's own address, which
  the notify entry carries as its argument.
\<close>

definition nos_scheduler_init_thread :: "ptr \<Rightarrow> nos_thread \<Rightarrow> nat \<Rightarrow> string \<Rightarrow> int \<Rightarrow> nos_status \<times> nos_thread" where
  "nos_scheduler_init_thread self th i name efd =
     (let th = th\<lparr>thread_id := i, thread_name := name,
                   components := replicate MAX_COMP_PER_THREAD NULL, component_count := 0,
                   fd_entries := replicate MAX_FDS zero_fd_entry, fd_count := 0,
                   msg_queue := replicate MAX_QUEUE_SIZE None, head := 0, tail := 0,
                   stop_requested := False, is_sleeping := False,
                   epoll_set := Map.empty, notify_fd := efd, notify_count := 0\<rparr>
      in if efd < 0 then (NOS_ERR, th)
         else (NOS_OK,
           th\<lparr>notify_entry := \<lparr>fde_fd = efd, fde_callback = NULL, fde_arg = self\<rparr>,
              epoll_set := [efd \<mapsto> (EPOLLIN, NotifyEntry)],
              timer_heap := \<lparr>heap_nodes = replicate TIMER_HEAP_CAPACITY NULL, heap_size = 0,
                             heap_capacity = TIMER_HEAP_CAPACITY\<rparr>\<rparr>))"

text \<open>\<open>write(notify_fd, 1)\<close> on the eventfd of a thread.\<close>

definition eventfd_write :: "nos_thread \<Rightarrow> nos_thread" where
  "eventfd_write th = th\<lparr>notify_count := notify_count th + 1\<rparr>"

lemma eventfd_write_simps [simp]:
  "components (eventfd_write th) = components th"
  "component_count (eventfd_write th) = component_count th"
  "timer_heap (eventfd_write th) = timer_heap th"
  "msg_queue (eventfd_write th) = msg_queue th"
  "head (eventfd_write th) = head th"
  "tail (eventfd_write th) = tail th"
  "is_sleeping (eventfd_write th) = is_sleeping th"
  "notify_count (eventfd_write th) = Suc (notify_count th)"
  by (simp_all add: eventfd_write_def)

definition nos_scheduler_stop :: "nos_thread \<Rightarrow> nos_thread" where
  "nos_scheduler_stop th = eventfd_write (th\<lparr>stop_requested := True\<rparr>)"

section \<open>Timers and the node\<close>

record nos_timer =
  expire_at_ms :: u64
  interval_ms :: u32
  is_periodic :: bool
  callback :: ptr
  free_arg :: ptr
  arg :: ptr
  is_running :: bool
  owner_thread :: "thread_ref option"

text \<open>
  \<open>clock k\<close> is what the \<open>k\<close>-th call of \<open>clock_gettime(CLOCK_MONOTONIC)\<close> returns (seconds
  and nanoseconds) and \<open>clock_reads\<close> counts the calls made so far. \<open>worker_count\<close> threads
  \<open>Worker 0, Worker 1, ...\<close> form the array \<open>worker_threads\<close>.
\<close>

record tnode =
  threads :: "thread_ref \<rightharpoonup> nos_thread"
  worker_count :: nat
  timers :: "ptr \<rightharpoonup> nos_timer"
  clock :: "nat \<Rightarrow> u64 \<times> u64"
  clock_reads :: nat

definition timespec_ms :: "u64 \<times> u64 \<Rightarrow> u64" where
  "timespec_ms ts = fst ts * 1000 + snd ts div 1000000"

definition get_monotonic_ms :: "'z tnode_scheme \<Rightarrow> u64 \<times> 'z tnode_scheme" where
  "get_monotonic_ms s = (timespec_ms (clock s (clock_reads s)), s\<lparr>clock_reads := clock_reads s + 1\<rparr>)"

definition upd_thread :: "thread_ref \<Rightarrow> (nos_thread \<Rightarrow> nos_thread) \<Rightarrow> 'z tnode_scheme \<Rightarrow> 'z tnode_scheme" where
  "upd_thread r f s = s\<lparr>threads := (threads s)(r := map_option f (threads s r))\<rparr>"

lemma upd_thread_simps [simp]:
  "threads (upd_thread r f s) = (threads s)(r := map_option f (threads s r))"
  "timers (upd_thread r f s) = timers s"
  "worker_count (upd_thread r f s) = worker_count s"
  "clock (upd_thread r f s) = clock s"
  "clock_reads (upd_thread r f s) = clock_reads s"
  by (simp_all add: upd_thread_def)

section \<open>The component table of a thread\<close>

text \<open>A thread or component argument that is \<open>NULL\<close> is \<open>None\<close> and \<open>NULL\<close>.\<close>

definition nos_scheduler_register_component :: "nos_thread option \<Rightarrow> ptr \<Rightarrow> nos_status \<times> nos_thread option" where
  "nos_scheduler_register_component thread cp =
     (case thread of
        None \<Rightarrow> (NOS_ERR, None)
      | Some th \<Rightarrow>
          if cp = NULL then (NOS_ERR, Some th)
          else if component_count th \<ge> MAX_COMP_PER_THREAD then (NOS_ERR, Some th)
          else (NOS_OK, Some (th\<lparr>components := (components th)[component_count th := cp],
                                 component_count := component_count th + 1\<rparr>)))"

definition nos_scheduler_unregister_component :: "nos_thread option \<Rightarrow> ptr \<Rightarrow> nos_status \<times> nos_thread option" where
  "nos_scheduler_unregister_component thread cp =
     (case thread of
        None \<Rightarrow> (NOS_ERR, None)
      | Some th \<Rightarrow>
          if cp = NULL then (NOS_ERR, Some th)
          else (case find_slot (\<lambda>c. c = cp) (component_count th) (components th) of
                  None \<Rightarrow> (NOS_ERR, Some th)
                | Some i \<Rightarrow> (NOS_OK, Some (th\<lparr>components := move_last (components th) (component_count th) i,
                                               component_count := component_count th - 1\<rparr>))))"

definition thread_comps :: "nos_thread \<Rightarrow> ptr list" where
  "thread_comps th = take (component_count th) (components th)"

definition comps_ok :: "nos_thread \<Rightarrow> bool" where
  "comps_ok th \<longleftrightarrow> length (components th) = MAX_COMP_PER_THREAD \<and> component_count th \<le> MAX_COMP_PER_THREAD"

definition has_comp :: "ptr \<Rightarrow> nos_thread \<Rightarrow> bool" where
  "has_comp cp th \<longleftrightarrow> find_slot (\<lambda>c. c = cp) (component_count th) (components th) \<noteq> None"

lemma has_comp_iff: "comps_ok th \<Longrightarrow> has_comp cp th \<longleftrightarrow> cp \<in> set (thread_comps th)"
  by (auto simp: has_comp_def find_slot_def find_from_None thread_comps_def simp del: not_None_eq)

lemma register_comps:
  assumes "comps_ok th" "cp \<noteq> NULL"
  shows "if length (thread_comps th) = MAX_COMP_PER_THREAD
    then nos_scheduler_register_component (Some th) cp = (NOS_ERR, Some th)
    else \<exists>t. nos_scheduler_register_component (Some th) cp = (NOS_OK, Some t) \<and> comps_ok t \<and> thread_comps t = thread_comps th @ [cp]"
  using assms
  by (auto simp: nos_scheduler_register_component_def comps_ok_def thread_comps_def take_Suc_conv_app_nth)

lemma unregister_comps:
  assumes "comps_ok th" "cp \<noteq> NULL"
  shows "if cp \<in> set (thread_comps th)
    then \<exists>t. nos_scheduler_unregister_component (Some th) cp = (NOS_OK, Some t) \<and> comps_ok t \<and>
      mset (thread_comps t) = mset (thread_comps th) - {#cp#}
    else nos_scheduler_unregister_component (Some th) cp = (NOS_ERR, Some th)"
proof -
  let ?n = "component_count th" and ?cs = "components th"
  have len: "length ?cs = MAX_COMP_PER_THREAD" "?n \<le> MAX_COMP_PER_THREAD" using assms(1) by (auto simp: comps_ok_def)
  show ?thesis
  proof (cases "find_slot (\<lambda>c. c = cp) ?n ?cs")
    case None
    then have "cp \<notin> set (thread_comps th)"
      by (auto simp: find_slot_def find_from_None thread_comps_def)
    then show ?thesis using assms(2) None by (simp add: nos_scheduler_unregister_component_def)
  next
    case (Some i)
    then have i: "i < ?n" "?cs ! i = cp" by (auto dest: find_slot_Some)
    then have "cp \<in> set (thread_comps th)" using len by (auto simp: thread_comps_def in_set_conv_nth intro!: exI[of _ i])
    moreover have "mset (take (?n - 1) (move_last ?cs ?n i)) = mset (take ?n ?cs) - {#cp#}"
      using mset_take_move_last[of i ?n ?cs] i len by simp
    ultimately show ?thesis
      using assms(2) Some len by (auto simp: nos_scheduler_unregister_component_def thread_comps_def comps_ok_def)
  qed
qed

text \<open>
  \<open>find_thread_of_component\<close>: the management thread first, then the workers in order.
\<close>

fun find_worker_from :: "(thread_ref \<rightharpoonup> nos_thread) \<Rightarrow> ptr \<Rightarrow> nat \<Rightarrow> nat \<Rightarrow> thread_ref option" where
  "find_worker_from ths cp k 0 = None"
| "find_worker_from ths cp k (Suc n) =
     (case ths (Worker k) of
        Some th \<Rightarrow> if has_comp cp th then Some (Worker k) else find_worker_from ths cp (Suc k) n
      | None \<Rightarrow> find_worker_from ths cp (Suc k) n)"

definition find_thread_of_component :: "ptr \<Rightarrow> 'z tnode_scheme \<Rightarrow> thread_ref option" where
  "find_thread_of_component cp s =
     (case threads s Mgmt of
        Some th \<Rightarrow> if has_comp cp th then Some Mgmt
                   else find_worker_from (threads s) cp 0 (worker_count s)
      | None \<Rightarrow> find_worker_from (threads s) cp 0 (worker_count s))"

lemma find_worker_from_Some:
  "find_worker_from ths cp k n = Some r \<Longrightarrow> \<exists>th. ths r = Some th \<and> has_comp cp th"
  by (induction ths cp k n rule: find_worker_from.induct) (auto split: option.splits if_splits)

lemma find_worker_from_None:
  "find_worker_from ths cp k n = None \<longleftrightarrow> (\<forall>j < n. \<forall>th. ths (Worker (k + j)) = Some th \<longrightarrow> \<not> has_comp cp th)"
proof (induction ths cp k n rule: find_worker_from.induct)
  case (2 ths cp k n)
  have all: "(\<forall>j < Suc n. P j) \<longleftrightarrow> P 0 \<and> (\<forall>j < n. P (Suc j))" for P :: "nat \<Rightarrow> bool"
    by (auto simp: less_Suc_eq_0_disj)
  show ?case using 2 by (auto simp: all split: option.splits)
qed simp

lemma find_thread_of_component_Some:
  "find_thread_of_component cp s = Some r \<Longrightarrow> \<exists>th. threads s r = Some th \<and> has_comp cp th"
  by (auto simp: find_thread_of_component_def dest: find_worker_from_Some split: option.splits if_splits)

lemma find_thread_of_component_None:
  "find_thread_of_component cp s = None \<longleftrightarrow>
     (\<forall>th. threads s Mgmt = Some th \<longrightarrow> \<not> has_comp cp th) \<and>
     (\<forall>j < worker_count s. \<forall>th. threads s (Worker j) = Some th \<longrightarrow> \<not> has_comp cp th)"
  by (auto simp: find_thread_of_component_def find_worker_from_None split: option.splits)

lemma find_thread_cong:
  assumes "\<And>r. map_option (\<lambda>th. (component_count th, components th)) (threads s r) =
      map_option (\<lambda>th. (component_count th, components th)) (threads s' r)"
    and "worker_count s = worker_count s'"
  shows "find_thread_of_component cp s = find_thread_of_component cp s'"
proof -
  have has: "map_option (has_comp cp) (threads s r) = map_option (has_comp cp) (threads s' r)" for r
    using assms(1)[of r] by (cases "threads s r"; cases "threads s' r") (auto simp: has_comp_def)
  have "find_worker_from (threads s) cp k n = find_worker_from (threads s') cp k n" for k n
  proof (induction n arbitrary: k)
    case (Suc n)
    then show ?case using has[of "Worker k"] by (auto split: option.splits)
  qed simp
  then show ?thesis
    using has[of Mgmt] assms(2) by (auto simp: find_thread_of_component_def split: option.splits)
qed

end
