(* ===== verification/Timers.thy ===== *)
theory Timers
  imports NodeState
begin

text \<open>
  The timer service (\<open>nos_timer_create\<close>, \<open>nos_timer_start\<close>, \<open>nos_timer_stop\<close>,
  \<open>nos_timer_delete\<close> and \<open>process_timers\<close> of \<open>src/core/nos_scheduler.c\<close>) over the thread
  and timer objects of \<open>NodeState\<close>. Callbacks are component code: a parameter \<open>cb\<close> that
  says what calling a function pointer with an argument does to the node.
\<close>

section \<open>Heaps of timer pointers\<close>

definition timer_key :: "'z tnode_scheme \<Rightarrow> ptr \<Rightarrow> u64" where
  "timer_key s p = (case timers s p of Some t \<Rightarrow> expire_at_ms t | None \<Rightarrow> 0)"

text \<open>\<open>nodes[size] = p; heapify_up(size++)\<close> and \<open>nodes[i] = nodes[--size]; heapify_down(i)\<close>.\<close>

definition heap_push :: "(ptr \<Rightarrow> u64) \<Rightarrow> ptr \<Rightarrow> nos_timer_heap \<Rightarrow> nos_timer_heap" where
  "heap_push key p h =
     h\<lparr>heap_nodes := heapify_up key ((heap_nodes h)[heap_size h := p]) (heap_size h),
       heap_size := heap_size h + 1\<rparr>"

definition heap_remove :: "(ptr \<Rightarrow> u64) \<Rightarrow> nat \<Rightarrow> nos_timer_heap \<Rightarrow> nos_timer_heap" where
  "heap_remove key i h =
     h\<lparr>heap_nodes := heap_take_out key (heap_nodes h) (heap_size h) i,
       heap_size := heap_size h - 1\<rparr>"

definition heap_list :: "nos_timer_heap \<Rightarrow> ptr list" where
  "heap_list h = take (heap_size h) (heap_nodes h)"

definition heap_bounds :: "nos_timer_heap \<Rightarrow> bool" where
  "heap_bounds h \<longleftrightarrow> heap_capacity h = length (heap_nodes h) \<and> heap_size h \<le> heap_capacity h"

definition heap_sorted :: "(ptr \<Rightarrow> u64) \<Rightarrow> nos_timer_heap \<Rightarrow> bool" where
  "heap_sorted key h \<longleftrightarrow> heap_ordered key (heap_nodes h) (heap_size h)"

lemma heap_capacity_ops [simp]:
  "heap_capacity (heap_push key p h) = heap_capacity h"
  "heap_capacity (heap_remove key i h) = heap_capacity h"
  "heap_size (heap_push key p h) = Suc (heap_size h)"
  "heap_size (heap_remove key i h) = heap_size h - 1"
  by (simp_all add: heap_push_def heap_remove_def)

lemma heap_push_list:
  assumes "heap_bounds h" "heap_size h < heap_capacity h"
  shows "heap_bounds (heap_push key p h)"
    and "mset (heap_list (heap_push key p h)) = add_mset p (mset (heap_list h))"
proof -
  have n: "heap_size h < length (heap_nodes h)" using assms by (simp add: heap_bounds_def)
  note perm = heapify_up_permutes[of "heap_size h" "Suc (heap_size h)" "(heap_nodes h)[heap_size h := p]" key]
  show "heap_bounds (heap_push key p h)"
    using assms perm n by (simp add: heap_bounds_def heap_push_def)
  have "take (Suc (heap_size h)) ((heap_nodes h)[heap_size h := p]) = heap_list h @ [p]"
    using n by (simp add: take_Suc_conv_app_nth heap_list_def)
  then show "mset (heap_list (heap_push key p h)) = add_mset p (mset (heap_list h))"
    using perm n by (simp add: heap_list_def heap_push_def)
qed

lemma heap_push_sorted:
  assumes "heap_bounds h" "heap_size h < heap_capacity h" "heap_sorted key h"
  shows "heap_sorted key (heap_push key p h)"
  using assms heapify_up_ordered[OF heap_but_up_append[of key "heap_nodes h" "heap_size h" p]]
  by (simp add: heap_sorted_def heap_push_def heap_bounds_def)

lemma heap_remove_list:
  assumes "heap_bounds h" "i < heap_size h"
  shows "heap_bounds (heap_remove key i h)"
    and "mset (heap_list (heap_remove key i h)) = mset (heap_list h) - {#heap_nodes h ! i#}"
proof -
  have n: "heap_size h \<le> length (heap_nodes h)" using assms by (simp add: heap_bounds_def)
  show "heap_bounds (heap_remove key i h)"
    using assms n by (auto simp: heap_bounds_def heap_remove_def)
  show "mset (heap_list (heap_remove key i h)) = mset (heap_list h) - {#heap_nodes h ! i#}"
    using mset_heap_take_out[OF assms(2) n, of key] by (simp add: heap_list_def heap_remove_def)
qed

lemma heap_remove_sorted:
  assumes "heap_bounds h" "heap_sorted key h" "i < heap_size h"
    "0 < i \<Longrightarrow> key (heap_nodes h ! hparent i) \<le> key (heap_nodes h ! (heap_size h - 1))"
  shows "heap_sorted key (heap_remove key i h)"
  using assms heap_take_out_ordered[of key "heap_nodes h" "heap_size h" i]
  by (simp add: heap_sorted_def heap_remove_def heap_bounds_def)

lemma heap_root_least:
  assumes "heap_bounds h" "heap_sorted key h" "p \<in> set (heap_list h)"
  shows "key (heap_nodes h ! 0) \<le> key p"
proof -
  obtain i where "i < heap_size h" "p = heap_nodes h ! i"
    using assms(3) by (auto simp: heap_list_def in_set_conv_nth)
  then show ?thesis using assms(2) by (simp add: heap_sorted_def heap_ordered_root)
qed

lemma heap_list_nonempty: "heap_bounds h \<Longrightarrow> heap_list h = [] \<longleftrightarrow> heap_size h = 0"
  by (auto simp: heap_list_def heap_bounds_def)

lemma heap_nodes_in_list: "heap_bounds h \<Longrightarrow> i < heap_size h \<Longrightarrow> heap_nodes h ! i \<in> set (heap_list h)"
  by (auto simp: heap_list_def heap_bounds_def in_set_conv_nth)

lemma heap_sorted_cong:
  assumes "\<And>p. p \<in> set (heap_list h) \<Longrightarrow> key p = key' p" "heap_bounds h"
  shows "heap_sorted key h = heap_sorted key' h"
  unfolding heap_sorted_def
  by (rule heap_ordered_cong) (use assms heap_nodes_in_list in auto)

text \<open>A thread's heap is a priority queue for any fixed assignment of expiries.\<close>

interpretation timer_queue: min_queue key "\<lambda>h. mset (heap_list h)"
  "\<lambda>h. heap_bounds h \<and> heap_sorted key h" "\<lambda>h. heap_size h < heap_capacity h"
  "\<lambda>h. heap_size h = 0" "heap_push key" "\<lambda>h. heap_nodes h ! 0" "heap_remove key 0" for key
proof (unfold_locales, goal_cases)
  case (1 q p)
  then show ?case by (simp add: heap_push_list heap_push_sorted)
next
  case (2 q)
  then show ?case by (simp add: heap_list_nonempty)
next
  case (3 q)
  then show ?case by (simp add: heap_list_nonempty heap_nodes_in_list)
next
  case (4 q p)
  then show ?case by (simp add: heap_root_least)
next
  case (5 q)
  then show ?case by (simp add: heap_list_nonempty heap_remove_list heap_remove_sorted)
qed

end
