(* ===== verification/TimerService.thy ===== *)
theory TimerService
  imports Timers
begin

text \<open>
  The timer operations on the whole node, their invariants and the properties of
  \<open>process_timers\<close>. \<open>timers\<close> holds the live timer objects: a pointer outside its domain
  is \<open>NULL\<close> or dangling.
\<close>

section \<open>Operations\<close>

definition heap_of :: "'z tnode_scheme \<Rightarrow> thread_ref \<Rightarrow> nos_timer_heap option" where
  "heap_of s r = map_option timer_heap (threads s r)"

definition upd_heap :: "thread_ref \<Rightarrow> (nos_timer_heap \<Rightarrow> nos_timer_heap) \<Rightarrow> 'z tnode_scheme \<Rightarrow> 'z tnode_scheme" where
  "upd_heap r f s = upd_thread r (\<lambda>th. th\<lparr>timer_heap := f (timer_heap th)\<rparr>) s"

definition set_timer :: "ptr \<Rightarrow> nos_timer option \<Rightarrow> 'z tnode_scheme \<Rightarrow> 'z tnode_scheme" where
  "set_timer p t s = s\<lparr>timers := (timers s)(p := t)\<rparr>"

text \<open>\<open>p\<close> is what \<open>calloc\<close> returned.\<close>

definition nos_timer_create :: "ptr \<Rightarrow> ptr \<Rightarrow> ptr \<Rightarrow> ptr \<Rightarrow> 'z tnode_scheme \<Rightarrow> ptr \<times> 'z tnode_scheme" where
  "nos_timer_create p cb ar free_ar s =
     (if p = NULL then (NULL, s)
      else (p, set_timer p (Some \<lparr>expire_at_ms = 0, interval_ms = 0, is_periodic = False, callback = cb,
                                  free_arg = free_ar, arg = ar, is_running = False,
                                  owner_thread = None\<rparr>) s))"

definition nos_timer_start ::
  "ptr \<Rightarrow> ptr \<Rightarrow> u32 \<Rightarrow> bool \<Rightarrow> 'z tnode_scheme \<Rightarrow> nos_status \<times> 'z tnode_scheme" where
  "nos_timer_start self tm interval periodic s =
     (case find_thread_of_component self s of
        None \<Rightarrow> (NOS_ERR, s)
      | Some r \<Rightarrow>
          (case (timers s tm, heap_of s r) of
             (Some t, Some h) \<Rightarrow>
               if is_running t \<or> heap_size h \<ge> heap_capacity h then (NOS_ERR, s)
               else
                 (let (now, s) = get_monotonic_ms s;
                      s = set_timer tm (Some (t\<lparr>interval_ms := interval,
                                                expire_at_ms := now + ucast interval,
                                                is_periodic := periodic, is_running := True,
                                                owner_thread := Some r\<rparr>)) s;
                      s = upd_heap r (heap_push (timer_key s) tm) s
                  in (NOS_OK, upd_thread r eventfd_write s))
           | _ \<Rightarrow> (NOS_ERR, s)))"

text \<open>
  \<open>None\<close> is undefined behaviour: the code reads \<open>timer->owner_thread\<close> before it tests
  \<open>timer\<close> for \<open>NULL\<close>.
\<close>

definition nos_timer_stop :: "ptr \<Rightarrow> ptr \<Rightarrow> 'z tnode_scheme \<Rightarrow> (nos_status \<times> 'z tnode_scheme) option" where
  "nos_timer_stop self tm s =
     (case timers s tm of
        None \<Rightarrow> None
      | Some t \<Rightarrow> Some
          (case (case owner_thread t of None \<Rightarrow> find_thread_of_component self s | Some r \<Rightarrow> Some r) of
             None \<Rightarrow> (NOS_ERR, s)
           | Some r \<Rightarrow>
               if \<not> is_running t then (NOS_ERR, s)
               else
                 (case heap_of s r of
                    None \<Rightarrow> (NOS_ERR, s)
                  | Some h \<Rightarrow>
                      (case find_slot (\<lambda>p. p = tm) (heap_size h) (heap_nodes h) of
                         None \<Rightarrow> (NOS_ERR, s)
                       | Some i \<Rightarrow>
                           (NOS_OK, set_timer tm (Some (t\<lparr>is_running := False\<rparr>))
                                      (upd_heap r (heap_remove (timer_key s) i) s))))))"

text \<open>The loop of \<open>nos_timer_delete\<close> that takes a running timer out of its owner's heap.\<close>

definition unlink_timer :: "ptr \<Rightarrow> nos_timer \<Rightarrow> 'z tnode_scheme \<Rightarrow> 'z tnode_scheme" where
  "unlink_timer tm t s =
     (case (is_running t, owner_thread t) of
        (True, Some r) \<Rightarrow>
          (case heap_of s r of
             None \<Rightarrow> s
           | Some h \<Rightarrow>
               (case find_slot (\<lambda>p. p = tm) (heap_size h) (heap_nodes h) of
                  None \<Rightarrow> s
                | Some i \<Rightarrow> upd_heap r (heap_remove (timer_key s) i) s))
      | _ \<Rightarrow> s)"

text \<open>\<open>None\<close> is a dangling pointer or a timer that its own \<open>free_arg\<close> already freed.\<close>

definition nos_timer_delete ::
  "(ptr \<Rightarrow> ptr \<Rightarrow> 'z tnode_scheme \<Rightarrow> 'z tnode_scheme) \<Rightarrow> ptr \<Rightarrow> 'z tnode_scheme \<Rightarrow> 'z tnode_scheme option" where
  "nos_timer_delete cb tm s =
     (if tm = NULL then Some s
      else case timers s tm of
             None \<Rightarrow> None
           | Some t \<Rightarrow>
               (let s = unlink_timer tm t s;
                    s = (if free_arg t \<noteq> NULL then cb (free_arg t) (arg t) s else s)
                in case timers s tm of
                     None \<Rightarrow> None
                   | Some _ \<Rightarrow> Some (set_timer tm None s)))"

text \<open>
  One iteration of the loop of \<open>process_timers\<close> on thread \<open>r\<close>, whose heap is not empty.
  \<open>None\<close> is undefined behaviour: the callback freed the timer that is running it (the code
  then reads \<open>timer->is_periodic\<close>), or it filled the heap so that re-arming the timer
  writes past the end of the array.
\<close>

definition fire_timer ::
  "(ptr \<Rightarrow> ptr \<Rightarrow> 'z tnode_scheme \<Rightarrow> 'z tnode_scheme) \<Rightarrow> thread_ref \<Rightarrow> nos_timer_heap \<Rightarrow> 'z tnode_scheme
     \<Rightarrow> 'z tnode_scheme option" where
  "fire_timer cb r h s =
     (let tm = heap_nodes h ! 0 in
      case timers s tm of
        None \<Rightarrow> None
      | Some t \<Rightarrow>
          (let s = upd_heap r (heap_remove (timer_key s) 0) s;
               s = set_timer tm (Some (t\<lparr>is_running := False\<rparr>)) s;
               s = (if callback t \<noteq> NULL then cb (callback t) (arg t) s else s)
           in case timers s tm of
                None \<Rightarrow> None
              | Some t \<Rightarrow>
                  if is_periodic t then
                    (let (now, s) = get_monotonic_ms s;
                         s = set_timer tm (Some (t\<lparr>expire_at_ms := now + ucast (interval_ms t),
                                                   is_running := True\<rparr>)) s
                     in case heap_of s r of
                          None \<Rightarrow> None
                        | Some h \<Rightarrow>
                            if heap_size h \<ge> length (heap_nodes h) then None
                            else Some (upd_heap r (heap_push (timer_key s) tm) s))
                  else Some s))"

datatype 'a run = Returned 'a | Undefined | OutOfFuel

fun process_timers_loop ::
  "nat \<Rightarrow> (ptr \<Rightarrow> ptr \<Rightarrow> 'z tnode_scheme \<Rightarrow> 'z tnode_scheme) \<Rightarrow> thread_ref \<Rightarrow> u64 \<Rightarrow> 'z tnode_scheme
     \<Rightarrow> (u64 \<times> 'z tnode_scheme) run" where
  "process_timers_loop fuel cb r now s =
     (case heap_of s r of
        None \<Rightarrow> Undefined
      | Some h \<Rightarrow>
          if heap_size h > 0 \<and> now \<ge> timer_key s (heap_nodes h ! 0) then
            (case fuel of
               0 \<Rightarrow> OutOfFuel
             | Suc n \<Rightarrow>
                 (case fire_timer cb r h s of
                    None \<Rightarrow> Undefined
                  | Some s \<Rightarrow> (let (now, s) = get_monotonic_ms s in process_timers_loop n cb r now s)))
          else Returned (now, s))"

definition process_timers ::
  "nat \<Rightarrow> (ptr \<Rightarrow> ptr \<Rightarrow> 'z tnode_scheme \<Rightarrow> 'z tnode_scheme) \<Rightarrow> thread_ref \<Rightarrow> 'z tnode_scheme
     \<Rightarrow> (u64 \<times> 'z tnode_scheme) run" where
  "process_timers fuel cb r s = (let (now, s) = get_monotonic_ms s in process_timers_loop fuel cb r now s)"

declare process_timers_loop.simps [simp del]

section \<open>Frame rules\<close>

lemma heap_of_simps [simp]:
  "heap_of (upd_heap r f s) = (heap_of s)(r := map_option f (heap_of s r))"
  "heap_of (set_timer p t s) = heap_of s"
  "heap_of (s\<lparr>clock_reads := k\<rparr>) = heap_of s"
  "heap_of (upd_thread r eventfd_write s) = heap_of s"
  by (auto simp: heap_of_def upd_heap_def set_timer_def fun_eq_iff option.map_comp comp_def
      intro!: option.map_cong0)

lemma timers_simps [simp]:
  "timers (upd_heap r f s) = timers s"
  "timers (set_timer p t s) = (timers s)(p := t)"
  by (auto simp: upd_heap_def set_timer_def)

lemma clock_simps [simp]:
  "clock (upd_heap r f s) = clock s"
  "clock (set_timer p t s) = clock s"
  "clock_reads (upd_heap r f s) = clock_reads s"
  "clock_reads (set_timer p t s) = clock_reads s"
  by (auto simp: upd_heap_def set_timer_def)

lemma timer_key_simps [simp]:
  "timer_key (upd_heap r f s) = timer_key s"
  "timer_key (upd_thread r g s) = timer_key s"
  "timer_key (s\<lparr>clock_reads := k\<rparr>) = timer_key s"
  "timer_key (set_timer p (Some t) s) = (timer_key s)(p := expire_at_ms t)"
  by (auto simp: timer_key_def fun_eq_iff)

lemma threads_simps [simp]:
  "threads (set_timer p t s) = threads s"
  "threads (upd_heap r f s) =
     (threads s)(r := map_option (\<lambda>th. th\<lparr>timer_heap := f (timer_heap th)\<rparr>) (threads s r))"
  by (auto simp: upd_heap_def set_timer_def)

lemma timer_key_cong: "timers s = timers s' \<Longrightarrow> timer_key s = timer_key s'"
  by (auto simp: timer_key_def fun_eq_iff)

end
