(* ===== verification/TimerProps.thy ===== *)
theory TimerProps
  imports TimerService
begin

text \<open>
  The invariant of the timer service and its properties: every waiting timer is a live
  object owned by the thread whose heap holds it (so no heap ever holds a dangling
  pointer), the heaps are in heap order as long as timers leave them only from the root,
  expiry order and termination of \<open>process_timers\<close>.
\<close>

section \<open>Invariants\<close>

definition heap_live :: "'z tnode_scheme \<Rightarrow> thread_ref \<Rightarrow> nos_timer_heap \<Rightarrow> bool" where
  "heap_live s r h \<longleftrightarrow>
     heap_bounds h \<and> distinct (heap_list h) \<and>
     (\<forall>p \<in> set (heap_list h). \<exists>t. timers s p = Some t \<and> is_running t \<and> owner_thread t = Some r)"

definition timers_wf :: "'z tnode_scheme \<Rightarrow> bool" where
  "timers_wf s \<longleftrightarrow>
     (\<forall>r h. heap_of s r = Some h \<longrightarrow> heap_live s r h) \<and>
     (\<forall>p t. timers s p = Some t \<longrightarrow> is_running t \<longrightarrow>
        (\<exists>r h. owner_thread t = Some r \<and> heap_of s r = Some h \<and> p \<in> set (heap_list h)))"

definition heaps_sorted :: "'z tnode_scheme \<Rightarrow> bool" where
  "heaps_sorted s \<longleftrightarrow> (\<forall>r h. heap_of s r = Some h \<longrightarrow> heap_sorted (timer_key s) h)"

definition waiting :: "'z tnode_scheme \<Rightarrow> thread_ref \<Rightarrow> ptr list" where
  "waiting s r = (case heap_of s r of None \<Rightarrow> [] | Some h \<Rightarrow> heap_list h)"

lemma timers_wf_live: "timers_wf s \<Longrightarrow> heap_of s r = Some h \<Longrightarrow> heap_live s r h"
  by (simp add: timers_wf_def)

lemma timers_wf_bounds: "timers_wf s \<Longrightarrow> heap_of s r = Some h \<Longrightarrow> heap_bounds h"
  by (simp add: timers_wf_def heap_live_def)

lemma timers_wf_member:
  "timers_wf s \<Longrightarrow> heap_of s r = Some h \<Longrightarrow> p \<in> set (heap_list h) \<Longrightarrow>
     \<exists>t. timers s p = Some t \<and> is_running t \<and> owner_thread t = Some r"
  by (auto simp: timers_wf_def heap_live_def)

lemma timers_wf_running:
  "timers_wf s \<Longrightarrow> timers s p = Some t \<Longrightarrow> is_running t \<Longrightarrow>
     \<exists>r h. owner_thread t = Some r \<and> heap_of s r = Some h \<and> p \<in> set (heap_list h)"
  by (auto simp: timers_wf_def)

lemma timers_wf_idle:
  "timers_wf s \<Longrightarrow> heap_of s r = Some h \<Longrightarrow> (\<And>t. timers s p = Some t \<Longrightarrow> \<not> is_running t) \<Longrightarrow> p \<notin> set (heap_list h)"
  using timers_wf_member by fastforce

lemma timers_wf_cong:
  "timers s' = timers s \<Longrightarrow> heap_of s' = heap_of s \<Longrightarrow> timers_wf s' = timers_wf s"
  by (simp add: timers_wf_def heap_live_def)

lemma heaps_sorted_cong:
  "timers s' = timers s \<Longrightarrow> heap_of s' = heap_of s \<Longrightarrow> heaps_sorted s' = heaps_sorted s"
  using timer_key_cong[of s' s] by (simp add: heaps_sorted_def)

lemma timers_wf_push:
  assumes wf: "timers_wf s" and h: "heap_of s r = Some h" "heap_size h < heap_capacity h"
    and idle: "\<And>t. timers s p = Some t \<Longrightarrow> \<not> is_running t"
    and t': "is_running t'" "owner_thread t' = Some r"
    and s': "timers s' = (timers s)(p \<mapsto> t')" "heap_of s' = (heap_of s)(r \<mapsto> heap_push k p h)"
  shows "timers_wf s'"
proof -
  have b: "heap_bounds h" using wf h by (simp add: timers_wf_bounds)
  note push = heap_push_list[OF b h(2), of k p]
  have set_push: "set (heap_list (heap_push k p h)) = insert p (set (heap_list h))"
    using arg_cong[OF push(2), of set_mset] by simp
  have notin: "p \<notin> set (heap_list h')" if "heap_of s r' = Some h'" for r' h'
    using timers_wf_idle[OF wf that idle] .
  have dist: "distinct (heap_list (heap_push k p h))"
  proof -
    have "distinct (p # heap_list h)"
      using notin[OF h(1)] timers_wf_live[OF wf h(1)] by (simp add: heap_live_def)
    then show ?thesis using push(2) by (metis mset.simps(2) mset_eq_imp_distinct_iff)
  qed
  have live: "heap_live s' r' h'" if "heap_of s' r' = Some h'" for r' h'
  proof (cases "r' = r")
    case True
    then show ?thesis
      using that s' push(1) dist set_push t' timers_wf_member[OF wf h(1)] by (auto simp: heap_live_def)
  next
    case False
    then have r': "heap_of s r' = Some h'" using that s' by simp
    then show ?thesis
      using notin[OF r'] s'(1) timers_wf_live[OF wf r'] by (auto simp: heap_live_def)
  qed
  have run: "\<exists>r h. owner_thread t = Some r \<and> heap_of s' r = Some h \<and> q \<in> set (heap_list h)"
    if q: "timers s' q = Some t" "is_running t" for q t
  proof (cases "q = p")
    case True
    then show ?thesis using q s' t' set_push by auto
  next
    case False
    then obtain r' h' where "owner_thread t = Some r'" "heap_of s r' = Some h'" "q \<in> set (heap_list h')"
      using q s'(1) timers_wf_running[OF wf, of q t] by auto
    then show ?thesis using s'(2) h(1) set_push by (cases "r' = r") auto
  qed
  show ?thesis using live run by (auto simp: timers_wf_def)
qed

lemma timers_wf_remove:
  assumes wf: "timers_wf s" and h: "heap_of s r = Some h" and i: "i < heap_size h" "heap_nodes h ! i = p"
    and x: "\<And>t'. x = Some t' \<Longrightarrow> \<not> is_running t'"
    and s': "timers s' = (timers s)(p := x)" "heap_of s' = (heap_of s)(r \<mapsto> heap_remove k i h)"
  shows "timers_wf s'"
proof -
  have b: "heap_bounds h" and d: "distinct (heap_list h)"
    using timers_wf_live[OF wf h] by (auto simp: heap_live_def)
  note rem = heap_remove_list[OF b i(1), of k]
  have dist: "distinct (heap_list (heap_remove k i h))"
    by (rule distinct_submultiset[OF d]) (simp add: rem(2))
  have set_rem: "set (heap_list (heap_remove k i h)) = set (heap_list h) - {p}"
  proof -
    have "set_mset (mset (heap_list h) - {#p#}) = set (heap_list h) - {p}"
      using d by (metis distinct_remove1_removeAll mset_remove1 set_mset_mset set_removeAll)
    then show ?thesis using rem(2) i(2) by (metis set_mset_mset)
  qed
  have own: "p \<notin> set (heap_list h')" if other: "heap_of s r' = Some h'" "r' \<noteq> r" for r' h'
  proof
    assume "p \<in> set (heap_list h')"
    then obtain t where "timers s p = Some t" "owner_thread t = Some r'"
      using timers_wf_member[OF wf other(1)] by auto
    moreover have "p \<in> set (heap_list h)" using heap_nodes_in_list[OF b i(1)] i(2) by simp
    ultimately show False using timers_wf_member[OF wf h] other(2) by fastforce
  qed
  have live: "heap_live s' r' h'" if "heap_of s' r' = Some h'" for r' h'
  proof (cases "r' = r")
    case True
    then show ?thesis
      using that s' rem(1) dist set_rem timers_wf_member[OF wf h] by (auto simp: heap_live_def)
  next
    case False
    then have r': "heap_of s r' = Some h'" using that s' by simp
    then show ?thesis
      using own[OF r' False] s'(1) timers_wf_live[OF wf r'] by (auto simp: heap_live_def)
  qed
  have run: "\<exists>r h. owner_thread t = Some r \<and> heap_of s' r = Some h \<and> q \<in> set (heap_list h)"
    if q: "timers s' q = Some t" "is_running t" for q t
  proof -
    have qp: "q \<noteq> p" using q s'(1) x by auto
    then obtain r' h' where "owner_thread t = Some r'" "heap_of s r' = Some h'" "q \<in> set (heap_list h')"
      using q s'(1) timers_wf_running[OF wf, of q t] by auto
    then show ?thesis using s'(2) h set_rem qp by (cases "r' = r") auto
  qed
  show ?thesis using live run by (auto simp: timers_wf_def)
qed

lemma heaps_sorted_push:
  assumes sorted: "heaps_sorted s" and wf: "timers_wf s"
    and h: "heap_of s r = Some h" "heap_size h < heap_capacity h"
    and idle: "\<And>t. timers s p = Some t \<Longrightarrow> \<not> is_running t"
    and s': "timers s' = (timers s)(p \<mapsto> t')" "heap_of s' = (heap_of s)(r \<mapsto> heap_push (timer_key s') p h)"
  shows "heaps_sorted s'"
proof -
  have old: "heap_sorted (timer_key s') h'" if "heap_of s r' = Some h'" for r' h'
  proof -
    have "heap_sorted (timer_key s) h'" using sorted that by (simp add: heaps_sorted_def)
    moreover have "timer_key s q = timer_key s' q" if "q \<in> set (heap_list h')" for q
      using timers_wf_idle[OF wf \<open>heap_of s r' = Some h'\<close> idle] that s'(1) by (auto simp: timer_key_def)
    ultimately show ?thesis
      using heap_sorted_cong[of h' "timer_key s" "timer_key s'"] timers_wf_bounds[OF wf that] by simp
  qed
  have "heap_sorted (timer_key s') h'" if h': "heap_of s' r' = Some h'" for r' h'
  proof (cases "r' = r")
    case True
    then show ?thesis
      using h' s'(2) heap_push_sorted[OF timers_wf_bounds[OF wf h(1)] h(2) old[OF h(1)]] by auto
  next
    case False
    then show ?thesis using h' s'(2) old by auto
  qed
  then show ?thesis by (simp add: heaps_sorted_def)
qed

lemma heaps_sorted_remove:
  assumes sorted: "heaps_sorted s" and wf: "timers_wf s"
    and h: "heap_of s r = Some h" and i: "i < heap_size h" "heap_nodes h ! i = p"
    and par: "0 < i \<Longrightarrow> timer_key s (heap_nodes h ! hparent i) \<le> timer_key s (heap_nodes h ! (heap_size h - 1))"
    and s': "timers s' = (timers s)(p := x)" "heap_of s' = (heap_of s)(r \<mapsto> heap_remove (timer_key s) i h)"
    and wf': "timers_wf s'"
    and x: "\<And>t'. x = Some t' \<Longrightarrow> \<not> is_running t'"
  shows "heaps_sorted s'"
proof -
  have same: "timer_key s' q = timer_key s q" if "heap_of s' r' = Some h'" "q \<in> set (heap_list h')" for q r' h'
  proof -
    have "q \<noteq> p"
      using timers_wf_member[OF wf' that] x s'(1) by auto
    then show ?thesis using s'(1) by (simp add: timer_key_def)
  qed
  have "heap_sorted (timer_key s') h'" if h': "heap_of s' r' = Some h'" for r' h'
  proof -
    have "heap_sorted (timer_key s) h'"
    proof (cases "r' = r")
      case True
      then show ?thesis
        using h' s'(2) heap_remove_sorted[OF timers_wf_bounds[OF wf h] _ i(1) par] sorted h
        by (auto simp: heaps_sorted_def)
    next
      case False
      then show ?thesis using h' s'(2) sorted by (auto simp: heaps_sorted_def)
    qed
    then show ?thesis
      using heap_sorted_cong[of h' "timer_key s'" "timer_key s"] same[OF h'] timers_wf_bounds[OF wf' h'] by simp
  qed
  then show ?thesis by (simp add: heaps_sorted_def)
qed

section \<open>Starting, stopping and deleting\<close>

lemma nos_timer_start_cases:
  assumes "nos_timer_start self tm interval periodic s = (st, s')"
  obtains (error) "st = NOS_ERR" "s' = s"
  | (started) r t h th where "st = NOS_OK" "find_thread_of_component self s = Some r"
      "timers s tm = Some t" "heap_of s r = Some h" "\<not> is_running t" "heap_size h < heap_capacity h"
      "timers s' = (timers s)(tm \<mapsto> t\<lparr>interval_ms := interval,
          expire_at_ms := timespec_ms (clock s (clock_reads s)) + ucast interval,
          is_periodic := periodic, is_running := True, owner_thread := Some r\<rparr>)"
      "heap_of s' = (heap_of s)(r \<mapsto> heap_push (timer_key s') tm h)"
      "clock s' = clock s" "clock_reads s' = Suc (clock_reads s)"
      "threads s r = Some th"
      "map_option notify_count (threads s' r) = Some (Suc (notify_count th))"
proof (cases "st = NOS_OK")
  case True
  then obtain r t h where *: "find_thread_of_component self s = Some r" "timers s tm = Some t"
      "heap_of s r = Some h" "\<not> (is_running t \<or> heap_size h \<ge> heap_capacity h)"
    using assms by (auto simp: nos_timer_start_def split: option.splits if_splits)
  then obtain th where th: "threads s r = Some th" "h = timer_heap th" by (auto simp: heap_of_def)
  show ?thesis
    using assms * th True
    by (intro started[of r t h th])
      (auto simp: nos_timer_start_def get_monotonic_ms_def Let_def)
next
  case False
  then show ?thesis
    using assms error by (auto simp: nos_timer_start_def Let_def split: option.splits if_splits prod.splits)
qed

lemma waiting_heap: "heap_of s r = Some h \<Longrightarrow> waiting s r = heap_list h"
  by (simp add: waiting_def)

lemma nos_timer_start_inv:
  assumes "timers_wf s" "nos_timer_start self tm interval periodic s = (st, s')"
  shows "timers_wf s'" and "heaps_sorted s \<Longrightarrow> heaps_sorted s'"
proof -
  have "timers_wf s' \<and> (heaps_sorted s \<longrightarrow> heaps_sorted s')"
    using assms(2)
  proof (cases rule: nos_timer_start_cases)
    case error
    then show ?thesis using assms(1) by simp
  next
    case (started r t h th)
    note st = started
    let ?t = "t\<lparr>interval_ms := interval,
          expire_at_ms := timespec_ms (clock s (clock_reads s)) + ucast interval,
          is_periodic := periodic, is_running := True, owner_thread := Some r\<rparr>"
    have "timers_wf s'"
      by (rule timers_wf_push[OF assms(1) st(4,6) _ _ _ st(7,8)]) (use st(3,5) in auto)
    moreover have "heaps_sorted s'" if "heaps_sorted s"
      by (rule heaps_sorted_push[OF that assms(1) st(4,6) _ st(7,8)]) (use st(3,5) in auto)
    ultimately show ?thesis by simp
  qed
  then show "timers_wf s'" and "heaps_sorted s \<Longrightarrow> heaps_sorted s'" by simp_all
qed

lemma find_slot_nodes:
  "find_slot (\<lambda>q. q = p) (heap_size h) (heap_nodes h) = Some i \<Longrightarrow> i < heap_size h \<and> heap_nodes h ! i = p"
  by (auto dest: find_slot_Some)

lemma find_slot_waiting:
  "heap_bounds h \<Longrightarrow> p \<in> set (heap_list h) \<Longrightarrow>
     \<exists>i. find_slot (\<lambda>q. q = p) (heap_size h) (heap_nodes h) = Some i \<and> i < heap_size h \<and> heap_nodes h ! i = p"
  using find_slot_None[of "heap_size h" "heap_nodes h" "\<lambda>q. q = p"]
  by (cases "find_slot (\<lambda>q. q = p) (heap_size h) (heap_nodes h)")
    (auto simp: heap_bounds_def heap_list_def in_set_conv_nth dest: find_slot_Some)

lemma nos_timer_stop_running:
  assumes wf: "timers_wf s" and t: "timers s tm = Some t" "is_running t"
  obtains r h i where "owner_thread t = Some r" "heap_of s r = Some h" "i < heap_size h" "heap_nodes h ! i = tm"
    "nos_timer_stop self tm s = Some (NOS_OK, set_timer tm (Some (t\<lparr>is_running := False\<rparr>))
       (upd_heap r (heap_remove (timer_key s) i) s))"
    "unlink_timer tm t s = upd_heap r (heap_remove (timer_key s) i) s"
proof -
  obtain r h where rh: "owner_thread t = Some r" "heap_of s r = Some h" "tm \<in> set (heap_list h)"
    using timers_wf_running[OF wf t] by blast
  obtain i where i: "find_slot (\<lambda>q. q = tm) (heap_size h) (heap_nodes h) = Some i"
      "i < heap_size h" "heap_nodes h ! i = tm"
    using find_slot_waiting[OF timers_wf_bounds[OF wf rh(2)] rh(3)] by blast
  show ?thesis
    using rh i t by (intro that[of r h i]) (auto simp: nos_timer_stop_def unlink_timer_def)
qed

lemma nos_timer_stop_idle:
  "timers s tm = Some t \<Longrightarrow> \<not> is_running t \<Longrightarrow> nos_timer_stop self tm s = Some (NOS_ERR, s)"
  by (auto simp: nos_timer_stop_def split: option.splits)

lemma nos_timer_stop_inv:
  assumes wf: "timers_wf s" and stop: "nos_timer_stop self tm s = Some (st, s')"
  shows "timers_wf s'"
proof -
  obtain t where t: "timers s tm = Some t" using stop by (auto simp: nos_timer_stop_def split: option.splits)
  show ?thesis
  proof (cases "is_running t")
    case True
    obtain r h i where o: "owner_thread t = Some r" "heap_of s r = Some h" "i < heap_size h" "heap_nodes h ! i = tm"
        "s' = set_timer tm (Some (t\<lparr>is_running := False\<rparr>)) (upd_heap r (heap_remove (timer_key s) i) s)"
      by (rule nos_timer_stop_running[OF wf t True, of self]) (use stop in auto)
    show ?thesis
      by (rule timers_wf_remove[OF wf o(2,3,4), of "Some (t\<lparr>is_running := False\<rparr>)" s' "timer_key s"])
        (use o in auto)
  next
    case False
    then show ?thesis using nos_timer_stop_idle[OF t False, of self] stop wf by simp
  qed
qed

lemma waiting_remove:
  assumes wf: "timers_wf s" and h: "heap_of s r = Some h" "i < heap_size h" "heap_nodes h ! i = tm"
    and s': "heap_of s' = (heap_of s)(r \<mapsto> heap_remove k i h)"
  shows "mset (waiting s' r) = mset (waiting s r) - {#tm#}"
    and "r' \<noteq> r \<Longrightarrow> waiting s' r' = waiting s r'"
  using heap_remove_list(2)[OF timers_wf_bounds[OF wf h(1)] h(2), of k] h s' by (auto simp: waiting_def)

section \<open>Callbacks that leave the timers alone\<close>

text \<open>
  The contract between the timer service and the component code it calls: a callback (or a
  \<open>free_arg\<close> function) may send messages, log and change component state, but does not
  start, stop or delete timers, and the clock does not run backwards.
\<close>

locale quiet_callbacks =
  fixes cb :: "ptr \<Rightarrow> ptr \<Rightarrow> 'z tnode_scheme \<Rightarrow> 'z tnode_scheme"
  assumes cb_timers: "timers (cb f a s) = timers s"
    and cb_heaps: "heap_of (cb f a s) = heap_of s"
    and cb_clock: "clock (cb f a s) = clock s"
    and cb_reads: "clock_reads s \<le> clock_reads (cb f a s)"
begin

lemma delete_spec:
  assumes wf: "timers_wf s" and t: "timers s tm = Some t" "tm \<noteq> NULL"
  obtains s' where "nos_timer_delete cb tm s = Some s'" "timers s' = (timers s)(tm := None)"
    "timers_wf s'" "\<And>r. mset (waiting s' r) = mset (waiting s r) - {#tm#}"
proof -
  define s1 where "s1 = unlink_timer tm t s"
  define s2 where "s2 = (if free_arg t \<noteq> NULL then cb (free_arg t) (arg t) s1 else s1)"
  define s' where "s' = set_timer tm None s2"
  have del: "nos_timer_delete cb tm s = Some s'" if "timers s1 = timers s"
    using t that by (auto simp: nos_timer_delete_def Let_def s'_def s2_def s1_def cb_timers)
  show ?thesis
  proof (cases "is_running t")
    case True
    obtain r h i where o: "owner_thread t = Some r" "heap_of s r = Some h" "i < heap_size h" "heap_nodes h ! i = tm"
        "unlink_timer tm t s = upd_heap r (heap_remove (timer_key s) i) s"
      by (rule nos_timer_stop_running[OF wf t(1) True]) auto
    have s': "timers s' = (timers s)(tm := None)" "heap_of s' = (heap_of s)(r \<mapsto> heap_remove (timer_key s) i h)"
      using o by (auto simp: s'_def s2_def s1_def cb_timers cb_heaps)
    have wf': "timers_wf s'"
      by (rule timers_wf_remove[OF wf o(2-4) _ s']) simp
    have "mset (waiting s' q) = mset (waiting s q) - {#tm#}" for q
    proof (cases "q = r")
      case True
      then show ?thesis using waiting_remove(1)[OF wf o(2-4) s'(2)] by simp
    next
      case False
      have "tm \<notin> set (waiting s q)"
      proof
        assume tm: "tm \<in> set (waiting s q)"
        then obtain h' where h': "heap_of s q = Some h'" "tm \<in> set (heap_list h')"
          by (cases "heap_of s q") (auto simp: waiting_def)
        then show False using timers_wf_member[OF wf h'] o(1) t(1) False by auto
      qed
      then show ?thesis using waiting_remove(2)[OF wf o(2-4) s'(2) False] by (simp add: diff_single_trivial)
    qed
    then show ?thesis using that del s'(1) wf' o(5) by (simp add: s1_def)
  next
    case False
    have s1: "s1 = s" using False by (simp add: s1_def unlink_timer_def)
    have s': "timers s' = (timers s)(tm := None)" "heap_of s' = heap_of s"
      by (auto simp: s'_def s2_def s1 cb_timers cb_heaps)
    have idle: "tm \<notin> set (heap_list h)" if "heap_of s r = Some h" for r h
      using timers_wf_idle[OF wf that, of tm] False t(1) by auto
    have wf': "timers_wf s'"
      using wf idle by (auto simp: timers_wf_def heap_live_def s')
    have "mset (waiting s' r) = mset (waiting s r) - {#tm#}" for r
      using idle[of r] by (auto simp: waiting_def s' diff_single_trivial split: option.splits)
    then show ?thesis using that del s'(1) wf' s1 by simp
  qed
qed

lemma fire_spec:
  assumes wf: "timers_wf s" and sorted: "heaps_sorted s" and h: "heap_of s r = Some h" "0 < heap_size h"
  obtains t s' where "timers s (heap_nodes h ! 0) = Some t" "fire_timer cb r h s = Some s'"
    "timers_wf s'" "heaps_sorted s'" "clock s' = clock s" "clock_reads s \<le> clock_reads s'"
    "\<And>q. q \<noteq> r \<Longrightarrow> heap_of s' q = heap_of s q"
    "\<not> is_periodic t \<Longrightarrow> timers s' = (timers s)(heap_nodes h ! 0 \<mapsto> t\<lparr>is_running := False\<rparr>)"
    "\<not> is_periodic t \<Longrightarrow> heap_of s' r = Some (heap_remove (timer_key s) 0 h)"
    "is_periodic t \<Longrightarrow> \<exists>k \<ge> clock_reads s. k < clock_reads s' \<and> timers s' = (timers s)(heap_nodes h ! 0 \<mapsto>
        t\<lparr>expire_at_ms := timespec_ms (clock s k) + ucast (interval_ms t), is_running := True\<rparr>)"
    "is_periodic t \<Longrightarrow> mset (waiting s' r) = mset (waiting s r)"
proof -
  let ?tm = "heap_nodes h ! 0"
  have b: "heap_bounds h" using wf h(1) by (rule timers_wf_bounds)
  obtain t where t: "timers s ?tm = Some t" "is_running t" "owner_thread t = Some r"
    using timers_wf_member[OF wf h(1) heap_nodes_in_list[OF b h(2)]] by blast
  let ?h1 = "heap_remove (timer_key s) 0 h"
  define s1 where "s1 = set_timer ?tm (Some (t\<lparr>is_running := False\<rparr>)) (upd_heap r (heap_remove (timer_key s) 0) s)"
  define s2 where "s2 = (if callback t \<noteq> NULL then cb (callback t) (arg t) s1 else s1)"
  have s1: "timers s1 = (timers s)(?tm \<mapsto> t\<lparr>is_running := False\<rparr>)" "heap_of s1 = (heap_of s)(r \<mapsto> ?h1)"
      "clock s1 = clock s" "clock_reads s1 = clock_reads s"
    using h(1) by (auto simp: s1_def)
  have s2: "timers s2 = timers s1" "heap_of s2 = heap_of s1" "clock s2 = clock s" "clock_reads s \<le> clock_reads s2"
    using cb_reads[of s1] by (auto simp: s2_def cb_timers cb_heaps cb_clock s1)
  have wf1: "timers_wf s1"
    by (rule timers_wf_remove[OF wf h(1,2) refl _ s1(1,2)]) auto
  have so1: "heaps_sorted s1"
    by (rule heaps_sorted_remove[OF sorted wf h(1,2) refl _ s1(1,2) wf1]) auto
  have wf2: "timers_wf s2" and so2: "heaps_sorted s2"
    using wf1 so1 timers_wf_cong[OF s2(1,2)] heaps_sorted_cong[OF s2(1,2)] by auto
  have fire: "fire_timer cb r h s =
      (case timers s2 ?tm of
                None \<Rightarrow> None
              | Some t \<Rightarrow>
                  if is_periodic t then
                    (let (now, s) = get_monotonic_ms s2;
                         s = set_timer ?tm (Some (t\<lparr>expire_at_ms := now + ucast (interval_ms t),
                                                   is_running := True\<rparr>)) s
                     in case heap_of s r of
                          None \<Rightarrow> None
                        | Some h \<Rightarrow>
                            if heap_size h \<ge> length (heap_nodes h) then None
                            else Some (upd_heap r (heap_push (timer_key s) ?tm) s))
                  else Some s2)"
    by (simp only: fire_timer_def Let_def t(1) option.case s1_def[symmetric] s2_def[symmetric])
  show ?thesis
  proof (cases "is_periodic t")
    case False
    have "fire_timer cb r h s = Some s2" using fire False s2(1) s1(1) by simp
    then show ?thesis
      using t(1) False wf2 so2 s1 s2 by (intro that[of t s2]) auto
  next
    case True
    let ?t' = "t\<lparr>expire_at_ms := timespec_ms (clock s (clock_reads s2)) + ucast (interval_ms t), is_running := True\<rparr>"
    define s3 where "s3 = set_timer ?tm (Some ?t') (s2\<lparr>clock_reads := clock_reads s2 + 1\<rparr>)"
    define s4 where "s4 = upd_heap r (heap_push (timer_key s3) ?tm) s3"
    have b1: "heap_bounds ?h1" and room: "heap_size ?h1 < heap_capacity ?h1"
      using heap_remove_list(1)[OF b h(2)] h(2) b by (auto simp: heap_bounds_def)
    have s3: "heap_of s3 = (heap_of s)(r \<mapsto> ?h1)" "timers s3 = (timers s)(?tm \<mapsto> ?t')"
      using s1 s2 by (auto simp: s3_def)
    have s4: "timers s4 = (timers s2)(?tm \<mapsto> ?t')" "heap_of s4 = (heap_of s2)(r \<mapsto> heap_push (timer_key s4) ?tm ?h1)"
        "timers s4 = (timers s)(?tm \<mapsto> ?t')" "clock s4 = clock s" "clock_reads s4 = Suc (clock_reads s2)"
      using s1 s2 s3 by (auto simp: s4_def s3_def)
    have "fire_timer cb r h s = Some s4"
      using fire True s2 s1 room b1
      by (simp add: get_monotonic_ms_def s4_def s3_def heap_bounds_def)
    moreover have "timers_wf s4"
      by (rule timers_wf_push[OF wf2 _ room _ _ _ s4(1,2)]) (use s1 s2 t in auto)
    moreover have "heaps_sorted s4"
      by (rule heaps_sorted_push[OF so2 wf2 _ room _ s4(1,2)]) (use s1 s2 in auto)
    moreover have "mset (waiting s4 r) = mset (waiting s r)"
      using heap_push_list(2)[OF b1 room, of "timer_key s4" ?tm] heap_remove_list(2)[OF b h(2), of "timer_key s"]
        heap_nodes_in_list[OF b h(2)] h(1) by (simp add: waiting_def s4(2))
    moreover have "heap_of s4 q = heap_of s q" if "q \<noteq> r" for q
      using that s4(2) s2(2) s1(2) by simp
    ultimately show ?thesis
      using t(1) True s4(3-5) s2(4) by (intro that[of t s4]) auto
  qed
qed

end

section \<open>Termination of \<open>process_timers\<close>\<close>

text \<open>
  The work left for a pass that ends at time \<open>T\<close>: one unit for a one-shot timer, and for
  a periodic timer one more than the milliseconds from its expiry to \<open>T\<close>, since every
  re-arming moves its expiry forward.
\<close>

definition timer_work :: "u64 \<Rightarrow> nos_timer \<Rightarrow> nat" where
  "timer_work T t = (if is_periodic t then Suc (Suc (unat T) - unat (expire_at_ms t)) else 1)"

definition work_at :: "u64 \<Rightarrow> 'z tnode_scheme \<Rightarrow> ptr \<Rightarrow> nat" where
  "work_at T s p = (case timers s p of None \<Rightarrow> 0 | Some t \<Rightarrow> timer_work T t)"

definition pass_work :: "u64 \<Rightarrow> 'z tnode_scheme \<Rightarrow> thread_ref \<Rightarrow> nat" where
  "pass_work T s r = (\<Sum>p \<in># mset (waiting s r). work_at T s p)"

text \<open>The clock never runs backwards and stays at or below \<open>T\<close>, and no expiry wraps around.\<close>

definition clock_ok :: "u64 \<Rightarrow> 'z tnode_scheme \<Rightarrow> bool" where
  "clock_ok T s \<longleftrightarrow>
     (\<forall>i j. i \<le> j \<longrightarrow> timespec_ms (clock s i) \<le> timespec_ms (clock s j)) \<and>
     (\<forall>k. timespec_ms (clock s k) \<le> T) \<and> unat T + 2 ^ 32 \<le> 2 ^ 64"

definition intervals_ok :: "'z tnode_scheme \<Rightarrow> bool" where
  "intervals_ok s \<longleftrightarrow> (\<forall>p t. timers s p = Some t \<longrightarrow> is_periodic t \<longrightarrow> 0 < interval_ms t)"

lemma unat_expiry:
  assumes "a \<le> T" "unat (T :: u64) + 2 ^ 32 \<le> 2 ^ 64"
  shows "unat (a + ucast (i :: u32)) = unat a + unat i"
proof -
  have "unat a + unat i < 2 ^ 64"
    using assms unat_u32_bound[of i] by (simp add: word_le_nat_alt)
  then show ?thesis
    using unat_add_lem[of a "ucast i :: u64"] by (simp add: unat_ucast_u32)
qed

lemma timer_work_rearm:
  assumes "expire_at_ms t \<le> now" "now \<le> a" "a \<le> T" "unat T + 2 ^ 32 \<le> 2 ^ 64"
    "0 < interval_ms t" "is_periodic t"
  shows "timer_work T (t\<lparr>expire_at_ms := a + ucast (interval_ms t), is_running := True\<rparr>) < timer_work T t"
proof -
  have "unat (a + ucast (interval_ms t)) = unat a + unat (interval_ms t)"
    using assms(3,4) by (rule unat_expiry)
  moreover have "0 < unat (interval_ms t)" using assms(5) by (simp add: unat_gt_0)
  ultimately show ?thesis
    using assms by (simp add: timer_work_def word_le_nat_alt)
qed

lemma pass_work_pos:
  assumes "timers_wf s" "heap_of s r = Some h" "0 < heap_size h"
  shows "0 < pass_work T s r"
proof -
  let ?p = "heap_nodes h ! 0"
  have b: "heap_bounds h" using assms(1,2) by (rule timers_wf_bounds)
  have in_list: "?p \<in> set (heap_list h)" using heap_nodes_in_list[OF b assms(3)] .
  obtain t where "timers s ?p = Some t" using timers_wf_member[OF assms(1,2) in_list] by blast
  then have "0 < work_at T s ?p" by (simp add: work_at_def timer_work_def)
  moreover obtain M where "mset (heap_list h) = add_mset ?p M"
    using in_list by (metis mset_add set_mset_mset)
  ultimately show ?thesis by (simp add: pass_work_def waiting_heap[OF assms(2)])
qed

context quiet_callbacks begin

lemma fire_decreases:
  assumes wf: "timers_wf s" and sorted: "heaps_sorted s" and h: "heap_of s r = Some h" "0 < heap_size h"
    and clock: "clock_ok T s" and iv: "intervals_ok s"
    and due: "timer_key s (heap_nodes h ! 0) \<le> now" "now \<le> timespec_ms (clock s (clock_reads s))"
  obtains s' where "fire_timer cb r h s = Some s'" "timers_wf s'" "heaps_sorted s'"
    "clock_ok T s'" "intervals_ok s'" "clock s' = clock s" "clock_reads s \<le> clock_reads s'"
    "heap_of s' r \<noteq> None" "pass_work T s' r < pass_work T s r"
proof (rule fire_spec[OF wf sorted h], goal_cases)
  case (1 t s')
  note f = 1(2-)
  let ?tm = "heap_nodes h ! 0"
  have b: "heap_bounds h" using wf h(1) by (rule timers_wf_bounds)
  have w: "waiting s r = heap_list h" using h(1) by (rule waiting_heap)
  obtain M where M: "mset (waiting s r) = add_mset ?tm M"
    using heap_nodes_in_list[OF b h(2)] w by (metis mset_add set_mset_mset)
  have "distinct (heap_list h)" using timers_wf_live[OF wf h(1)] by (simp add: heap_live_def)
  then have notin: "?tm \<notin># M" using M w by (auto simp: distinct_count_atmost_1 split: if_splits dest!: spec[of _ ?tm])
  have same: "work_at T s' p = work_at T s p" if "p \<in># M" for p
    using that notin f(8,10) by (cases "is_periodic t") (auto simp: work_at_def)
  have sumM: "(\<Sum>p \<in># M. work_at T s' p) = (\<Sum>p \<in># M. work_at T s p)"
    using same by (auto intro!: arg_cong[where f = sum_mset] image_mset_cong)
  have mem: "work_at T s ?tm = timer_work T t" using f(1) by (simp add: work_at_def)
  have "pass_work T s' r < pass_work T s r \<and> intervals_ok s' \<and> heap_of s' r \<noteq> None"
  proof (cases "is_periodic t")
    case False
    have "mset (waiting s' r) = M"
      using heap_remove_list(2)[OF b h(2), of "timer_key s"] M w f(9)[OF False] by (simp add: waiting_def)
    moreover have "0 < timer_work T t" by (simp add: timer_work_def)
    moreover have "intervals_ok s'" using iv f(1) f(8)[OF False] by (auto simp: intervals_ok_def)
    ultimately show ?thesis
      using sumM mem M f(9)[OF False] by (simp add: pass_work_def)
  next
    case True
    obtain k where k: "k \<ge> clock_reads s" "timers s' = (timers s)(?tm \<mapsto>
        t\<lparr>expire_at_ms := timespec_ms (clock s k) + ucast (interval_ms t), is_running := True\<rparr>)"
      using f(10)[OF True] by blast
    have key: "expire_at_ms t \<le> now" using due(1) f(1) by (simp add: timer_key_def)
    have a: "now \<le> timespec_ms (clock s k)" "timespec_ms (clock s k) \<le> T" "unat T + 2 ^ 32 \<le> 2 ^ 64"
      using due(2) k(1) clock by (auto simp: clock_ok_def intro: order_trans)
    have iv': "0 < interval_ms t" using iv f(1) True by (auto simp: intervals_ok_def)
    have "work_at T s' ?tm < work_at T s ?tm"
      using timer_work_rearm[OF key a iv' True] k(2) mem by (simp add: work_at_def)
    moreover have "heap_of s' r \<noteq> None"
      using f(11)[OF True] M by (auto simp: waiting_def split: option.splits)
    moreover have "intervals_ok s'" using iv f(1) k(2) by (auto simp: intervals_ok_def)
    ultimately show ?thesis
      using f(11)[OF True] M sumM by (simp add: pass_work_def)
  qed
  then show ?thesis
    using f clock by (intro 1(1)[of s']) (auto simp: clock_ok_def)
qed

lemma loop_returns:
  assumes "timers_wf s" "heaps_sorted s" "clock_ok T s" "intervals_ok s" "heap_of s r \<noteq> None"
    "now \<le> timespec_ms (clock s (clock_reads s))" "pass_work T s r \<le> fuel"
  shows "\<exists>now' s'. process_timers_loop fuel cb r now s = Returned (now', s') \<and> timers_wf s' \<and>
           heaps_sorted s' \<and> now \<le> now' \<and> (\<forall>p \<in> set (waiting s' r). now' < timer_key s' p)"
  using assms
proof (induction fuel arbitrary: now s)
  case (0 now s)
  then obtain h where h: "heap_of s r = Some h" by auto
  have "\<not> 0 < heap_size h" using pass_work_pos[OF 0(1) h] 0(7) by (metis le_zero_eq less_numeral_extra(3))
  then show ?case
    using 0 h heap_list_nonempty[OF timers_wf_bounds[OF 0(1) h]]
    by (subst process_timers_loop.simps) (simp add: waiting_def)
next
  case (Suc fuel now s)
  then obtain h where h: "heap_of s r = Some h" by auto
  have b: "heap_bounds h" using Suc.prems(1) h by (rule timers_wf_bounds)
  show ?case
  proof (cases "0 < heap_size h \<and> now \<ge> timer_key s (heap_nodes h ! 0)")
    case True
    then obtain s1 where s1: "fire_timer cb r h s = Some s1" "timers_wf s1" "heaps_sorted s1"
      "clock_ok T s1" "intervals_ok s1" "clock s1 = clock s" "clock_reads s \<le> clock_reads s1"
      "heap_of s1 r \<noteq> None" "pass_work T s1 r < pass_work T s r"
      using fire_decreases[OF Suc.prems(1,2) h _ Suc.prems(3,4)] Suc.prems(6) by blast
    let ?now = "timespec_ms (clock s1 (clock_reads s1))"
    let ?s2 = "s1\<lparr>clock_reads := clock_reads s1 + 1\<rparr>"
    have mono: "timespec_ms (clock s i) \<le> timespec_ms (clock s j)" if "i \<le> j" for i j
      using Suc.prems(3) that by (simp add: clock_ok_def)
    have now: "now \<le> ?now" using Suc.prems(6) mono[OF s1(7)] s1(6) by (auto intro: order_trans)
    have "\<exists>now' s'. process_timers_loop fuel cb r ?now ?s2 = Returned (now', s') \<and> timers_wf s' \<and>
           heaps_sorted s' \<and> ?now \<le> now' \<and> (\<forall>p \<in> set (waiting s' r). now' < timer_key s' p)"
    proof (rule Suc.IH)
      show "timers_wf ?s2" using s1(2) timers_wf_cong[of ?s2 s1] by simp
      show "heaps_sorted ?s2" using s1(3) heaps_sorted_cong[of ?s2 s1] by simp
      show "clock_ok T ?s2" "intervals_ok ?s2" "heap_of ?s2 r \<noteq> None"
        using s1(4,5,8) by (auto simp: clock_ok_def intervals_ok_def)
      show "?now \<le> timespec_ms (clock ?s2 (clock_reads ?s2))" using s1(6) mono by simp
      have "pass_work T ?s2 r = pass_work T s1 r"
        by (simp add: pass_work_def waiting_def work_at_def[abs_def])
      then show "pass_work T ?s2 r \<le> fuel" using s1(9) Suc.prems(7) by simp
    qed
    then show ?thesis
      using True h s1(1) now
      by (subst process_timers_loop.simps) (auto simp: get_monotonic_ms_def intro: order_trans)
  next
    case False
    have "now < timer_key s p" if "p \<in> set (heap_list h)" for p
    proof -
      have "heap_sorted (timer_key s) h" using Suc.prems(2) h by (simp add: heaps_sorted_def)
      then have "timer_key s (heap_nodes h ! 0) \<le> timer_key s p" using heap_root_least b that by blast
      moreover have "0 < heap_size h" using that heap_list_nonempty[OF b] by (cases "heap_size h") auto
      ultimately show ?thesis using False by auto
    qed
    then show ?thesis
      using False h Suc.prems
      by (subst process_timers_loop.simps) (auto simp: waiting_def)
  qed
qed

end

section \<open>Callbacks are called in the order of expiry\<close>

text \<open>
  The order of the calls is observed with a callback environment that appends each call to
  a log kept beside the node.
\<close>

definition log_cb :: "ptr \<Rightarrow> ptr \<Rightarrow> (ptr \<times> ptr) list tnode_scheme \<Rightarrow> (ptr \<times> ptr) list tnode_scheme" where
  "log_cb f a s = s\<lparr>tnode.more := tnode.more s @ [(f, a)]\<rparr>"

interpretation log_cb: quiet_callbacks log_cb
  by unfold_locales (auto simp: log_cb_def heap_of_def)

definition calls_of :: "'z tnode_scheme \<Rightarrow> ptr list \<Rightarrow> (ptr \<times> ptr) list" where
  "calls_of s ps =
     [(callback t, arg t). t \<leftarrow> List.map_filter (timers s) ps, callback t \<noteq> NULL]"

text \<open>The heap's own due timers, by the priority-queue interface.\<close>

definition due_timers :: "'z tnode_scheme \<Rightarrow> u64 \<Rightarrow> nos_timer_heap \<Rightarrow> ptr list \<times> nos_timer_heap" where
  "due_timers s now h =
     pop_due (heap_size h) (timer_key s) (\<lambda>h. heap_size h = 0) (\<lambda>h. heap_nodes h ! 0)
       (heap_remove (timer_key s) 0) now h"

lemma due_timers_spec:
  assumes "timers_wf s" "heaps_sorted s" "heap_of s r = Some h" "due_timers s now h = (xs, h')"
  shows "mset (heap_list h) = mset xs + mset (heap_list h')" "sorted (map (timer_key s) xs)"
    "\<forall>x \<in> set xs. timer_key s x \<le> now" "\<forall>p \<in> set (heap_list h'). now < timer_key s p"
proof -
  have b: "heap_bounds h" using assms(1,3) by (rule timers_wf_bounds)
  have "heap_sorted (timer_key s) h" using assms(2,3) by (simp add: heaps_sorted_def)
  moreover have "size (mset (heap_list h)) \<le> heap_size h" by (simp add: heap_list_def)
  ultimately show "mset (heap_list h) = mset xs + mset (heap_list h')" "sorted (map (timer_key s) xs)"
    "\<forall>x \<in> set xs. timer_key s x \<le> now" "\<forall>p \<in> set (heap_list h'). now < timer_key s p"
    using timer_queue.pop_due_spec[of h "timer_key s" "heap_size h" now xs h'] b assms(4)
    by (auto simp: due_timers_def)
qed

lemma calls_of_Cons:
  "timers s p = Some t \<Longrightarrow>
     calls_of s (p # ps) = (if callback t \<noteq> NULL then [(callback t, arg t)] else []) @ calls_of s ps"
  by (simp add: calls_of_def List.map_filter_def)

lemma calls_of_stop:
  assumes "timers s p = Some t" "timers s' = (timers s)(p \<mapsto> t\<lparr>is_running := False\<rparr>)"
  shows "calls_of s' ps = calls_of s ps"
  using assms by (induction ps) (auto simp: calls_of_def List.map_filter_def split: option.splits)

lemma fire_timer_log:
  assumes "timers s (heap_nodes h ! 0) = Some t" "\<not> is_periodic t" "heap_of s r = Some h"
  obtains s' where "fire_timer log_cb r h s = Some s'"
    "timers s' = (timers s)(heap_nodes h ! 0 \<mapsto> t\<lparr>is_running := False\<rparr>)"
    "heap_of s' r = Some (heap_remove (timer_key s) 0 h)"
    "tnode.more s' = tnode.more s @ calls_of s [heap_nodes h ! 0]" "clock s' = clock s"
proof -
  define s1 where "s1 = set_timer (heap_nodes h ! 0) (Some (t\<lparr>is_running := False\<rparr>))
    (upd_heap r (heap_remove (timer_key s) 0) s)"
  define s2 where "s2 = (if callback t \<noteq> NULL then log_cb (callback t) (arg t) s1 else s1)"
  have s1: "timers s1 = (timers s)(heap_nodes h ! 0 \<mapsto> t\<lparr>is_running := False\<rparr>)"
      "heap_of s1 r = Some (heap_remove (timer_key s) 0 h)" "clock s1 = clock s"
    using assms by (auto simp: s1_def)
  have "tnode.more s1 = tnode.more s"
    by (simp add: s1_def set_timer_def upd_heap_def upd_thread_def)
  then have s2: "timers s2 = timers s1" "heap_of s2 = heap_of s1" "clock s2 = clock s1"
      "tnode.more s2 = tnode.more s @ calls_of s [heap_nodes h ! 0]"
    using assms(1) by (auto simp: s2_def log_cb.cb_timers log_cb.cb_heaps log_cb.cb_clock calls_of_Cons)
      (auto simp: log_cb_def calls_of_def List.map_filter_def)
  have "fire_timer log_cb r h s =
      (case timers s2 (heap_nodes h ! 0) of
                None \<Rightarrow> None
              | Some t \<Rightarrow>
                  if is_periodic t then
                    (let (now, s) = get_monotonic_ms s2;
                         s = set_timer (heap_nodes h ! 0) (Some (t\<lparr>expire_at_ms := now + ucast (interval_ms t),
                                                   is_running := True\<rparr>)) s
                     in case heap_of s r of
                          None \<Rightarrow> None
                        | Some h' \<Rightarrow>
                            if heap_size h' \<ge> length (heap_nodes h') then None
                            else Some (upd_heap r (heap_push (timer_key s) (heap_nodes h ! 0)) s))
                  else Some s2)"
    by (simp only: fire_timer_def Let_def assms(1) option.case s1_def[symmetric] s2_def[symmetric])
  then have "fire_timer log_cb r h s = Some s2" using s1 s2 assms(2) by simp
  then show ?thesis using s1 s2 that by simp
qed

lemma oneshot_loop:
  assumes "timers_wf s" "heaps_sorted s" "heap_of s r = Some h"
    and "\<And>p t. p \<in> set (heap_list h) \<Longrightarrow> timers s p = Some t \<Longrightarrow> \<not> is_periodic t"
    and "\<And>k. timespec_ms (clock s k) = now" "heap_size h \<le> fuel" "due_timers s now h = (xs, h')"
  shows "\<exists>s'. process_timers_loop fuel log_cb r now s = Returned (now, s') \<and> heap_of s' r = Some h' \<and>
     tnode.more s' = tnode.more s @ calls_of s xs \<and> timer_key s' = timer_key s \<and>
     (\<forall>p. timers s' p = (if p \<in> set xs then map_option (\<lambda>t. t\<lparr>is_running := False\<rparr>) (timers s p) else timers s p))"
  using assms
proof (induction fuel arbitrary: s h xs)
  case (0 s h xs)
  then have "xs = []" "h' = h" by (auto simp: due_timers_def)
  then show ?case
    using 0 by (subst process_timers_loop.simps) (auto simp: calls_of_def List.map_filter_def)
next
  case (Suc fuel s h xs)
  let ?p = "heap_nodes h ! 0"
  have b: "heap_bounds h" using Suc.prems(1,3) by (rule timers_wf_bounds)
  show ?case
  proof (cases "0 < heap_size h \<and> timer_key s ?p \<le> now")
    case True
    then have in_list: "?p \<in> set (heap_list h)" using heap_nodes_in_list[OF b] by blast
    then obtain t where t: "timers s ?p = Some t" using timers_wf_member[OF Suc.prems(1,3)] by blast
    have np: "\<not> is_periodic t" using Suc.prems(4) in_list t by blast
    let ?h1 = "heap_remove (timer_key s) 0 h"
    obtain s1 where s1: "fire_timer log_cb r h s = Some s1" "timers s1 = (timers s)(?p \<mapsto> t\<lparr>is_running := False\<rparr>)"
      "heap_of s1 r = Some ?h1" "tnode.more s1 = tnode.more s @ calls_of s [?p]" "clock s1 = clock s"
      by (rule fire_timer_log[OF t np Suc.prems(3)])
    have inv: "timers_wf s1" "heaps_sorted s1"
      using log_cb.fire_spec[OF Suc.prems(1-3)] True s1(1) by (metis option.inject)+
    let ?s2 = "s1\<lparr>clock_reads := clock_reads s1 + 1\<rparr>"
    have key: "timer_key s1 = timer_key s" using s1(2) t by (auto simp: timer_key_def fun_eq_iff)
    obtain m where m: "heap_size h = Suc m" using True by (cases "heap_size h") auto
    obtain ys where ys: "due_timers ?s2 now ?h1 = (ys, h')" "xs = ?p # ys"
      using Suc.prems(7) True key by (auto simp: due_timers_def m split: prod.splits)
    have np1: "\<not> is_periodic u" if "q \<in> set (heap_list ?h1)" "timers ?s2 q = Some u" for q u
    proof -
      have "q \<in># mset (heap_list h)"
        using that(1) heap_remove_list(2)[OF b, of 0 "timer_key s"] True by (metis in_diffD set_mset_mset)
      then show ?thesis using that(2) Suc.prems(4)[of q] np s1(2) by (auto split: if_splits)
    qed
    have "\<exists>s'. process_timers_loop fuel log_cb r now ?s2 = Returned (now, s') \<and> heap_of s' r = Some h' \<and>
       tnode.more s' = tnode.more ?s2 @ calls_of ?s2 ys \<and> timer_key s' = timer_key ?s2 \<and>
       (\<forall>p. timers s' p = (if p \<in> set ys then map_option (\<lambda>t. t\<lparr>is_running := False\<rparr>) (timers ?s2 p) else timers ?s2 p))"
    proof (rule Suc.IH[OF _ _ _ np1 _ _ ys(1)])
      show "timers_wf ?s2" using inv(1) timers_wf_cong[of ?s2 s1] by simp
      show "heaps_sorted ?s2" using inv(2) heaps_sorted_cong[of ?s2 s1] by simp
    qed (use s1 Suc.prems m in auto)
    then obtain s' where s': "process_timers_loop fuel log_cb r now ?s2 = Returned (now, s')" "heap_of s' r = Some h'"
       "tnode.more s' = tnode.more ?s2 @ calls_of ?s2 ys" "timer_key s' = timer_key ?s2"
       "\<forall>p. timers s' p = (if p \<in> set ys then map_option (\<lambda>t. t\<lparr>is_running := False\<rparr>) (timers ?s2 p) else timers ?s2 p)"
      by blast
    have "calls_of ?s2 ys = calls_of s ys" using s1(2) calls_of_stop[OF t, of ?s2] by simp
    then have "tnode.more s' = tnode.more s @ calls_of s xs"
      using s'(3) s1(4) ys(2) t by (simp add: calls_of_Cons) (simp add: calls_of_def List.map_filter_def)
    moreover have "timer_key s' = timer_key s" using s'(4) key by simp
    moreover have "process_timers_loop (Suc fuel) log_cb r now s = Returned (now, s')"
      using True Suc.prems(3,5) s1(1,5) s'(1)
      by (subst process_timers_loop.simps) (simp add: get_monotonic_ms_def)
    ultimately show ?thesis
      using s'(2,5) s1(2) t ys(2) by auto
  next
    case False
    then have "xs = []" "h' = h" using Suc.prems(7) by (auto simp: due_timers_def split: if_splits) (cases "heap_size h"; auto)+
    then show ?thesis
      using False Suc.prems(3) by (subst process_timers_loop.simps) (auto simp: calls_of_def List.map_filter_def)
  qed
qed

section \<open>Sample nodes\<close>

text \<open>
  A node with one worker thread that runs component 7 and waits for the given timers
  (pointer, expiry, interval, periodic), in the given heap order; the clock stands still.
\<close>

definition sample_timer :: "u64 \<Rightarrow> u32 \<Rightarrow> bool \<Rightarrow> nos_timer" where
  "sample_timer e i p = \<lparr>expire_at_ms = e, interval_ms = i, is_periodic = p, callback = 9, free_arg = NULL,
     arg = 0, is_running = True, owner_thread = Some (Worker 0)\<rparr>"

definition sample_thread :: "ptr list \<Rightarrow> nos_thread" where
  "sample_thread ns =
     \<lparr>thread_id = 0, thread_name = ''Worker-1'', epoll_set = Map.empty, notify_fd = 3, notify_count = 0,
      notify_entry = \<lparr>fde_fd = 3, fde_callback = NULL, fde_arg = 0\<rparr>, stop_requested = False,
      is_sleeping = False, msg_queue = [], head = 0, tail = 0, components = [7], component_count = 1,
      fd_entries = [], fd_count = 0,
      timer_heap = \<lparr>heap_nodes = ns @ [0, 0], heap_size = length ns, heap_capacity = length ns + 2\<rparr>\<rparr>"

definition sample_node :: "u64 \<Rightarrow> (ptr \<times> nos_timer) list \<Rightarrow> ptr list \<Rightarrow> (ptr \<times> ptr) list tnode_scheme" where
  "sample_node sec tms ns =
     \<lparr>threads = [Worker 0 \<mapsto> sample_thread ns], worker_count = 1, timers = map_of tms,
      clock = (\<lambda>_. (sec, 0)), clock_reads = 0, \<dots> = []\<rparr>"

definition late_node :: "(ptr \<times> ptr) list tnode_scheme" where
  "late_node = sample_node 5
     [(1, sample_timer 1000 0 False), (2, sample_timer 10000 0 False), (3, sample_timer 2000 0 False),
      (4, sample_timer 11000 0 False), (5, sample_timer 12000 0 False), (6, sample_timer 30000 0 False),
      (8, sample_timer 3000 0 False)] [1, 2, 3, 4, 5, 6, 8]"

definition good_node :: "(ptr \<times> ptr) list tnode_scheme" where
  "good_node = sample_node 5 [(1, sample_timer 1000 3000 False), (2, sample_timer 9000 0 False),
     (4, (sample_timer 0 0 False)\<lparr>is_running := False, owner_thread := None\<rparr>)] [1, 2]"

definition periodic_node :: "u32 \<Rightarrow> (ptr \<times> ptr) list tnode_scheme" where
  "periodic_node i = sample_node 5 [(1, sample_timer 1000 i True)] [1]"

lemmas sample_defs = sample_node_def sample_thread_def sample_timer_def

lemmas wf_defs = timers_wf_def heap_live_def heaps_sorted_def heap_of_def heap_bounds_def heap_list_def
  heap_sorted_def heap_ordered_def

lemma good_node_ok: "timers_wf good_node" "heaps_sorted good_node" "clock_ok 5000 good_node" "intervals_ok good_node"
  by (auto simp: good_node_def sample_defs wf_defs clock_ok_def intervals_ok_def less_Suc_eq
      timer_key_def hparent_def timespec_ms_def split: if_splits)

lemma periodic_node_ok: "timers_wf (periodic_node i)" "heaps_sorted (periodic_node i)"
    "clock_ok 5000 (periodic_node i)"
  by (auto simp: periodic_node_def sample_defs wf_defs clock_ok_def timespec_ms_def split: if_splits)

section \<open>Properties\<close>

text \<open>
  C27 Starting a timer: it succeeds exactly when the component has a thread, the timer exists
  and is idle, and the thread's heap has room; then exactly this timer is added to the
  timers waiting on that thread, due \<open>interval\<close> after the clock reading; otherwise nothing
  changes. Both invariants are kept.
\<close>

theorem nos_timer_start_correct:
  assumes "timers_wf s" "heaps_sorted s" "nos_timer_start self tm interval periodic s = (st, s')"
  shows "(timers_wf s') \<and>
    (heaps_sorted s') \<and>
    (st = NOS_OK \<longleftrightarrow>
      (\<exists>r t h. find_thread_of_component self s = Some r \<and> timers s tm = Some t \<and> heap_of s r = Some h \<and>
               \<not> is_running t \<and> heap_size h < heap_capacity h)) \<and>
    ((st \<noteq> NOS_OK) \<longrightarrow> (s' = s)) \<and>
    ((st = NOS_OK) \<longrightarrow> (find_thread_of_component self s = Some r) \<longrightarrow> (mset (waiting s' r) = add_mset tm (mset (waiting s r)) \<and> (\<forall>q. q \<noteq> r \<longrightarrow> waiting s' q = waiting s q) \<and>
      timer_key s' tm = timespec_ms (clock s (clock_reads s)) + ucast interval))"
proof (rule conjI[OF _ conjI[OF _ conjI[OF _ conjI[OF impI impI[OF impI]]]]])
  show "timers_wf s'" "heaps_sorted s'" using nos_timer_start_inv[OF assms(1,3)] assms(2) by auto
  show "st \<noteq> NOS_OK \<Longrightarrow> s' = s" using assms(3) by (cases rule: nos_timer_start_cases) auto
  show "st = NOS_OK \<longleftrightarrow>
      (\<exists>r t h. find_thread_of_component self s = Some r \<and> timers s tm = Some t \<and> heap_of s r = Some h \<and>
               \<not> is_running t \<and> heap_size h < heap_capacity h)"
    using assms(3) by (auto simp: nos_timer_start_def Let_def split: option.splits if_splits prod.splits)
  show "mset (waiting s' r) = add_mset tm (mset (waiting s r)) \<and> (\<forall>q. q \<noteq> r \<longrightarrow> waiting s' q = waiting s q) \<and>
      timer_key s' tm = timespec_ms (clock s (clock_reads s)) + ucast interval"
    if "st = NOS_OK" "find_thread_of_component self s = Some r"
    using assms(3)
  proof (cases rule: nos_timer_start_cases)
    case (started r' t h th)
    then show ?thesis
      using that heap_push_list(2)[OF timers_wf_bounds[OF assms(1) started(4)] started(6)]
      by (auto simp: waiting_def timer_key_def)
  qed (use that in simp)
qed

theorem nos_timer_start_correct_witness:
  "timers_wf (snd (nos_timer_start 7 4 100 False good_node)) \<and>
   mset (waiting (snd (nos_timer_start 7 4 100 False good_node)) (Worker 0)) = {#1, 2, 4#}"
proof -
  obtain st s' where st: "nos_timer_start 7 4 100 False good_node = (st, s')" by (cases "nos_timer_start 7 4 100 False good_node")
  note c = nos_timer_start_correct[OF good_node_ok(1,2) st, where r = "Worker 0"]
  have f: "find_thread_of_component 7 good_node = Some (Worker 0)" by code_simp
  have "\<exists>t h. timers good_node 4 = Some t \<and> heap_of good_node (Worker 0) = Some h \<and> \<not> is_running t \<and>
      heap_size h < heap_capacity h"
    by (simp add: good_node_def sample_defs heap_of_def)
  then have ok: "st = NOS_OK" using c f by blast
  have "waiting good_node (Worker 0) = [1, 2]" by code_simp
  then show ?thesis using c ok f st by simp
qed

text \<open>
  Stopping a running timer takes exactly it off its thread's heap and keeps every waiting
  timer live; the heap stays ordered when the timer in the last slot, which is moved into
  the gap, is not due before the parent of the gap. A timer that is not running is refused.
\<close>

theorem nos_timer_stop_correct:
  assumes "timers_wf s" "heaps_sorted s" "timers s tm = Some t"
  shows "((is_running t) \<longrightarrow> (\<exists>r h i s'. nos_timer_stop self tm s = Some (NOS_OK, s') \<and> timers_wf s' \<and>
      owner_thread t = Some r \<and> heap_of s r = Some h \<and> heap_nodes h ! i = tm \<and> i < heap_size h \<and>
      mset (waiting s' r) = mset (waiting s r) - {#tm#} \<and> (\<forall>q. q \<noteq> r \<longrightarrow> waiting s' q = waiting s q) \<and>
      timers s' = (timers s)(tm \<mapsto> t\<lparr>is_running := False\<rparr>) \<and>
      ((i = 0 \<or> timer_key s (heap_nodes h ! hparent i) \<le> timer_key s (heap_nodes h ! (heap_size h - 1))) \<longrightarrow>
         heaps_sorted s'))) \<and>
    ((\<not> is_running t) \<longrightarrow> (nos_timer_stop self tm s = Some (NOS_ERR, s)))"
proof (rule conjI[OF impI impI])
  show "nos_timer_stop self tm s = Some (NOS_ERR, s)" if "\<not> is_running t"
    using nos_timer_stop_idle[OF assms(3) that] .
  assume run: "is_running t"
  obtain r h i where o: "owner_thread t = Some r" "heap_of s r = Some h" "i < heap_size h" "heap_nodes h ! i = tm"
      "nos_timer_stop self tm s = Some (NOS_OK, set_timer tm (Some (t\<lparr>is_running := False\<rparr>))
         (upd_heap r (heap_remove (timer_key s) i) s))"
    by (rule nos_timer_stop_running[OF assms(1,3) run, of self])
  let ?s = "set_timer tm (Some (t\<lparr>is_running := False\<rparr>)) (upd_heap r (heap_remove (timer_key s) i) s)"
  have s': "timers ?s = (timers s)(tm \<mapsto> t\<lparr>is_running := False\<rparr>)" "heap_of ?s = (heap_of s)(r \<mapsto> heap_remove (timer_key s) i h)"
    using o(2) by auto
  have wf: "timers_wf ?s" by (rule nos_timer_stop_inv[OF assms(1) o(5)])
  have "heaps_sorted ?s"
    if "i = 0 \<or> timer_key s (heap_nodes h ! hparent i) \<le> timer_key s (heap_nodes h ! (heap_size h - 1))"
    by (rule heaps_sorted_remove[OF assms(2,1) o(2-4) _ s' wf]) (use that in auto)
  then show "\<exists>r h i s'. nos_timer_stop self tm s = Some (NOS_OK, s') \<and> timers_wf s' \<and>
      owner_thread t = Some r \<and> heap_of s r = Some h \<and> heap_nodes h ! i = tm \<and> i < heap_size h \<and>
      mset (waiting s' r) = mset (waiting s r) - {#tm#} \<and> (\<forall>q. q \<noteq> r \<longrightarrow> waiting s' q = waiting s q) \<and>
      timers s' = (timers s)(tm \<mapsto> t\<lparr>is_running := False\<rparr>) \<and>
      ((i = 0 \<or> timer_key s (heap_nodes h ! hparent i) \<le> timer_key s (heap_nodes h ! (heap_size h - 1))) \<longrightarrow>
         heaps_sorted s')"
    using o wf s' waiting_remove[OF assms(1) o(2-4) s'(2)] by blast
qed

theorem nos_timer_stop_correct_witness:
  "\<exists>s'. nos_timer_stop 7 1 good_node = Some (NOS_OK, s') \<and> timers_wf s'"
proof -
  have t: "timers good_node 1 = Some (sample_timer 1000 3000 False)" by (simp add: good_node_def sample_node_def)
  show ?thesis
    using nos_timer_stop_correct[OF good_node_ok(1,2) t, where self = 7, THEN conjunct1, rule_format] by (auto simp: sample_timer_def)
qed

end
