(* ===== verification/TimerClaims.thy ===== *)
theory TimerClaims
  imports TimerProps
begin

text \<open>
  The properties of a pass over the timers (\<open>process_timers\<close>) and of \<open>nos_timer_delete\<close>,
  for any component callbacks that leave the timers alone, and the two cases in which the
  service does not keep its promise: a periodic timer with interval 0, and a heap out of
  order after \<open>nos_timer_stop\<close>.
\<close>

section \<open>A periodic timer with interval 0\<close>

definition spins :: "'z tnode_scheme \<Rightarrow> thread_ref \<Rightarrow> u64 \<Rightarrow> ptr \<Rightarrow> bool" where
  "spins s r now p \<longleftrightarrow> p \<in> set (waiting s r) \<and>
     (case timers s p of None \<Rightarrow> False
      | Some t \<Rightarrow> is_periodic t \<and> interval_ms t = 0 \<and> expire_at_ms t \<le> now)"

lemma spins_heap:
  assumes "spins s r now p" "timers_wf s" "heaps_sorted s"
  obtains h where "heap_of s r = Some h" "0 < heap_size h" "timer_key s (heap_nodes h ! 0) \<le> now"
proof -
  obtain h where h: "heap_of s r = Some h" "p \<in> set (heap_list h)"
    using assms(1) by (cases "heap_of s r") (auto simp: spins_def waiting_def)
  have b: "heap_bounds h" using assms(2) h(1) by (rule timers_wf_bounds)
  have "heap_sorted (timer_key s) h" using assms(3) h(1) by (simp add: heaps_sorted_def)
  then have "timer_key s (heap_nodes h ! 0) \<le> timer_key s p" using heap_root_least b h(2) by blast
  moreover have "timer_key s p \<le> now"
    using assms(1) by (auto simp: spins_def timer_key_def split: option.splits)
  moreover have "0 < heap_size h" using heap_list_nonempty[OF b] h(2) by (cases "heap_size h") auto
  ultimately show ?thesis using h(1) that by (meson order_trans)
qed

context quiet_callbacks begin

lemma spins_step:
  assumes wf: "timers_wf s" "heaps_sorted s" and h: "heap_of s r = Some h" "0 < heap_size h"
    and p: "spins s r now p"
    and mono: "\<And>i j. i \<le> j \<Longrightarrow> timespec_ms (clock s i) \<le> timespec_ms (clock s j)"
    and now: "now \<le> timespec_ms (clock s (clock_reads s))"
  obtains s' where "fire_timer cb r h s = Some s'" "timers_wf s'" "heaps_sorted s'" "clock s' = clock s"
    "spins s' r (timespec_ms (clock s' (clock_reads s'))) p"
proof (rule fire_spec[OF wf h], goal_cases)
  case (1 t s')
  note f = 1(2-)
  let ?tm = "heap_nodes h ! 0" and ?now = "timespec_ms (clock s (clock_reads s'))"
  have b: "heap_bounds h" using wf(1) h(1) by (rule timers_wf_bounds)
  obtain u where u: "timers s p = Some u" "is_periodic u" "interval_ms u = 0" "expire_at_ms u \<le> now"
    using p by (auto simp: spins_def split: option.splits)
  have now': "now \<le> ?now" using now mono[OF f(6)] by (rule order_trans)
  have "spins s' r ?now p"
  proof (cases "is_periodic t")
    case True
    obtain k where k: "k < clock_reads s'" "timers s' = (timers s)(?tm \<mapsto>
        t\<lparr>expire_at_ms := timespec_ms (clock s k) + ucast (interval_ms t), is_running := True\<rparr>)"
      using f(10)[OF True] by blast
    have "p \<in> set (waiting s' r)"
      using p mset_eq_setD[OF f(11)[OF True]] by (simp add: spins_def)
    then show ?thesis
      using k u f(1) mono[of k "clock_reads s'"] now' by (auto simp: spins_def intro: order_trans)
  next
    case False
    then have ne: "p \<noteq> ?tm" using u f(1) by auto
    have "p \<in># mset (heap_list h) - {#?tm#}"
      using p ne h(1) by (auto simp: spins_def waiting_def in_diff_count)
    then have "p \<in> set (waiting s' r)"
      using f(9)[OF False] heap_remove_list(2)[OF b h(2), of "timer_key s"] 
      by (metis set_mset_mset waiting_heap)
    then show ?thesis
      using f(8)[OF False] ne u now' by (auto simp: spins_def intro: order_trans)
  qed
  then show ?thesis using 1(1)[of s'] f by simp
qed

lemma loop_spins:
  assumes "timers_wf s" "heaps_sorted s" "spins s r now p"
    and "\<And>i j. i \<le> j \<Longrightarrow> timespec_ms (clock s i) \<le> timespec_ms (clock s j)"
    and "now \<le> timespec_ms (clock s (clock_reads s))"
  shows "process_timers_loop fuel cb r now s = OutOfFuel"
  using assms
proof (induction fuel arbitrary: s now)
  case (0 s now)
  obtain h where h: "heap_of s r = Some h" "0 < heap_size h" "timer_key s (heap_nodes h ! 0) \<le> now"
    using spins_heap[OF 0(3,1,2)] .
  then show ?case by (subst process_timers_loop.simps) simp
next
  case (Suc fuel s now)
  obtain h where h: "heap_of s r = Some h" "0 < heap_size h" "timer_key s (heap_nodes h ! 0) \<le> now"
    using spins_heap[OF Suc.prems(3,1,2)] .
  obtain s' where s': "fire_timer cb r h s = Some s'" "timers_wf s'" "heaps_sorted s'" "clock s' = clock s"
    "spins s' r (timespec_ms (clock s' (clock_reads s'))) p"
    using spins_step[OF Suc.prems(1,2) h(1,2) Suc.prems(3,4,5)] .
  let ?s2 = "s'\<lparr>clock_reads := clock_reads s' + 1\<rparr>"
  have "process_timers_loop fuel cb r (timespec_ms (clock s' (clock_reads s'))) ?s2 = OutOfFuel"
  proof (rule Suc.IH)
    show "timers_wf ?s2" using s'(2) timers_wf_cong[of ?s2 s'] by simp
    show "heaps_sorted ?s2" using s'(3) heaps_sorted_cong[of ?s2 s'] by simp
    show "spins ?s2 r (timespec_ms (clock s' (clock_reads s'))) p" using s'(5) by (simp add: spins_def waiting_def)
  qed (use s'(4) Suc.prems(4) in auto)
  then show ?case
    using h s'(1) by (subst process_timers_loop.simps) (simp add: get_monotonic_ms_def)
qed

end

lemma returned_case:
  "(case x of Returned (a, b) \<Rightarrow> P a b | _ \<Rightarrow> False) \<Longrightarrow> \<exists>a b. x = Returned (a, b) \<and> P a b"
  by (auto split: run.split_asm)

lemma filter_mset_split:
  "\<forall>p \<in> set xs. P p \<Longrightarrow> \<forall>p \<in> set ys. \<not> P p \<Longrightarrow> filter_mset P (mset xs + mset ys) = mset xs"
  by (induction xs) (auto simp: filter_mset_eq_conv)

section \<open>Properties\<close>





text \<open>
  Deleting a timer leaves no dangling pointer: it is taken off whatever heap holds it
  before its memory is freed, no other timer is touched, and every timer that still waits is a
  live object.
\<close>

theorem nos_timer_delete_unlinks:
  assumes "quiet_callbacks cb" "timers_wf s" "timers s tm = Some t" "tm \<noteq> NULL"
  shows "\<exists>s'. nos_timer_delete cb tm s = Some s' \<and> timers s' = (timers s)(tm := None) \<and> timers_wf s' \<and>
    (\<forall>r. mset (waiting s' r) = mset (waiting s r) - {#tm#})"
  by (rule quiet_callbacks.delete_spec[OF assms]) blast

theorem nos_timer_delete_unlinks_witness:
  "\<exists>s'. nos_timer_delete log_cb 1 good_node = Some s' \<and> timers s' 1 = None \<and> mset (waiting s' (Worker 0)) = {#2#}"
proof -
  have t: "timers good_node 1 = Some (sample_timer 1000 3000 False)" by (simp add: good_node_def sample_node_def)
  have "waiting good_node (Worker 0) = [1, 2]" by code_simp
  then show ?thesis
    using nos_timer_delete_unlinks[OF log_cb.quiet_callbacks_axioms good_node_ok(1) t]
    by (metis (no_types, opaque_lifting) add_mset_remove_trivial fun_upd_same mset.simps one_neq_zero)
qed

text \<open>
  A periodic timer with interval 0 holds its thread for ever: once it is due,
  \<open>process_timers\<close> calls its callback again and again and never returns to the message loop,
  however long it runs.
\<close>

theorem zero_interval_never_returns:
  assumes "quiet_callbacks cb" "timers_wf s" "heaps_sorted s"
    and "\<And>i j. i \<le> j \<Longrightarrow> timespec_ms (clock s i) \<le> timespec_ms (clock s j)"
    and "p \<in> set (waiting s r)" "timers s p = Some t" "is_periodic t" "interval_ms t = 0"
    and "expire_at_ms t \<le> timespec_ms (clock s (clock_reads s))"
  shows "process_timers fuel cb r s = OutOfFuel"
proof -
  let ?s = "s\<lparr>clock_reads := clock_reads s + 1\<rparr>"
  have "process_timers_loop fuel cb r (timespec_ms (clock s (clock_reads s))) ?s = OutOfFuel"
  proof (rule quiet_callbacks.loop_spins[OF assms(1)])
    show "spins ?s r (timespec_ms (clock s (clock_reads s))) p"
      using assms(5-9) by (simp add: spins_def waiting_def)
  qed (use assms(2-4) timers_wf_cong[of ?s s] heaps_sorted_cong[of ?s s] in auto)
  then show ?thesis by (simp add: process_timers_def get_monotonic_ms_def)
qed

theorem zero_interval_never_returns_witness:
  "\<forall>fuel. process_timers fuel log_cb (Worker 0) (periodic_node 0) = OutOfFuel"
proof -
  have t: "timers (periodic_node 0) 1 = Some (sample_timer 1000 0 True)"
    by (simp add: periodic_node_def sample_node_def)
  have w: "1 \<in> set (waiting (periodic_node 0) (Worker 0))" by code_simp
  have m: "timespec_ms (clock (periodic_node 0) i) = 5000" for i
    by (simp add: periodic_node_def sample_node_def timespec_ms_def)
  show ?thesis
    using zero_interval_never_returns[OF log_cb.quiet_callbacks_axioms periodic_node_ok(1,2) _ w t] m
    by (auto simp: sample_timer_def)
qed

text \<open>
  Stopping a timer can delay another one: \<open>nos_timer_stop\<close> moves the heap's last timer into
  the gap and only sifts it down, so it can end up below a timer that is due later. In this
  node, timer 8 (due at 3000) is not called by the pass at 5000 after timer 4 was stopped,
  though without the stop it is.
\<close>

theorem nos_timer_stop_delays_other_timer:
  "\<exists>s1 s2 s3. timers_wf late_node \<and> heaps_sorted late_node \<and>
     nos_timer_stop 7 4 late_node = Some (NOS_OK, s1) \<and>
     process_timers 10 log_cb (Worker 0) s1 = Returned (5000, s2) \<and>
     8 \<in> set (waiting s2 (Worker 0)) \<and> timer_key s2 8 = 3000 \<and>
     process_timers 10 log_cb (Worker 0) late_node = Returned (5000, s3) \<and> 8 \<notin> set (waiting s3 (Worker 0))"
proof -
  have wf: "timers_wf late_node" "heaps_sorted late_node"
    by (auto simp: late_node_def sample_defs wf_defs less_Suc_eq timer_key_def hparent_def split: if_splits)
  have "case nos_timer_stop 7 4 late_node of None \<Rightarrow> False
    | Some (st, s1) \<Rightarrow> st = NOS_OK \<and> (case process_timers 10 log_cb (Worker 0) s1 of
        Returned (now, s2) \<Rightarrow> now = 5000 \<and> 8 \<in> set (waiting s2 (Worker 0)) \<and> timer_key s2 8 = 3000
      | _ \<Rightarrow> False)"
    by code_simp
  moreover have "case process_timers 10 log_cb (Worker 0) late_node of
        Returned (now, s3) \<Rightarrow> now = 5000 \<and> 8 \<notin> set (waiting s3 (Worker 0)) | _ \<Rightarrow> False"
    by code_simp
  ultimately show ?thesis
    using wf by (cases "nos_timer_stop 7 4 late_node") (auto dest!: returned_case)
qed

end
