(* ===== verification/RefPool.thy ===== *)
theory RefPool
  imports NosPrelude
begin

text \<open>
  The contract of the two buffer pools of a node, the local one (\<open>nos_buffer.c\<close>) and the one
  in shared memory (\<open>nos_shm.c\<close>): an allocation hands out a buffer nobody holds, with one
  reference; \<open>retain\<close> adds a reference to a held buffer and \<open>release\<close> drops one. The pools are
  read through the number of references to each buffer (\<open>held\<close>). A client that only retains
  and releases buffers it holds gets the guarantees of this theory.
\<close>

datatype ('a, 'r) pool_op = Get 'a | Ref 'r | Drop 'r

text \<open>
  A run of client operations: the final pool and the buffers handed out. \<open>None\<close> when the
  client retains or releases a buffer that is not held.
\<close>

fun pool_run ::
  "('p \<Rightarrow> 'r \<Rightarrow> nat) \<Rightarrow> ('a \<Rightarrow> 'p \<Rightarrow> ('r \<times> 'p) option) \<Rightarrow> ('r \<Rightarrow> 'p \<Rightarrow> 'p) \<Rightarrow> ('r \<Rightarrow> 'p \<Rightarrow> 'p)
     \<Rightarrow> 'p \<Rightarrow> ('a, 'r) pool_op list \<Rightarrow> ('p \<times> 'r list) option" where
  "pool_run held alloc retain release p [] = Some (p, [])"
| "pool_run held alloc retain release p (Get a # ops) =
     (case alloc a p of
        None \<Rightarrow> pool_run held alloc retain release p ops
      | Some (r, p') \<Rightarrow> map_option (\<lambda>(q, rs). (q, r # rs)) (pool_run held alloc retain release p' ops))"
| "pool_run held alloc retain release p (Ref r # ops) =
     (if held p r > 0 then pool_run held alloc retain release (retain r p) ops else None)"
| "pool_run held alloc retain release p (Drop r # ops) =
     (if held p r > 0 then pool_run held alloc retain release (release r p) ops else None)"

fun refs_of :: "'r \<Rightarrow> ('a, 'r) pool_op list \<Rightarrow> nat" where
  "refs_of r [] = 0"
| "refs_of r (Ref x # ops) = (if x = r then 1 else 0) + refs_of r ops"
| "refs_of r (op # ops) = refs_of r ops"

fun drops_of :: "'r \<Rightarrow> ('a, 'r) pool_op list \<Rightarrow> nat" where
  "drops_of r [] = 0"
| "drops_of r (Drop x # ops) = (if x = r then 1 else 0) + drops_of r ops"
| "drops_of r (op # ops) = drops_of r ops"

text \<open>\<open>lim\<close> is the largest count a reference counter holds; a client stays below it.\<close>

locale ref_pool =
  fixes held :: "'p \<Rightarrow> 'r \<Rightarrow> nat"
    and invar :: "'p \<Rightarrow> bool"
    and lim :: nat
    and alloc :: "'a \<Rightarrow> 'p \<Rightarrow> ('r \<times> 'p) option"
    and retain :: "'r \<Rightarrow> 'p \<Rightarrow> 'p"
    and release :: "'r \<Rightarrow> 'p \<Rightarrow> 'p"
  assumes alloc_Some: "invar p \<Longrightarrow> alloc a p = Some (r, p') \<Longrightarrow>
      invar p' \<and> held p r = 0 \<and> held p' = (held p)(r := 1)"
    and retain_held: "invar p \<Longrightarrow> 0 < held p r \<Longrightarrow> held p r < lim \<Longrightarrow>
      invar (retain r p) \<and> held (retain r p) = (held p)(r := held p r + 1)"
    and release_held: "invar p \<Longrightarrow> 0 < held p r \<Longrightarrow>
      invar (release r p) \<and> held (release r p) = (held p)(r := held p r - 1)"
    and lim_pos: "1 \<le> lim"
begin

abbreviation "run \<equiv> pool_run held alloc retain release"

lemma run_spec:
  assumes "invar p" "run p ops = Some (q, rs)" "\<And>r. held p r + refs_of r ops < lim" "1 + length ops \<le> lim"
  shows "invar q \<and> (\<forall>r. held q r + drops_of r ops = held p r + refs_of r ops + count_list rs r)"
  using assms
proof (induction ops arbitrary: p rs)
  case (Cons op ops)
  show ?case
  proof (cases op)
    case (Get a)
    show ?thesis
    proof (cases "alloc a p")
      case None
      then show ?thesis using Cons.IH[OF Cons.prems(1)] Cons.prems(2-) Get by simp
    next
      case (Some x)
      then obtain r p' where x: "alloc a p = Some (r, p')" by (cases x) auto
      note p' = alloc_Some[OF Cons.prems(1) x]
      obtain rs' where rs': "run p' ops = Some (q, rs')" "rs = r # rs'"
        using Cons.prems(2) x Get by auto
      have small: "refs_of u ops \<le> length ops" for u
        by (induction ops rule: refs_of.induct) auto
      have "held p' u + refs_of u ops < lim" for u
        using p' Cons.prems(3)[of u] Cons.prems(4) small[of u] Get by auto
      then have "invar q \<and> (\<forall>u. held q u + drops_of u ops = held p' u + refs_of u ops + count_list rs' u)"
        using Cons.IH[of p' rs'] p' rs'(1) Cons.prems(4) by simp
      moreover have "held p' u + count_list rs' u = held p u + count_list rs u" for u
        using p' rs'(2) by auto
      ultimately show ?thesis using Get by (metis add.assoc add.commute drops_of.simps(3) refs_of.simps(3))
    qed
  next
    case (Ref r)
    have h: "0 < held p r" "held p r < lim" and step: "run (retain r p) ops = Some (q, rs)"
      using Cons.prems(2) Cons.prems(3)[of r] Ref by (auto split: if_splits)
    note p' = retain_held[OF Cons.prems(1) h]
    have "held (retain r p) u + refs_of u ops < lim" for u
      using p' Cons.prems(3)[of u] Ref by (auto split: if_splits)
    then have "invar q \<and> (\<forall>u. held q u + drops_of u ops = held (retain r p) u + refs_of u ops + count_list rs u)"
      using Cons.IH[OF _ step] p' Cons.prems(4) by simp
    then show ?thesis using p' Ref by auto
  next
    case (Drop r)
    have h: "0 < held p r" and step: "run (release r p) ops = Some (q, rs)"
      using Cons.prems(2) Drop by (auto split: if_splits)
    note p' = release_held[OF Cons.prems(1) h]
    have "held (release r p) u + refs_of u ops < lim" for u
      using p' Cons.prems(3)[of u] Drop by (auto split: if_splits)
    then have "invar q \<and> (\<forall>u. held q u + drops_of u ops = held (release r p) u + refs_of u ops + count_list rs u)"
      using Cons.IH[OF _ step] p' Cons.prems(4) by simp
    then show ?thesis using p' h Drop by auto
  qed
qed simp

text \<open>A buffer that keeps a reference which is never dropped is not handed out again.\<close>

lemma run_pinned:
  assumes "invar p" "run p ops = Some (q, rs)" "\<And>r. held p r + refs_of r ops < lim" "1 + length ops \<le> lim"
    and "drops_of r ops < held p r"
  shows "r \<notin> set rs"
  using assms
proof (induction ops arbitrary: p rs)
  case (Cons op ops)
  show ?case
  proof (cases op)
    case (Get a)
    show ?thesis
    proof (cases "alloc a p")
      case None
      then show ?thesis using Cons.IH[OF Cons.prems(1)] Cons.prems(2-) Get by simp
    next
      case (Some x)
      then obtain u p' where x: "alloc a p = Some (u, p')" by (cases x) auto
      note p' = alloc_Some[OF Cons.prems(1) x]
      obtain rs' where rs': "run p' ops = Some (q, rs')" "rs = u # rs'"
        using Cons.prems(2) x Get by auto
      have small: "refs_of w ops \<le> length ops" for w
        by (induction ops rule: refs_of.induct) auto
      have "held p' w + refs_of w ops < lim" for w
        using p' Cons.prems(3)[of w] Cons.prems(4) small[of w] Get by auto
      moreover have "u \<noteq> r" using p' Cons.prems(5) by auto
      ultimately show ?thesis
        using Cons.IH[of p' rs'] p' rs' Cons.prems(4,5) Get by simp
    qed
  next
    case (Ref u)
    have h: "0 < held p u" "held p u < lim" and step: "run (retain u p) ops = Some (q, rs)"
      using Cons.prems(2) Cons.prems(3)[of u] Ref by (auto split: if_splits)
    note p' = retain_held[OF Cons.prems(1) h]
    have "held (retain u p) w + refs_of w ops < lim" for w
      using p' Cons.prems(3)[of w] Ref by (auto split: if_splits)
    moreover have "drops_of r ops < held (retain u p) r" using p' Cons.prems(5) Ref by auto
    ultimately show ?thesis using Cons.IH[OF _ step] p' Cons.prems(4) by simp
  next
    case (Drop u)
    have h: "0 < held p u" and step: "run (release u p) ops = Some (q, rs)"
      using Cons.prems(2) Drop by (auto split: if_splits)
    note p' = release_held[OF Cons.prems(1) h]
    have "held (release u p) w + refs_of w ops < lim" for w
      using p' Cons.prems(3)[of w] Drop by (auto split: if_splits)
    moreover have "drops_of r ops < held (release u p) r"
      using p' Cons.prems(5) Drop by (auto split: if_splits)
    ultimately show ?thesis using Cons.IH[OF _ step] p' Cons.prems(4) by simp
  qed
qed simp

end

end
