(* ===== verification/BufferPool.thy ===== *)
theory BufferPool
  imports RefPool
begin

text \<open>
  The local buffer pool (\<open>src/core/nos_buffer.c\<close>): up to eight bins of equally sized chunks,
  each with a stack of the indices of its free chunks. A pointer into the chunk memory of a
  bin is the offset from its \<open>raw_mem\<close>; a \<open>nos_buffer_t *\<close> is the pair of its bin and its
  index in the bin. Reference counts are C \<open>int\<close>s: 32-bit words read with \<open>sint\<close>.
\<close>

section \<open>State\<close>

definition MAX_BINS :: nat where "MAX_BINS = 8"

definition CACHE_LINE_SIZE :: u32 where "CACHE_LINE_SIZE = 64"

record nos_buffer =
  raw_data :: int
  data :: int
  capacity :: u32
  len :: u32
  headroom :: u32
  tailroom :: u32
  ref_cnt :: u32
  bin_idx :: nat
  pool_idx :: nat
  flags :: u32

record nos_buffer_bin =
  chunk_size :: u32
  chunk_count :: u32
  buffers :: "nos_buffer list"
  raw_mem_size :: u32
  free_stack :: "nat list"
  free_top :: int
  used_count :: u32
  peak_count :: u32

record bufpool =
  g_bins :: "nos_buffer_bin list"
  g_bin_count :: nat

record nos_buffer_pool_def =
  def_chunk_size :: u32
  def_chunk_count :: u32

definition zero_bin :: nos_buffer_bin where
  "zero_bin = \<lparr>chunk_size = 0, chunk_count = 0, buffers = [], raw_mem_size = 0, free_stack = [],
               free_top = 0, used_count = 0, peak_count = 0\<rparr>"

definition empty_pool :: bufpool where
  "empty_pool = \<lparr>g_bins = replicate MAX_BINS zero_bin, g_bin_count = 0\<rparr>"

definition upd_bin :: "nat \<Rightarrow> (nos_buffer_bin \<Rightarrow> nos_buffer_bin) \<Rightarrow> bufpool \<Rightarrow> bufpool" where
  "upd_bin i f p = p\<lparr>g_bins := (g_bins p)[i := f (g_bins p ! i)]\<rparr>"

definition upd_bin_buf :: "nat \<Rightarrow> (nos_buffer \<Rightarrow> nos_buffer) \<Rightarrow> nos_buffer_bin \<Rightarrow> nos_buffer_bin" where
  "upd_bin_buf j f b = b\<lparr>buffers := (buffers b)[j := f (buffers b ! j)]\<rparr>"

definition pool_buf :: "bufpool \<Rightarrow> nat \<times> nat \<Rightarrow> nos_buffer" where
  "pool_buf p r = buffers (g_bins p ! fst r) ! snd r"

definition upd_pool_buf :: "nat \<times> nat \<Rightarrow> (nos_buffer \<Rightarrow> nos_buffer) \<Rightarrow> bufpool \<Rightarrow> bufpool" where
  "upd_pool_buf r f = upd_bin (fst r) (upd_bin_buf (snd r) f)"

section \<open>Operations\<close>

text \<open>
  The body of the loop of \<open>nos_buffer_init_pool\<close> for bin \<open>i\<close>; the unchecked \<open>calloc\<close> and
  \<open>malloc\<close> are taken to succeed. \<open>memalign\<close> says for which sizes \<open>posix_memalign\<close> succeeds;
  when it fails the process exits (\<open>None\<close>). The end of the configuration list is its
  terminating entry.
\<close>

definition init_chunk :: "u32 \<Rightarrow> nat \<Rightarrow> nat \<Rightarrow> nos_buffer" where
  "init_chunk cs i j =
     \<lparr>raw_data = int (unat (of_nat j * cs)), data = int (unat (of_nat j * cs)), capacity = cs, len = 0,
      headroom = 0, tailroom = cs, ref_cnt = 0, bin_idx = i, pool_idx = j, flags = 0\<rparr>"

definition init_bin :: "nat \<Rightarrow> nos_buffer_pool_def \<Rightarrow> nos_buffer_bin" where
  "init_bin i d =
     (let cs = (def_chunk_size d + CACHE_LINE_SIZE - 1) AND NOT (CACHE_LINE_SIZE - 1);
          n = unat (def_chunk_count d)
      in \<lparr>chunk_size = cs, chunk_count = def_chunk_count d, buffers = map (init_chunk cs i) [0..<n],
          raw_mem_size = cs * def_chunk_count d, free_stack = [0..<n], free_top = int n - 1,
          used_count = 0, peak_count = 0\<rparr>)"

fun init_bins :: "(u32 \<Rightarrow> bool) \<Rightarrow> nat \<Rightarrow> nos_buffer_pool_def list \<Rightarrow> bufpool \<Rightarrow> bufpool option" where
  "init_bins memalign i [] p = Some p"
| "init_bins memalign i (d # ds) p =
     (if def_chunk_size d > 0 \<and> i < MAX_BINS then
        (let b = init_bin i d in
         if \<not> memalign (raw_mem_size b) then None
         else init_bins memalign (Suc i) ds
                (p\<lparr>g_bins := (g_bins p)[i := b], g_bin_count := g_bin_count p + 1\<rparr>))
      else Some p)"

definition nos_buffer_init_pool ::
  "(u32 \<Rightarrow> bool) \<Rightarrow> nos_buffer_pool_def list option \<Rightarrow> bufpool \<Rightarrow> (nos_status \<times> bufpool) option" where
  "nos_buffer_init_pool memalign config p =
     (case config of
        None \<Rightarrow> Some (NOS_ERR, p)
      | Some ds \<Rightarrow>
          if g_bin_count p > 0 then Some (NOS_OK, p)
          else map_option (Pair NOS_OK) (init_bins memalign 0 ds p))"

definition nos_buffer_deinit_pool :: "bufpool \<Rightarrow> bufpool" where
  "nos_buffer_deinit_pool p =
     p\<lparr>g_bins := replicate (g_bin_count p) zero_bin @ drop (g_bin_count p) (g_bins p), g_bin_count := 0\<rparr>"

definition take_chunk :: "u32 \<Rightarrow> u32 \<Rightarrow> nos_buffer_bin \<Rightarrow> nos_buffer_bin" where
  "take_chunk sz hr bin =
     (let idx = free_stack bin ! nat (free_top bin);
          bin = bin\<lparr>free_top := free_top bin - 1\<rparr>;
          bin = upd_bin_buf idx (\<lambda>buf. buf\<lparr>ref_cnt := 1, headroom := hr,
                  data := raw_data buf + int (unat hr), len := sz,
                  tailroom := capacity buf - hr - sz\<rparr>) bin;
          used = used_count bin + 1
      in bin\<lparr>used_count := used, peak_count := (if used > peak_count bin then used else peak_count bin)\<rparr>)"

text \<open>The buffer and the new pool, or \<open>None\<close> for \<open>NULL\<close>, when the pool is unchanged.\<close>

definition nos_buffer_alloc :: "u32 \<Rightarrow> u32 \<Rightarrow> bufpool \<Rightarrow> ((nat \<times> nat) \<times> bufpool) option" where
  "nos_buffer_alloc sz hr p =
     (let total_needed = sz + hr in
      case find_slot (\<lambda>bin. chunk_size bin \<ge> total_needed \<and> free_top bin \<ge> 0) (g_bin_count p) (g_bins p) of
        None \<Rightarrow> None
      | Some i \<Rightarrow>
          Some ((i, free_stack (g_bins p ! i) ! nat (free_top (g_bins p ! i))),
                upd_bin i (take_chunk sz hr) p))"

text \<open>\<open>nos_buffer_retain\<close> and \<open>nos_buffer_release\<close> on a buffer whose \<open>flags\<close> are not 1.\<close>

definition pool_retain :: "nat \<times> nat \<Rightarrow> bufpool \<Rightarrow> bufpool" where
  "pool_retain r = upd_pool_buf r (\<lambda>buf. buf\<lparr>ref_cnt := ref_cnt buf + 1\<rparr>)"

definition push_chunk :: "nat \<Rightarrow> nos_buffer_bin \<Rightarrow> nos_buffer_bin" where
  "push_chunk j bin =
     (let top = free_top bin + 1
      in bin\<lparr>free_top := top, free_stack := (free_stack bin)[nat top := j], used_count := used_count bin - 1\<rparr>)"

definition reset_buffer :: "nos_buffer \<Rightarrow> nos_buffer" where
  "reset_buffer buf = buf\<lparr>data := raw_data buf, len := 0, headroom := 0, tailroom := capacity buf\<rparr>"

definition pool_release :: "nat \<times> nat \<Rightarrow> bufpool \<Rightarrow> bufpool" where
  "pool_release r p =
     (let buf = pool_buf p r;
          p = upd_pool_buf r (\<lambda>buf. buf\<lparr>ref_cnt := ref_cnt buf - 1\<rparr>) p
      in if ref_cnt buf = 1
         then upd_pool_buf r reset_buffer (upd_bin (bin_idx buf) (push_chunk (pool_idx buf)) p)
         else p)"

definition nos_buffer_push :: "u32 \<Rightarrow> nos_buffer \<Rightarrow> nos_buffer option" where
  "nos_buffer_push sz buf =
     (if headroom buf < sz then None
      else Some (buf\<lparr>headroom := headroom buf - sz, data := data buf - int (unat sz),
                     len := len buf + sz\<rparr>))"

definition nos_buffer_pull :: "u32 \<Rightarrow> nos_buffer \<Rightarrow> nos_buffer option" where
  "nos_buffer_pull sz buf =
     (if len buf < sz then None
      else Some (buf\<lparr>headroom := headroom buf + sz, data := data buf + int (unat sz),
                     len := len buf - sz\<rparr>))"

text \<open>
  \<open>sizeof (nos_buffer_bin_t)\<close> and \<open>sizeof (nos_buffer_t)\<close> are parameters. The first product
  and sum are \<open>size_t\<close> arithmetic (64 bits), as \<open>sizeof\<close> is.
\<close>

definition nos_buffer_get_total_mem_usage :: "u64 \<Rightarrow> u64 \<Rightarrow> bufpool \<Rightarrow> u64" where
  "nos_buffer_get_total_mem_usage sz_bin sz_buf p =
     foldl (\<lambda>total bin. total + sz_bin + ucast (chunk_count bin) * (ucast (chunk_size bin) + sz_buf)
                              + ucast (chunk_count bin) * 4)
       0 (take (g_bin_count p) (g_bins p))"

text \<open>One row of \<open>nos_buffer_dump_stats\<close> per bin.\<close>

definition nos_buffer_dump_stats :: "bufpool \<Rightarrow> (nat \<times> u32 \<times> u32 \<times> u32 \<times> u32) list" where
  "nos_buffer_dump_stats p =
     map (\<lambda>i. let bin = g_bins p ! i in (i, chunk_size bin, chunk_count bin, used_count bin, peak_count bin))
       [0..<g_bin_count p]"

section \<open>Invariant\<close>

definition free_list :: "nos_buffer_bin \<Rightarrow> nat list" where
  "free_list b = take (nat (free_top b + 1)) (free_stack b)"

definition buf_fixed :: "nat \<Rightarrow> nat \<Rightarrow> nos_buffer_bin \<Rightarrow> nos_buffer \<Rightarrow> bool" where
  "buf_fixed i j b buf \<longleftrightarrow>
     raw_data buf = int (unat (of_nat j * chunk_size b)) \<and> capacity buf = chunk_size b \<and>
     bin_idx buf = i \<and> pool_idx buf = j \<and> flags buf = 0"

definition buf_clear :: "nos_buffer \<Rightarrow> bool" where
  "buf_clear buf \<longleftrightarrow> data buf = raw_data buf \<and> len buf = 0 \<and> headroom buf = 0 \<and> tailroom buf = capacity buf"

definition bin_ok :: "nat \<Rightarrow> nos_buffer_bin \<Rightarrow> bool" where
  "bin_ok i b \<longleftrightarrow>
     (let n = unat (chunk_count b) in
      n < 2 ^ 31 \<and> length (buffers b) = n \<and> length (free_stack b) = n \<and>
      - 1 \<le> free_top b \<and> nat (free_top b + 1) \<le> n \<and>
      distinct (free_list b) \<and> set (free_list b) \<subseteq> {..<n} \<and>
      (\<forall>j < n. buf_fixed i j b (buffers b ! j) \<and>
         (j \<in> set (free_list b) \<longleftrightarrow> sint (ref_cnt (buffers b ! j)) \<le> 0) \<and>
         (j \<in> set (free_list b) \<longrightarrow> buf_clear (buffers b ! j))) \<and>
      unat (used_count b) + length (free_list b) = n \<and> used_count b \<le> peak_count b \<and> unat (peak_count b) \<le> n)"

definition pool_ok :: "bufpool \<Rightarrow> bool" where
  "pool_ok p \<longleftrightarrow> length (g_bins p) = MAX_BINS \<and> g_bin_count p \<le> MAX_BINS \<and>
     (\<forall>i < g_bin_count p. bin_ok i (g_bins p ! i))"

text \<open>The number of references to a buffer, 0 for a pair that is no buffer.\<close>

definition pool_held :: "bufpool \<Rightarrow> nat \<times> nat \<Rightarrow> nat" where
  "pool_held p r =
     (if fst r < g_bin_count p \<and> snd r < unat (chunk_count (g_bins p ! fst r))
      then nat (sint (ref_cnt (pool_buf p r))) else 0)"

section \<open>One bin\<close>

lemma upd_bin_buf_simps [simp]:
  "chunk_size (upd_bin_buf j f b) = chunk_size b"
  "chunk_count (upd_bin_buf j f b) = chunk_count b"
  "buffers (upd_bin_buf j f b) = (buffers b)[j := f (buffers b ! j)]"
  "free_stack (upd_bin_buf j f b) = free_stack b"
  "free_top (upd_bin_buf j f b) = free_top b"
  "used_count (upd_bin_buf j f b) = used_count b"
  "peak_count (upd_bin_buf j f b) = peak_count b"
  "free_list (upd_bin_buf j f b) = free_list b"
  by (simp_all add: upd_bin_buf_def free_list_def)

lemma push_chunk_simps [simp]:
  "chunk_size (push_chunk j b) = chunk_size b"
  "chunk_count (push_chunk j b) = chunk_count b"
  "buffers (push_chunk j b) = buffers b"
  "used_count (push_chunk j b) = used_count b - 1"
  "peak_count (push_chunk j b) = peak_count b"
  "free_top (push_chunk j b) = free_top b + 1"
  "free_stack (push_chunk j b) = (free_stack b)[nat (free_top b + 1) := j]"
  by (simp_all add: push_chunk_def Let_def)

lemma take_chunk_simps [simp]:
  "chunk_size (take_chunk sz hr b) = chunk_size b"
  "chunk_count (take_chunk sz hr b) = chunk_count b"
  "free_stack (take_chunk sz hr b) = free_stack b"
  "free_top (take_chunk sz hr b) = free_top b - 1"
  "used_count (take_chunk sz hr b) = used_count b + 1"
  by (simp_all add: take_chunk_def Let_def upd_bin_buf_def)

lemma bin_ok_buf:
  assumes "bin_ok i b" "j < unat (chunk_count b)"
  shows "buf_fixed i j b (buffers b ! j)" "j \<in> set (free_list b) \<longleftrightarrow> sint (ref_cnt (buffers b ! j)) \<le> 0"
    "j \<in> set (free_list b) \<Longrightarrow> buf_clear (buffers b ! j)" "j < length (buffers b)"
  using assms by (auto simp: bin_ok_def Let_def)

lemma bin_ok_update:
  assumes ok: "bin_ok i b" and j: "j < unat (chunk_count b)"
    and f: "\<And>buf. buf_fixed i j b buf \<Longrightarrow> buf_fixed i j b (f buf)"
    and sign: "sint (ref_cnt (f (buffers b ! j))) \<le> 0 \<longleftrightarrow> sint (ref_cnt (buffers b ! j)) \<le> 0"
    and clear: "sint (ref_cnt (buffers b ! j)) \<le> 0 \<Longrightarrow> buf_clear (f (buffers b ! j))"
  shows "bin_ok i (upd_bin_buf j f b)"
  using assms bin_ok_buf[OF ok j] by (auto simp: bin_ok_def Let_def nth_list_update buf_fixed_def)

lemma free_list_take:
  assumes "bin_ok i b" "0 \<le> free_top b"
  shows "free_list b = free_list (take_chunk sz hr b) @ [free_stack b ! nat (free_top b)]"
proof -
  have "nat (free_top b) < length (free_stack b)" using assms by (auto simp: bin_ok_def Let_def)
  then show ?thesis
    using assms(2) by (simp add: free_list_def nat_add_distrib take_Suc_conv_app_nth)
qed

lemma take_chunk_ok:
  assumes ok: "bin_ok i b" and top: "0 \<le> free_top b"
  defines "j \<equiv> free_stack b ! nat (free_top b)"
  shows "j < unat (chunk_count b)" "sint (ref_cnt (buffers b ! j)) \<le> 0"
    "buffers (take_chunk sz hr b) = (buffers b)[j := (buffers b ! j)\<lparr>ref_cnt := 1, headroom := hr,
        data := raw_data (buffers b ! j) + int (unat hr), len := sz, tailroom := chunk_size b - hr - sz\<rparr>]"
    "bin_ok i (take_chunk sz hr b)"
proof -
  let ?b = "take_chunk sz hr b"
  have fl: "free_list b = free_list ?b @ [j]"
    using free_list_take[OF ok top] by (simp add: j_def)
  have jin: "j \<in> set (free_list b)" by (simp add: fl)
  then show j: "j < unat (chunk_count b)" using ok by (auto simp: bin_ok_def Let_def)
  show "sint (ref_cnt (buffers b ! j)) \<le> 0" using bin_ok_buf(2)[OF ok j] jin by simp
  have cap: "capacity (buffers b ! j) = chunk_size b" using bin_ok_buf(1)[OF ok j] by (simp add: buf_fixed_def)
  show bufs: "buffers ?b = (buffers b)[j := (buffers b ! j)\<lparr>ref_cnt := 1, headroom := hr,
        data := raw_data (buffers b ! j) + int (unat hr), len := sz, tailroom := chunk_size b - hr - sz\<rparr>]"
    using cap by (simp add: take_chunk_def Let_def j_def upd_bin_buf_def)
  have used: "unat (used_count b) + length (free_list b) = unat (chunk_count b)"
    and n: "unat (chunk_count b) < 2 ^ 31" using ok by (auto simp: bin_ok_def Let_def)
  have "unat (used_count b) < unat (chunk_count b)" using used fl by simp
  then have u: "unat (used_count b + 1) = unat (used_count b) + 1"
    using n by (subst unat_add_no_wrap) auto
  have peak: "peak_count ?b = (if used_count b + 1 > peak_count b then used_count b + 1 else peak_count b)"
    by (simp add: take_chunk_def Let_def)
  then have pk: "unat (peak_count ?b) = max (unat (peak_count b)) (unat (used_count b) + 1)"
    using u by (auto simp: word_less_nat_alt)
  have each: "buf_fixed i k b (buffers ?b ! k) \<and> (k \<in> set (free_list ?b) \<longleftrightarrow> sint (ref_cnt (buffers ?b ! k)) \<le> 0) \<and>
      (k \<in> set (free_list ?b) \<longrightarrow> buf_clear (buffers ?b ! k))" if k: "k < unat (chunk_count b)" for k
  proof (cases "k = j")
    case True
    then show ?thesis
      using bin_ok_buf(1,4)[OF ok j] fl ok by (auto simp: bufs buf_fixed_def bin_ok_def Let_def)
  next
    case False
    then show ?thesis using bin_ok_buf[OF ok k] fl by (auto simp: bufs)
  qed
  have "used_count ?b \<le> peak_count ?b \<and> unat (peak_count ?b) \<le> unat (chunk_count b)"
    using ok used fl pk by (auto simp: bin_ok_def Let_def word_le_nat_alt u)
  moreover have "distinct (free_list ?b)" "set (free_list ?b) \<subseteq> {..<unat (chunk_count b)}"
    using ok fl by (auto simp: bin_ok_def Let_def)
  ultimately show "bin_ok i ?b"
    using ok each used u fl top by (auto simp: bin_ok_def Let_def bufs buf_fixed_def)
qed

definition put_back :: "nat \<Rightarrow> nos_buffer_bin \<Rightarrow> nos_buffer_bin" where
  "put_back j b = upd_bin_buf j reset_buffer
     (push_chunk j (upd_bin_buf j (\<lambda>buf. buf\<lparr>ref_cnt := ref_cnt buf - 1\<rparr>) b))"

lemma put_back_ok:
  assumes ok: "bin_ok i b" and j: "j < unat (chunk_count b)" and one: "ref_cnt (buffers b ! j) = 1"
  shows "bin_ok i (put_back j b)" "free_list (put_back j b) = free_list b @ [j]"
    "buffers (put_back j b) = (buffers b)[j := reset_buffer ((buffers b ! j)\<lparr>ref_cnt := 0\<rparr>)]"
proof -
  let ?b = "put_back j b" and ?n = "unat (chunk_count b)"
  have notin: "j \<notin> set (free_list b)" using bin_ok_buf(2)[OF ok j] one by simp
  have facts: "distinct (free_list b)" "set (free_list b) \<subseteq> {..<?n}" "length (free_stack b) = ?n"
    "- 1 \<le> free_top b" "nat (free_top b + 1) \<le> ?n" "length (buffers b) = ?n"
    "unat (used_count b) + length (free_list b) = ?n" "?n < 2 ^ 31"
    using ok by (auto simp: bin_ok_def Let_def)
  have len: "length (free_list b) = nat (free_top b + 1)" using facts by (simp add: free_list_def)
  have room: "length (free_list b) < ?n"
  proof -
    have "set (j # free_list b) \<subseteq> {..<?n}" "distinct (j # free_list b)" using facts j notin by auto
    then have "length (j # free_list b) \<le> ?n" using card_mono[of "{..<?n}"] distinct_card by (metis card_lessThan finite_lessThan)
    then show ?thesis by simp
  qed
  show fl: "free_list ?b = free_list b @ [j]"
  proof -
    have "nat (free_top b + 2) = Suc (nat (free_top b + 1))" using facts(4) by simp
    then show ?thesis
      using facts len room
      by (simp add: put_back_def) (simp add: free_list_def take_Suc_conv_app_nth add.commute)
  qed
  show bufs: "buffers ?b = (buffers b)[j := reset_buffer ((buffers b ! j)\<lparr>ref_cnt := 0\<rparr>)]"
    using one j facts by (simp add: put_back_def)
  have "unat (used_count b - 1) = unat (used_count b) - 1"
    using facts(7) room by (subst unat_sub_le) (auto simp: word_le_nat_alt)
  then show "bin_ok i ?b"
    using ok fl bufs facts room len notin j
    by (auto simp: bin_ok_def Let_def nth_list_update buf_fixed_def buf_clear_def reset_buffer_def put_back_def
        word_le_nat_alt)
qed

section \<open>The pool\<close>

lemma upd_bin_simps [simp]:
  "g_bin_count (upd_bin i f p) = g_bin_count p"
  "i < length (g_bins p) \<Longrightarrow> g_bins (upd_bin i f p) ! k = (if k = i then f (g_bins p ! i) else g_bins p ! k)"
  "length (g_bins (upd_bin i f p)) = length (g_bins p)"
  by (auto simp: upd_bin_def)

lemma pool_ok_bin: "pool_ok p \<Longrightarrow> i < g_bin_count p \<Longrightarrow> bin_ok i (g_bins p ! i)"
  by (simp add: pool_ok_def)

lemma pool_ok_index: "pool_ok p \<Longrightarrow> i < g_bin_count p \<Longrightarrow> i < length (g_bins p)"
  by (simp add: pool_ok_def)

lemma pool_ok_upd_bin:
  "pool_ok p \<Longrightarrow> i < g_bin_count p \<Longrightarrow> bin_ok i (f (g_bins p ! i)) \<Longrightarrow> pool_ok (upd_bin i f p)"
  by (simp add: pool_ok_def)

lemma nos_buffer_alloc_cases:
  assumes ok: "pool_ok p" and a: "nos_buffer_alloc sz hr p = Some ((i, j), p')"
  shows "i < g_bin_count p" "sz + hr \<le> chunk_size (g_bins p ! i)" "0 \<le> free_top (g_bins p ! i)"
    "\<And>k. k < i \<Longrightarrow> chunk_size (g_bins p ! k) < sz + hr \<or> free_top (g_bins p ! k) < 0"
    "j = free_stack (g_bins p ! i) ! nat (free_top (g_bins p ! i))" "p' = upd_bin i (take_chunk sz hr) p"
proof -
  let ?P = "\<lambda>bin. chunk_size bin \<ge> sz + hr \<and> free_top bin \<ge> 0"
  obtain k where k: "find_slot ?P (g_bin_count p) (g_bins p) = Some k"
    using a by (auto simp: nos_buffer_alloc_def Let_def split: option.splits)
  note f = find_slot_Some[OF k]
  have e: "k = i" "j = free_stack (g_bins p ! i) ! nat (free_top (g_bins p ! i))" "p' = upd_bin i (take_chunk sz hr) p"
    using a k by (auto simp: nos_buffer_alloc_def Let_def)
  show "i < g_bin_count p" "sz + hr \<le> chunk_size (g_bins p ! i)" "0 \<le> free_top (g_bins p ! i)"
    "j = free_stack (g_bins p ! i) ! nat (free_top (g_bins p ! i))" "p' = upd_bin i (take_chunk sz hr) p"
    using f e by auto
  show "chunk_size (g_bins p ! m) < sz + hr \<or> free_top (g_bins p ! m) < 0" if "m < i" for m
    using f e(1) that by (auto simp: not_le)
qed

lemma nos_buffer_alloc_None:
  "pool_ok p \<Longrightarrow> nos_buffer_alloc sz hr p = None \<longleftrightarrow>
     (\<forall>k < g_bin_count p. chunk_size (g_bins p ! k) < sz + hr \<or> free_top (g_bins p ! k) < 0)"
  using find_slot_None[of "g_bin_count p" "g_bins p" "\<lambda>bin. chunk_size bin \<ge> sz + hr \<and> free_top bin \<ge> 0"]
  by (auto simp: nos_buffer_alloc_def Let_def pool_ok_def not_le split: option.splits)

lemma nos_buffer_alloc_ok:
  assumes ok: "pool_ok p" and a: "nos_buffer_alloc sz hr p = Some (r, p')"
  shows "pool_ok p'" "pool_held p r = 0" "pool_held p' = (pool_held p)(r := 1)"
    "fst r < g_bin_count p" "snd r < unat (chunk_count (g_bins p ! fst r))"
    "pool_buf p' r = (pool_buf p r)\<lparr>ref_cnt := 1, headroom := hr, data := raw_data (pool_buf p r) + int (unat hr),
       len := sz, tailroom := chunk_size (g_bins p ! fst r) - hr - sz\<rparr>"
    "\<And>q. q \<noteq> r \<Longrightarrow> pool_buf p' q = pool_buf p q"
proof -
  obtain i j where r: "r = (i, j)" by (cases r)
  note c = nos_buffer_alloc_cases[OF ok a[unfolded r]]
  let ?b = "g_bins p ! i"
  have b: "bin_ok i ?b" using pool_ok_bin[OF ok c(1)] .
  note tk = take_chunk_ok[OF b c(3), folded c(5)]
  have len: "i < length (g_bins p)" using pool_ok_index[OF ok c(1)] .
  show "pool_ok p'" unfolding c(6) by (rule pool_ok_upd_bin[OF ok c(1)]) (rule tk(4)[where sz = sz and hr = hr])
  show held: "pool_held p r = 0" using tk(1,2) c(1) by (simp add: pool_held_def r pool_buf_def)
  have bl: "j < length (buffers ?b)" using bin_ok_buf(4)[OF b tk(1)] .
  show "fst r < g_bin_count p" "snd r < unat (chunk_count (g_bins p ! fst r))"
    using c(1) tk(1) by (simp_all add: r)
  show new: "pool_buf p' r = (pool_buf p r)\<lparr>ref_cnt := 1, headroom := hr, data := raw_data (pool_buf p r) + int (unat hr),
       len := sz, tailroom := chunk_size (g_bins p ! fst r) - hr - sz\<rparr>"
    using len bl by (simp add: c(6) r pool_buf_def tk(3))
  show old: "pool_buf p' q = pool_buf p q" if "q \<noteq> r" for q
    using that len by (cases q) (auto simp: c(6) r pool_buf_def tk(3))
  show "pool_held p' = (pool_held p)(r := 1)"
  proof
    fix q
    show "pool_held p' q = ((pool_held p)(r := 1)) q"
      using new old[of q] c(1) tk(1) len by (auto simp: pool_held_def r c(6))
  qed
qed

lemma pool_held_pos:
  assumes "0 < pool_held p r"
  shows "fst r < g_bin_count p" "snd r < unat (chunk_count (g_bins p ! fst r))"
    "pool_held p r = nat (sint (ref_cnt (pool_buf p r)))"
  using assms by (auto simp: pool_held_def split: if_splits)

lemma upd_pool_buf_buf:
  assumes "pool_ok p" "fst r < g_bin_count p" "snd r < unat (chunk_count (g_bins p ! fst r))"
  shows "pool_buf (upd_pool_buf r f p) q = (if q = r then f (pool_buf p r) else pool_buf p q)"
  using bin_ok_buf(4)[OF pool_ok_bin[OF assms(1,2)] assms(3)] pool_ok_index[OF assms(1,2)]
  by (cases r; cases q) (auto simp: pool_buf_def upd_pool_buf_def)

lemma upd_pool_buf_held:
  assumes "pool_ok p" "fst r < g_bin_count p" "snd r < unat (chunk_count (g_bins p ! fst r))"
  shows "pool_held (upd_pool_buf r f p) = (pool_held p)(r := nat (sint (ref_cnt (f (pool_buf p r)))))"
proof
  fix q
  have "chunk_count (g_bins (upd_pool_buf r f p) ! k) = chunk_count (g_bins p ! k)" for k
    using pool_ok_index[OF assms(1,2)] by (simp add: upd_pool_buf_def)
  moreover have "g_bin_count (upd_pool_buf r f p) = g_bin_count p" by (simp add: upd_pool_buf_def)
  ultimately show "pool_held (upd_pool_buf r f p) q =
      ((pool_held p)(r := nat (sint (ref_cnt (f (pool_buf p r)))))) q"
    using assms(2,3) upd_pool_buf_buf[OF assms, of f q] by (auto simp: pool_held_def)
qed

lemma pool_ok_upd_buf:
  assumes ok: "pool_ok p" and r: "fst r < g_bin_count p" "snd r < unat (chunk_count (g_bins p ! fst r))"
    and f: "\<And>i j b buf. buf_fixed i j b buf \<Longrightarrow> buf_fixed i j b (f buf)"
    and sign: "sint (ref_cnt (f (pool_buf p r))) \<le> 0 \<longleftrightarrow> sint (ref_cnt (pool_buf p r)) \<le> 0"
    and clear: "sint (ref_cnt (pool_buf p r)) \<le> 0 \<Longrightarrow> buf_clear (f (pool_buf p r))"
  shows "pool_ok (upd_pool_buf r f p)"
  unfolding upd_pool_buf_def
  by (rule pool_ok_upd_bin[OF ok r(1)])
    (rule bin_ok_update[OF pool_ok_bin[OF ok r(1)] r(2)], use f sign clear in \<open>auto simp: pool_buf_def\<close>)

lemma pool_buf_props:
  assumes "pool_ok p" "fst r < g_bin_count p" "snd r < unat (chunk_count (g_bins p ! fst r))"
  shows "buf_fixed (fst r) (snd r) (g_bins p ! fst r) (pool_buf p r)"
    "sint (ref_cnt (pool_buf p r)) \<le> 0 \<Longrightarrow> buf_clear (pool_buf p r)"
  using bin_ok_buf[OF pool_ok_bin[OF assms(1,2)] assms(3)] by (auto simp: pool_buf_def)

lemma pool_retain_held:
  assumes "pool_ok p" "0 < pool_held p r" "pool_held p r < 2 ^ 31 - 1"
  shows "pool_ok (pool_retain r p)" "pool_held (pool_retain r p) = (pool_held p)(r := pool_held p r + 1)"
proof -
  note h = pool_held_pos[OF assms(2)]
  have s: "sint (ref_cnt (pool_buf p r) + 1) = sint (ref_cnt (pool_buf p r)) + 1"
    using assms(2,3) h(3) by (intro sint_32_add1) auto
  show "pool_ok (pool_retain r p)"
    unfolding pool_retain_def
    by (rule pool_ok_upd_buf[OF assms(1) h(1,2)]) (use s assms(2) h(3) in \<open>auto simp: buf_fixed_def\<close>)
  show "pool_held (pool_retain r p) = (pool_held p)(r := pool_held p r + 1)"
    unfolding pool_retain_def upd_pool_buf_held[OF assms(1) h(1,2)]
    using s assms(2) h(3) by (simp add: nat_add_distrib)
qed

lemma pool_release_last:
  assumes ok: "pool_ok p" and r: "fst r < g_bin_count p" "snd r < unat (chunk_count (g_bins p ! fst r))"
    and one: "ref_cnt (pool_buf p r) = 1"
  shows "pool_release r p = upd_bin (fst r) (put_back (snd r)) p"
proof -
  have "bin_idx (pool_buf p r) = fst r" "pool_idx (pool_buf p r) = snd r"
    using pool_buf_props(1)[OF ok r] by (auto simp: buf_fixed_def)
  then show ?thesis
    using pool_ok_index[OF ok r(1)] one
    by (simp add: pool_release_def Let_def upd_pool_buf_def) (simp add: upd_bin_def put_back_def)
qed

lemma pool_release_more:
  "ref_cnt (pool_buf p r) \<noteq> 1 \<Longrightarrow> pool_release r p = upd_pool_buf r (\<lambda>buf. buf\<lparr>ref_cnt := ref_cnt buf - 1\<rparr>) p"
  by (simp add: pool_release_def)

lemma pool_release_held:
  assumes ok: "pool_ok p" and pos: "0 < pool_held p r"
  shows "pool_ok (pool_release r p)" "pool_held (pool_release r p) = (pool_held p)(r := pool_held p r - 1)"
proof -
  note h = pool_held_pos[OF pos]
  note b = pool_ok_bin[OF ok h(1)]
  let ?buf = "pool_buf p r"
  have "pool_ok (pool_release r p) \<and> pool_held (pool_release r p) = (pool_held p)(r := pool_held p r - 1)"
  proof (cases "ref_cnt ?buf = 1")
    case True
    note pb = put_back_ok[OF b h(2) True[unfolded pool_buf_def]]
    let ?p = "upd_bin (fst r) (put_back (snd r)) p"
    have len: "fst r < length (g_bins p)" "snd r < length (buffers (g_bins p ! fst r))"
      using pool_ok_index[OF ok h(1)] bin_ok_buf(4)[OF b h(2)] by auto
    have "pool_ok ?p" by (rule pool_ok_upd_bin[OF ok h(1)]) (rule pb(1))
    moreover have buf: "pool_buf ?p q = (if q = r then reset_buffer (?buf\<lparr>ref_cnt := 0\<rparr>) else pool_buf p q)" for q
      using len pb(3) by (cases r; cases q) (auto simp: pool_buf_def)
    moreover have "pool_held ?p = (pool_held p)(r := pool_held p r - 1)"
    proof
      fix q
      show "pool_held ?p q = ((pool_held p)(r := pool_held p r - 1)) q"
        using len buf[of q] True h by (auto simp: pool_held_def reset_buffer_def put_back_def)
    qed
    ultimately show ?thesis by (simp add: pool_release_last[OF ok h(1,2) True])
  next
    case False
    have "1 < sint (ref_cnt ?buf)" using False pos h(3) sint_32_eq_1[of "ref_cnt ?buf"] by linarith
    moreover from this have "sint (ref_cnt ?buf - 1) = sint (ref_cnt ?buf) - 1" by (intro sint_32_sub1) simp
    ultimately show ?thesis
      using pool_ok_upd_buf[OF ok h(1,2), of "\<lambda>buf. buf\<lparr>ref_cnt := ref_cnt buf - 1\<rparr>"] h(3)
      by (simp add: pool_release_more[OF False] upd_pool_buf_held[OF ok h(1,2)] buf_fixed_def nat_diff_distrib)
  qed
  then show "pool_ok (pool_release r p)" "pool_held (pool_release r p) = (pool_held p)(r := pool_held p r - 1)" by auto
qed

interpretation buf_pool: ref_pool pool_held pool_ok "2 ^ 31 - 1" "\<lambda>a. nos_buffer_alloc (fst a) (snd a)"
  pool_retain pool_release
  by unfold_locales (use nos_buffer_alloc_ok(1-3) pool_retain_held pool_release_held in \<open>auto\<close>)

end
