(* ===== verification/BufferClaims.thy ===== *)
theory BufferClaims
  imports BufferPool
begin

text \<open>
  Initialisation of the local buffer pool, the geometry of a buffer under \<open>push\<close> and
  \<open>pull\<close>, and the properties of the pool.
\<close>

section \<open>Initialisation\<close>

lemma init_chunk_props [simp]:
  "buf_fixed i j b (init_chunk (chunk_size b) i j)" "buf_clear (init_chunk cs i j)" "ref_cnt (init_chunk cs i j) = 0"
  by (simp_all add: buf_fixed_def buf_clear_def init_chunk_def)

lemma init_bin_ok:
  assumes "unat (def_chunk_count d) < 2 ^ 31"
  shows "bin_ok i (init_bin i d)" "free_list (init_bin i d) = [0..<unat (def_chunk_count d)]"
proof -
  let ?b = "init_bin i d" and ?n = "unat (def_chunk_count d)"
  show fl: "free_list ?b = [0..<?n]" by (simp add: free_list_def init_bin_def Let_def)
  have "buffers ?b = map (init_chunk (chunk_size ?b) i) [0..<?n]" "chunk_count ?b = def_chunk_count d"
    "length (free_stack ?b) = ?n" "free_top ?b = int ?n - 1" "used_count ?b = 0" "peak_count ?b = 0"
    by (simp_all add: init_bin_def Let_def)
  moreover have "- 1 < uint (def_chunk_count d)" by (rule less_le_trans[OF _ uint_ge_0]) simp
  ultimately show "bin_ok i ?b" using fl assms by (auto simp: bin_ok_def Let_def)
qed

definition pool_prefix :: "nat \<Rightarrow> bufpool \<Rightarrow> nos_buffer_pool_def list \<Rightarrow> bool" where
  "pool_prefix i p ds \<longleftrightarrow> length (g_bins p) = MAX_BINS \<and> g_bin_count p = i \<and> i \<le> MAX_BINS \<and>
     (\<forall>k < i. \<exists>d \<in> set ds. g_bins p ! k = init_bin k d)"

lemma init_bins_prefix:
  "init_bins memalign i ds p = Some q \<Longrightarrow> pool_prefix i p es \<Longrightarrow> \<exists>k. pool_prefix k q (es @ ds)"
proof (induction memalign i ds p arbitrary: es rule: init_bins.induct)
  case (1 memalign i p)
  then show ?case by auto
next
  case (2 memalign i d ds p)
  show ?case
  proof (cases "def_chunk_size d > 0 \<and> i < MAX_BINS")
    case True
    let ?p = "p\<lparr>g_bins := (g_bins p)[i := init_bin i d], g_bin_count := g_bin_count p + 1\<rparr>"
    have step: "init_bins memalign (Suc i) ds ?p = Some q" "memalign (raw_mem_size (init_bin i d))"
      using 2(2) True by (auto simp: Let_def split: if_splits)
    have "pool_prefix (Suc i) ?p (es @ [d])"
      using 2(3) True by (auto simp: pool_prefix_def nth_list_update less_Suc_eq)
    then show ?thesis using 2(1)[OF True refl _ step(1)] step(2) by fastforce
  next
    case False
    then have "q = p" using 2(2) by auto
    then show ?thesis using 2(3) by (intro exI[of _ i]) (auto simp: pool_prefix_def)
  qed
qed

lemma pool_prefix_ok:
  assumes "pool_prefix k p ds" "\<And>d. d \<in> set ds \<Longrightarrow> unat (def_chunk_count d) < 2 ^ 31"
  shows "pool_ok p" "pool_held p r = 0"
proof -
  have b: "bin_ok i (g_bins p ! i)" "free_list (g_bins p ! i) = [0..<unat (chunk_count (g_bins p ! i))]"
    if i: "i < k" for i
  proof -
    obtain d where d: "d \<in> set ds" "g_bins p ! i = init_bin i d" using assms(1) i by (auto simp: pool_prefix_def)
    show "bin_ok i (g_bins p ! i)" "free_list (g_bins p ! i) = [0..<unat (chunk_count (g_bins p ! i))]"
      using init_bin_ok[OF assms(2)[OF d(1)], of i] d(2) by (auto simp: init_bin_def Let_def)
  qed
  show "pool_ok p" using assms(1) b by (simp add: pool_ok_def pool_prefix_def)
  show "pool_held p r = 0"
    using bin_ok_buf(2)[OF b(1)] b(2) assms(1) by (auto simp: pool_held_def pool_prefix_def pool_buf_def)
qed

lemma init_bins_empty:
  assumes "init_bins memalign 0 ds empty_pool = Some p"
  shows "\<exists>k. pool_prefix k p ds"
  using init_bins_prefix[OF assms, of "[]"] by (simp add: pool_prefix_def empty_pool_def)

lemma chunk_offset:
  assumes "unat cs * n < 2 ^ 32" "j < n"
  shows "unat (of_nat j * (cs :: u32)) = j * unat cs"
proof (cases "unat cs = 0")
  case True
  then show ?thesis by (simp add: unat_eq_zero)
next
  case False
  have "j * unat cs < n * unat cs" using assms(2) False by simp
  then have "j * unat cs < 2 ^ 32" using assms(1) by (metis less_trans mult.commute)
  moreover from this have "j < 2 ^ 32" using False by (metis le_less_trans mult_le_mono2 nat_mult_1_right neq0_conv Suc_leI One_nat_def)
  ultimately show ?thesis by (simp add: unat_word_ariths unat_of_nat)
qed

lemma align_up_64: "unat ((c + 63) AND NOT (63 :: u32)) mod 64 = 0"
proof -
  have "((c + 63) AND NOT 63) AND 63 = (0 :: u32)"
    by (rule bit_word_eqI) (auto simp: bit_simps)
  then have "take_bit 6 ((c + 63) AND NOT (63 :: u32)) = 0"
    by (simp add: take_bit_eq_mask mask_eq_exp_minus_1)
  then have "take_bit 6 (unat ((c + 63) AND NOT (63 :: u32))) = 0"
    by (metis unsigned_0 unsigned_take_bit_eq)
  then show ?thesis by (simp add: take_bit_eq_mod)
qed

section \<open>The geometry of a buffer\<close>

text \<open>
  The buffer's data lies in its chunk: headroom, data and tailroom follow each other and
  fill the capacity exactly.
\<close>

definition buf_geometry :: "nos_buffer \<Rightarrow> bool" where
  "buf_geometry buf \<longleftrightarrow> data buf = raw_data buf + int (unat (headroom buf)) \<and>
     unat (headroom buf) + unat (len buf) + unat (tailroom buf) = unat (capacity buf)"

lemma push_geometry:
  assumes g: "buf_geometry buf" and p: "nos_buffer_push sz buf = Some buf'"
  shows "buf_geometry buf'" "unat (len buf') = unat (len buf) + unat sz" "data buf' = data buf - int (unat sz)"
    "nos_buffer_pull sz buf' = Some buf"
proof -
  have le: "sz \<le> headroom buf" and b: "buf' = buf\<lparr>headroom := headroom buf - sz, data := data buf - int (unat sz),
      len := len buf + sz\<rparr>"
    using p by (auto simp: nos_buffer_push_def not_less split: if_splits)
  have bound: "unat (len buf) + unat sz < 4294967296"
    using g le unat_u32_bound[of "capacity buf"] by (simp add: buf_geometry_def word_le_nat_alt)
  note l = unat_add_no_wrap[OF bound] and h = unat_sub_le[OF le]
  show "unat (len buf') = unat (len buf) + unat sz" "data buf' = data buf - int (unat sz)" using b l by auto
  show "buf_geometry buf'" using g le b l h by (auto simp: buf_geometry_def word_le_nat_alt)
  show "nos_buffer_pull sz buf' = Some buf" using b l by (simp add: nos_buffer_pull_def word_less_nat_alt)
qed

lemma pull_geometry:
  assumes g: "buf_geometry buf" and p: "nos_buffer_pull sz buf = Some buf'"
  shows "buf_geometry buf'" "unat (len buf') = unat (len buf) - unat sz" "nos_buffer_push sz buf' = Some buf"
proof -
  have le: "sz \<le> len buf" and b: "buf' = buf\<lparr>headroom := headroom buf + sz, data := data buf + int (unat sz),
      len := len buf - sz\<rparr>"
    using p by (auto simp: nos_buffer_pull_def not_less split: if_splits)
  have bound: "unat (headroom buf) + unat sz < 4294967296"
    using g le unat_u32_bound[of "capacity buf"] by (simp add: buf_geometry_def word_le_nat_alt)
  note h = unat_add_no_wrap[OF bound] and l = unat_sub_le[OF le]
  show "unat (len buf') = unat (len buf) - unat sz" using b l by auto
  show "buf_geometry buf'" using g le b l h by (auto simp: buf_geometry_def word_le_nat_alt)
  show "nos_buffer_push sz buf' = Some buf" using b h by (simp add: nos_buffer_push_def word_less_nat_alt)
qed

section \<open>Properties\<close>

definition sample_pool :: bufpool where
  "sample_pool = (case init_bins (\<lambda>_. True) 0
     [\<lparr>def_chunk_size = 100, def_chunk_count = 2\<rparr>, \<lparr>def_chunk_size = 300, def_chunk_count = 1\<rparr>] empty_pool of
       Some p \<Rightarrow> p | None \<Rightarrow> empty_pool)"

lemma sample_pool_init:
  "init_bins (\<lambda>_. True) 0
     [\<lparr>def_chunk_size = 100, def_chunk_count = 2\<rparr>, \<lparr>def_chunk_size = 300, def_chunk_count = 1\<rparr>] empty_pool =
   Some sample_pool"
  by (simp add: sample_pool_def MAX_BINS_def Let_def)

lemma sample_pool_ok: "pool_ok sample_pool" "pool_held sample_pool r = 0"
proof -
  obtain k where k: "pool_prefix k sample_pool
      [\<lparr>def_chunk_size = 100, def_chunk_count = 2\<rparr>, \<lparr>def_chunk_size = 300, def_chunk_count = 1\<rparr>]"
    using init_bins_empty[OF sample_pool_init] by blast
  show "pool_ok sample_pool" "pool_held sample_pool r = 0"
    by (rule pool_prefix_ok[OF k]; auto)+
qed

text \<open>
  C33 The initialised pool: every buffer is free, the invariant holds, and in each bin whose
  memory does not exceed 4 GB the chunks are aligned to the cache line, lie inside the bin's
  memory and do not overlap.
\<close>

theorem nos_buffer_init_pool_correct:
  assumes "nos_buffer_init_pool memalign (Some ds) empty_pool = Some (st, p)"
    "\<And>d. d \<in> set ds \<Longrightarrow> unat (def_chunk_count d) < 2 ^ 31"
  shows "(st = NOS_OK) \<and>
    (pool_ok p) \<and>
    (pool_held p r = 0) \<and>
    ((i < g_bin_count p) \<longrightarrow> (j < unat (chunk_count (g_bins p ! i))) \<longrightarrow> (unat (chunk_size (g_bins p ! i)) * unat (chunk_count (g_bins p ! i)) < 2 ^ 32) \<longrightarrow> (raw_data (pool_buf p (i, j)) mod 64 = 0 \<and>
       raw_data (pool_buf p (i, j)) + int (unat (capacity (pool_buf p (i, j)))) \<le> int (unat (raw_mem_size (g_bins p ! i))) \<and>
       (\<forall>k. j < k \<longrightarrow> k < unat (chunk_count (g_bins p ! i)) \<longrightarrow>
          raw_data (pool_buf p (i, j)) + int (unat (capacity (pool_buf p (i, j)))) \<le> raw_data (pool_buf p (i, k)))))"
proof (rule conjI[OF _ conjI[OF _ conjI[OF _ impI[OF impI[OF impI]]]]])
  have "init_bins memalign 0 ds empty_pool = Some p" and st: "st = NOS_OK"
    using assms(1) by (auto simp: nos_buffer_init_pool_def empty_pool_def)
  then obtain m where m: "pool_prefix m p ds" using init_bins_empty by blast
  show "st = NOS_OK" "pool_ok p" "pool_held p r = 0" using st pool_prefix_ok[OF m] assms(2) by auto
  assume i: "i < g_bin_count p" and j: "j < unat (chunk_count (g_bins p ! i))"
    and small: "unat (chunk_size (g_bins p ! i)) * unat (chunk_count (g_bins p ! i)) < 2 ^ 32"
  let ?b = "g_bins p ! i"
  let ?n = "unat (chunk_count ?b)" and ?cs = "unat (chunk_size ?b)"
  obtain d where d: "?b = init_bin i d" using m i by (auto simp: pool_prefix_def)
  have raw: "raw_data (pool_buf p (i, k)) = int (k * ?cs)" "capacity (pool_buf p (i, k)) = chunk_size ?b"
    if "k < ?n" for k
    using chunk_offset[OF small that] bin_ok_buf(1)[OF pool_ok_bin[OF \<open>pool_ok p\<close> i] that]
    by (auto simp: buf_fixed_def pool_buf_def)
  have mem: "unat (raw_mem_size ?b) = ?cs * ?n"
    using small by (simp add: d init_bin_def Let_def unat_word_ariths)
  have al: "?cs mod 64 = 0"
    using align_up_64[of "def_chunk_size d"] by (simp add: d init_bin_def Let_def CACHE_LINE_SIZE_def add.commute)
  have step: "k * ?cs + ?cs \<le> l * ?cs" if "k < l" for k l
    using mult_le_mono1[of "Suc k" l ?cs] that by simp
  show "raw_data (pool_buf p (i, j)) mod 64 = 0 \<and>
       raw_data (pool_buf p (i, j)) + int (unat (capacity (pool_buf p (i, j)))) \<le> int (unat (raw_mem_size (g_bins p ! i))) \<and>
       (\<forall>k. j < k \<longrightarrow> k < unat (chunk_count (g_bins p ! i)) \<longrightarrow>
          raw_data (pool_buf p (i, j)) + int (unat (capacity (pool_buf p (i, j)))) \<le> raw_data (pool_buf p (i, k)))"
  proof (intro conjI allI impI)
    have "(j * ?cs) mod 64 = 0" using al by (metis mod_mult_right_eq mult_0_right mod_0)
    then show "raw_data (pool_buf p (i, j)) mod 64 = 0"
      unfolding raw(1)[OF j] using zmod_int[of "j * ?cs" 64] by (simp only: of_nat_0 of_nat_numeral)
    show "raw_data (pool_buf p (i, j)) + int (unat (capacity (pool_buf p (i, j)))) \<le> int (unat (raw_mem_size ?b))"
      using step[OF j] unfolding raw(1)[OF j] raw(2)[OF j] mem of_nat_add[symmetric] of_nat_le_iff
      by (simp add: mult.commute)
    fix k assume k: "j < k" "k < ?n"
    show "raw_data (pool_buf p (i, j)) + int (unat (capacity (pool_buf p (i, j)))) \<le> raw_data (pool_buf p (i, k))"
      unfolding raw(1)[OF j] raw(2)[OF j] raw(1)[OF k(2)] of_nat_add[symmetric] of_nat_le_iff by (rule step[OF k(1)])
  qed
qed

theorem nos_buffer_init_pool_correct_witness:
  "\<exists>p. nos_buffer_init_pool (\<lambda>_. True) (Some [\<lparr>def_chunk_size = 100, def_chunk_count = 2\<rparr>]) empty_pool = Some (NOS_OK, p) \<and>
     raw_data (pool_buf p (0, 0)) + 128 \<le> raw_data (pool_buf p (0, 1))"
proof -
  let ?ds = "[\<lparr>def_chunk_size = 100, def_chunk_count = 2\<rparr>]"
  obtain p where p: "nos_buffer_init_pool (\<lambda>_. True) (Some ?ds) empty_pool = Some (NOS_OK, p)"
    "g_bin_count p = 1" "chunk_size (g_bins p ! 0) = 128" "chunk_count (g_bins p ! 0) = 2"
    "capacity (pool_buf p (0, 0)) = 128"
    by (simp add: nos_buffer_init_pool_def empty_pool_def MAX_BINS_def init_bin_def Let_def CACHE_LINE_SIZE_def
        pool_buf_def init_chunk_def upt_rec)
  show ?thesis
    using nos_buffer_init_pool_correct[OF p(1), where i = 0 and j = 0, THEN conjunct2, THEN conjunct2, THEN conjunct2, rule_format] p by auto
qed

text \<open>
  C31 Allocation: the first bin in configuration order whose chunks are large enough and which
  has a free chunk serves the request, and \<open>NULL\<close> is returned exactly when there is none. The
  buffer was held by nobody and has one reference now; all other buffers are as before. When
  \<open>size + headroom\<close> does not wrap around, its headroom, data and tailroom fill its chunk.
\<close>

theorem nos_buffer_alloc_correct:
  assumes "pool_ok p"
  shows "(nos_buffer_alloc sz hr p = None \<longleftrightarrow>
      (\<forall>i < g_bin_count p. chunk_size (g_bins p ! i) < sz + hr \<or> free_list (g_bins p ! i) = [])) \<and>
    ((nos_buffer_alloc sz hr p = Some (r, p')) \<longrightarrow> (pool_ok p' \<and> pool_held p r = 0 \<and> pool_held p' = (pool_held p)(r := 1) \<and>
      (\<forall>q. q \<noteq> r \<longrightarrow> pool_buf p' q = pool_buf p q) \<and>
      (\<forall>k < fst r. chunk_size (g_bins p ! k) < sz + hr \<or> free_list (g_bins p ! k) = []))) \<and>
    ((nos_buffer_alloc sz hr p = Some (r, p')) \<longrightarrow> (unat sz + unat hr < 2 ^ 32) \<longrightarrow> (buf_geometry (pool_buf p' r) \<and> len (pool_buf p' r) = sz \<and> headroom (pool_buf p' r) = hr))"
proof (rule conjI[OF _ conjI[OF impI impI[OF impI]]])
  have empty: "free_list (g_bins p ! k) = [] \<longleftrightarrow> free_top (g_bins p ! k) < 0" if "k < g_bin_count p" for k
  proof -
    have "bin_ok k (g_bins p ! k)" using pool_ok_bin[OF assms that] .
    then show ?thesis by (auto simp: free_list_def bin_ok_def Let_def)
  qed
  show "nos_buffer_alloc sz hr p = None \<longleftrightarrow>
      (\<forall>i < g_bin_count p. chunk_size (g_bins p ! i) < sz + hr \<or> free_list (g_bins p ! i) = [])"
    using nos_buffer_alloc_None[OF assms] empty by simp
  assume a: "nos_buffer_alloc sz hr p = Some (r, p')"
  note c = nos_buffer_alloc_cases[OF assms, of sz hr "fst r" "snd r" p', unfolded prod.collapse, OF a]
  note o = nos_buffer_alloc_ok[OF assms a]
  show "pool_ok p' \<and> pool_held p r = 0 \<and> pool_held p' = (pool_held p)(r := 1) \<and>
      (\<forall>q. q \<noteq> r \<longrightarrow> pool_buf p' q = pool_buf p q) \<and>
      (\<forall>k < fst r. chunk_size (g_bins p ! k) < sz + hr \<or> free_list (g_bins p ! k) = [])"
    using o(1-3,7) c(1,4) empty by auto
  assume small: "unat sz + unat hr < 2 ^ 32"
  have cap: "capacity (pool_buf p r) = chunk_size (g_bins p ! fst r)"
    using pool_buf_props(1)[OF assms o(4,5)] by (simp add: buf_fixed_def)
  have le: "unat sz + unat hr \<le> unat (chunk_size (g_bins p ! fst r))"
    using c(2) small unat_add_no_wrap[of sz hr] by (simp add: word_le_nat_alt)
  have "unat (chunk_size (g_bins p ! fst r) - hr - sz) = unat (chunk_size (g_bins p ! fst r)) - unat hr - unat sz"
    using le by (simp add: unat_sub_le word_le_nat_alt)
  then show "buf_geometry (pool_buf p' r) \<and> len (pool_buf p' r) = sz \<and> headroom (pool_buf p' r) = hr"
    using le by (simp add: buf_geometry_def o(6) cap)
qed

theorem nos_buffer_alloc_correct_witness:
  "\<exists>r p. nos_buffer_alloc 200 16 sample_pool = Some (r, p) \<and> fst r = 1 \<and> pool_ok p \<and> buf_geometry (pool_buf p r)"
proof -
  have c: "case nos_buffer_alloc 200 16 sample_pool of Some (r, p) \<Rightarrow> fst r = 1 | None \<Rightarrow> False" by code_simp
  then obtain r p where a: "nos_buffer_alloc 200 16 sample_pool = Some (r, p)" "fst r = 1"
    by (auto split: option.splits)
  show ?thesis
    using nos_buffer_alloc_correct[OF sample_pool_ok(1), where sz = 200 and hr = 16 and r = r and p' = p] a by simp
qed

text \<open>
  C2 Exclusive ownership: over any sequence of allocations, retains and releases by clients
  that only touch buffers they hold, the reference counts add up exactly, and a buffer that
  still has a reference which is not dropped is never handed out to anybody else.
\<close>

theorem nos_buffer_exclusive:
  assumes "pool_ok p"
    and "pool_run pool_held (\<lambda>a. nos_buffer_alloc (fst a) (snd a)) pool_retain pool_release p ops = Some (q, rs)"
    and "\<And>r. pool_held p r + refs_of r ops < 2 ^ 31 - 1" "1 + length ops \<le> 2 ^ 31 - 1"
  shows "(pool_ok q) \<and>
    (pool_held q r + drops_of r ops = pool_held p r + refs_of r ops + count_list rs r) \<and>
    ((drops_of r ops < pool_held p r) \<longrightarrow> (r \<notin> set rs))"
  using buf_pool.run_spec[OF assms] buf_pool.run_pinned[OF assms] by blast+

theorem nos_buffer_exclusive_witness:
  "\<exists>q. pool_run pool_held (\<lambda>a. nos_buffer_alloc (fst a) (snd a)) pool_retain pool_release sample_pool
       [Get (64, 0), Ref (0, 1), Get (64, 0), Drop (0, 1)] = Some (q, [(0, 1), (0, 0)]) \<and>
     pool_ok q \<and> pool_held q (0, 1) = 1"
proof -
  let ?ops = "[Get (64, 0), Ref (0, 1), Get (64, 0), Drop (0, 1)] :: (u32 \<times> u32, nat \<times> nat) pool_op list"
  have "case pool_run pool_held (\<lambda>a. nos_buffer_alloc (fst a) (snd a)) pool_retain pool_release sample_pool ?ops of
      Some (q, rs) \<Rightarrow> rs = [(0, 1), (0, 0)] | None \<Rightarrow> False" by code_simp
  then obtain q where q: "pool_run pool_held (\<lambda>a. nos_buffer_alloc (fst a) (snd a)) pool_retain pool_release
      sample_pool ?ops = Some (q, [(0, 1), (0, 0)])" by (auto split: option.splits)
  have small: "pool_held sample_pool r + refs_of r ?ops < 2 ^ 31 - 1" for r by (simp add: sample_pool_ok(2))
  show ?thesis
    using nos_buffer_exclusive[OF sample_pool_ok(1) q small, THEN conjunct1]
      nos_buffer_exclusive[OF sample_pool_ok(1) q small, of "(0, 1)", THEN conjunct2, THEN conjunct1] q by (simp add: sample_pool_ok(2))
qed

text \<open>
  C32 Releasing: the last release resets the buffer and puts its chunk on top of its bin's
  free stack; releasing a buffer that is already free only makes its count more negative, and
  never puts the chunk on the stack twice.
\<close>

theorem nos_buffer_release_correct:
  assumes "pool_ok p" "fst r < g_bin_count p" "snd r < unat (chunk_count (g_bins p ! fst r))"
  shows "((pool_held p r = 1) \<longrightarrow> (pool_ok (pool_release r p) \<and> pool_held (pool_release r p) r = 0 \<and>
      free_list (g_bins (pool_release r p) ! fst r) = free_list (g_bins p ! fst r) @ [snd r] \<and>
      buf_clear (pool_buf (pool_release r p) r))) \<and>
    ((pool_held p r = 0) \<longrightarrow> (- (2 ^ 31) < sint (ref_cnt (pool_buf p r))) \<longrightarrow> (pool_ok (pool_release r p) \<and> pool_held (pool_release r p) = pool_held p \<and>
      (\<forall>i. free_list (g_bins (pool_release r p) ! i) = free_list (g_bins p ! i))))"
proof (rule conjI[OF impI impI[OF impI]])
  let ?buf = "pool_buf p r"
  have held: "pool_held p r = nat (sint (ref_cnt ?buf))" using assms(2,3) by (simp add: pool_held_def)
  show "pool_ok (pool_release r p) \<and> pool_held (pool_release r p) r = 0 \<and>
      free_list (g_bins (pool_release r p) ! fst r) = free_list (g_bins p ! fst r) @ [snd r] \<and>
      buf_clear (pool_buf (pool_release r p) r)" if "pool_held p r = 1"
  proof -
    have "sint (ref_cnt ?buf) = 1" using that held by auto
    then have one: "ref_cnt ?buf = 1" using sint_32_eq_1 by blast
    note b = pool_ok_bin[OF assms(1,2)]
    note pb = put_back_ok[OF b assms(3) one[unfolded pool_buf_def]]
    have len: "fst r < length (g_bins p)" using pool_ok_index[OF assms(1,2)] .
    have "buf_clear (pool_buf (pool_release r p) r)"
      unfolding pool_release_last[OF assms one] using len pb(3) bin_ok_buf(4)[OF b assms(3)]
      by (simp add: pool_buf_def buf_clear_def reset_buffer_def)
    then show ?thesis
      using pool_release_held[OF assms(1), of r] that pb(2) len by (simp add: pool_release_last[OF assms one])
  qed
  show "pool_ok (pool_release r p) \<and> pool_held (pool_release r p) = pool_held p \<and>
      (\<forall>i. free_list (g_bins (pool_release r p) ! i) = free_list (g_bins p ! i))"
    if free: "pool_held p r = 0" "- (2 ^ 31) < sint (ref_cnt ?buf)"
  proof -
    have le: "sint (ref_cnt ?buf) \<le> 0" using free(1) held by simp
    have s: "sint (ref_cnt ?buf - 1) = sint (ref_cnt ?buf) - 1" by (rule sint_32_sub1[OF free(2)])
    have ne: "ref_cnt ?buf \<noteq> 1" using le by auto
    have "pool_ok (pool_release r p)"
      unfolding pool_release_more[OF ne]
      by (rule pool_ok_upd_buf[OF assms])
        (use s le pool_buf_props(2)[OF assms] in \<open>auto simp: buf_fixed_def buf_clear_def\<close>)
    moreover have "pool_held (pool_release r p) = pool_held p"
      unfolding pool_release_more[OF ne] upd_pool_buf_held[OF assms] using s le held by auto
    moreover have "free_list (g_bins (pool_release r p) ! i) = free_list (g_bins p ! i)" for i
      using pool_ok_index[OF assms(1,2)] by (simp add: pool_release_more[OF ne] upd_pool_buf_def)
    ultimately show ?thesis by simp
  qed
qed

theorem nos_buffer_release_correct_witness:
  "pool_ok (pool_release (0, 1) sample_pool) \<and>
   free_list (g_bins (pool_release (0, 1) sample_pool) ! 0) = [0, 1]"
proof -
  have f: "fst (0 :: nat, 1 :: nat) < g_bin_count sample_pool"
    "snd (0 :: nat, 1 :: nat) < unat (chunk_count (g_bins sample_pool ! fst (0 :: nat, 1 :: nat)))"
    "- (2 ^ 31) < sint (ref_cnt (pool_buf sample_pool (0, 1)))" "free_list (g_bins sample_pool ! 0) = [0, 1]"
    by code_simp+
  show ?thesis
    using nos_buffer_release_correct[OF sample_pool_ok(1) f(1,2), THEN conjunct2, rule_format, OF sample_pool_ok(2) f(3)] f(4) by simp
qed

text \<open>
  Header encapsulation: \<open>push\<close> fails exactly when the headroom is too small, and otherwise
  grows the data to the front inside the buffer's chunk; \<open>pull\<close> fails exactly when the data is
  too short; each undoes the other.
\<close>

theorem nos_buffer_push_pull_roundtrip:
  assumes "buf_geometry buf"
  shows "(nos_buffer_push sz buf = None \<longleftrightarrow> headroom buf < sz) \<and>
    (nos_buffer_pull sz buf = None \<longleftrightarrow> len buf < sz) \<and>
    ((nos_buffer_push sz buf = Some buf') \<longrightarrow> (buf_geometry buf' \<and> nos_buffer_pull sz buf' = Some buf \<and>
           unat (len buf') = unat (len buf) + unat sz \<and> raw_data buf' \<le> data buf')) \<and>
    ((nos_buffer_pull sz buf = Some buf') \<longrightarrow> (buf_geometry buf' \<and> nos_buffer_push sz buf' = Some buf \<and>
           unat (len buf') = unat (len buf) - unat sz))"
proof (rule conjI[OF _ conjI[OF _ conjI[OF impI impI]]])
  show "nos_buffer_push sz buf = None \<longleftrightarrow> headroom buf < sz" "nos_buffer_pull sz buf = None \<longleftrightarrow> len buf < sz"
    by (simp_all add: nos_buffer_push_def nos_buffer_pull_def)
  assume "nos_buffer_push sz buf = Some buf'"
  from push_geometry[OF assms this] show "buf_geometry buf' \<and> nos_buffer_pull sz buf' = Some buf \<and>
           unat (len buf') = unat (len buf) + unat sz \<and> raw_data buf' \<le> data buf'"
    by (simp add: buf_geometry_def)
qed (use pull_geometry[OF assms] in auto)

theorem nos_buffer_push_pull_roundtrip_witness:
  "\<exists>buf. nos_buffer_push 4 ((init_chunk 128 0 0)\<lparr>headroom := 16, data := 16, tailroom := 112\<rparr>) = Some buf \<and>
     buf_geometry buf \<and> len buf = 4"
proof -
  let ?buf = "(init_chunk 128 0 0)\<lparr>headroom := 16, data := 16, tailroom := 112\<rparr>"
  have g: "buf_geometry ?buf" by (simp add: buf_geometry_def init_chunk_def)
  have p: "nos_buffer_push 4 ?buf = Some (?buf\<lparr>headroom := 12, data := 12, len := 4\<rparr>)"
    by (simp add: nos_buffer_push_def init_chunk_def)
  show ?thesis using nos_buffer_push_pull_roundtrip[OF g, THEN conjunct2, THEN conjunct2, THEN conjunct1, rule_format, OF p] p by auto
qed

text \<open>
  The sum of size and headroom is not checked for overflow: a request for nearly 4 GB
  with a headroom of 32 bytes wraps around, is served from the smallest bin, and the buffer
  reports a length beyond its capacity.
\<close>

theorem nos_buffer_alloc_size_overflow:
  "\<exists>r p. nos_buffer_alloc 4294967280 32 sample_pool = Some (r, p) \<and> capacity (pool_buf p r) = 128 \<and>
     len (pool_buf p r) = 4294967280 \<and> \<not> buf_geometry (pool_buf p r)"
proof -
  have "case nos_buffer_alloc 4294967280 32 sample_pool of None \<Rightarrow> False
    | Some (r, p) \<Rightarrow> capacity (pool_buf p r) = 128 \<and> len (pool_buf p r) = 4294967280"
    by code_simp
  then obtain r p where "nos_buffer_alloc 4294967280 32 sample_pool = Some (r, p)" "capacity (pool_buf p r) = 128"
      "len (pool_buf p r) = 4294967280" by (auto split: option.splits)
  moreover from this have "\<not> buf_geometry (pool_buf p r)" by (simp add: buf_geometry_def)
  ultimately show ?thesis by blast
qed

end
