(* ===== verification/ShmPool.thy ===== *)
theory ShmPool
  imports BufferPool RingQueue
begin

text \<open>
  The memory all nodes of a host share (\<open>src/infra/nos_shm.c\<close>): a header with the table of
  nodes and one receive queue per node, followed by 4168-byte blocks that are linked into a free
  list by their offsets. This theory has the operations as one process runs them undisturbed;
  \<open>ShmSteps\<close> interleaves them.

  A block is addressed by its offset from the base of the mapping; offset 0 is \<open>NULL\<close>.
\<close>

section \<open>Layout\<close>

definition NOS_SHM_SIZE :: u32 where "NOS_SHM_SIZE = 16777216"

definition NOS_SHM_QUEUE_SIZE :: nat where "NOS_SHM_QUEUE_SIZE = 4096"

definition SHM_MAGIC :: u32 where "SHM_MAGIC = 0xAABBCCDD"

definition MAX_SHM_NODES :: nat where "MAX_SHM_NODES = 16"

text \<open>
  The sizes of the structures on a 64-bit machine: the header has two words, 16 node entries
  of 36 bytes, 16 queues of 4098 words and two more words; a block has four words; a buffer two
  pointers and eight words; \<open>sizeof (void *)\<close> is 8.
\<close>

definition SHM_HEADER_SIZE :: u32 where "SHM_HEADER_SIZE = 262864"

definition SHM_BLOCK_SIZE :: u32 where "SHM_BLOCK_SIZE = 16 + 48 + 4096 + 8"

record nos_shm_mpsc_queue =
  q_head :: nat
  q_tail :: nat
  offsets :: "u32 list"

record nos_shm_block =
  blk_offset :: u32
  blk_size :: u32
  ref_count :: u32
  next_free :: u32
  blk_buf :: nos_buffer

record nos_shm_node =
  node_name :: string
  in_use :: bool

record nos_shm =
  magic :: u32
  nodes :: "nos_shm_node list"
  rx_queues :: "nos_shm_mpsc_queue list"
  free_list_head :: u32
  total_allocated :: u32
  blocks :: "u32 \<rightharpoonup> nos_shm_block"

definition zero_buffer :: nos_buffer where
  "zero_buffer = \<lparr>raw_data = 0, data = 0, capacity = 0, len = 0, headroom = 0, tailroom = 0, ref_cnt = 0,
                  bin_idx = 0, pool_idx = 0, flags = 0\<rparr>"

section \<open>The block pool\<close>

text \<open>The loop of \<open>init_shm_pool\<close> from block \<open>i\<close> on, with \<open>k\<close> blocks to go.\<close>

fun init_blocks :: "nat \<Rightarrow> u32 \<Rightarrow> (u32 \<rightharpoonup> nos_shm_block) \<Rightarrow> (u32 \<rightharpoonup> nos_shm_block)" where
  "init_blocks 0 offset bs = bs"
| "init_blocks (Suc k) offset bs =
     init_blocks k (offset + SHM_BLOCK_SIZE)
       (bs(offset \<mapsto> \<lparr>blk_offset = offset, blk_size = 4096, ref_count = 0,
                      next_free = (if k = 0 then 0 else offset + SHM_BLOCK_SIZE),
                      blk_buf = (case bs offset of Some b \<Rightarrow> blk_buf b | None \<Rightarrow> zero_buffer)\<rparr>))"

definition init_shm_pool :: "nos_shm \<Rightarrow> nos_shm" where
  "init_shm_pool shm =
     (let num_blocks = (NOS_SHM_SIZE - SHM_HEADER_SIZE) div SHM_BLOCK_SIZE
      in shm\<lparr>blocks := init_blocks (unat num_blocks) SHM_HEADER_SIZE (blocks shm),
             free_list_head := SHM_HEADER_SIZE, total_allocated := 0\<rparr>)"

definition zero_queue :: nos_shm_mpsc_queue where
  "zero_queue = \<lparr>q_head = 0, q_tail = 0, offsets = replicate NOS_SHM_QUEUE_SIZE 0\<rparr>"

text \<open>
  The part of \<open>_nos_shm_create_and_init\<close> after the mapping: the header is zeroed, then the pool
  is built, then the magic number is published.
\<close>

definition nos_shm_create_and_init :: "(u32 \<rightharpoonup> nos_shm_block) \<Rightarrow> nos_shm" where
  "nos_shm_create_and_init memory =
     (let shm = \<lparr>magic = 0, nodes = replicate MAX_SHM_NODES \<lparr>node_name = [], in_use = False\<rparr>,
                 rx_queues = replicate MAX_SHM_NODES zero_queue, free_list_head = 0, total_allocated = 0,
                 blocks = memory\<rparr>
      in (init_shm_pool shm)\<lparr>magic := SHM_MAGIC\<rparr>)"

definition shm_buffer :: "u32 \<Rightarrow> nos_buffer \<Rightarrow> nos_buffer" where
  "shm_buffer o' buf = buf\<lparr>raw_data := uint o' + 64, data := uint o' + 64, capacity := 4096, len := 0,
     headroom := 0, tailroom := 4096, ref_cnt := 0, flags := 1\<rparr>"

definition nos_shm_buffer_alloc :: "u32 \<Rightarrow> nos_shm \<Rightarrow> (u32 \<times> nos_shm) option" where
  "nos_shm_buffer_alloc sz shm =
     (if sz > 4096 then None
      else if free_list_head shm = 0 then None
      else let h = free_list_head shm in
           (case blocks shm h of
              None \<Rightarrow> None
            | Some blk \<Rightarrow>
                Some (h, shm\<lparr>free_list_head := next_free blk, total_allocated := total_allocated shm + 1,
                             blocks := (blocks shm)(h \<mapsto> blk\<lparr>ref_count := 1, blk_buf := shm_buffer h (blk_buf blk)\<rparr>)\<rparr>)))"

text \<open>\<open>o'\<close> is the offset of the block in front of the buffer.\<close>

definition nos_shm_buffer_release :: "u32 \<Rightarrow> nos_shm \<Rightarrow> nos_shm" where
  "nos_shm_buffer_release o' shm =
     (case blocks shm o' of
        None \<Rightarrow> shm
      | Some blk \<Rightarrow>
          if flags (blk_buf blk) \<noteq> 1 then shm
          else if ref_count blk = 1 then
            shm\<lparr>blocks := (blocks shm)(o' \<mapsto> blk\<lparr>ref_count := 0, next_free := free_list_head shm\<rparr>),
                free_list_head := blk_offset blk, total_allocated := total_allocated shm - 1\<rparr>
          else shm\<lparr>blocks := (blocks shm)(o' \<mapsto> blk\<lparr>ref_count := ref_count blk - 1\<rparr>)\<rparr>)"

definition nos_shm_buffer_retain :: "u32 \<Rightarrow> nos_shm \<Rightarrow> nos_shm" where
  "nos_shm_buffer_retain o' shm =
     (case blocks shm o' of
        None \<Rightarrow> shm
      | Some blk \<Rightarrow>
          if flags (blk_buf blk) \<noteq> 1 then shm
          else shm\<lparr>blocks := (blocks shm)(o' \<mapsto> blk\<lparr>ref_count := ref_count blk + 1\<rparr>)\<rparr>)"

section \<open>The nodes table\<close>

text \<open>
  The registration loop of \<open>nos_shm_init\<close> over the slots \<open>i, i + 1, ...\<close>: a free slot is
  claimed and its queue emptied, a slot with the same name (a restarted node) is taken over as it
  is. \<open>None\<close> is \<open>NOS_ERR\<close>: all slots belong to other nodes. (A name stored into a zeroed slot.)
\<close>

fun claim_node :: "nat \<Rightarrow> string \<Rightarrow> nos_shm_node list \<Rightarrow> (nat \<times> bool) option" where
  "claim_node i name [] = None"
| "claim_node i name (n # ns) =
     (if \<not> in_use n then Some (i, True)
      else if node_name n = name then Some (i, False)
      else claim_node (Suc i) name ns)"

definition nos_shm_init_node :: "string \<Rightarrow> nos_shm \<Rightarrow> (nat \<times> nos_shm) option" where
  "nos_shm_init_node name shm =
     (case claim_node 0 name (nodes shm) of
        None \<Rightarrow> None
      | Some (i, fresh) \<Rightarrow>
          if fresh then
            Some (i, shm\<lparr>nodes := (nodes shm)[i := \<lparr>node_name = strncpy_field 32 name, in_use = True\<rparr>],
                         rx_queues := (rx_queues shm)[i := (rx_queues shm ! i)\<lparr>q_head := 0, q_tail := 0\<rparr>]\<rparr>)
          else Some (i, shm))"

text \<open>The index of the queue, \<open>None\<close> for \<open>NULL\<close>.\<close>

definition nos_shm_get_remote_queue :: "string \<Rightarrow> nos_shm \<Rightarrow> nat option" where
  "nos_shm_get_remote_queue name shm =
     find_slot (\<lambda>n. in_use n \<and> node_name n = name) MAX_SHM_NODES (nodes shm)"

section \<open>The receive queue\<close>

definition nos_shm_mpsc_enqueue :: "u32 \<Rightarrow> nos_shm_mpsc_queue \<Rightarrow> nos_status \<times> nos_shm_mpsc_queue" where
  "nos_shm_mpsc_enqueue offset q =
     (if offset = 0 then (NOS_ERR, q)
      else let next_tail = (q_tail q + 1) mod NOS_SHM_QUEUE_SIZE in
           if next_tail = q_head q then (NOS_ERR_BUSY, q)
           else (NOS_OK, q\<lparr>q_tail := next_tail, offsets := (offsets q)[q_tail q := offset]\<rparr>))"

text \<open>
  \<open>Some (0, q)\<close> is an empty queue; \<open>None\<close> is the spin loop that never ends, when the slot was
  reserved by a producer that does not write it.
\<close>

definition nos_shm_mpsc_dequeue :: "nos_shm_mpsc_queue \<Rightarrow> (u32 \<times> nos_shm_mpsc_queue) option" where
  "nos_shm_mpsc_dequeue q =
     (if q_head q = q_tail q then Some (0, q)
      else let offset = offsets q ! q_head q in
           if offset = 0 then None
           else Some (offset, q\<lparr>offsets := (offsets q)[q_head q := 0],
                                q_head := (q_head q + 1) mod NOS_SHM_QUEUE_SIZE\<rparr>))"

end
