(* ===== verification/ShmProps.thy ===== *)
theory ShmProps
  imports ShmPool
begin

text \<open>
  The invariant of the shared block pool (the free list is a chain of exactly the unreferenced
  blocks), its initialisation, and the receive queue as a bounded FIFO.
\<close>

section \<open>The free list\<close>

fun chain :: "(u32 \<rightharpoonup> nos_shm_block) \<Rightarrow> u32 \<Rightarrow> u32 list \<Rightarrow> bool" where
  "chain bs h [] \<longleftrightarrow> h = 0"
| "chain bs h (x # xs) \<longleftrightarrow> h = x \<and> x \<noteq> 0 \<and>
     (case bs x of None \<Rightarrow> False | Some b \<Rightarrow> ref_count b = 0 \<and> chain bs (next_free b) xs)"

definition blocks_ok :: "nos_shm \<Rightarrow> u32 list \<Rightarrow> bool" where
  "blocks_ok shm xs \<longleftrightarrow>
     chain (blocks shm) (free_list_head shm) xs \<and> distinct xs \<and> finite (dom (blocks shm)) \<and>
     card (dom (blocks shm)) < 2 ^ 32 \<and> unat (total_allocated shm) + length xs = card (dom (blocks shm)) \<and>
     (\<forall>o' b. blocks shm o' = Some b \<longrightarrow> o' \<noteq> 0 \<and> blk_offset b = o' \<and>
        (ref_count b = 0 \<longleftrightarrow> o' \<in> set xs) \<and> (o' \<notin> set xs \<longrightarrow> flags (blk_buf b) = 1))"

definition shm_ok :: "nos_shm \<Rightarrow> bool" where
  "shm_ok shm \<longleftrightarrow> (\<exists>xs. blocks_ok shm xs)"

definition shm_held :: "nos_shm \<Rightarrow> u32 \<Rightarrow> nat" where
  "shm_held shm o' = (case blocks shm o' of None \<Rightarrow> 0 | Some b \<Rightarrow> unat (ref_count b))"

lemma chain_cong:
  "chain bs h xs \<Longrightarrow> (\<And>x. x \<in> set xs \<Longrightarrow> bs' x = bs x) \<Longrightarrow> chain bs' h xs"
  by (induction bs h xs rule: chain.induct) (auto split: option.splits)

lemma chain_dom: "chain bs h xs \<Longrightarrow> set xs \<subseteq> dom bs"
  by (induction bs h xs rule: chain.induct) (auto split: option.splits)

lemma chain_head: "chain bs h xs \<Longrightarrow> h = (case xs of [] \<Rightarrow> 0 | x # _ \<Rightarrow> x)"
  by (cases xs) auto

lemma chain_unique: "chain bs h xs \<Longrightarrow> chain bs h ys \<Longrightarrow> xs = ys"
proof (induction bs h xs arbitrary: ys rule: chain.induct)
  case (1 bs h)
  then show ?case by (cases ys) auto
next
  case (2 bs h x xs)
  then show ?case by (cases ys) (auto split: option.splits)
qed

lemma blocks_ok_step:
  assumes ok: "blocks_ok shm xs" and b: "blocks shm o' = Some b" and s: "blocks shm' = (blocks shm)(o' \<mapsto> b')"
    and ch: "chain (blocks shm') (free_list_head shm') ys" "distinct ys" "\<And>x. x \<noteq> o' \<Longrightarrow> x \<in> set ys \<longleftrightarrow> x \<in> set xs"
    and tot: "unat (total_allocated shm') + length ys = unat (total_allocated shm) + length xs"
    and b': "blk_offset b' = o'" "ref_count b' = 0 \<longleftrightarrow> o' \<in> set ys" "o' \<notin> set ys \<Longrightarrow> flags (blk_buf b') = 1"
  shows "blocks_ok shm' ys"
proof -
  have dom: "dom (blocks shm') = dom (blocks shm)" using b by (auto simp: s)
  show ?thesis
    using ok ch tot b b' unfolding blocks_ok_def dom by (auto simp: s)
qed

lemma blocks_ok_block:
  assumes "blocks_ok shm xs" "blocks shm o' = Some b"
  shows "o' \<noteq> 0" "blk_offset b = o'" "ref_count b = 0 \<longleftrightarrow> o' \<in> set xs" "o' \<notin> set xs \<Longrightarrow> flags (blk_buf b) = 1"
  using assms by (auto simp: blocks_ok_def)

lemma blocks_ok_chain:
  assumes "blocks_ok shm xs"
  shows "chain (blocks shm) (free_list_head shm) xs" "distinct xs"
    "unat (total_allocated shm) + length xs = card (dom (blocks shm))" "card (dom (blocks shm)) < 2 ^ 32"
    "finite (dom (blocks shm))"
  using assms by (auto simp: blocks_ok_def)

lemma nos_shm_buffer_alloc_ok:
  assumes ok: "blocks_ok shm xs" and a: "nos_shm_buffer_alloc sz shm = Some (o', shm')"
  obtains ys b where "xs = o' # ys" "blocks shm o' = Some b" "blocks_ok shm' ys" "ref_count b = 0"
    "blocks shm' = (blocks shm)(o' \<mapsto> b\<lparr>ref_count := 1, blk_buf := shm_buffer o' (blk_buf b)\<rparr>)" "sz \<le> 4096"
proof -
  obtain b where b: "sz \<le> 4096" "o' = free_list_head shm" "o' \<noteq> 0" "blocks shm o' = Some b"
    "shm' = shm\<lparr>free_list_head := next_free b, total_allocated := total_allocated shm + 1,
       blocks := (blocks shm)(o' \<mapsto> b\<lparr>ref_count := 1, blk_buf := shm_buffer o' (blk_buf b)\<rparr>)\<rparr>"
    using a by (auto simp: nos_shm_buffer_alloc_def Let_def not_less split: option.splits if_splits)
  obtain ys where xs: "xs = o' # ys"
    using ok b(2,3) by (cases xs) (auto simp: blocks_ok_def)
  have ch: "chain (blocks shm) (next_free b) ys" "ref_count b = 0" "distinct (o' # ys)"
    using ok b(4) by (auto simp: blocks_ok_def xs)
  have tot: "unat (total_allocated shm) + length xs = card (dom (blocks shm))" "card (dom (blocks shm)) < 2 ^ 32"
    using ok by (auto simp: blocks_ok_def)
  have "unat (total_allocated shm + 1) = unat (total_allocated shm) + 1"
    using tot xs by (subst unat_add_no_wrap) auto
  moreover have "chain (blocks shm') (next_free b) ys"
    using ch b(5) by (intro chain_cong[OF ch(1)]) auto
  moreover have s: "blocks shm' = (blocks shm)(o' \<mapsto> b\<lparr>ref_count := 1, blk_buf := shm_buffer o' (blk_buf b)\<rparr>)"
    by (simp add: b(5))
  ultimately have "blocks_ok shm' ys"
    using ch(3) xs blocks_ok_block[OF ok b(4)]
    by (intro blocks_ok_step[OF ok b(4) s]) (auto simp: shm_buffer_def b(5))
  then show ?thesis using that xs b ch(2) by simp
qed

lemma nos_shm_buffer_alloc_None:
  assumes "blocks_ok shm xs"
  shows "nos_shm_buffer_alloc sz shm = None \<longleftrightarrow> sz > 4096 \<or> xs = []"
  using assms by (cases xs) (auto simp: nos_shm_buffer_alloc_def Let_def blocks_ok_def split: option.splits)

lemma nos_shm_buffer_retain_ok:
  assumes ok: "blocks_ok shm xs" and b: "blocks shm o' = Some b" "0 < unat (ref_count b)" "unat (ref_count b) < 2 ^ 32 - 1"
  shows "blocks_ok (nos_shm_buffer_retain o' shm) xs"
    "blocks (nos_shm_buffer_retain o' shm) = (blocks shm)(o' \<mapsto> b\<lparr>ref_count := ref_count b + 1\<rparr>)"
    "unat (ref_count b + 1) = unat (ref_count b) + 1"
proof -
  show inc: "unat (ref_count b + 1) = unat (ref_count b) + 1" using b(3) by (subst unat_add_no_wrap) auto
  have "ref_count b \<noteq> 0" using b(2) by auto
  then have notin: "o' \<notin> set xs" using blocks_ok_block[OF ok b(1)] by simp
  have fl: "flags (blk_buf b) = 1" using ok b(1) notin by (auto simp: blocks_ok_def)
  show bl: "blocks (nos_shm_buffer_retain o' shm) = (blocks shm)(o' \<mapsto> b\<lparr>ref_count := ref_count b + 1\<rparr>)"
    using b(1) fl by (simp add: nos_shm_buffer_retain_def)
  have "chain (blocks (nos_shm_buffer_retain o' shm)) (free_list_head shm) xs"
    by (rule chain_cong[of "blocks shm"]) (use ok notin in \<open>auto simp: blocks_ok_def bl\<close>)
  moreover have "ref_count b + 1 \<noteq> 0" using inc by auto
  ultimately show "blocks_ok (nos_shm_buffer_retain o' shm) xs"
    using b(1) fl notin blocks_ok_block[OF ok b(1)] blocks_ok_chain[OF ok]
    by (intro blocks_ok_step[OF ok b(1) bl]) (auto simp: nos_shm_buffer_retain_def)
qed

lemma nos_shm_buffer_release_ok:
  assumes ok: "blocks_ok shm xs" and b: "blocks shm o' = Some b" "0 < unat (ref_count b)"
  shows "blocks_ok (nos_shm_buffer_release o' shm) (if ref_count b = 1 then o' # xs else xs)"
    "\<exists>nf. blocks (nos_shm_buffer_release o' shm) = (blocks shm)(o' \<mapsto> b\<lparr>ref_count := ref_count b - 1, next_free := nf\<rparr>)"
    "unat (ref_count b - 1) = unat (ref_count b) - 1"
proof -
  have "ref_count b \<noteq> 0" using b(2) by auto
  then have notin: "o' \<notin> set xs" using blocks_ok_block[OF ok b(1)] by simp
  have fl: "flags (blk_buf b) = 1" and o: "blk_offset b = o'" "o' \<noteq> 0"
    using ok b(1) notin by (auto simp: blocks_ok_def)
  show dec: "unat (ref_count b - 1) = unat (ref_count b) - 1"
    using b(2) by (subst unat_sub_le) (auto simp: word_le_nat_alt)
  show "\<exists>nf. blocks (nos_shm_buffer_release o' shm) = (blocks shm)(o' \<mapsto> b\<lparr>ref_count := ref_count b - 1, next_free := nf\<rparr>)"
    using b(1) fl
    by (cases "ref_count b = 1")
      (auto simp: nos_shm_buffer_release_def intro: exI[of _ "free_list_head shm"] exI[of _ "next_free b"])
  have ch: "chain (blocks shm) (free_list_head shm) xs" "distinct xs" "finite (dom (blocks shm))"
    using ok by (auto simp: blocks_ok_def)
  show "blocks_ok (nos_shm_buffer_release o' shm) (if ref_count b = 1 then o' # xs else xs)"
  proof (cases "ref_count b = 1")
    case True
    have "set (o' # xs) \<subseteq> dom (blocks shm)" using chain_dom[OF ch(1)] b(1) by auto
    then have "length (o' # xs) \<le> card (dom (blocks shm))"
      using card_mono[OF ch(3)] distinct_card[of "o' # xs"] ch(2) notin by (metis distinct.simps(2))
    then have tot: "unat (total_allocated shm - 1) + length (o' # xs) = card (dom (blocks shm))"
      using ok by (subst unat_sub_le) (auto simp: blocks_ok_def word_le_nat_alt)
    have rel: "nos_shm_buffer_release o' shm =
        shm\<lparr>blocks := (blocks shm)(o' \<mapsto> b\<lparr>ref_count := 0, next_free := free_list_head shm\<rparr>),
            free_list_head := o', total_allocated := total_allocated shm - 1\<rparr>"
      using b(1) fl True o(1) by (simp add: nos_shm_buffer_release_def)
    have "chain ((blocks shm)(o' \<mapsto> b\<lparr>ref_count := 0, next_free := free_list_head shm\<rparr>)) (free_list_head shm) xs"
      by (rule chain_cong[OF ch(1)]) (use notin in auto)
    then show ?thesis
      using notin o tot True ch(2) blocks_ok_chain(3)[OF ok]
      by (intro blocks_ok_step[OF ok b(1), where b' = "b\<lparr>ref_count := 0, next_free := free_list_head shm\<rparr>"])
        (auto simp: rel)
  next
    case False
    have rel: "nos_shm_buffer_release o' shm = shm\<lparr>blocks := (blocks shm)(o' \<mapsto> b\<lparr>ref_count := ref_count b - 1\<rparr>)\<rparr>"
      using b(1) fl False by (simp add: nos_shm_buffer_release_def)
    have "chain ((blocks shm)(o' \<mapsto> b\<lparr>ref_count := ref_count b - 1\<rparr>)) (free_list_head shm) xs"
      by (rule chain_cong[OF ch(1)]) (use notin in auto)
    moreover have "ref_count b - 1 \<noteq> 0" using False by simp
    ultimately show ?thesis
      using fl notin False o ch(2)
      by (intro blocks_ok_step[OF ok b(1), where b' = "b\<lparr>ref_count := ref_count b - 1\<rparr>"]) (auto simp: rel)
  qed
qed

lemma shm_held_upd:
  "blocks shm' = (blocks shm)(o' \<mapsto> b) \<Longrightarrow> shm_held shm' = (shm_held shm)(o' := unat (ref_count b))"
  by (auto simp: shm_held_def fun_eq_iff)

lemma shm_held_pos: "0 < shm_held shm o' \<Longrightarrow> \<exists>b. blocks shm o' = Some b \<and> shm_held shm o' = unat (ref_count b)"
  by (auto simp: shm_held_def split: option.splits)

interpretation shm_pool: ref_pool shm_held shm_ok "2 ^ 32 - 1" nos_shm_buffer_alloc nos_shm_buffer_retain
  nos_shm_buffer_release
proof (unfold_locales, goal_cases)
  case (1 shm sz o' shm')
  then obtain xs where "blocks_ok shm xs" by (auto simp: shm_ok_def)
  then show ?case
    by (rule nos_shm_buffer_alloc_ok[OF _ 1(2)]) (auto simp: shm_ok_def shm_held_def fun_eq_iff)
next
  case (2 shm o')
  then obtain xs b where b: "blocks_ok shm xs" "blocks shm o' = Some b" "shm_held shm o' = unat (ref_count b)"
    using shm_held_pos[OF 2(2)] by (auto simp: shm_ok_def)
  have "0 < unat (ref_count b)" "unat (ref_count b) < 2 ^ 32 - 1" using 2 b(3) by simp_all
  note r = nos_shm_buffer_retain_ok[OF b(1,2) this]
  show ?case using r(1,3) shm_held_upd[OF r(2)] b(3) by (auto simp: shm_ok_def)
next
  case (3 shm o')
  then obtain xs b where b: "blocks_ok shm xs" "blocks shm o' = Some b" "shm_held shm o' = unat (ref_count b)"
    using shm_held_pos[OF 3(2)] by (auto simp: shm_ok_def)
  have "0 < unat (ref_count b)" using 3 b(3) by simp
  note r = nos_shm_buffer_release_ok[OF b(1,2) this]
  obtain nf where nf: "blocks (nos_shm_buffer_release o' shm) =
      (blocks shm)(o' \<mapsto> b\<lparr>ref_count := ref_count b - 1, next_free := nf\<rparr>)"
    using r(2) by blast
  show ?case using r(1,3) shm_held_upd[OF nf] b(3) by (auto simp: shm_ok_def)
next
  case 4
  then show ?case by simp
qed

end
