(* ===== verification/ShmClaims.thy ===== *)
theory ShmClaims
  imports ShmProps BufferClaims
begin

text \<open>
  Initialisation of the shared block pool, the receive queue as a bounded FIFO, and the
  properties of both when each operation runs undisturbed.
\<close>

section \<open>Initialisation\<close>

definition block_at :: "nat \<Rightarrow> u32" where
  "block_at i = SHM_HEADER_SIZE + of_nat i * SHM_BLOCK_SIZE"

lemma unat_block_at: "i \<le> 3962 \<Longrightarrow> unat (block_at i) = 262864 + i * 4168"
  by (simp add: block_at_def SHM_HEADER_SIZE_def SHM_BLOCK_SIZE_def unat_word_ariths unat_of_nat)

lemma block_at_inj: "i \<le> 3962 \<Longrightarrow> j \<le> 3962 \<Longrightarrow> block_at i = block_at j \<longleftrightarrow> i = j"
  by (auto dest!: arg_cong[of _ _ unat] simp: unat_block_at)

lemma block_at_Suc: "block_at (Suc i) = block_at i + SHM_BLOCK_SIZE"
  by (simp add: block_at_def algebra_simps)

lemma init_blocks_other:
  "(\<And>j. j < k \<Longrightarrow> o' \<noteq> block_at (i + j)) \<Longrightarrow> init_blocks k (block_at i) bs o' = bs o'"
proof (induction k arbitrary: i bs)
  case (Suc k)
  have "o' \<noteq> block_at i" "\<And>j. j < k \<Longrightarrow> o' \<noteq> block_at (Suc i + j)"
    using Suc.prems[of 0] Suc.prems[of "Suc _"] by auto
  then show ?case using Suc.IH[of "Suc i"] by (simp add: block_at_Suc[symmetric])
qed simp

lemma init_blocks_at:
  "j < k \<Longrightarrow> i + k \<le> 3962 \<Longrightarrow>
     \<exists>bb. init_blocks k (block_at i) bs (block_at (i + j)) =
       Some \<lparr>blk_offset = block_at (i + j), blk_size = 4096, ref_count = 0,
             next_free = (if Suc j = k then 0 else block_at (i + Suc j)), blk_buf = bb\<rparr>"
proof (induction k arbitrary: i j bs)
  case (Suc k)
  let ?b = "\<lparr>blk_offset = block_at i, blk_size = 4096, ref_count = 0,
             next_free = (if k = 0 then 0 else block_at (Suc i)),
             blk_buf = (case bs (block_at i) of Some b \<Rightarrow> blk_buf b | None \<Rightarrow> zero_buffer)\<rparr>"
  have step: "init_blocks (Suc k) (block_at i) bs = init_blocks k (block_at (Suc i)) (bs(block_at i \<mapsto> ?b))"
    by (simp add: block_at_Suc)
  show ?case
  proof (cases j)
    case 0
    have "init_blocks k (block_at (Suc i)) (bs(block_at i \<mapsto> ?b)) (block_at i) = Some ?b"
      using Suc.prems by (subst init_blocks_other) (auto simp: block_at_inj)
    then show ?thesis using 0 by (simp add: step del: init_blocks.simps)
  next
    case (Suc m)
    then have "m < k" "Suc i + k \<le> 3962" and e: "i + j = Suc i + m" "Suc j = Suc k \<longleftrightarrow> Suc m = k" "i + Suc j = Suc i + Suc m"
      using Suc.prems by auto
    from Suc.IH[OF this(1,2)] show ?thesis unfolding step e .
  qed
qed simp

lemma chain_blocks:
  assumes "\<And>j. j < k \<Longrightarrow> \<exists>b. bs (block_at (i + j)) = Some b \<and> ref_count b = 0 \<and>
      next_free b = (if Suc j = k then 0 else block_at (i + Suc j))"
    and "i + k \<le> 3962"
  shows "chain bs (if k = 0 then 0 else block_at i) (map (\<lambda>j. block_at (i + j)) [0..<k])"
  using assms
proof (induction k arbitrary: i)
  case (Suc k)
  have "\<exists>b. bs (block_at (Suc i + j)) = Some b \<and> ref_count b = 0 \<and>
      next_free b = (if Suc j = k then 0 else block_at (Suc i + Suc j))" if "j < k" for j
    using Suc.prems(1)[of "Suc j"] that by (cases "Suc j = k") auto
  then have IH: "chain bs (if k = 0 then 0 else block_at (Suc i)) (map (\<lambda>j. block_at (Suc i + j)) [0..<k])"
    using Suc.IH[of "Suc i"] Suc.prems(2) by simp
  have l: "map (\<lambda>j. block_at (i + j)) [0..<Suc k] = block_at i # map (\<lambda>j. block_at (Suc i + j)) [0..<k]"
    by (simp add: upt_conv_Cons map_Suc_upt[symmetric] comp_def del: upt_Suc)
  have "unat (block_at i) \<noteq> 0" using Suc.prems(2) by (simp add: unat_block_at)
  then have "block_at i \<noteq> 0" by auto
  then show ?case using IH Suc.prems(1)[of 0] unfolding l by (auto simp: gr0_conv_Suc)
qed simp

lemma num_blocks: "unat ((NOS_SHM_SIZE - SHM_HEADER_SIZE) div SHM_BLOCK_SIZE) = 3962"
  by (simp add: NOS_SHM_SIZE_def SHM_HEADER_SIZE_def SHM_BLOCK_SIZE_def)

lemma init_blocks_ok:
  assumes bl: "blocks shm = init_blocks n (block_at 0) Map.empty" and n: "0 < n" "n \<le> 3962"
    and h: "free_list_head shm = block_at 0" "total_allocated shm = 0"
  shows "blocks_ok shm (map block_at [0..<n])" "dom (blocks shm) = block_at ` {..<n}"
proof -
  have at: "\<exists>bb. blocks shm (block_at j) = Some \<lparr>blk_offset = block_at j, blk_size = 4096, ref_count = 0,
             next_free = (if Suc j = n then 0 else block_at (Suc j)), blk_buf = bb\<rparr>" if "j < n" for j
    using init_blocks_at[of j n 0 Map.empty, unfolded add_0] that n unfolding bl by blast
  have out: "blocks shm o' = None" if "o' \<notin> block_at ` {..<n}" for o'
    using that unfolding bl by (subst init_blocks_other) auto
  show dom: "dom (blocks shm) = block_at ` {..<n}"
    using at out by (force simp: dom_def)
  have inj: "inj_on block_at {..<n}" using n by (auto simp: inj_on_def block_at_inj)
  have "chain (blocks shm) (block_at 0) (map block_at [0..<n])"
    using chain_blocks[of n "blocks shm" 0] at n by fastforce
  moreover have "distinct (map block_at [0..<n])"
    using inj by (simp add: distinct_map atLeast0LessThan)
  moreover have "card (dom (blocks shm)) = n" using card_image[OF inj] by (simp add: dom)
  moreover have "o' \<noteq> 0 \<and> blk_offset b = o' \<and> ref_count b = 0 \<and> o' \<in> block_at ` {..<n}"
    if b: "blocks shm o' = Some b" for o' b
  proof -
    have "o' \<in> block_at ` {..<n}" using b dom by (metis domI)
    then obtain j where j: "j < n" "o' = block_at j" by auto
    then have "unat o' \<noteq> 0" using n by (simp add: unat_block_at)
    then show ?thesis using at[OF j(1)] b j by auto
  qed
  ultimately show "blocks_ok shm (map block_at [0..<n])"
    using h n by (auto simp: blocks_ok_def atLeast0LessThan)
qed

lemma init_pool_ok:
  defines "shm \<equiv> nos_shm_create_and_init Map.empty"
  shows "blocks_ok shm (map block_at [0..<3962])" "dom (blocks shm) = block_at ` {..<3962}"
    "free_list_head shm = block_at 0"
proof -
  have bl: "blocks shm = init_blocks 3962 (block_at 0) Map.empty"
    unfolding shm_def nos_shm_create_and_init_def init_shm_pool_def Let_def num_blocks
    by (simp add: block_at_def del: init_blocks.simps)
  have h: "free_list_head shm = block_at 0" "total_allocated shm = 0"
    by (simp_all add: shm_def nos_shm_create_and_init_def init_shm_pool_def Let_def block_at_def)
  show "free_list_head shm = block_at 0" by (rule h)
  show "blocks_ok shm (map block_at [0..<3962])" "dom (blocks shm) = block_at ` {..<3962}"
    using init_blocks_ok[OF bl _ _ h] by auto
qed

section \<open>The receive queue as a bounded FIFO\<close>

definition mpsc_items :: "nos_shm_mpsc_queue \<Rightarrow> u32 list" where
  "mpsc_items q = ring_items NOS_SHM_QUEUE_SIZE (offsets q) (q_head q) (q_tail q)"

definition mpsc_ok :: "nos_shm_mpsc_queue \<Rightarrow> bool" where
  "mpsc_ok q \<longleftrightarrow> ring_ok NOS_SHM_QUEUE_SIZE (offsets q) (q_head q) (q_tail q) \<and> 0 \<notin> set (mpsc_items q)"

definition mpsc_enq :: "u32 \<Rightarrow> nos_shm_mpsc_queue \<Rightarrow> nos_shm_mpsc_queue option" where
  "mpsc_enq x q = (case nos_shm_mpsc_enqueue x q of (NOS_OK, q') \<Rightarrow> Some q' | _ \<Rightarrow> None)"

definition mpsc_deq :: "nos_shm_mpsc_queue \<Rightarrow> (u32 \<times> nos_shm_mpsc_queue) option" where
  "mpsc_deq q = (case nos_shm_mpsc_dequeue q of None \<Rightarrow> None | Some (x, q') \<Rightarrow> if x = 0 then None else Some (x, q'))"

lemma mpsc_enq_eq:
  "mpsc_enq x q = (if x = 0 \<or> ring_succ NOS_SHM_QUEUE_SIZE (q_tail q) = q_head q then None
     else Some (q\<lparr>q_tail := ring_succ NOS_SHM_QUEUE_SIZE (q_tail q), offsets := (offsets q)[q_tail q := x]\<rparr>))"
  by (simp add: mpsc_enq_def nos_shm_mpsc_enqueue_def Let_def ring_succ_def)

lemma mpsc_head_nonzero:
  assumes "mpsc_ok q" "q_head q \<noteq> q_tail q"
  shows "offsets q ! q_head q \<noteq> 0"
    "mpsc_items q = offsets q ! q_head q # ring_items NOS_SHM_QUEUE_SIZE (offsets q) (ring_succ NOS_SHM_QUEUE_SIZE (q_head q)) (q_tail q)"
  using assms ring_items_pop[of NOS_SHM_QUEUE_SIZE "offsets q" "q_head q" "q_tail q"]
  by (auto simp: mpsc_ok_def mpsc_items_def)

lemma mpsc_dequeue_eq:
  "mpsc_ok q \<Longrightarrow> nos_shm_mpsc_dequeue q = Some (if q_head q = q_tail q then (0, q)
     else (offsets q ! q_head q, q\<lparr>offsets := (offsets q)[q_head q := 0], q_head := ring_succ NOS_SHM_QUEUE_SIZE (q_head q)\<rparr>))"
  using mpsc_head_nonzero by (simp add: nos_shm_mpsc_dequeue_def Let_def ring_succ_def)

lemma mpsc_deq_eq:
  "mpsc_ok q \<Longrightarrow> mpsc_deq q = (if q_head q = q_tail q then None
     else Some (offsets q ! q_head q, q\<lparr>offsets := (offsets q)[q_head q := 0], q_head := ring_succ NOS_SHM_QUEUE_SIZE (q_head q)\<rparr>))"
  using mpsc_dequeue_eq mpsc_head_nonzero by (simp add: mpsc_deq_def)

lemma ring_items_clear_head:
  assumes "ring_ok N a h t" "h \<noteq> t"
  shows "ring_items N (a[h := z]) (ring_succ N h) t = ring_items N a (ring_succ N h) t"
proof -
  have ht: "h < N" "t < N" using assms(1) by (auto simp: ring_ok_def)
  have u: "ring_used N (ring_succ N h) t < N - 1"
    using ring_used_pop[OF ht assms(2)] ring_used_less[OF ht] by simp
  have ne: "(ring_succ N h + i) mod N \<noteq> h" if "i < ring_used N (ring_succ N h) t" for i
    using that u ht ring_succ_less[OF ht(1)] by (simp add: ring_index) (auto simp: ring_succ_eq split: if_splits)
  show ?thesis
    unfolding ring_items_def by (rule map_cong) (auto simp: ne nth_list_update_neq[OF not_sym])
qed

interpretation mpsc: bounded_fifo mpsc_items mpsc_ok "NOS_SHM_QUEUE_SIZE - 1" "\<lambda>x. x \<noteq> 0" mpsc_enq mpsc_deq
proof (unfold_locales, goal_cases)
  case (1 q)
  then show ?case using ring_used_less by (fastforce simp: mpsc_ok_def mpsc_items_def ring_ok_def)
next
  case (2 q x)
  then show ?case by (simp add: mpsc_enq_eq mpsc_ok_def mpsc_items_def ring_ok_def ring_full_used)
next
  case (3 q x q')
  then have s: "x \<noteq> 0" "ring_succ NOS_SHM_QUEUE_SIZE (q_tail q) \<noteq> q_head q"
      "q' = q\<lparr>q_tail := ring_succ NOS_SHM_QUEUE_SIZE (q_tail q), offsets := (offsets q)[q_tail q := x]\<rparr>"
    by (auto simp: mpsc_enq_eq split: if_splits)
  then show ?case
    using 3(1) ring_items_push[OF _ s(2), of "offsets q" x]
    by (auto simp: mpsc_ok_def mpsc_items_def ring_ok_push)
next
  case (4 q)
  then show ?case
    by (simp add: mpsc_deq_eq) (simp add: mpsc_ok_def mpsc_items_def ring_items_empty ring_ok_def)
next
  case (5 q x q')
  then have s: "q_head q \<noteq> q_tail q" "x = offsets q ! q_head q"
      "q' = q\<lparr>offsets := (offsets q)[q_head q := 0], q_head := ring_succ NOS_SHM_QUEUE_SIZE (q_head q)\<rparr>"
    by (auto simp: mpsc_deq_eq split: if_splits)
  have ok: "ring_ok NOS_SHM_QUEUE_SIZE (offsets q) (q_head q) (q_tail q)" using 5(1) by (simp add: mpsc_ok_def)
  have "mpsc_items q = x # mpsc_items q'"
    using mpsc_head_nonzero(2)[OF 5(1) s(1)] ring_items_clear_head[OF ok s(1)] s(2)
    by (simp add: s(3) mpsc_items_def)
  then show ?case using 5(1) ok by (auto simp: mpsc_ok_def s(3) ring_ok_def)
qed

section \<open>Properties\<close>

definition fresh_shm :: nos_shm where
  "fresh_shm = nos_shm_create_and_init Map.empty"

lemma fresh_shm_ok: "shm_ok fresh_shm" "shm_held fresh_shm o' = 0"
proof -
  show "shm_ok fresh_shm" using init_pool_ok(1) by (auto simp: shm_ok_def fresh_shm_def)
  show "shm_held fresh_shm o' = 0"
  proof (cases "blocks fresh_shm o'")
    case (Some b)
    then have "o' \<in> set (map block_at [0..<3962])" using init_pool_ok(2) by (auto simp: fresh_shm_def atLeast0LessThan)
    then have "ref_count b = 0"
      using blocks_ok_block(3)[OF init_pool_ok(1), of o' b] Some by (simp add: fresh_shm_def)
    then show ?thesis using Some by (simp add: shm_held_def)
  qed (simp add: shm_held_def)
qed

text \<open>
  The created segment holds 3962 blocks, all free and in the free list, that follow the
  header without gap or overlap and end inside the 16 MB of the segment.
\<close>

theorem nos_shm_create_correct:
  "blocks_ok fresh_shm (map block_at [0..<3962]) \<and> dom (blocks fresh_shm) = block_at ` {..<3962} \<and>
   (\<forall>i < 3962. unat (block_at i) = unat SHM_HEADER_SIZE + i * unat SHM_BLOCK_SIZE \<and>
      unat (block_at i) + unat SHM_BLOCK_SIZE \<le> unat NOS_SHM_SIZE)"
  using init_pool_ok
  by (auto simp: fresh_shm_def unat_block_at SHM_HEADER_SIZE_def SHM_BLOCK_SIZE_def NOS_SHM_SIZE_def)

theorem nos_shm_create_correct_witness:
  "unat (block_at 3961) + 4168 \<le> 16777216 \<and> card (dom (blocks fresh_shm)) = 3962"
proof -
  have "inj_on block_at {..<3962}" by (auto simp: inj_on_def block_at_inj)
  then show ?thesis
    using nos_shm_create_correct card_image[of block_at "{..<3962}"]
    by (simp add: SHM_BLOCK_SIZE_def NOS_SHM_SIZE_def SHM_HEADER_SIZE_def)
qed

text \<open>
  C30 A shared block is never in two hands: over any sequence of allocations, retains and
  releases by clients that only touch blocks they hold, run one after the other, the reference
  counts add up, and a block with a reference that is not dropped is not handed out again.
\<close>

theorem nos_shm_pool_exclusive:
  assumes "shm_ok shm"
    and "pool_run shm_held nos_shm_buffer_alloc nos_shm_buffer_retain nos_shm_buffer_release shm ops = Some (shm', rs)"
    and "\<And>r. shm_held shm r + refs_of r ops < 2 ^ 32 - 1" "1 + length ops \<le> 2 ^ 32 - 1"
  shows "(shm_ok shm') \<and>
    (shm_held shm' r + drops_of r ops = shm_held shm r + refs_of r ops + count_list rs r) \<and>
    ((drops_of r ops < shm_held shm r) \<longrightarrow> (r \<notin> set rs))"
  using shm_pool.run_spec[OF assms] shm_pool.run_pinned[OF assms] by blast+

text \<open>
  Allocating a shared buffer: it fails exactly when more than 4096 bytes are asked for or
  every block is referenced; otherwise it gives the block released last, reset to an empty
  4096-byte buffer.
\<close>

theorem nos_shm_buffer_alloc_correct:
  assumes "shm_ok shm"
  shows "(nos_shm_buffer_alloc sz shm = None \<longleftrightarrow> sz > 4096 \<or> (\<forall>o' \<in> dom (blocks shm). 0 < shm_held shm o')) \<and>
    ((nos_shm_buffer_alloc sz shm = Some (o', shm')) \<longrightarrow> (shm_ok shm' \<and> shm_held shm o' = 0 \<and>
      shm_held shm' = (shm_held shm)(o' := 1) \<and> o' = free_list_head shm \<and>
      (\<exists>b. blocks shm' o' = Some b \<and> buf_geometry (blk_buf b) \<and> capacity (blk_buf b) = 4096 \<and>
           raw_data (blk_buf b) = uint o' + 64)))"
proof (rule conjI[OF _ impI])
  obtain xs where xs: "blocks_ok shm xs" using assms by (auto simp: shm_ok_def)
  have "xs = [] \<longleftrightarrow> (\<forall>o' \<in> dom (blocks shm). 0 < shm_held shm o')"
  proof
    assume "xs = []"
    then show "\<forall>o' \<in> dom (blocks shm). 0 < shm_held shm o'"
      using blocks_ok_block(3)[OF xs] by (auto simp: shm_held_def unat_gt_0)
  next
    assume all: "\<forall>o' \<in> dom (blocks shm). 0 < shm_held shm o'"
    have "o' \<notin> set xs" for o'
    proof
      assume o: "o' \<in> set xs"
      then obtain b where b: "blocks shm o' = Some b" using chain_dom[OF blocks_ok_chain(1)[OF xs]] by auto
      have "ref_count b = 0" using blocks_ok_block(3)[OF xs b] o by simp
      then show False using all b by (auto simp: shm_held_def dom_def)
    qed
    then show "xs = []" by (cases xs) auto
  qed
  then show "nos_shm_buffer_alloc sz shm = None \<longleftrightarrow> sz > 4096 \<or> (\<forall>o' \<in> dom (blocks shm). 0 < shm_held shm o')"
    using nos_shm_buffer_alloc_None[OF xs] by simp
  assume a: "nos_shm_buffer_alloc sz shm = Some (o', shm')"
  obtain ys b where b: "xs = o' # ys" "blocks shm' o' = Some (b\<lparr>ref_count := 1, blk_buf := shm_buffer o' (blk_buf b)\<rparr>)"
    by (rule nos_shm_buffer_alloc_ok[OF xs a]) auto
  have "o' = free_list_head shm" using blocks_ok_chain(1)[OF xs] b(1) by simp
  then show "shm_ok shm' \<and> shm_held shm o' = 0 \<and> shm_held shm' = (shm_held shm)(o' := 1) \<and> o' = free_list_head shm \<and>
      (\<exists>b. blocks shm' o' = Some b \<and> buf_geometry (blk_buf b) \<and> capacity (blk_buf b) = 4096 \<and>
           raw_data (blk_buf b) = uint o' + 64)"
    using shm_pool.alloc_Some[OF assms a] b(2) by (auto simp: buf_geometry_def shm_buffer_def)
qed

lemma fresh_alloc:
  "nos_shm_buffer_alloc 100 fresh_shm \<noteq> None"
  using nos_shm_buffer_alloc_None[of fresh_shm "map block_at [0..<3962]" 100] init_pool_ok(1)
  by (auto simp: fresh_shm_def)

theorem nos_shm_buffer_alloc_correct_witness:
  "\<exists>shm. nos_shm_buffer_alloc 100 fresh_shm = Some (block_at 0, shm) \<and> shm_held shm (block_at 0) = 1"
proof -
  obtain o' shm where a: "nos_shm_buffer_alloc 100 fresh_shm = Some (o', shm)" using fresh_alloc by auto
  show ?thesis
    using nos_shm_buffer_alloc_correct[OF fresh_shm_ok(1), THEN conjunct2, rule_format, OF a] a init_pool_ok(3) by (simp add: fresh_shm_def)
qed

theorem nos_shm_pool_exclusive_witness:
  "\<exists>shm o'. pool_run shm_held nos_shm_buffer_alloc nos_shm_buffer_retain nos_shm_buffer_release fresh_shm [Get 100] =
     Some (shm, [o']) \<and> shm_held shm o' = 1"
proof -
  obtain o' shm where a: "nos_shm_buffer_alloc 100 fresh_shm = Some (o', shm)" using fresh_alloc by auto
  then have r: "pool_run shm_held nos_shm_buffer_alloc nos_shm_buffer_retain nos_shm_buffer_release fresh_shm [Get 100] =
     Some (shm, [o'])" by simp
  show ?thesis
    using nos_shm_pool_exclusive[OF fresh_shm_ok(1) r, of o', THEN conjunct2, THEN conjunct1] r by (auto simp: fresh_shm_ok(2))
qed

text \<open>
  C28 The receive queue of a node is a FIFO of 4095 offsets: over any sequence of enqueues and
  dequeues, one after the other, what was in the queue followed by the accepted offsets is what
  was delivered followed by what is left; an enqueue of a non-zero offset is refused only when
  4095 are waiting, and a dequeue never spins and finds nothing only when the queue is empty.
\<close>

theorem nos_shm_queue_fifo:
  assumes "mpsc_ok q" "fifo_run mpsc_enq mpsc_deq q ops = (q', acc, del)"
  shows "(mpsc_items q @ acc = del @ mpsc_items q') \<and>
    (mpsc_ok q') \<and>
    ((x \<noteq> 0) \<longrightarrow> (fst (nos_shm_mpsc_enqueue x q) = (if length (mpsc_items q) = 4095 then NOS_ERR_BUSY else NOS_OK))) \<and>
    (\<exists>y q1. nos_shm_mpsc_dequeue q = Some (y, q1) \<and> (y = 0 \<longleftrightarrow> mpsc_items q = []))"
proof (rule conjI[OF _ conjI[OF _ conjI[OF impI _]]])
  show "mpsc_items q @ acc = del @ mpsc_items q'" "mpsc_ok q'"
    using mpsc.run_conserves[OF assms] mpsc.run_invar[OF assms] by auto
  show "fst (nos_shm_mpsc_enqueue x q) = (if length (mpsc_items q) = 4095 then NOS_ERR_BUSY else NOS_OK)" if "x \<noteq> 0"
    using mpsc.enq_None[OF assms(1) that] that
    by (auto simp: mpsc_enq_eq NOS_SHM_QUEUE_SIZE_def nos_shm_mpsc_enqueue_def Let_def ring_succ_def split: if_splits)
  show "\<exists>y q1. nos_shm_mpsc_dequeue q = Some (y, q1) \<and> (y = 0 \<longleftrightarrow> mpsc_items q = [])"
    using mpsc_dequeue_eq[OF assms(1)] mpsc_head_nonzero(1)[OF assms(1)] mpsc.deq_None[OF assms(1)] mpsc_deq_eq[OF assms(1)]
    by auto
qed

theorem nos_shm_queue_fifo_witness:
  "\<exists>q. fifo_run mpsc_enq mpsc_deq zero_queue [Enq 7, Enq 9, Deq, Enq 4] = (q, [7, 9, 4], [7]) \<and> mpsc_items q = [9, 4]"
proof -
  have ok: "mpsc_ok zero_queue" "mpsc_items zero_queue = []"
    by (simp_all add: mpsc_ok_def zero_queue_def ring_ok_def mpsc_items_def ring_items_def ring_used_def NOS_SHM_QUEUE_SIZE_def)
  obtain q acc del where r: "fifo_run mpsc_enq mpsc_deq zero_queue [Enq 7, Enq 9, Deq, Enq 4] = (q, acc, del)"
    by (metis prod_cases3)
  have "acc = [7, 9, 4]" "del = [7]"
    using r by (simp_all add: mpsc_enq_eq mpsc_deq_def nos_shm_mpsc_dequeue_def zero_queue_def ring_succ_def
        NOS_SHM_QUEUE_SIZE_def del: replicate_Suc replicate.simps)
  then show ?thesis using nos_shm_queue_fifo[OF ok(1) r, THEN conjunct1] r ok(2) by simp
qed

end
