(* ===== verification/MpscSteps.thy ===== *)
theory MpscSteps
  imports ShmClaims
begin

text \<open>
  The receive queue of \<open>nos_shm.c\<close> under concurrency: any number of producers in other
  processes run \<open>nos_shm_mpsc_enqueue\<close> while the owner runs \<open>nos_shm_mpsc_dequeue\<close>. One step is
  one atomic access; a producer loads the tail, compares with the head, tries the
  compare-and-swap, and publishes its offset in the slot it won; the consumer reads and clears
  the head slot once it is not 0, then advances the head.

  Two ghost lists record the offsets in the order in which their slots were won and the
  offsets delivered. A producer also remembers how many slots had been won when it
  loaded the tail: the compare-and-swap compares only indices modulo 4096, so the model assumes
  that fewer than 4096 slots are won between a producer's load and its compare-and-swap.
\<close>

datatype prod_pc = PIdle | PLoaded u32 nat nat | PChecked u32 nat nat | PReserved u32 nat

datatype cons_pc = CIdle | CTaken u32

record mpsc_sys =
  sq :: nos_shm_mpsc_queue
  producers :: "nat \<Rightarrow> prod_pc"
  consumer :: cons_pc
  reserved :: "u32 list"
  delivered :: "u32 list"

definition mpsc_init :: mpsc_sys where
  "mpsc_init = \<lparr>sq = zero_queue, producers = (\<lambda>_. PIdle), consumer = CIdle, reserved = [], delivered = []\<rparr>"

definition set_prod :: "nat \<Rightarrow> prod_pc \<Rightarrow> mpsc_sys \<Rightarrow> mpsc_sys" where
  "set_prod p pc s = s\<lparr>producers := (producers s)(p := pc)\<rparr>"

inductive mpsc_step :: "mpsc_sys \<Rightarrow> mpsc_sys \<Rightarrow> bool" where
  load: "producers s p = PIdle \<Longrightarrow> x \<noteq> 0 \<Longrightarrow>
    mpsc_step s (set_prod p (PLoaded x (q_tail (sq s)) (length (reserved s))) s)"
| busy: "producers s p = PLoaded x t k \<Longrightarrow> (t + 1) mod NOS_SHM_QUEUE_SIZE = q_head (sq s) \<Longrightarrow>
    mpsc_step s (set_prod p PIdle s)"
| check: "producers s p = PLoaded x t k \<Longrightarrow> (t + 1) mod NOS_SHM_QUEUE_SIZE \<noteq> q_head (sq s) \<Longrightarrow>
    mpsc_step s (set_prod p (PChecked x t k) s)"
| cas_ok: "producers s p = PChecked x t k \<Longrightarrow> q_tail (sq s) = t \<Longrightarrow>
    length (reserved s) - k < NOS_SHM_QUEUE_SIZE \<Longrightarrow>
    mpsc_step s (set_prod p (PReserved x t)
      (s\<lparr>sq := (sq s)\<lparr>q_tail := (t + 1) mod NOS_SHM_QUEUE_SIZE\<rparr>, reserved := reserved s @ [x]\<rparr>))"
| cas_fail: "producers s p = PChecked x t k \<Longrightarrow>
    mpsc_step s (set_prod p (PLoaded x (q_tail (sq s)) (length (reserved s))) s)"
| publish: "producers s p = PReserved x t \<Longrightarrow>
    mpsc_step s (set_prod p PIdle (s\<lparr>sq := (sq s)\<lparr>offsets := (offsets (sq s))[t := x]\<rparr>\<rparr>))"
| take: "consumer s = CIdle \<Longrightarrow> q_head (sq s) \<noteq> q_tail (sq s) \<Longrightarrow> offsets (sq s) ! q_head (sq s) = x \<Longrightarrow> x \<noteq> 0 \<Longrightarrow>
    mpsc_step s (s\<lparr>sq := (sq s)\<lparr>offsets := (offsets (sq s))[q_head (sq s) := 0]\<rparr>, consumer := CTaken x\<rparr>)"
| advance: "consumer s = CTaken x \<Longrightarrow>
    mpsc_step s (s\<lparr>sq := (sq s)\<lparr>q_head := (q_head (sq s) + 1) mod NOS_SHM_QUEUE_SIZE\<rparr>, consumer := CIdle,
                  delivered := delivered s @ [x]\<rparr>)"

inductive mpsc_reach :: "mpsc_sys \<Rightarrow> bool" where
  init: "mpsc_reach mpsc_init"
| step: "mpsc_reach s \<Longrightarrow> mpsc_step s s' \<Longrightarrow> mpsc_reach s'"

section \<open>Invariant\<close>

text \<open>Slot \<open>k\<close> of the unbounded sequence of slots.\<close>

definition slot :: "mpsc_sys \<Rightarrow> nat \<Rightarrow> u32" where
  "slot s k = offsets (sq s) ! (k mod NOS_SHM_QUEUE_SIZE)"

definition counts_inv :: "mpsc_sys \<Rightarrow> bool" where
  "counts_inv s \<longleftrightarrow>
     q_head (sq s) = length (delivered s) mod NOS_SHM_QUEUE_SIZE \<and>
     q_tail (sq s) = length (reserved s) mod NOS_SHM_QUEUE_SIZE \<and>
     length (delivered s) \<le> length (reserved s) \<and>
     length (reserved s) < length (delivered s) + NOS_SHM_QUEUE_SIZE \<and>
     length (offsets (sq s)) = NOS_SHM_QUEUE_SIZE \<and>
     delivered s = take (length (delivered s)) (reserved s) \<and> 0 \<notin> set (reserved s)"

text \<open>Who owns the empty slot \<open>k\<close>: a producer that has not published yet, or the consumer.\<close>

definition pending :: "mpsc_sys \<Rightarrow> nat \<Rightarrow> bool" where
  "pending s k \<longleftrightarrow> (\<exists>p. producers s p = PReserved (reserved s ! k) (k mod NOS_SHM_QUEUE_SIZE)) \<or>
     k = length (delivered s) \<and> consumer s = CTaken (reserved s ! k)"

definition slots_inv :: "mpsc_sys \<Rightarrow> bool" where
  "slots_inv s \<longleftrightarrow>
     (\<forall>k. length (delivered s) \<le> k \<longrightarrow> k < length (delivered s) + NOS_SHM_QUEUE_SIZE \<longrightarrow>
        (if k < length (reserved s) then slot s k = reserved s ! k \<or> slot s k = 0 \<and> pending s k
         else slot s k = 0))"

definition prods_inv :: "mpsc_sys \<Rightarrow> bool" where
  "prods_inv s \<longleftrightarrow>
     (\<forall>p x t k. producers s p = PLoaded x t k \<longrightarrow>
        x \<noteq> 0 \<and> t = k mod NOS_SHM_QUEUE_SIZE \<and> k \<le> length (reserved s)) \<and>
     (\<forall>p x t k. producers s p = PChecked x t k \<longrightarrow>
        x \<noteq> 0 \<and> t = k mod NOS_SHM_QUEUE_SIZE \<and> k \<le> length (reserved s) \<and>
        k + 1 < length (delivered s) + NOS_SHM_QUEUE_SIZE) \<and>
     (\<forall>p x t. producers s p = PReserved x t \<longrightarrow>
        (\<exists>k. length (delivered s) \<le> k \<and> k < length (reserved s) \<and> t = k mod NOS_SHM_QUEUE_SIZE \<and>
             x = reserved s ! k \<and> slot s k = 0 \<and> (k = length (delivered s) \<longrightarrow> consumer s = CIdle))) \<and>
     (\<forall>p q x y t. producers s p = PReserved x t \<longrightarrow> producers s q = PReserved y t \<longrightarrow> p = q)"

definition cons_inv :: "mpsc_sys \<Rightarrow> bool" where
  "cons_inv s \<longleftrightarrow> (\<forall>x. consumer s = CTaken x \<longrightarrow>
     length (delivered s) < length (reserved s) \<and> x = reserved s ! length (delivered s) \<and>
     slot s (length (delivered s)) = 0)"

definition mpsc_inv :: "mpsc_sys \<Rightarrow> bool" where
  "mpsc_inv s \<longleftrightarrow> counts_inv s \<and> slots_inv s \<and> prods_inv s \<and> cons_inv s"

lemma set_prod_simps [simp]:
  "sq (set_prod p pc s) = sq s" "producers (set_prod p pc s) = (producers s)(p := pc)"
  "consumer (set_prod p pc s) = consumer s" "reserved (set_prod p pc s) = reserved s"
  "delivered (set_prod p pc s) = delivered s"
  by (simp_all add: set_prod_def)

lemma slot_simps [simp]: "slot (set_prod p pc s) = slot s"
  by (simp add: slot_def fun_eq_iff)

lemma queue_size_pos [simp]: "0 < NOS_SHM_QUEUE_SIZE"
  by (simp add: NOS_SHM_QUEUE_SIZE_def)

lemma window_inj:
  "(h :: nat) \<le> j \<Longrightarrow> j < h + N \<Longrightarrow> h \<le> k \<Longrightarrow> k < h + N \<Longrightarrow> j mod N = k mod N \<Longrightarrow> j = k"
proof (induction j k rule: linorder_wlog)
  case (le j k)
  then have "N dvd k - j" by (metis mod_eq_dvd_iff_nat)
  moreover have "k - j < N" using le by simp
  ultimately show ?case using le by (auto dest: nat_dvd_not_less)
qed auto

lemma mpsc_inv_init: "mpsc_inv mpsc_init"
  by (auto simp: mpsc_inv_def counts_inv_def slots_inv_def prods_inv_def cons_inv_def mpsc_init_def zero_queue_def
      slot_def)

text \<open>A step that only moves a producer between states in which it owns no slot.\<close>

lemma mpsc_inv_move:
  assumes inv: "mpsc_inv s" and pc: "\<And>x t. producers s p \<noteq> PReserved x t" "\<And>x t. pc \<noteq> PReserved x t"
    and ld: "\<And>x t k. pc = PLoaded x t k \<Longrightarrow> x \<noteq> 0 \<and> t = k mod NOS_SHM_QUEUE_SIZE \<and> k \<le> length (reserved s)"
    and ck: "\<And>x t k. pc = PChecked x t k \<Longrightarrow> x \<noteq> 0 \<and> t = k mod NOS_SHM_QUEUE_SIZE \<and> k \<le> length (reserved s) \<and>
        k + 1 < length (delivered s) + NOS_SHM_QUEUE_SIZE"
  shows "mpsc_inv (set_prod p pc s)"
proof -
  have "pending (set_prod p pc s) k" if "pending s k" for k
    using that pc(1) unfolding pending_def by (metis fun_upd_other set_prod_simps(2-5))
  then have "slots_inv (set_prod p pc s)"
    using inv by (auto simp: mpsc_inv_def slots_inv_def)
  moreover have "prods_inv (set_prod p pc s)"
  proof -
    have "prods_inv s" using inv by (simp add: mpsc_inv_def)
    then show ?thesis using pc ld ck by (simp add: prods_inv_def)
  qed
  ultimately show ?thesis using inv by (simp add: mpsc_inv_def counts_inv_def cons_inv_def)
qed

lemma inv_parts: "mpsc_inv s \<Longrightarrow> counts_inv s \<and> slots_inv s \<and> prods_inv s \<and> cons_inv s"
  by (simp add: mpsc_inv_def)

lemma mod_succ: "(a mod N + 1) mod N = (a + 1) mod (N :: nat)"
  by (simp add: mod_simps)

lemma prods_inv_reserved:
  "prods_inv s \<Longrightarrow> producers s p = PReserved x t \<Longrightarrow>
     \<exists>k. length (delivered s) \<le> k \<and> k < length (reserved s) \<and> t = k mod NOS_SHM_QUEUE_SIZE \<and>
         x = reserved s ! k \<and> slot s k = 0 \<and> (k = length (delivered s) \<longrightarrow> consumer s = CIdle)"
  unfolding prods_inv_def by blast

lemma mpsc_inv_cas:
  assumes inv: "mpsc_inv s" and p: "producers s p = PChecked x t k" "q_tail (sq s) = t"
    "length (reserved s) - k < NOS_SHM_QUEUE_SIZE"
  shows "mpsc_inv (set_prod p (PReserved x t)
      (s\<lparr>sq := (sq s)\<lparr>q_tail := (t + 1) mod NOS_SHM_QUEUE_SIZE\<rparr>, reserved := reserved s @ [x]\<rparr>))"
    (is "mpsc_inv ?s")
proof -
  let ?N = NOS_SHM_QUEUE_SIZE and ?T = "length (reserved s)" and ?H = "length (delivered s)"
  have c: "counts_inv s" and sl: "slots_inv s" and pr: "prods_inv s" and co: "cons_inv s"
    using inv by (auto simp: mpsc_inv_def)
  have k: "x \<noteq> 0" "t = k mod ?N" "k \<le> ?T" "k + 1 < ?H + ?N" using pr p(1) by (auto simp: prods_inv_def)
  have T: "t = ?T mod ?N" "?H \<le> ?T" "?T < ?H + ?N" using c p(2) by (auto simp: counts_inv_def)
  have kT: "k = ?T" by (rule window_inj[of k _ ?N]) (use k T p(3) in auto)
  have slot: "slot ?s = slot s" by (simp add: slot_def fun_eq_iff)
  have pend: "pending ?s j" if "pending s j" "j < ?T" for j
  proof -
    have same: "reserved ?s ! j = reserved s ! j" using that(2) by (simp add: nth_append)
    from that(1) consider (prod) q where "producers s q = PReserved (reserved s ! j) (j mod ?N)"
      | (cons) "j = ?H" "consumer s = CTaken (reserved s ! j)" by (auto simp: pending_def)
    then show ?thesis
    proof cases
      case prod
      then have "producers ?s q = PReserved (reserved s ! j) (j mod ?N)" using p(1) by auto
      then show ?thesis unfolding pending_def same by blast
    qed (use same in \<open>auto simp: pending_def\<close>)
  qed
  have pT: "pending ?s ?T" using T(1) by (auto simp: pending_def)
  have "slots_inv ?s"
    unfolding slots_inv_def slot
  proof (intro allI impI)
    fix j assume j: "length (delivered ?s) \<le> j" "j < length (delivered ?s) + ?N"
    then have "if j < ?T then slot s j = reserved s ! j \<or> slot s j = 0 \<and> pending s j else slot s j = 0"
      using sl by (simp add: slots_inv_def)
    then show "if j < length (reserved ?s) then slot s j = reserved ?s ! j \<or> slot s j = 0 \<and> pending ?s j
        else slot s j = 0"
      using pend[of j] pT by (cases "j = ?T") (auto simp: nth_append)
  qed
  moreover have "counts_inv ?s"
    using c T k kT by (auto simp: counts_inv_def mod_simps)
  moreover have "cons_inv ?s" using co unfolding cons_inv_def slot by (auto simp: nth_append)
  moreover have "prods_inv ?s"
  proof -
    have free: "producers s q \<noteq> PReserved y t" for q y
    proof
      assume "producers s q = PReserved y t"
      then obtain j where j: "?H \<le> j" "j < ?T" "t = j mod ?N" using prods_inv_reserved[OF pr] by blast
      then have "j = ?T" using window_inj[of ?H j ?N ?T] T by auto
      then show False using j(2) by simp
    qed
    have sT: "slot s ?T = 0" using sl T by (auto simp: slots_inv_def)
    have idle: "consumer s = CIdle" if "?T = ?H" using co that by (cases "consumer s") (auto simp: cons_inv_def)
    have own: "\<exists>k. ?H \<le> k \<and> k < Suc ?T \<and> t = k mod ?N \<and> x = (reserved s @ [x]) ! k \<and> slot s k = 0 \<and>
        (k = ?H \<longrightarrow> consumer s = CIdle)"
      using T sT idle by (intro exI[of _ ?T]) auto
    have others: "\<exists>k. ?H \<le> k \<and> k < Suc ?T \<and> u = k mod ?N \<and> y = (reserved s @ [x]) ! k \<and> slot s k = 0 \<and>
        (k = ?H \<longrightarrow> consumer s = CIdle)" if q: "producers s q = PReserved y u" for q y u
    proof -
      obtain j where "?H \<le> j" "j < ?T" "u = j mod ?N" "y = reserved s ! j" "slot s j = 0"
          "j = ?H \<longrightarrow> consumer s = CIdle"
        using prods_inv_reserved[OF pr] q by blast
      then show ?thesis by (intro exI[of _ j]) (simp add: nth_append)
    qed
    show ?thesis
      using pr own others free
      unfolding prods_inv_def slot by (auto intro: le_SucI split: if_splits)
  qed
  ultimately show ?thesis by (simp add: mpsc_inv_def)
qed

lemma mpsc_inv_publish:
  assumes inv: "mpsc_inv s" and p: "producers s p = PReserved x t"
  shows "mpsc_inv (set_prod p PIdle (s\<lparr>sq := (sq s)\<lparr>offsets := (offsets (sq s))[t := x]\<rparr>\<rparr>))" (is "mpsc_inv ?s")
proof -
  let ?N = NOS_SHM_QUEUE_SIZE and ?T = "length (reserved s)" and ?H = "length (delivered s)"
  have c: "counts_inv s" and sl: "slots_inv s" and pr: "prods_inv s" and co: "cons_inv s"
    using inv by (auto simp: mpsc_inv_def)
  obtain k where k: "?H \<le> k" "k < ?T" "t = k mod ?N" "x = reserved s ! k" "k = ?H \<longrightarrow> consumer s = CIdle"
    using prods_inv_reserved[OF pr p] by blast
  have T: "?T < ?H + ?N" "length (offsets (sq s)) = ?N" using c by (auto simp: counts_inv_def)
  have slot: "slot ?s j = (if j = k then x else slot s j)" if "?H \<le> j" "j < ?H + ?N" for j
  proof -
    have "j mod ?N = t \<longleftrightarrow> j = k" using window_inj[of ?H j ?N k] that k T by auto
    then show ?thesis using T by (cases "j = k") (auto simp: slot_def k(3) nth_list_update)
  qed
  have pend: "pending ?s j" if "pending s j" "j \<noteq> k" "?H \<le> j" "j < ?T" for j
  proof -
    have "producers s p \<noteq> PReserved y (j mod ?N)" for y
      using window_inj[of ?H j ?N k] that k T p by auto
    then show ?thesis using that(1) by (fastforce simp: pending_def)
  qed
  have "slots_inv ?s"
    using sl pend k slot T by (auto simp: slots_inv_def)
  moreover have "counts_inv ?s" using c by (simp add: counts_inv_def)
  moreover have "cons_inv ?s"
    using co slot[of ?H] k by (auto simp: cons_inv_def)
  moreover have "prods_inv ?s"
  proof -
    have others: "\<exists>j. ?H \<le> j \<and> j < ?T \<and> u = j mod ?N \<and> y = reserved s ! j \<and> slot ?s j = 0 \<and>
        (j = ?H \<longrightarrow> consumer s = CIdle)" if q: "producers s q = PReserved y u" "q \<noteq> p" for q y u
    proof -
      obtain j where j: "?H \<le> j" "j < ?T" "u = j mod ?N" "y = reserved s ! j" "slot s j = 0"
          "j = ?H \<longrightarrow> consumer s = CIdle"
        using prods_inv_reserved[OF pr] q by blast
      have "j \<noteq> k" using pr q p k(3) j(3) unfolding prods_inv_def by blast
      then show ?thesis using j slot[of j] T by (intro exI[of _ j]) simp
    qed
    show ?thesis using pr others by (simp add: prods_inv_def)
  qed
  ultimately show ?thesis by (simp add: mpsc_inv_def)
qed

lemma mpsc_inv_take:
  assumes inv: "mpsc_inv s" and t: "consumer s = CIdle" "q_head (sq s) \<noteq> q_tail (sq s)"
    "offsets (sq s) ! q_head (sq s) = x" "x \<noteq> 0"
  shows "mpsc_inv (s\<lparr>sq := (sq s)\<lparr>offsets := (offsets (sq s))[q_head (sq s) := 0]\<rparr>, consumer := CTaken x\<rparr>)"
    (is "mpsc_inv ?s")
proof -
  let ?N = NOS_SHM_QUEUE_SIZE and ?T = "length (reserved s)" and ?H = "length (delivered s)"
  have c: "counts_inv s" and sl: "slots_inv s" and pr: "prods_inv s"
    using inv by (auto simp: mpsc_inv_def)
  have H: "q_head (sq s) = ?H mod ?N" "?H < ?T" "?T < ?H + ?N" "length (offsets (sq s)) = ?N"
    using c t(2) by (auto simp: counts_inv_def le_less)
  have sH: "slot s ?H = x" using t(3) H(1) by (simp add: slot_def)
  have xH: "x = reserved s ! ?H" using sl sH t(4) H(2) by (auto simp: slots_inv_def)
  have slot: "slot ?s j = (if j = ?H then 0 else slot s j)" if "?H \<le> j" "j < ?H + ?N" for j
    using window_inj[of ?H j ?N ?H] that H by (auto simp: slot_def nth_list_update)
  have pH: "pending ?s ?H" by (simp add: pending_def xH)
  have pend: "pending ?s j" if "pending s j" for j
    using that t(1) by (auto simp: pending_def)
  have "slots_inv ?s"
    unfolding slots_inv_def
  proof (intro allI impI)
    fix j assume j: "length (delivered ?s) \<le> j" "j < length (delivered ?s) + ?N"
    then have "if j < ?T then slot s j = reserved s ! j \<or> slot s j = 0 \<and> pending s j else slot s j = 0"
      using sl by (simp add: slots_inv_def)
    then show "if j < length (reserved ?s) then slot ?s j = reserved ?s ! j \<or> slot ?s j = 0 \<and> pending ?s j
        else slot ?s j = 0"
      using slot[of j] j pend[of j] pH H(2) by (cases "j = ?H") auto
  qed
  moreover have "counts_inv ?s" using c by (simp add: counts_inv_def)
  moreover have "cons_inv ?s" using slot[of ?H] H xH by (simp add: cons_inv_def)
  moreover have "prods_inv ?s"
  proof -
    have own: "\<exists>j. ?H \<le> j \<and> j < ?T \<and> u = j mod ?N \<and> y = reserved s ! j \<and> slot ?s j = 0 \<and>
        (j = ?H \<longrightarrow> False)" if q: "producers s q = PReserved y u" for q y u
    proof -
      obtain j where j: "?H \<le> j" "j < ?T" "u = j mod ?N" "y = reserved s ! j" "slot s j = 0"
        using prods_inv_reserved[OF pr] q by blast
      have "j \<noteq> ?H" using j(5) sH t(4) by auto
      then show ?thesis using j slot[of j] H by (intro exI[of _ j]) simp
    qed
    show ?thesis using pr own by (simp add: prods_inv_def)
  qed
  ultimately show ?thesis by (simp add: mpsc_inv_def)
qed

lemma mpsc_inv_advance:
  assumes inv: "mpsc_inv s" and t: "consumer s = CTaken x"
  shows "mpsc_inv (s\<lparr>sq := (sq s)\<lparr>q_head := (q_head (sq s) + 1) mod NOS_SHM_QUEUE_SIZE\<rparr>, consumer := CIdle,
                  delivered := delivered s @ [x]\<rparr>)" (is "mpsc_inv ?s")
proof -
  let ?N = NOS_SHM_QUEUE_SIZE and ?T = "length (reserved s)" and ?H = "length (delivered s)"
  have c: "counts_inv s" and sl: "slots_inv s" and pr: "prods_inv s" and co: "cons_inv s"
    using inv by (auto simp: mpsc_inv_def)
  have x: "?H < ?T" "x = reserved s ! ?H" "slot s ?H = 0" using co t by (auto simp: cons_inv_def)
  have H: "?T < ?H + ?N" "delivered s = take ?H (reserved s)" using c by (auto simp: counts_inv_def)
  have slot: "slot ?s = slot s" by (simp add: slot_def fun_eq_iff)
  have last: "slot s (?H + ?N) = 0" using x(3) by (simp add: slot_def)
  have pend: "pending ?s j" if "pending s j" "Suc ?H \<le> j" for j
    using that by (auto simp: pending_def)
  have "delivered s @ [x] = take (Suc ?H) (reserved s)"
    using x(1,2) H(2) by (metis take_Suc_conv_app_nth)
  then have "counts_inv ?s" using c x(1) by (auto simp: counts_inv_def mod_simps)
  moreover have "slots_inv ?s"
    unfolding slots_inv_def
  proof (intro allI impI)
    fix j assume j: "length (delivered ?s) \<le> j" "j < length (delivered ?s) + ?N"
    show "if j < length (reserved ?s) then slot ?s j = reserved ?s ! j \<or> slot ?s j = 0 \<and> pending ?s j
        else slot ?s j = 0"
    proof (cases "j = ?H + ?N")
      case True
      then show ?thesis using last H(1) slot by simp
    next
      case False
      then have "if j < ?T then slot s j = reserved s ! j \<or> slot s j = 0 \<and> pending s j else slot s j = 0"
        using sl j by (simp add: slots_inv_def)
      then show ?thesis using pend[of j] j slot by auto
    qed
  qed
  moreover have "cons_inv ?s" by (simp add: cons_inv_def)
  moreover have "prods_inv ?s"
  proof -
    have own: "\<exists>j. Suc ?H \<le> j \<and> j < ?T \<and> u = j mod ?N \<and> y = reserved s ! j \<and> slot s j = 0"
      if q: "producers s q = PReserved y u" for q y u
    proof -
      obtain j where j: "?H \<le> j" "j < ?T" "u = j mod ?N" "y = reserved s ! j" "slot s j = 0"
          "j = ?H \<longrightarrow> consumer s = CIdle"
        using prods_inv_reserved[OF pr] q by blast
      then show ?thesis using t by (intro exI[of _ j]) (auto simp: Suc_le_eq le_less)
    qed
    have ck: "k < ?H + ?N" if "producers s q = PChecked y u k" for q y u k
      using pr that by (fastforce simp: prods_inv_def)
    show ?thesis
      using pr own ck unfolding prods_inv_def slot by auto
  qed
  ultimately show ?thesis by (simp add: mpsc_inv_def)
qed

lemma mpsc_inv_step: "mpsc_step s s' \<Longrightarrow> mpsc_inv s \<Longrightarrow> mpsc_inv s'"
proof (induction rule: mpsc_step.induct)
  case (load s p x)
  then have "q_tail (sq s) = length (reserved s) mod NOS_SHM_QUEUE_SIZE" by (simp add: mpsc_inv_def counts_inv_def)
  then show ?case using load by (intro mpsc_inv_move) auto
next
  case (busy s p x t k)
  then show ?case by (intro mpsc_inv_move) auto
next
  case (check s p x t k)
  have c: "counts_inv s" and k: "x \<noteq> 0" "t = k mod NOS_SHM_QUEUE_SIZE" "k \<le> length (reserved s)"
    using check by (auto simp: mpsc_inv_def prods_inv_def)
  have "k + 1 \<noteq> length (delivered s) + NOS_SHM_QUEUE_SIZE"
  proof
    assume "k + 1 = length (delivered s) + NOS_SHM_QUEUE_SIZE"
    then have "(t + 1) mod NOS_SHM_QUEUE_SIZE = length (delivered s) mod NOS_SHM_QUEUE_SIZE"
      by (simp only: k(2) mod_succ mod_add_self2)
    then show False using check(2) c by (simp add: counts_inv_def)
  qed
  moreover have "k + 1 \<le> length (delivered s) + NOS_SHM_QUEUE_SIZE" using k(3) c by (simp add: counts_inv_def)
  ultimately show ?case using check k by (intro mpsc_inv_move) auto
next
  case (cas_ok s p x t k)
  then show ?case by (intro mpsc_inv_cas)
next
  case (cas_fail s p x t k)
  then have "q_tail (sq s) = length (reserved s) mod NOS_SHM_QUEUE_SIZE" "x \<noteq> 0"
    by (auto simp: mpsc_inv_def counts_inv_def prods_inv_def)
  then show ?case using cas_fail by (intro mpsc_inv_move) auto
next
  case (publish s p x t)
  then show ?case by (intro mpsc_inv_publish)
next
  case (take s x)
  then show ?case by (intro mpsc_inv_take)
next
  case (advance s x)
  then show ?case by (intro mpsc_inv_advance)
qed

lemma mpsc_reach_inv: "mpsc_reach s \<Longrightarrow> mpsc_inv s"
  by (induction rule: mpsc_reach.induct) (auto intro: mpsc_inv_init mpsc_inv_step)

section \<open>Properties\<close>

inductive_cases mpsc_reach_cases: "mpsc_reach s"



end
