(* ===== verification/PoolSteps.thy ===== *)
theory PoolSteps
  imports ShmClaims
begin

text \<open>
  The free list of the shared block pool under concurrency (\<open>nos_shm_buffer_alloc\<close>,
  \<open>nos_shm_buffer_retain\<close> and \<open>nos_shm_buffer_release\<close> of \<open>nos_shm.c\<close>): any number of
  processes, one atomic access per step. An allocation loads the head, loads the next offset of
  that block, and swaps the head; a release that drops the last reference loads the
  head, stores it into the block, and swaps the head.

  The compare-and-swap of an allocation only sees that the head has the same offset again,
  not whether other processes took blocks in between. \<open>pops\<close> counts the successful
  allocations and a process remembers the count at its load: with \<open>strict\<close> the
  compare-and-swap also requires an unchanged count, without it the steps are those of the code.
\<close>

datatype pool_pc =
    Rest
  | AHead u32 nat
  | ANext u32 u32 nat
  | AWon u32
  | RFree u32
  | RHead u32 u32
  | RLink u32 u32

record pool_sys =
  mem :: nos_shm
  pcs :: "nat \<Rightarrow> pool_pc"
  pops :: nat

definition upd_block :: "u32 \<Rightarrow> (nos_shm_block \<Rightarrow> nos_shm_block) \<Rightarrow> nos_shm \<Rightarrow> nos_shm" where
  "upd_block o' f shm = shm\<lparr>blocks := (blocks shm)(o' := map_option f (blocks shm o'))\<rparr>"

definition set_pc :: "nat \<Rightarrow> pool_pc \<Rightarrow> pool_sys \<Rightarrow> pool_sys" where
  "set_pc p pc s = s\<lparr>pcs := (pcs s)(p := pc)\<rparr>"

inductive pool_step :: "bool \<Rightarrow> pool_sys \<Rightarrow> pool_sys \<Rightarrow> bool" for strict where
  a_load: "pcs s p = Rest \<Longrightarrow> free_list_head (mem s) = h \<Longrightarrow> h \<noteq> 0 \<Longrightarrow>
    pool_step strict s (set_pc p (AHead h (pops s)) s)"
| a_next: "pcs s p = AHead h k \<Longrightarrow> blocks (mem s) h = Some b \<Longrightarrow>
    pool_step strict s (set_pc p (ANext h (next_free b) k) s)"
| a_cas: "pcs s p = ANext h n k \<Longrightarrow> free_list_head (mem s) = h \<Longrightarrow> (strict \<longrightarrow> pops s = k) \<Longrightarrow>
    pool_step strict s (set_pc p (AWon h) (s\<lparr>mem := (mem s)\<lparr>free_list_head := n\<rparr>, pops := Suc (pops s)\<rparr>))"
| a_retry: "pcs s p = ANext h n k \<Longrightarrow> pool_step strict s (set_pc p Rest s)"
| a_ref: "pcs s p = AWon h \<Longrightarrow>
    pool_step strict s (set_pc p Rest (s\<lparr>mem :=
      upd_block h (\<lambda>b. b\<lparr>ref_count := 1, blk_buf := shm_buffer h (blk_buf b)\<rparr>)
        ((mem s)\<lparr>total_allocated := total_allocated (mem s) + 1\<rparr>)\<rparr>))"
| retain: "blocks (mem s) o' = Some b \<Longrightarrow> 0 < unat (ref_count b) \<Longrightarrow> unat (ref_count b) < 2 ^ 32 - 1 \<Longrightarrow>
    pool_step strict s (s\<lparr>mem := upd_block o' (\<lambda>b. b\<lparr>ref_count := ref_count b + 1\<rparr>) (mem s)\<rparr>)"
| r_drop: "blocks (mem s) o' = Some b \<Longrightarrow> 1 < unat (ref_count b) \<Longrightarrow>
    pool_step strict s (s\<lparr>mem := upd_block o' (\<lambda>b. b\<lparr>ref_count := ref_count b - 1\<rparr>) (mem s)\<rparr>)"
| r_last: "pcs s p = Rest \<Longrightarrow> blocks (mem s) o' = Some b \<Longrightarrow> ref_count b = 1 \<Longrightarrow>
    pool_step strict s (set_pc p (RFree o')
      (s\<lparr>mem := upd_block o' (\<lambda>b. b\<lparr>ref_count := ref_count b - 1\<rparr>) (mem s)\<rparr>))"
| r_load: "pcs s p = RFree o' \<Longrightarrow> pool_step strict s (set_pc p (RHead o' (free_list_head (mem s))) s)"
| r_store: "pcs s p = RHead o' h \<Longrightarrow>
    pool_step strict s (set_pc p (RLink o' h) (s\<lparr>mem := upd_block o' (\<lambda>b. b\<lparr>next_free := h\<rparr>) (mem s)\<rparr>))"
| r_cas: "pcs s p = RLink o' h \<Longrightarrow> free_list_head (mem s) = h \<Longrightarrow> blocks (mem s) o' = Some b \<Longrightarrow>
    pool_step strict s (set_pc p Rest (s\<lparr>mem :=
      (mem s)\<lparr>free_list_head := blk_offset b, total_allocated := total_allocated (mem s) - 1\<rparr>\<rparr>))"
| r_retry: "pcs s p = RLink o' h \<Longrightarrow> pool_step strict s (set_pc p (RFree o') s)"

inductive pool_reach :: "bool \<Rightarrow> pool_sys \<Rightarrow> pool_sys \<Rightarrow> bool" for strict s0 where
  start: "pool_reach strict s0 s0"
| more: "pool_reach strict s0 s \<Longrightarrow> pool_step strict s s' \<Longrightarrow> pool_reach strict s0 s'"

section \<open>Invariant\<close>

text \<open>The block a process has taken off the list or is about to put back.\<close>

fun pc_owns :: "pool_pc \<Rightarrow> u32 option" where
  "pc_owns (AWon h) = Some h"
| "pc_owns (RFree o') = Some o'"
| "pc_owns (RHead o' h) = Some o'"
| "pc_owns (RLink o' h) = Some o'"
| "pc_owns _ = None"

definition free_chain :: "pool_sys \<Rightarrow> u32 list \<Rightarrow> bool" where
  "free_chain s xs \<longleftrightarrow> chain (blocks (mem s)) (free_list_head (mem s)) xs \<and> distinct xs"

definition owns_inv :: "pool_sys \<Rightarrow> u32 list \<Rightarrow> bool" where
  "owns_inv s xs \<longleftrightarrow>
     (\<forall>p o'. pc_owns (pcs s p) = Some o' \<longrightarrow>
        o' \<notin> set xs \<and> (\<exists>b. blocks (mem s) o' = Some b \<and> ref_count b = 0) \<and>
        (\<forall>q. pc_owns (pcs s q) = Some o' \<longrightarrow> q = p))"

definition blocks_inv :: "pool_sys \<Rightarrow> u32 list \<Rightarrow> bool" where
  "blocks_inv s xs \<longleftrightarrow>
     (\<forall>o' b. blocks (mem s) o' = Some b \<longrightarrow> o' \<noteq> 0 \<and> blk_offset b = o' \<and>
        (ref_count b = 0 \<longrightarrow> o' \<in> set xs \<or> (\<exists>p. pc_owns (pcs s p) = Some o')))"

definition pcs_inv :: "pool_sys \<Rightarrow> u32 list \<Rightarrow> bool" where
  "pcs_inv s xs \<longleftrightarrow>
     (\<forall>p h k. pcs s p = AHead h k \<longrightarrow> k \<le> pops s \<and> (k = pops s \<longrightarrow> h \<in> set xs)) \<and>
     (\<forall>p h n k. pcs s p = ANext h n k \<longrightarrow> k \<le> pops s \<and>
        (k = pops s \<longrightarrow> h \<in> set xs \<and> (\<exists>b. blocks (mem s) h = Some b \<and> next_free b = n))) \<and>
     (\<forall>p o' h. pcs s p = RLink o' h \<longrightarrow> (\<exists>b. blocks (mem s) o' = Some b \<and> next_free b = h))"

definition psys_inv :: "pool_sys \<Rightarrow> u32 list \<Rightarrow> bool" where
  "psys_inv s xs \<longleftrightarrow> free_chain s xs \<and> owns_inv s xs \<and> blocks_inv s xs \<and> pcs_inv s xs"

lemma set_pc_simps [simp]:
  "mem (set_pc p pc s) = mem s" "pcs (set_pc p pc s) = (pcs s)(p := pc)" "pops (set_pc p pc s) = pops s"
  by (simp_all add: set_pc_def)

lemma upd_block_simps [simp]:
  "blocks (upd_block o' f shm) = (blocks shm)(o' := map_option f (blocks shm o'))"
  "free_list_head (upd_block o' f shm) = free_list_head shm"
  by (simp_all add: upd_block_def)

lemmas psys_parts = psys_inv_def free_chain_def owns_inv_def blocks_inv_def pcs_inv_def

text \<open>The blocks of the free list are not referenced, and the list goes through their \<open>next_free\<close>.\<close>

lemma psys_free:
  "psys_inv s xs \<Longrightarrow> x \<in> set xs \<Longrightarrow> \<exists>b. blocks (mem s) x = Some b \<and> ref_count b = 0"
proof -
  have "chain bs h ys \<Longrightarrow> x \<in> set ys \<Longrightarrow> \<exists>b. bs x = Some b \<and> ref_count b = 0" for bs h ys
    by (induction bs h ys rule: chain.induct) (auto split: option.splits)
  then show "psys_inv s xs \<Longrightarrow> x \<in> set xs \<Longrightarrow> \<exists>b. blocks (mem s) x = Some b \<and> ref_count b = 0"
    by (auto simp: psys_inv_def free_chain_def)
qed

lemma psys_owned:
  "psys_inv s xs \<Longrightarrow> pc_owns (pcs s p) = Some o' \<Longrightarrow>
     o' \<notin> set xs \<and> (\<exists>b. blocks (mem s) o' = Some b \<and> ref_count b = 0 \<and> blk_offset b = o') \<and> o' \<noteq> 0 \<and>
     (\<forall>q. pc_owns (pcs s q) = Some o' \<longrightarrow> q = p)"
  by (fastforce simp: psys_inv_def owns_inv_def blocks_inv_def)

text \<open>A step of a process that changes no memory and owns the same block before and after.\<close>

lemma psys_inv_move:
  assumes inv: "psys_inv s xs" and own: "pc_owns pc = pc_owns (pcs s p)"
    and pc: "\<And>h k. pc = AHead h k \<Longrightarrow> k \<le> pops s \<and> (k = pops s \<longrightarrow> h \<in> set xs)"
      "\<And>h n k. pc = ANext h n k \<Longrightarrow> k \<le> pops s \<and>
        (k = pops s \<longrightarrow> h \<in> set xs \<and> (\<exists>b. blocks (mem s) h = Some b \<and> next_free b = n))"
      "\<And>o' h. pc = RLink o' h \<Longrightarrow> \<exists>b. blocks (mem s) o' = Some b \<and> next_free b = h"
  shows "psys_inv (set_pc p pc s) xs"
proof -
  have owns: "pc_owns (pcs (set_pc p pc s) q) = pc_owns (pcs s q)" for q using own by simp
  have "pcs_inv (set_pc p pc s) xs"
    using inv pc by (simp add: psys_inv_def pcs_inv_def)
  then show ?thesis
    using inv unfolding psys_inv_def owns_inv_def blocks_inv_def owns by (simp add: free_chain_def)
qed

text \<open>A change of one block that is not in the free list, with the same owner and offset.\<close>

lemma psys_inv_block:
  assumes inv: "psys_inv s xs" and b: "blocks (mem s) o' = Some b" "o' \<notin> set xs"
    and f: "blk_offset (f b) = o'" "ref_count (f b) = 0 \<longleftrightarrow> (\<exists>p. pc_owns (pcs s p) = Some o')"
      "\<And>p h. pcs s p = RLink o' h \<Longrightarrow> next_free (f b) = h"
    and m: "blocks m = (blocks (mem s))(o' \<mapsto> f b)" "free_list_head m = free_list_head (mem s)"
  shows "psys_inv (s\<lparr>mem := m\<rparr>) xs"
proof -
  have "free_chain (s\<lparr>mem := m\<rparr>) xs"
    using inv b(2) m by (auto simp: psys_inv_def free_chain_def intro: chain_cong)
  moreover have "owns_inv (s\<lparr>mem := m\<rparr>) xs"
    using inv f(2) m by (auto simp: psys_inv_def owns_inv_def)
  moreover have "blocks_inv (s\<lparr>mem := m\<rparr>) xs"
    using inv f(1,2) b(1) m by (auto simp: psys_inv_def blocks_inv_def)
  moreover have "pcs_inv (s\<lparr>mem := m\<rparr>) xs"
    using inv f(3) m b(2) unfolding psys_inv_def pcs_inv_def by auto
  ultimately show ?thesis by (simp add: psys_inv_def)
qed

text \<open>The same with a process that takes over or gives up the block.\<close>

lemma psys_inv_change:
  assumes inv: "psys_inv s xs" and b: "blocks (mem s) o' = Some b" "o' \<notin> set xs"
    and own: "\<And>q. q \<noteq> p \<Longrightarrow> pc_owns (pcs s q) \<noteq> Some o'" "pc_owns (pcs s p) = None \<or> pc_owns (pcs s p) = Some o'"
      "pc_owns pc = None \<or> pc_owns pc = Some o'"
    and pc: "\<And>h k. pc \<noteq> AHead h k" "\<And>h n k. pc \<noteq> ANext h n k" "\<And>u h. pc = RLink u h \<Longrightarrow> next_free (f b) = h"
    and f: "blk_offset (f b) = o'" "ref_count (f b) = 0 \<longleftrightarrow> pc_owns pc = Some o'"
    and m: "blocks m = (blocks (mem s))(o' \<mapsto> f b)" "free_list_head m = free_list_head (mem s)"
  shows "psys_inv (set_pc p pc (s\<lparr>mem := m\<rparr>)) xs"
proof -
  let ?s = "set_pc p pc (s\<lparr>mem := m\<rparr>)"
  have owns: "pc_owns (pcs ?s q) = Some u \<longleftrightarrow> (if q = p then pc_owns pc = Some u else pc_owns (pcs s q) = Some u)" for q u
    by simp
  have mine: "pc_owns (pcs s p) = Some u \<Longrightarrow> u = o'" "pc_owns pc = Some u \<Longrightarrow> u = o'" for u
    using own(2,3) by auto
  have "free_chain ?s xs"
    using inv b(2) m by (auto simp: psys_inv_def free_chain_def intro: chain_cong)
  moreover have "owns_inv ?s xs"
    unfolding owns_inv_def
  proof (intro allI impI)
    fix q u assume q: "pc_owns (pcs ?s q) = Some u"
    show "u \<notin> set xs \<and> (\<exists>b. blocks (mem ?s) u = Some b \<and> ref_count b = 0) \<and>
        (\<forall>r. pc_owns (pcs ?s r) = Some u \<longrightarrow> r = q)"
    proof (cases "q = p")
      case True
      then have u: "u = o'" "pc_owns pc = Some o'" using q mine by auto
      then show ?thesis using True b(2) f(2) m own(1) by (auto split: if_splits)
    next
      case False
      then have q': "pc_owns (pcs s q) = Some u" using q by simp
      then have "u \<noteq> o'" using own(1)[OF False] by auto
      then show ?thesis using psys_owned[OF inv q'] m mine(2)[of u] by (auto split: if_splits)
    qed
  qed
  moreover have "blocks_inv ?s xs"
    unfolding blocks_inv_def
  proof (intro allI impI)
    fix u c assume c: "blocks (mem ?s) u = Some c"
    show "u \<noteq> 0 \<and> blk_offset c = u \<and> (ref_count c = 0 \<longrightarrow> u \<in> set xs \<or> (\<exists>q. pc_owns (pcs ?s q) = Some u))"
    proof (cases "u = o'")
      case True
      then have "c = f b" using c m by simp
      moreover have "o' \<noteq> 0" using inv b by (auto simp: psys_inv_def blocks_inv_def)
      ultimately show ?thesis using True f by (auto intro: exI[of _ p])
    next
      case False
      then have c': "blocks (mem s) u = Some c" using c m by simp
      then have "u \<noteq> 0 \<and> blk_offset c = u \<and> (ref_count c = 0 \<longrightarrow> u \<in> set xs \<or> (\<exists>q. pc_owns (pcs s q) = Some u))"
        using inv by (simp add: psys_inv_def blocks_inv_def)
      then show ?thesis using mine(1)[of u] False by (metis owns)
    qed
  qed
  moreover have "pcs_inv ?s xs"
  proof -
    have "o' \<noteq> u" if "q \<noteq> p" "pcs s q = RLink u h" for q u h using own(1)[OF that(1)] that(2) by auto
    moreover have "u = o'" if "pc = RLink u h" for u h using mine(2) that by auto
    ultimately show ?thesis
      using inv pc m b(2) unfolding psys_inv_def pcs_inv_def by auto
  qed
  ultimately show ?thesis by (simp add: psys_inv_def)
qed

lemma psys_inv_pop:
  assumes inv: "psys_inv s xs" and p: "pcs s p = ANext h n k" "free_list_head (mem s) = h" "pops s = k"
  shows "\<exists>ys. psys_inv (set_pc p (AWon h) (s\<lparr>mem := (mem s)\<lparr>free_list_head := n\<rparr>, pops := Suc (pops s)\<rparr>)) ys"
proof -
  let ?s = "set_pc p (AWon h) (s\<lparr>mem := (mem s)\<lparr>free_list_head := n\<rparr>, pops := Suc (pops s)\<rparr>)"
  obtain b where b: "h \<in> set xs" "blocks (mem s) h = Some b" "next_free b = n"
    using inv p unfolding psys_inv_def pcs_inv_def by blast
  then obtain ys where xs: "xs = h # ys"
    using inv p(2) by (cases xs) (auto simp: psys_inv_def free_chain_def)
  have ch: "chain (blocks (mem s)) n ys" "h \<notin> set ys" "distinct ys" "ref_count b = 0"
    using inv b by (auto simp: psys_inv_def free_chain_def xs)
  have free: "pc_owns (pcs s q) \<noteq> Some h" for q using psys_owned[OF inv] b(1) by blast
  have none: "pc_owns (pcs s p) = None" using p(1) by simp
  have "owns_inv ?s ys"
    unfolding owns_inv_def
  proof (intro allI impI)
    fix q u assume q: "pc_owns (pcs ?s q) = Some u"
    show "u \<notin> set ys \<and> (\<exists>b. blocks (mem ?s) u = Some b \<and> ref_count b = 0) \<and>
        (\<forall>r. pc_owns (pcs ?s r) = Some u \<longrightarrow> r = q)"
    proof (cases "q = p")
      case True
      then show ?thesis using q b(2) ch free by (auto split: if_splits)
    next
      case False
      then have q': "pc_owns (pcs s q) = Some u" using q by simp
      then have o: "u \<notin> set xs" "\<exists>b. blocks (mem s) u = Some b \<and> ref_count b = 0"
          "\<And>r. pc_owns (pcs s r) = Some u \<Longrightarrow> r = q"
        using psys_owned[OF inv q'] by blast+
      have "u \<noteq> h" using free q' by blast
      then have "r = q" if "pc_owns (pcs ?s r) = Some u" for r
        using that o(3)[of r] by (cases "r = p") auto
      then show ?thesis using o(1,2) by (auto simp: xs)
    qed
  qed
  moreover have "blocks_inv ?s ys"
    unfolding blocks_inv_def
  proof (intro allI impI)
    fix u c assume "blocks (mem ?s) u = Some c"
    then have "u \<noteq> 0 \<and> blk_offset c = u \<and> (ref_count c = 0 \<longrightarrow> u \<in> set xs \<or> (\<exists>q. pc_owns (pcs s q) = Some u))"
      using inv by (simp add: psys_inv_def blocks_inv_def)
    moreover have "\<exists>q. pc_owns (pcs ?s q) = Some u" if "pc_owns (pcs s q) = Some u" for q
      using that none by (intro exI[of _ q]) auto
    moreover have "\<exists>q. pc_owns (pcs ?s q) = Some h" by (intro exI[of _ p]) simp
    ultimately show "u \<noteq> 0 \<and> blk_offset c = u \<and> (ref_count c = 0 \<longrightarrow> u \<in> set ys \<or> (\<exists>q. pc_owns (pcs ?s q) = Some u))"
      unfolding xs by (metis set_ConsD)
  qed
  moreover have "pcs_inv ?s ys"
  proof -
    have A: "k \<le> pops s" if "pcs s q = AHead u k" for q u k using inv that by (simp add: psys_inv_def pcs_inv_def)
    have B: "k \<le> pops s" if "pcs s q = ANext u v k" for q u v k using inv that by (simp add: psys_inv_def pcs_inv_def)
    have C: "\<exists>b. blocks (mem s) u = Some b \<and> next_free b = v" if "pcs s q = RLink u v" for q u v
      using inv that by (simp add: psys_inv_def pcs_inv_def)
    have "pcs s q \<noteq> AHead u (Suc (pops s))" "pcs s q \<noteq> ANext u v (Suc (pops s))" for q u v
      using A[of q u "Suc (pops s)"] B[of q u v "Suc (pops s)"] by auto
    then show ?thesis unfolding pcs_inv_def using A B C by (simp add: le_SucI)
  qed
  ultimately show ?thesis using ch by (auto simp: psys_inv_def free_chain_def intro!: exI[of _ ys])
qed

lemma psys_inv_push:
  assumes inv: "psys_inv s xs" and p: "pcs s p = RLink o' h" "free_list_head (mem s) = h" "blocks (mem s) o' = Some b"
  shows "psys_inv (set_pc p Rest (s\<lparr>mem :=
      (mem s)\<lparr>free_list_head := blk_offset b, total_allocated := total_allocated (mem s) - 1\<rparr>\<rparr>)) (o' # xs)"
    (is "psys_inv ?s _")
proof -
  have own: "o' \<notin> set xs" "ref_count b = 0" "blk_offset b = o'" "o' \<noteq> 0" "\<And>q. pc_owns (pcs s q) = Some o' \<Longrightarrow> q = p"
    using psys_owned[OF inv, of p o'] p by auto
  have "next_free b = h" using inv p(1,3) by (fastforce simp: psys_inv_def pcs_inv_def)
  then have "free_chain ?s (o' # xs)"
    using inv own p by (auto simp: psys_inv_def free_chain_def)
  moreover have "owns_inv ?s (o' # xs)"
    using inv own(5) by (auto simp: psys_inv_def owns_inv_def)
  moreover have "blocks_inv ?s (o' # xs)"
    unfolding blocks_inv_def
  proof (intro allI impI)
    fix u c assume "blocks (mem ?s) u = Some c"
    then have "u \<noteq> 0 \<and> blk_offset c = u \<and> (ref_count c = 0 \<longrightarrow> u \<in> set xs \<or> (\<exists>q. pc_owns (pcs s q) = Some u))"
      using inv by (simp add: psys_inv_def blocks_inv_def)
    moreover have "u = o'" if "pc_owns (pcs s p) = Some u" for u using that p(1) by simp
    ultimately show "u \<noteq> 0 \<and> blk_offset c = u \<and>
        (ref_count c = 0 \<longrightarrow> u \<in> set (o' # xs) \<or> (\<exists>q. pc_owns (pcs ?s q) = Some u))"
      by auto (metis fun_upd_other)
  qed
  moreover have "pcs_inv ?s (o' # xs)"
    using inv unfolding psys_inv_def pcs_inv_def by auto
  ultimately show ?thesis by (simp add: psys_inv_def)
qed

lemma psys_referenced:
  assumes "psys_inv s xs" "blocks (mem s) o' = Some b" "ref_count b \<noteq> 0"
  shows "o' \<notin> set xs" "pc_owns (pcs s p) \<noteq> Some o'" "blk_offset b = o'" "pcs s p \<noteq> RLink o' h"
proof -
  show "o' \<notin> set xs" using psys_free[OF assms(1), of o'] assms(2,3) by auto
  show own: "pc_owns (pcs s p) \<noteq> Some o'" using psys_owned[OF assms(1), of p o'] assms(2,3) by auto
  show "blk_offset b = o'" using assms(1,2) by (simp add: psys_inv_def blocks_inv_def)
  show "pcs s p \<noteq> RLink o' h" using own by auto
qed

lemma psys_inv_step: "pool_step True s s' \<Longrightarrow> psys_inv s xs \<Longrightarrow> \<exists>ys. psys_inv s' ys"
proof (induction rule: pool_step.induct)
  case (a_load s p h)
  then have "h \<in> set xs" by (cases xs) (auto simp: psys_inv_def free_chain_def)
  then show ?case using a_load by (intro exI[of _ xs] psys_inv_move) auto
next
  case (a_next s p h k b)
  then have "k \<le> pops s \<and> (k = pops s \<longrightarrow> h \<in> set xs)" by (simp add: psys_inv_def pcs_inv_def)
  then show ?case using a_next by (intro exI[of _ xs] psys_inv_move) auto
next
  case (a_cas s p h n k)
  then show ?case by (intro psys_inv_pop) auto
next
  case (a_retry s p h n k)
  then show ?case by (intro exI[of _ xs] psys_inv_move) auto
next
  case (a_ref s p h)
  then obtain b where "h \<notin> set xs" "blocks (mem s) h = Some b" "blk_offset b = h"
      "\<And>q. pc_owns (pcs s q) = Some h \<Longrightarrow> q = p"
    using psys_owned[OF a_ref(2), of p h] by auto
  then show ?case
    using a_ref by (intro exI[of _ xs] psys_inv_change[where f = "\<lambda>b. b\<lparr>ref_count := 1, blk_buf := shm_buffer h (blk_buf b)\<rparr>"]) auto
next
  case (retain s o' b)
  then have ne: "ref_count b \<noteq> 0" by auto
  note ref = psys_referenced[OF retain(4,1) ne]
  have "ref_count b + 1 \<noteq> 0"
    using retain(3) unat_add_no_wrap[of "ref_count b" 1] by auto
  then show ?case
    using retain ref by (intro exI[of _ xs] psys_inv_block[where f = "\<lambda>b. b\<lparr>ref_count := ref_count b + 1\<rparr>"]) auto
next
  case (r_drop s o' b)
  then have ne: "ref_count b \<noteq> 0" "ref_count b - 1 \<noteq> 0" by auto
  note ref = psys_referenced[OF r_drop(3,1) ne(1)]
  show ?case
    using r_drop ref ne by (intro exI[of _ xs] psys_inv_block[where f = "\<lambda>b. b\<lparr>ref_count := ref_count b - 1\<rparr>"]) auto
next
  case (r_last s p o' b)
  then have "ref_count b \<noteq> 0" by auto
  note ref = psys_referenced[OF r_last(4,2) this]
  show ?case
    using r_last ref by (intro exI[of _ xs] psys_inv_change[where f = "\<lambda>b. b\<lparr>ref_count := ref_count b - 1\<rparr>"]) auto
next
  case (r_load s p o')
  then show ?case by (intro exI[of _ xs] psys_inv_move) auto
next
  case (r_store s p o' h)
  then obtain b where "o' \<notin> set xs" "blocks (mem s) o' = Some b" "blk_offset b = o'" "ref_count b = 0"
      "\<And>q. pc_owns (pcs s q) = Some o' \<Longrightarrow> q = p"
    using psys_owned[OF r_store(2), of p o'] by auto
  then show ?case
    using r_store by (intro exI[of _ xs] psys_inv_change[where f = "\<lambda>b. b\<lparr>next_free := h\<rparr>"]) auto
next
  case (r_cas s p o' h b)
  then show ?case by (intro exI[of _ "o' # xs"] psys_inv_push)
next
  case (r_retry s p o' h)
  then show ?case by (intro exI[of _ xs] psys_inv_move) auto
qed

lemma psys_reach_inv:
  "pool_reach True s0 s \<Longrightarrow> psys_inv s0 xs \<Longrightarrow> \<exists>ys. psys_inv s ys"
proof (induction rule: pool_reach.induct)
  case (more s s')
  then show ?case using psys_inv_step by blast
qed blast

definition pool_start :: "nos_shm \<Rightarrow> pool_sys" where
  "pool_start shm = \<lparr>mem = shm, pcs = (\<lambda>_. Rest), pops = 0\<rparr>"

lemma pool_start_inv: "blocks_ok shm xs \<Longrightarrow> psys_inv (pool_start shm) xs"
  by (auto simp: psys_parts pool_start_def blocks_ok_def)

section \<open>Schedules\<close>

text \<open>The steps as a function, to run a schedule.\<close>

datatype pool_act = Load nat | Next nat | Cas nat | StoreRef nat | Unref nat u32 | FreeLoad nat | FreeStore nat | FreeCas nat

fun pool_exec :: "pool_act \<Rightarrow> pool_sys \<Rightarrow> pool_sys option" where
  "pool_exec (Load p) s =
     (if pcs s p = Rest \<and> free_list_head (mem s) \<noteq> 0
      then Some (set_pc p (AHead (free_list_head (mem s)) (pops s)) s) else None)"
| "pool_exec (Next p) s =
     (case pcs s p of
        AHead h k \<Rightarrow> map_option (\<lambda>b. set_pc p (ANext h (next_free b) k) s) (blocks (mem s) h)
      | _ \<Rightarrow> None)"
| "pool_exec (Cas p) s =
     (case pcs s p of
        ANext h n k \<Rightarrow> if free_list_head (mem s) = h
          then Some (set_pc p (AWon h) (s\<lparr>mem := (mem s)\<lparr>free_list_head := n\<rparr>, pops := Suc (pops s)\<rparr>)) else None
      | _ \<Rightarrow> None)"
| "pool_exec (StoreRef p) s =
     (case pcs s p of
        AWon h \<Rightarrow> Some (set_pc p Rest (s\<lparr>mem :=
          upd_block h (\<lambda>b. b\<lparr>ref_count := 1, blk_buf := shm_buffer h (blk_buf b)\<rparr>)
            ((mem s)\<lparr>total_allocated := total_allocated (mem s) + 1\<rparr>)\<rparr>))
      | _ \<Rightarrow> None)"
| "pool_exec (Unref p o') s =
     (case blocks (mem s) o' of
        None \<Rightarrow> None
      | Some b \<Rightarrow> if pcs s p = Rest \<and> ref_count b = 1
          then Some (set_pc p (RFree o') (s\<lparr>mem := upd_block o' (\<lambda>b. b\<lparr>ref_count := ref_count b - 1\<rparr>) (mem s)\<rparr>))
          else None)"
| "pool_exec (FreeLoad p) s =
     (case pcs s p of RFree o' \<Rightarrow> Some (set_pc p (RHead o' (free_list_head (mem s))) s) | _ \<Rightarrow> None)"
| "pool_exec (FreeStore p) s =
     (case pcs s p of
        RHead o' h \<Rightarrow> Some (set_pc p (RLink o' h) (s\<lparr>mem := upd_block o' (\<lambda>b. b\<lparr>next_free := h\<rparr>) (mem s)\<rparr>))
      | _ \<Rightarrow> None)"
| "pool_exec (FreeCas p) s =
     (case pcs s p of
        RLink o' h \<Rightarrow> (case blocks (mem s) o' of
           None \<Rightarrow> None
         | Some b \<Rightarrow> if free_list_head (mem s) = h
             then Some (set_pc p Rest (s\<lparr>mem :=
               (mem s)\<lparr>free_list_head := blk_offset b, total_allocated := total_allocated (mem s) - 1\<rparr>\<rparr>))
             else None)
      | _ \<Rightarrow> None)"

lemma pool_exec_step: "pool_exec a s = Some s' \<Longrightarrow> pool_step False s s'"
  by (cases a) (auto split: if_splits pool_pc.splits option.splits intro: pool_step.intros)

fun pool_sched :: "pool_act list \<Rightarrow> pool_sys \<Rightarrow> pool_sys option" where
  "pool_sched [] s = Some s"
| "pool_sched (a # as) s = (case pool_exec a s of None \<Rightarrow> None | Some s' \<Rightarrow> pool_sched as s')"

lemma pool_sched_reach: "pool_sched as s = Some s' \<Longrightarrow> pool_reach False s0 s \<Longrightarrow> pool_reach False s0 s'"
  by (induction as s rule: pool_sched.induct)
    (auto split: option.splits intro: pool_reach.more pool_exec_step)

section \<open>Properties\<close>

text \<open>
  C29 The lock-free block pool under concurrency: starting from a consistent pool, whatever the
  interleaving of any number of processes, as long as no allocation succeeds between another
  allocation's load of the head and its successful compare-and-swap, a block a process takes off
  the list has no references and belongs to no other process, the free list is a duplicate-free
  chain of unreferenced blocks, and no block is lost.
\<close>

theorem shm_pool_interleaving_safe:
  assumes "shm_ok shm" "pool_reach True (pool_start shm) s"
  shows "((pcs s p = AWon o') \<longrightarrow> (shm_held (mem s) o' = 0 \<and> (\<forall>q. pc_owns (pcs s q) = Some o' \<longrightarrow> q = p))) \<and>
    (\<exists>xs. chain (blocks (mem s)) (free_list_head (mem s)) xs \<and> distinct xs \<and>
      (\<forall>o' \<in> set xs. shm_held (mem s) o' = 0 \<and> (\<forall>p. pc_owns (pcs s p) \<noteq> Some o')) \<and>
      (\<forall>o' \<in> dom (blocks (mem s)). 0 < shm_held (mem s) o' \<or> o' \<in> set xs \<or> (\<exists>p. pc_owns (pcs s p) = Some o')))"
proof (rule conjI[OF impI _])
  obtain xs where xs: "psys_inv s xs"
    using assms pool_start_inv psys_reach_inv unfolding shm_ok_def by blast
  show "shm_held (mem s) o' = 0 \<and> (\<forall>q. pc_owns (pcs s q) = Some o' \<longrightarrow> q = p)" if "pcs s p = AWon o'"
    using psys_owned[OF xs, of p o'] that by (auto simp: shm_held_def)
  have f1: "shm_held (mem s) o' = 0 \<and> (\<forall>p. pc_owns (pcs s p) \<noteq> Some o')" if "o' \<in> set xs" for o'
    using psys_free[OF xs that] psys_owned[OF xs] that by (fastforce simp: shm_held_def)
  have f2: "0 < shm_held (mem s) o' \<or> o' \<in> set xs \<or> (\<exists>p. pc_owns (pcs s p) = Some o')"
    if "blocks (mem s) o' = Some b" for o' b
    using xs that by (auto simp: psys_inv_def blocks_inv_def shm_held_def unat_gt_0)
  have f3: "chain (blocks (mem s)) (free_list_head (mem s)) xs" "distinct xs"
    using xs by (auto simp: psys_inv_def free_chain_def)
  show "\<exists>xs. chain (blocks (mem s)) (free_list_head (mem s)) xs \<and> distinct xs \<and>
      (\<forall>o' \<in> set xs. shm_held (mem s) o' = 0 \<and> (\<forall>p. pc_owns (pcs s p) \<noteq> Some o')) \<and>
      (\<forall>o' \<in> dom (blocks (mem s)). 0 < shm_held (mem s) o' \<or> o' \<in> set xs \<or> (\<exists>p. pc_owns (pcs s p) = Some o'))"
    by (intro exI[of _ xs] conjI ballI f3) (use f1 f2 in blast)+
qed

theorem shm_pool_interleaving_safe_witness:
  "\<exists>s. pool_reach True (pool_start fresh_shm) s \<and> pcs s 1 = AWon (block_at 0) \<and> shm_held (mem s) (block_at 0) = 0"
proof -
  let ?h = "block_at 0"
  have h: "free_list_head fresh_shm = ?h" "?h \<noteq> 0"
    using init_pool_ok(3) by (auto simp: fresh_shm_def block_at_def SHM_HEADER_SIZE_def)
  have "?h \<in> dom (blocks fresh_shm)" using init_pool_ok(2) by (auto simp: fresh_shm_def)
  then obtain b where b: "blocks fresh_shm ?h = Some b" by auto
  let ?s0 = "pool_start fresh_shm"
  let ?s1 = "set_pc 1 (AHead ?h 0) ?s0"
  let ?s2 = "set_pc 1 (ANext ?h (next_free b) 0) ?s1"
  let ?s3 = "set_pc 1 (AWon ?h) (?s2\<lparr>mem := (mem ?s2)\<lparr>free_list_head := next_free b\<rparr>, pops := Suc (pops ?s2)\<rparr>)"
  have st1: "pool_step True ?s0 ?s1"
    using pool_step.a_load[of ?s0 1 ?h True] h by (simp add: pool_start_def)
  have st2: "pool_step True ?s1 ?s2" by (rule pool_step.a_next) (use b in \<open>simp_all add: pool_start_def\<close>)
  have st3: "pool_step True ?s2 ?s3" by (rule pool_step.a_cas) (use h in \<open>simp_all add: pool_start_def\<close>)
  note reach = pool_reach.more[OF pool_reach.more[OF pool_reach.more[OF pool_reach.start st1] st2] st3]
  have "pcs ?s3 1 = AWon ?h" by simp
  then show ?thesis using shm_pool_interleaving_safe[OF fresh_shm_ok(1) reach, THEN conjunct1, rule_format] reach by blast
qed

definition three_blocks :: nos_shm where
  "three_blocks = \<lparr>magic = SHM_MAGIC, nodes = [], rx_queues = [], free_list_head = block_at 0, total_allocated = 0,
     blocks = init_blocks 3 (block_at 0) Map.empty\<rparr>"

lemma three_blocks_ok: "shm_ok three_blocks"
  using init_blocks_ok[of three_blocks 3] by (auto simp: shm_ok_def three_blocks_def)

text \<open>
  The compare-and-swap of an allocation is open to ABA: process 1 reads the head \<open>A\<close> and its
  successor \<open>B\<close>, process 2 allocates \<open>A\<close> and \<open>B\<close> and frees \<open>A\<close>, and the swap of process 1
  then succeeds and puts \<open>B\<close> back on the list although process 2 still holds it; the next
  allocation hands \<open>B\<close> out a second time.
\<close>

theorem shm_pool_aba:
  "\<exists>s. shm_ok three_blocks \<and> pool_reach False (pool_start three_blocks) s \<and>
     pcs s 1 = AWon (block_at 1) \<and> shm_held (mem s) (block_at 1) = 1"
proof -
  let ?as = "[Load 1, Next 1, Load 2, Next 2, Cas 2, StoreRef 2, Load 2, Next 2, Cas 2, StoreRef 2,
      Unref 2 (block_at 0), FreeLoad 2, FreeStore 2, FreeCas 2, Cas 1, StoreRef 1, Load 1, Next 1, Cas 1]"
  have run: "case pool_sched ?as (pool_start three_blocks) of None \<Rightarrow> False
      | Some s \<Rightarrow> pcs s 1 = AWon (block_at 1) \<and> shm_held (mem s) (block_at 1) = 1"
    by (simp add: pool_start_def three_blocks_def block_at_def SHM_HEADER_SIZE_def SHM_BLOCK_SIZE_def
        numeral_3_eq_3 zero_buffer_def shm_buffer_def upd_block_def set_pc_def shm_held_def)
  obtain s where "pool_sched ?as (pool_start three_blocks) = Some s" "pcs s 1 = AWon (block_at 1)"
      "shm_held (mem s) (block_at 1) = 1" using option_case_Some[OF run] by blast
  then show ?thesis using three_blocks_ok pool_sched_reach[OF _ pool_reach.start] by blast
qed

end
