(* ===== verification/KeyedTable.thy ===== *)
theory KeyedTable
  imports NosPrelude
begin

text \<open>
  The contract of the node's bounded tables, the service registry (\<open>nos_scheduler.c\<close>) and the
  tables of the key-value store (\<open>nos_kv.c\<close>): they behave like a finite map of at most
  \<open>cap\<close> keys, an insertion of a new key is refused exactly when the table is full, an insertion of a
  present key replaces its value, and a deletion is refused exactly when the key is absent. A
  run of such operations gives the same answers and the same map as on the map itself. \<open>ok\<close> says
  which entries a table can hold at all.
\<close>

datatype ('k, 'u) table_op = Insert 'k 'u | Delete 'k

text \<open>The answers are \<open>True\<close> for success.\<close>

fun table_run ::
  "('k \<Rightarrow> 'u \<Rightarrow> 't \<Rightarrow> 't option) \<Rightarrow> ('k \<Rightarrow> 't \<Rightarrow> 't option) \<Rightarrow> 't \<Rightarrow> ('k, 'u) table_op list \<Rightarrow> 't \<times> bool list" where
  "table_run ins del t [] = (t, [])"
| "table_run ins del t (op # ops) =
     (let r = (case op of Insert k u \<Rightarrow> ins k u t | Delete k \<Rightarrow> del k t);
          t' = (case r of None \<Rightarrow> t | Some t' \<Rightarrow> t');
          (q, bs) = table_run ins del t' ops
      in (q, (r \<noteq> None) # bs))"

definition map_insert :: "nat \<Rightarrow> ('u \<Rightarrow> 'v) \<Rightarrow> 'k \<Rightarrow> 'u \<Rightarrow> ('k \<rightharpoonup> 'v) \<Rightarrow> ('k \<rightharpoonup> 'v) option" where
  "map_insert cap stored k u m =
     (if m k = None \<and> card (dom m) \<ge> cap then None else Some (m(k \<mapsto> stored u)))"

definition map_delete :: "'k \<Rightarrow> ('k \<rightharpoonup> 'v) \<Rightarrow> ('k \<rightharpoonup> 'v) option" where
  "map_delete k m = (if m k = None then None else Some (m(k := None)))"

fun op_ok :: "('k \<Rightarrow> 'u \<Rightarrow> bool) \<Rightarrow> ('k, 'u) table_op \<Rightarrow> bool" where
  "op_ok P (Insert k u) = P k u"
| "op_ok P (Delete k) = True"

lemma op_ok_True: "op_ok (\<lambda>_ _. True) op"
  by (cases op) auto

locale keyed_table =
  fixes invar :: "'t \<Rightarrow> bool"
    and lookup :: "'t \<Rightarrow> 'k \<rightharpoonup> 'v"
    and cap :: "'t \<Rightarrow> nat"
    and stored :: "'u \<Rightarrow> 'v"
    and ok :: "'t \<Rightarrow> 'k \<Rightarrow> 'u \<Rightarrow> bool"
    and ins :: "'k \<Rightarrow> 'u \<Rightarrow> 't \<Rightarrow> 't option"
    and del :: "'k \<Rightarrow> 't \<Rightarrow> 't option"
  assumes ins_map: "invar t \<Longrightarrow> ok t k u \<Longrightarrow> map_option lookup (ins k u t) = map_insert (cap t) stored k u (lookup t)"
    and ins_invar: "invar t \<Longrightarrow> ok t k u \<Longrightarrow> ins k u t = Some t' \<Longrightarrow> invar t' \<and> cap t' = cap t \<and> ok t' = ok t"
    and del_map: "invar t \<Longrightarrow> map_option lookup (del k t) = map_delete k (lookup t)"
    and del_invar: "invar t \<Longrightarrow> del k t = Some t' \<Longrightarrow> invar t' \<and> cap t' = cap t \<and> ok t' = ok t"
begin

lemma ins_None: "invar t \<Longrightarrow> ok t k u \<Longrightarrow> ins k u t = None \<longleftrightarrow> lookup t k = None \<and> card (dom (lookup t)) \<ge> cap t"
  using ins_map[of t k u] by (cases "ins k u t") (auto simp: map_insert_def split: if_splits)

lemma ins_Some: "invar t \<Longrightarrow> ok t k u \<Longrightarrow> ins k u t = Some t' \<Longrightarrow> lookup t' = (lookup t)(k \<mapsto> stored u)"
  using ins_map[of t k u] by (auto simp: map_insert_def split: if_splits)

lemma del_None: "invar t \<Longrightarrow> del k t = None \<longleftrightarrow> lookup t k = None"
  using del_map[of t k] by (cases "del k t") (auto simp: map_delete_def split: if_splits)

lemma del_Some: "invar t \<Longrightarrow> del k t = Some t' \<Longrightarrow> lookup t' = (lookup t)(k := None)"
  using del_map[of t k] by (auto simp: map_delete_def split: if_splits)

lemma run_refines:
  "invar t \<Longrightarrow> list_all (op_ok (ok t)) ops \<Longrightarrow> table_run ins del t ops = (q, bs) \<Longrightarrow>
     invar q \<and> cap q = cap t \<and> table_run (map_insert (cap t) stored) map_delete (lookup t) ops = (lookup q, bs)"
proof (induction ops arbitrary: t bs)
  case (Cons op ops)
  let ?r = "case op of Insert k u \<Rightarrow> ins k u t | Delete k \<Rightarrow> del k t"
  let ?t = "case ?r of None \<Rightarrow> t | Some t' \<Rightarrow> t'"
  obtain bs' where bs': "table_run ins del ?t ops = (q, bs')" "bs = (?r \<noteq> None) # bs'"
    using Cons.prems(3) by (auto simp: Let_def split: prod.splits)
  let ?m = "case op of Insert k u \<Rightarrow> map_insert (cap t) stored k u (lookup t) | Delete k \<Rightarrow> map_delete k (lookup t)"
  have m: "?m = map_option lookup ?r"
    using ins_map[OF Cons.prems(1)] del_map[OF Cons.prems(1)] Cons.prems(2) by (cases op) auto
  have inv: "invar ?t" "cap ?t = cap t" "ok ?t = ok t"
    using ins_invar[OF Cons.prems(1)] del_invar[OF Cons.prems(1)] Cons.prems(1,2)
    by (auto split: option.splits table_op.splits)
  have l: "(case ?m of None \<Rightarrow> lookup t | Some m' \<Rightarrow> m') = lookup ?t"
    unfolding m by (cases ?r) auto
  have "(?m \<noteq> None) = (?r \<noteq> None)" unfolding m by simp
  then show ?case
    using Cons.IH[OF inv(1) _ bs'(1)] Cons.prems(2) inv(2,3) l bs'(2) by (simp add: Let_def)
qed simp

end

end
