(* ===== verification/Registry.thy ===== *)
theory Registry
  imports KeyedTable NodeState
begin

text \<open>
  The service registry of a node (\<open>src/core/nos_scheduler.c\<close>: at most 64 services, each
  bound to a local component and its thread or to a remote node) and the registry of embedded
  services (\<open>src/core/nos_service.c\<close>: at most 32 name and function-table pairs).
\<close>

section \<open>Service registry\<close>

definition MAX_SERVICES :: nat where "MAX_SERVICES = 64"

record service_entry =
  service_id :: u32
  local_provider :: ptr
  local_thread :: "thread_ref option"
  remote_node_name :: string
  remote_uds_path :: string
  is_remote :: bool

record service_registry =
  g_service_registry :: "service_entry list"
  g_service_count :: nat

definition zero_service_entry :: service_entry where
  "zero_service_entry = \<lparr>service_id = 0, local_provider = NULL, local_thread = None, remote_node_name = [],
     remote_uds_path = [], is_remote = False\<rparr>"

definition empty_registry :: service_registry where
  "empty_registry = \<lparr>g_service_registry = replicate MAX_SERVICES zero_service_entry, g_service_count = 0\<rparr>"

definition find_service_entry :: "u32 \<Rightarrow> service_registry \<Rightarrow> nat option" where
  "find_service_entry sid reg = find_slot (\<lambda>e. service_id e = sid) (g_service_count reg) (g_service_registry reg)"

text \<open>The entry to fill: the existing one, or the next free one (\<open>None\<close> when all are in use).\<close>

definition claim_entry :: "u32 \<Rightarrow> service_registry \<Rightarrow> (nat \<times> service_registry) option" where
  "claim_entry sid reg =
     (case find_service_entry sid reg of
        Some i \<Rightarrow> Some (i, reg)
      | None \<Rightarrow> if g_service_count reg \<ge> MAX_SERVICES then None
                else Some (g_service_count reg, reg\<lparr>g_service_count := g_service_count reg + 1\<rparr>))"

definition upd_entry :: "nat \<Rightarrow> (service_entry \<Rightarrow> service_entry) \<Rightarrow> service_registry \<Rightarrow> service_registry" where
  "upd_entry i f reg = reg\<lparr>g_service_registry := (g_service_registry reg)[i := f (g_service_registry reg ! i)]\<rparr>"

definition nos_service_register_provider_bind ::
  "u32 \<Rightarrow> ptr \<Rightarrow> thread_ref option \<Rightarrow> service_registry \<Rightarrow> nos_status \<times> service_registry" where
  "nos_service_register_provider_bind sid provider thread reg =
     (case claim_entry sid reg of
        None \<Rightarrow> (NOS_ERR, reg)
      | Some (i, reg) \<Rightarrow>
          (NOS_OK, upd_entry i (\<lambda>e. e\<lparr>service_id := sid, local_provider := provider, local_thread := thread,
                                    is_remote := False\<rparr>) reg))"

text \<open>A \<open>NULL\<close> name or path is \<open>None\<close> and leaves the field as it is.\<close>

definition nos_service_register_remote_ex ::
  "u32 \<Rightarrow> string option \<Rightarrow> string option \<Rightarrow> service_registry \<Rightarrow> nos_status \<times> service_registry" where
  "nos_service_register_remote_ex sid node_name uds_path reg =
     (case claim_entry sid reg of
        None \<Rightarrow> (NOS_ERR, reg)
      | Some (i, reg) \<Rightarrow>
          (NOS_OK, upd_entry i (\<lambda>e.
             let e = e\<lparr>service_id := sid, is_remote := True\<rparr>;
                 e = (case node_name of Some s \<Rightarrow> e\<lparr>remote_node_name := strncpy_field 32 s\<rparr> | None \<Rightarrow> e)
             in (case uds_path of Some s \<Rightarrow> e\<lparr>remote_uds_path := strncpy_field 108 s\<rparr> | None \<Rightarrow> e)) reg))"

definition nos_service_register_remote :: "u32 \<Rightarrow> string option \<Rightarrow> service_registry \<Rightarrow> nos_status \<times> service_registry" where
  "nos_service_register_remote sid uds_path reg = nos_service_register_remote_ex sid (Some ''Unknown'') uds_path reg"

definition nos_service_unregister_provider :: "u32 \<Rightarrow> service_registry \<Rightarrow> nos_status \<times> service_registry" where
  "nos_service_unregister_provider sid reg =
     (case find_service_entry sid reg of
        None \<Rightarrow> (NOS_ERR, reg)
      | Some i \<Rightarrow>
          (NOS_OK, reg\<lparr>g_service_registry := move_last (g_service_registry reg) (g_service_count reg) i,
                       g_service_count := g_service_count reg - 1\<rparr>))"

section \<open>The registry as a table of routes\<close>

text \<open>What \<open>nos_service_msg_send\<close> reads of an entry.\<close>

datatype route = Local ptr "thread_ref option" | Remote string string

definition entry_route :: "service_entry \<Rightarrow> route" where
  "entry_route e = (if is_remote e then Remote (remote_node_name e) (remote_uds_path e)
                    else Local (local_provider e) (local_thread e))"

definition reg_route :: "service_registry \<Rightarrow> u32 \<Rightarrow> route option" where
  "reg_route reg sid = map_option (\<lambda>i. entry_route (g_service_registry reg ! i)) (find_service_entry sid reg)"

definition reg_ok :: "service_registry \<Rightarrow> bool" where
  "reg_ok reg \<longleftrightarrow> length (g_service_registry reg) = MAX_SERVICES \<and> g_service_count reg \<le> MAX_SERVICES \<and>
     distinct (map service_id (take (g_service_count reg) (g_service_registry reg)))"

fun reg_insert :: "u32 \<Rightarrow> route \<Rightarrow> service_registry \<Rightarrow> service_registry option" where
  "reg_insert sid (Local p t) reg =
     (case nos_service_register_provider_bind sid p t reg of (NOS_OK, reg') \<Rightarrow> Some reg' | _ \<Rightarrow> None)"
| "reg_insert sid (Remote n u) reg =
     (case nos_service_register_remote_ex sid (Some n) (Some u) reg of (NOS_OK, reg') \<Rightarrow> Some reg' | _ \<Rightarrow> None)"

definition reg_delete :: "u32 \<Rightarrow> service_registry \<Rightarrow> service_registry option" where
  "reg_delete sid reg = (case nos_service_unregister_provider sid reg of (NOS_OK, reg') \<Rightarrow> Some reg' | _ \<Rightarrow> None)"

fun stored_route :: "route \<Rightarrow> route" where
  "stored_route (Local p t) = Local p t"
| "stored_route (Remote n u) = Remote (strncpy_field 32 n) (strncpy_field 108 u)"

lemma reg_find:
  assumes "reg_ok reg"
  shows "find_service_entry sid reg = Some i \<longleftrightarrow> i < g_service_count reg \<and> service_id (g_service_registry reg ! i) = sid"
    and "find_service_entry sid reg = None \<longleftrightarrow> sid \<notin> set (map service_id (take (g_service_count reg) (g_service_registry reg)))"
proof -
  let ?n = "g_service_count reg" and ?es = "g_service_registry reg"
  have len: "?n \<le> length ?es" using assms by (simp add: reg_ok_def)
  have inj: "i = j" if "i < ?n" "j < ?n" "service_id (?es ! i) = service_id (?es ! j)" for i j
    using assms that len nth_eq_iff_index_eq[of "map service_id (take ?n ?es)" i j] by (simp add: reg_ok_def)
  show "find_service_entry sid reg = Some i \<longleftrightarrow> i < ?n \<and> service_id (?es ! i) = sid"
  proof
    assume "find_service_entry sid reg = Some i"
    then show "i < ?n \<and> service_id (?es ! i) = sid" by (auto simp: find_service_entry_def dest: find_slot_Some)
  next
    assume i: "i < ?n \<and> service_id (?es ! i) = sid"
    then obtain j where j: "find_service_entry sid reg = Some j"
      using find_slot_None[OF len, of "\<lambda>e. service_id e = sid"] unfolding find_service_entry_def by auto
    then have "j < ?n \<and> service_id (?es ! j) = sid" by (auto simp: find_service_entry_def dest: find_slot_Some)
    then show "find_service_entry sid reg = Some i" using i j inj[of i j] by simp
  qed
  show "find_service_entry sid reg = None \<longleftrightarrow> sid \<notin> set (map service_id (take ?n ?es))"
  proof -
    have "set (map service_id (take ?n ?es)) = {service_id (?es ! i) | i. i < ?n}"
      using len by (force simp: in_set_conv_nth)
    then show ?thesis
      using find_slot_None[OF len, of "\<lambda>e. service_id e = sid"] by (auto simp: find_service_entry_def)
  qed
qed

lemma reg_route_dom:
  assumes "reg_ok reg"
  shows "dom (reg_route reg) = set (map service_id (take (g_service_count reg) (g_service_registry reg)))"
    and "card (dom (reg_route reg)) = g_service_count reg"
proof -
  show d: "dom (reg_route reg) = set (map service_id (take (g_service_count reg) (g_service_registry reg)))"
    using reg_find(2)[OF assms] by (auto simp: reg_route_def dom_def)
  show "card (dom (reg_route reg)) = g_service_count reg"
    unfolding d using assms by (simp add: reg_ok_def distinct_card del: set_map)
qed

text \<open>Filling the entry that \<open>claim_entry\<close> gives with the service's id.\<close>

lemma claim_fill:
  assumes ok: "reg_ok reg" and c: "claim_entry sid reg = Some (i, reg')"
    and f: "\<And>e. service_id (f e) = sid"
  shows "reg_ok (upd_entry i f reg')"
    "reg_route (upd_entry i f reg') = (reg_route reg)(sid \<mapsto> entry_route (f (g_service_registry reg ! i)))"
proof -
  let ?n = "g_service_count reg" and ?es = "g_service_registry reg"
  define r where "r = upd_entry i f reg'"
  have same: "g_service_registry reg' = ?es" and i: "i < g_service_count reg'" "g_service_count reg' \<le> MAX_SERVICES"
    and old: "find_service_entry sid reg = Some i \<and> reg' = reg \<or>
      find_service_entry sid reg = None \<and> i = ?n \<and> g_service_count reg' = Suc ?n"
    using c ok reg_find(1)[OF ok] by (auto simp: claim_entry_def reg_ok_def split: option.splits if_splits)
  have len: "length ?es = MAX_SERVICES" using ok by (simp add: reg_ok_def)
  have es: "g_service_registry r = ?es[i := f (?es ! i)]" "g_service_count r = g_service_count reg'"
    by (simp_all add: r_def upd_entry_def same)
  have ok': "reg_ok r"
  proof (cases "find_service_entry sid reg")
    case (Some j)
    then have j: "j = i" "reg' = reg" using old by auto
    then have "i < ?n" "service_id (?es ! i) = sid" using reg_find(1)[OF ok, of sid i] Some by auto
    then have "map service_id (take ?n (?es[i := f (?es ! i)])) = map service_id (take ?n ?es)"
      using len f i j(2) by (intro nth_equalityI) (auto simp: nth_list_update)
    then show ?thesis using ok j(2) by (simp add: reg_ok_def es)
  next
    case None
    then have n: "i = ?n" "g_service_count reg' = Suc ?n" "?n < MAX_SERVICES" using old i by auto
    have "take (Suc ?n) (?es[?n := f (?es ! ?n)]) = take ?n ?es @ [f (?es ! ?n)]"
      using n len by (simp add: take_Suc_conv_app_nth)
    then show ?thesis
      using ok n None f by (auto simp: reg_ok_def es reg_find(2)[OF ok])
  qed
  then show "reg_ok (upd_entry i f reg')" by (simp add: r_def)
  have "reg_route r = (reg_route reg)(sid \<mapsto> entry_route (f (?es ! i)))"
  proof
    fix k
    show "reg_route r k = ((reg_route reg)(sid \<mapsto> entry_route (f (?es ! i)))) k"
    proof (cases "k = sid")
      case True
      have "find_service_entry sid r = Some i"
        using reg_find(1)[OF ok'] i es len f by simp
      then show ?thesis using True i es len by (simp add: reg_route_def)
    next
      case False
      have "find_service_entry k r = Some j \<longleftrightarrow> find_service_entry k reg = Some j" for j
        unfolding reg_find(1)[OF ok'] reg_find(1)[OF ok] es
        using old i len f False reg_find(1)[OF ok] by (cases "j = i") (auto simp: nth_list_update)
      then have "find_service_entry k r = find_service_entry k reg" by (metis option.exhaust)
      moreover have "j \<noteq> i" if "find_service_entry k reg = Some j" for j
        using that old reg_find(1)[OF ok] False by auto
      ultimately show ?thesis
        using False by (cases "find_service_entry k reg") (auto simp: reg_route_def es)
    qed
  qed
  then show "reg_route (upd_entry i f reg') = (reg_route reg)(sid \<mapsto> entry_route (f (?es ! i)))" by (simp add: r_def)
qed

lemma claim_None:
  "reg_ok reg \<Longrightarrow> claim_entry sid reg = None \<longleftrightarrow> reg_route reg sid = None \<and> MAX_SERVICES \<le> card (dom (reg_route reg))"
  by (auto simp: claim_entry_def reg_route_def reg_route_dom(2) split: option.splits)

lemma unregister_ok:
  assumes ok: "reg_ok reg" and i: "find_service_entry sid reg = Some i"
  defines "reg' \<equiv> reg\<lparr>g_service_registry := move_last (g_service_registry reg) (g_service_count reg) i,
                       g_service_count := g_service_count reg - 1\<rparr>"
  shows "reg_ok reg'" "reg_route reg' = (reg_route reg)(sid := None)"
proof -
  let ?n = "g_service_count reg" and ?es = "g_service_registry reg"
  have i': "i < ?n" "service_id (?es ! i) = sid" and len: "?n \<le> length ?es"
    using i reg_find(1)[OF ok] ok by (auto simp: reg_ok_def)
  have ids: "map service_id (take (?n - 1) (move_last ?es ?n i)) = take (?n - 1) (move_last (map service_id ?es) ?n i)"
    using i' len by (simp add: move_last_def take_map[symmetric] map_update)
  have "distinct (take (?n - 1) (move_last (map service_id ?es) ?n i))"
    using ok i' len by (intro distinct_take_move_last) (auto simp: reg_ok_def take_map)
  then show ok': "reg_ok reg'"
    using ok ids by (auto simp: reg_ok_def reg'_def)
  have dist: "service_id (?es ! j) = sid \<longleftrightarrow> j = i" if "j < ?n" for j
    using reg_find(1)[OF ok, of sid j] i that by auto
  show "reg_route reg' = (reg_route reg)(sid := None)"
  proof
    fix k
    have f': "find_service_entry k reg' = Some j \<longleftrightarrow> j < ?n - 1 \<and>
        service_id (if j = i then ?es ! (?n - 1) else ?es ! j) = k" for j
      unfolding reg_find(1)[OF ok'] using i' len by (auto simp: reg'_def nth_move_last)
    show "reg_route reg' k = ((reg_route reg)(sid := None)) k"
    proof (cases "k = sid")
      case True
      have "find_service_entry k reg' \<noteq> Some j" for j
        unfolding f' using dist[of j] dist[of "?n - 1"] True by auto
      then have "find_service_entry k reg' = None" by (metis option.exhaust)
      then show ?thesis using True by (simp add: reg_route_def)
    next
      case False
      show ?thesis
      proof (cases "find_service_entry k reg")
        case None
        then have none: "\<And>j. j < ?n \<Longrightarrow> service_id (?es ! j) \<noteq> k" using reg_find(1)[OF ok, of k] by auto
        have "find_service_entry k reg' \<noteq> Some j" for j
          unfolding f' using none[of j] none[of "?n - 1"] by auto
        then have "find_service_entry k reg' = None" by (metis option.exhaust)
        then show ?thesis using None False by (simp add: reg_route_def)
      next
        case (Some j)
        then have j: "j < ?n" "service_id (?es ! j) = k" "j \<noteq> i" using reg_find(1)[OF ok] i' False by auto
        let ?j = "if j = ?n - 1 then i else j"
        have "find_service_entry k reg' = Some ?j" unfolding f' using j i' by auto
        moreover have "g_service_registry reg' ! ?j = ?es ! j"
          using j i' len by (auto simp: reg'_def nth_move_last)
        ultimately show ?thesis using Some False by (simp add: reg_route_def)
      qed
    qed
  qed
qed

interpretation registry: keyed_table reg_ok reg_route "\<lambda>_. MAX_SERVICES" stored_route "\<lambda>_ _ _. True" reg_insert reg_delete
proof (unfold_locales, goal_cases)
  case (1 reg sid r)
  show ?case
  proof (cases "claim_entry sid reg")
    case None
    then show ?thesis
      using claim_None[OF 1(1), of sid]
      by (cases r) (auto simp: nos_service_register_provider_bind_def nos_service_register_remote_ex_def map_insert_def)
  next
    case (Some x)
    then obtain i reg' where x: "claim_entry sid reg = Some (i, reg')" by (cases x) auto
    then have "\<not> (reg_route reg sid = None \<and> MAX_SERVICES \<le> card (dom (reg_route reg)))"
      using claim_None[OF 1(1), of sid] by simp
    then show ?thesis
      using claim_fill(2)[OF 1(1) x] x
      by (cases r) (auto simp: nos_service_register_provider_bind_def nos_service_register_remote_ex_def
          map_insert_def entry_route_def Let_def)
  qed
next
  case (2 reg sid r reg')
  then show ?case
    using claim_fill(1)[OF 2(1)]
    by (cases r) (auto simp: nos_service_register_provider_bind_def nos_service_register_remote_ex_def Let_def
        split: option.splits)
next
  case (3 reg sid)
  show ?case
    using unregister_ok(2)[OF 3, of sid]
    by (cases "find_service_entry sid reg")
      (auto simp: reg_delete_def nos_service_unregister_provider_def map_delete_def reg_route_def)
next
  case (4 reg sid reg')
  then show ?case
    using unregister_ok(1)[OF 4(1), of sid]
    by (auto simp: reg_delete_def nos_service_unregister_provider_def split: option.splits)
qed

text \<open>The same facts for the operations themselves, which ignore the status.\<close>

lemma unregister_route:
  assumes "reg_ok reg"
  shows "reg_ok (snd (nos_service_unregister_provider sid reg)) \<and>
    reg_route (snd (nos_service_unregister_provider sid reg)) = (reg_route reg)(sid := None)"
  using unregister_ok[OF assms, of sid] assms
  by (cases "find_service_entry sid reg") (auto simp: nos_service_unregister_provider_def reg_route_def)

lemma bind_route:
  assumes "reg_ok reg"
  shows "reg_ok (snd (nos_service_register_provider_bind sid p t reg)) \<and>
    reg_route (snd (nos_service_register_provider_bind sid p t reg)) =
      (if reg_route reg sid = None \<and> MAX_SERVICES \<le> card (dom (reg_route reg)) then reg_route reg else (reg_route reg)(sid \<mapsto> Local p t))"
  using registry.ins_map[OF assms, of sid "Local p t"] registry.ins_invar[OF assms, of sid "Local p t"] assms
    claim_None[OF assms, of sid]
  by (cases "claim_entry sid reg") (auto simp: nos_service_register_provider_bind_def map_insert_def split: if_splits)

lemma remote_route:
  assumes "reg_ok reg"
  shows "reg_ok (snd (nos_service_register_remote_ex sid (Some n) (Some u) reg)) \<and>
    reg_route (snd (nos_service_register_remote_ex sid (Some n) (Some u) reg)) =
      (if reg_route reg sid = None \<and> MAX_SERVICES \<le> card (dom (reg_route reg)) then reg_route reg
       else (reg_route reg)(sid \<mapsto> Remote (strncpy_field 32 n) (strncpy_field 108 u)))"
  using registry.ins_map[OF assms, of sid "Remote n u"] registry.ins_invar[OF assms, of sid "Remote n u"] assms
    claim_None[OF assms, of sid]
  by (cases "claim_entry sid reg") (auto simp: nos_service_register_remote_ex_def map_insert_def Let_def split: if_splits)

section \<open>Embedded services\<close>

definition MAX_EMBEDDED_SERVICES :: nat where "MAX_EMBEDDED_SERVICES = 32"

record embedded_service =
  service_name :: string
  service_ops :: ptr

record embedded_registry =
  g_embedded_registry :: "embedded_service list"
  g_embedded_count :: nat

definition empty_embedded :: embedded_registry where
  "empty_embedded = \<lparr>g_embedded_registry = replicate MAX_EMBEDDED_SERVICES \<lparr>service_name = [], service_ops = NULL\<rparr>,
                      g_embedded_count = 0\<rparr>"

definition nos_embedded_service_register :: "string \<Rightarrow> ptr \<Rightarrow> embedded_registry \<Rightarrow> nos_status \<times> embedded_registry" where
  "nos_embedded_service_register name p reg =
     (if g_embedded_count reg \<ge> MAX_EMBEDDED_SERVICES then (NOS_ERR, reg)
      else (NOS_OK, reg\<lparr>g_embedded_registry :=
                         (g_embedded_registry reg)[g_embedded_count reg := \<lparr>service_name = name, service_ops = p\<rparr>],
                        g_embedded_count := g_embedded_count reg + 1\<rparr>))"

definition nos_embedded_service_get :: "string \<Rightarrow> embedded_registry \<Rightarrow> ptr" where
  "nos_embedded_service_get name reg =
     (case find_slot (\<lambda>e. service_name e = name) (g_embedded_count reg) (g_embedded_registry reg) of
        None \<Rightarrow> NULL
      | Some i \<Rightarrow> service_ops (g_embedded_registry reg ! i))"

definition embedded_ok :: "embedded_registry \<Rightarrow> bool" where
  "embedded_ok reg \<longleftrightarrow> length (g_embedded_registry reg) = MAX_EMBEDDED_SERVICES \<and>
     g_embedded_count reg \<le> MAX_EMBEDDED_SERVICES"

definition embedded_names :: "embedded_registry \<Rightarrow> string set" where
  "embedded_names reg = service_name ` set (take (g_embedded_count reg) (g_embedded_registry reg))"

lemma find_from_append:
  "find_from i p (xs @ ys) =
     (case find_from i p xs of Some k \<Rightarrow> Some k | None \<Rightarrow> find_from (i + length xs) p ys)"
  by (induction xs arbitrary: i) (auto split: option.splits)

lemma embedded_get_register:
  fixes n :: string and p :: ptr
  assumes ok: "embedded_ok reg" and room: "g_embedded_count reg < MAX_EMBEDDED_SERVICES"
  defines "reg' \<equiv> snd (nos_embedded_service_register n p reg)"
  shows "embedded_ok reg'" "g_embedded_count reg' = Suc (g_embedded_count reg)"
    "embedded_names reg' = insert n (embedded_names reg)"
    "nos_embedded_service_get m reg' =
       (if m \<in> embedded_names reg then nos_embedded_service_get m reg else if m = n then p else NULL)"
proof -
  let ?k = "g_embedded_count reg" and ?es = "g_embedded_registry reg"
  have len: "?k < length ?es" using ok room by (simp add: embedded_ok_def)
  have tk: "take (Suc ?k) (?es[?k := \<lparr>service_name = n, service_ops = p\<rparr>]) = take ?k ?es @ [\<lparr>service_name = n, service_ops = p\<rparr>]"
    using len by (simp add: take_Suc_conv_app_nth)
  show "embedded_ok reg'" "g_embedded_count reg' = Suc ?k" "embedded_names reg' = insert n (embedded_names reg)"
    using ok room tk by (auto simp: reg'_def nos_embedded_service_register_def embedded_ok_def embedded_names_def)
  let ?P = "\<lambda>e :: embedded_service. service_name e = m"
  have f: "find_slot ?P (g_embedded_count reg') (g_embedded_registry reg') =
      (case find_slot ?P ?k ?es of Some k \<Rightarrow> Some k | None \<Rightarrow> if n = m then Some ?k else None)"
    using room len tk
    by (auto simp: reg'_def nos_embedded_service_register_def find_slot_def find_from_append min_def split: option.splits)
  show "nos_embedded_service_get m reg' =
       (if m \<in> embedded_names reg then nos_embedded_service_get m reg else if m = n then p else NULL)"
  proof (cases "find_slot ?P ?k ?es")
    case None
    then have "m \<notin> embedded_names reg"
      by (auto simp: find_slot_def find_from_None embedded_names_def)
    then show ?thesis
      using f None room len by (auto simp: nos_embedded_service_get_def reg'_def nos_embedded_service_register_def)
  next
    case (Some k)
    then have k: "k < ?k" "?P (?es ! k)" by (auto dest: find_slot_Some)
    then have "?es ! k \<in> set (take ?k ?es)" using len by (auto simp: in_set_conv_nth intro!: exI[of _ k])
    then have "m \<in> embedded_names reg" using k(2) by (auto simp: embedded_names_def)
    then show ?thesis
      using f Some k room by (simp add: nos_embedded_service_get_def reg'_def nos_embedded_service_register_def)
  qed
qed

section \<open>Properties\<close>

text \<open>
  C3 The service registry refines a map of at most 64 routes: any sequence of local and remote
  registrations and unregistrations gives the same answers and, for every service id, the same
  route as on the map, where a registration replaces the route of its service and fails
  only for the 65th service, and an unregistration fails only for an unknown one.
\<close>

theorem service_registry_refines_map:
  assumes "reg_ok reg" "table_run reg_insert reg_delete reg ops = (reg', bs)"
  shows "(reg_ok reg') \<and>
    (table_run (map_insert MAX_SERVICES stored_route) map_delete (reg_route reg) ops = (reg_route reg', bs))"
  using registry.run_refines[OF assms(1) _ assms(2)] by (auto simp: list_all_iff op_ok_True)

lemma empty_registry_ok: "reg_ok empty_registry" "reg_route empty_registry = Map.empty"
  by (simp_all add: reg_ok_def empty_registry_def reg_route_def find_service_entry_def find_slot_def fun_eq_iff)

theorem service_registry_refines_map_witness:
  "\<exists>reg. table_run reg_insert reg_delete empty_registry
      [Insert 5 (Local 9 None), Insert 6 (Remote ''B'' ''/tmp/b''), Delete 5, Delete 7] = (reg, [True, True, True, False]) \<and>
    reg_route reg = [6 \<mapsto> Remote ''B'' ''/tmp/b'']"
proof -
  let ?ops = "[Insert 5 (Local 9 None), Insert 6 (Remote ''B'' ''/tmp/b''), Delete 5, Delete 7]"
  obtain reg bs where r: "table_run reg_insert reg_delete empty_registry ?ops = (reg, bs)" by (metis prod.exhaust)
  show ?thesis
    using service_registry_refines_map[OF empty_registry_ok(1) r, THEN conjunct2] r
    by (auto simp: empty_registry_ok(2) map_insert_def map_delete_def MAX_SERVICES_def)
qed

text \<open>
  Embedded services: after a registration in a registry with room, a lookup finds the first
  function table registered under the name. A second registration of a name is accepted but
  has no effect on lookups: the first table is returned for ever.
\<close>

theorem nos_embedded_service_first_wins:
  assumes "embedded_ok reg" "g_embedded_count reg < MAX_EMBEDDED_SERVICES"
    "nos_embedded_service_register n p reg = (st, reg')"
  shows "(st = NOS_OK) \<and>
    (embedded_ok reg') \<and>
    (nos_embedded_service_get m reg' =
       (if m \<in> embedded_names reg then nos_embedded_service_get m reg else if m = n then p else NULL))"
  using embedded_get_register[OF assms(1,2), where n = n and p = p] assms(2,3)
  by (auto simp: nos_embedded_service_register_def split: if_splits)

theorem nos_embedded_service_first_wins_witness:
  "\<exists>reg. nos_embedded_service_register ''hal'' 20 (snd (nos_embedded_service_register ''hal'' 10 empty_embedded)) = (NOS_OK, reg) \<and>
     nos_embedded_service_get ''hal'' reg = 10"
proof -
  let ?r1 = "snd (nos_embedded_service_register ''hal'' 10 empty_embedded)"
  have ok: "embedded_ok empty_embedded" "g_embedded_count empty_embedded < MAX_EMBEDDED_SERVICES"
    "embedded_names empty_embedded = {}"
    by (simp_all add: empty_embedded_def embedded_ok_def embedded_names_def MAX_EMBEDDED_SERVICES_def)
  note g = embedded_get_register[OF ok(1,2), where n = "''hal''" and p = 10]
  have room: "g_embedded_count ?r1 < MAX_EMBEDDED_SERVICES" using g(2) by (simp add: empty_embedded_def MAX_EMBEDDED_SERVICES_def)
  obtain st reg where r: "nos_embedded_service_register ''hal'' 20 ?r1 = (st, reg)" by (metis prod.exhaust)
  show ?thesis
    using nos_embedded_service_first_wins[OF g(1) room r, THEN conjunct1]
      nos_embedded_service_first_wins[OF g(1) room r, where m = "''hal''", THEN conjunct2, THEN conjunct2] r g(3,4) ok(3) by simp
qed

end
