(* ===== verification/Messages.thy ===== *)
theory Messages
  imports Registry ShmClaims TimerService
begin

text \<open>
  Messages between components of a node (\<open>src/core/nos_scheduler.c\<close>): sending a buffer to the
  thread of its destination service, and the loop with which a thread hands the buffers of its
  queue to the providers. A node extends the timer node with the service registry, both buffer
  pools, the components and the message each buffer carries.

  Every buffer in a queue carries one reference of its own: \<open>local_send\<close> takes it and the
  receiving loop drops it after the handler returns.
\<close>

section \<open>State\<close>

datatype nos_comp_status =
    NOS_COMP_ST_LOADED | NOS_COMP_ST_INITED | NOS_COMP_ST_ACTIVE | NOS_COMP_ST_STOPPED | NOS_COMP_ST_ERROR

text \<open>The handlers of a component are function pointers (0 is \<open>NULL\<close>).\<close>

record nos_component =
  comp_id :: u32
  comp_name :: string
  comp_status :: nos_comp_status
  comp_init :: ptr
  comp_start :: ptr
  comp_stop :: ptr
  comp_on_msg :: ptr

text \<open>\<open>nos_service_msg_t\<close> with the payload bytes that follow it in the buffer.\<close>

record nos_service_msg =
  msg_magic :: u16
  msg_version :: u16
  dst_service :: u32
  src_component :: u32
  msg_code :: u32
  msg_seq :: u32
  msg_flags :: u32
  payload_len :: u32
  msg_payload :: string

record node = tnode +
  registry :: service_registry
  bufs :: bufpool
  shmem :: nos_shm
  comps :: "ptr \<rightharpoonup> nos_component"
  msgs :: "buf_ref \<Rightarrow> nos_service_msg"

section \<open>References\<close>

text \<open>
  \<open>nos_buffer_retain\<close> and \<open>nos_buffer_release\<close> test \<open>flags\<close>, which is 1 exactly in the
  buffers that \<open>nos_shm_buffer_alloc\<close> hands out.
\<close>

definition nos_buffer_retain :: "buf_ref \<Rightarrow> 'z node_scheme \<Rightarrow> 'z node_scheme" where
  "nos_buffer_retain b s =
     (case b of
        PoolBuf i j \<Rightarrow> s\<lparr>bufs := pool_retain (i, j) (bufs s)\<rparr>
      | ShmBuf o' \<Rightarrow> s\<lparr>shmem := nos_shm_buffer_retain o' (shmem s)\<rparr>)"

definition nos_buffer_release :: "buf_ref \<Rightarrow> 'z node_scheme \<Rightarrow> 'z node_scheme" where
  "nos_buffer_release b s =
     (case b of
        PoolBuf i j \<Rightarrow> s\<lparr>bufs := pool_release (i, j) (bufs s)\<rparr>
      | ShmBuf o' \<Rightarrow> s\<lparr>shmem := nos_shm_buffer_release o' (shmem s)\<rparr>)"

text \<open>Both allocators: \<open>Inl (size, headroom)\<close> for the local pool, \<open>Inr size\<close> for the shared one.\<close>

definition node_alloc :: "u32 \<times> u32 + u32 \<Rightarrow> 'z node_scheme \<Rightarrow> (buf_ref \<times> 'z node_scheme) option" where
  "node_alloc a s =
     (case a of
        Inl (sz, hr) \<Rightarrow> map_option (\<lambda>((i, j), p). (PoolBuf i j, s\<lparr>bufs := p\<rparr>)) (nos_buffer_alloc sz hr (bufs s))
      | Inr sz \<Rightarrow> map_option (\<lambda>(o', m). (ShmBuf o', s\<lparr>shmem := m\<rparr>)) (nos_shm_buffer_alloc sz (shmem s)))"

definition buf_held :: "'z node_scheme \<Rightarrow> buf_ref \<Rightarrow> nat" where
  "buf_held s b = (case b of PoolBuf i j \<Rightarrow> pool_held (bufs s) (i, j) | ShmBuf o' \<Rightarrow> shm_held (shmem s) o')"

definition bufs_ok :: "'z node_scheme \<Rightarrow> bool" where
  "bufs_ok s \<longleftrightarrow> pool_ok (bufs s) \<and> shm_ok (shmem s)"

lemma buf_held_upd:
  "pool_held p = (pool_held (bufs s))((i, j) := n) \<Longrightarrow> buf_held (s\<lparr>bufs := p\<rparr>) = (buf_held s)(PoolBuf i j := n)"
  "shm_held m = (shm_held (shmem s))(o' := n) \<Longrightarrow> buf_held (s\<lparr>shmem := m\<rparr>) = (buf_held s)(ShmBuf o' := n)"
  by (auto simp: buf_held_def fun_eq_iff split: buf_ref.splits)

interpretation node_bufs: ref_pool buf_held bufs_ok "2 ^ 31 - 1" node_alloc nos_buffer_retain nos_buffer_release
proof (unfold_locales, goal_cases)
  case (1 s a b s')
  show ?case
  proof (cases a)
    case (Inl x)
    then obtain i j p where p: "nos_buffer_alloc (fst x) (snd x) (bufs s) = Some ((i, j), p)" "b = PoolBuf i j" "s' = s\<lparr>bufs := p\<rparr>"
      using 1(2) by (cases x) (auto simp: node_alloc_def)
    show ?thesis
      using buf_pool.alloc_Some[of "bufs s" x "(i, j)" p] 1(1) p
      by (simp add: bufs_ok_def buf_held_upd(1)) (simp add: buf_held_def)
  next
    case (Inr x)
    then obtain o' m where p: "nos_shm_buffer_alloc x (shmem s) = Some (o', m)" "b = ShmBuf o'" "s' = s\<lparr>shmem := m\<rparr>"
      using 1(2) by (auto simp: node_alloc_def)
    show ?thesis
      using shm_pool.alloc_Some[of "shmem s" x o' m] 1(1) p
      by (simp add: bufs_ok_def buf_held_upd(2)) (simp add: buf_held_def)
  qed
next
  case (2 s b)
  then show ?case
    using buf_pool.retain_held[of "bufs s"] shm_pool.retain_held[of "shmem s"]
    by (cases b) (auto simp: bufs_ok_def nos_buffer_retain_def buf_held_upd, auto simp: buf_held_def buf_held_upd)
next
  case (3 s b)
  then show ?case
    using buf_pool.release_held[of "bufs s"] shm_pool.release_held[of "shmem s"]
    by (cases b) (auto simp: bufs_ok_def nos_buffer_release_def buf_held_upd, auto simp: buf_held_def buf_held_upd)
qed simp

lemma retain_frame [simp]:
  "threads (nos_buffer_retain b s) = threads s" "registry (nos_buffer_retain b s) = registry s"
  "comps (nos_buffer_retain b s) = comps s" "msgs (nos_buffer_retain b s) = msgs s"
  by (simp_all add: nos_buffer_retain_def split: buf_ref.splits)

lemma release_frame [simp]:
  "threads (nos_buffer_release b s) = threads s" "registry (nos_buffer_release b s) = registry s"
  "comps (nos_buffer_release b s) = comps s" "msgs (nos_buffer_release b s) = msgs s"
  by (simp_all add: nos_buffer_release_def split: buf_ref.splits)

lemma upd_thread_frame [simp]:
  "registry (upd_thread r f s) = registry s" "comps (upd_thread r f s) = comps s" "msgs (upd_thread r f s) = msgs s"
  "bufs (upd_thread r f s) = bufs s" "shmem (upd_thread r f s) = shmem s"
  "buf_held (upd_thread r f s) = buf_held s" "bufs_ok (upd_thread r f s) = bufs_ok s"
  by (simp_all add: upd_thread_def buf_held_def[abs_def] bufs_ok_def)

section \<open>The message queue of a thread\<close>

definition thread_enq :: "buf_ref \<Rightarrow> nos_thread \<Rightarrow> nos_thread option" where
  "thread_enq buf th =
     (let next_tail = (tail th + 1) mod MAX_QUEUE_SIZE in
      if next_tail = head th then None
      else Some (th\<lparr>msg_queue := (msg_queue th)[tail th := Some buf], tail := next_tail\<rparr>))"

text \<open>Taking the head entry; a \<open>NULL\<close> entry would be \<open>Some (None, th)\<close>.\<close>

definition thread_pop :: "nos_thread \<Rightarrow> (buf_ref option \<times> nos_thread) option" where
  "thread_pop th =
     (if head th \<noteq> tail th
      then Some (msg_queue th ! head th, th\<lparr>head := (head th + 1) mod MAX_QUEUE_SIZE\<rparr>) else None)"

definition thread_deq :: "nos_thread \<Rightarrow> (buf_ref \<times> nos_thread) option" where
  "thread_deq th = (case thread_pop th of Some (Some b, th') \<Rightarrow> Some (b, th') | _ \<Rightarrow> None)"

definition thread_slots :: "nos_thread \<Rightarrow> buf_ref option list" where
  "thread_slots th = ring_items MAX_QUEUE_SIZE (msg_queue th) (head th) (tail th)"

definition thread_msgs :: "nos_thread \<Rightarrow> buf_ref list" where
  "thread_msgs th = map the (thread_slots th)"

definition queue_ok :: "nos_thread \<Rightarrow> bool" where
  "queue_ok th \<longleftrightarrow> ring_ok MAX_QUEUE_SIZE (msg_queue th) (head th) (tail th) \<and> None \<notin> set (thread_slots th)"

lemma queue_ok_cong:
  "msg_queue th' = msg_queue th \<Longrightarrow> head th' = head th \<Longrightarrow> tail th' = tail th \<Longrightarrow>
     queue_ok th' = queue_ok th \<and> thread_msgs th' = thread_msgs th"
  by (simp add: queue_ok_def thread_msgs_def thread_slots_def)

lemma thread_pop_Some:
  assumes "queue_ok th" "head th \<noteq> tail th"
  shows "\<exists>b th'. thread_pop th = Some (Some b, th') \<and> th' = th\<lparr>head := ring_succ MAX_QUEUE_SIZE (head th)\<rparr> \<and>
     queue_ok th' \<and> thread_msgs th = b # thread_msgs th'"
proof -
  let ?th = "th\<lparr>head := ring_succ MAX_QUEUE_SIZE (head th)\<rparr>"
  have ok: "ring_ok MAX_QUEUE_SIZE (msg_queue th) (head th) (tail th)" using assms(1) by (simp add: queue_ok_def)
  have "thread_slots th = msg_queue th ! head th # thread_slots ?th"
    using ring_items_pop[OF ok assms(2)] by (simp add: thread_slots_def)
  moreover from this obtain b where "msg_queue th ! head th = Some b"
    using assms(1) by (cases "msg_queue th ! head th") (auto simp: queue_ok_def)
  ultimately show ?thesis
    using assms ring_ok_pop[OF ok] by (auto simp: thread_pop_def queue_ok_def thread_msgs_def ring_succ_def)
qed

lemma thread_pop_None: "queue_ok th \<Longrightarrow> thread_pop th = None \<longleftrightarrow> thread_msgs th = []"
  by (auto simp: thread_pop_def thread_msgs_def thread_slots_def queue_ok_def ring_items_empty ring_ok_def)

interpretation msg_ring: bounded_fifo thread_msgs queue_ok "MAX_QUEUE_SIZE - 1" "\<lambda>_. True" thread_enq thread_deq
proof (unfold_locales, goal_cases)
  case (1 th)
  then show ?case using ring_used_less by (fastforce simp: thread_msgs_def thread_slots_def queue_ok_def ring_ok_def)
next
  case (2 th b)
  then show ?case
    using ring_full_used[of "head th" MAX_QUEUE_SIZE "tail th"]
    by (auto simp: thread_enq_def Let_def queue_ok_def thread_msgs_def thread_slots_def ring_ok_def ring_succ_def)
next
  case (3 th b th')
  then have s: "ring_succ MAX_QUEUE_SIZE (tail th) \<noteq> head th"
    "th' = th\<lparr>msg_queue := (msg_queue th)[tail th := Some b], tail := ring_succ MAX_QUEUE_SIZE (tail th)\<rparr>"
    by (auto simp: thread_enq_def Let_def ring_succ_def split: if_splits)
  have ok: "ring_ok MAX_QUEUE_SIZE (msg_queue th) (head th) (tail th)" using 3(1) by (simp add: queue_ok_def)
  have "thread_slots th' = thread_slots th @ [Some b]"
    using ring_items_push[OF ok s(1), of "Some b"] by (simp add: thread_slots_def s(2))
  then show ?case using 3(1) ring_ok_push[OF ok] by (simp add: queue_ok_def thread_msgs_def s(2))
next
  case (4 th)
  then show ?case
    using thread_pop_Some[OF 4] thread_pop_None[OF 4]
    by (cases "head th = tail th") (auto simp: thread_deq_def thread_pop_def)
next
  case (5 th b th')
  then have "head th \<noteq> tail th" by (auto simp: thread_deq_def thread_pop_def split: if_splits)
  then show ?case using thread_pop_Some[OF 5(1)] 5(2) by (auto simp: thread_deq_def)
qed

section \<open>Sending\<close>

definition nos_transport_local_send :: "buf_ref \<Rightarrow> thread_ref option \<Rightarrow> 'z node_scheme \<Rightarrow> nos_status \<times> 'z node_scheme" where
  "nos_transport_local_send buf target s =
     (case target of
        None \<Rightarrow> (NOS_ERR, s)
      | Some r \<Rightarrow>
          (case threads s r of
             None \<Rightarrow> (NOS_ERR, s)
           | Some th \<Rightarrow>
               (case thread_enq buf th of
                  None \<Rightarrow> (NOS_ERR_BUSY, s)
                | Some th' \<Rightarrow>
                    (let s = nos_buffer_retain buf s;
                         s = upd_thread r (\<lambda>_. th') s
                     in (NOS_OK, if is_sleeping th' then upd_thread r eventfd_write s else s)))))"

text \<open>\<open>remote\<close> is \<open>nos_transport_remote_uds_send\<close>; a \<open>NULL\<close> buffer is \<open>None\<close>.\<close>

definition nos_service_msg_send ::
  "(buf_ref \<Rightarrow> string \<Rightarrow> string \<Rightarrow> 'z node_scheme \<Rightarrow> nos_status \<times> 'z node_scheme) \<Rightarrow> buf_ref option
     \<Rightarrow> 'z node_scheme \<Rightarrow> nos_status \<times> 'z node_scheme" where
  "nos_service_msg_send remote buf s =
     (case buf of
        None \<Rightarrow> (NOS_ERR, s)
      | Some b \<Rightarrow>
          (case find_service_entry (dst_service (msgs s b)) (registry s) of
             None \<Rightarrow> (NOS_ERR, s)
           | Some i \<Rightarrow>
               (let entry = g_service_registry (registry s) ! i in
                if is_remote entry then remote b (remote_node_name entry) (remote_uds_path entry) s
                else nos_transport_local_send b (local_thread entry) s)))"

section \<open>Receiving\<close>

text \<open>
  The body of the loop of \<open>process_thread_messages\<close> for the buffer \<open>b\<close> it took. \<open>on_msg f c m\<close>
  is a call of the handler \<open>f\<close> of component \<open>c\<close>.
\<close>

definition deliver ::
  "(ptr \<Rightarrow> ptr \<Rightarrow> nos_service_msg \<Rightarrow> 'z node_scheme \<Rightarrow> 'z node_scheme) \<Rightarrow> buf_ref \<Rightarrow> 'z node_scheme \<Rightarrow> 'z node_scheme" where
  "deliver on_msg b s =
     (let header = msgs s b;
          s = (case find_service_entry (dst_service header) (registry s) of
                 None \<Rightarrow> s
               | Some i \<Rightarrow>
                   (let c = local_provider (g_service_registry (registry s) ! i) in
                    if c = NULL then s
                    else case comps s c of
                           None \<Rightarrow> s
                         | Some cp \<Rightarrow> if comp_on_msg cp = NULL then s else on_msg (comp_on_msg cp) c header s))
      in nos_buffer_release b s)"

fun process_thread_messages ::
  "nat \<Rightarrow> (ptr \<Rightarrow> ptr \<Rightarrow> nos_service_msg \<Rightarrow> 'z node_scheme \<Rightarrow> 'z node_scheme) \<Rightarrow> thread_ref \<Rightarrow> 'z node_scheme
     \<Rightarrow> 'z node_scheme run" where
  "process_thread_messages fuel on_msg r s =
     (case threads s r of
        None \<Rightarrow> Undefined
      | Some th \<Rightarrow>
          (case thread_pop th of
             None \<Rightarrow> Returned s
           | Some (None, th') \<Rightarrow> Returned (upd_thread r (\<lambda>_. th') s)
           | Some (Some b, th') \<Rightarrow>
               (case fuel of
                  0 \<Rightarrow> OutOfFuel
                | Suc n \<Rightarrow> process_thread_messages n on_msg r (deliver on_msg b (upd_thread r (\<lambda>_. th') s)))))"

declare process_thread_messages.simps [simp del]

end
