(* ===== verification/MsgClaims.thy ===== *)
theory MsgClaims
  imports Messages TimerProps
begin

text \<open>
  The properties of message passing inside a node: where a message goes, what it does to the
  references of its buffer, and that a thread that drains its queue hands every message to its
  provider once, in order, and gives every reference back.
\<close>

section \<open>Handlers that leave the queues alone\<close>

definition queue_view :: "'z node_scheme \<Rightarrow> thread_ref \<Rightarrow> (buf_ref option list \<times> nat \<times> nat) option" where
  "queue_view s r = map_option (\<lambda>th. (msg_queue th, head th, tail th)) (threads s r)"

definition node_queue :: "'z node_scheme \<Rightarrow> thread_ref \<Rightarrow> buf_ref list" where
  "node_queue s r = (case threads s r of None \<Rightarrow> [] | Some th \<Rightarrow> thread_msgs th)"

definition node_queue_ok :: "'z node_scheme \<Rightarrow> thread_ref \<Rightarrow> bool" where
  "node_queue_ok s r \<longleftrightarrow> (\<exists>th. threads s r = Some th \<and> queue_ok th)"

lemma queue_view_eq:
  assumes "queue_view s' r = queue_view s r"
  shows "node_queue s' r = node_queue s r" "node_queue_ok s' r = node_queue_ok s r"
proof -
  have "node_queue s' r = node_queue s r \<and> node_queue_ok s' r = node_queue_ok s r"
  proof (cases "threads s r")
    case None
    then have "threads s' r = None" using assms by (simp add: queue_view_def)
    then show ?thesis using None by (simp add: node_queue_def node_queue_ok_def)
  next
    case (Some th)
    then obtain th' where th': "threads s' r = Some th'" "msg_queue th' = msg_queue th" "head th' = head th" "tail th' = tail th"
      using assms by (auto simp: queue_view_def)
    then show ?thesis using queue_ok_cong[OF th'(2-4)] Some by (simp add: node_queue_def node_queue_ok_def)
  qed
  then show "node_queue s' r = node_queue s r" "node_queue_ok s' r = node_queue_ok s r" by simp_all
qed

lemma queue_view_release [simp]: "queue_view (nos_buffer_release b s) = queue_view s"
  by (simp add: queue_view_def fun_eq_iff)

text \<open>
  The contract between the message loop and the components: a handler does not touch the
  queue of the thread that runs it. \<open>ref_handlers\<close> adds that it leaves the references of all
  buffers as they were.
\<close>

locale quiet_handlers =
  fixes on_msg :: "ptr \<Rightarrow> ptr \<Rightarrow> nos_service_msg \<Rightarrow> 'z node_scheme \<Rightarrow> 'z node_scheme"
    and r :: thread_ref
  assumes msg_queues: "queue_view (on_msg f c m s) r = queue_view s r"

locale ref_handlers = quiet_handlers +
  assumes msg_bufs: "bufs_ok s \<Longrightarrow> bufs_ok (on_msg f c m s)"
    and msg_held: "buf_held (on_msg f c m s) = buf_held s"

definition receive_one ::
  "(ptr \<Rightarrow> ptr \<Rightarrow> nos_service_msg \<Rightarrow> 'z node_scheme \<Rightarrow> 'z node_scheme) \<Rightarrow> thread_ref \<Rightarrow> 'z node_scheme \<Rightarrow> buf_ref
     \<Rightarrow> 'z node_scheme" where
  "receive_one on_msg r s b =
     deliver on_msg b (upd_thread r (\<lambda>th. th\<lparr>head := ring_succ MAX_QUEUE_SIZE (head th)\<rparr>) s)"

lemma upd_thread_const: "threads s r = Some th \<Longrightarrow> upd_thread r (\<lambda>_. f th) s = upd_thread r f s"
  by (simp add: upd_thread_def)

context quiet_handlers begin

lemma deliver_queue: "queue_view (deliver on_msg b s) r = queue_view s r"
  by (auto simp: deliver_def Let_def msg_queues split: option.splits)

lemma receive_queue:
  assumes "threads s r = Some th" "thread_pop th = Some (Some b, th')"
    "th' = th\<lparr>head := ring_succ MAX_QUEUE_SIZE (head th)\<rparr>" "queue_ok th'" "thread_msgs th = b # thread_msgs th'"
  shows "node_queue_ok (receive_one on_msg r s b) r" "node_queue s r = b # node_queue (receive_one on_msg r s b) r"
    "deliver on_msg b (upd_thread r (\<lambda>_. th') s) = receive_one on_msg r s b"
proof -
  let ?s = "upd_thread r (\<lambda>th. th\<lparr>head := ring_succ MAX_QUEUE_SIZE (head th)\<rparr>) s"
  have th: "threads ?s r = Some th'" using assms(1,3) by simp
  have v: "queue_view (receive_one on_msg r s b) r = queue_view ?s r"
    unfolding receive_one_def by (rule deliver_queue)
  show "node_queue_ok (receive_one on_msg r s b) r" "node_queue s r = b # node_queue (receive_one on_msg r s b) r"
    using queue_view_eq[OF v] th assms by (auto simp: node_queue_def node_queue_ok_def)
  show "deliver on_msg b (upd_thread r (\<lambda>_. th') s) = receive_one on_msg r s b"
    using upd_thread_const[OF assms(1), of "\<lambda>th. th\<lparr>head := ring_succ MAX_QUEUE_SIZE (head th)\<rparr>"]
    by (simp add: receive_one_def assms(3))
qed

lemma process_all:
  "node_queue_ok s r \<Longrightarrow> length (node_queue s r) \<le> n \<Longrightarrow>
     process_thread_messages n on_msg r s = Returned (foldl (receive_one on_msg r) s (node_queue s r)) \<and>
     node_queue_ok (foldl (receive_one on_msg r) s (node_queue s r)) r \<and>
     node_queue (foldl (receive_one on_msg r) s (node_queue s r)) r = []"
proof (induction n arbitrary: s)
  case (0 s)
  then obtain th where th: "threads s r = Some th" "queue_ok th" "thread_msgs th = []"
    by (auto simp: node_queue_ok_def node_queue_def)
  then have "thread_pop th = None" using thread_pop_None by blast
  then show ?case
    using th 0 by (subst process_thread_messages.simps) (simp add: node_queue_def)
next
  case (Suc n s)
  then obtain th where th: "threads s r = Some th" "queue_ok th" by (auto simp: node_queue_ok_def)
  show ?case
  proof (cases "head th = tail th")
    case True
    then have pop: "thread_pop th = None" by (simp add: thread_pop_def)
    then have "thread_msgs th = []" using thread_pop_None[OF th(2)] by blast
    then show ?thesis
      using th pop Suc.prems by (subst process_thread_messages.simps) (simp add: node_queue_def)
  next
    case False
    obtain b th' where b: "thread_pop th = Some (Some b, th')" "th' = th\<lparr>head := ring_succ MAX_QUEUE_SIZE (head th)\<rparr>"
      "queue_ok th'" "thread_msgs th = b # thread_msgs th'"
      using thread_pop_Some[OF th(2) False] by blast
    note r = receive_queue[OF th(1) b(1-4)]
    have "process_thread_messages (Suc n) on_msg r s = process_thread_messages n on_msg r (receive_one on_msg r s b)"
      using th(1) b(1) r(3) by (subst process_thread_messages.simps) simp
    then show ?thesis using Suc.IH[OF r(1)] r(2) Suc.prems(2) by simp
  qed
qed

end

context ref_handlers begin

lemma receive_held:
  assumes "bufs_ok s" "0 < buf_held s b"
  shows "bufs_ok (receive_one on_msg r s b)" "buf_held (receive_one on_msg r s b) = (buf_held s)(b := buf_held s b - 1)"
proof -
  let ?s = "upd_thread r (\<lambda>th. th\<lparr>head := ring_succ MAX_QUEUE_SIZE (head th)\<rparr>) s"
  obtain s1 where s1: "receive_one on_msg r s b = nos_buffer_release b s1" "buf_held s1 = buf_held s" "bufs_ok s1"
  proof -
    have "\<exists>s1. deliver on_msg b ?s = nos_buffer_release b s1 \<and> buf_held s1 = buf_held ?s \<and> (bufs_ok ?s \<longrightarrow> bufs_ok s1)"
      by (auto simp: deliver_def Let_def msg_held msg_bufs split: option.splits)
    then show ?thesis using that assms(1) by (auto simp: receive_one_def)
  qed
  then show "bufs_ok (receive_one on_msg r s b)" "buf_held (receive_one on_msg r s b) = (buf_held s)(b := buf_held s b - 1)"
    using node_bufs.release_held[of s1 b] assms(2) by auto
qed

lemma receive_all_held:
  "bufs_ok s \<Longrightarrow> (\<And>b. count_list bs b \<le> buf_held s b) \<Longrightarrow>
     bufs_ok (foldl (receive_one on_msg r) s bs) \<and>
     (\<forall>b. buf_held (foldl (receive_one on_msg r) s bs) b = buf_held s b - count_list bs b)"
proof (induction bs arbitrary: s)
  case (Cons b bs)
  have "0 < buf_held s b" using Cons.prems(2)[of b] by simp
  note h = receive_held[OF Cons.prems(1) this]
  have "count_list bs c \<le> buf_held (receive_one on_msg r s b) c" for c
    using Cons.prems(2)[of c] h(2) by (auto split: if_splits)
  then show ?case using Cons.IH[OF h(1)] h(2) by auto
qed simp

end

section \<open>A handler that records its calls\<close>

definition log_msg ::
  "ptr \<Rightarrow> ptr \<Rightarrow> nos_service_msg \<Rightarrow> (ptr \<times> nos_service_msg) list node_scheme \<Rightarrow> (ptr \<times> nos_service_msg) list node_scheme" where
  "log_msg f c m s = s\<lparr>node.more := node.more s @ [(c, m)]\<rparr>"

interpretation log_msg: ref_handlers log_msg r for r
  by unfold_locales (auto simp: log_msg_def queue_view_def bufs_ok_def buf_held_def fun_eq_iff split: buf_ref.splits)

text \<open>The calls the message in \<open>b\<close> leads to: at most one, of the provider of its service.\<close>

definition calls_for :: "'z node_scheme \<Rightarrow> buf_ref \<Rightarrow> (ptr \<times> nos_service_msg) list" where
  "calls_for s b =
     (case find_service_entry (dst_service (msgs s b)) (registry s) of
        None \<Rightarrow> []
      | Some i \<Rightarrow>
          (let c = local_provider (g_service_registry (registry s) ! i) in
           if c = NULL then [] else
           case comps s c of None \<Rightarrow> [] | Some cp \<Rightarrow> if comp_on_msg cp = NULL then [] else [(c, msgs s b)]))"

lemma log_receive:
  "node.more (receive_one log_msg r s b) = node.more s @ calls_for s b"
  "registry (receive_one log_msg r s b) = registry s" "msgs (receive_one log_msg r s b) = msgs s"
  "comps (receive_one log_msg r s b) = comps s"
proof -
  have m: "node.more (upd_thread r f s) = node.more s" "node.more (nos_buffer_release b s) = node.more s"
    for f and s :: "(ptr \<times> nos_service_msg) list node_scheme"
    by (auto simp: upd_thread_def nos_buffer_release_def split: buf_ref.splits)
  show "node.more (receive_one log_msg r s b) = node.more s @ calls_for s b"
    by (auto simp: receive_one_def deliver_def Let_def calls_for_def m log_msg_def split: option.splits)
  show "registry (receive_one log_msg r s b) = registry s" "msgs (receive_one log_msg r s b) = msgs s"
    "comps (receive_one log_msg r s b) = comps s"
    by (auto simp: receive_one_def deliver_def Let_def log_msg_def split: option.splits)
qed

lemma log_receive_all:
  "node.more (foldl (receive_one log_msg r) s bs) = node.more s @ concat (map (calls_for s) bs)"
proof (induction bs arbitrary: s)
  case (Cons b bs)
  have "calls_for (receive_one log_msg r s b) = calls_for s"
    unfolding calls_for_def[abs_def] log_receive(2-4) ..
  then show ?case using Cons.IH log_receive(1)[of r s b] by simp
qed simp

section \<open>Sample nodes\<close>

text \<open>
  A node whose worker thread runs component 7, the provider of service 5; buffer (0, 1) is
  allocated and carries a message for service 5. \<open>full_node\<close> has it in the queue of the thread.
\<close>

definition one_buf_pool :: bufpool where
  "one_buf_pool = (case nos_buffer_alloc 64 0 sample_pool of Some (_, p) \<Rightarrow> p | None \<Rightarrow> sample_pool)"

definition service_5 :: service_registry where
  "service_5 = snd (nos_service_register_provider_bind 5 7 (Some (Worker 0)) empty_registry)"

definition sample_msg :: "u32 \<Rightarrow> nos_service_msg" where
  "sample_msg sid = \<lparr>msg_magic = 0x4E4F, msg_version = 1, dst_service = sid, src_component = 1, msg_code = 1,
     msg_seq = 0, msg_flags = 0, payload_len = 0, msg_payload = []\<rparr>"

definition msg_node :: "buf_ref option list \<Rightarrow> nat \<Rightarrow> (ptr \<times> nos_service_msg) list node_scheme" where
  "msg_node q t =
     \<lparr>threads = [Worker 0 \<mapsto> (sample_thread [])\<lparr>msg_queue := q, head := 0, tail := t, is_sleeping := True\<rparr>],
      worker_count = 1, timers = Map.empty, clock = (\<lambda>_. (5, 0)), clock_reads = 0,
      registry = service_5, bufs = one_buf_pool, shmem = fresh_shm,
      comps = [7 \<mapsto> \<lparr>comp_id = 7, comp_name = ''hb'', comp_status = NOS_COMP_ST_ACTIVE, comp_init = 1, comp_start = 2,
                     comp_stop = 3, comp_on_msg = 4\<rparr>],
      msgs = (\<lambda>_. sample_msg 5), \<dots> = []\<rparr>"

definition idle_node :: "(ptr \<times> nos_service_msg) list node_scheme" where
  "idle_node = msg_node (replicate MAX_QUEUE_SIZE None) 0"

definition full_node :: "(ptr \<times> nos_service_msg) list node_scheme" where
  "full_node = msg_node ((replicate MAX_QUEUE_SIZE None)[0 := Some (PoolBuf 0 1)]) 1"

lemma one_buf_alloc: "nos_buffer_alloc 64 0 sample_pool = Some ((0, 1), one_buf_pool)"
proof -
  have "case nos_buffer_alloc 64 0 sample_pool of None \<Rightarrow> False | Some (r, p) \<Rightarrow> r = (0, 1)" by code_simp
  then show ?thesis by (auto simp: one_buf_pool_def split: option.splits)
qed

lemma msg_node_bufs:
  "bufs_ok (msg_node q t)" "buf_held (msg_node q t) b = (if b = PoolBuf 0 1 then 1 else 0)"
  using nos_buffer_alloc_ok(1,3)[OF sample_pool_ok(1) one_buf_alloc] sample_pool_ok(2) fresh_shm_ok
  by (auto simp: bufs_ok_def msg_node_def buf_held_def split: buf_ref.splits)

lemma service_5_route: "reg_route service_5 5 = Some (Local 7 (Some (Worker 0)))" by code_simp

lemma idle_queue: "node_queue_ok idle_node (Worker 0)" "node_queue idle_node (Worker 0) = []"
  by (simp_all add: node_queue_ok_def node_queue_def idle_node_def msg_node_def queue_ok_def thread_msgs_def
      thread_slots_def ring_ok_def ring_items_def ring_used_def MAX_QUEUE_SIZE_def)

lemma full_queue: "node_queue_ok full_node (Worker 0)" "node_queue full_node (Worker 0) = [PoolBuf 0 1]"
proof -
  have len: "length ((replicate MAX_QUEUE_SIZE None)[0 := Some (PoolBuf 0 1)]) = MAX_QUEUE_SIZE" by simp
  have i: "ring_items MAX_QUEUE_SIZE ((replicate MAX_QUEUE_SIZE None)[0 := Some (PoolBuf 0 1)]) 0 1 = [Some (PoolBuf 0 1)]"
    by (simp add: ring_items_def ring_used_def) (simp add: MAX_QUEUE_SIZE_def)
  show "node_queue_ok full_node (Worker 0)" "node_queue full_node (Worker 0) = [PoolBuf 0 1]"
    using i by (simp_all add: node_queue_ok_def node_queue_def full_node_def msg_node_def queue_ok_def thread_msgs_def
        thread_slots_def ring_ok_def) (simp add: MAX_QUEUE_SIZE_def)
qed

section \<open>Where a message goes\<close>

lemma send_routes:
  "reg_route (registry s) (dst_service (msgs s b)) = None \<Longrightarrow> nos_service_msg_send remote (Some b) s = (NOS_ERR, s)"
  "reg_route (registry s) (dst_service (msgs s b)) = Some (Remote n u) \<Longrightarrow> nos_service_msg_send remote (Some b) s = remote b n u s"
  "reg_route (registry s) (dst_service (msgs s b)) = Some (Local p t) \<Longrightarrow>
     nos_service_msg_send remote (Some b) s = nos_transport_local_send b t s"
  by (auto simp: nos_service_msg_send_def reg_route_def entry_route_def Let_def split: option.splits if_splits)

lemma local_send_spec:
  assumes send: "nos_transport_local_send b (Some r) s = (st, s')"
    and th: "threads s r = Some th" "queue_ok th" and held: "bufs_ok s" "0 < buf_held s b" "buf_held s b < 2 ^ 31 - 1"
  shows "if length (thread_msgs th) = 1023 then st = NOS_ERR_BUSY \<and> s' = s
     else st = NOS_OK \<and> node_queue_ok s' r \<and> node_queue s' r = node_queue s r @ [b] \<and> bufs_ok s' \<and>
       buf_held s' = (buf_held s)(b := buf_held s b + 1) \<and> (\<forall>q. q \<noteq> r \<longrightarrow> threads s' q = threads s q) \<and>
       (is_sleeping th \<longrightarrow> map_option notify_count (threads s' r) = Some (Suc (notify_count th)))"
proof (cases "thread_enq b th")
  case None
  then have "length (thread_msgs th) = 1023" using msg_ring.enq_None[OF th(2)] by (simp add: MAX_QUEUE_SIZE_def)
  then show ?thesis using send th None by (simp add: nos_transport_local_send_def)
next
  case (Some th')
  note ret = node_bufs.retain_held[OF held]
  note q = msg_ring.enq_Some[OF th(2) Some]
  have "length (thread_msgs th) \<noteq> 1023"
    using msg_ring.enq_None[OF th(2), of b] Some by (simp add: MAX_QUEUE_SIZE_def)
  moreover have "is_sleeping th' = is_sleeping th" "notify_count th' = notify_count th"
    using Some by (auto simp: thread_enq_def Let_def split: if_splits)
  moreover have "queue_ok (eventfd_write th') = queue_ok th'" "thread_msgs (eventfd_write th') = thread_msgs th'"
    using queue_ok_cong[of "eventfd_write th'" th'] by auto
  ultimately show ?thesis
    using send th Some ret q
    by (auto simp: nos_transport_local_send_def Let_def node_queue_ok_def node_queue_def)
qed

lemma send_msgs [simp]: "msgs (snd (nos_transport_local_send b t s)) = msgs s"
  by (auto simp: nos_transport_local_send_def Let_def split: option.splits)

section \<open>Properties\<close>

text \<open>
  C7 Sending inside the node: a message for a service with a local provider is appended to the
  queue of its thread with one more reference to its buffer, and a sleeping thread is woken; with
  1023 messages waiting it is refused as busy; a message for an unknown service is refused, and one
  for a remote service is handed to the transport of its node. A refused message changes nothing.
\<close>

theorem nos_service_msg_send_correct:
  assumes "nos_service_msg_send remote (Some b) s = (st, s')"
  shows "((reg_route (registry s) (dst_service (msgs s b)) = None) \<longrightarrow> (st = NOS_ERR \<and> s' = s)) \<and>
    ((reg_route (registry s) (dst_service (msgs s b)) = Some (Remote n u)) \<longrightarrow> ((st, s') = remote b n u s)) \<and>
    ((reg_route (registry s) (dst_service (msgs s b)) = Some (Local p (Some r))) \<longrightarrow> (threads s r = Some th) \<longrightarrow> (queue_ok th) \<longrightarrow> (bufs_ok s) \<longrightarrow> (0 < buf_held s b) \<longrightarrow> (buf_held s b < 2 ^ 31 - 1) \<longrightarrow> ((if length (thread_msgs th) = 1023 then st = NOS_ERR_BUSY \<and> s' = s
       else st = NOS_OK \<and> node_queue_ok s' r \<and> node_queue s' r = node_queue s r @ [b] \<and> bufs_ok s' \<and>
         buf_held s' = (buf_held s)(b := buf_held s b + 1) \<and> (\<forall>q. q \<noteq> r \<longrightarrow> threads s' q = threads s q) \<and>
         (is_sleeping th \<longrightarrow> map_option notify_count (threads s' r) = Some (Suc (notify_count th))))))"
proof (rule conjI[OF impI conjI[OF impI impI[OF impI[OF impI[OF impI[OF impI[OF impI]]]]]]])
  show "st = NOS_ERR \<and> s' = s" if "reg_route (registry s) (dst_service (msgs s b)) = None"
    using assms send_routes(1)[OF that] by simp
  show "(st, s') = remote b n u s" if "reg_route (registry s) (dst_service (msgs s b)) = Some (Remote n u)"
    using assms send_routes(2)[OF that] by simp
  assume route: "reg_route (registry s) (dst_service (msgs s b)) = Some (Local p (Some r))"
    and th: "threads s r = Some th" "queue_ok th" and held: "bufs_ok s" "0 < buf_held s b" "buf_held s b < 2 ^ 31 - 1"
  show "if length (thread_msgs th) = 1023 then st = NOS_ERR_BUSY \<and> s' = s
       else st = NOS_OK \<and> node_queue_ok s' r \<and> node_queue s' r = node_queue s r @ [b] \<and> bufs_ok s' \<and>
         buf_held s' = (buf_held s)(b := buf_held s b + 1) \<and> (\<forall>q. q \<noteq> r \<longrightarrow> threads s' q = threads s q) \<and>
         (is_sleeping th \<longrightarrow> map_option notify_count (threads s' r) = Some (Suc (notify_count th)))"
    using local_send_spec[OF _ th held] assms send_routes(3)[OF route] by simp
qed



theorem nos_service_msg_send_correct_witness:
  "\<exists>s'. nos_service_msg_send (\<lambda>_ _ _ s. (NOS_ERR, s)) (Some (PoolBuf 0 1)) idle_node = (NOS_OK, s') \<and>
     node_queue s' (Worker 0) = [PoolBuf 0 1] \<and> buf_held s' (PoolBuf 0 1) = 2"
proof -
  obtain st s' where s: "nos_service_msg_send (\<lambda>_ _ _ s. (NOS_ERR, s)) (Some (PoolBuf 0 1)) idle_node = (st, s')"
    by (metis prod.exhaust)
  have route: "reg_route (registry idle_node) (dst_service (msgs idle_node (PoolBuf 0 1))) = Some (Local 7 (Some (Worker 0)))"
    using service_5_route by (simp add: idle_node_def msg_node_def sample_msg_def)
  obtain th where th: "threads idle_node (Worker 0) = Some th" "queue_ok th" "thread_msgs th = []"
    using idle_queue by (auto simp: node_queue_ok_def node_queue_def)
  have held: "bufs_ok idle_node" "buf_held idle_node (PoolBuf 0 1) = 1"
    by (simp_all add: idle_node_def msg_node_bufs)
  show ?thesis
    using nos_service_msg_send_correct[OF s, THEN conjunct2, THEN conjunct2, rule_format, OF route th(1,2) held(1)] held(2) th(3) s idle_queue(2) by auto
qed

end
