(* ===== verification/FdTable.thy ===== *)
theory FdTable
  imports NodeState
begin

text \<open>
  The table of file descriptors a thread watches (\<open>nos_scheduler_add_fd\<close> and
  \<open>nos_scheduler_remove_fd\<close> of \<open>nos_scheduler.c\<close>). The kernel is a parameter: \<open>ctl_ok\<close> says
  whether an \<open>EPOLL_CTL_ADD\<close> is accepted, besides the documented refusal of a descriptor
  that is already watched.
\<close>

section \<open>File descriptors\<close>

definition epoll_ctl_add :: "bool \<Rightarrow> int \<Rightarrow> u32 \<Rightarrow> epoll_data \<Rightarrow> (int \<rightharpoonup> u32 \<times> epoll_data) \<Rightarrow> (int \<rightharpoonup> u32 \<times> epoll_data) option" where
  "epoll_ctl_add ctl_ok fd events d es = (if ctl_ok \<and> es fd = None then Some (es(fd \<mapsto> (events, d))) else None)"

definition nos_scheduler_add_fd_ex ::
  "bool \<Rightarrow> nos_thread \<Rightarrow> int \<Rightarrow> u32 \<Rightarrow> ptr \<Rightarrow> ptr \<Rightarrow> nos_status \<times> nos_thread" where
  "nos_scheduler_add_fd_ex ctl_ok th fd events cb a =
     (if fd_count th \<ge> MAX_FDS then (NOS_ERR, th)
      else let i = fd_count th;
               th = th\<lparr>fd_entries := (fd_entries th)[i := \<lparr>fde_fd = fd, fde_callback = cb, fde_arg = a\<rparr>],
                       fd_count := i + 1\<rparr>
           in case epoll_ctl_add ctl_ok fd events (FdSlot i) (epoll_set th) of
                None \<Rightarrow> (NOS_ERR, th)
              | Some es \<Rightarrow> (NOS_OK, th\<lparr>epoll_set := es\<rparr>))"

definition nos_scheduler_add_fd :: "bool \<Rightarrow> nos_thread \<Rightarrow> int \<Rightarrow> ptr \<Rightarrow> ptr \<Rightarrow> nos_status \<times> nos_thread" where
  "nos_scheduler_add_fd ctl_ok th fd cb a = nos_scheduler_add_fd_ex ctl_ok th fd EPOLLIN cb a"

definition nos_scheduler_remove_fd :: "nos_thread \<Rightarrow> int \<Rightarrow> nos_status \<times> nos_thread" where
  "nos_scheduler_remove_fd th fd =
     (let th = th\<lparr>epoll_set := (epoll_set th)(fd := None)\<rparr> in
      case find_slot (\<lambda>e. fde_fd e = fd) (fd_count th) (fd_entries th) of
        None \<Rightarrow> (NOS_ERR, th)
      | Some i \<Rightarrow> (NOS_OK, th\<lparr>fd_entries := move_last (fd_entries th) (fd_count th) i,
                             fd_count := fd_count th - 1\<rparr>))"

text \<open>The entry an event on \<open>fd\<close> leads to: what \<open>events[i].data.ptr\<close> points to.\<close>

definition event_entry :: "nos_thread \<Rightarrow> int \<Rightarrow> nos_fd_entry option" where
  "event_entry th fd =
     (case epoll_set th fd of
        None \<Rightarrow> None
      | Some (_, NotifyEntry) \<Rightarrow> Some (notify_entry th)
      | Some (_, FdSlot i) \<Rightarrow> if i < length (fd_entries th) then Some (fd_entries th ! i) else None)"

definition fds_ok :: "nos_thread \<Rightarrow> bool" where
  "fds_ok th \<longleftrightarrow> length (fd_entries th) = MAX_FDS \<and> fd_count th \<le> MAX_FDS \<and>
     epoll_set th (notify_fd th) = Some (EPOLLIN, NotifyEntry) \<and> fde_fd (notify_entry th) = notify_fd th \<and>
     (\<forall>i < fd_count th. \<exists>ev. epoll_set th (fde_fd (fd_entries th ! i)) = Some (ev, FdSlot i)) \<and>
     (\<forall>fd ev i. epoll_set th fd = Some (ev, FdSlot i) \<longrightarrow> i < fd_count th \<and> fde_fd (fd_entries th ! i) = fd)"

lemma add_fd_ok:
  assumes ok: "fds_ok th" and new: "epoll_set th fd = None" and add: "nos_scheduler_add_fd_ex True th fd events cb a = (NOS_OK, th')"
  shows "fds_ok th'" "event_entry th' fd = Some \<lparr>fde_fd = fd, fde_callback = cb, fde_arg = a\<rparr>"
    "g \<noteq> fd \<Longrightarrow> event_entry th' g = event_entry th g" "fd_count th' = Suc (fd_count th)"
    "fd_entries th' = (fd_entries th)[fd_count th := \<lparr>fde_fd = fd, fde_callback = cb, fde_arg = a\<rparr>]"
proof -
  have room: "fd_count th < MAX_FDS"
    and th': "th' = th\<lparr>fd_entries := (fd_entries th)[fd_count th := \<lparr>fde_fd = fd, fde_callback = cb, fde_arg = a\<rparr>],
        fd_count := fd_count th + 1, epoll_set := (epoll_set th)(fd \<mapsto> (events, FdSlot (fd_count th)))\<rparr>"
    using add new by (auto simp: nos_scheduler_add_fd_ex_def Let_def epoll_ctl_add_def split: if_splits)
  have len: "length (fd_entries th) = MAX_FDS" using ok by (simp add: fds_ok_def)
  have ne: "notify_fd th \<noteq> fd" using ok new by (auto simp: fds_ok_def)
  have old: "fde_fd (fd_entries th ! i) \<noteq> fd" if "i < fd_count th" for i
  proof -
    obtain ev where "epoll_set th (fde_fd (fd_entries th ! i)) = Some (ev, FdSlot i)"
      using ok \<open>i < fd_count th\<close> unfolding fds_ok_def by blast
    then show ?thesis using new by auto
  qed
  show "fds_ok th'"
    unfolding fds_ok_def
  proof (intro conjI allI impI)
    fix i assume "i < fd_count th'"
    then show "\<exists>ev. epoll_set th' (fde_fd (fd_entries th' ! i)) = Some (ev, FdSlot i)"
      using ok len room old[of i] by (cases "i = fd_count th") (auto simp: th' fds_ok_def)
  next
    fix g ev i assume g: "epoll_set th' g = Some (ev, FdSlot i)"
    have "i < fd_count th \<and> fde_fd (fd_entries th ! i) = g" if "g \<noteq> fd"
      using ok g that by (auto simp: th' fds_ok_def)
    then show "i < fd_count th'" "fde_fd (fd_entries th' ! i) = g"
      using g len room by (auto simp: th' split: if_splits)
  qed (use ok room ne in \<open>auto simp: th' fds_ok_def\<close>)
  show "event_entry th' fd = Some \<lparr>fde_fd = fd, fde_callback = cb, fde_arg = a\<rparr>"
    using len room by (simp add: event_entry_def th')
  show "event_entry th' g = event_entry th g" if "g \<noteq> fd"
  proof (cases "epoll_set th g")
    case (Some x)
    then obtain ev d where x: "epoll_set th g = Some (ev, d)" by (cases x) auto
    show ?thesis
    proof (cases d)
      case (FdSlot i)
      then have "i < fd_count th" using ok x by (auto simp: fds_ok_def)
      then show ?thesis using that x FdSlot by (simp add: event_entry_def th')
    qed (use that x in \<open>simp add: event_entry_def th'\<close>)
  qed (use that in \<open>simp add: event_entry_def th'\<close>)
  show "fd_count th' = Suc (fd_count th)"
    "fd_entries th' = (fd_entries th)[fd_count th := \<lparr>fde_fd = fd, fde_callback = cb, fde_arg = a\<rparr>]"
    by (simp_all add: th')
qed

text \<open>Removing the descriptor in the last slot.\<close>

lemma remove_last_fd_ok:
  assumes ok: "fds_ok th" and n: "fd_count th = Suc n" "fde_fd (fd_entries th ! n) = fd" "fd \<noteq> notify_fd th"
    and rem: "nos_scheduler_remove_fd th fd = (st, th')"
  shows "st = NOS_OK" "fds_ok th'" "event_entry th' fd = None" "g \<noteq> fd \<Longrightarrow> event_entry th' g = event_entry th g"
    "fd_count th' = n"
proof -
  have slots: "\<exists>ev. epoll_set th (fde_fd (fd_entries th ! i)) = Some (ev, FdSlot i)" if "i < Suc n" for i
    using ok n that by (simp add: fds_ok_def)
  have len: "Suc n \<le> length (fd_entries th)" using ok n by (simp add: fds_ok_def)
  have uniq: "i = n" if "i < Suc n" "fde_fd (fd_entries th ! i) = fd" for i
    using slots[OF that(1)] slots[of n] that(2) n(2) by auto
  have "find_slot (\<lambda>e. fde_fd e = fd) (Suc n) (fd_entries th) = Some n"
  proof (cases "find_slot (\<lambda>e. fde_fd e = fd) (Suc n) (fd_entries th)")
    case None
    then show ?thesis using find_slot_None[OF len, of "\<lambda>e. fde_fd e = fd"] n(2) by auto
  next
    case (Some i)
    then show ?thesis using find_slot_Some[OF Some] uniq[of i] by simp
  qed
  then have th': "st = NOS_OK" "th' = th\<lparr>epoll_set := (epoll_set th)(fd := None), fd_count := n\<rparr>"
    using rem n by (auto simp: nos_scheduler_remove_fd_def Let_def move_last_def)
  then show "st = NOS_OK" "event_entry th' fd = None" "g \<noteq> fd \<Longrightarrow> event_entry th' g = event_entry th g" "fd_count th' = n"
    by (auto simp: event_entry_def split: option.splits prod.splits epoll_data.splits)
  show "fds_ok th'"
    unfolding fds_ok_def
  proof (intro conjI allI impI)
    fix i assume i: "i < fd_count th'"
    then have "fde_fd (fd_entries th ! i) \<noteq> fd" using uniq[of i] th'(2) by auto
    then show "\<exists>ev. epoll_set th' (fde_fd (fd_entries th' ! i)) = Some (ev, FdSlot i)"
      using slots[of i] i th'(2) by simp
  next
    fix g ev i assume g: "epoll_set th' g = Some (ev, FdSlot i)"
    then have gf: "g \<noteq> fd" "epoll_set th g = Some (ev, FdSlot i)" using th'(2) by (auto split: if_splits)
    then have "i < Suc n \<and> fde_fd (fd_entries th ! i) = g" using ok n(1) unfolding fds_ok_def by metis
    then show "i < fd_count th'" "fde_fd (fd_entries th' ! i) = g"
      using gf(1) n(2) th'(2) by (auto simp: less_Suc_eq)
  qed (use ok n(1,3) th'(2) in \<open>auto simp: fds_ok_def\<close>)
qed

section \<open>Properties\<close>

definition sample_fd_thread :: nos_thread where
  "sample_fd_thread = snd (nos_scheduler_init_thread 1
     \<lparr>thread_id = 0, thread_name = [], epoll_set = Map.empty, notify_fd = 0, notify_count = 0,
      notify_entry = zero_fd_entry, stop_requested = False, is_sleeping = False, msg_queue = [], head = 0, tail = 0,
      components = [], component_count = 0, fd_entries = [], fd_count = 0,
      timer_heap = \<lparr>heap_nodes = [], heap_size = 0, heap_capacity = 0\<rparr>\<rparr> 0 ''Mgmt'' 3)"

lemma init_thread_fds_ok: "nos_scheduler_init_thread self th i name efd = (NOS_OK, th') \<Longrightarrow> fds_ok th'"
  by (auto simp: nos_scheduler_init_thread_def Let_def fds_ok_def split: if_splits)

lemma sample_fd_thread_ok: "fds_ok sample_fd_thread" "epoll_set sample_fd_thread = [3 \<mapsto> (EPOLLIN, NotifyEntry)]"
    "fd_count sample_fd_thread = 0"
  by (auto simp: sample_fd_thread_def nos_scheduler_init_thread_def Let_def fds_ok_def split: if_splits)

text \<open>
  Watching descriptors: a descriptor that is not watched yet can be added while fewer than
  32 are; its events then go to its own callback and argument, those of all others to
  where they went before. Removing the descriptor added last undoes this exactly.
\<close>

theorem nos_scheduler_add_remove_fd:
  assumes "fds_ok th" "epoll_set th fd = None" "fd_count th < MAX_FDS" "fd \<noteq> notify_fd th"
  shows "\<exists>th'. nos_scheduler_add_fd_ex True th fd events cb a = (NOS_OK, th') \<and> fds_ok th' \<and>
      event_entry th' fd = Some \<lparr>fde_fd = fd, fde_callback = cb, fde_arg = a\<rparr> \<and>
      (\<forall>g. g \<noteq> fd \<longrightarrow> event_entry th' g = event_entry th g) \<and>
      (\<exists>th''. nos_scheduler_remove_fd th' fd = (NOS_OK, th'') \<and> fds_ok th'' \<and>
         (\<forall>g. event_entry th'' g = event_entry th g) \<and> fd_count th'' = fd_count th)"
proof -
  obtain th' where th': "nos_scheduler_add_fd_ex True th fd events cb a = (NOS_OK, th')"
    using assms by (simp add: nos_scheduler_add_fd_ex_def Let_def epoll_ctl_add_def)
  note a = add_fd_ok[OF assms(1,2) th']
  have len: "fd_count th < length (fd_entries th)" using assms(1,3) by (simp add: fds_ok_def)
  have n: "fd_count th' = Suc (fd_count th)" "fde_fd (fd_entries th' ! fd_count th) = fd" "fd \<noteq> notify_fd th'"
    using a(4,5) len th' assms(4)
    by (auto simp: nos_scheduler_add_fd_ex_def Let_def split: if_splits option.splits)
  obtain st th'' where rem: "nos_scheduler_remove_fd th' fd = (st, th'')" by (metis prod.exhaust)
  note r = remove_last_fd_ok[OF a(1) n rem]
  have "event_entry th fd = None" using assms(2) by (simp add: event_entry_def)
  then have "event_entry th'' g = event_entry th g" for g
    using r(3,4) a(3) by (cases "g = fd") auto
  then show ?thesis using th' a(1-3) r(1,2,5) rem by blast
qed

theorem nos_scheduler_add_remove_fd_witness:
  "\<exists>th'. nos_scheduler_add_fd_ex True sample_fd_thread 10 EPOLLIN 100 7 = (NOS_OK, th') \<and>
     event_entry th' 10 = Some \<lparr>fde_fd = 10, fde_callback = 100, fde_arg = 7\<rparr>"
proof -
  have "epoll_set sample_fd_thread 10 = None" "fd_count sample_fd_thread < MAX_FDS" "10 \<noteq> notify_fd sample_fd_thread"
    by code_simp+
  then show ?thesis
    using nos_scheduler_add_remove_fd[OF sample_fd_thread_ok(1), of 10 EPOLLIN 100 7] by blast
qed

text \<open>
  Removing another descriptor misroutes events: the entry of the last slot is moved into
  the gap, but the kernel keeps the pointer to its old slot. When the slot is used again, an event
  of the moved descriptor runs the callback of the new one, with the wrong descriptor and argument.
\<close>

theorem nos_scheduler_remove_fd_misroutes:
  "\<exists>th1 th2 th3 th4.
     nos_scheduler_add_fd True sample_fd_thread 10 100 1 = (NOS_OK, th1) \<and>
     nos_scheduler_add_fd True th1 11 101 2 = (NOS_OK, th2) \<and>
     event_entry th2 11 = Some \<lparr>fde_fd = 11, fde_callback = 101, fde_arg = 2\<rparr> \<and>
     nos_scheduler_remove_fd th2 10 = (NOS_OK, th3) \<and>
     nos_scheduler_add_fd True th3 12 102 3 = (NOS_OK, th4) \<and>
     event_entry th4 11 = Some \<lparr>fde_fd = 12, fde_callback = 102, fde_arg = 3\<rparr>"
proof -
  have "let th1 = snd (nos_scheduler_add_fd True sample_fd_thread 10 100 1);
      th2 = snd (nos_scheduler_add_fd True th1 11 101 2);
      th3 = snd (nos_scheduler_remove_fd th2 10);
      th4 = snd (nos_scheduler_add_fd True th3 12 102 3)
    in fst (nos_scheduler_add_fd True sample_fd_thread 10 100 1) = NOS_OK \<and>
       fst (nos_scheduler_add_fd True th1 11 101 2) = NOS_OK \<and>
       event_entry th2 11 = Some \<lparr>fde_fd = 11, fde_callback = 101, fde_arg = 2\<rparr> \<and>
       fst (nos_scheduler_remove_fd th2 10) = NOS_OK \<and> fst (nos_scheduler_add_fd True th3 12 102 3) = NOS_OK \<and>
       event_entry th4 11 = Some \<lparr>fde_fd = 12, fde_callback = 102, fde_arg = 3\<rparr>"
    by code_simp
  then show ?thesis unfolding Let_def by (metis prod.collapse)
qed

end
