(* ===== verification/EventLoop.thy ===== *)
theory EventLoop
  imports MsgClaims FdTable
begin

text \<open>
  The event loop of a thread (\<open>nos_scheduler.c\<close>): the start of its components, and
  \<open>nos_scheduler_run_loop\<close> itself, one iteration at a time. The kernel is a parameter:
  \<open>env_wait\<close> is \<open>epoll_wait\<close> with the timeout as argument and the ready descriptors as result.
\<close>

section \<open>Starting the components\<close>

text \<open>\<open>start f c\<close> is a call of the start handler \<open>f\<close> of component \<open>c\<close>.\<close>

definition start_component :: "(ptr \<Rightarrow> ptr \<Rightarrow> 'z node_scheme \<Rightarrow> nos_status \<times> 'z node_scheme) \<Rightarrow> ptr \<Rightarrow> 'z node_scheme \<Rightarrow> 'z node_scheme" where
  "start_component start c s =
     (if c = NULL then s
      else case comps s c of
             None \<Rightarrow> s
           | Some cp \<Rightarrow>
               if comp_start cp = NULL \<or> comp_status cp = NOS_COMP_ST_ACTIVE then s
               else let (st, s) = start (comp_start cp) c s in
                    if st = NOS_OK
                    then s\<lparr>comps := (comps s)(c := map_option (\<lambda>cp. cp\<lparr>comp_status := NOS_COMP_ST_ACTIVE\<rparr>) (comps s c))\<rparr>
                    else s)"

definition start_components :: "(ptr \<Rightarrow> ptr \<Rightarrow> 'z node_scheme \<Rightarrow> nos_status \<times> 'z node_scheme) \<Rightarrow> thread_ref \<Rightarrow> 'z node_scheme \<Rightarrow> 'z node_scheme" where
  "start_components start r s =
     foldl (\<lambda>s c. start_component start c s) s (case threads s r of None \<Rightarrow> [] | Some th \<Rightarrow> thread_comps th)"

section \<open>The loop\<close>

text \<open>The timeout of \<open>epoll_wait\<close>, -1 for none: the difference is cut to a C \<open>int\<close>.\<close>

definition wait_timeout :: "thread_ref \<Rightarrow> 'z tnode_scheme \<Rightarrow> int \<times> 'z tnode_scheme" where
  "wait_timeout r s =
     (case heap_of s r of
        None \<Rightarrow> (- 1, s)
      | Some h \<Rightarrow>
          if heap_size h > 0 then
            (let (now, s) = get_monotonic_ms s;
                 e = timer_key s (heap_nodes h ! 0)
             in (if e \<le> now then 0 else sint (ucast (e - now) :: u32), s))
          else (- 1, s))"

record 'z loop_env =
  env_msg :: "ptr \<Rightarrow> ptr \<Rightarrow> nos_service_msg \<Rightarrow> 'z node_scheme \<Rightarrow> 'z node_scheme"
  env_timer :: "ptr \<Rightarrow> ptr \<Rightarrow> 'z node_scheme \<Rightarrow> 'z node_scheme"
  env_fd :: "ptr \<Rightarrow> int \<Rightarrow> ptr \<Rightarrow> 'z node_scheme \<Rightarrow> 'z node_scheme"
  env_wait :: "thread_ref \<Rightarrow> int \<Rightarrow> 'z node_scheme \<Rightarrow> int list \<times> 'z node_scheme"

fun run_bind :: "'a run \<Rightarrow> ('a \<Rightarrow> 'b run) \<Rightarrow> 'b run" where
  "run_bind (Returned a) f = f a"
| "run_bind Undefined f = Undefined"
| "run_bind OutOfFuel f = OutOfFuel"

text \<open>
  One ready descriptor. \<open>drain\<close> is what follows a successful read of the eventfd: nothing in
  the fast path, \<open>process_thread_messages\<close> after a sleep.
\<close>

definition handle_event ::
  "('z node_scheme \<Rightarrow> 'z node_scheme run) \<Rightarrow> 'z loop_env \<Rightarrow> thread_ref \<Rightarrow> int \<Rightarrow> 'z node_scheme \<Rightarrow> 'z node_scheme run" where
  "handle_event drain env r fd s =
     (case threads s r of
        None \<Rightarrow> Undefined
      | Some th \<Rightarrow>
          (case event_entry th fd of
             None \<Rightarrow> Returned s
           | Some entry \<Rightarrow>
               if fde_fd entry = notify_fd th then
                 (if notify_count th > 0 then drain (upd_thread r (\<lambda>th. th\<lparr>notify_count := 0\<rparr>) s) else Returned s)
               else if fde_callback entry \<noteq> NULL then Returned (env_fd env (fde_callback entry) (fde_fd entry) (fde_arg entry) s)
               else Returned s))"

fun handle_events ::
  "('z node_scheme \<Rightarrow> 'z node_scheme run) \<Rightarrow> 'z loop_env \<Rightarrow> thread_ref \<Rightarrow> int list \<Rightarrow> 'z node_scheme \<Rightarrow> 'z node_scheme run" where
  "handle_events drain env r [] s = Returned s"
| "handle_events drain env r (fd # fds) s =
     run_bind (handle_event drain env r fd s) (handle_events drain env r fds)"

text \<open>
  One iteration of the \<open>while\<close> loop, with no other thread running meanwhile: the busy-wait
  loop then sees the queue as it is, and so does the double check after \<open>is_sleeping\<close> is set.
  (\<open>Wakeup\<close> models the other threads.) A ready descriptor is looked up when it is handled.
\<close>

definition loop_iteration :: "nat \<Rightarrow> 'z loop_env \<Rightarrow> thread_ref \<Rightarrow> 'z node_scheme \<Rightarrow> 'z node_scheme run" where
  "loop_iteration fuel env r s =
     (case threads s r of
        None \<Rightarrow> Undefined
      | Some th \<Rightarrow>
          if head th \<noteq> tail th then
            run_bind (process_thread_messages fuel (env_msg env) r s) (\<lambda>s.
            run_bind (process_timers fuel (env_timer env) r s) (\<lambda>(_, s).
              let (fds, s) = env_wait env r 0 s in handle_events Returned env r fds s))
          else if stop_requested th then Returned (upd_thread r (\<lambda>th. th\<lparr>is_sleeping := False\<rparr>) s)
          else
            (let s = upd_thread r (\<lambda>th. th\<lparr>is_sleeping := True\<rparr>) s;
                 (timeout, s) = wait_timeout r s;
                 (fds, s) = env_wait env r timeout s;
                 s = upd_thread r (\<lambda>th. th\<lparr>is_sleeping := False\<rparr>) s
             in run_bind (process_timers fuel (env_timer env) r s) (\<lambda>(_, s).
                  handle_events (process_thread_messages fuel (env_msg env) r) env r fds s)))"

fun loop_while :: "nat \<Rightarrow> 'z loop_env \<Rightarrow> thread_ref \<Rightarrow> 'z node_scheme \<Rightarrow> (nos_status \<times> 'z node_scheme) run" where
  "loop_while fuel env r s =
     (case threads s r of
        None \<Rightarrow> Undefined
      | Some th \<Rightarrow>
          if stop_requested th then Returned (NOS_OK, s)
          else case fuel of
                 0 \<Rightarrow> OutOfFuel
               | Suc n \<Rightarrow> run_bind (loop_iteration n env r s) (loop_while n env r))"

declare loop_while.simps [simp del]

definition nos_scheduler_run_loop ::
  "nat \<Rightarrow> (ptr \<Rightarrow> ptr \<Rightarrow> 'z node_scheme \<Rightarrow> nos_status \<times> 'z node_scheme) \<Rightarrow> 'z loop_env \<Rightarrow> thread_ref \<Rightarrow> 'z node_scheme
     \<Rightarrow> (nos_status \<times> 'z node_scheme) run" where
  "nos_scheduler_run_loop fuel start env r s = loop_while fuel env r (start_components start r s)"

section \<open>Properties\<close>

lemma start_component_comps:
  assumes "\<And>f c s. start f c s = (res f c, run f c s)" "\<And>f c s. comps (run f c s) = comps s"
  shows "comps (start_component start c s) = (comps s)(c := map_option (\<lambda>cp.
      if c \<noteq> NULL \<and> comp_start cp \<noteq> NULL \<and> res (comp_start cp) c = NOS_OK
      then cp\<lparr>comp_status := NOS_COMP_ST_ACTIVE\<rparr> else cp) (comps s c))"
  by (auto simp: start_component_def assms Let_def fun_eq_iff split: option.splits)

lemma start_all_comps:
  assumes "\<And>f c s. start f c s = (res f c, run f c s)" "\<And>f c s. comps (run f c s) = comps s"
  shows "comps (foldl (\<lambda>s c. start_component start c s) s cs) c =
    (if c \<in> set cs then map_option (\<lambda>cp.
      if c \<noteq> NULL \<and> comp_start cp \<noteq> NULL \<and> res (comp_start cp) c = NOS_OK
      then cp\<lparr>comp_status := NOS_COMP_ST_ACTIVE\<rparr> else cp) (comps s c) else comps s c)"
proof (induction cs arbitrary: s)
  case (Cons d cs)
  show ?case
    using Cons.IH[of "start_component start d s"] start_component_comps[OF assms, where c = d and s = s]
    by (auto simp: option.map_comp comp_def intro!: option.map_cong0)
qed simp

text \<open>
  Starting a thread: exactly the components of the thread that have a start handler which
  succeeds become active; all other components keep their status.
\<close>

theorem start_components_correct:
  assumes "\<And>f c s. start f c s = (res f c, run f c s)" "\<And>f c s. comps (run f c s) = comps s"
    "threads s r = Some th"
  shows "comps (start_components start r s) c =
    (if c \<in> set (thread_comps th) then map_option (\<lambda>cp.
      if c \<noteq> NULL \<and> comp_start cp \<noteq> NULL \<and> res (comp_start cp) c = NOS_OK
      then cp\<lparr>comp_status := NOS_COMP_ST_ACTIVE\<rparr> else cp) (comps s c) else comps s c)"
  unfolding start_components_def assms(3) option.case by (rule start_all_comps[OF assms(1,2)])

theorem start_components_correct_witness:
  "comps (start_components (\<lambda>f c s. (NOS_OK, s)) (Worker 0) idle_node) 7 =
     Some \<lparr>comp_id = 7, comp_name = ''hb'', comp_status = NOS_COMP_ST_ACTIVE, comp_init = 1, comp_start = 2,
           comp_stop = 3, comp_on_msg = 4\<rparr>"
proof -
  let ?th = "(sample_thread [])\<lparr>msg_queue := replicate MAX_QUEUE_SIZE None, head := 0, tail := 0, is_sleeping := True\<rparr>"
  have th: "threads idle_node (Worker 0) = Some ?th" by (simp add: idle_node_def msg_node_def)
  show ?thesis
    using start_components_correct[of "\<lambda>f c s. (NOS_OK, s)" "\<lambda>_ _. NOS_OK" "\<lambda>_ _ s. s", OF _ _ th, of 7]
    by (simp add: thread_comps_def sample_thread_def idle_node_def msg_node_def)
qed

text \<open>
  Sleeping until the next timer: in an ordered heap the timeout passed to \<open>epoll_wait\<close> is 0
  when some timer of the thread is due, and otherwise the time to the earliest of them, as long
  as that is below \<open>2 ^ 31\<close> milliseconds; a thread without timers waits without a timeout.
\<close>

theorem wait_timeout_correct:
  assumes "timers_wf s" "heaps_sorted s" "heap_of s r = Some h" "wait_timeout r s = (timeout, s')"
  defines "now \<equiv> timespec_ms (clock s (clock_reads s))"
  shows "((waiting s r = []) \<longrightarrow> (timeout = - 1)) \<and>
    ((p \<in> set (waiting s r)) \<longrightarrow> (timer_key s p \<le> now) \<longrightarrow> (timeout = 0)) \<and>
    ((p \<in> set (waiting s r)) \<longrightarrow> (\<forall>q \<in> set (waiting s r). now < timer_key s q \<and> timer_key s p \<le> timer_key s q) \<longrightarrow> (unat (timer_key s p - now) < 2 ^ 31) \<longrightarrow> (timeout = int (unat (timer_key s p - now))))"
proof (rule conjI[OF impI conjI[OF impI[OF impI] impI[OF impI[OF impI]]]])
  have b: "heap_bounds h" and so: "heap_sorted (timer_key s) h"
    using timers_wf_bounds[OF assms(1,3)] assms(2,3) by (auto simp: heaps_sorted_def)
  have w: "waiting s r = heap_list h" using waiting_heap[OF assms(3)] .
  have t: "timeout = (if heap_size h > 0 then
      (if timer_key s (heap_nodes h ! 0) \<le> now then 0 else sint (ucast (timer_key s (heap_nodes h ! 0) - now) :: u32)) else - 1)"
    using assms(3,4) by (auto simp: wait_timeout_def Let_def get_monotonic_ms_def now_def split: if_splits)
  show "waiting s r = [] \<Longrightarrow> timeout = - 1"
    using t heap_list_nonempty[OF b] w by (cases "heap_size h") auto
  show "timeout = 0" if "p \<in> set (waiting s r)" "timer_key s p \<le> now"
  proof -
    have "timer_key s (heap_nodes h ! 0) \<le> timer_key s p" using heap_root_least[OF b so] that w by simp
    moreover have "0 < heap_size h" using heap_list_nonempty[OF b] that w by (cases "heap_size h") auto
    ultimately show ?thesis using t that(2) by auto
  qed
  show "timeout = int (unat (timer_key s p - now))"
    if p: "p \<in> set (waiting s r)" "\<forall>q \<in> set (waiting s r). now < timer_key s q \<and> timer_key s p \<le> timer_key s q"
      "unat (timer_key s p - now) < 2 ^ 31"
  proof -
    let ?q = "heap_nodes h ! 0"
    have sz: "0 < heap_size h" using heap_list_nonempty[OF b] p(1) w by (cases "heap_size h") auto
    have "?q \<in> set (waiting s r)" using heap_nodes_in_list[OF b sz] w by simp
    then have q: "timer_key s ?q = timer_key s p" "\<not> timer_key s ?q \<le> now"
      using p(1,2) heap_root_least[OF b so] w by (auto simp: not_le intro: antisym)
    let ?d = "timer_key s p - now"
    have u: "unat (ucast ?d :: u32) = unat ?d" using p(3) by (simp add: unsigned_ucast_eq take_bit_nat_eq_self)
    have "sint (ucast ?d :: u32) = int (unat (ucast ?d :: u32))" by (rule sint_small) (use p(3) u in simp)
    then show ?thesis using t sz q unfolding u by simp
  qed
qed

text \<open>A node of the event loop with one waiting timer.\<close>

definition timer_node :: "u64 \<Rightarrow> (ptr \<times> ptr) list tnode_scheme" where
  "timer_node e = sample_node 5 [(1, sample_timer e 0 False)] [1]"

lemma timer_node_ok: "timers_wf (timer_node e)" "heaps_sorted (timer_node e)"
  by (auto simp: timer_node_def sample_defs wf_defs)

lemma timer_node_waiting: "waiting (timer_node e) (Worker 0) = [1]" "timer_key (timer_node e) 1 = e"
    "timespec_ms (clock (timer_node e) k) = 5000" "\<exists>h. heap_of (timer_node e) (Worker 0) = Some h"
  by (simp_all add: timer_node_def sample_defs waiting_def heap_of_def heap_list_def timer_key_def timespec_ms_def)

theorem wait_timeout_correct_witness:
  "fst (wait_timeout (Worker 0) (timer_node 9000)) = 4000"
proof -
  obtain h where h: "heap_of (timer_node 9000) (Worker 0) = Some h" using timer_node_waiting(4) by blast
  obtain t s where w: "wait_timeout (Worker 0) (timer_node 9000) = (t, s)" by (metis prod.exhaust)
  show ?thesis
    using wait_timeout_correct[OF timer_node_ok h w, of 1, THEN conjunct2, THEN conjunct2, rule_format] w by (simp add: timer_node_waiting timer_node_waiting(2)[simplified])
qed

text \<open>
  A timer more than \<open>2 ^ 31\<close> milliseconds away puts its thread to sleep for good: the
  difference is cut to a C \<open>int\<close> and becomes negative, which \<open>epoll_wait\<close> takes as no timeout.
\<close>

theorem wait_timeout_overflow:
  "fst (wait_timeout (Worker 0) (timer_node (5000 + 2147483648))) = - 2147483648"
  by code_simp

section \<open>The component table\<close>

text \<open>
  The components of a thread: registering appends one while there are fewer than 32, and
  unregistering takes out one occurrence of a registered component and fails for any other;
  what is left keeps its place in the table except for the last, which fills the gap. A \<open>NULL\<close>
  thread or component is refused.
\<close>

theorem component_table_correct:
  assumes "comps_ok th"
  shows "((cp \<noteq> NULL) \<longrightarrow> (nos_scheduler_register_component (Some th) cp = (st, th1)) \<longrightarrow> ((if length (thread_comps th) = MAX_COMP_PER_THREAD then st = NOS_ERR \<and> th1 = Some th
       else st = NOS_OK \<and> (\<exists>t. th1 = Some t \<and> comps_ok t \<and> thread_comps t = thread_comps th @ [cp])))) \<and>
    ((cp \<noteq> NULL) \<longrightarrow> (nos_scheduler_unregister_component (Some th) cp = (st, th1)) \<longrightarrow> ((if cp \<in> set (thread_comps th)
       then st = NOS_OK \<and> (\<exists>t. th1 = Some t \<and> comps_ok t \<and> mset (thread_comps t) = mset (thread_comps th) - {#cp#})
       else st = NOS_ERR \<and> th1 = Some th))) \<and>
    (fst (nos_scheduler_register_component None cp) = NOS_ERR) \<and>
    (fst (nos_scheduler_unregister_component (Some th) NULL) = NOS_ERR)"
proof (rule conjI[OF impI[OF impI] conjI[OF impI[OF impI] conjI]])
  show "if length (thread_comps th) = MAX_COMP_PER_THREAD then st = NOS_ERR \<and> th1 = Some th
       else st = NOS_OK \<and> (\<exists>t. th1 = Some t \<and> comps_ok t \<and> thread_comps t = thread_comps th @ [cp])"
    if "cp \<noteq> NULL" "nos_scheduler_register_component (Some th) cp = (st, th1)"
    using register_comps[OF assms that(1)] that(2) by auto
  show "if cp \<in> set (thread_comps th)
       then st = NOS_OK \<and> (\<exists>t. th1 = Some t \<and> comps_ok t \<and> mset (thread_comps t) = mset (thread_comps th) - {#cp#})
       else st = NOS_ERR \<and> th1 = Some th"
    if "cp \<noteq> NULL" "nos_scheduler_unregister_component (Some th) cp = (st, th1)"
    using unregister_comps[OF assms that(1)] that(2) by auto
  show "fst (nos_scheduler_register_component None cp) = NOS_ERR"
    "fst (nos_scheduler_unregister_component (Some th) NULL) = NOS_ERR"
    by (simp_all add: nos_scheduler_register_component_def nos_scheduler_unregister_component_def)
qed

theorem component_table_correct_witness:
  "\<exists>t1 t2. nos_scheduler_register_component (Some sample_fd_thread) 8 = (NOS_OK, Some t1) \<and>
     thread_comps t1 = [8] \<and> comps_ok t1"
proof -
  have ok: "comps_ok sample_fd_thread" "thread_comps sample_fd_thread = []" by code_simp+
  obtain st t where r: "nos_scheduler_register_component (Some sample_fd_thread) 8 = (st, t)" by (metis prod.exhaust)
  show ?thesis
    using component_table_correct[OF ok(1), THEN conjunct1, rule_format, OF _ r] ok(2) r by (auto simp: MAX_COMP_PER_THREAD_def)
qed

end
