(* ===== verification/Wakeup.thy ===== *)
theory Wakeup
  imports Messages
begin

text \<open>
  Going to sleep and waking up (\<open>nos_scheduler.c\<close>): the event loop of one thread, any number
  of threads that run \<open>nos_transport_local_send\<close> to it, and one that runs \<open>nos_scheduler_stop\<close>,
  interleaved. One step is one access to the shared fields of the thread; the critical section
  that appends a message is one step, as is taking a message.

  \<open>fence\<close> says whether a sender's read of \<open>is_sleeping\<close> stays behind its append. The code has a
  sequentially consistent fence in the loop but none in the sender, where only the release of the
  mutex separates the two, so a weakly ordered machine may perform the read first
  (\<open>fence = False\<close>); with \<open>fence = True\<close> the steps are sequentially consistent.
\<close>

section \<open>The steps\<close>

datatype loop_pc = LTop | LSpin | LWork | LPoll | LArm | LRecheck | LCancel | LWait | LAwake bool | LEvents bool | LDrain | LDone

datatype send_pc = SIdle | STest | SWrite | SEarly bool

datatype stop_pc = StopIdle | StopWrite | StopDone

record wake_sys =
  wth :: nos_thread
  wloop :: loop_pc
  wsend :: "nat \<Rightarrow> send_pc"
  wstop :: stop_pc

definition goto :: "loop_pc \<Rightarrow> (nos_thread \<Rightarrow> nos_thread) \<Rightarrow> wake_sys \<Rightarrow> wake_sys" where
  "goto pc f s = s\<lparr>wth := f (wth s), wloop := pc\<rparr>"

definition send_goto :: "nat \<Rightarrow> send_pc \<Rightarrow> (nos_thread \<Rightarrow> nos_thread) \<Rightarrow> wake_sys \<Rightarrow> wake_sys" where
  "send_goto i pc f s = s\<lparr>wth := f (wth s), wsend := (wsend s)(i := pc)\<rparr>"

text \<open>Reading the eventfd resets its counter.\<close>

definition eventfd_read :: "nos_thread \<Rightarrow> nos_thread" where
  "eventfd_read th = th\<lparr>notify_count := 0\<rparr>"

definition set_sleeping :: "bool \<Rightarrow> nos_thread \<Rightarrow> nos_thread" where
  "set_sleeping b th = th\<lparr>is_sleeping := b\<rparr>"

text \<open>
  The loop: \<open>LTop\<close> tests \<open>stop_requested\<close>, \<open>LSpin\<close> is the busy-wait and the test after it,
  \<open>LWork\<close>/\<open>LDrain\<close> are \<open>process_thread_messages\<close> on the fast path and after a sleep, \<open>LPoll\<close>
  the \<open>epoll_wait\<close> with timeout 0, \<open>LArm\<close>, \<open>LRecheck\<close>, \<open>LCancel\<close> the announcement of the sleep
  and the double check, \<open>LWait\<close> the blocking \<open>epoll_wait\<close>. It may always return without the
  eventfd, for a timer or another descriptor.
\<close>

inductive loop_step :: "wake_sys \<Rightarrow> wake_sys \<Rightarrow> bool" where
  top_stop: "wloop s = LTop \<Longrightarrow> stop_requested (wth s) \<Longrightarrow> loop_step s (goto LDone id s)"
| top_go: "wloop s = LTop \<Longrightarrow> \<not> stop_requested (wth s) \<Longrightarrow> loop_step s (goto LSpin id s)"
| spin_busy: "wloop s = LSpin \<Longrightarrow> head (wth s) \<noteq> tail (wth s) \<Longrightarrow> loop_step s (goto LWork id s)"
| spin_idle: "wloop s = LSpin \<Longrightarrow> head (wth s) = tail (wth s) \<Longrightarrow> loop_step s (goto LArm id s)"
| work_pop: "wloop s = LWork \<Longrightarrow> thread_pop (wth s) = Some (b, th) \<Longrightarrow> loop_step s (goto LWork (\<lambda>_. th) s)"
| work_done: "wloop s = LWork \<Longrightarrow> thread_pop (wth s) = None \<Longrightarrow> loop_step s (goto LPoll id s)"
| poll_event: "wloop s = LPoll \<Longrightarrow> notify_count (wth s) > 0 \<Longrightarrow> loop_step s (goto LTop eventfd_read s)"
| poll_none: "wloop s = LPoll \<Longrightarrow> notify_count (wth s) = 0 \<Longrightarrow> loop_step s (goto LTop id s)"
| arm: "wloop s = LArm \<Longrightarrow> loop_step s (goto LRecheck (set_sleeping True) s)"
| recheck_busy: "wloop s = LRecheck \<Longrightarrow> head (wth s) \<noteq> tail (wth s) \<or> stop_requested (wth s) \<Longrightarrow>
    loop_step s (goto LCancel id s)"
| recheck_idle: "wloop s = LRecheck \<Longrightarrow> head (wth s) = tail (wth s) \<Longrightarrow> \<not> stop_requested (wth s) \<Longrightarrow>
    loop_step s (goto LWait id s)"
| cancel: "wloop s = LCancel \<Longrightarrow> loop_step s (goto LTop (set_sleeping False) s)"
| wait_event: "wloop s = LWait \<Longrightarrow> notify_count (wth s) > 0 \<Longrightarrow> loop_step s (goto (LAwake True) id s)"
| wait_other: "wloop s = LWait \<Longrightarrow> notify_count (wth s) = 0 \<Longrightarrow> loop_step s (goto (LAwake False) id s)"
| awake: "wloop s = LAwake b \<Longrightarrow> loop_step s (goto (LEvents b) (set_sleeping False) s)"
| events_read: "wloop s = LEvents True \<Longrightarrow> loop_step s (goto LDrain eventfd_read s)"
| events_none: "wloop s = LEvents False \<Longrightarrow> loop_step s (goto LTop id s)"
| drain_pop: "wloop s = LDrain \<Longrightarrow> thread_pop (wth s) = Some (b, th) \<Longrightarrow> loop_step s (goto LDrain (\<lambda>_. th) s)"
| drain_done: "wloop s = LDrain \<Longrightarrow> thread_pop (wth s) = None \<Longrightarrow> loop_step s (goto LTop id s)"

inductive send_step :: "bool \<Rightarrow> wake_sys \<Rightarrow> wake_sys \<Rightarrow> bool" for fence where
  append: "wsend s i = SIdle \<Longrightarrow> thread_enq b (wth s) = Some th \<Longrightarrow> send_step fence s (send_goto i STest (\<lambda>_. th) s)"
| test_awake: "wsend s i = STest \<Longrightarrow> \<not> is_sleeping (wth s) \<Longrightarrow> send_step fence s (send_goto i SIdle id s)"
| test_asleep: "wsend s i = STest \<Longrightarrow> is_sleeping (wth s) \<Longrightarrow> send_step fence s (send_goto i SWrite id s)"
| wake: "wsend s i = SWrite \<Longrightarrow> send_step fence s (send_goto i SIdle eventfd_write s)"
| test_first: "\<not> fence \<Longrightarrow> wsend s i = SIdle \<Longrightarrow> send_step fence s (send_goto i (SEarly (is_sleeping (wth s))) id s)"
| append_late: "wsend s i = SEarly a \<Longrightarrow> thread_enq b (wth s) = Some th \<Longrightarrow>
    send_step fence s (send_goto i (if a then SWrite else SIdle) (\<lambda>_. th) s)"
| stop_set: "wstop s = StopIdle \<Longrightarrow> send_step fence s (s\<lparr>wth := (wth s)\<lparr>stop_requested := True\<rparr>, wstop := StopWrite\<rparr>)"
| stop_write: "wstop s = StopWrite \<Longrightarrow> send_step fence s (s\<lparr>wth := eventfd_write (wth s), wstop := StopDone\<rparr>)"

inductive wake_reach :: "bool \<Rightarrow> wake_sys \<Rightarrow> bool" for fence where
  init: "queue_ok th \<Longrightarrow> \<not> is_sleeping th \<Longrightarrow> \<not> stop_requested th \<Longrightarrow>
    wake_reach fence \<lparr>wth = th, wloop = LTop, wsend = \<lambda>_. SIdle, wstop = StopIdle\<rparr>"
| loop: "wake_reach fence s \<Longrightarrow> loop_step s s' \<Longrightarrow> wake_reach fence s'"
| send: "wake_reach fence s \<Longrightarrow> send_step fence s s' \<Longrightarrow> wake_reach fence s'"

inductive_cases loop_stepE: "loop_step s s'"
inductive_cases send_stepE: "send_step fence s s'"

section \<open>Invariant\<close>

lemma goto_simps [simp]:
  "wth (goto pc f s) = f (wth s)" "wloop (goto pc f s) = pc" "wsend (goto pc f s) = wsend s" "wstop (goto pc f s) = wstop s"
  by (simp_all add: goto_def)

lemma send_goto_simps [simp]:
  "wth (send_goto i p f s) = f (wth s)" "wloop (send_goto i p f s) = wloop s"
  "wsend (send_goto i p f s) = (wsend s)(i := p)" "wstop (send_goto i p f s) = wstop s"
  by (simp_all add: send_goto_def)

lemma eventfd_read_simps [simp]:
  "head (eventfd_read th) = head th" "tail (eventfd_read th) = tail th" "is_sleeping (eventfd_read th) = is_sleeping th"
  "stop_requested (eventfd_read th) = stop_requested th" "notify_count (eventfd_read th) = 0"
  "msg_queue (eventfd_read th) = msg_queue th"
  by (simp_all add: eventfd_read_def)

lemma set_sleeping_simps [simp]:
  "head (set_sleeping b th) = head th" "tail (set_sleeping b th) = tail th" "is_sleeping (set_sleeping b th) = b"
  "stop_requested (set_sleeping b th) = stop_requested th" "notify_count (set_sleeping b th) = notify_count th"
  "msg_queue (set_sleeping b th) = msg_queue th"
  by (simp_all add: set_sleeping_def)

text \<open>Something the sleeping thread has to see, and somebody who is about to write the eventfd.\<close>

definition work_pending :: "nos_thread \<Rightarrow> bool" where
  "work_pending th \<longleftrightarrow> head th \<noteq> tail th \<or> stop_requested th"

definition wake_on_way :: "wake_sys \<Rightarrow> bool" where
  "wake_on_way s \<longleftrightarrow> notify_count (wth s) > 0 \<or> (\<exists>i. wsend s i = STest \<or> wsend s i = SWrite) \<or> wstop s = StopWrite"

definition wake_inv :: "wake_sys \<Rightarrow> bool" where
  "wake_inv s \<longleftrightarrow>
     (wloop s = LRecheck \<or> wloop s = LCancel \<or> wloop s = LWait \<longrightarrow> is_sleeping (wth s)) \<and>
     (wloop s = LWait \<longrightarrow> work_pending (wth s) \<longrightarrow> wake_on_way s) \<and>
     (\<forall>i a. wsend s i \<noteq> SEarly a)"

lemma thread_enq_frame:
  "thread_enq b th = Some th' \<Longrightarrow>
     is_sleeping th' = is_sleeping th \<and> stop_requested th' = stop_requested th \<and> notify_count th' = notify_count th \<and> head th' \<noteq> tail th'"
  by (auto simp: thread_enq_def Let_def split: if_splits)

lemma wake_inv_loop: "loop_step s s' \<Longrightarrow> wake_inv s \<Longrightarrow> wake_inv s'"
  by (induction rule: loop_step.induct) (simp_all add: wake_inv_def work_pending_def wake_on_way_def)

lemma wake_inv_send:
  assumes "send_step True s s'" "wake_inv s"
  shows "wake_inv s'"
  using assms(1)
proof cases
  case (append i b th)
  then show ?thesis using assms(2) thread_enq_frame[of b "wth s" th] by (auto simp: wake_inv_def wake_on_way_def)
next
  case (test_awake i)
  then show ?thesis using assms(2) by (auto simp: wake_inv_def wake_on_way_def)
next
  case (test_asleep i)
  then show ?thesis using assms(2) by (auto simp: wake_inv_def wake_on_way_def)
next
  case (wake i)
  then show ?thesis using assms(2) by (auto simp: wake_inv_def wake_on_way_def)
next
  case (append_late i a b th)
  then show ?thesis using assms(2) by (auto simp: wake_inv_def)
qed (use assms(2) in \<open>auto simp: wake_inv_def wake_on_way_def\<close>)

lemma wake_reach_inv: "wake_reach True s \<Longrightarrow> wake_inv s"
proof (induction rule: wake_reach.induct)
  case (init th)
  then show ?case by (simp add: wake_inv_def)
next
  case (loop s s')
  then show ?case by (blast intro: wake_inv_loop)
next
  case (send s s')
  then show ?case by (blast intro: wake_inv_send)
qed

section \<open>A thread that goes to sleep\<close>

definition idle_thread :: nos_thread where
  "idle_thread = \<lparr>thread_id = 0, thread_name = ''Worker-1'', epoll_set = Map.empty, notify_fd = 3, notify_count = 0,
     notify_entry = \<lparr>fde_fd = 3, fde_callback = NULL, fde_arg = 0\<rparr>, stop_requested = False,
     is_sleeping = False, msg_queue = replicate MAX_QUEUE_SIZE None, head = 0, tail = 0, components = [],
     component_count = 0, fd_entries = [], fd_count = 0,
     timer_heap = \<lparr>heap_nodes = [], heap_size = 0, heap_capacity = 0\<rparr>\<rparr>"

definition idle_sys :: wake_sys where
  "idle_sys = \<lparr>wth = idle_thread, wloop = LTop, wsend = \<lambda>_. SIdle, wstop = StopIdle\<rparr>"

lemma idle_thread_simps [simp]:
  "head idle_thread = 0" "tail idle_thread = 0" "is_sleeping idle_thread = False" "stop_requested idle_thread = False"
  "notify_count idle_thread = 0"
  by (simp_all add: idle_thread_def)

lemma idle_sys_reach: "wake_reach fence idle_sys"
proof -
  have "queue_ok idle_thread"
    by (simp add: queue_ok_def ring_ok_def thread_slots_def ring_items_def ring_used_def idle_thread_def MAX_QUEUE_SIZE_def)
  then show ?thesis unfolding idle_sys_def by (rule wake_reach.init) simp_all
qed

lemma idle_sys_simps [simp]:
  "wth idle_sys = idle_thread" "wloop idle_sys = LTop" "wsend idle_sys = (\<lambda>_. SIdle)" "wstop idle_sys = StopIdle"
  by (simp_all add: idle_sys_def)

text \<open>From the top of the loop to \<open>epoll_wait\<close>, with nothing to do.\<close>

lemma falls_asleep:
  assumes "wake_reach fence s" "wloop s = LTop" "head (wth s) = tail (wth s)" "\<not> stop_requested (wth s)"
  shows "wake_reach fence (goto LWait (set_sleeping True) s)"
proof -
  have "loop_step s (goto LSpin id s)" using assms by (intro top_go)
  then have "wake_reach fence (goto LSpin id s)" using assms(1) by (blast intro: wake_reach.loop)
  moreover have "loop_step (goto LSpin id s) (goto LArm id (goto LSpin id s))" using assms by (intro spin_idle) simp_all
  ultimately have "wake_reach fence (goto LArm id (goto LSpin id s))" by (blast intro: wake_reach.loop)
  moreover have "loop_step (goto LArm id (goto LSpin id s)) (goto LRecheck (set_sleeping True) (goto LArm id (goto LSpin id s)))"
    by (intro arm) simp
  ultimately have "wake_reach fence (goto LRecheck (set_sleeping True) (goto LArm id (goto LSpin id s)))"
    by (blast intro: wake_reach.loop)
  moreover have "loop_step (goto LRecheck (set_sleeping True) (goto LArm id (goto LSpin id s)))
     (goto LWait id (goto LRecheck (set_sleeping True) (goto LArm id (goto LSpin id s))))"
    using assms by (intro recheck_idle) simp_all
  ultimately have "wake_reach fence (goto LWait id (goto LRecheck (set_sleeping True) (goto LArm id (goto LSpin id s))))"
    by (blast intro: wake_reach.loop)
  then show ?thesis by (simp add: goto_def)
qed

lemma idle_enq: "thread_enq (PoolBuf 0 0) (set_sleeping b idle_thread) =
    Some ((set_sleeping b idle_thread)\<lparr>msg_queue := (replicate MAX_QUEUE_SIZE None)[0 := Some (PoolBuf 0 0)], tail := Suc 0\<rparr>)"
  by (simp add: thread_enq_def set_sleeping_def idle_thread_def MAX_QUEUE_SIZE_def)

section \<open>Properties\<close>

text \<open>
  C8 No wakeup is lost when the sender's test of \<open>is_sleeping\<close> follows its append: in every
  reachable state, if the thread is blocked in \<open>epoll_wait\<close> while a message is queued or a stop is
  requested, then its eventfd is readable or the steps of a sender (or of the stopping thread)
  that are left make it so; when nobody is sending or stopping, a thread blocked with nothing to
  read has an empty queue.
\<close>

theorem no_lost_wakeup:
  assumes "wake_reach True s" "wloop s = LWait" "work_pending (wth s)"
  shows "(\<exists>s'. (send_step True)\<^sup>*\<^sup>* s s' \<and> wloop s' = LWait \<and> notify_count (wth s') > 0) \<and>
    ((notify_count (wth s) = 0) \<longrightarrow> ((\<exists>i. wsend s i \<noteq> SIdle) \<or> wstop s = StopWrite))"
proof (rule conjI[OF _ impI])
  have inv: "wake_inv s" by (rule wake_reach_inv[OF assms(1)])
  then have way: "wake_on_way s" and sl: "is_sleeping (wth s)" using assms by (auto simp: wake_inv_def)
  show "\<exists>s'. (send_step True)\<^sup>*\<^sup>* s s' \<and> wloop s' = LWait \<and> notify_count (wth s') > 0"
  proof -
    have wr: "\<exists>s'. (send_step True)\<^sup>*\<^sup>* u s' \<and> wloop s' = LWait \<and> notify_count (wth s') > 0"
      if "wsend u i = SWrite" "wloop u = LWait" for u i
      using send_step.wake[of u i True] that
      by (intro exI[of _ "send_goto i SIdle eventfd_write u"]) auto
    consider "notify_count (wth s) > 0" | i where "wsend s i = STest" | i where "wsend s i = SWrite" | "wstop s = StopWrite"
      using way by (auto simp: wake_on_way_def)
    then show ?thesis
    proof cases
      case 1
      then show ?thesis using assms(2) by blast
    next
      case (2 i)
      have "send_step True s (send_goto i SWrite id s)" using 2 sl by (rule send_step.test_asleep)
      moreover obtain s' where "(send_step True)\<^sup>*\<^sup>* (send_goto i SWrite id s) s'" "wloop s' = LWait" "notify_count (wth s') > 0"
        using wr[of "send_goto i SWrite id s" i] assms(2) by auto
      ultimately show ?thesis by (meson converse_rtranclp_into_rtranclp)
    next
      case (3 i)
      then show ?thesis using wr assms(2) by blast
    next
      case 4
      then show ?thesis
        using send_step.stop_write[of s True] assms(2)
        by (intro exI[of _ "s\<lparr>wth := eventfd_write (wth s), wstop := StopDone\<rparr>"]) auto
    qed
  qed
  show "(\<exists>i. wsend s i \<noteq> SIdle) \<or> wstop s = StopWrite" if "notify_count (wth s) = 0"
    using way that by (metis less_numeral_extra(3) send_pc.distinct(1,3) wake_on_way_def)
qed

theorem no_lost_wakeup_witness:
  "\<exists>s s'. wake_reach True s \<and> wloop s = LWait \<and> work_pending (wth s) \<and>
     (send_step True)\<^sup>*\<^sup>* s s' \<and> wloop s' = LWait \<and> notify_count (wth s') > 0"
proof -
  define th where "th = (set_sleeping True idle_thread)\<lparr>msg_queue := (replicate MAX_QUEUE_SIZE None)[0 := Some (PoolBuf 0 0)], tail := Suc 0\<rparr>"
  define s where "s = send_goto 0 STest (\<lambda>_. th) (goto LWait (set_sleeping True) idle_sys)"
  have "wake_reach True (goto LWait (set_sleeping True) idle_sys)" by (rule falls_asleep[OF idle_sys_reach]) simp_all
  moreover have "send_step True (goto LWait (set_sleeping True) idle_sys) s"
    unfolding s_def by (rule append[where b = "PoolBuf 0 0"]) (simp_all add: idle_enq th_def)
  ultimately have r: "wake_reach True s" by (blast intro: wake_reach.send)
  have p: "wloop s = LWait" "work_pending (wth s)"
    by (simp_all add: s_def th_def work_pending_def set_sleeping_def)
  show ?thesis using no_lost_wakeup[OF r p, THEN conjunct1] r p by blast
qed

text \<open>
  The double check is not enough on a weakly ordered machine: when a sender's read of
  \<open>is_sleeping\<close> is performed before its append becomes visible, the thread ends up blocked in
  \<open>epoll_wait\<close> with a message in its queue, nothing to read from the eventfd, and no sender
  that is still going to write it.
\<close>

theorem unfenced_sender_loses_wakeup:
  "\<exists>s. wake_reach False s \<and> wloop s = LWait \<and> thread_msgs (wth s) = [PoolBuf 0 0] \<and>
     notify_count (wth s) = 0 \<and> wsend s = (\<lambda>_. SIdle) \<and> wstop s = StopIdle"
proof -
  define th where "th = (set_sleeping True idle_thread)\<lparr>msg_queue := (replicate MAX_QUEUE_SIZE None)[0 := Some (PoolBuf 0 0)], tail := Suc 0\<rparr>"
  define s1 where "s1 = send_goto 0 (SEarly False) id idle_sys"
  define s2 where "s2 = goto LWait (set_sleeping True) s1"
  define s3 where "s3 = send_goto 0 SIdle (\<lambda>_. th) s2"
  have "send_step False idle_sys s1"
    using test_first[of False idle_sys 0] by (simp add: s1_def)
  then have r1: "wake_reach False s1" using idle_sys_reach by (blast intro: wake_reach.send)
  have r2: "wake_reach False s2" unfolding s2_def by (rule falls_asleep[OF r1]) (simp_all add: s1_def)
  have "send_step False s2 s3"
    using append_late[of s2 0 False "PoolBuf 0 0" th False] by (simp add: s3_def s2_def s1_def idle_enq th_def)
  then have "wake_reach False s3" using r2 by (blast intro: wake_reach.send)
  moreover have "thread_msgs (wth s3) = [PoolBuf 0 0]"
    by (simp add: s3_def th_def thread_msgs_def thread_slots_def ring_items_def ring_used_def MAX_QUEUE_SIZE_def
        set_sleeping_def idle_thread_def)
  moreover have "wloop s3 = LWait" "notify_count (wth s3) = 0" "wsend s3 = (\<lambda>_. SIdle)" "wstop s3 = StopIdle"
    by (simp_all add: s3_def s2_def s1_def th_def set_sleeping_def fun_eq_iff)
  ultimately show ?thesis by blast
qed

end
