(* ===== verification/KvStore.thy ===== *)
theory KvStore
  imports NodeState KeyedTable
begin

text \<open>
  The key-value store (\<open>src/infra/db/nos_kv.c\<close>, \<open>nos_kv_priv.h\<close>): tables with keys of a fixed
  size, hashed into buckets whose entries are chained by index. An operation is modelled as it
  runs by itself, between taking and releasing the lock of its bucket. \<open>None\<close> stands for a call
  that does not return: a walk along a cyclic chain, the wait for a lock whose readers never release it,
  or the loop that rounds up the number of buckets.
\<close>

unbundle bit_operations_syntax

type_synonym bytes = "u8 list"

section \<open>The hash function\<close>

text \<open>A 32-bit load on a little-endian machine.\<close>

definition load_u32 :: "u8 \<Rightarrow> u8 \<Rightarrow> u8 \<Rightarrow> u8 \<Rightarrow> u32" where
  "load_u32 a b c d = ucast a OR push_bit 8 (ucast b) OR push_bit 16 (ucast c) OR push_bit 24 (ucast d)"

definition rotl :: "nat \<Rightarrow> u32 \<Rightarrow> u32" where
  "rotl r x = push_bit r x OR drop_bit (32 - r) x"

definition mix_k1 :: "u32 \<Rightarrow> u32" where
  "mix_k1 k1 = rotl 15 (k1 * 0xcc9e2d51) * 0x1b873593"

definition mix_h1 :: "u32 \<Rightarrow> u32 \<Rightarrow> u32" where
  "mix_h1 h1 k1 = rotl 13 (h1 XOR mix_k1 k1) * 5 + 0xe6546b64"

text \<open>The loop over the whole blocks, then the \<open>switch\<close> over the bytes that are left.\<close>

fun murmur_body :: "u32 \<Rightarrow> bytes \<Rightarrow> u32" where
  "murmur_body h1 (a # b # c # d # rest) = murmur_body (mix_h1 h1 (load_u32 a b c d)) rest"
| "murmur_body h1 [a, b, c] = h1 XOR mix_k1 (push_bit 16 (ucast c) XOR push_bit 8 (ucast b) XOR ucast a)"
| "murmur_body h1 [a, b] = h1 XOR mix_k1 (push_bit 8 (ucast b) XOR ucast a)"
| "murmur_body h1 [a] = h1 XOR mix_k1 (ucast a)"
| "murmur_body h1 [] = h1"

definition murmur_final :: "u32 \<Rightarrow> u32" where
  "murmur_final h =
     (let h = h XOR drop_bit 16 h; h = h * 0x85ebca6b; h = h XOR drop_bit 13 h; h = h * 0xc2b2ae35
      in h XOR drop_bit 16 h)"

definition murmurhash3_32 :: "bytes \<Rightarrow> u32 \<Rightarrow> u32" where
  "murmurhash3_32 key seed = murmur_final (murmur_body seed key XOR of_nat (length key))"

section \<open>Tables\<close>

definition KV_INVALID_IDX :: u32 where "KV_INVALID_IDX = 0xFFFFFFFF"

definition MAX_TABLES :: nat where "MAX_TABLES = 32"

record nos_kv_sub =
  sub_notify :: ptr
  sub_arg :: ptr

text \<open>An entry: the flexible array is the key of \<open>key_size\<close> bytes and the value area after it.\<close>

record nos_kv_entry =
  next_idx :: u32
  val_len :: u32
  sub_list :: "nos_kv_sub list"
  key_data :: bytes
  val_data :: bytes

record nos_kv_bucket =
  readers :: nat
  first_idx :: u32

text \<open>
  \<open>pool_mem\<close> maps the byte offset of an entry to the entry. The offset \<open>idx * entry_size\<close>
  is computed in 32 bits; as long as the pool does not exceed 4 GB, distinct indices have
  distinct, disjoint entries.
\<close>

record nos_kv_table =
  table_name :: string
  key_size :: u32
  max_val_size :: u32
  entry_size :: u32
  capacity :: u32
  buckets :: "nos_kv_bucket list"
  bucket_count :: u32
  pool_mem :: "u32 \<Rightarrow> nos_kv_entry"
  free_stack :: "u32 list"
  free_top :: int
  used_count :: u32

definition entry_offset :: "nos_kv_table \<Rightarrow> u32 \<Rightarrow> u32" where
  "entry_offset t idx = idx * entry_size t"

definition get_entry :: "nos_kv_table \<Rightarrow> u32 \<Rightarrow> nos_kv_entry option" where
  "get_entry t idx = (if idx = KV_INVALID_IDX then None else Some (pool_mem t (entry_offset t idx)))"

definition upd_kv_entry :: "u32 \<Rightarrow> (nos_kv_entry \<Rightarrow> nos_kv_entry) \<Rightarrow> nos_kv_table \<Rightarrow> nos_kv_table" where
  "upd_kv_entry idx f t =
     t\<lparr>pool_mem := (pool_mem t)(entry_offset t idx := f (pool_mem t (entry_offset t idx)))\<rparr>"

definition upd_bucket :: "nat \<Rightarrow> (nos_kv_bucket \<Rightarrow> nos_kv_bucket) \<Rightarrow> nos_kv_table \<Rightarrow> nos_kv_table" where
  "upd_bucket b f t = t\<lparr>buckets := (buckets t)[b := f (buckets t ! b)]\<rparr>"

definition bucket_of :: "nos_kv_table \<Rightarrow> bytes \<Rightarrow> nat" where
  "bucket_of t key = unat (murmurhash3_32 key 0 mod bucket_count t)"

text \<open>\<open>pthread_rwlock_wrlock\<close> returns when there is no reader.\<close>

definition wr_locked :: "nos_kv_table \<Rightarrow> nat \<Rightarrow> 'a option \<Rightarrow> 'a option" where
  "wr_locked t b r = (if readers (buckets t ! b) = 0 then r else None)"

text \<open>The walk of every operation, with the predecessor that \<open>nos_kv_del\<close> keeps.\<close>

partial_function (option) kv_find :: "nos_kv_table \<Rightarrow> bytes \<Rightarrow> u32 \<Rightarrow> u32 \<Rightarrow> (u32 \<times> u32) option option" where
  "kv_find t key prev_idx curr_idx =
     (case get_entry t curr_idx of
        None \<Rightarrow> Some None
      | Some entry \<Rightarrow> if key_data entry = key then Some (Some (prev_idx, curr_idx))
                      else kv_find t key curr_idx (next_idx entry))"

declare kv_find.simps [code]

definition kv_lookup :: "nos_kv_table \<Rightarrow> bytes \<Rightarrow> (u32 \<times> u32) option option" where
  "kv_lookup t key = kv_find t key KV_INVALID_IDX (first_idx (buckets t ! bucket_of t key))"

section \<open>Creating tables\<close>

partial_function (option) round_up :: "u32 \<Rightarrow> u32 \<Rightarrow> u32 option" where
  "round_up n cap = (if n < cap then round_up (push_bit 1 n) cap else Some n)"

declare round_up.simps [code]

definition zero_entry :: "u32 \<Rightarrow> u32 \<Rightarrow> nos_kv_entry" where
  "zero_entry ks vs = \<lparr>next_idx = 0, val_len = 0, sub_list = [], key_data = replicate (unat ks) 0, val_data = replicate (unat vs) 0\<rparr>"

definition KV_ENTRY_HEADER :: u32 where "KV_ENTRY_HEADER = 16"

definition new_table :: "string \<Rightarrow> u32 \<Rightarrow> u32 \<Rightarrow> u32 \<Rightarrow> u32 \<Rightarrow> nos_kv_table" where
  "new_table name ks vs cap n =
     \<lparr>table_name = strncpy_field 32 name, key_size = ks, max_val_size = vs,
      entry_size = KV_ENTRY_HEADER + ks + vs, capacity = cap,
      buckets = replicate (unat n) \<lparr>readers = 0, first_idx = KV_INVALID_IDX\<rparr>, bucket_count = n,
      pool_mem = (\<lambda>_. zero_entry ks vs), free_stack = map of_nat [0..<unat cap], free_top = int (unat cap) - 1,
      used_count = 0\<rparr>"

text \<open>
  \<open>g_tables\<close> with its count is the list of tables; the handle of a table is its index. \<open>mem\<close> says
  whether the \<open>calloc\<close> of the table succeeds (the other allocations are not checked).
\<close>

definition nos_kv_table_create ::
  "bool \<Rightarrow> string option \<Rightarrow> u32 \<Rightarrow> u32 \<Rightarrow> u32 \<Rightarrow> nos_kv_table list \<Rightarrow> (nat option \<times> nos_kv_table list) option" where
  "nos_kv_table_create mem name ks vs cap ts =
     (case name of
        None \<Rightarrow> Some (None, ts)
      | Some name \<Rightarrow>
          if ks = 0 \<or> cap = 0 then Some (None, ts)
          else case find_slot (\<lambda>t. table_name t = name) (length ts) ts of
                 Some i \<Rightarrow> Some (Some i, ts)
               | None \<Rightarrow>
                   if length ts \<ge> MAX_TABLES \<or> \<not> mem then Some (None, ts)
                   else case round_up 1024 cap of
                          None \<Rightarrow> None
                        | Some n \<Rightarrow> Some (Some (length ts), ts @ [new_table name ks vs cap n]))"

section \<open>Operations on a table\<close>

definition set_value :: "bytes option \<Rightarrow> u32 \<Rightarrow> nos_kv_entry \<Rightarrow> nos_kv_entry" where
  "set_value val n e =
     (case val of
        None \<Rightarrow> e\<lparr>val_len := n\<rparr>
      | Some v \<Rightarrow> e\<lparr>val_data := take (unat n) v @ drop (unat n) (val_data e), val_len := n\<rparr>)"

text \<open>
  A call of a subscriber: notify function, argument, key, value and length. \<open>nos_kv_put\<close> makes
  these calls after it has released the lock, from a copy of the list of subscribers.
\<close>

type_synonym notification = "ptr \<times> ptr \<times> bytes \<times> bytes option \<times> u32"

definition notifications :: "nos_kv_entry \<Rightarrow> bytes \<Rightarrow> bytes option \<Rightarrow> u32 \<Rightarrow> notification list" where
  "notifications e key val n = map (\<lambda>s. (sub_notify s, sub_arg s, key, val, n)) (sub_list e)"

text \<open>\<open>free_stack[free_top--]\<close> and the new entry at the head of the chain.\<close>

definition insert_entry :: "nat \<Rightarrow> bytes \<Rightarrow> bytes option \<Rightarrow> u32 \<Rightarrow> nos_kv_table \<Rightarrow> nos_kv_table" where
  "insert_entry b key val n t =
     (let new_idx = free_stack t ! nat (free_top t);
          t = t\<lparr>free_top := free_top t - 1\<rparr>;
          t = upd_kv_entry new_idx (\<lambda>e. (set_value val n (e\<lparr>key_data := key\<rparr>))\<lparr>sub_list := [], next_idx := first_idx (buckets t ! b)\<rparr>) t;
          t = upd_bucket b (\<lambda>bk. bk\<lparr>first_idx := new_idx\<rparr>) t
      in t\<lparr>used_count := used_count t + 1\<rparr>)"

definition nos_kv_put ::
  "nos_kv_table option \<Rightarrow> bytes option \<Rightarrow> bytes option \<Rightarrow> u32 \<Rightarrow> (nos_status \<times> nos_kv_table option \<times> notification list) option" where
  "nos_kv_put table key val n =
     (case (table, key) of
        (Some t, Some key) \<Rightarrow>
          if n > max_val_size t then Some (NOS_ERR, table, [])
          else let b = bucket_of t key in
            wr_locked t b
              (case kv_lookup t key of
                 None \<Rightarrow> None
               | Some (Some (_, idx)) \<Rightarrow>
                   Some (NOS_OK, Some (upd_kv_entry idx (set_value val n) t),
                         notifications (pool_mem t (entry_offset t idx)) key val n)
               | Some None \<Rightarrow>
                   if free_top t < 0 then Some (NOS_ERR_BUSY, table, [])
                   else Some (NOS_OK, Some (insert_entry b key val n t), []))
      | _ \<Rightarrow> Some (NOS_ERR, table, []))"

text \<open>
  \<open>buf\<close> is the size of the caller's buffer, \<open>None\<close> when the buffer or the length is \<open>NULL\<close>. The
  result is what is copied into the buffer and the length reported.
\<close>

definition nos_kv_get :: "nos_kv_table option \<Rightarrow> bytes option \<Rightarrow> u32 option \<Rightarrow> (nos_status \<times> (bytes \<times> u32) option) option" where
  "nos_kv_get table key buf =
     (case (table, key, buf) of
        (Some t, Some key, Some n) \<Rightarrow>
          (case kv_lookup t key of
             None \<Rightarrow> None
           | Some None \<Rightarrow> Some (NOS_ERR, None)
           | Some (Some (_, idx)) \<Rightarrow>
               (let e = pool_mem t (entry_offset t idx); copy_len = (if n < val_len e then n else val_len e)
                in Some (NOS_OK, Some (take (unat copy_len) (val_data e), val_len e))))
      | _ \<Rightarrow> Some (NOS_ERR, None))"

text \<open>
  The zero-copy read: the result is the index of the entry the pointer points into, the
  length and the handle, which is the bucket whose lock stays taken. \<open>outs\<close> says whether all the
  result pointers are there.
\<close>

definition nos_kv_get_ptr ::
  "nos_kv_table option \<Rightarrow> bytes option \<Rightarrow> bool \<Rightarrow> (nos_status \<times> (u32 \<times> u32 \<times> nat) option \<times> nos_kv_table option) option" where
  "nos_kv_get_ptr table key outs =
     (case (table, key, outs) of
        (Some t, Some key, True) \<Rightarrow>
          (case kv_lookup t key of
             None \<Rightarrow> None
           | Some None \<Rightarrow> Some (NOS_ERR, None, table)
           | Some (Some (_, idx)) \<Rightarrow>
               (let b = bucket_of t key
                in Some (NOS_OK, Some (idx, val_len (pool_mem t (entry_offset t idx)), b),
                         Some (upd_bucket b (\<lambda>bk. bk\<lparr>readers := readers bk + 1\<rparr>) t))))
      | _ \<Rightarrow> Some (NOS_ERR, None, table))"

definition nos_kv_release_ptr :: "nat option \<Rightarrow> nos_kv_table \<Rightarrow> nos_kv_table" where
  "nos_kv_release_ptr handle t =
     (case handle of None \<Rightarrow> t | Some b \<Rightarrow> upd_bucket b (\<lambda>bk. bk\<lparr>readers := readers bk - 1\<rparr>) t)"

definition add_sub :: "nos_kv_sub \<Rightarrow> nos_kv_sub list \<Rightarrow> nos_kv_sub list" where
  "add_sub s ss = (if s \<in> set ss then ss else s # ss)"

definition nos_kv_subscribe :: "nos_kv_table option \<Rightarrow> bytes option \<Rightarrow> nos_kv_sub \<Rightarrow> (nos_status \<times> nos_kv_table option) option" where
  "nos_kv_subscribe table key s =
     (case (table, key) of
        (Some t, Some key) \<Rightarrow>
          if sub_notify s = NULL then Some (NOS_ERR, table)
          else wr_locked t (bucket_of t key)
            (case kv_lookup t key of
               None \<Rightarrow> None
             | Some None \<Rightarrow> Some (NOS_ERR, table)
             | Some (Some (_, idx)) \<Rightarrow>
                 Some (NOS_OK, Some (upd_kv_entry idx (\<lambda>e. e\<lparr>sub_list := add_sub s (sub_list e)\<rparr>) t)))
      | _ \<Rightarrow> Some (NOS_ERR, table))"

definition nos_kv_unsubscribe :: "nos_kv_table option \<Rightarrow> bytes option \<Rightarrow> nos_kv_sub \<Rightarrow> (nos_status \<times> nos_kv_table option) option" where
  "nos_kv_unsubscribe table key s =
     (case (table, key) of
        (Some t, Some key) \<Rightarrow>
          if sub_notify s = NULL then Some (NOS_ERR, table)
          else wr_locked t (bucket_of t key)
            (case kv_lookup t key of
               None \<Rightarrow> None
             | Some None \<Rightarrow> Some (NOS_ERR, table)
             | Some (Some (_, idx)) \<Rightarrow>
                 if s \<in> set (sub_list (pool_mem t (entry_offset t idx)))
                 then Some (NOS_OK, Some (upd_kv_entry idx (\<lambda>e. e\<lparr>sub_list := remove1 s (sub_list e)\<rparr>) t))
                 else Some (NOS_ERR, table))
      | _ \<Rightarrow> Some (NOS_ERR, table))"

text \<open>Unlinking the entry \<open>idx\<close> after \<open>prev_idx\<close>, and \<open>free_stack[++free_top] = idx\<close>.\<close>

definition remove_entry :: "nat \<Rightarrow> u32 \<Rightarrow> u32 \<Rightarrow> nos_kv_table \<Rightarrow> nos_kv_table" where
  "remove_entry b prev_idx idx t =
     (let nxt = next_idx (pool_mem t (entry_offset t idx));
          t = (if prev_idx = KV_INVALID_IDX then upd_bucket b (\<lambda>bk. bk\<lparr>first_idx := nxt\<rparr>) t
               else upd_kv_entry prev_idx (\<lambda>e. e\<lparr>next_idx := nxt\<rparr>) t);
          t = upd_kv_entry idx (\<lambda>e. e\<lparr>sub_list := []\<rparr>) t
      in t\<lparr>free_stack := (free_stack t)[nat (free_top t + 1) := idx], free_top := free_top t + 1,
           used_count := used_count t - 1\<rparr>)"

definition nos_kv_del :: "nos_kv_table option \<Rightarrow> bytes option \<Rightarrow> (nos_status \<times> nos_kv_table option) option" where
  "nos_kv_del table key =
     (case (table, key) of
        (Some t, Some key) \<Rightarrow>
          (let b = bucket_of t key in
           wr_locked t b
            (case kv_lookup t key of
               None \<Rightarrow> None
             | Some None \<Rightarrow> Some (NOS_ERR, table)
             | Some (Some (prev_idx, idx)) \<Rightarrow> Some (NOS_OK, Some (remove_entry b prev_idx idx t))))
      | _ \<Rightarrow> Some (NOS_ERR, table))"

section \<open>The engine\<close>

text \<open>\<open>sizeof(nos_kv_table_t)\<close> is 88 and \<open>sizeof(nos_kv_bucket_t)\<close> is 64; the sums are 64-bit.\<close>

definition nos_kv_get_total_mem_usage :: "nos_kv_table list \<Rightarrow> u64" where
  "nos_kv_get_total_mem_usage ts =
     foldl (\<lambda>total t. total + 88 + ucast (bucket_count t) * 64 + ucast (capacity t) * (ucast (entry_size t) + 4)) 0 ts"

text \<open>One printed line per table.\<close>

definition nos_kv_dump_all :: "nos_kv_table list \<Rightarrow> (string \<times> u32 \<times> u32 \<times> u32 \<times> u32) list" where
  "nos_kv_dump_all ts = map (\<lambda>t. (table_name t, key_size t, max_val_size t, capacity t, used_count t)) ts"

text \<open>\<open>nos_kv_db_deinit\<close> takes the lock of every bucket before it frees the tables.\<close>

definition nos_kv_db_deinit :: "nos_kv_table list \<Rightarrow> nos_kv_table list option" where
  "nos_kv_db_deinit ts = (if \<forall>t \<in> set ts. \<forall>bk \<in> set (buckets t). readers bk = 0 then Some [] else None)"

end
