(* ===== verification/KvProps.thy ===== *)
theory KvProps
  imports KvStore
begin

text \<open>
  The invariant of a table of the key-value store (every index is either on the free stack or
  in the chain of exactly one bucket, the one its key hashes to, and no key occurs twice) and
  what put and delete do to the map from keys to entries that the table stands for.
\<close>

section \<open>Entries and chains\<close>

definition entry_at :: "nos_kv_table \<Rightarrow> u32 \<Rightarrow> nos_kv_entry" where
  "entry_at t idx = pool_mem t (entry_offset t idx)"

fun kv_chain :: "nos_kv_table \<Rightarrow> u32 \<Rightarrow> u32 list \<Rightarrow> bool" where
  "kv_chain t i [] \<longleftrightarrow> i = KV_INVALID_IDX"
| "kv_chain t i (x # xs) \<longleftrightarrow> i = x \<and> x \<noteq> KV_INVALID_IDX \<and> kv_chain t (next_idx (entry_at t x)) xs"

fun chain_find :: "nos_kv_table \<Rightarrow> bytes \<Rightarrow> u32 \<Rightarrow> u32 list \<Rightarrow> (u32 \<times> u32) option" where
  "chain_find t key p [] = None"
| "chain_find t key p (x # xs) = (if key_data (entry_at t x) = key then Some (p, x) else chain_find t key x xs)"

lemma kv_find_chain: "kv_chain t i xs \<Longrightarrow> kv_find t key p i = Some (chain_find t key p xs)"
proof (induction xs arbitrary: i p)
  case Nil
  then show ?case by (simp add: kv_find.simps get_entry_def)
next
  case (Cons x xs)
  then show ?case by (subst kv_find.simps) (simp add: get_entry_def entry_at_def)
qed

lemma chain_find_None: "chain_find t key p xs = None \<longleftrightarrow> (\<forall>x \<in> set xs. key_data (entry_at t x) \<noteq> key)"
  by (induction xs arbitrary: p) auto

lemma chain_find_Some:
  "chain_find t key p xs = Some (q, x) \<Longrightarrow>
     \<exists>ys zs. xs = ys @ x # zs \<and> key_data (entry_at t x) = key \<and> q = (if ys = [] then p else last ys)"
proof (induction xs arbitrary: p)
  case (Cons y xs)
  show ?case
  proof (cases "key_data (entry_at t y) = key")
    case True
    then show ?thesis using Cons.prems by (intro exI[of _ "[]"] exI[of _ xs]) simp
  next
    case False
    then obtain ys zs where "xs = ys @ x # zs" "key_data (entry_at t x) = key" "q = (if ys = [] then y else last ys)"
      using Cons.IH[of y] Cons.prems False by auto
    then show ?thesis by (intro exI[of _ "y # ys"] exI[of _ zs]) auto
  qed
qed simp

lemma kv_chain_cong:
  "kv_chain t i xs \<Longrightarrow> (\<And>x. x \<in> set xs \<Longrightarrow> next_idx (entry_at t' x) = next_idx (entry_at t x)) \<Longrightarrow> kv_chain t' i xs"
  by (induction xs arbitrary: i) auto

text \<open>Taking \<open>x\<close> out of a chain: its predecessor, if it has one, is linked to its successor.\<close>

lemma kv_chain_unlink:
  assumes "kv_chain t i (ys @ x # zs)" "distinct (ys @ x # zs)" "ys \<noteq> []"
    and "\<And>y. y \<in> set (ys @ x # zs) \<Longrightarrow> next_idx (entry_at t' y) = next_idx (entry_at t (if y = last ys then x else y))"
  shows "kv_chain t' i (ys @ zs)"
  using assms
proof (induction ys arbitrary: i)
  case (Cons y ys)
  show ?case
  proof (cases "ys = []")
    case True
    have "kv_chain t' (next_idx (entry_at t x)) zs"
      by (rule kv_chain_cong[of t]) (use Cons.prems True in auto)
    then show ?thesis using Cons.prems(1) Cons.prems(4)[of y] True by simp
  next
    case False
    then have "kv_chain t' (next_idx (entry_at t y)) (ys @ zs)"
      by (intro Cons.IH) (use Cons.prems in \<open>auto split: if_splits\<close>)
    moreover have "y \<noteq> last ys" using Cons.prems(2) False by (metis append_Cons distinct.simps(2) last_in_set Un_iff set_append)
    ultimately show ?thesis using Cons.prems(1) Cons.prems(4)[of y] False by simp
  qed
qed simp

lemma kv_chain_next: "kv_chain t i (ys @ x # zs) \<Longrightarrow> kv_chain t (next_idx (entry_at t x)) zs"
  by (induction ys arbitrary: i) auto

section \<open>The invariant\<close>

definition kv_geom :: "nos_kv_table \<Rightarrow> bool" where
  "kv_geom t \<longleftrightarrow> 0 < entry_size t \<and> unat (capacity t) * unat (entry_size t) \<le> 2 ^ 32 \<and> unat (capacity t) < 2 ^ 31 \<and>
     length (buckets t) = unat (bucket_count t) \<and> 0 < bucket_count t \<and> length (free_stack t) = unat (capacity t)"

definition free_idxs :: "nos_kv_table \<Rightarrow> u32 list" where
  "free_idxs t = take (nat (free_top t + 1)) (free_stack t)"

definition entry_ok :: "u32 \<Rightarrow> nos_kv_entry \<Rightarrow> bool" where
  "entry_ok vs e \<longleftrightarrow> length (val_data e) = unat vs \<and> val_len e \<le> vs \<and> distinct (sub_list e)"

definition kv_rep :: "nos_kv_table \<Rightarrow> u32 list list \<Rightarrow> bool" where
  "kv_rep t cs \<longleftrightarrow> kv_geom t \<and> - 1 \<le> free_top t \<and> free_top t < int (unat (capacity t)) \<and>
     length cs = length (buckets t) \<and> (\<forall>b < length cs. kv_chain t (first_idx (buckets t ! b)) (cs ! b)) \<and>
     mset (free_idxs t) + mset (concat cs) = mset (map of_nat [0..<unat (capacity t)]) \<and>
     (\<forall>b < length cs. \<forall>x \<in> set (cs ! b). bucket_of t (key_data (entry_at t x)) = b) \<and>
     (\<forall>b < length cs. distinct (map (\<lambda>x. key_data (entry_at t x)) (cs ! b))) \<and>
     used_count t = of_nat (length (concat cs)) \<and>
     (\<forall>x. unat x < unat (capacity t) \<longrightarrow> entry_ok (max_val_size t) (entry_at t x))"

lemma kv_repI:
  assumes "kv_geom t" "- 1 \<le> free_top t" "free_top t < int (unat (capacity t))" "length cs = length (buckets t)"
    and "\<And>b. b < length cs \<Longrightarrow> kv_chain t (first_idx (buckets t ! b)) (cs ! b)"
    and "mset (free_idxs t) + mset (concat cs) = mset (map of_nat [0..<unat (capacity t)])"
    and "\<And>b x. b < length cs \<Longrightarrow> x \<in> set (cs ! b) \<Longrightarrow> bucket_of t (key_data (entry_at t x)) = b"
    and "\<And>b. b < length cs \<Longrightarrow> distinct (map (\<lambda>x. key_data (entry_at t x)) (cs ! b))"
    and "used_count t = of_nat (length (concat cs))"
    and "\<And>x. unat x < unat (capacity t) \<Longrightarrow> entry_ok (max_val_size t) (entry_at t x)"
  shows "kv_rep t cs"
  unfolding kv_rep_def using assms by (intro conjI allI impI ballI) assumption+

lemma kv_repD:
  assumes "kv_rep t cs"
  shows "kv_geom t" "- 1 \<le> free_top t" "free_top t < int (unat (capacity t))" "length cs = length (buckets t)"
    and "mset (free_idxs t) + mset (concat cs) = mset (map of_nat [0..<unat (capacity t)])"
    and "used_count t = of_nat (length (concat cs))"
    and "unat x < unat (capacity t) \<Longrightarrow> entry_ok (max_val_size t) (entry_at t x)"
  using assms unfolding kv_rep_def by blast+

definition kv_ok :: "nos_kv_table \<Rightarrow> bool" where
  "kv_ok t \<longleftrightarrow> (\<exists>cs. kv_rep t cs)"

definition kv_unlocked :: "nos_kv_table \<Rightarrow> bool" where
  "kv_unlocked t \<longleftrightarrow> (\<forall>bk \<in> set (buckets t). readers bk = 0)"

text \<open>The map a table stands for.\<close>

definition kv_entry :: "nos_kv_table \<Rightarrow> bytes \<Rightarrow> nos_kv_entry option" where
  "kv_entry t key = (case kv_lookup t key of Some (Some (_, idx)) \<Rightarrow> Some (entry_at t idx) | _ \<Rightarrow> None)"

definition entry_value :: "nos_kv_entry \<Rightarrow> bytes" where
  "entry_value e = take (unat (val_len e)) (val_data e)"

definition entry_view :: "nos_kv_entry \<Rightarrow> bytes \<times> nos_kv_sub list" where
  "entry_view e = (entry_value e, sub_list e)"

definition kv_map :: "nos_kv_table \<Rightarrow> bytes \<Rightarrow> (bytes \<times> nos_kv_sub list) option" where
  "kv_map t key = map_option entry_view (kv_entry t key)"

definition kv_value :: "nos_kv_table \<Rightarrow> bytes \<Rightarrow> bytes option" where
  "kv_value t key = map_option fst (kv_map t key)"

lemma offset_inj:
  assumes "kv_geom t" "unat x < unat (capacity t)" "unat y < unat (capacity t)"
  shows "entry_offset t x = entry_offset t y \<longleftrightarrow> x = y"
proof -
  have off: "unat (z * entry_size t) = unat z * unat (entry_size t)" if "unat z < unat (capacity t)" for z
  proof -
    have "unat z * unat (entry_size t) < unat (capacity t) * unat (entry_size t)"
      using assms(1) that by (simp add: kv_geom_def word_less_nat_alt)
    then have "unat z * unat (entry_size t) < 2 ^ 32"
      by (rule order_less_le_trans) (use assms(1) in \<open>simp add: kv_geom_def\<close>)
    then show ?thesis by (simp add: unat_word_ariths)
  qed
  have "0 < unat (entry_size t)" using assms(1) by (simp add: kv_geom_def word_less_nat_alt)
  then show ?thesis
    using off[OF assms(2)] off[OF assms(3)] by (auto simp: entry_offset_def) (metis mult_cancel2 not_gr0 word_unat_eq_iff)
qed

lemma entry_at_upd:
  assumes "kv_geom t" "unat i < unat (capacity t)" "unat x < unat (capacity t)"
  shows "entry_at (upd_kv_entry i f t) x = (if x = i then f (entry_at t i) else entry_at t x)"
  using offset_inj[OF assms(1,3,2)] by (simp add: entry_at_def upd_kv_entry_def entry_offset_def)

section \<open>Where the indices are\<close>

lemma mset_concat_update:
  "b < length cs \<Longrightarrow> mset (concat (cs[b := ys])) + mset (cs ! b) = mset (concat cs) + mset ys"
proof (induction cs arbitrary: b)
  case (Cons c cs)
  then show ?case by (cases b) (auto simp: ac_simps)
qed simp

lemma kv_rep_bucket:
  assumes "kv_rep t cs"
  shows "bucket_of t key < length cs"
proof -
  have "0 < bucket_count t" "length cs = unat (bucket_count t)" using assms by (auto simp: kv_rep_def kv_geom_def)
  then show ?thesis
    unfolding bucket_of_def by (simp add: unat_mod word_less_nat_alt)
qed

lemma kv_rep_indices:
  assumes "kv_rep t cs"
  shows "x \<in> set (free_idxs t) \<union> set (concat cs) \<longleftrightarrow> unat x < unat (capacity t)" "distinct (free_idxs t @ concat cs)"
proof -
  let ?is = "map of_nat [0..<unat (capacity t)] :: u32 list"
  have m: "mset (free_idxs t @ concat cs) = mset ?is" using assms by (simp add: kv_rep_def)
  have cap: "unat (capacity t) < 2 ^ 32" using unat_u32_bound[of "capacity t"] by simp
  have small: "unat (of_nat k :: u32) = k" if "k < unat (capacity t)" for k
    using that cap by (simp add: unat_of_nat)
  have "set ?is = {x. unat x < unat (capacity t)}"
  proof (intro set_eqI iffI)
    fix x :: u32 assume "x \<in> {x. unat x < unat (capacity t)}"
    then show "x \<in> set ?is" by (auto intro!: image_eqI[of _ _ "unat x"])
  qed (auto simp: small)
  then show "x \<in> set (free_idxs t) \<union> set (concat cs) \<longleftrightarrow> unat x < unat (capacity t)"
    using mset_eq_setD[OF m] by auto
  have "inj_on (of_nat :: nat \<Rightarrow> u32) {0..<unat (capacity t)}"
    by (rule inj_onI) (metis small atLeastLessThan_iff)
  then have "distinct ?is" by (simp add: distinct_map)
  then show "distinct (free_idxs t @ concat cs)" using mset_eq_imp_distinct_iff[OF m] by simp
qed

lemma kv_rep_chain:
  assumes "kv_rep t cs" "b < length cs"
  shows "kv_chain t (first_idx (buckets t ! b)) (cs ! b)" "distinct (cs ! b)"
    and "x \<in> set (cs ! b) \<Longrightarrow> unat x < unat (capacity t)"
    and "x \<in> set (cs ! b) \<Longrightarrow> bucket_of t (key_data (entry_at t x)) = b"
    and "distinct (map (\<lambda>x. key_data (entry_at t x)) (cs ! b))"
  using assms kv_rep_indices[OF assms(1)]
  by (auto simp: kv_rep_def distinct_map in_set_conv_nth) (metis Un_iff UN_I nth_mem)

lemma kv_rep_lookup:
  assumes "kv_rep t cs"
  shows "kv_lookup t key = Some (chain_find t key KV_INVALID_IDX (cs ! bucket_of t key))"
  unfolding kv_lookup_def by (intro kv_find_chain kv_rep_chain(1)[OF assms kv_rep_bucket[OF assms]])

text \<open>The entries of a table are those of the indices in its chains.\<close>

lemma kv_rep_entry:
  assumes "kv_rep t cs" "b < length cs" "x \<in> set (cs ! b)"
  shows "kv_entry t (key_data (entry_at t x)) = Some (entry_at t x)"
proof -
  let ?k = "key_data (entry_at t x)"
  have b: "bucket_of t ?k = b" by (rule kv_rep_chain(4)[OF assms])
  then obtain p y where f: "chain_find t ?k KV_INVALID_IDX (cs ! b) = Some (p, y)"
    using assms(3) chain_find_None[of t ?k KV_INVALID_IDX "cs ! b"] by (cases "chain_find t ?k KV_INVALID_IDX (cs ! b)") auto
  then have "y \<in> set (cs ! b)" "key_data (entry_at t y) = ?k" using chain_find_Some[OF f] by auto
  then have "y = x" using kv_rep_chain(5)[OF assms(1,2)] assms(3) by (auto simp: distinct_map inj_on_def)
  then show ?thesis using kv_rep_lookup[OF assms(1), of ?k] f b by (simp add: kv_entry_def)
qed

lemma kv_rep_entry_iff:
  assumes "kv_rep t cs"
  shows "kv_entry t key = Some e \<longleftrightarrow> (\<exists>x \<in> set (concat cs). key_data (entry_at t x) = key \<and> entry_at t x = e)"
proof
  assume "kv_entry t key = Some e"
  then obtain p x where f: "chain_find t key KV_INVALID_IDX (cs ! bucket_of t key) = Some (p, x)" "e = entry_at t x"
    using kv_rep_lookup[OF assms, of key] by (auto simp: kv_entry_def split: option.splits)
  then have "x \<in> set (cs ! bucket_of t key)" "key_data (entry_at t x) = key" using chain_find_Some[OF f(1)] by auto
  moreover have "cs ! bucket_of t key \<in> set cs" using kv_rep_bucket[OF assms] by (rule nth_mem)
  ultimately show "\<exists>x \<in> set (concat cs). key_data (entry_at t x) = key \<and> entry_at t x = e"
    using f(2) by auto
next
  assume "\<exists>x \<in> set (concat cs). key_data (entry_at t x) = key \<and> entry_at t x = e"
  then show "kv_entry t key = Some e" using kv_rep_entry[OF assms] by (auto simp: in_set_conv_nth[of _ cs])
qed

lemma kv_map_iff:
  assumes "kv_rep t cs"
  shows "kv_map t key = Some v \<longleftrightarrow>
     (\<exists>x \<in> set (concat cs). key_data (entry_at t x) = key \<and> entry_view (entry_at t x) = v)"
  unfolding kv_map_def map_option_eq_Some kv_rep_entry_iff[OF assms] by blast

lemma kv_rep_dom:
  assumes "kv_rep t cs"
  shows "dom (kv_entry t) = (\<lambda>x. key_data (entry_at t x)) ` set (concat cs)" "card (dom (kv_entry t)) = length (concat cs)"
proof -
  show d: "dom (kv_entry t) = (\<lambda>x. key_data (entry_at t x)) ` set (concat cs)"
    using kv_rep_entry_iff[OF assms] by (auto simp: dom_def)
  have "inj_on (\<lambda>x. key_data (entry_at t x)) (set (concat cs))"
  proof (rule inj_onI)
    fix x y assume xy: "x \<in> set (concat cs)" "y \<in> set (concat cs)" "key_data (entry_at t x) = key_data (entry_at t y)"
    then obtain b c where b: "b < length cs" "x \<in> set (cs ! b)" and c: "c < length cs" "y \<in> set (cs ! c)"
      by (auto simp: in_set_conv_nth[of _ cs])
    then have "b = c" using kv_rep_chain(4)[OF assms] xy(3) by metis
    then show "x = y" using kv_rep_chain(5)[OF assms b(1)] b c xy(3) by (auto simp: distinct_map inj_on_def)
  qed
  then show "card (dom (kv_entry t)) = length (concat cs)"
    using kv_rep_indices(2)[OF assms] unfolding d by (metis card_image distinct_append distinct_card)
qed

section \<open>Changing an entry in place\<close>

lemma upd_kv_entry_simps [simp]:
  "entry_size (upd_kv_entry i f t) = entry_size t" "capacity (upd_kv_entry i f t) = capacity t"
  "buckets (upd_kv_entry i f t) = buckets t" "bucket_count (upd_kv_entry i f t) = bucket_count t"
  "free_stack (upd_kv_entry i f t) = free_stack t" "free_top (upd_kv_entry i f t) = free_top t"
  "used_count (upd_kv_entry i f t) = used_count t" "max_val_size (upd_kv_entry i f t) = max_val_size t"
  "key_size (upd_kv_entry i f t) = key_size t" "table_name (upd_kv_entry i f t) = table_name t"
  by (simp_all add: upd_kv_entry_def)

lemma upd_bucket_simps [simp]:
  "entry_size (upd_bucket b f t) = entry_size t" "capacity (upd_bucket b f t) = capacity t"
  "buckets (upd_bucket b f t) = (buckets t)[b := f (buckets t ! b)]" "bucket_count (upd_bucket b f t) = bucket_count t"
  "free_stack (upd_bucket b f t) = free_stack t" "free_top (upd_bucket b f t) = free_top t"
  "used_count (upd_bucket b f t) = used_count t" "max_val_size (upd_bucket b f t) = max_val_size t"
  "key_size (upd_bucket b f t) = key_size t" "table_name (upd_bucket b f t) = table_name t"
  "pool_mem (upd_bucket b f t) = pool_mem t"
  by (simp_all add: upd_bucket_def)

lemma bucket_of_cong: "bucket_count t' = bucket_count t \<Longrightarrow> bucket_of t' = bucket_of t"
  by (simp add: bucket_of_def fun_eq_iff)

lemma entry_at_cong: "pool_mem t' = pool_mem t \<Longrightarrow> entry_size t' = entry_size t \<Longrightarrow> entry_at t' = entry_at t"
  by (simp add: entry_at_def entry_offset_def fun_eq_iff)

lemma kv_rep_upd:
  assumes rep: "kv_rep t cs" and i: "i \<in> set (concat cs)"
    and f: "key_data (f (entry_at t i)) = key_data (entry_at t i)" "next_idx (f (entry_at t i)) = next_idx (entry_at t i)"
      "entry_ok (max_val_size t) (f (entry_at t i))"
  shows "kv_rep (upd_kv_entry i f t) cs"
    and "kv_entry (upd_kv_entry i f t) = (kv_entry t)(key_data (entry_at t i) \<mapsto> f (entry_at t i))"
proof -
  let ?t = "upd_kv_entry i f t"
  have geom: "kv_geom t" using rep by (simp add: kv_rep_def)
  have cap: "unat x < unat (capacity t)" if "x \<in> set (concat cs)" for x
    using kv_rep_indices(1)[OF rep, of x] that by auto
  have at: "entry_at ?t x = (if x = i then f (entry_at t i) else entry_at t x)" if "unat x < unat (capacity t)" for x
    by (rule entry_at_upd[OF geom cap[OF i] that])
  have in_c: "x \<in> set (concat cs)" if "b < length cs" "x \<in> set (cs ! b)" for b x using that by auto
  have key: "key_data (entry_at ?t x) = key_data (entry_at t x)" "next_idx (entry_at ?t x) = next_idx (entry_at t x)"
    if "x \<in> set (concat cs)" for x
    using at[OF cap[OF that]] f by simp_all
  have keys: "map (\<lambda>x. key_data (entry_at ?t x)) (cs ! b) = map (\<lambda>x. key_data (entry_at t x)) (cs ! b)" if "b < length cs" for b
    using key(1) in_c[OF that] by simp
  have ch: "kv_chain ?t (first_idx (buckets t ! b)) (cs ! b)" if "b < length cs" for b
    by (rule kv_chain_cong[OF kv_rep_chain(1)[OF rep that]]) (rule key(2)[OF in_c[OF that]])
  have bk: "bucket_of ?t = bucket_of t" by (rule bucket_of_cong) simp
  note d = kv_repD[OF rep]
  show rep': "kv_rep ?t cs"
  proof (rule kv_repI)
    show "kv_geom ?t" using geom by (simp add: kv_geom_def)
    show "mset (free_idxs ?t) + mset (concat cs) = mset (map of_nat [0..<unat (capacity ?t)])"
      using d(5) by (simp add: free_idxs_def)
    show "bucket_of ?t (key_data (entry_at ?t x)) = b" if "b < length cs" "x \<in> set (cs ! b)" for b x
      using kv_rep_chain(4)[OF rep that] key(1)[OF in_c[OF that]] bk by simp
    show "distinct (map (\<lambda>x. key_data (entry_at ?t x)) (cs ! b))" if "b < length cs" for b
      unfolding keys[OF that] by (rule kv_rep_chain(5)[OF rep that])
    show "entry_ok (max_val_size ?t) (entry_at ?t x)" if "unat x < unat (capacity ?t)" for x
      using d(7)[of x] at[of x] f(3) that by simp
  qed (use d ch in simp_all)
  show "kv_entry ?t = (kv_entry t)(key_data (entry_at t i) \<mapsto> f (entry_at t i))"
  proof (rule ext)
    fix k
    show "kv_entry ?t k = ((kv_entry t)(key_data (entry_at t i) \<mapsto> f (entry_at t i))) k"
    proof (cases "k = key_data (entry_at t i)")
      case True
      have "kv_entry ?t k = Some (f (entry_at t i))"
        using i key(1)[OF i] at[OF cap[OF i]] True by (subst kv_rep_entry_iff[OF rep']) (auto intro!: bexI[of _ i])
      then show ?thesis using True by simp
    next
      case False
      have "kv_entry ?t k = Some e \<longleftrightarrow> kv_entry t k = Some e" for e
        unfolding kv_rep_entry_iff[OF rep'] kv_rep_entry_iff[OF rep]
        using False key(1) at[OF cap] by (metis f(1))
      then show ?thesis using False by (metis fun_upd_apply not_None_eq)
    qed
  qed
qed

section \<open>Inserting and deleting\<close>

text \<open>
  Both change the chain of one bucket: \<open>t'\<close> has the chains \<open>cs[b := ys]\<close>, and every entry keeps
  its key, except for \<open>i\<close>, which joins or leaves the chain.
\<close>

lemma distinct_map_cong: "distinct (map f xs) \<Longrightarrow> (\<And>x. x \<in> set xs \<Longrightarrow> g x = f x) \<Longrightarrow> distinct (map g xs)"
  by (simp add: distinct_map inj_on_def)

lemma kv_rep_bucket_change:
  assumes rep: "kv_rep t cs" and b: "b < length cs"
    and static: "entry_size t' = entry_size t" "capacity t' = capacity t" "bucket_count t' = bucket_count t"
      "length (buckets t') = length (buckets t)" "length (free_stack t') = length (free_stack t)" "max_val_size t' = max_val_size t"
    and top: "- 1 \<le> free_top t'" "free_top t' < int (unat (capacity t'))"
    and others: "\<And>c. c \<noteq> b \<Longrightarrow> buckets t' ! c = buckets t ! c"
      "\<And>x. x \<in> set (concat cs) \<Longrightarrow> x \<notin> set (cs ! b) \<Longrightarrow> entry_at t' x = entry_at t x"
    and chain: "kv_chain t' (first_idx (buckets t' ! b)) ys" "distinct (map (\<lambda>x. key_data (entry_at t' x)) ys)"
      "\<And>x. x \<in> set ys \<Longrightarrow> bucket_of t (key_data (entry_at t' x)) = b"
    and free: "mset (free_idxs t') + mset (concat (cs[b := ys])) = mset (free_idxs t) + mset (concat cs)"
    and used: "used_count t' = of_nat (length (concat (cs[b := ys])))"
    and entries: "\<And>x. unat x < unat (capacity t) \<Longrightarrow> entry_ok (max_val_size t) (entry_at t' x)"
  shows "kv_rep t' (cs[b := ys])"
proof -
  note d = kv_repD[OF rep]
  have bk: "bucket_of t' = bucket_of t" by (rule bucket_of_cong) (rule static)
  have disj: "x \<notin> set (cs ! b)" if "c < length cs" "c \<noteq> b" "x \<in> set (cs ! c)" for c x
    using kv_rep_chain(4)[OF rep that(1,3)] kv_rep_chain(4)[OF rep b] that(2) by blast
  have same: "entry_at t' x = entry_at t x" if "c < length cs" "c \<noteq> b" "x \<in> set (cs ! c)" for c x
    by (rule others(2)[OF _ disj[OF that]]) (use that in auto)
  show ?thesis
  proof (rule kv_repI)
    show "kv_geom t'" using d(1) static by (simp add: kv_geom_def)
    show "mset (free_idxs t') + mset (concat (cs[b := ys])) = mset (map of_nat [0..<unat (capacity t')])"
      unfolding free d(5) static(2) by (rule refl)
  next
    fix c assume c: "c < length (cs[b := ys])"
    show "kv_chain t' (first_idx (buckets t' ! c)) (cs[b := ys] ! c)"
    proof (cases "c = b")
      case False
      have "kv_chain t' (first_idx (buckets t ! c)) (cs ! c)"
        by (rule kv_chain_cong[OF kv_rep_chain(1)[OF rep]]) (use c False same in auto)
      then show ?thesis using False others(1) by simp
    qed (use chain(1) b in simp)
    show "distinct (map (\<lambda>x. key_data (entry_at t' x)) (cs[b := ys] ! c))"
    proof (cases "c = b")
      case False
      then have "distinct (map (\<lambda>x. key_data (entry_at t' x)) (cs ! c))"
        by (intro distinct_map_cong[OF kv_rep_chain(5)[OF rep]]) (use c same in auto)
      then show ?thesis using False by simp
    qed (use chain(2) b in simp)
    show "bucket_of t' (key_data (entry_at t' x)) = c" if "x \<in> set (cs[b := ys] ! c)" for x
      using that c b chain(3) kv_rep_chain(4)[OF rep] same bk by (cases "c = b") auto
  qed (use static top d used entries in simp_all)
qed

lemma free_idxs_pop:
  assumes "kv_rep t cs" "0 \<le> free_top t"
  shows "free_idxs t = take (nat (free_top t)) (free_stack t) @ [free_stack t ! nat (free_top t)]"
proof -
  have "nat (free_top t) < length (free_stack t)" using kv_repD(1,3)[OF assms(1)] assms(2) by (simp add: kv_geom_def nat_less_iff)
  moreover have "nat (free_top t + 1) = Suc (nat (free_top t))" using assms(2) by simp
  ultimately show ?thesis by (simp add: free_idxs_def take_Suc_conv_app_nth)
qed

lemma insert_entry_frame [simp]:
  "entry_size (insert_entry b key val n t) = entry_size t" "capacity (insert_entry b key val n t) = capacity t"
  "bucket_count (insert_entry b key val n t) = bucket_count t" "max_val_size (insert_entry b key val n t) = max_val_size t"
  "free_stack (insert_entry b key val n t) = free_stack t" "free_top (insert_entry b key val n t) = free_top t - 1"
  "buckets (insert_entry b key val n t) = (buckets t)[b := (buckets t ! b)\<lparr>first_idx := free_stack t ! nat (free_top t)\<rparr>]"
  "used_count (insert_entry b key val n t) = used_count t + 1"
  by (simp_all add: insert_entry_def Let_def)

lemma insert_entry_at:
  assumes "kv_geom t" "unat (free_stack t ! nat (free_top t)) < unat (capacity t)" "unat x < unat (capacity t)"
  shows "entry_at (insert_entry b key val n t) x =
     (if x = free_stack t ! nat (free_top t)
      then (set_value val n ((entry_at t x)\<lparr>key_data := key\<rparr>))\<lparr>sub_list := [], next_idx := first_idx (buckets t ! b)\<rparr>
      else entry_at t x)"
proof -
  let ?i = "free_stack t ! nat (free_top t)" and ?t = "t\<lparr>free_top := free_top t - 1\<rparr>"
  let ?f = "\<lambda>e. (set_value val n (e\<lparr>key_data := key\<rparr>))\<lparr>sub_list := [], next_idx := first_idx (buckets t ! b)\<rparr>"
  have "entry_at (insert_entry b key val n t) = entry_at (upd_kv_entry ?i ?f ?t)"
    by (rule entry_at_cong) (simp_all add: insert_entry_def Let_def)
  moreover have "entry_at ?t = entry_at t" by (rule entry_at_cong) simp_all
  moreover have "kv_geom ?t" using assms(1) by (simp add: kv_geom_def)
  ultimately show ?thesis using entry_at_upd[of ?t ?i x ?f] assms(2,3) by simp
qed

lemma set_value_ok:
  "entry_ok vs e \<Longrightarrow> n \<le> vs \<Longrightarrow> (\<And>v. val = Some v \<Longrightarrow> unat n \<le> length v) \<Longrightarrow> entry_ok vs (set_value val n e)"
  by (auto simp: entry_ok_def set_value_def word_le_nat_alt split: option.splits)

lemma set_value_frame [simp]:
  "key_data (set_value val n e) = key_data e" "next_idx (set_value val n e) = next_idx e"
  "sub_list (set_value val n e) = sub_list e" "val_len (set_value val n e) = n"
  by (simp_all add: set_value_def split: option.splits)

lemma kv_rep_insert:
  assumes rep: "kv_rep t cs" and key: "kv_entry t key = None" "bucket_of t key = b" and top: "0 \<le> free_top t"
    and val: "n \<le> max_val_size t" "\<And>v. val = Some v \<Longrightarrow> unat n \<le> length v"
  defines "i \<equiv> free_stack t ! nat (free_top t)" and "t' \<equiv> insert_entry b key val n t"
  shows "kv_rep t' (cs[b := i # cs ! b])" and "kv_entry t' = (kv_entry t)(key \<mapsto> entry_at t' i)"
    and "entry_at t' i = (set_value val n ((entry_at t i)\<lparr>key_data := key\<rparr>))\<lparr>sub_list := [], next_idx := first_idx (buckets t ! b)\<rparr>"
proof -
  note d = kv_repD[OF rep]
  have b: "b < length cs" using kv_rep_bucket[OF rep] key(2) by auto
  have fi: "free_idxs t = take (nat (free_top t)) (free_stack t) @ [i]" unfolding i_def by (rule free_idxs_pop[OF rep top])
  have fi': "free_idxs t' = take (nat (free_top t)) (free_stack t)" by (simp add: free_idxs_def t'_def)
  have i: "unat i < unat (capacity t)" "i \<notin> set (concat cs)"
    using kv_rep_indices(1)[OF rep, of i] kv_rep_indices(2)[OF rep] fi by auto
  have cap: "unat x < unat (capacity t)" if "x \<in> set (concat cs)" for x using kv_rep_indices(1)[OF rep, of x] that by auto
  have at: "entry_at t' x = (if x = i then (set_value val n ((entry_at t x)\<lparr>key_data := key\<rparr>))\<lparr>sub_list := [], next_idx := first_idx (buckets t ! b)\<rparr>
      else entry_at t x)" if "unat x < unat (capacity t)" for x
    unfolding t'_def i_def by (rule insert_entry_at) (use d(1) i(1) that in \<open>simp_all add: i_def\<close>)
  then show ai: "entry_at t' i = (set_value val n ((entry_at t i)\<lparr>key_data := key\<rparr>))\<lparr>sub_list := [], next_idx := first_idx (buckets t ! b)\<rparr>"
    using i(1) by simp
  then have ki: "key_data (entry_at t' i) = key" by simp
  have old: "entry_at t' x = entry_at t x" if "x \<in> set (concat cs)" for x using at[OF cap[OF that]] that i(2) by auto
  have in_b: "x \<in> set (concat cs)" if "x \<in> set (cs ! b)" for x using that b by auto
  have fresh: "key_data (entry_at t x) \<noteq> key" if "x \<in> set (concat cs)" for x
    using key(1) kv_rep_entry_iff[OF rep, of key "entry_at t x"] that by auto
  have inv: "i \<noteq> KV_INVALID_IDX"
    using i(1) d(1) by (auto simp: kv_geom_def KV_INVALID_IDX_def)
  have m: "mset (concat (cs[b := i # cs ! b])) = add_mset i (mset (concat cs))"
    using mset_concat_update[OF b, of "i # cs ! b"] by simp
  show rep': "kv_rep t' (cs[b := i # cs ! b])"
  proof (rule kv_rep_bucket_change[OF rep b])
    show "- 1 \<le> free_top t'" "free_top t' < int (unat (capacity t'))" using d(2,3) top by (simp_all add: t'_def)
    show "kv_chain t' (first_idx (buckets t' ! b)) (i # cs ! b)"
      using kv_chain_cong[OF kv_rep_chain(1)[OF rep b], of t'] old in_b b d(4) ai inv by (simp add: t'_def i_def)
    have "distinct (map (\<lambda>x. key_data (entry_at t' x)) (cs ! b))"
      by (rule distinct_map_cong[OF kv_rep_chain(5)[OF rep b]]) (metis old in_b)
    moreover have "key_data (entry_at t' x) \<noteq> key" if "x \<in> set (cs ! b)" for x
      using fresh[OF in_b[OF that]] old[OF in_b[OF that]] by simp
    ultimately show "distinct (map (\<lambda>x. key_data (entry_at t' x)) (i # cs ! b))" using ki by (auto simp: eq_commute)
    show "bucket_of t (key_data (entry_at t' x)) = b" if "x \<in> set (i # cs ! b)" for x
      using that ki key(2) kv_rep_chain(4)[OF rep b] old[OF in_b] by (cases "x = i") auto
    show "mset (free_idxs t') + mset (concat (cs[b := i # cs ! b])) = mset (free_idxs t) + mset (concat cs)"
      by (simp only: m fi fi') simp
    show "used_count t' = of_nat (length (concat (cs[b := i # cs ! b])))"
      using arg_cong[OF m, of size] d(6) by (simp add: t'_def)
    show "entry_ok (max_val_size t) (entry_at t' x)" if "unat x < unat (capacity t)" for x
    proof (cases "x = i")
      case True
      have "entry_ok (max_val_size t) ((entry_at t i)\<lparr>key_data := key\<rparr>)" using d(7)[OF i(1)] by (simp add: entry_ok_def)
      then have "entry_ok (max_val_size t) (set_value val n ((entry_at t i)\<lparr>key_data := key\<rparr>))"
        by (rule set_value_ok) (use val in auto)
      then show ?thesis using True ai by (simp add: entry_ok_def)
    qed (use at[OF that] d(7)[OF that] in simp)
  qed (simp_all add: t'_def old[unfolded t'_def])
  have set': "set (concat (cs[b := i # cs ! b])) = insert i (set (concat cs))"
    using arg_cong[OF m, of set_mset] by simp
  show "kv_entry t' = (kv_entry t)(key \<mapsto> entry_at t' i)"
  proof (rule ext)
    fix k
    have "kv_entry t' k = Some e \<longleftrightarrow> (if k = key then e = entry_at t' i else kv_entry t k = Some e)" for e
      unfolding kv_rep_entry_iff[OF rep'] kv_rep_entry_iff[OF rep] set'
      using old fresh ki by (metis insert_iff)
    then show "kv_entry t' k = ((kv_entry t)(key \<mapsto> entry_at t' i)) k"
      by (metis fun_upd_apply not_None_eq)
  qed
qed

lemma remove_entry_frame [simp]:
  "entry_size (remove_entry b p i t) = entry_size t" "capacity (remove_entry b p i t) = capacity t"
  "bucket_count (remove_entry b p i t) = bucket_count t" "max_val_size (remove_entry b p i t) = max_val_size t"
  "free_stack (remove_entry b p i t) = (free_stack t)[nat (free_top t + 1) := i]" "free_top (remove_entry b p i t) = free_top t + 1"
  "buckets (remove_entry b p i t) =
     (if p = KV_INVALID_IDX then (buckets t)[b := (buckets t ! b)\<lparr>first_idx := next_idx (entry_at t i)\<rparr>] else buckets t)"
  "used_count (remove_entry b p i t) = used_count t - 1"
  by (simp_all add: remove_entry_def Let_def entry_at_def)

lemma remove_entry_at:
  assumes "kv_geom t" "unat i < unat (capacity t)" "unat x < unat (capacity t)"
    and "p \<noteq> KV_INVALID_IDX \<Longrightarrow> unat p < unat (capacity t)"
  shows "entry_at (remove_entry b p i t) x =
     (let e = (if x = p \<and> p \<noteq> KV_INVALID_IDX then (entry_at t x)\<lparr>next_idx := next_idx (entry_at t i)\<rparr> else entry_at t x)
      in if x = i then e\<lparr>sub_list := []\<rparr> else e)"
proof -
  let ?n = "next_idx (entry_at t i)"
  let ?t = "if p = KV_INVALID_IDX then upd_bucket b (\<lambda>bk. bk\<lparr>first_idx := ?n\<rparr>) t
            else upd_kv_entry p (\<lambda>e. e\<lparr>next_idx := ?n\<rparr>) t"
  let ?f = "\<lambda>e :: nos_kv_entry. e\<lparr>sub_list := []\<rparr>"
  have "entry_at (remove_entry b p i t) = entry_at (upd_kv_entry i ?f ?t)"
    by (rule entry_at_cong) (simp_all add: remove_entry_def Let_def entry_at_def)
  moreover have geom: "kv_geom ?t" using assms(1) by (simp add: kv_geom_def)
  moreover have "entry_at ?t x = (if x = p \<and> p \<noteq> KV_INVALID_IDX then (entry_at t x)\<lparr>next_idx := ?n\<rparr> else entry_at t x)"
    if "unat x < unat (capacity t)" for x
    using entry_at_upd[OF assms(1,4) that] by (auto simp: entry_at_cong[of "upd_bucket b _ t" t])
  ultimately show ?thesis
    using entry_at_upd[OF geom, of i x ?f] assms(2,3) by (simp add: Let_def)
qed

lemma kv_rep_remove:
  assumes rep: "kv_rep t cs" and f: "kv_lookup t key = Some (Some (p, i))"
  defines "b \<equiv> bucket_of t key" and "t' \<equiv> remove_entry (bucket_of t key) p i t"
  shows "\<exists>cs'. kv_rep t' cs'" and "kv_map t' = (kv_map t)(key := None)"
proof -
  note d = kv_repD[OF rep]
  have b: "b < length cs" unfolding b_def by (rule kv_rep_bucket[OF rep])
  have "chain_find t key KV_INVALID_IDX (cs ! b) = Some (p, i)" using f kv_rep_lookup[OF rep, of key] by (simp add: b_def)
  then obtain ys zs where sp: "cs ! b = ys @ i # zs" "key_data (entry_at t i) = key" "p = (if ys = [] then KV_INVALID_IDX else last ys)"
    using chain_find_Some by blast
  note ch = kv_rep_chain[OF rep b]
  have cap: "unat x < unat (capacity t)" if "x \<in> set (concat cs)" for x using kv_rep_indices(1)[OF rep, of x] that by auto
  have in_b: "x \<in> set (concat cs)" if "x \<in> set (cs ! b)" for x using that b by auto
  have inv: "x \<noteq> KV_INVALID_IDX" if "x \<in> set (concat cs)" for x
    using cap[OF that] d(1) by (auto simp: kv_geom_def KV_INVALID_IDX_def)
  have pin: "p \<in> set (cs ! b)" "p \<noteq> i" "p \<notin> set zs" if "ys \<noteq> []"
    using that sp(1,3) ch(2) by (auto simp: disjoint_iff)
  have pinv: "p = KV_INVALID_IDX \<longleftrightarrow> ys = []" using sp(3) inv[OF in_b[OF pin(1)]] by auto
  have ii: "i \<in> set (concat cs)" "unat i < unat (capacity t)" using in_b[of i] cap[of i] sp(1) by auto
  have at: "entry_at t' x =
     (let e = (if x = p \<and> ys \<noteq> [] then (entry_at t x)\<lparr>next_idx := next_idx (entry_at t i)\<rparr> else entry_at t x)
      in if x = i then e\<lparr>sub_list := []\<rparr> else e)" if "unat x < unat (capacity t)" for x
    using remove_entry_at[OF d(1) ii(2) that, of p "bucket_of t key"] pinv cap[OF in_b[OF pin(1)]] by (auto simp: t'_def)
  have key: "key_data (entry_at t' x) = key_data (entry_at t x)" if "x \<in> set (concat cs)" for x
    using at[OF cap[OF that]] by (simp add: Let_def)
  have m: "add_mset i (mset (concat (cs[b := ys @ zs]))) = mset (concat cs)"
    using mset_concat_update[OF b, of "ys @ zs"] by (simp add: sp(1))
  have k: "mset (free_idxs t) + mset (concat cs) = mset (map of_nat [0..<unat (capacity t)])" using d(5) .
  have len: "length (free_idxs t) + length (concat cs) = unat (capacity t)" using arg_cong[OF k, of size] by simp
  have "length (free_idxs t) = nat (free_top t + 1)"
    using d(1,2,3) by (simp add: free_idxs_def kv_geom_def nat_le_iff)
  moreover have "0 < length (concat cs)" using ii(1) by (metis length_pos_if_in_set)
  ultimately have top: "nat (free_top t + 1) < unat (capacity t)" using len by linarith
  then have fi: "free_idxs t' = free_idxs t @ [i]"
  proof -
    define k where "k = nat (free_top t + 1)"
    have "nat (free_top t + 1 + 1) = Suc k" using d(2) by (simp add: k_def)
    moreover have "k < length (free_stack t)" using top d(1) by (simp add: k_def kv_geom_def)
    ultimately show ?thesis by (simp add: free_idxs_def t'_def k_def[symmetric] take_Suc_conv_app_nth)
  qed
  have rep': "kv_rep t' (cs[b := ys @ zs])"
  proof (rule kv_rep_bucket_change[OF rep b])
    show "- 1 \<le> free_top t'" "free_top t' < int (unat (capacity t'))" using d(2) top by (simp_all add: t'_def nat_less_iff)
    show "buckets t' ! c = buckets t ! c" if "c \<noteq> b" for c using that by (simp add: t'_def b_def)
    show "entry_at t' x = entry_at t x" if "x \<in> set (concat cs)" "x \<notin> set (cs ! b)" for x
      using at[OF cap[OF that(1)]] that(2) pin(1) sp(1) by (auto simp: Let_def)
    show "kv_chain t' (first_idx (buckets t' ! b)) (ys @ zs)"
    proof (cases "ys = []")
      case True
      have "kv_chain t' (next_idx (entry_at t i)) zs"
        by (rule kv_chain_cong[OF kv_chain_next[of t _ "[]"]]) (use ch(1) sp(1) True at[OF cap[OF in_b]] in \<open>auto simp: Let_def\<close>)
      then show ?thesis using True pinv b d(4) by (simp add: t'_def b_def)
    next
      case False
      have "kv_chain t' (first_idx (buckets t ! b)) (ys @ zs)"
      proof (rule kv_chain_unlink[of t])
        show "next_idx (entry_at t' y) = next_idx (entry_at t (if y = last ys then i else y))" if "y \<in> set (ys @ i # zs)" for y
          using at[OF cap[OF in_b], of y] that sp(1,3) False pin(2) by (auto simp: Let_def)
      qed (use ch(1,2) sp(1) False in auto)
      then show ?thesis using False pinv by (simp add: t'_def b_def)
    qed
    show "distinct (map (\<lambda>x. key_data (entry_at t' x)) (ys @ zs))"
      by (rule distinct_map_cong[where f = "\<lambda>x. key_data (entry_at t x)"]) (use ch(5) sp(1) key[OF in_b] in auto)
    show "bucket_of t (key_data (entry_at t' x)) = b" if "x \<in> set (ys @ zs)" for x
      using key[OF in_b, of x] ch(4)[of x] that sp(1) by auto
    show "mset (free_idxs t') + mset (concat (cs[b := ys @ zs])) = mset (free_idxs t) + mset (concat cs)"
      by (simp add: fi m[symmetric])
    have "size (add_mset i (mset (concat (cs[b := ys @ zs])))) = size (mset (concat cs))" by (simp only: m)
    then show "used_count t' = of_nat (length (concat (cs[b := ys @ zs])))"
      using d(6) by (simp add: t'_def) (metis add_diff_cancel_left' of_nat_Suc)
    show "entry_ok (max_val_size t) (entry_at t' x)" if "unat x < unat (capacity t)" for x
      using at[OF that] d(7)[OF that] by (auto simp: Let_def entry_ok_def)
  qed (simp_all add: t'_def)
  then show "\<exists>cs'. kv_rep t' cs'" by blast
  have i': "i \<notin> set (concat (cs[b := ys @ zs]))"
  proof -
    have "distinct (concat cs)" using kv_rep_indices(2)[OF rep] by simp
    then have "distinct (i # concat (cs[b := ys @ zs]))" using mset_eq_imp_distinct_iff[of "i # concat (cs[b := ys @ zs])" "concat cs"] m by simp
    then show ?thesis by simp
  qed
  have set': "set (concat cs) = insert i (set (concat (cs[b := ys @ zs])))" using arg_cong[OF m, of set_mset] by simp
  have view: "entry_view (entry_at t' x) = entry_view (entry_at t x)" if "x \<in> set (concat cs)" "x \<noteq> i" for x
    using at[OF cap[OF that(1)]] that(2) by (simp add: Let_def entry_view_def entry_value_def)
  have keyi: "key_data (entry_at t x) \<noteq> key" if x: "x \<in> set (concat cs)" "x \<noteq> i" for x
  proof
    assume "key_data (entry_at t x) = key"
    then have "kv_entry t key = Some (entry_at t x)" using kv_rep_entry_iff[OF rep] x(1) by blast
    obtain c where c: "c < length cs" "x \<in> set (cs ! c)" using x(1) by (auto simp: in_set_conv_nth[of _ cs])
    then have "c = b" using kv_rep_chain(4)[OF rep c] \<open>key_data (entry_at t x) = key\<close> by (simp add: b_def)
    then have "x \<in> set (cs ! b)" "i \<in> set (cs ! b)" using c(2) sp(1) by simp_all
    moreover have "inj_on (\<lambda>x. key_data (entry_at t x)) (set (cs ! b))" using ch(5) by (simp add: distinct_map)
    ultimately show False using x(2) \<open>key_data (entry_at t x) = key\<close> sp(2) inj_onD by fastforce
  qed
  show "kv_map t' = (kv_map t)(key := None)"
  proof (rule ext)
    fix k
    have "kv_map t' k = Some v \<longleftrightarrow> k \<noteq> key \<and> kv_map t k = Some v" for v
      unfolding kv_map_iff[OF rep'] kv_map_iff[OF rep] set'
      using view key keyi sp(2) i' set' by (metis insert_iff)
    then show "kv_map t' k = ((kv_map t)(key := None)) k" by (metis fun_upd_apply not_None_eq)
  qed
qed

end
