(* ===== verification/KvClaims.thy ===== *)
theory KvClaims
  imports KvProps
begin

text \<open>
  The properties of the key-value store: a table is a bounded map whatever collides in its
  buckets, reads see the last write, a put calls every subscriber of its key once, and when creating
  a table succeeds, fails or never returns.
\<close>

section \<open>The operations on the map\<close>

definition kv_inv :: "nos_kv_table \<Rightarrow> bool" where
  "kv_inv t \<longleftrightarrow> kv_ok t \<and> kv_unlocked t"

lemma kv_lookup_cases:
  assumes "kv_rep t cs"
  obtains (absent) "kv_lookup t key = Some None" "kv_entry t key = None"
  | (present) p i where "kv_lookup t key = Some (Some (p, i))" "kv_entry t key = Some (entry_at t i)"
      "i \<in> set (concat cs)" "key_data (entry_at t i) = key"
proof (cases "chain_find t key KV_INVALID_IDX (cs ! bucket_of t key)")
  case None
  then show ?thesis using absent kv_rep_lookup[OF assms, of key] by (simp add: kv_entry_def)
next
  case (Some pi)
  then obtain p i where f: "chain_find t key KV_INVALID_IDX (cs ! bucket_of t key) = Some (p, i)" by (cases pi) auto
  then have "i \<in> set (cs ! bucket_of t key)" "key_data (entry_at t i) = key" using chain_find_Some[OF f] by auto
  moreover from this have "i \<in> set (concat cs)" using kv_rep_bucket[OF assms, of key] by auto
  ultimately show ?thesis using present kv_rep_lookup[OF assms, of key] f by (simp add: kv_entry_def)
qed

lemma wr_locked_free [simp]: "kv_rep t cs \<Longrightarrow> kv_unlocked t \<Longrightarrow> wr_locked t (bucket_of t key) r = r"
  using kv_rep_bucket[of t cs key] kv_repD(4)[of t cs] by (simp add: wr_locked_def kv_unlocked_def)

lemma kv_rep_full:
  assumes "kv_rep t cs"
  shows "free_top t < 0 \<longleftrightarrow> card (dom (kv_map t)) \<ge> unat (capacity t)"
proof -
  note d = kv_repD[OF assms]
  have "length (free_idxs t) + length (concat cs) = unat (capacity t)" using arg_cong[OF d(5), of size] by simp
  moreover have "length (free_idxs t) = nat (free_top t + 1)"
    using d(1,2,3) by (simp add: free_idxs_def kv_geom_def nat_le_iff)
  moreover have "dom (kv_map t) = dom (kv_entry t)" by (auto simp: kv_map_def)
  ultimately show ?thesis using kv_rep_dom(2)[OF assms] d(2) by simp linarith
qed

lemma entry_ok_at: "kv_rep t cs \<Longrightarrow> i \<in> set (concat cs) \<Longrightarrow> entry_ok (max_val_size t) (entry_at t i)"
  using kv_rep_indices(1)[of t cs i] kv_repD(7) by blast

lemma entry_value_set: "unat n = length v \<Longrightarrow> entry_value (set_value (Some v) n e) = v"
  by (simp add: entry_value_def set_value_def)

lemma put_correct:
  assumes inv: "kv_inv t" and n: "unat n = length v" "n \<le> max_val_size t"
  shows "\<exists>st t' calls. nos_kv_put (Some t) (Some key) (Some v) n = Some (st, Some t', calls) \<and> kv_inv t' \<and>
     capacity t' = capacity t \<and> max_val_size t' = max_val_size t \<and>
     (if kv_map t key = None \<and> unat (capacity t) \<le> card (dom (kv_map t)) then st = NOS_ERR_BUSY \<and> t' = t \<and> calls = []
      else st = NOS_OK \<and> kv_map t' = (kv_map t)(key \<mapsto> (v, case kv_map t key of None \<Rightarrow> [] | Some (_, subs) \<Rightarrow> subs)) \<and>
        calls = (case kv_map t key of None \<Rightarrow> []
                 | Some (_, subs) \<Rightarrow> map (\<lambda>s. (sub_notify s, sub_arg s, key, Some v, n)) subs))"
proof -
  obtain cs where rep: "kv_rep t cs" and ul: "kv_unlocked t" using inv by (auto simp: kv_inv_def kv_ok_def)
  have n': "\<not> max_val_size t < n" using n(2) by simp
  show ?thesis
    using rep
  proof (cases rule: kv_lookup_cases[where key = key])
    case absent
    then have none: "kv_map t key = None" by (simp add: kv_map_def)
    show ?thesis
    proof (cases "free_top t < 0")
      case True
      then show ?thesis
        using absent none kv_rep_full[OF rep] rep ul inv n' by (simp add: nos_kv_put_def Let_def)
    next
      case False
      let ?t = "insert_entry (bucket_of t key) key (Some v) n t"
      have top: "0 \<le> free_top t" using False by simp
      note ins = kv_rep_insert[OF rep absent(2) refl top n(2), of "Some v"]
      have "kv_unlocked ?t" using ul kv_rep_bucket[OF rep, of key] kv_repD(4)[OF rep]
        by (auto simp: kv_unlocked_def dest!: set_update_subset_insert[THEN subsetD])
      then have "kv_inv ?t" using ins(1) n(1) by (auto simp: kv_inv_def kv_ok_def)
      moreover have "kv_map ?t = (kv_map t)(key \<mapsto> (v, []))"
        using ins(2,3) n(1) by (simp add: kv_map_def fun_eq_iff entry_view_def entry_value_def set_value_def)
      ultimately show ?thesis
        using absent none kv_rep_full[OF rep] rep ul n' False by (simp add: nos_kv_put_def Let_def)
    qed
  next
    case (present p i)
    let ?t = "upd_kv_entry i (set_value (Some v) n) t"
    have ok: "entry_ok (max_val_size t) (set_value (Some v) n (entry_at t i))"
      by (rule set_value_ok[OF entry_ok_at[OF rep present(3)]]) (use n in auto)
    note up = kv_rep_upd[OF rep present(3), of "set_value (Some v) n", simplified set_value_frame, OF refl refl ok]
    have some: "kv_map t key = Some (entry_view (entry_at t i))" using present by (simp add: kv_map_def)
    have "kv_inv ?t" using up(1) ul by (auto simp: kv_inv_def kv_ok_def kv_unlocked_def)
    moreover have "kv_map ?t = (kv_map t)(key \<mapsto> (v, sub_list (entry_at t i)))"
      using up(2) n(1) present(4) by (simp add: kv_map_def fun_eq_iff entry_view_def entry_value_set)
    ultimately show ?thesis
      using present some rep ul n' by (simp add: nos_kv_put_def Let_def entry_view_def notifications_def entry_at_def[of t i])
  qed
qed

lemma del_correct:
  assumes inv: "kv_inv t"
  shows "\<exists>st t'. nos_kv_del (Some t) (Some key) = Some (st, Some t') \<and> kv_inv t' \<and>
     capacity t' = capacity t \<and> max_val_size t' = max_val_size t \<and> kv_map t' = (kv_map t)(key := None) \<and>
     (if kv_map t key = None then st = NOS_ERR \<and> t' = t else st = NOS_OK)"
proof -
  obtain cs where rep: "kv_rep t cs" and ul: "kv_unlocked t" using inv by (auto simp: kv_inv_def kv_ok_def)
  show ?thesis
    using rep
  proof (cases rule: kv_lookup_cases[where key = key])
    case absent
    then have "kv_map t key = None" by (simp add: kv_map_def)
    then show ?thesis using absent rep ul inv by (simp add: nos_kv_del_def Let_def fun_eq_iff)
  next
    case (present p i)
    note rm = kv_rep_remove[OF rep present(1)]
    have "kv_unlocked (remove_entry (bucket_of t key) p i t)"
      using ul kv_rep_bucket[OF rep, of key] kv_repD(4)[OF rep]
      by (auto simp: kv_unlocked_def dest!: set_update_subset_insert[THEN subsetD])
    then have "kv_inv (remove_entry (bucket_of t key) p i t)" using rm(1) by (auto simp: kv_inv_def kv_ok_def)
    then show ?thesis using rm(2) present rep ul by (simp add: nos_kv_del_def Let_def kv_map_def)
  qed
qed

section \<open>A table as a bounded map\<close>

definition kv_insert :: "bytes \<Rightarrow> bytes \<Rightarrow> nos_kv_table \<Rightarrow> nos_kv_table option" where
  "kv_insert key v t =
     (case nos_kv_put (Some t) (Some key) (Some v) (of_nat (length v)) of Some (NOS_OK, t', _) \<Rightarrow> t' | _ \<Rightarrow> None)"

definition kv_delete :: "bytes \<Rightarrow> nos_kv_table \<Rightarrow> nos_kv_table option" where
  "kv_delete key t = (case nos_kv_del (Some t) (Some key) of Some (NOS_OK, t') \<Rightarrow> t' | _ \<Rightarrow> None)"

definition kv_fits :: "nos_kv_table \<Rightarrow> bytes \<Rightarrow> bytes \<Rightarrow> bool" where
  "kv_fits t key v \<longleftrightarrow> length v \<le> unat (max_val_size t)"

lemma kv_fits_put:
  "kv_fits t key v \<Longrightarrow> unat (of_nat (length v) :: u32) = length v \<and> (of_nat (length v) :: u32) \<le> max_val_size t"
  using unat_u32_bound[of "max_val_size t"] by (auto simp: kv_fits_def word_le_nat_alt unat_of_nat)

lemma dom_kv_value: "dom (kv_value t) = dom (kv_map t)" "kv_value t key = None \<longleftrightarrow> kv_map t key = None"
  by (auto simp: kv_value_def)

lemma kv_value_upd: "kv_map t' = (kv_map t)(key := x) \<Longrightarrow> kv_value t' = (kv_value t)(key := map_option fst x)"
  by (simp add: kv_value_def fun_eq_iff)

interpretation kv_table: keyed_table kv_inv kv_value "\<lambda>t. unat (capacity t)" id kv_fits kv_insert kv_delete
proof (unfold_locales, goal_cases)
  case (1 t key v)
  note n = kv_fits_put[OF 1(2)]
  show ?case
    using put_correct[OF 1(1) conjunct1[OF n] conjunct2[OF n], of key]
    by (auto simp: kv_insert_def map_insert_def dom_kv_value dest!: kv_value_upd split: if_splits)
next
  case (2 t key v t')
  note n = kv_fits_put[OF 2(2)]
  show ?case
    using put_correct[OF 2(1) conjunct1[OF n] conjunct2[OF n], of key] 2(3)
    by (auto simp: kv_insert_def kv_fits_def fun_eq_iff split: if_splits)
next
  case (3 t key)
  show ?case
    using del_correct[OF 3, of key]
    by (auto simp: kv_delete_def map_delete_def dom_kv_value dest!: kv_value_upd split: if_splits)
next
  case (4 t key t')
  show ?case
    using del_correct[OF 4(1), of key] 4(2)
    by (auto simp: kv_delete_def kv_fits_def fun_eq_iff split: if_splits)
qed

section \<open>A new table\<close>

lemma round_up_zero: "0 < cap \<Longrightarrow> round_up 0 cap = None"
proof -
  have "n \<noteq> 0 \<or> cap = 0" if "round_up n cap = Some m" for n cap m
  proof (rule round_up.raw_induct[where P = "\<lambda>n cap m. n \<noteq> 0 \<or> cap = 0", OF _ that])
    fix ru :: "u32 \<Rightarrow> u32 \<Rightarrow> u32 option" and n cap m :: u32
    assume IH: "\<And>n cap m. ru n cap = Some m \<Longrightarrow> n \<noteq> 0 \<or> cap = 0"
      and r: "(if n < cap then ru (push_bit 1 n) cap else Some n) = Some m"
    show "n \<noteq> 0 \<or> cap = 0"
    proof (rule ccontr)
      assume "\<not> (n \<noteq> 0 \<or> cap = 0)"
      then have z: "n = 0" "0 < cap" "cap \<noteq> 0" using word_neq_0_conv[of cap] by auto
      then have "ru 0 cap = Some m" using r by simp
      then show False using IH z(3) by blast
    qed
  qed
  then show "0 < cap \<Longrightarrow> round_up 0 cap = None" by (metis not_None_eq word_neq_0_conv)
qed

lemma push_bit_pow: "k < 31 \<Longrightarrow> push_bit 1 (2 ^ k :: u32) = 2 ^ Suc k"
  by (simp add: push_bit_eq_mult mult.commute)

lemma unat_pow2: "k < 32 \<Longrightarrow> unat (2 ^ k :: u32) = 2 ^ k"
proof -
  assume "k < 32"
  then have "(2 :: nat) ^ k < 2 ^ 32" by (intro power_strict_increasing) auto
  then have "unat (of_nat (2 ^ k) :: u32) = 2 ^ k" by (simp only: unat_of_nat) simp
  then show ?thesis by simp
qed

lemma round_up_pow:
  assumes "k \<le> 31"
  shows "(unat cap \<le> 2 ^ 31 \<longrightarrow> (\<exists>j. k \<le> j \<and> j \<le> 31 \<and> unat cap \<le> 2 ^ j \<and> round_up (2 ^ k) cap = Some (2 ^ j))) \<and>
    (2 ^ 31 < unat cap \<longrightarrow> round_up (2 ^ k) cap = None)"
  using assms
proof (induction rule: inc_induct)
  case base
  have u: "unat (2 ^ 31 :: u32) = 2 ^ 31" by (rule unat_pow2) simp
  have z: "push_bit 1 (2 ^ 31 :: u32) = 0" by code_simp
  show ?case
  proof (intro conjI impI)
    assume "unat cap \<le> 2 ^ 31"
    then have "\<not> (2 ^ 31 :: u32) < cap" by (simp only: word_less_nat_alt u not_less)
    then have "round_up (2 ^ 31) cap = Some (2 ^ 31)" by (subst round_up.simps) simp
    then show "\<exists>j. 31 \<le> j \<and> j \<le> 31 \<and> unat cap \<le> 2 ^ j \<and> round_up (2 ^ 31) cap = Some (2 ^ j)"
      using \<open>unat cap \<le> 2 ^ 31\<close> by (intro exI[of _ 31]) simp
  next
    assume c: "2 ^ 31 < unat cap"
    then have "(2 ^ 31 :: u32) < cap" by (simp only: word_less_nat_alt u)
    then have "round_up (2 ^ 31) cap = round_up 0 cap" by (subst round_up.simps) (simp only: z if_True)
    moreover have "0 < cap" using c by (simp add: word_less_nat_alt)
    ultimately show "round_up (2 ^ 31) cap = None" using round_up_zero by simp
  qed
next
  case (step k)
  have u: "unat (2 ^ k :: u32) = 2 ^ k" using step(2) by (intro unat_pow2) simp
  show ?case
  proof (cases "(2 ^ k :: u32) < cap")
    case True
    then have "round_up (2 ^ k) cap = round_up (2 ^ Suc k) cap"
      by (subst round_up.simps) (simp only: push_bit_pow[OF step(2)] if_True)
    then show ?thesis using step.IH by (metis Suc_leD)
  next
    case False
    then have "unat cap \<le> 2 ^ k" by (simp only: word_less_nat_alt u not_less)
    moreover have "round_up (2 ^ k) cap = Some (2 ^ k)" using False by (subst round_up.simps) (simp only: if_False)
    moreover have "(2 :: nat) ^ k \<le> 2 ^ 31" using step(2) by (intro power_increasing) auto
    ultimately show ?thesis using step(2) by (auto intro!: exI[of _ k] simp del: round_up.simps)
  qed
qed

text \<open>A table whose pool does not exceed 4 GB starts out empty and consistent.\<close>

lemma new_table_inv:
  assumes "unat cap \<le> unat n" "0 < cap" "unat cap < 2 ^ 31" "0 < KV_ENTRY_HEADER + ks + vs"
    and "unat cap * unat (KV_ENTRY_HEADER + ks + vs) \<le> 2 ^ 32"
  shows "kv_inv (new_table name ks vs cap n)" "kv_map (new_table name ks vs cap n) = Map.empty"
proof -
  let ?t = "new_table name ks vs cap n"
  let ?cs = "replicate (unat n) [] :: u32 list list"
  have e: "concat ?cs = []" by (induction "unat n") simp_all
  have pos: "0 < unat cap" "0 < unat n" using assms(1,2) by (auto simp: word_less_nat_alt)
  have "- 1 < uint cap" by (rule order_less_le_trans[OF _ uint_ge_0]) simp
  note pos = pos this
  have rep: "kv_rep ?t ?cs"
  proof (rule kv_repI)
    show "kv_geom ?t" using assms pos by (simp add: kv_geom_def new_table_def word_less_nat_alt)
    show "mset (free_idxs ?t) + mset (concat ?cs) = mset (map of_nat [0..<unat (capacity ?t)])"
      unfolding e by (simp add: free_idxs_def new_table_def unat_eq_nat_uint[symmetric])
    show "used_count ?t = of_nat (length (concat ?cs))" unfolding e by (simp add: new_table_def)
    show "entry_ok (max_val_size ?t) (entry_at ?t x)" if "unat x < unat (capacity ?t)" for x
      by (simp add: entry_ok_def entry_at_def new_table_def zero_entry_def)
  qed (use pos in \<open>simp_all add: new_table_def\<close>)
  then show "kv_inv ?t" by (auto simp: kv_inv_def kv_ok_def kv_unlocked_def new_table_def)
  show "kv_map ?t = Map.empty"
    using kv_rep_dom(1)[OF rep] unfolding e by (auto simp: kv_map_def fun_eq_iff dom_def)
qed

section \<open>Properties\<close>

text \<open>
  Creating tables: \<open>NULL\<close> is returned without a name, with a key size or capacity of 0, with 32 tables
  already there or without memory; an existing table with the very name is returned as it is;
  otherwise a table of at most \<open>2 ^ 31\<close> entries whose pool does not exceed 4 GB is appended, consistent
  and empty. For a capacity above \<open>2 ^ 31\<close> the call never returns: the number of buckets
  is doubled until it overflows to 0.
\<close>

theorem nos_kv_table_create_correct:
  assumes "ks \<noteq> 0" "cap \<noteq> 0" "length ts < MAX_TABLES" "mem" "name \<notin> table_name ` set ts"
  shows "(unat cap < 2 ^ 31 \<and> unat ks + unat vs + 16 < 2 ^ 32 \<and> unat cap * (unat ks + unat vs + 16) \<le> 2 ^ 32 \<longrightarrow>
      (\<exists>t. nos_kv_table_create mem (Some name) ks vs cap ts = Some (Some (length ts), ts @ [t]) \<and>
        kv_inv t \<and> kv_map t = Map.empty \<and> capacity t = cap \<and> max_val_size t = vs \<and>
        table_name t = take 31 name \<and> unat cap \<le> unat (bucket_count t))) \<and>
    (2 ^ 31 < unat cap \<longrightarrow> nos_kv_table_create mem (Some name) ks vs cap ts = None)"
proof (rule conjI[OF impI impI])
  have new: "find_slot (\<lambda>t. table_name t = name) (length ts) ts = None"
    using assms(5) by (auto simp: find_slot_None)
  have create: "nos_kv_table_create mem (Some name) ks vs cap ts =
      (case round_up 1024 cap of None \<Rightarrow> None | Some n \<Rightarrow> Some (Some (length ts), ts @ [new_table name ks vs cap n]))"
    using assms(1-4) new by (simp add: nos_kv_table_create_def)
  note r = round_up_pow[of 10 cap, simplified]
  show "nos_kv_table_create mem (Some name) ks vs cap ts = None" if "2 ^ 31 < unat cap"
    unfolding create using r that by simp
  assume small: "unat cap < 2 ^ 31 \<and> unat ks + unat vs + 16 < 2 ^ 32 \<and> unat cap * (unat ks + unat vs + 16) \<le> 2 ^ 32"
  then obtain j where j: "j \<le> 31" "unat cap \<le> 2 ^ j" "round_up 1024 cap = Some (2 ^ j)" using r by auto
  have u: "unat (2 ^ j :: u32) = 2 ^ j" using j(1) by (intro unat_pow2) simp
  have es: "unat (KV_ENTRY_HEADER + ks + vs) = 16 + unat ks + unat vs"
    using small by (simp add: KV_ENTRY_HEADER_def unat_word_ariths)
  have "unat cap \<le> unat (2 ^ j :: u32)" "0 < cap" "unat cap < 2 ^ 31" "0 < KV_ENTRY_HEADER + ks + vs"
      "unat cap * unat (KV_ENTRY_HEADER + ks + vs) \<le> 2 ^ 32"
    using small j(2) u es assms(2) by (simp_all add: word_less_nat_alt word_neq_0_conv ac_simps)
  note inv = new_table_inv[OF this]
  then show "\<exists>t. nos_kv_table_create mem (Some name) ks vs cap ts = Some (Some (length ts), ts @ [t]) \<and>
        kv_inv t \<and> kv_map t = Map.empty \<and> capacity t = cap \<and> max_val_size t = vs \<and>
        table_name t = take 31 name \<and> unat cap \<le> unat (bucket_count t)"
    unfolding create j(3) using u j(2) by (simp add: new_table_def strncpy_field_def)
qed

definition sample_table :: nos_kv_table where
  "sample_table = new_table ''routes'' 2 4 2 1024"

lemma sample_table_ok: "kv_inv sample_table" "kv_map sample_table = Map.empty" "capacity sample_table = 2"
    "max_val_size sample_table = 4"
  using new_table_inv[of 2 1024 2 4 "''routes''"] by (simp_all add: sample_table_def KV_ENTRY_HEADER_def new_table_def)

theorem nos_kv_table_create_correct_witness:
  "\<exists>t. nos_kv_table_create True (Some ''routes'') 2 4 2 [] = Some (Some 0, [t]) \<and> kv_inv t \<and> kv_map t = Map.empty"
proof -
  have u: "unat (2 :: u32) = 2" "unat (4 :: u32) = 4" by simp_all
  show ?thesis
    using nos_kv_table_create_correct[of 2 2 "[]" True "''routes''" 4] by (auto simp: u MAX_TABLES_def)
qed

text \<open>
  C9 A table is a bounded map, whatever collides in its buckets: any sequence of puts and deletions
  of values that fit gives the same answers and leaves the same values under all keys as on a map
  of at most \<open>capacity\<close> keys, where a put of a present key replaces its value and only a put of a new key
  into a full table is refused.
\<close>

theorem nos_kv_refines_map:
  assumes "kv_inv t" "list_all (op_ok (kv_fits t)) ops" "table_run kv_insert kv_delete t ops = (t', bs)"
  shows "kv_inv t' \<and> table_run (map_insert (unat (capacity t)) id) map_delete (kv_value t) ops = (kv_value t', bs)"
  using kv_table.run_refines[OF assms] by simp

theorem nos_kv_refines_map_witness:
  "\<exists>t. table_run kv_insert kv_delete sample_table
      [Insert [1, 2] [7], Insert [3, 4] [8, 9], Insert [5, 6] [], Insert [1, 2] [5], Delete [3, 4], Delete [3, 4]] =
        (t, [True, True, False, True, True, False]) \<and> kv_value t = [[1, 2] \<mapsto> [5]]"
proof -
  let ?ops = "[Insert [1, 2] [7], Insert [3, 4] [8, 9], Insert [5, 6] [], Insert [1, 2] [5], Delete [3, 4], Delete [3, 4]] :: (bytes, bytes) table_op list"
  obtain t bs where r: "table_run kv_insert kv_delete sample_table ?ops = (t, bs)" by (metis prod.exhaust)
  have f: "list_all (op_ok (kv_fits sample_table)) ?ops" by (simp add: kv_fits_def sample_table_ok(4))
  have m: "kv_value sample_table = Map.empty" by (simp add: kv_value_def[abs_def] sample_table_ok(2))
  have d: "dom [[1 :: u8, 2] \<mapsto> [7 :: u8], [3, 4] \<mapsto> [8, 9]] = {[1, 2], [3, 4]}" by auto
  have "table_run (map_insert 2 id) map_delete Map.empty ?ops = ([[1, 2] \<mapsto> [5]], [True, True, False, True, True, False])"
    by (simp add: map_insert_def map_delete_def fun_upd_twist)
  then show ?thesis
    using nos_kv_refines_map[OF sample_table_ok(1) f r] r unfolding m sample_table_ok(3) by auto
qed

text \<open>
  C21 Writing: a put of a value that fits returns and is refused only when the table is full and the key is
  new; otherwise the key has this value and keeps its subscribers, all other keys are as before, and exactly
  the subscribers of the key are called, once each, with the key and the new value.
\<close>

theorem nos_kv_put_correct:
  assumes "kv_inv t" "unat n = length v" "n \<le> max_val_size t"
  shows "\<exists>st t' calls. nos_kv_put (Some t) (Some key) (Some v) n = Some (st, Some t', calls) \<and> kv_inv t' \<and>
     (if kv_map t key = None \<and> unat (capacity t) \<le> card (dom (kv_map t)) then st = NOS_ERR_BUSY \<and> t' = t \<and> calls = []
      else st = NOS_OK \<and> kv_map t' = (kv_map t)(key \<mapsto> (v, case kv_map t key of None \<Rightarrow> [] | Some (_, subs) \<Rightarrow> subs)) \<and>
        calls = (case kv_map t key of None \<Rightarrow> []
                 | Some (_, subs) \<Rightarrow> map (\<lambda>s. (sub_notify s, sub_arg s, key, Some v, n)) subs))"
  using put_correct[OF assms] by blast

theorem nos_kv_put_correct_witness:
  "\<exists>t. nos_kv_put (Some sample_table) (Some [1, 2]) (Some [7, 8]) 2 = Some (NOS_OK, Some t, []) \<and>
     kv_map t = [[1, 2] \<mapsto> ([7, 8], [])]"
proof -
  have u: "unat (2 :: u32) = length [7 :: u8, 8]" "(2 :: u32) \<le> max_val_size sample_table" by (simp_all add: sample_table_ok)
  show ?thesis
    using nos_kv_put_correct[OF sample_table_ok(1) u, of "[1, 2]"] by (auto simp: sample_table_ok)
qed

section \<open>Reading and subscribing\<close>

lemma entry_len:
  assumes "kv_rep t cs" "i \<in> set (concat cs)"
  shows "length (entry_value (entry_at t i)) = unat (val_len (entry_at t i))"
  using entry_ok_at[OF assms] by (auto simp: entry_ok_def entry_value_def word_le_nat_alt)

lemma kv_get_value:
  assumes "kv_inv t"
  shows "nos_kv_get (Some t) (Some key) (Some n) =
      Some (case kv_value t key of None \<Rightarrow> (NOS_ERR, None) | Some v \<Rightarrow> (NOS_OK, Some (take (unat n) v, of_nat (length v))))"
proof -
  obtain cs where rep: "kv_rep t cs" using assms by (auto simp: kv_inv_def kv_ok_def)
  show ?thesis
    using rep
  proof (cases rule: kv_lookup_cases[where key = key])
    case absent
    then show ?thesis by (simp add: nos_kv_get_def kv_value_def kv_map_def)
  next
    case (present p i)
    let ?e = "entry_at t i"
    have val: "kv_value t key = Some (entry_value ?e)" using present(2) by (simp add: kv_value_def kv_map_def entry_view_def)
    have pm: "pool_mem t (entry_offset t i) = ?e" by (simp add: entry_at_def)
    have copy: "take (unat (if n < val_len ?e then n else val_len ?e)) (val_data ?e) = take (unat n) (entry_value ?e)"
      by (auto simp: entry_value_def word_less_nat_alt min_def)
    show ?thesis
      using present(1) val entry_len[OF rep present(3)]
      by (simp add: nos_kv_get_def Let_def pm copy split del: if_split cong: if_cong)
  qed
qed

text \<open>
  Reading: \<open>nos_kv_get\<close> finds exactly the present keys, copies as much of the value as the caller's
  buffer holds and reports the length of the whole value, which exceeds what was copied when the buffer was
  too small. After a zero-copy read the bucket of the key is locked: until the handle is released no
  put, subscription or deletion of a key in it returns, and releasing the handle restores the table.
\<close>

theorem nos_kv_get_correct:
  assumes "kv_inv t"
  shows "nos_kv_get (Some t) (Some key) (Some n) =
      Some (case kv_value t key of None \<Rightarrow> (NOS_ERR, None) | Some v \<Rightarrow> (NOS_OK, Some (take (unat n) v, of_nat (length v)))) \<and>
    (\<exists>st out t'. nos_kv_get_ptr (Some t) (Some key) True = Some (st, out, Some t') \<and>
      (case out of
         None \<Rightarrow> st = NOS_ERR \<and> kv_value t key = None \<and> t' = t
       | Some (idx, len, b) \<Rightarrow> st = NOS_OK \<and> kv_value t key = Some (take (unat len) (val_data (entry_at t idx))) \<and>
           nos_kv_release_ptr (Some b) t' = t \<and>
           (\<forall>k v m s. bucket_of t k = bucket_of t key \<longrightarrow> m \<le> max_val_size t \<longrightarrow> sub_notify s \<noteq> NULL \<longrightarrow>
              nos_kv_put (Some t') (Some k) v m = None \<and> nos_kv_del (Some t') (Some k) = None \<and>
              nos_kv_subscribe (Some t') (Some k) s = None)))"
proof -
  obtain cs where rep: "kv_rep t cs" and ul: "kv_unlocked t" using assms by (auto simp: kv_inv_def kv_ok_def)
  show ?thesis
    using rep
  proof (cases rule: kv_lookup_cases[where key = key])
    case absent
    then have "kv_value t key = None" by (simp add: kv_value_def kv_map_def)
    then show ?thesis using absent kv_get_value[OF assms, of key n] by (simp add: nos_kv_get_ptr_def)
  next
    case (present p i)
    let ?e = "entry_at t i" and ?b = "bucket_of t key"
    define t2 where "t2 = upd_bucket ?b (\<lambda>bk. bk\<lparr>readers := readers bk + 1\<rparr>) t"
    have val: "kv_value t key = Some (entry_value ?e)" using present(2) by (simp add: kv_value_def kv_map_def entry_view_def)
    have pm: "pool_mem t (entry_offset t i) = ?e" by (simp add: entry_at_def)
    have b: "?b < length (buckets t)" using kv_rep_bucket[OF rep, of key] kv_repD(4)[OF rep] by simp
    have bk: "bucket_of t2 = bucket_of t" by (rule bucket_of_cong) (simp add: t2_def)
    have rd: "readers (buckets t2 ! ?b) \<noteq> 0" "max_val_size t2 = max_val_size t" using b by (simp_all add: t2_def)
    have "nos_kv_release_ptr (Some ?b) t2 = t"
      using b by (simp add: nos_kv_release_ptr_def upd_bucket_def t2_def)
    moreover have "nos_kv_put (Some t2) (Some k) v m = None \<and> nos_kv_del (Some t2) (Some k) = None \<and>
        nos_kv_subscribe (Some t2) (Some k) s = None"
      if "bucket_of t k = ?b" "m \<le> max_val_size t" "sub_notify s \<noteq> NULL" for k v m s
      using that rd by (simp add: nos_kv_put_def nos_kv_del_def nos_kv_subscribe_def Let_def wr_locked_def bk)
    ultimately show ?thesis
      using present(1) val kv_get_value[OF assms, of key n]
      by (simp add: nos_kv_get_ptr_def Let_def pm entry_value_def t2_def)
  qed
qed

theorem nos_kv_get_correct_witness:
  "nos_kv_get (Some sample_table) (Some [1, 2]) (Some 4) = Some (NOS_ERR, None)"
  using nos_kv_get_correct[OF sample_table_ok(1), of "[1, 2]" 4]
  by (simp add: kv_value_def sample_table_ok(2))

text \<open>
  Subscribing: only present keys can be subscribed to; a subscriber is added once, however often it
  subscribes, and is called by every put of the key from then on; unsubscribing takes it off
  again and is refused when it is not there. Values and other keys are not touched.
\<close>

theorem nos_kv_subscribe_correct:
  assumes "kv_inv t" "sub_notify s \<noteq> NULL"
  shows "(\<exists>st t'. nos_kv_subscribe (Some t) (Some key) s = Some (st, Some t') \<and> kv_inv t' \<and>
      (case kv_map t key of
         None \<Rightarrow> st = NOS_ERR \<and> t' = t
       | Some (v, subs) \<Rightarrow> st = NOS_OK \<and> kv_map t' = (kv_map t)(key \<mapsto> (v, if s \<in> set subs then subs else s # subs)))) \<and>
    (\<exists>st t'. nos_kv_unsubscribe (Some t) (Some key) s = Some (st, Some t') \<and> kv_inv t' \<and>
      (case kv_map t key of
         None \<Rightarrow> st = NOS_ERR \<and> t' = t
       | Some (v, subs) \<Rightarrow>
           if s \<in> set subs then st = NOS_OK \<and> kv_map t' = (kv_map t)(key \<mapsto> (v, remove1 s subs)) \<and> s \<notin> set (remove1 s subs)
           else st = NOS_ERR \<and> t' = t))"
proof -
  obtain cs where rep: "kv_rep t cs" and ul: "kv_unlocked t" using assms(1) by (auto simp: kv_inv_def kv_ok_def)
  show ?thesis
    using rep
  proof (cases rule: kv_lookup_cases[where key = key])
    case absent
    then have "kv_map t key = None" by (simp add: kv_map_def)
    then show ?thesis
      using absent rep ul assms by (simp add: nos_kv_subscribe_def nos_kv_unsubscribe_def)
  next
    case (present p i)
    have m: "kv_map t key = Some (entry_value (entry_at t i), sub_list (entry_at t i))"
      using present(2) by (simp add: kv_map_def entry_view_def)
    have pm: "pool_mem t (entry_offset t i) = entry_at t i" by (simp add: entry_at_def)
    note ok = entry_ok_at[OF rep present(3)]
    have upd: "kv_inv (upd_kv_entry i (\<lambda>e. e\<lparr>sub_list := f (sub_list e)\<rparr>) t) \<and>
        kv_map (upd_kv_entry i (\<lambda>e. e\<lparr>sub_list := f (sub_list e)\<rparr>) t) =
          (kv_map t)(key \<mapsto> (entry_value (entry_at t i), f (sub_list (entry_at t i))))"
      if "distinct (f (sub_list (entry_at t i)))" for f
    proof -
      let ?f = "\<lambda>e. e\<lparr>sub_list := f (sub_list e)\<rparr>"
      have "entry_ok (max_val_size t) (?f (entry_at t i))" using ok that by (simp add: entry_ok_def)
      note up = kv_rep_upd[OF rep present(3), of ?f, simplified, OF this]
      have "kv_inv (upd_kv_entry i ?f t)" using up(1) ul by (auto simp: kv_inv_def kv_ok_def kv_unlocked_def)
      moreover have "kv_map (upd_kv_entry i ?f t) = (kv_map t)(key \<mapsto> (entry_value (entry_at t i), f (sub_list (entry_at t i))))"
        using up(2) present(4) by (simp add: kv_map_def fun_eq_iff entry_view_def entry_value_def)
      ultimately show ?thesis ..
    qed
    have d: "distinct (sub_list (entry_at t i))" using ok by (simp add: entry_ok_def)
    note add = upd[of "add_sub s"] and rem = upd[of "remove1 s"]
    show ?thesis
      using present(1) rep ul assms m d add rem
      by (simp add: nos_kv_subscribe_def nos_kv_unsubscribe_def pm add_sub_def)
  qed
qed

theorem nos_kv_subscribe_correct_witness:
  "\<exists>t. nos_kv_put (Some sample_table) (Some [1, 2]) (Some [7]) 1 = Some (NOS_OK, Some t, []) \<and>
     (\<exists>t'. nos_kv_subscribe (Some t) (Some [1, 2]) \<lparr>sub_notify = 9, sub_arg = 3\<rparr> = Some (NOS_OK, Some t') \<and>
        kv_map t' = [[1, 2] \<mapsto> ([7], [\<lparr>sub_notify = 9, sub_arg = 3\<rparr>])])"
proof -
  have u: "unat (1 :: u32) = length [7 :: u8]" "(1 :: u32) \<le> max_val_size sample_table" by (simp_all add: sample_table_ok)
  obtain t where t: "nos_kv_put (Some sample_table) (Some [1, 2]) (Some [7]) 1 = Some (NOS_OK, Some t, [])"
    "kv_inv t" "kv_map t = [[1, 2] \<mapsto> ([7], [])]"
    using put_correct[OF sample_table_ok(1) u, of "[1, 2]"] by (auto simp: sample_table_ok)
  show ?thesis
    using nos_kv_subscribe_correct[OF t(2), of "\<lparr>sub_notify = 9, sub_arg = 3\<rparr>" "[1, 2]"] t(1,3) by auto
qed

text \<open>
  Two entries 4 GB apart share their memory: \<open>idx * entry_size\<close> is computed in 32 bits, so in a table of
  64 KB entries the entry with index \<open>2 ^ 16\<close> is the entry with index 0.
\<close>

lemma get_entry_alias:
  "entry_offset (new_table ''big'' 16 65504 70000 131072) 65536 = entry_offset (new_table ''big'' 16 65504 70000 131072) 0"
  by (simp add: entry_offset_def new_table_def KV_ENTRY_HEADER_def)

text \<open>A table whose name has more than 31 characters is not found by its own name again.\<close>

lemma long_name_not_found:
  "length name > 31 \<Longrightarrow> table_name (new_table name ks vs cap n) \<noteq> name"
  by (auto simp: new_table_def strncpy_field_def dest!: arg_cong[where f = length])

end
