(* ===== verification/LogRing.thy ===== *)
theory LogRing
  imports RingQueue NodeState
begin

text \<open>
  The log service (\<open>src/infra/log/nos_log.c\<close>): a ring of 1024 slots that are empty (0), being
  written (1) or ready (2), filter levels per component, and the consumer that prints the ready
  slots in order. One call of the log function is modelled as it runs by itself. The text of a
  message after formatting and the clock's time string are arguments; printing is the list of
  printed lines.
\<close>

section \<open>Levels\<close>

datatype nos_log_level = NOS_LOG_LEVEL_DEBUG | NOS_LOG_LEVEL_INFO | NOS_LOG_LEVEL_WARN | NOS_LOG_LEVEL_ERROR

fun level_num :: "nos_log_level \<Rightarrow> nat" where
  "level_num NOS_LOG_LEVEL_DEBUG = 0"
| "level_num NOS_LOG_LEVEL_INFO = 1"
| "level_num NOS_LOG_LEVEL_WARN = 2"
| "level_num NOS_LOG_LEVEL_ERROR = 3"

lemma level_num_inj: "level_num a = level_num b \<longleftrightarrow> a = b"
  by (cases a; cases b) simp_all

instantiation nos_log_level :: linorder
begin

definition less_eq_nos_log_level :: "nos_log_level \<Rightarrow> nos_log_level \<Rightarrow> bool" where
  "less_eq_nos_log_level a b \<longleftrightarrow> level_num a \<le> level_num b"

definition less_nos_log_level :: "nos_log_level \<Rightarrow> nos_log_level \<Rightarrow> bool" where
  "less_nos_log_level a b \<longleftrightarrow> level_num a < level_num b"

instance
  by standard (auto simp: less_eq_nos_log_level_def less_nos_log_level_def level_num_inj)

end

fun level_to_str :: "nos_log_level \<Rightarrow> string" where
  "level_to_str NOS_LOG_LEVEL_DEBUG = ''DEBUG''"
| "level_to_str NOS_LOG_LEVEL_INFO = ''INFO ''"
| "level_to_str NOS_LOG_LEVEL_WARN = ''WARN ''"
| "level_to_str NOS_LOG_LEVEL_ERROR = ''ERROR''"

section \<open>State\<close>

definition LOG_BUFFER_SIZE :: nat where "LOG_BUFFER_SIZE = 1024"

definition LOG_MSG_MAX :: nat where "LOG_MSG_MAX = 256"

definition MAX_COMP_ID :: nat where "MAX_COMP_ID = 256"

record nos_log_entry =
  log_level :: nos_log_level
  log_comp_id :: u32
  time_str :: string
  log_message :: string
  ready :: nat

record nos_comp_info =
  info_name :: string
  filter_level :: nos_log_level
  is_registered :: bool

record nos_log_context =
  log_ring :: "nos_log_entry list"
  write_idx :: u32
  read_idx :: u32
  global_filter_level :: nos_log_level
  comp_info :: "nos_comp_info list"
  dropped_count :: nat
  keep_running :: bool
  initialized :: bool

text \<open>The static initialisation and \<open>nos_log_init\<close>, which leaves the indices as they are.\<close>

definition g_log_ctx :: nos_log_context where
  "g_log_ctx =
     \<lparr>log_ring = replicate LOG_BUFFER_SIZE \<lparr>log_level = NOS_LOG_LEVEL_DEBUG, log_comp_id = 0, time_str = [], log_message = [], ready = 0\<rparr>,
      write_idx = 0, read_idx = 0, global_filter_level = NOS_LOG_LEVEL_DEBUG,
      comp_info = replicate MAX_COMP_ID \<lparr>info_name = [], filter_level = NOS_LOG_LEVEL_DEBUG, is_registered = False\<rparr>,
      dropped_count = 0, keep_running = True, initialized = False\<rparr>"

definition nos_log_init :: "nos_log_context \<Rightarrow> nos_log_context" where
  "nos_log_init ctx =
     (if initialized ctx then ctx
      else ctx\<lparr>log_ring := map (\<lambda>e. e\<lparr>ready := 0\<rparr>) (log_ring ctx), keep_running := True, initialized := True\<rparr>)"

section \<open>Logging\<close>

definition effective_level :: "nos_log_context \<Rightarrow> u32 \<Rightarrow> nos_log_level" where
  "effective_level ctx comp_id =
     (if 0 < comp_id \<and> unat comp_id < MAX_COMP_ID \<and> is_registered (comp_info ctx ! unat comp_id)
      then filter_level (comp_info ctx ! unat comp_id) else global_filter_level ctx)"

text \<open>What a message carries: level, component, time and text.\<close>

type_synonym log_line = "nos_log_level \<times> u32 \<times> string \<times> string"

fun log_fill :: "log_line \<Rightarrow> nos_log_entry" where
  "log_fill (lv, c, tm, msg) = \<lparr>log_level = lv, log_comp_id = c, time_str = take 15 tm, log_message = take (LOG_MSG_MAX - 1) msg, ready = 2\<rparr>"

definition log_put :: "log_line \<Rightarrow> nos_log_context \<Rightarrow> nos_log_context" where
  "log_put l ctx =
     (let idx = unat (write_idx ctx) mod LOG_BUFFER_SIZE;
          ctx = ctx\<lparr>write_idx := write_idx ctx + 1\<rparr>
      in if ready (log_ring ctx ! idx) \<noteq> 0 then ctx\<lparr>dropped_count := dropped_count ctx + 1\<rparr>
         else ctx\<lparr>log_ring := (log_ring ctx)[idx := log_fill l]\<rparr>)"

definition nos_log_impl :: "nos_log_level \<Rightarrow> u32 \<Rightarrow> string \<Rightarrow> string \<Rightarrow> nos_log_context \<Rightarrow> nos_log_context" where
  "nos_log_impl lv comp_id tm msg ctx =
     (if lv < effective_level ctx comp_id then ctx else log_put (lv, comp_id, tm, msg) ctx)"

text \<open>The level setters log their change; \<open>tm\<close> is the time and \<open>num\<close> the printed component id.\<close>

definition nos_set_level_impl :: "string \<Rightarrow> nos_log_level \<Rightarrow> nos_log_context \<Rightarrow> nos_log_context" where
  "nos_set_level_impl tm lv ctx =
     nos_log_impl NOS_LOG_LEVEL_INFO 0 tm (''Global filter level set to '' @ level_to_str lv) (ctx\<lparr>global_filter_level := lv\<rparr>)"

definition nos_set_comp_level_impl :: "string \<Rightarrow> (u32 \<Rightarrow> string) \<Rightarrow> u32 \<Rightarrow> nos_log_level \<Rightarrow> nos_log_context \<Rightarrow> nos_log_context" where
  "nos_set_comp_level_impl tm num comp_id lv ctx =
     (if comp_id = 0 \<or> unat comp_id \<ge> MAX_COMP_ID then ctx
      else nos_log_impl NOS_LOG_LEVEL_INFO 0 tm
             (''Component ID ['' @ num comp_id @ ''] filter level set to '' @ level_to_str lv)
             (ctx\<lparr>comp_info := (comp_info ctx)[unat comp_id := (comp_info ctx ! unat comp_id)\<lparr>filter_level := lv\<rparr>]\<rparr>))"

definition nos_log_set_comp_info :: "u32 \<Rightarrow> string option \<Rightarrow> nos_log_context \<Rightarrow> nos_log_context" where
  "nos_log_set_comp_info comp_id name ctx =
     (case name of
        None \<Rightarrow> ctx
      | Some name \<Rightarrow>
          if comp_id = 0 \<or> unat comp_id \<ge> MAX_COMP_ID then ctx
          else ctx\<lparr>comp_info := (comp_info ctx)[unat comp_id :=
                 \<lparr>info_name = strncpy_field 32 name, filter_level = global_filter_level ctx, is_registered = True\<rparr>]\<rparr>)"

definition nos_log_get_stats :: "nos_log_context \<Rightarrow> nat" where
  "nos_log_get_stats ctx = dropped_count ctx"

section \<open>The consumer\<close>

definition log_take :: "nos_log_context \<Rightarrow> (log_line \<times> nos_log_context) option" where
  "log_take ctx =
     (let i = unat (read_idx ctx) mod LOG_BUFFER_SIZE; e = log_ring ctx ! i in
      if ready e = 2
      then Some ((log_level e, log_comp_id e, time_str e, log_message e),
                 ctx\<lparr>log_ring := (log_ring ctx)[i := e\<lparr>ready := 0\<rparr>], read_idx := read_idx ctx + 1\<rparr>)
      else None)"

text \<open>A printed line: time, level, component name and text.\<close>

fun log_print :: "nos_log_context \<Rightarrow> log_line \<Rightarrow> string \<times> string \<times> string \<times> string" where
  "log_print ctx (lv, c, tm, msg) =
     (tm, level_to_str lv,
      (if 0 < c \<and> unat c < MAX_COMP_ID \<and> is_registered (comp_info ctx ! unat c) then info_name (comp_info ctx ! unat c)
       else ''System''), msg)"

text \<open>
  The consumer loop up to the point where it finds nothing ready: it prints what is ready, in order.
  While \<open>keep_running\<close> is set it then sleeps and tries again, otherwise it ends.
\<close>

fun nos_log_consumer_thread :: "nat \<Rightarrow> nos_log_context \<Rightarrow> (string \<times> string \<times> string \<times> string) list \<times> nos_log_context" where
  "nos_log_consumer_thread 0 ctx = ([], ctx)"
| "nos_log_consumer_thread (Suc n) ctx =
     (case log_take ctx of
        None \<Rightarrow> ([], ctx)
      | Some (l, ctx') \<Rightarrow> (let (out, ctx'') = nos_log_consumer_thread n ctx' in (log_print ctx l # out, ctx'')))"

text \<open>Shutting down waits for the consumer; 1024 rounds suffice, as each frees a slot.\<close>

definition nos_log_deinit :: "nos_log_context \<Rightarrow> (string \<times> string \<times> string \<times> string) list \<times> nos_log_context" where
  "nos_log_deinit ctx =
     (if \<not> initialized ctx then ([], ctx)
      else let (out, ctx) = nos_log_consumer_thread LOG_BUFFER_SIZE (ctx\<lparr>keep_running := False\<rparr>)
           in (out, ctx\<lparr>initialized := False\<rparr>))"

section \<open>The ring while nothing was dropped\<close>

definition log_fill_count :: "nos_log_context \<Rightarrow> nat" where
  "log_fill_count ctx = unat (write_idx ctx - read_idx ctx)"

definition log_slot :: "nos_log_context \<Rightarrow> nat \<Rightarrow> nat" where
  "log_slot ctx i = (unat (read_idx ctx) + i) mod LOG_BUFFER_SIZE"

definition log_ok :: "nos_log_context \<Rightarrow> bool" where
  "log_ok ctx \<longleftrightarrow> length (log_ring ctx) = LOG_BUFFER_SIZE \<and> log_fill_count ctx \<le> LOG_BUFFER_SIZE \<and>
     (\<forall>i < LOG_BUFFER_SIZE. ready (log_ring ctx ! log_slot ctx i) = (if i < log_fill_count ctx then 2 else 0))"

definition entry_line :: "nos_log_entry \<Rightarrow> log_line" where
  "entry_line e = (log_level e, log_comp_id e, time_str e, log_message e)"

definition log_items :: "nos_log_context \<Rightarrow> log_line list" where
  "log_items ctx = map (\<lambda>i. entry_line (log_ring ctx ! log_slot ctx i)) [0..<log_fill_count ctx]"

text \<open>A line as it comes out: time and text are cut to the size of their fields.\<close>

fun log_cut :: "log_line \<Rightarrow> log_line" where
  "log_cut (lv, c, tm, msg) = (lv, c, take 15 tm, take (LOG_MSG_MAX - 1) msg)"

text \<open>The ring as a queue of cut lines that refuses a line where the code drops it.\<close>

definition log_enq :: "log_line \<Rightarrow> nos_log_context \<Rightarrow> nos_log_context option" where
  "log_enq l ctx =
     (if log_cut l = l \<and> dropped_count (log_put l ctx) = dropped_count ctx then Some (log_put l ctx) else None)"

end
