(* ===== verification/LogClaims.thy ===== *)
theory LogClaims
  imports LogRing
begin

text \<open>
  The properties of the log service: the ring is a FIFO as long as nothing is dropped, shutting
  down prints what is left, the filter levels, and what a dropped message does to the ones after it.
\<close>

section \<open>Slots\<close>

lemma unat_add_mod_1024: "unat (a + b :: u32) mod 1024 = (unat a + unat b) mod 1024"
  by (simp add: unat_word_ariths mod_mod_cancel)

lemma LOG_BUFFER_SIZE_pos [simp]: "0 < LOG_BUFFER_SIZE"
  by (simp add: LOG_BUFFER_SIZE_def)

lemma log_slot_less [simp]: "log_slot ctx i < LOG_BUFFER_SIZE"
  by (simp add: log_slot_def LOG_BUFFER_SIZE_def)

lemma log_slot_inj:
  assumes "i < LOG_BUFFER_SIZE" "j < LOG_BUFFER_SIZE"
  shows "log_slot ctx i = log_slot ctx j \<longleftrightarrow> i = j"
proof -
  have "(unat (read_idx ctx) mod 1024 + i) mod 1024 = (unat (read_idx ctx) mod 1024 + j) mod 1024 \<longleftrightarrow> i = j"
    using assms ring_index[of "unat (read_idx ctx) mod 1024" 1024] by (auto simp: LOG_BUFFER_SIZE_def)
  then show ?thesis by (simp add: log_slot_def LOG_BUFFER_SIZE_def mod_simps)
qed

lemma log_write_slot: "unat (write_idx ctx) mod LOG_BUFFER_SIZE = log_slot ctx (log_fill_count ctx)"
  using unat_add_mod_1024[of "read_idx ctx" "write_idx ctx - read_idx ctx"]
  by (simp add: log_slot_def log_fill_count_def LOG_BUFFER_SIZE_def)

lemma log_slot_Suc: "read_idx ctx' = read_idx ctx + 1 \<Longrightarrow> log_slot ctx' i = log_slot ctx (Suc i)"
proof -
  assume "read_idx ctx' = read_idx ctx + 1"
  then have "unat (read_idx ctx') mod 1024 = (unat (read_idx ctx) + 1) mod 1024"
    using unat_add_mod_1024[of "read_idx ctx" 1] by simp
  then have "(unat (read_idx ctx') mod 1024 + i) mod 1024 = ((unat (read_idx ctx) + 1) mod 1024 + i) mod 1024" by simp
  then show ?thesis by (simp add: log_slot_def LOG_BUFFER_SIZE_def mod_simps)
qed

lemma log_slot_cong: "read_idx ctx' = read_idx ctx \<Longrightarrow> log_slot ctx' = log_slot ctx"
  by (simp add: log_slot_def fun_eq_iff)

lemma log_ok_ready:
  assumes "log_ok ctx"
  shows "ready (log_ring ctx ! (unat (write_idx ctx) mod LOG_BUFFER_SIZE)) = 0 \<longleftrightarrow> log_fill_count ctx < LOG_BUFFER_SIZE"
    and "ready (log_ring ctx ! (unat (read_idx ctx) mod LOG_BUFFER_SIZE)) = 2 \<longleftrightarrow> 0 < log_fill_count ctx"
proof -
  have r: "ready (log_ring ctx ! log_slot ctx i) = (if i < log_fill_count ctx then 2 else 0)" if "i < LOG_BUFFER_SIZE" for i
    using assms that by (simp add: log_ok_def)
  have full: "log_slot ctx LOG_BUFFER_SIZE = log_slot ctx 0" by (simp add: log_slot_def LOG_BUFFER_SIZE_def)
  have k: "log_fill_count ctx \<le> LOG_BUFFER_SIZE" using assms by (simp add: log_ok_def)
  show "ready (log_ring ctx ! (unat (write_idx ctx) mod LOG_BUFFER_SIZE)) = 0 \<longleftrightarrow> log_fill_count ctx < LOG_BUFFER_SIZE"
  proof (cases "log_fill_count ctx < LOG_BUFFER_SIZE")
    case True
    then show ?thesis using r[OF True] by (simp add: log_write_slot)
  next
    case False
    then have "log_fill_count ctx = LOG_BUFFER_SIZE" using k by simp
    then show ?thesis using r[of 0] full by (simp add: log_write_slot)
  qed
  have "unat (read_idx ctx) mod LOG_BUFFER_SIZE = log_slot ctx 0" by (simp add: log_slot_def)
  then show "ready (log_ring ctx ! (unat (read_idx ctx) mod LOG_BUFFER_SIZE)) = 2 \<longleftrightarrow> 0 < log_fill_count ctx"
    using r[of 0] by (simp add: LOG_BUFFER_SIZE_def)
qed

lemma log_put_room:
  assumes ok: "log_ok ctx" and room: "log_fill_count ctx < LOG_BUFFER_SIZE"
  shows "log_ok (log_put l ctx)" "log_items (log_put l ctx) = log_items ctx @ [log_cut l]"
    "dropped_count (log_put l ctx) = dropped_count ctx"
proof -
  let ?k = "log_fill_count ctx" and ?s = "log_slot ctx (log_fill_count ctx)"
  let ?c = "log_put l ctx"
  have put: "?c = ctx\<lparr>write_idx := write_idx ctx + 1, log_ring := (log_ring ctx)[?s := log_fill l]\<rparr>"
    using log_ok_ready(1)[OF ok] room by (simp add: log_put_def Let_def log_write_slot)
  have len: "length (log_ring ctx) = LOG_BUFFER_SIZE" using ok by (simp add: log_ok_def)
  have "write_idx ?c - read_idx ?c = (write_idx ctx - read_idx ctx) + 1" by (simp add: put)
  moreover have "unat ((write_idx ctx - read_idx ctx) + 1) = unat (write_idx ctx - read_idx ctx) + 1"
    using room by (simp add: log_fill_count_def LOG_BUFFER_SIZE_def unat_word_ariths)
  ultimately have k: "log_fill_count ?c = Suc ?k" by (simp add: log_fill_count_def)
  have sl: "log_slot ?c = log_slot ctx" by (rule log_slot_cong) (simp add: put)
  have ring: "log_ring ?c ! log_slot ctx i = (if i = ?k then log_fill l else log_ring ctx ! log_slot ctx i)"
    if "i < LOG_BUFFER_SIZE" for i
    using len log_slot_inj[OF that room, of ctx] by (auto simp: put nth_list_update)
  have fill: "ready (log_fill l) = 2" "entry_line (log_fill l) = log_cut l" by (cases l; simp add: entry_line_def)+
  have "length (log_ring ?c) = LOG_BUFFER_SIZE" using len by (simp add: put)
  then show "log_ok ?c" using ok room ring fill(1) by (auto simp: log_ok_def k sl less_Suc_eq)
  show "log_items ?c = log_items ctx @ [log_cut l]" using ring room fill(2) by (simp add: log_items_def k sl)
  show "dropped_count ?c = dropped_count ctx" by (simp add: put)
qed

lemma log_put_full:
  "log_ok ctx \<Longrightarrow> log_fill_count ctx = LOG_BUFFER_SIZE \<Longrightarrow>
     log_put l ctx = ctx\<lparr>write_idx := write_idx ctx + 1, dropped_count := dropped_count ctx + 1\<rparr>"
  using log_ok_ready(1)[of ctx] by (simp add: log_put_def Let_def)

lemma log_take_ok:
  assumes ok: "log_ok ctx" and ne: "0 < log_fill_count ctx"
  shows "\<exists>c. log_take ctx = Some (hd (log_items ctx), c) \<and> log_ok c \<and> log_items ctx = hd (log_items ctx) # log_items c"
proof -
  let ?k = "log_fill_count ctx" and ?s = "log_slot ctx 0"
  have s: "unat (read_idx ctx) mod LOG_BUFFER_SIZE = ?s" by (simp add: log_slot_def)
  let ?e = "log_ring ctx ! ?s"
  define c where "c = ctx\<lparr>log_ring := (log_ring ctx)[?s := ?e\<lparr>ready := 0\<rparr>], read_idx := read_idx ctx + 1\<rparr>"
  have t: "log_take ctx = Some (entry_line ?e, c)"
    using log_ok_ready(2)[OF ok] ne by (simp add: log_take_def Let_def s entry_line_def c_def)
  have len: "length (log_ring ctx) = LOG_BUFFER_SIZE" and kb: "?k \<le> LOG_BUFFER_SIZE" using ok by (auto simp: log_ok_def)
  have "write_idx c - read_idx c = (write_idx ctx - read_idx ctx) - 1" by (simp add: c_def)
  moreover have "1 \<le> write_idx ctx - read_idx ctx" using ne by (simp add: log_fill_count_def word_le_nat_alt)
  ultimately have k: "?k = Suc (log_fill_count c)" using ne by (simp add: log_fill_count_def unat_sub)
  have sl: "log_slot c i = log_slot ctx (Suc i)" for i by (rule log_slot_Suc) (simp add: c_def)
  have ring: "log_ring c ! log_slot ctx i = (if i = 0 then ?e\<lparr>ready := 0\<rparr> else log_ring ctx ! log_slot ctx i)"
    if "i < LOG_BUFFER_SIZE" for i
    using len log_slot_inj[OF that, of 0 ctx] by (auto simp: c_def nth_list_update)
  have wrap: "log_slot ctx LOG_BUFFER_SIZE = ?s" by (simp add: log_slot_def LOG_BUFFER_SIZE_def)
  have "ready (log_ring c ! log_slot c i) = (if i < log_fill_count c then 2 else 0)" if "i < LOG_BUFFER_SIZE" for i
  proof (cases "Suc i = LOG_BUFFER_SIZE")
    case True
    then show ?thesis using ring[of 0] wrap kb k by (simp add: sl LOG_BUFFER_SIZE_def)
  next
    case False
    then have "Suc i < LOG_BUFFER_SIZE" using that by simp
    then show ?thesis using ok ring k by (simp add: sl log_ok_def)
  qed
  then have ok': "log_ok c" using len kb k by (simp add: log_ok_def) (simp add: c_def)
  have "log_items c = map (\<lambda>i. entry_line (log_ring ctx ! log_slot ctx (Suc i))) [0..<log_fill_count c]"
    unfolding log_items_def using kb k ring by (intro map_cong) (auto simp: sl)
  then have "log_items ctx = entry_line ?e # log_items c"
    unfolding log_items_def k by (simp add: upt_conv_Cons map_Suc_upt[symmetric] comp_def del: upt_Suc)
  then show ?thesis using t ok' by simp
qed

interpretation log_fifo: bounded_fifo log_items log_ok LOG_BUFFER_SIZE "\<lambda>l. log_cut l = l" log_enq log_take
proof (unfold_locales, goal_cases)
  case (1 ctx)
  then show ?case by (simp add: log_items_def log_ok_def)
next
  case (2 ctx l)
  then have "log_fill_count ctx \<le> LOG_BUFFER_SIZE" by (simp add: log_ok_def)
  then show ?case
    using log_put_room(3)[OF 2(1), of l] log_put_full[OF 2(1), of l] 2(2)
    by (cases "log_fill_count ctx = LOG_BUFFER_SIZE") (auto simp: log_enq_def log_items_def)
next
  case (3 ctx l ctx')
  then have "log_fill_count ctx \<noteq> LOG_BUFFER_SIZE" "log_fill_count ctx \<le> LOG_BUFFER_SIZE"
    using log_put_full[OF 3(1), of l] by (auto simp: log_enq_def log_ok_def split: if_splits)
  then show ?case using log_put_room[OF 3(1), of l] 3(2) by (auto simp: log_enq_def split: if_splits)
next
  case (4 ctx)
  then show ?case
    using log_take_ok[OF 4] log_ok_ready(2)[OF 4]
    by (cases "log_fill_count ctx") (auto simp: log_items_def log_take_def Let_def)
next
  case (5 ctx l ctx')
  then have "0 < log_fill_count ctx" using log_ok_ready(2)[OF 5(1)] by (auto simp: log_take_def Let_def split: if_splits)
  then show ?case using log_take_ok[OF 5(1)] 5(2) by auto
qed

lemma log_put_cut: "log_put (log_cut l) ctx = log_put l ctx"
proof -
  have "log_fill (log_cut l) = log_fill l" by (cases l) simp
  then show ?thesis by (simp add: log_put_def Let_def)
qed

lemma log_cut_idem [simp]: "log_cut (log_cut l) = log_cut l"
  by (cases l) simp

text \<open>The consumer prints what the queue holds.\<close>

lemma log_take_info: "log_take ctx = Some (l, ctx') \<Longrightarrow> comp_info ctx' = comp_info ctx \<and> dropped_count ctx' = dropped_count ctx"
  by (auto simp: log_take_def Let_def split: if_splits)

lemma log_print_cong: "comp_info ctx' = comp_info ctx \<Longrightarrow> log_print ctx' l = log_print ctx l"
  by (cases l) simp

lemma consumer_drain:
  "fifo_drain n log_take ctx = (ls, ctx') \<Longrightarrow> nos_log_consumer_thread n ctx = (map (log_print ctx) ls, ctx')"
proof (induction n arbitrary: ctx ls)
  case (Suc n)
  show ?case
  proof (cases "log_take ctx")
    case None
    then show ?thesis using Suc.prems by simp
  next
    case (Some r)
    then obtain l c where t: "log_take ctx = Some (l, c)" by (cases r) auto
    then obtain xs where xs: "fifo_drain n log_take c = (xs, ctx')" "ls = l # xs"
      using Suc.prems by (auto split: prod.splits)
    have "log_print c = log_print ctx" by (intro ext log_print_cong) (use log_take_info[OF t] in simp)
    then show ?thesis using Suc.IH[OF xs(1)] t xs(2) by simp
  qed
qed simp

lemma log_puts:
  "log_ok ctx \<Longrightarrow> length (log_items ctx) + length ls \<le> LOG_BUFFER_SIZE \<Longrightarrow>
     log_ok (foldl (\<lambda>c l. log_put l c) ctx ls) \<and>
     log_items (foldl (\<lambda>c l. log_put l c) ctx ls) = log_items ctx @ map log_cut ls \<and>
     comp_info (foldl (\<lambda>c l. log_put l c) ctx ls) = comp_info ctx \<and>
     initialized (foldl (\<lambda>c l. log_put l c) ctx ls) = initialized ctx \<and>
     dropped_count (foldl (\<lambda>c l. log_put l c) ctx ls) = dropped_count ctx"
proof (induction ls arbitrary: ctx)
  case (Cons l ls)
  then have "log_fill_count ctx < LOG_BUFFER_SIZE" by (simp add: log_items_def)
  note put = log_put_room[OF Cons.prems(1) this, of l]
  have "comp_info (log_put l ctx) = comp_info ctx" "initialized (log_put l ctx) = initialized ctx"
    by (simp_all add: log_put_def Let_def)
  then show ?case using Cons.IH[OF put(1)] Cons.prems(2) put(2,3) by simp
qed simp

lemma log_ok_running:
  "log_ok (ctx\<lparr>keep_running := b\<rparr>) = log_ok ctx" "log_items (ctx\<lparr>keep_running := b\<rparr>) = log_items ctx"
  by (simp_all add: log_ok_def log_items_def log_fill_count_def log_slot_def)

lemma log_drains:
  assumes "log_ok ctx" "initialized ctx" "length (log_items ctx) + length ls \<le> 1024"
  shows "\<exists>ctx'. nos_log_deinit (foldl (\<lambda>c l. log_put l c) ctx ls) = (map (log_print ctx) (log_items ctx @ map log_cut ls), ctx') \<and>
     log_ok ctx' \<and> log_items ctx' = [] \<and> \<not> initialized ctx' \<and>
     nos_log_get_stats (foldl (\<lambda>c l. log_put l c) ctx ls) = nos_log_get_stats ctx"
proof -
  define c where "c = foldl (\<lambda>c l. log_put l c) ctx ls"
  have c: "log_ok c" "log_items c = log_items ctx @ map log_cut ls" "comp_info c = comp_info ctx" "initialized c"
      "dropped_count c = dropped_count ctx"
    using log_puts[OF assms(1), of ls] assms(2,3) by (simp_all add: c_def LOG_BUFFER_SIZE_def)
  let ?c = "c\<lparr>keep_running := False\<rparr>"
  have ok: "log_ok ?c" "length (log_items ?c) \<le> LOG_BUFFER_SIZE"
    using c log_fifo.bounded[OF c(1)] by (simp_all only: log_ok_running)
  obtain q where q: "fifo_drain LOG_BUFFER_SIZE log_take ?c = (log_items c, q)" "log_ok q" "log_items q = []"
    using log_fifo.drain_all[OF ok] unfolding log_ok_running by blast
  have "log_print ?c = log_print ctx" by (intro ext log_print_cong) (use c(3) in simp)
  then have "nos_log_consumer_thread LOG_BUFFER_SIZE ?c = (map (log_print ctx) (log_items c), q)"
    using consumer_drain[OF q(1)] by simp
  moreover have "log_ok (q\<lparr>initialized := False\<rparr>)" "log_items (q\<lparr>initialized := False\<rparr>) = []"
    using q(2,3) by (simp_all add: log_ok_def log_items_def log_fill_count_def log_slot_def)
  ultimately show ?thesis
    using c unfolding c_def[symmetric] by (simp add: nos_log_deinit_def nos_log_get_stats_def)
qed

section \<open>Properties\<close>

text \<open>
  C10 Log delivery: as long as at most 1024 messages are waiting, no message is dropped, and shutting the
  service down prints exactly those waiting and those logged since, once each, in the order in which
  they were logged, with their texts cut to 255 characters.
\<close>

theorem nos_log_delivers:
  assumes "log_ok ctx" "initialized ctx" "length (log_items ctx) + length ls \<le> 1024"
  shows "\<exists>ctx'. nos_log_deinit (foldl (\<lambda>c l. log_put l c) ctx ls) = (map (log_print ctx) (log_items ctx @ map log_cut ls), ctx') \<and>
     log_ok ctx' \<and> log_items ctx' = [] \<and> \<not> initialized ctx' \<and>
     nos_log_get_stats (foldl (\<lambda>c l. log_put l c) ctx ls) = nos_log_get_stats ctx"
  by (rule log_drains[OF assms])

lemma log_init_ok: "log_ok (nos_log_init g_log_ctx)" "log_items (nos_log_init g_log_ctx) = []" "initialized (nos_log_init g_log_ctx)"
    "dropped_count (nos_log_init g_log_ctx) = 0"
proof -
  have "log_slot c i < LOG_BUFFER_SIZE" for c i by simp
  then show "log_ok (nos_log_init g_log_ctx)"
    by (simp add: log_ok_def log_fill_count_def nos_log_init_def g_log_ctx_def)
qed (simp_all add: log_items_def log_fill_count_def nos_log_init_def g_log_ctx_def)

theorem nos_log_delivers_witness:
  "\<exists>ctx'. nos_log_deinit (log_put (NOS_LOG_LEVEL_INFO, 0, ''12:00:00'', ''up'') (nos_log_init g_log_ctx)) =
     ([(''12:00:00'', ''INFO '', ''System'', ''up'')], ctx')"
  using nos_log_delivers[OF log_init_ok(1,3), of "[(NOS_LOG_LEVEL_INFO, 0, ''12:00:00'', ''up'')]"] log_init_ok(2)
  by (auto simp: LOG_MSG_MAX_def)

lemma effective_level_upd:
  assumes "length (comp_info ctx) = MAX_COMP_ID" "0 < d" "unat d < MAX_COMP_ID"
  shows "effective_level (ctx\<lparr>comp_info := (comp_info ctx)[unat d := i]\<rparr>) c =
    (if c = d then (if is_registered i then filter_level i else global_filter_level ctx) else effective_level ctx c)"
proof (cases "c = d")
  case False
  then have "unat c \<noteq> unat d" by (simp add: word_unat_eq_iff)
  then show ?thesis using False by (simp add: effective_level_def)
qed (use assms in \<open>simp add: effective_level_def\<close>)

text \<open>
  Filter levels: setting the global level governs exactly the components that are not registered; setting
  the level of a component governs it alone, and only once it is registered; and registering a
  component, which every load and reload does, puts it back to the global level.
\<close>

theorem nos_log_levels_correct:
  assumes "length (comp_info ctx) = MAX_COMP_ID"
  defines "known c \<equiv> 0 < c \<and> unat c < MAX_COMP_ID \<and> is_registered (comp_info ctx ! unat c)"
  shows "effective_level (nos_set_level_impl tm lv ctx) c = (if known c then effective_level ctx c else lv) \<and>
    effective_level (nos_set_comp_level_impl tm num d lv ctx) c = (if c = d \<and> known d then lv else effective_level ctx c) \<and>
    (0 < d \<and> unat d < MAX_COMP_ID \<longrightarrow>
      effective_level (nos_log_set_comp_info d (Some name) ctx) c = (if c = d then global_filter_level ctx else effective_level ctx c))"
proof -
  have eff: "effective_level (nos_log_impl l x tm m k) c = effective_level k c" for l x m and k :: nos_log_context
  proof -
    have "comp_info (nos_log_impl l x tm m k) = comp_info k" "global_filter_level (nos_log_impl l x tm m k) = global_filter_level k"
      by (simp_all add: nos_log_impl_def log_put_def Let_def)
    then show ?thesis by (simp add: effective_level_def)
  qed
  have 1: "effective_level (nos_set_level_impl tm lv ctx) c = (if known c then effective_level ctx c else lv)"
    by (simp add: nos_set_level_impl_def eff) (simp add: effective_level_def known_def)
  have 2: "effective_level (nos_set_comp_level_impl tm num d lv ctx) c = (if c = d \<and> known d then lv else effective_level ctx c)"
  proof (cases "0 < d \<and> unat d < MAX_COMP_ID")
    case True
    then have "\<not> (d = 0 \<or> unat d \<ge> MAX_COMP_ID)" by auto
    then have "effective_level (nos_set_comp_level_impl tm num d lv ctx) c =
        effective_level (ctx\<lparr>comp_info := (comp_info ctx)[unat d := (comp_info ctx ! unat d)\<lparr>filter_level := lv\<rparr>]\<rparr>) c"
      unfolding nos_set_comp_level_impl_def by (simp only: if_False eff)
    also have "\<dots> = (if c = d \<and> known d then lv else effective_level ctx c)"
      using True by (subst effective_level_upd[OF assms(1)]) (auto simp: known_def effective_level_def)
    finally show ?thesis .
  next
    case False
    then have "d = 0 \<or> unat d \<ge> MAX_COMP_ID" using word_gt_0[of d] by auto
    then show ?thesis using False by (simp only: nos_set_comp_level_impl_def known_def if_True) auto
  qed
  have 3: "effective_level (nos_log_set_comp_info d (Some name) ctx) c = (if c = d then global_filter_level ctx else effective_level ctx c)"
    if "0 < d" "unat d < MAX_COMP_ID"
    using that effective_level_upd[OF assms(1) that, where c = c] by (auto simp: nos_log_set_comp_info_def)
  show ?thesis using 1 2 3 by blast
qed

theorem nos_log_levels_correct_witness:
  "effective_level (nos_log_set_comp_info 5 (Some ''hb'')
      (nos_set_comp_level_impl ''t'' (\<lambda>_. ''5'') 5 NOS_LOG_LEVEL_ERROR (nos_log_set_comp_info 5 (Some ''hb'') g_log_ctx))) 5 = NOS_LOG_LEVEL_DEBUG"
proof -
  let ?c = "nos_set_comp_level_impl ''t'' (\<lambda>_. ''5'') 5 NOS_LOG_LEVEL_ERROR (nos_log_set_comp_info 5 (Some ''hb'') g_log_ctx)"
  have c: "length (comp_info ?c) = MAX_COMP_ID" "global_filter_level ?c = NOS_LOG_LEVEL_DEBUG"
    by (simp_all add: nos_set_comp_level_impl_def nos_log_set_comp_info_def nos_log_impl_def log_put_def Let_def g_log_ctx_def MAX_COMP_ID_def)
  show ?thesis
    using nos_log_levels_correct[OF c(1), of "[]" NOS_LOG_LEVEL_INFO 5 "\<lambda>_. []" 5 "''hb''"] c(2) by (simp add: MAX_COMP_ID_def)
qed

text \<open>The consumer does not look at the producers' index.\<close>

lemma log_take_other:
  "log_take (ctx\<lparr>write_idx := w, dropped_count := d\<rparr>) =
     map_option (\<lambda>(l, c). (l, c\<lparr>write_idx := w, dropped_count := d\<rparr>)) (log_take ctx)"
  by (simp add: log_take_def Let_def)

lemma consumer_other:
  "nos_log_consumer_thread n (ctx\<lparr>write_idx := w, dropped_count := d\<rparr>) =
     (let (out, c) = nos_log_consumer_thread n ctx in (out, c\<lparr>write_idx := w, dropped_count := d\<rparr>))"
proof (induction n arbitrary: ctx)
  case (Suc n)
  have p: "log_print (ctx\<lparr>write_idx := w, dropped_count := d\<rparr>) = log_print ctx" by (intro ext log_print_cong) simp
  show ?case
    using Suc by (cases "log_take ctx") (auto simp: log_take_other p Let_def split: prod.splits)
qed simp

lemma consumer_write: "nos_log_consumer_thread n ctx = (out, c) \<Longrightarrow> write_idx c = write_idx ctx"
proof (induction n arbitrary: ctx out)
  case (Suc n)
  then show ?case
    by (cases "log_take ctx") (auto simp: log_take_def Let_def split: prod.splits if_splits)
qed simp

text \<open>
  C38 One dropped message stalls the log: a message that finds the ring full is dropped but still advances
  the producers' index, so after the consumer has printed the 1024 waiting messages it waits for
  a slot that the next message does not go to. That message is accepted and not counted as dropped, but the
  consumer does not print it, however long it runs, and a shutdown discards it.
\<close>

theorem log_stalls_after_drop:
  assumes "log_ok ctx" "length (log_items ctx) = 1024"
    and "nos_log_consumer_thread 1024 (log_put l1 ctx) = (out, c2)"
  shows "out = map (log_print ctx) (log_items ctx) \<and>
    nos_log_get_stats (log_put l2 c2) = nos_log_get_stats ctx + 1 \<and>
    nos_log_consumer_thread n (log_put l2 c2) = ([], log_put l2 c2)"
proof -
  have full: "log_fill_count ctx = LOG_BUFFER_SIZE" using assms(2) by (simp add: log_items_def LOG_BUFFER_SIZE_def)
  have p1: "log_put l1 ctx = ctx\<lparr>write_idx := write_idx ctx + 1, dropped_count := dropped_count ctx + 1\<rparr>"
    by (rule log_put_full[OF assms(1) full])
  obtain q where q: "fifo_drain 1024 log_take ctx = (log_items ctx, q)" "log_ok q" "log_items q = []"
    using log_fifo.drain_all[OF assms(1), of 1024] assms(2) by auto
  note d = consumer_drain[OF q(1)]
  have c2: "c2 = q\<lparr>write_idx := write_idx ctx + 1, dropped_count := dropped_count ctx + 1\<rparr>" and out: "out = map (log_print ctx) (log_items ctx)"
    using assms(3) unfolding p1 consumer_other d by auto
  have empty: "log_fill_count q = 0" using q(3) by (simp add: log_items_def)
  then have wr: "write_idx q = read_idx q" by (simp add: log_fill_count_def unat_eq_0)
  have w: "write_idx ctx = read_idx q" using consumer_write[OF d] wr by simp
  let ?r = "unat (read_idx q) mod LOG_BUFFER_SIZE" and ?w = "unat (read_idx q + 1) mod LOG_BUFFER_SIZE"
  have s: "?r = log_slot q 0" "?w = log_slot q 1"
    using unat_add_mod_1024[of "read_idx q" 1] by (simp_all add: log_slot_def LOG_BUFFER_SIZE_def)
  have z: "ready (log_ring q ! log_slot q i) = 0" if "i < LOG_BUFFER_SIZE" for i
    using q(2) that empty by (simp add: log_ok_def)
  have two: "(0 :: nat) < LOG_BUFFER_SIZE" "1 < LOG_BUFFER_SIZE" by (simp_all add: LOG_BUFFER_SIZE_def)
  have ne: "?w \<noteq> ?r" unfolding s using log_slot_inj[OF two, of q] by simp
  have put: "log_put l2 c2 = c2\<lparr>write_idx := write_idx c2 + 1, log_ring := (log_ring q)[?w := log_fill l2]\<rparr>"
    using z[OF two(2)] by (simp add: log_put_def Let_def c2 w s(2))
  have "log_take (log_put l2 c2) = None"
    unfolding put using z[OF two(1)] ne by (simp add: log_take_def Let_def c2 s(1)[symmetric])
  then have "nos_log_consumer_thread n (log_put l2 c2) = ([], log_put l2 c2)" by (cases n) simp_all
  moreover have "dropped_count (log_put l2 c2) = dropped_count ctx + 1"
    unfolding put by (simp add: c2)
  ultimately show ?thesis using out by (simp add: nos_log_get_stats_def)
qed

theorem log_stalls_after_drop_witness:
  "\<exists>ctx out c2. nos_log_consumer_thread 1024 (log_put (NOS_LOG_LEVEL_INFO, 0, [], ''lost'') ctx) = (out, c2) \<and> length out = 1024 \<and>
     nos_log_consumer_thread 5 (log_put (NOS_LOG_LEVEL_ERROR, 0, [], ''late'') c2) = ([], log_put (NOS_LOG_LEVEL_ERROR, 0, [], ''late'') c2)"
proof -
  define ctx where "ctx = foldl (\<lambda>c l. log_put l c) (nos_log_init g_log_ctx) (replicate 1024 (NOS_LOG_LEVEL_INFO, 0, [], ''x''))"
  have ok: "log_ok ctx" "length (log_items ctx) = 1024"
    using log_puts[OF log_init_ok(1), of "replicate 1024 (NOS_LOG_LEVEL_INFO, 0, [], ''x'')"] log_init_ok(2)
    by (simp_all add: ctx_def LOG_BUFFER_SIZE_def)
  obtain out c2 where r: "nos_log_consumer_thread 1024 (log_put (NOS_LOG_LEVEL_INFO, 0, [], ''lost'') ctx) = (out, c2)"
    by (metis prod.exhaust)
  show ?thesis
    using log_stalls_after_drop[OF ok r, of "(NOS_LOG_LEVEL_ERROR, 0, [], ''late'')" 5] ok(2) r
    by (intro exI[of _ ctx] exI[of _ out] exI[of _ c2]) simp
qed

end
