(* ===== verification/IpcConn.thy ===== *)
theory IpcConn
  imports MsgClaims FdTable
begin

text \<open>
  The transport between nodes (\<open>src/infra/nos_ipc_p2p.c\<close>): connections with a transmit
  queue each, connected on demand and found by node name or path, the handlers of the listening
  socket, of incoming data and of writability, and the path through shared memory.

  The operating system is a stream of results: the \<open>n\<close>-th \<open>send\<close> has the result
  \<open>os_sends n\<close>, the \<open>n\<close>-th attempt to connect gives the descriptor \<open>os_connects n\<close> (\<open>None\<close> when
  \<open>socket\<close> or \<open>connect\<close> fails). \<open>wire\<close> records what was sent. The sockets are \<open>SOCK_SEQPACKET\<close>, so a
  message is sent as a whole or not at all.
\<close>

section \<open>State\<close>

definition TX_QUEUE_SIZE :: nat where "TX_QUEUE_SIZE = 1024"

definition MAX_REMOTE_CONNS :: nat where "MAX_REMOTE_CONNS = 16"

definition TX_HIGH_WATERMARK :: nat where "TX_HIGH_WATERMARK = 900"

definition TX_LOW_WATERMARK :: nat where "TX_LOW_WATERMARK = 200"

definition NOS_IPC_MAGIC :: u16 where "NOS_IPC_MAGIC = 0x4E4F"

definition NOS_IPC_VERSION :: u16 where "NOS_IPC_VERSION = 1"

definition NOS_IPC_MSG_HELLO :: u32 where "NOS_IPC_MSG_HELLO = 0xFFFF0001"

definition NOS_IPC_MSG_SHM_EVENT :: u32 where "NOS_IPC_MSG_SHM_EVENT = 0xFFFF0003"

text \<open>\<open>sizeof(nos_service_msg_t)\<close>\<close>

definition MSG_HEADER_SIZE :: nat where "MSG_HEADER_SIZE = 28"

text \<open>The owner of every connection is the management thread.\<close>

record nos_ipc_conn =
  conn_node_name :: string
  conn_uds_path :: string
  conn_fd :: int
  tx_queue :: "buf_ref option list"
  conn_head :: nat
  conn_tail :: nat
  is_connected :: bool
  is_congested :: bool

record nos_ipc_stats =
  tx_packets :: u64
  rx_packets :: u64
  tx_bytes :: u64
  rx_bytes :: u64
  tx_errors :: u64
  rx_errors :: u64
  dropped_full :: u64
  buffer_alloc_fails :: u64

datatype send_result = Sent | Send_again | Send_failed

record ipc_node = node +
  conns :: "nos_ipc_conn list"
  stats :: nos_ipc_stats
  local_name :: string
  local_queue :: "nat option"
  os_sends :: "nat \<Rightarrow> send_result"
  send_no :: nat
  os_connects :: "nat \<Rightarrow> int option"
  connect_no :: nat
  wire :: "(int \<times> nos_service_msg) list"

definition zero_stats :: nos_ipc_stats where
  "zero_stats = \<lparr>tx_packets = 0, rx_packets = 0, tx_bytes = 0, rx_bytes = 0, tx_errors = 0, rx_errors = 0, dropped_full = 0,
     buffer_alloc_fails = 0\<rparr>"

definition upd_conn :: "nat \<Rightarrow> (nos_ipc_conn \<Rightarrow> nos_ipc_conn) \<Rightarrow> 'z ipc_node_scheme \<Rightarrow> 'z ipc_node_scheme" where
  "upd_conn i f s = s\<lparr>conns := (conns s)[i := f (conns s ! i)]\<rparr>"

definition count_stat :: "(nos_ipc_stats \<Rightarrow> nos_ipc_stats) \<Rightarrow> 'z ipc_node_scheme \<Rightarrow> 'z ipc_node_scheme" where
  "count_stat f s = s\<lparr>stats := f (stats s)\<rparr>"

text \<open>The callbacks and their arguments as the descriptor table keeps them.\<close>

definition nos_ipc_event_handler_ptr :: ptr where "nos_ipc_event_handler_ptr = 1"

definition nos_ipc_passive_handler_ptr :: ptr where "nos_ipc_passive_handler_ptr = 2"

definition nos_ipc_accept_handler_ptr :: ptr where "nos_ipc_accept_handler_ptr = 3"

definition conn_ptr :: "nat \<Rightarrow> ptr" where "conn_ptr i = i + 1"

definition thread_ptr :: "thread_ref \<Rightarrow> ptr" where
  "thread_ptr r = (case r of Mgmt \<Rightarrow> 100 | Worker i \<Rightarrow> 101 + i)"

definition EPOLL_INOUT_ET :: u32 where "EPOLL_INOUT_ET = 0x80000005"

definition add_fd :: "thread_ref \<Rightarrow> int \<Rightarrow> u32 \<Rightarrow> ptr \<Rightarrow> ptr \<Rightarrow> 'z ipc_node_scheme \<Rightarrow> 'z ipc_node_scheme" where
  "add_fd r fd events cb a s = upd_thread r (\<lambda>th. snd (nos_scheduler_add_fd_ex True th fd events cb a)) s"

definition remove_fd :: "thread_ref \<Rightarrow> int \<Rightarrow> 'z ipc_node_scheme \<Rightarrow> 'z ipc_node_scheme" where
  "remove_fd r fd s = upd_thread r (\<lambda>th. snd (nos_scheduler_remove_fd th fd)) s"

text \<open>\<open>close\<close> takes a descriptor off the kernel's interest list, but not out of the table.\<close>

definition close_fd :: "thread_ref \<Rightarrow> int \<Rightarrow> 'z ipc_node_scheme \<Rightarrow> 'z ipc_node_scheme" where
  "close_fd r fd s = upd_thread r (\<lambda>th. th\<lparr>epoll_set := (epoll_set th)(fd := None)\<rparr>) s"

section \<open>Sending\<close>

definition conn_used :: "nos_ipc_conn \<Rightarrow> nat" where
  "conn_used c = (if conn_tail c \<ge> conn_head c then conn_tail c - conn_head c else TX_QUEUE_SIZE - (conn_head c - conn_tail c))"

definition full_len :: "nos_service_msg \<Rightarrow> u64" where
  "full_len m = of_nat MSG_HEADER_SIZE + ucast (payload_len m)"

definition link_failed :: "nat \<Rightarrow> 'z ipc_node_scheme \<Rightarrow> 'z ipc_node_scheme" where
  "link_failed i s =
     (let s = count_stat (\<lambda>st. st\<lparr>tx_errors := tx_errors st + 1\<rparr>) s;
          s = close_fd Mgmt (conn_fd (conns s ! i)) s
      in upd_conn i (\<lambda>c. c\<lparr>conn_fd := - 1, is_connected := False, is_congested := False\<rparr>) s)"

definition msg_sent :: "nat \<Rightarrow> buf_ref \<Rightarrow> 'z ipc_node_scheme \<Rightarrow> 'z ipc_node_scheme" where
  "msg_sent i b s =
     (let s = count_stat (\<lambda>st. st\<lparr>tx_packets := tx_packets st + 1, tx_bytes := tx_bytes st + full_len (msgs s b)\<rparr>) s;
          s = s\<lparr>wire := wire s @ [(conn_fd (conns s ! i), msgs s b)]\<rparr>;
          s = nos_buffer_release b s
      in upd_conn i (\<lambda>c. c\<lparr>conn_head := (conn_head c + 1) mod TX_QUEUE_SIZE\<rparr>) s)"

text \<open>
  The loop of \<open>nos_ipc_process_tx\<close>. Each round that goes on takes a message off the queue, so
  \<open>TX_QUEUE_SIZE\<close> rounds are enough. (A queued entry is never \<open>NULL\<close>.)
\<close>

fun process_tx_loop :: "nat \<Rightarrow> nat \<Rightarrow> 'z ipc_node_scheme \<Rightarrow> 'z ipc_node_scheme" where
  "process_tx_loop 0 i s = s"
| "process_tx_loop (Suc n) i s =
     (let c = conns s ! i in
      if conn_head c = conn_tail c then
        (if is_congested c \<and> conn_used c < TX_LOW_WATERMARK then upd_conn i (\<lambda>c. c\<lparr>is_congested := False\<rparr>) s else s)
      else case tx_queue c ! conn_head c of
             None \<Rightarrow> s
           | Some b \<Rightarrow>
               (let r = os_sends s (send_no s); s = s\<lparr>send_no := send_no s + 1\<rparr> in
                case r of
                  Sent \<Rightarrow> process_tx_loop n i (msg_sent i b s)
                | Send_again \<Rightarrow> s
                | Send_failed \<Rightarrow> link_failed i s))"

definition nos_ipc_process_tx :: "nat \<Rightarrow> 'z ipc_node_scheme \<Rightarrow> 'z ipc_node_scheme" where
  "nos_ipc_process_tx i s = process_tx_loop TX_QUEUE_SIZE i s"

text \<open>A \<open>NULL\<close> name or path is \<open>None\<close>. The array is zeroed and its entries are never reused.\<close>

definition get_or_create_conn :: "string option \<Rightarrow> string option \<Rightarrow> 'z ipc_node_scheme \<Rightarrow> nat option \<times> 'z ipc_node_scheme" where
  "get_or_create_conn nname uds_path s =
     (case find_slot (\<lambda>c. nname = Some (conn_node_name c) \<or> uds_path = Some (conn_uds_path c)) (length (conns s)) (conns s) of
        Some i \<Rightarrow> (Some i, s)
      | None \<Rightarrow>
          if length (conns s) \<ge> MAX_REMOTE_CONNS then (None, s)
          else (Some (length (conns s)),
                s\<lparr>conns := conns s @
                  [\<lparr>conn_node_name = (case nname of Some n \<Rightarrow> strncpy_field 32 n | None \<Rightarrow> ''Unknown''),
                    conn_uds_path = (case uds_path of Some p \<Rightarrow> strncpy_field 108 p | None \<Rightarrow> ''Passive''),
                    conn_fd = - 1, tx_queue = replicate TX_QUEUE_SIZE None, conn_head = 0, conn_tail = 0,
                    is_connected = False, is_congested = False\<rparr>]\<rparr>))"

text \<open>Putting a buffer into the transmit queue; \<open>None\<close> when it is full.\<close>

definition conn_enq :: "buf_ref \<Rightarrow> nos_ipc_conn \<Rightarrow> nos_ipc_conn option" where
  "conn_enq b c =
     (let next_tail = (conn_tail c + 1) mod TX_QUEUE_SIZE in
      if next_tail = conn_head c then None
      else Some (c\<lparr>tx_queue := (tx_queue c)[conn_tail c := Some b], conn_tail := next_tail\<rparr>))"

text \<open>Fields that are not set keep what an earlier user left in the buffer.\<close>

definition nos_ipc_send_hello :: "nat \<Rightarrow> 'z ipc_node_scheme \<Rightarrow> 'z ipc_node_scheme" where
  "nos_ipc_send_hello i s =
     (case node_alloc (Inl (of_nat MSG_HEADER_SIZE + 32, 0)) s of
        None \<Rightarrow> s
      | Some (b, s) \<Rightarrow>
          (let s = s\<lparr>msgs := (msgs s)(b := (msgs s b)\<lparr>msg_magic := NOS_IPC_MAGIC, msg_version := NOS_IPC_VERSION,
                       msg_code := NOS_IPC_MSG_HELLO, payload_len := of_nat (length (local_name s)) + 1,
                       msg_payload := local_name s @ [CHR 0x00]\<rparr>)\<rparr>;
               s = (case conn_enq b (conns s ! i) of
                      None \<Rightarrow> s
                    | Some c \<Rightarrow> upd_conn i (\<lambda>_. c) (nos_buffer_retain b s))
           in nos_buffer_release b s))"

text \<open>The reconnection when the link is down.\<close>

definition reconnect :: "nat \<Rightarrow> string option \<Rightarrow> 'z ipc_node_scheme \<Rightarrow> 'z ipc_node_scheme" where
  "reconnect i uds_path s =
     (if conn_fd (conns s ! i) < 0 \<and> uds_path \<noteq> None \<and> uds_path \<noteq> Some ''Passive'' then
        (case os_connects s (connect_no s) of
           None \<Rightarrow> s\<lparr>connect_no := connect_no s + 1\<rparr>
         | Some fd \<Rightarrow>
             (let s = s\<lparr>connect_no := connect_no s + 1\<rparr>;
                  s = upd_conn i (\<lambda>c. c\<lparr>conn_fd := fd, is_connected := True, is_congested := False\<rparr>) s;
                  s = add_fd Mgmt fd EPOLL_INOUT_ET nos_ipc_event_handler_ptr (conn_ptr i) s
              in nos_ipc_send_hello i s))
      else s)"

definition nos_ipc_send_enqueue_ex ::
  "string option \<Rightarrow> string option \<Rightarrow> buf_ref \<Rightarrow> 'z ipc_node_scheme \<Rightarrow> nos_status \<times> 'z ipc_node_scheme" where
  "nos_ipc_send_enqueue_ex nname uds_path b s =
     (case get_or_create_conn nname uds_path s of
        (None, s) \<Rightarrow> (NOS_ERR, s)
      | (Some i, s) \<Rightarrow>
          (let s = reconnect i uds_path s; c = conns s ! i in
           if \<not> is_connected c then (NOS_ERR, s)
           else if conn_used c > TX_HIGH_WATERMARK then
             (NOS_ERR_BUSY, count_stat (\<lambda>st. st\<lparr>dropped_full := dropped_full st + 1\<rparr>) (upd_conn i (\<lambda>c. c\<lparr>is_congested := True\<rparr>) s))
           else case conn_enq b c of
                  None \<Rightarrow> (NOS_ERR_BUSY, count_stat (\<lambda>st. st\<lparr>dropped_full := dropped_full st + 1\<rparr>) s)
                | Some c' \<Rightarrow> (NOS_OK, nos_ipc_process_tx i (upd_conn i (\<lambda>_. c') (nos_buffer_retain b s)))))"

text \<open>
  The queues in shared memory hold the offset of a buffer, which is 16 bytes after the offset of
  its block, by which the model names it. \<open>None\<close> is \<open>NULL\<close>.
\<close>

definition nos_shm_ptr_to_offset :: "u32 \<Rightarrow> u32" where "nos_shm_ptr_to_offset block = block + 16"

definition nos_shm_offset_to_ptr :: "u32 \<Rightarrow> u32 option" where
  "nos_shm_offset_to_ptr offset = (if offset = 0 then None else Some (offset - 16))"

definition set_rx_queue :: "nat \<Rightarrow> nos_shm_mpsc_queue \<Rightarrow> 'z ipc_node_scheme \<Rightarrow> 'z ipc_node_scheme" where
  "set_rx_queue k q s = s\<lparr>shmem := (shmem s)\<lparr>rx_queues := (rx_queues (shmem s))[k := q]\<rparr>\<rparr>"

definition nos_ipc_send_enqueue_shm ::
  "string \<Rightarrow> string option \<Rightarrow> buf_ref \<Rightarrow> 'z ipc_node_scheme \<Rightarrow> nos_status \<times> 'z ipc_node_scheme" where
  "nos_ipc_send_enqueue_shm nname uds_path b s =
     (case b of
        PoolBuf _ _ \<Rightarrow> (NOS_ERR, s)
      | ShmBuf offset \<Rightarrow>
          (case nos_shm_get_remote_queue nname (shmem s) of
             None \<Rightarrow> (NOS_ERR, s)
           | Some k \<Rightarrow>
               if nos_shm_ptr_to_offset offset = 0 then (NOS_ERR, s)
               else
                 (let s = nos_buffer_retain b s;
                      (st, q) = nos_shm_mpsc_enqueue (nos_shm_ptr_to_offset offset) (rx_queues (shmem s) ! k)
                  in if st \<noteq> NOS_OK then (st, nos_buffer_release b s)
                     else
                       (let s = set_rx_queue k q s in
                        case node_alloc (Inl (of_nat MSG_HEADER_SIZE, 0)) s of
                          None \<Rightarrow> (NOS_OK, s)
                        | Some (e, s) \<Rightarrow>
                            (let s = s\<lparr>msgs := (msgs s)(e := (msgs s e)\<lparr>msg_magic := NOS_IPC_MAGIC, msg_version := NOS_IPC_VERSION,
                                        msg_code := NOS_IPC_MSG_SHM_EVENT, payload_len := 0, msg_payload := []\<rparr>)\<rparr>;
                                 (_, s) = nos_ipc_send_enqueue_ex (Some nname) uds_path e s
                             in (NOS_OK, nos_buffer_release e s))))))"

definition nos_transport_remote_uds_send ::
  "buf_ref \<Rightarrow> string \<Rightarrow> string \<Rightarrow> 'z ipc_node_scheme \<Rightarrow> nos_status \<times> 'z ipc_node_scheme" where
  "nos_transport_remote_uds_send b nname uds_path s =
     (case b of
        ShmBuf _ \<Rightarrow> nos_ipc_send_enqueue_shm nname (Some uds_path) b s
      | PoolBuf _ _ \<Rightarrow> nos_ipc_send_enqueue_ex (Some nname) (Some uds_path) b s)"

section \<open>Receiving\<close>

text \<open>
  What \<open>recv\<close> gives with \<open>MSG_PEEK\<close>: nothing yet, the end of the connection (or an error), or the header of
  the next message.
\<close>

datatype peek_result = Peek_again | Peek_closed | Peek nos_service_msg

text \<open>A C string in a payload ends at its first \<open>NUL\<close>.\<close>

definition c_string :: "string \<Rightarrow> string" where "c_string cs = takeWhile (\<lambda>c. c \<noteq> CHR 0x00) cs"

text \<open>Closing a link: of connection \<open>i\<close>, or one that is not yet known by name, on thread \<open>r\<close>.\<close>

definition drop_link :: "int \<Rightarrow> nat option \<Rightarrow> thread_ref \<Rightarrow> 'z ipc_node_scheme \<Rightarrow> 'z ipc_node_scheme" where
  "drop_link fd conn r s =
     (case conn of
        Some i \<Rightarrow>
          upd_conn i (\<lambda>c. c\<lparr>conn_fd := - 1, is_connected := False\<rparr>) (close_fd Mgmt fd (remove_fd Mgmt fd s))
      | None \<Rightarrow> close_fd r fd (remove_fd r fd s))"

text \<open>A greeting names the connection, or makes a passive connection one that can be sent on.\<close>

definition recv_hello :: "int \<Rightarrow> nat option \<Rightarrow> thread_ref \<Rightarrow> string \<Rightarrow> 'z ipc_node_scheme \<Rightarrow> 'z ipc_node_scheme" where
  "recv_hello fd conn r remote_name s =
     (case conn of
        Some i \<Rightarrow> upd_conn i (\<lambda>c. c\<lparr>conn_node_name := strncpy_field 32 remote_name\<rparr>) s
      | None \<Rightarrow>
          (case get_or_create_conn (Some remote_name) None s of
             (None, s) \<Rightarrow> s
           | (Some k, s) \<Rightarrow>
               (let s = upd_conn k (\<lambda>c. c\<lparr>conn_fd := fd, is_connected := True\<rparr>) s;
                    s = remove_fd r fd s
                in add_fd Mgmt fd EPOLL_INOUT_ET nos_ipc_event_handler_ptr (conn_ptr k) s)))"

definition rebase_buf :: "u32 \<Rightarrow> nos_shm \<Rightarrow> nos_shm" where
  "rebase_buf o' shm =
     (case blocks shm o' of
        None \<Rightarrow> shm
      | Some blk \<Rightarrow>
          shm\<lparr>blocks := (blocks shm)(o' \<mapsto> blk\<lparr>blk_buf := (blk_buf blk)
            \<lparr>raw_data := uint o' + 64, data := uint o' + 64 + uint (headroom (blk_buf blk))\<rparr>\<rparr>)\<rparr>)"

text \<open>
  The loop over the node's own queue in shared memory. It goes on for as long as there
  are messages, and producers may add more, so it runs on fuel.
\<close>

fun drain_shm :: "nat \<Rightarrow> nat \<Rightarrow> 'z ipc_node_scheme \<Rightarrow> 'z ipc_node_scheme run" where
  "drain_shm fuel k s =
     (case nos_shm_mpsc_dequeue (rx_queues (shmem s) ! k) of
        None \<Rightarrow> OutOfFuel
      | Some (offset, q) \<Rightarrow>
          (case nos_shm_offset_to_ptr offset of
             None \<Rightarrow> Returned s
           | Some o' \<Rightarrow>
               (case fuel of
                  0 \<Rightarrow> OutOfFuel
                | Suc n \<Rightarrow>
                    (let s = set_rx_queue k q s;
                         s = s\<lparr>shmem := rebase_buf o' (shmem s)\<rparr>;
                         s = count_stat (\<lambda>st. st\<lparr>rx_packets := rx_packets st + 1\<rparr>) s;
                         s = snd (nos_service_msg_send nos_transport_remote_uds_send (Some (ShmBuf o')) s)
                     in drain_shm n k (nos_buffer_release (ShmBuf o') s)))))"

declare drain_shm.simps [simp del]

text \<open>
  \<open>peek\<close> is the header the first \<open>recv\<close> shows and \<open>got\<close> the message of the second one, \<open>None\<close> unless it
  returns the whole length. The size passed to \<open>nos_buffer_alloc\<close> is cut to 32 bits.
\<close>

definition nos_ipc_recv_handler ::
  "nat \<Rightarrow> peek_result \<Rightarrow> nos_service_msg option \<Rightarrow> int \<Rightarrow> nat option \<Rightarrow> thread_ref \<Rightarrow> 'z ipc_node_scheme
     \<Rightarrow> 'z ipc_node_scheme run" where
  "nos_ipc_recv_handler fuel peek got fd conn r s =
     (case peek of
        Peek_again \<Rightarrow> Returned s
      | Peek_closed \<Rightarrow> Returned (drop_link fd conn r s)
      | Peek h \<Rightarrow>
          if msg_magic h \<noteq> NOS_IPC_MAGIC then Returned (drop_link fd conn r s)
          else case node_alloc (Inl (ucast (full_len h), 0)) s of
            None \<Rightarrow> Returned (count_stat (\<lambda>st. st\<lparr>buffer_alloc_fails := buffer_alloc_fails st + 1\<rparr>) s)
          | Some (b, s) \<Rightarrow>
              map_run (nos_buffer_release b)
                (case got of
                   None \<Rightarrow> Returned (count_stat (\<lambda>st. st\<lparr>rx_errors := rx_errors st + 1\<rparr>) s)
                 | Some m \<Rightarrow>
                     (let s = s\<lparr>msgs := (msgs s)(b := m)\<rparr> in
                      if msg_code m = NOS_IPC_MSG_HELLO then Returned (recv_hello fd conn r (c_string (msg_payload m)) s)
                      else if msg_code m = NOS_IPC_MSG_SHM_EVENT then
                        (case local_queue s of None \<Rightarrow> Returned s | Some k \<Rightarrow> drain_shm fuel k s)
                      else
                        (let s = count_stat (\<lambda>st. st\<lparr>rx_packets := rx_packets st + 1, rx_bytes := rx_bytes st + full_len h\<rparr>) s
                         in Returned (snd (nos_service_msg_send nos_transport_remote_uds_send (Some b) s))))))"

definition nos_ipc_event_handler ::
  "nat \<Rightarrow> peek_result \<Rightarrow> nos_service_msg option \<Rightarrow> int \<Rightarrow> nat \<Rightarrow> 'z ipc_node_scheme \<Rightarrow> 'z ipc_node_scheme run" where
  "nos_ipc_event_handler fuel peek got fd i s =
     (if fd < 0 then Returned s
      else nos_ipc_recv_handler fuel peek got fd (Some i) Mgmt (nos_ipc_process_tx i s))"

definition nos_ipc_passive_handler ::
  "nat \<Rightarrow> peek_result \<Rightarrow> nos_service_msg option \<Rightarrow> int \<Rightarrow> thread_ref \<Rightarrow> 'z ipc_node_scheme \<Rightarrow> 'z ipc_node_scheme run" where
  "nos_ipc_passive_handler fuel peek got fd r s = nos_ipc_recv_handler fuel peek got fd None r s"

section \<open>Setup and statistics\<close>

text \<open>\<open>client_fd\<close> and \<open>listen_fd\<close> are what \<open>accept\<close> and \<open>socket\<close> return.\<close>

definition nos_ipc_accept_handler :: "int \<Rightarrow> thread_ref \<Rightarrow> 'z ipc_node_scheme \<Rightarrow> 'z ipc_node_scheme" where
  "nos_ipc_accept_handler client_fd r s =
     (if client_fd < 0 then s else add_fd r client_fd EPOLLIN nos_ipc_passive_handler_ptr (thread_ptr r) s)"

definition nos_ipc_init :: "int \<Rightarrow> bool \<Rightarrow> bool \<Rightarrow> thread_ref \<Rightarrow> 'z ipc_node_scheme \<Rightarrow> nos_status \<times> 'z ipc_node_scheme" where
  "nos_ipc_init listen_fd bind_ok listen_ok r s =
     (if listen_fd < 0 \<or> \<not> bind_ok \<or> \<not> listen_ok then (NOS_ERR, s)
      else case threads s r of
             None \<Rightarrow> (NOS_ERR, s)
           | Some th \<Rightarrow>
               (let (st, th') = nos_scheduler_add_fd True th listen_fd nos_ipc_accept_handler_ptr (thread_ptr r)
                in (st, upd_thread r (\<lambda>_. th') s)))"

definition nos_ipc_stats_clear :: "'z ipc_node_scheme \<Rightarrow> 'z ipc_node_scheme" where
  "nos_ipc_stats_clear s = s\<lparr>stats := zero_stats\<rparr>"

text \<open>The fields of the lines that \<open>nos_ipc_get_conn_snapshot\<close> prints.\<close>

definition nos_ipc_get_conn_snapshot ::
  "nat \<Rightarrow> 'z ipc_node_scheme \<Rightarrow> (string \<times> string \<times> int \<times> string \<times> nat \<times> nat \<times> string) list" where
  "nos_ipc_get_conn_snapshot max_count s =
     map (\<lambda>c. (conn_node_name c, conn_uds_path c, conn_fd c, if is_connected c then ''Connected'' else ''Failed'',
               conn_head c, conn_tail c, if is_congested c then ''YES'' else ''NO''))
       (take max_count (conns s))"

end
