(* ===== verification/IpcProps.thy ===== *)
theory IpcProps
  imports IpcConn
begin

text \<open>
  The facts about the transport between nodes on which its properties rest: the transmit queue as a
  bounded FIFO, what one service of a link does, the balance of messages and references over
  any sequence of sends, and the delivery of a received message.
\<close>

section \<open>The transmit queue\<close>

definition conn_slots :: "nos_ipc_conn \<Rightarrow> buf_ref option list" where
  "conn_slots c = ring_items TX_QUEUE_SIZE (tx_queue c) (conn_head c) (conn_tail c)"

definition conn_items :: "nos_ipc_conn \<Rightarrow> buf_ref list" where
  "conn_items c = map the (conn_slots c)"

definition conn_ok :: "nos_ipc_conn \<Rightarrow> bool" where
  "conn_ok c \<longleftrightarrow> ring_ok TX_QUEUE_SIZE (tx_queue c) (conn_head c) (conn_tail c) \<and> None \<notin> set (conn_slots c)"

definition conn_deq :: "nos_ipc_conn \<Rightarrow> (buf_ref \<times> nos_ipc_conn) option" where
  "conn_deq c =
     (if conn_head c = conn_tail c then None
      else Some (the (tx_queue c ! conn_head c), c\<lparr>conn_head := (conn_head c + 1) mod TX_QUEUE_SIZE\<rparr>))"

lemma conn_ok_cong:
  assumes "tx_queue c' = tx_queue c" "conn_head c' = conn_head c" "conn_tail c' = conn_tail c"
  shows "conn_ok c' = conn_ok c" "conn_items c' = conn_items c"
  using assms by (simp_all add: conn_ok_def conn_items_def conn_slots_def)

lemma conn_used_items: "conn_ok c \<Longrightarrow> conn_used c = length (conn_items c)"
  by (simp add: conn_ok_def conn_items_def conn_slots_def conn_used_def ring_used_def)

lemma conn_head_entry:
  assumes "conn_ok c" "conn_items c = b # bs"
  shows "conn_head c \<noteq> conn_tail c" "tx_queue c ! conn_head c = Some b"
    "conn_ok (c\<lparr>conn_head := (conn_head c + 1) mod TX_QUEUE_SIZE\<rparr>)"
    "conn_items (c\<lparr>conn_head := (conn_head c + 1) mod TX_QUEUE_SIZE\<rparr>) = bs"
proof -
  have ok: "ring_ok TX_QUEUE_SIZE (tx_queue c) (conn_head c) (conn_tail c)" using assms(1) by (simp add: conn_ok_def)
  show ne: "conn_head c \<noteq> conn_tail c"
    using assms(2) ring_items_empty[of "conn_head c" TX_QUEUE_SIZE "conn_tail c" "tx_queue c"] ok
    by (auto simp: conn_items_def conn_slots_def ring_ok_def)
  let ?c = "c\<lparr>conn_head := (conn_head c + 1) mod TX_QUEUE_SIZE\<rparr>"
  have s: "conn_slots c = tx_queue c ! conn_head c # conn_slots ?c"
    using ring_items_pop[OF ok ne] by (simp add: conn_slots_def ring_succ_def)
  then obtain x where "tx_queue c ! conn_head c = Some x"
    using assms(1) by (cases "tx_queue c ! conn_head c") (auto simp: conn_ok_def)
  then show "tx_queue c ! conn_head c = Some b" "conn_items ?c = bs"
    using s assms(2) by (auto simp: conn_items_def)
  show "conn_ok ?c" using assms(1) s ring_ok_pop[OF ok] by (simp add: conn_ok_def ring_succ_def)
qed

lemma conn_empty: "conn_ok c \<Longrightarrow> conn_items c = [] \<longleftrightarrow> conn_head c = conn_tail c"
  by (simp add: conn_items_def conn_slots_def conn_ok_def ring_items_empty ring_ok_def)

interpretation conn_ring: bounded_fifo conn_items conn_ok "TX_QUEUE_SIZE - 1" "\<lambda>_. True" conn_enq conn_deq
proof (unfold_locales, goal_cases)
  case (1 c)
  then show ?case using ring_used_less by (fastforce simp: conn_items_def conn_slots_def conn_ok_def ring_ok_def)
next
  case (2 c b)
  then show ?case
    using ring_full_used[of "conn_head c" TX_QUEUE_SIZE "conn_tail c"]
    by (auto simp: conn_enq_def Let_def conn_ok_def conn_items_def conn_slots_def ring_ok_def ring_succ_def)
next
  case (3 c b c')
  then have s: "ring_succ TX_QUEUE_SIZE (conn_tail c) \<noteq> conn_head c"
    "c' = c\<lparr>tx_queue := (tx_queue c)[conn_tail c := Some b], conn_tail := ring_succ TX_QUEUE_SIZE (conn_tail c)\<rparr>"
    by (auto simp: conn_enq_def Let_def ring_succ_def split: if_splits)
  have ok: "ring_ok TX_QUEUE_SIZE (tx_queue c) (conn_head c) (conn_tail c)" using 3(1) by (simp add: conn_ok_def)
  have "conn_slots c' = conn_slots c @ [Some b]"
    using ring_items_push[OF ok s(1), of "Some b"] by (simp add: conn_slots_def s(2))
  then show ?case using 3(1) ring_ok_push[OF ok] by (simp add: conn_ok_def conn_items_def s(2))
next
  case (4 c) then show ?case by (simp add: conn_deq_def conn_empty)
next
  case (5 c b c')
  then have "conn_items c \<noteq> []" using conn_empty by (auto simp: conn_deq_def)
  then obtain x xs where "conn_items c = x # xs" by (cases "conn_items c") auto
  then show ?case using conn_head_entry[OF 5(1)] 5(2) by (auto simp: conn_deq_def)
qed

section \<open>Frames\<close>

lemma upd_conn_simps [simp]:
  "length (conns (upd_conn i f s)) = length (conns s)"
  "i < length (conns s) \<Longrightarrow> conns (upd_conn i f s) ! i = f (conns s ! i)"
  "j \<noteq> i \<Longrightarrow> conns (upd_conn i f s) ! j = conns s ! j"
  "stats (upd_conn i f s) = stats s" "wire (upd_conn i f s) = wire s" "msgs (upd_conn i f s) = msgs s"
  "os_sends (upd_conn i f s) = os_sends s" "send_no (upd_conn i f s) = send_no s"
  "threads (upd_conn i f s) = threads s" "registry (upd_conn i f s) = registry s"
  "bufs (upd_conn i f s) = bufs s" "shmem (upd_conn i f s) = shmem s"
  "buf_held (upd_conn i f s) = buf_held s" "bufs_ok (upd_conn i f s) = bufs_ok s"
  by (simp_all add: upd_conn_def buf_held_def[abs_def] bufs_ok_def)

lemma count_stat_simps [simp]:
  "conns (count_stat f s) = conns s" "stats (count_stat f s) = f (stats s)" "wire (count_stat f s) = wire s"
  "msgs (count_stat f s) = msgs s" "os_sends (count_stat f s) = os_sends s" "send_no (count_stat f s) = send_no s"
  "threads (count_stat f s) = threads s" "registry (count_stat f s) = registry s"
  "bufs (count_stat f s) = bufs s" "shmem (count_stat f s) = shmem s"
  "buf_held (count_stat f s) = buf_held s" "bufs_ok (count_stat f s) = bufs_ok s"
  by (simp_all add: count_stat_def buf_held_def[abs_def] bufs_ok_def)

lemma refs_ipc_frame [simp]:
  "conns (nos_buffer_release b s) = conns s" "stats (nos_buffer_release b s) = stats s"
  "wire (nos_buffer_release b s) = wire s" "os_sends (nos_buffer_release b s) = os_sends s"
  "send_no (nos_buffer_release b s) = send_no s"
  "conns (nos_buffer_retain b s) = conns s" "stats (nos_buffer_retain b s) = stats s"
  "wire (nos_buffer_retain b s) = wire s" "os_sends (nos_buffer_retain b s) = os_sends s"
  "send_no (nos_buffer_retain b s) = send_no s"
  by (simp_all add: nos_buffer_release_def nos_buffer_retain_def split: buf_ref.splits)

lemma upd_thread_ipc_frame [simp]:
  "conns (upd_thread r f s) = conns s" "stats (upd_thread r f s) = stats s" "wire (upd_thread r f s) = wire s"
  "os_sends (upd_thread r f s) = os_sends s" "send_no (upd_thread r f s) = send_no s"
  by (simp_all add: upd_thread_def)

lemma ipc_field_frame [simp]:
  "buf_held (s\<lparr>wire := w\<rparr>) = buf_held s" "bufs_ok (s\<lparr>wire := w\<rparr>) = bufs_ok s"
  "buf_held (s\<lparr>send_no := n\<rparr>) = buf_held s" "bufs_ok (s\<lparr>send_no := n\<rparr>) = bufs_ok s"
  "buf_held (s\<lparr>conns := cs\<rparr>) = buf_held s" "bufs_ok (s\<lparr>conns := cs\<rparr>) = bufs_ok s"
  "buf_held (s\<lparr>msgs := ms\<rparr>) = buf_held s" "bufs_ok (s\<lparr>msgs := ms\<rparr>) = bufs_ok s"
  "buf_held (s\<lparr>connect_no := n\<rparr>) = buf_held s" "bufs_ok (s\<lparr>connect_no := n\<rparr>) = bufs_ok s"
  by (simp_all add: buf_held_def[abs_def] bufs_ok_def)

section \<open>Draining the transmit queue\<close>

text \<open>How many of \<open>n\<close> messages the socket takes before it refuses one.\<close>

definition sent_count :: "'z ipc_node_scheme \<Rightarrow> nat \<Rightarrow> nat" where
  "sent_count s n = length (takeWhile (\<lambda>r. r = Sent) (map (\<lambda>j. os_sends s (send_no s + j)) [0..<n]))"

lemma sent_count_0: "sent_count s 0 = 0" by (simp add: sent_count_def)

lemma sent_count_Suc:
  assumes "os_sends s' = os_sends s" "send_no s' = Suc (send_no s)"
  shows "sent_count s (Suc n) = (if os_sends s (send_no s) = Sent then Suc (sent_count s' n) else 0)"
proof -
  have "map (\<lambda>j. os_sends s (send_no s + j)) [0..<Suc n] =
      os_sends s (send_no s) # map (\<lambda>j. os_sends s' (send_no s' + j)) [0..<n]"
    by (simp add: assms upt_conv_Cons map_Suc_upt[symmetric] comp_def del: upt_Suc)
  then show ?thesis by (simp add: sent_count_def)
qed

definition take_sent :: "nat \<Rightarrow> 'z ipc_node_scheme \<Rightarrow> buf_ref \<Rightarrow> 'z ipc_node_scheme" where
  "take_sent i s b = msg_sent i b (s\<lparr>send_no := send_no s + 1\<rparr>)"

text \<open>What the loop does after the last message that is sent.\<close>

definition tx_end :: "nat \<Rightarrow> 'z ipc_node_scheme \<Rightarrow> 'z ipc_node_scheme" where
  "tx_end i s =
     (if conn_items (conns s ! i) = [] then
        (if is_congested (conns s ! i) then upd_conn i (\<lambda>c. c\<lparr>is_congested := False\<rparr>) s else s)
      else if os_sends s (send_no s) = Send_failed then link_failed i (s\<lparr>send_no := send_no s + 1\<rparr>)
      else s\<lparr>send_no := send_no s + 1\<rparr>)"

lemma take_sent_simps:
  assumes "i < length (conns s)"
  shows "length (conns (take_sent i s b)) = length (conns s)"
    "conns (take_sent i s b) ! i = (conns s ! i)\<lparr>conn_head := (conn_head (conns s ! i) + 1) mod TX_QUEUE_SIZE\<rparr>"
    "j \<noteq> i \<Longrightarrow> conns (take_sent i s b) ! j = conns s ! j"
    "os_sends (take_sent i s b) = os_sends s" "send_no (take_sent i s b) = Suc (send_no s)" "msgs (take_sent i s b) = msgs s"
    "wire (take_sent i s b) = wire s @ [(conn_fd (conns s ! i), msgs s b)]"
    "stats (take_sent i s b) =
       (stats s)\<lparr>tx_packets := tx_packets (stats s) + 1, tx_bytes := tx_bytes (stats s) + full_len (msgs s b)\<rparr>"
  using assms by (simp_all add: take_sent_def msg_sent_def Let_def)

lemma process_tx_unfold:
  assumes "i < length (conns s)" "conn_ok (conns s ! i)" "length (conn_items (conns s ! i)) < n"
  shows "process_tx_loop n i s =
    tx_end i (foldl (take_sent i) s (take (sent_count s (length (conn_items (conns s ! i)))) (conn_items (conns s ! i))))"
  using assms
proof (induction n arbitrary: s)
  case (Suc n)
  let ?c = "conns s ! i"
  show ?case
  proof (cases "conn_items ?c")
    case Nil
    then have "conn_head ?c = conn_tail ?c" using conn_empty[OF Suc.prems(2)] by simp
    moreover have "conn_used ?c = 0" using conn_used_items[OF Suc.prems(2)] Nil by simp
    ultimately show ?thesis using Nil by (simp add: tx_end_def sent_count_0 TX_LOW_WATERMARK_def Let_def)
  next
    case (Cons b bs)
    note h = conn_head_entry[OF Suc.prems(2) Cons]
    let ?s = "take_sent i s b"
    note t = take_sent_simps[OF Suc.prems(1), where b = b]
    note k = sent_count_Suc[OF t(4,5), of "length bs"]
    show ?thesis
    proof (cases "os_sends s (send_no s)")
      case Sent
      have c: "conns ?s ! i = ?c\<lparr>conn_head := (conn_head ?c + 1) mod TX_QUEUE_SIZE\<rparr>" by (rule t(2))
      have "process_tx_loop (Suc n) i s = process_tx_loop n i ?s"
        using h Sent by (simp add: Let_def take_sent_def)
      moreover have "process_tx_loop n i ?s = tx_end i (foldl (take_sent i) ?s (take (sent_count ?s (length bs)) bs))"
        using Suc.IH[of ?s] Suc.prems t(1) h(3,4) Cons unfolding c by simp
      ultimately show ?thesis using Cons k Sent by simp
    qed (use h k Cons in \<open>simp_all add: Let_def tx_end_def\<close>)
  qed
qed simp

lemma take_sent_all:
  assumes "i < length (conns s)" "conn_ok (conns s ! i)" "conn_items (conns s ! i) = bs @ rest"
    and "s' = foldl (take_sent i) s bs"
  shows "length (conns s') = length (conns s) \<and> conn_ok (conns s' ! i) \<and> conn_items (conns s' ! i) = rest \<and>
    conn_fd (conns s' ! i) = conn_fd (conns s ! i) \<and> is_connected (conns s' ! i) = is_connected (conns s ! i) \<and>
    is_congested (conns s' ! i) = is_congested (conns s ! i) \<and>
    conn_node_name (conns s' ! i) = conn_node_name (conns s ! i) \<and> conn_uds_path (conns s' ! i) = conn_uds_path (conns s ! i) \<and>
    (\<forall>j. j \<noteq> i \<longrightarrow> conns s' ! j = conns s ! j) \<and> msgs s' = msgs s \<and> os_sends s' = os_sends s \<and>
    send_no s' = send_no s + length bs \<and> wire s' = wire s @ map (\<lambda>b. (conn_fd (conns s ! i), msgs s b)) bs \<and>
    stats s' = (stats s)\<lparr>tx_packets := tx_packets (stats s) + of_nat (length bs),
                         tx_bytes := tx_bytes (stats s) + (\<Sum>b \<leftarrow> bs. full_len (msgs s b))\<rparr>"
  using assms
proof (induction bs arbitrary: s)
  case (Cons b bs)
  note h = conn_head_entry[OF Cons.prems(2), of b "bs @ rest"]
  note t = take_sent_simps[OF Cons.prems(1), where b = b]
  have c: "conns (take_sent i s b) ! i = (conns s ! i)\<lparr>conn_head := (conn_head (conns s ! i) + 1) mod TX_QUEUE_SIZE\<rparr>"
    by (rule t(2))
  show ?case
    using Cons.IH[of "take_sent i s b"] Cons.prems h(3,4) t(1,3-) unfolding c by (simp add: algebra_simps)
qed simp

lemma take_sent_held:
  assumes "bufs_ok s" "\<And>b. count_list bs b \<le> buf_held s b" "s' = foldl (take_sent i) s bs"
  shows "bufs_ok s' \<and> (\<forall>b. buf_held s' b = buf_held s b - count_list bs b)"
  using assms
proof (induction bs arbitrary: s)
  case (Cons b bs)
  have one: "buf_held (take_sent i s b) = (buf_held s)(b := buf_held s b - 1)" "bufs_ok (take_sent i s b)"
  proof -
    obtain u where u: "take_sent i s b = upd_conn i (\<lambda>c. c\<lparr>conn_head := (conn_head c + 1) mod TX_QUEUE_SIZE\<rparr>) (nos_buffer_release b u)"
      "buf_held u = buf_held s" "bufs_ok u = bufs_ok s"
      by (simp add: take_sent_def msg_sent_def Let_def)
    have "0 < buf_held u b" using Cons.prems(2)[of b] u(2) by simp
    then show "buf_held (take_sent i s b) = (buf_held s)(b := buf_held s b - 1)" "bufs_ok (take_sent i s b)"
      using node_bufs.release_held[of u b] u Cons.prems(1) by auto
  qed
  have "count_list bs c \<le> buf_held (take_sent i s b) c" for c
    using Cons.prems(2)[of c] one(1) by (auto split: if_splits)
  then show ?case using Cons.IH[OF one(2)] Cons.prems(3) one(1) by auto
qed simp

section \<open>The state after a link has been served\<close>

lemma link_failed_simps:
  assumes "i < length (conns s)"
  shows "length (conns (link_failed i s)) = length (conns s)"
    "conns (link_failed i s) ! i = (conns s ! i)\<lparr>conn_fd := - 1, is_connected := False, is_congested := False\<rparr>"
    "j \<noteq> i \<Longrightarrow> conns (link_failed i s) ! j = conns s ! j" "msgs (link_failed i s) = msgs s"
    "wire (link_failed i s) = wire s" "os_sends (link_failed i s) = os_sends s"
    "stats (link_failed i s) = (stats s)\<lparr>tx_errors := tx_errors (stats s) + 1\<rparr>"
    "buf_held (link_failed i s) = buf_held s" "bufs_ok (link_failed i s) = bufs_ok s"
  using assms by (simp_all add: link_failed_def Let_def close_fd_def)

definition tx_failed :: "'z ipc_node_scheme \<Rightarrow> nat \<Rightarrow> nat \<Rightarrow> bool" where
  "tx_failed s n k \<longleftrightarrow> k < n \<and> os_sends s (send_no s + k) = Send_failed"

lemma process_tx_spec:
  assumes i: "i < length (conns s)" and c: "conn_ok (conns s ! i)" "bs = conn_items (conns s ! i)"
    and refs: "bufs_ok s" "\<And>b. count_list bs b \<le> buf_held s b"
    and k: "k = sent_count s (length bs)" and s': "s' = nos_ipc_process_tx i s"
  shows "length (conns s') = length (conns s) \<and> conn_ok (conns s' ! i) \<and> conn_items (conns s' ! i) = drop k bs \<and>
    conn_node_name (conns s' ! i) = conn_node_name (conns s ! i) \<and> conn_uds_path (conns s' ! i) = conn_uds_path (conns s ! i) \<and>
    (\<forall>j. j \<noteq> i \<longrightarrow> conns s' ! j = conns s ! j) \<and> msgs s' = msgs s \<and> os_sends s' = os_sends s \<and>
    wire s' = wire s @ map (\<lambda>b. (conn_fd (conns s ! i), msgs s b)) (take k bs) \<and> bufs_ok s' \<and>
    (\<forall>b. buf_held s' b = buf_held s b - count_list (take k bs) b) \<and>
    tx_packets (stats s') = tx_packets (stats s) + of_nat k \<and> dropped_full (stats s') = dropped_full (stats s) \<and>
    (if tx_failed s (length bs) k
     then conn_fd (conns s' ! i) = - 1 \<and> \<not> is_connected (conns s' ! i) \<and> \<not> is_congested (conns s' ! i) \<and>
       tx_errors (stats s') = tx_errors (stats s) + 1
     else conn_fd (conns s' ! i) = conn_fd (conns s ! i) \<and> is_connected (conns s' ! i) = is_connected (conns s ! i) \<and>
       is_congested (conns s' ! i) = (is_congested (conns s ! i) \<and> k < length bs) \<and> tx_errors (stats s') = tx_errors (stats s))"
proof -
  have kle: "k \<le> length bs"
    unfolding k sent_count_def by (rule order_trans[OF length_takeWhile_le]) simp
  define u where "u = foldl (take_sent i) s (take k bs)"
  have items: "conn_items (conns s ! i) = take k bs @ drop k bs" by (simp add: c(2))
  note a = take_sent_all[OF i c(1) items u_def]
  have cnt: "count_list (take k bs) b \<le> buf_held s b" for b
    using refs(2)[of b] count_list_append[of "take k bs" "drop k bs" b] by simp
  note h = take_sent_held[OF refs(1) cnt u_def]
  have "length (conn_items (conns s ! i)) < TX_QUEUE_SIZE"
    using conn_ring.bounded[OF c(1)] by (simp add: TX_QUEUE_SIZE_def)
  then have e: "s' = tx_end i u"
    using process_tx_unfold[OF i c(1)] c(2) k by (simp add: s' u_def nos_ipc_process_tx_def)
  have iu: "i < length (conns u)" using a i by simp
  have ex: "drop k bs = [] \<longleftrightarrow> k = length bs" using kle by auto
  have cu: "conn_items (conns u ! i) = drop k bs" "conn_ok (conns u ! i)" using a by auto
  have len: "length (take k bs) = k" using kle by simp
  show ?thesis
  proof (cases "k = length bs")
    case True
    then have nf: "\<not> tx_failed s (length bs) k" by (simp add: tx_failed_def)
    have "conn_ok ((conns u ! i)\<lparr>is_congested := False\<rparr>)" "conn_items ((conns u ! i)\<lparr>is_congested := False\<rparr>) = drop k bs"
      using conn_ok_cong[of "(conns u ! i)\<lparr>is_congested := False\<rparr>" "conns u ! i"] cu by auto
    then show ?thesis
      using a h iu ex cu True nf len unfolding e tx_end_def by auto
  next
    case False
    then have ne: "conn_items (conns u ! i) \<noteq> []" using cu ex by simp
    have os: "os_sends u (send_no u) = os_sends s (send_no s + k)" using a len by simp
    have lt: "k < length bs" using False kle by simp
    show ?thesis
    proof (cases "tx_failed s (length bs) k")
      case True
      let ?v = "u\<lparr>send_no := send_no u + 1\<rparr>"
      have ee: "s' = link_failed i ?v" using e ne os True by (simp add: tx_end_def tx_failed_def)
      have iv: "i < length (conns ?v)" using iu by simp
      have "conn_ok ((conns u ! i)\<lparr>conn_fd := - 1, is_connected := False, is_congested := False\<rparr>)"
        "conn_items ((conns u ! i)\<lparr>conn_fd := - 1, is_connected := False, is_congested := False\<rparr>) = drop k bs"
        using conn_ok_cong[of "(conns u ! i)\<lparr>conn_fd := - 1, is_connected := False, is_congested := False\<rparr>" "conns u ! i"] cu by auto
      then show ?thesis
        using a h True len link_failed_simps[OF iv] unfolding ee by auto
    next
      case nf: False
      then have "s' = u\<lparr>send_no := send_no u + 1\<rparr>" using e ne os lt by (simp add: tx_end_def tx_failed_def)
      then show ?thesis using a h nf lt len cu by auto
    qed
  qed
qed


section \<open>Sending on a link\<close>

text \<open>The connection that \<open>get_or_create_conn\<close> finds depends on the names and paths alone.\<close>

definition conn_key :: "nos_ipc_conn \<Rightarrow> string \<times> string" where
  "conn_key c = (conn_node_name c, conn_uds_path c)"

definition key_matches :: "string option \<Rightarrow> string option \<Rightarrow> string \<times> string \<Rightarrow> bool" where
  "key_matches nname uds_path k \<longleftrightarrow> nname = Some (fst k) \<or> uds_path = Some (snd k)"

lemma find_from_map: "find_from i P (map f xs) = find_from i (\<lambda>x. P (f x)) xs"
  by (induction xs arbitrary: i) auto

lemma find_slot_map: "find_slot (\<lambda>x. P (f x)) n xs = find_slot P n (map f xs)"
  by (simp add: find_slot_def find_from_map take_map)

lemma get_conn_find:
  "get_or_create_conn nname uds_path s = (Some i, s) \<longleftrightarrow>
     find_slot (key_matches nname uds_path) (length (conns s)) (map conn_key (conns s)) = Some i"
proof -
  have "find_slot (\<lambda>c. nname = Some (conn_node_name c) \<or> uds_path = Some (conn_uds_path c)) (length (conns s)) (conns s) =
      find_slot (key_matches nname uds_path) (length (conns s)) (map conn_key (conns s))"
    using find_slot_map[of "key_matches nname uds_path" conn_key] by (simp add: key_matches_def conn_key_def)
  moreover have "s\<lparr>conns := conns s @ [c]\<rparr> \<noteq> s" for c
  proof
    assume "s\<lparr>conns := conns s @ [c]\<rparr> = s"
    then have "conns (s\<lparr>conns := conns s @ [c]\<rparr>) = conns s" by simp
    then show False by simp
  qed
  ultimately show ?thesis by (auto simp: get_or_create_conn_def split: option.splits)
qed

text \<open>Link \<open>i\<close> is the one the name and path lead to, and it is up.\<close>

definition link_up :: "nat \<Rightarrow> string option \<Rightarrow> string option \<Rightarrow> 'z ipc_node_scheme \<Rightarrow> bool" where
  "link_up i nname uds_path s \<longleftrightarrow> i < length (conns s) \<and> get_or_create_conn nname uds_path s = (Some i, s) \<and>
     conn_ok (conns s ! i) \<and> 0 \<le> conn_fd (conns s ! i) \<and> is_connected (conns s ! i)"

lemma link_up_cong:
  assumes "link_up i nname uds_path s" "length (conns s') = length (conns s)" "\<forall>j. j \<noteq> i \<longrightarrow> conns s' ! j = conns s ! j"
    "conn_key (conns s' ! i) = conn_key (conns s ! i)" "conn_ok (conns s' ! i)"
    "conn_fd (conns s' ! i) = conn_fd (conns s ! i)" "is_connected (conns s' ! i)"
  shows "link_up i nname uds_path s'"
proof -
  have "map conn_key (conns s') = map conn_key (conns s)"
  proof (rule nth_equalityI)
    fix j assume "j < length (map conn_key (conns s'))"
    then show "map conn_key (conns s') ! j = map conn_key (conns s) ! j"
      using assms(2-4) by (cases "j = i") auto
  qed (use assms(2) in simp)
  then show ?thesis using assms by (simp add: link_up_def get_conn_find)
qed

lemma enqueue_up:
  assumes up: "link_up i nname uds_path s"
  shows "if length (conn_items (conns s ! i)) > TX_HIGH_WATERMARK
    then nos_ipc_send_enqueue_ex nname uds_path b s =
      (NOS_ERR_BUSY, count_stat (\<lambda>st. st\<lparr>dropped_full := dropped_full st + 1\<rparr>) (upd_conn i (\<lambda>c. c\<lparr>is_congested := True\<rparr>) s))
    else \<exists>c. nos_ipc_send_enqueue_ex nname uds_path b s =
        (NOS_OK, nos_ipc_process_tx i (upd_conn i (\<lambda>_. c) (nos_buffer_retain b s))) \<and>
      conn_ok c \<and> conn_items c = conn_items (conns s ! i) @ [b] \<and>
      (\<exists>q t. c = (conns s ! i)\<lparr>tx_queue := q, conn_tail := t\<rparr>)"
proof -
  have ok: "conn_ok (conns s ! i)" using up by (simp add: link_up_def)
  have g: "get_or_create_conn nname uds_path s = (Some i, s)" "reconnect i uds_path s = s" "is_connected (conns s ! i)"
    using up by (simp_all add: link_up_def reconnect_def)
  note u = conn_used_items[OF ok]
  show ?thesis
  proof (cases "length (conn_items (conns s ! i)) > TX_HIGH_WATERMARK")
    case True
    then show ?thesis using g u by (simp add: nos_ipc_send_enqueue_ex_def Let_def)
  next
    case False
    then have "length (conn_items (conns s ! i)) < TX_QUEUE_SIZE - 1"
      by (simp add: TX_HIGH_WATERMARK_def TX_QUEUE_SIZE_def)
    then obtain c where c: "conn_enq b (conns s ! i) = Some c" "conn_ok c" "conn_items c = conn_items (conns s ! i) @ [b]"
      using conn_ring.enq_room[OF ok TrueI, of b] by auto
    moreover have "\<exists>q t. c = (conns s ! i)\<lparr>tx_queue := q, conn_tail := t\<rparr>"
      using c(1) by (auto simp: conn_enq_def Let_def split: if_splits)
    moreover have "nos_ipc_send_enqueue_ex nname uds_path b s = (NOS_OK, nos_ipc_process_tx i (upd_conn i (\<lambda>_. c) (nos_buffer_retain b s)))"
      using False g u c(1) by (simp add: nos_ipc_send_enqueue_ex_def Let_def)
    ultimately show ?thesis using False by auto
  qed
qed

datatype tx_op = TxSend buf_ref | TxReady

text \<open>Sends to one peer and events of its socket becoming writable: the accepted buffers.\<close>

fun tx_run ::
  "nat \<Rightarrow> string option \<Rightarrow> string option \<Rightarrow> 'z ipc_node_scheme \<Rightarrow> tx_op list \<Rightarrow> 'z ipc_node_scheme \<times> buf_ref list" where
  "tx_run i nname uds_path s [] = (s, [])"
| "tx_run i nname uds_path s (TxReady # ops) = tx_run i nname uds_path (nos_ipc_process_tx i s) ops"
| "tx_run i nname uds_path s (TxSend b # ops) =
     (let (st, s') = nos_ipc_send_enqueue_ex nname uds_path b s; (s'', acc) = tx_run i nname uds_path s' ops
      in (s'', if st = NOS_OK then b # acc else acc))"

fun tx_sends :: "tx_op list \<Rightarrow> buf_ref list" where
  "tx_sends [] = []"
| "tx_sends (TxReady # ops) = tx_sends ops"
| "tx_sends (TxSend b # ops) = b # tx_sends ops"

text \<open>The queue's references, and those of the senders to the buffers they still send.\<close>

definition tx_refs :: "nat \<Rightarrow> buf_ref list \<Rightarrow> 'z ipc_node_scheme \<Rightarrow> bool" where
  "tx_refs i bs s \<longleftrightarrow> bufs_ok s \<and> (\<forall>b. count_list (conn_items (conns s ! i)) b \<le> buf_held s b \<and>
     (b \<in> set bs \<longrightarrow> count_list (conn_items (conns s ! i)) b < buf_held s b))"

text \<open>One service of the link keeps the balance of what was queued, what is on the wire and who holds what.\<close>

lemma process_tx_balance:
  assumes up: "link_up i nname uds_path s" and os: "\<And>n. os_sends s n \<noteq> Send_failed" and refs: "tx_refs i bs s"
    and s': "s' = nos_ipc_process_tx i s"
  obtains sent where "link_up i nname uds_path s'" "conn_items (conns s ! i) = sent @ conn_items (conns s' ! i)"
    "wire s' = wire s @ map (\<lambda>b. (conn_fd (conns s ! i), msgs s b)) sent" "msgs s' = msgs s" "os_sends s' = os_sends s"
    "\<forall>b. buf_held s' b + count_list sent b = buf_held s b" "tx_refs i bs s'" "dropped_full (stats s') = dropped_full (stats s)"
    "conn_fd (conns s' ! i) = conn_fd (conns s ! i)"
proof -
  let ?is = "conn_items (conns s ! i)"
  define k where "k = sent_count s (length ?is)"
  have le: "count_list ?is b \<le> buf_held s b" for b using refs by (simp add: tx_refs_def)
  have nf: "\<not> tx_failed s (length ?is) k" using os by (simp add: tx_failed_def)
  have i: "i < length (conns s)" "conn_ok (conns s ! i)" "bufs_ok s"
    using up refs by (simp_all add: link_up_def tx_refs_def)
  note p = process_tx_spec[OF i(1,2) refl i(3) le k_def s']
  let ?sent = "take k ?is"
  have split: "?is = ?sent @ conn_items (conns s' ! i)" using p by simp
  have cnt: "count_list ?is b = count_list ?sent b + count_list (conn_items (conns s' ! i)) b" for b
    by (metis split count_list_append)
  have held: "buf_held s' b + count_list ?sent b = buf_held s b" for b
  proof -
    have "buf_held s' b = buf_held s b - count_list ?sent b" using p by blast
    then show ?thesis using le[of b] cnt[of b] by simp
  qed
  have up': "link_up i nname uds_path s'"
  proof (rule link_up_cong[OF up])
    show "is_connected (conns s' ! i)" using p nf up by (simp add: link_up_def)
    show "conn_fd (conns s' ! i) = conn_fd (conns s ! i)" using p nf by simp
    show "conn_key (conns s' ! i) = conn_key (conns s ! i)" using p by (simp add: conn_key_def)
  qed (use p in auto)
  have refs': "tx_refs i bs s'"
    unfolding tx_refs_def
  proof (intro conjI allI impI)
    show "bufs_ok s'" using p by simp
  next
    fix b show "count_list (conn_items (conns s' ! i)) b \<le> buf_held s' b" using le[of b] held[of b] cnt[of b] by linarith
  next
    fix b assume "b \<in> set bs"
    then have "count_list ?is b < buf_held s b" using refs by (simp add: tx_refs_def)
    then show "count_list (conn_items (conns s' ! i)) b < buf_held s' b" using held[of b] cnt[of b] by linarith
  qed
  show thesis
  proof (rule that[OF up' split _ _ _ _ refs'])
    show "\<forall>b. buf_held s' b + count_list ?sent b = buf_held s b" using held by blast
  qed (use p nf in auto)
qed

lemma enqueue_balance:
  assumes up: "link_up i nname uds_path s" and os: "\<And>n. os_sends s n \<noteq> Send_failed"
    and refs: "tx_refs i (b # bs) s" "buf_held s b < 2 ^ 31 - 1"
    and s': "nos_ipc_send_enqueue_ex nname uds_path b s = (st, s')"
  defines "new \<equiv> (if st = NOS_OK then [b] else [])"
  obtains sent where "link_up i nname uds_path s'" "conn_items (conns s ! i) @ new = sent @ conn_items (conns s' ! i)"
    "wire s' = wire s @ map (\<lambda>b. (conn_fd (conns s ! i), msgs s b)) sent" "msgs s' = msgs s" "os_sends s' = os_sends s"
    "\<forall>x. buf_held s' x + count_list sent x = buf_held s x + count_list new x" "tx_refs i bs s'"
    "dropped_full (stats s') = dropped_full (stats s) + (if st = NOS_OK then 0 else 1)"
    "conn_fd (conns s' ! i) = conn_fd (conns s ! i)"
    "st = (if length (conn_items (conns s ! i)) > TX_HIGH_WATERMARK then NOS_ERR_BUSY else NOS_OK)"
proof (cases "length (conn_items (conns s ! i)) > TX_HIGH_WATERMARK")
  case True
  have i: "i < length (conns s)" using up by (simp add: link_up_def)
  define u where "u = upd_conn i (\<lambda>c. c\<lparr>is_congested := True\<rparr>) s"
  have st: "st = NOS_ERR_BUSY" "s' = count_stat (\<lambda>st. st\<lparr>dropped_full := dropped_full st + 1\<rparr>) u"
    using enqueue_up[OF up, of b] True s' by (simp_all add: u_def)
  have c: "conns u ! i = (conns s ! i)\<lparr>is_congested := True\<rparr>" using i by (simp add: u_def)
  have k: "conn_ok (conns u ! i) = conn_ok (conns s ! i)" "conn_items (conns u ! i) = conn_items (conns s ! i)"
    unfolding c by (rule conn_ok_cong; simp)+
  have up': "link_up i nname uds_path s'"
    by (rule link_up_cong[OF up]) (use up i c k in \<open>auto simp: st link_up_def conn_key_def u_def\<close>)
  show thesis
  proof (rule that[of "[]"])
    show "tx_refs i bs s'" using refs k by (simp add: tx_refs_def st u_def)
  qed (use up' st c k True in \<open>simp_all add: new_def u_def\<close>)
next
  case False
  then obtain c where c: "nos_ipc_send_enqueue_ex nname uds_path b s =
        (NOS_OK, nos_ipc_process_tx i (upd_conn i (\<lambda>_. c) (nos_buffer_retain b s)))"
      "conn_ok c" "conn_items c = conn_items (conns s ! i) @ [b]" "\<exists>q t. c = (conns s ! i)\<lparr>tx_queue := q, conn_tail := t\<rparr>"
    using enqueue_up[OF up, of b] by auto
  define u where "u = upd_conn i (\<lambda>_. c) (nos_buffer_retain b s)"
  have i: "i < length (conns s)" using up by (simp add: link_up_def)
  have cu: "conns u ! i = c" using i by (simp add: u_def)
  have b: "0 < buf_held s b" "bufs_ok s" using refs(1) by (auto simp: tx_refs_def)
  have held: "buf_held u = (buf_held s)(b := buf_held s b + 1)" "bufs_ok u"
    using node_bufs.retain_held[OF b(2,1) refs(2)] by (simp_all add: u_def)
  have ucu: "link_up i nname uds_path u"
    by (rule link_up_cong[OF up]) (use up i c(2,4) in \<open>auto simp: u_def link_up_def conn_key_def\<close>)
  have uref: "tx_refs i bs u"
    using refs(1) held c(3) by (auto simp: tx_refs_def cu)
  have st: "st = NOS_OK" "s' = nos_ipc_process_tx i u" using s' c(1) by (auto simp: u_def)
  have osu: "os_sends u n \<noteq> Send_failed" for n using os by (simp add: u_def)
  obtain sent where p: "link_up i nname uds_path s'" "conn_items (conns u ! i) = sent @ conn_items (conns s' ! i)"
    "wire s' = wire u @ map (\<lambda>b. (conn_fd (conns u ! i), msgs u b)) sent" "msgs s' = msgs u" "os_sends s' = os_sends u"
    "\<forall>b. buf_held s' b + count_list sent b = buf_held u b" "tx_refs i bs s'" "dropped_full (stats s') = dropped_full (stats u)"
    "conn_fd (conns s' ! i) = conn_fd (conns u ! i)"
    using process_tx_balance[OF ucu osu uref st(2)] by blast
  have fd: "conn_fd c = conn_fd (conns s ! i)" using c(4) by auto
  show thesis
    by (rule that[of sent]) (use p st c(3) cu fd held False in \<open>auto simp: new_def u_def\<close>)
qed

lemma tx_run_balance:
  assumes "link_up i nname uds_path s" "\<And>n. os_sends s n \<noteq> Send_failed" "tx_refs i (tx_sends ops) s"
    "\<And>b. buf_held s b + length ops < 2 ^ 31" "tx_run i nname uds_path s ops = (s', acc)"
  shows "\<exists>sent. link_up i nname uds_path s' \<and> conn_items (conns s ! i) @ acc = sent @ conn_items (conns s' ! i) \<and>
    wire s' = wire s @ map (\<lambda>b. (conn_fd (conns s ! i), msgs s b)) sent \<and>
    (\<forall>x. buf_held s' x + count_list sent x = buf_held s x + count_list acc x) \<and>
    dropped_full (stats s') + of_nat (length acc) = dropped_full (stats s) + of_nat (length (tx_sends ops)) \<and>
    (length (conn_items (conns s ! i)) + length (tx_sends ops) \<le> 901 \<longrightarrow> acc = tx_sends ops)"
  using assms
proof (induction ops arbitrary: s acc)
  case (Cons op ops)
  show ?case
  proof (cases op)
    case TxReady
    have r: "tx_refs i (tx_sends ops) s" using Cons.prems(3) TxReady by simp
    obtain sent where p: "link_up i nname uds_path (nos_ipc_process_tx i s)"
      "conn_items (conns s ! i) = sent @ conn_items (conns (nos_ipc_process_tx i s) ! i)"
      "wire (nos_ipc_process_tx i s) = wire s @ map (\<lambda>b. (conn_fd (conns s ! i), msgs s b)) sent"
      "msgs (nos_ipc_process_tx i s) = msgs s" "os_sends (nos_ipc_process_tx i s) = os_sends s"
      "\<forall>b. buf_held (nos_ipc_process_tx i s) b + count_list sent b = buf_held s b" "tx_refs i (tx_sends ops) (nos_ipc_process_tx i s)"
      "dropped_full (stats (nos_ipc_process_tx i s)) = dropped_full (stats s)"
      "conn_fd (conns (nos_ipc_process_tx i s) ! i) = conn_fd (conns s ! i)"
      using process_tx_balance[OF Cons.prems(1,2) r refl] by blast
    have small: "buf_held (nos_ipc_process_tx i s) b + length ops < 2 ^ 31" for b
      using Cons.prems(4)[of b] p(6)[rule_format, of b] by simp
    have run: "tx_run i nname uds_path (nos_ipc_process_tx i s) ops = (s', acc)" using Cons.prems(5) TxReady by simp
    have osn: "os_sends (nos_ipc_process_tx i s) n \<noteq> Send_failed" for n using Cons.prems(2) p(5) by simp
    obtain sent' where q: "link_up i nname uds_path s'" "conn_items (conns (nos_ipc_process_tx i s) ! i) @ acc = sent' @ conn_items (conns s' ! i)"
      "wire s' = wire (nos_ipc_process_tx i s) @ map (\<lambda>b. (conn_fd (conns (nos_ipc_process_tx i s) ! i), msgs (nos_ipc_process_tx i s) b)) sent'"
      "\<forall>x. buf_held s' x + count_list sent' x = buf_held (nos_ipc_process_tx i s) x + count_list acc x"
      "dropped_full (stats s') + of_nat (length acc) = dropped_full (stats (nos_ipc_process_tx i s)) + of_nat (length (tx_sends ops))"
      "length (conn_items (conns (nos_ipc_process_tx i s) ! i)) + length (tx_sends ops) \<le> 901 \<longrightarrow> acc = tx_sends ops"
      using Cons.IH[OF p(1) osn p(7) small run] by blast
    have "buf_held s' x + count_list (sent @ sent') x = buf_held s x + count_list acc x" for x
      using p(6)[rule_format, of x] q(4)[rule_format, of x] by (simp add: count_list_append)
    moreover have "length (conn_items (conns (nos_ipc_process_tx i s) ! i)) \<le> length (conn_items (conns s ! i))"
      by (simp add: p(2))
    ultimately show ?thesis
      using q p(2-5,8,9) TxReady by (intro exI[of _ "sent @ sent'"]) auto
  next
    case (TxSend b)
    obtain st u where e: "nos_ipc_send_enqueue_ex nname uds_path b s = (st, u)" by (cases "nos_ipc_send_enqueue_ex nname uds_path b s") auto
    define new where "new = (if st = NOS_OK then [b] else [])"
    have r: "tx_refs i (b # tx_sends ops) s" using Cons.prems(3) TxSend by simp
    have lim: "buf_held s b < 2 ^ 31 - 1" using Cons.prems(4)[of b] by simp
    obtain sent where p: "link_up i nname uds_path u" "conn_items (conns s ! i) @ new = sent @ conn_items (conns u ! i)"
      "wire u = wire s @ map (\<lambda>b. (conn_fd (conns s ! i), msgs s b)) sent" "msgs u = msgs s" "os_sends u = os_sends s"
      "\<forall>x. buf_held u x + count_list sent x = buf_held s x + count_list new x" "tx_refs i (tx_sends ops) u"
      "dropped_full (stats u) = dropped_full (stats s) + (if st = NOS_OK then 0 else 1)"
      "conn_fd (conns u ! i) = conn_fd (conns s ! i)"
      "st = (if length (conn_items (conns s ! i)) > TX_HIGH_WATERMARK then NOS_ERR_BUSY else NOS_OK)"
      using enqueue_balance[OF Cons.prems(1,2) r lim e] unfolding new_def by blast
    have small: "buf_held u x + length ops < 2 ^ 31" for x
    proof -
      have "count_list new x \<le> 1" by (simp add: new_def)
      then show ?thesis using Cons.prems(4)[of x] p(6)[rule_format, of x] by simp
    qed
    obtain acc' where run: "tx_run i nname uds_path u ops = (s', acc')" "acc = new @ acc'"
      using Cons.prems(5) TxSend e by (auto simp: new_def split: prod.splits)
    have osn: "os_sends u n \<noteq> Send_failed" for n using Cons.prems(2) p(5) by simp
    obtain sent' where q: "link_up i nname uds_path s'" "conn_items (conns u ! i) @ acc' = sent' @ conn_items (conns s' ! i)"
      "wire s' = wire u @ map (\<lambda>b. (conn_fd (conns u ! i), msgs u b)) sent'"
      "\<forall>x. buf_held s' x + count_list sent' x = buf_held u x + count_list acc' x"
      "dropped_full (stats s') + of_nat (length acc') = dropped_full (stats u) + of_nat (length (tx_sends ops))"
      "length (conn_items (conns u ! i)) + length (tx_sends ops) \<le> 901 \<longrightarrow> acc' = tx_sends ops"
      using Cons.IH[OF p(1) osn p(7) small run(1)] by blast
    have held: "buf_held s' x + count_list (sent @ sent') x = buf_held s x + count_list acc x" for x
      using p(6)[rule_format, of x] q(4)[rule_format, of x] by (simp add: run(2) count_list_append)
    have items: "conn_items (conns s ! i) @ acc = (sent @ sent') @ conn_items (conns s' ! i)"
      using p(2) q(2) by (simp add: run(2)) (metis append.assoc)
    have drop: "dropped_full (stats s') + of_nat (length acc) = dropped_full (stats s) + of_nat (length (tx_sends (TxSend b # ops)))"
      using p(8) q(5) by (cases "st = NOS_OK") (simp_all add: run(2) new_def algebra_simps)
    have all: "acc = tx_sends (TxSend b # ops)" if "length (conn_items (conns s ! i)) + length (tx_sends (TxSend b # ops)) \<le> 901"
    proof -
      have "st = NOS_OK" using p(10) that by (simp add: TX_HIGH_WATERMARK_def)
      moreover from this have "length (conn_items (conns u ! i)) \<le> Suc (length (conn_items (conns s ! i)))"
        using arg_cong[OF p(2), of length] by (simp add: new_def)
      ultimately show ?thesis using q(6) that by (simp add: run(2) new_def)
    qed
    show ?thesis
      using q(1,3) p(3,4,9) held items drop all TxSend by (intro exI[of _ "sent @ sent'"]) auto
  qed
qed simp


section \<open>Receiving\<close>

lemma node_alloc_frame:
  assumes "node_alloc a s = Some (b, s')"
  shows "threads s' = threads s" "registry s' = registry s" "msgs s' = msgs s" "conns s' = conns s" "stats s' = stats s"
    "local_name s' = local_name s" "wire s' = wire s"
  using assms by (auto simp: node_alloc_def split: sum.splits)

lemma local_send_stats [simp]: "stats (snd (nos_transport_local_send b t s)) = stats s"
  by (auto simp: nos_transport_local_send_def Let_def split: option.splits)

lemma node_queue_upd [simp]:
  "node_queue (count_stat f s) = node_queue s" "node_queue_ok (count_stat f s) = node_queue_ok s"
  "node_queue (s\<lparr>msgs := ms\<rparr>) = node_queue s" "node_queue_ok (s\<lparr>msgs := ms\<rparr>) = node_queue_ok s"
  "node_queue (nos_buffer_release b s) = node_queue s" "node_queue_ok (nos_buffer_release b s) = node_queue_ok s"
  by (simp_all add: node_queue_def[abs_def] node_queue_ok_def[abs_def])

definition plain_msg :: "nos_service_msg \<Rightarrow> bool" where
  "plain_msg m \<longleftrightarrow> msg_magic m = NOS_IPC_MAGIC \<and> msg_code m \<noteq> NOS_IPC_MSG_HELLO \<and> msg_code m \<noteq> NOS_IPC_MSG_SHM_EVENT"

lemma recv_local:
  assumes m: "plain_msg m" "node_alloc (Inl (ucast (full_len m), 0)) s = Some (b, s1)"
    and route: "reg_route (registry s) (dst_service m) = Some (Local p (Some q))"
    and th: "node_queue_ok s q" "bufs_ok s"
  shows "\<exists>s'. nos_ipc_recv_handler fuel (Peek m) (Some m) fd conn r s = Returned s' \<and> msgs s' b = m \<and> bufs_ok s' \<and>
    node_queue_ok s' q \<and> rx_packets (stats s') = rx_packets (stats s) + 1 \<and>
    (if length (node_queue s q) = 1023 then node_queue s' q = node_queue s q \<and> buf_held s' = buf_held s
     else node_queue s' q = node_queue s q @ [b] \<and> buf_held s b = 0 \<and> buf_held s' = (buf_held s)(b := 1))"
proof -
  note f = node_alloc_frame[OF m(2)]
  note al = node_bufs.alloc_Some[OF th(2) m(2)]
  define u where "u = count_stat (\<lambda>st. st\<lparr>rx_packets := rx_packets st + 1, rx_bytes := rx_bytes st + full_len m\<rparr>) (s1\<lparr>msgs := (msgs s1)(b := m)\<rparr>)"
  obtain st s' where snd: "nos_transport_local_send b (Some q) u = (st, s')" by (metis prod.exhaust)
  have mu: "msgs u b = m" by (simp add: u_def)
  have "nos_service_msg_send nos_transport_remote_uds_send (Some b) u = (st, s')"
    using send_routes(3)[of u b p "Some q"] route f snd by (simp add: u_def)
  then have h: "nos_ipc_recv_handler fuel (Peek m) (Some m) fd conn r s = Returned (nos_buffer_release b s')"
    using m by (simp add: nos_ipc_recv_handler_def plain_msg_def u_def)
  obtain th' where t: "threads u q = Some th'" "queue_ok th'" using th(1) f by (auto simp: node_queue_ok_def u_def)
  have hu: "bufs_ok u" "buf_held u = (buf_held s)(b := 1)" using al by (simp_all add: u_def)
  have nq: "node_queue u q = node_queue s q" "node_queue_ok u q" using th(1) f by (simp_all add: u_def node_queue_def node_queue_ok_def)
  have rx: "rx_packets (stats u) = rx_packets (stats s) + 1" using f by (simp add: u_def)
  have len: "length (thread_msgs th') = length (node_queue s q)" using t(1) nq(1) by (simp add: node_queue_def)
  note spec = local_send_spec[OF snd t hu(1)]
  have ms: "msgs s' = msgs u" "stats s' = stats u" using send_msgs[of b "Some q" u] local_send_stats[of b "Some q" u] by (simp_all add: snd)
  show ?thesis
  proof (cases "length (node_queue s q) = 1023")
    case True
    then have su: "s' = u" using spec hu len by simp
    have "bufs_ok (nos_buffer_release b u)" "buf_held (nos_buffer_release b u) = (buf_held u)(b := buf_held u b - 1)"
      using node_bufs.release_held[OF hu(1), of b] hu(2) by simp_all
    moreover from this(2) have "buf_held (nos_buffer_release b u) = buf_held s" using hu(2) al by auto
    ultimately show ?thesis
      using True nq mu rx by (intro exI[of _ "nos_buffer_release b u"]) (simp only: h su release_frame refs_ipc_frame node_queue_upd if_True simp_thms)
  next
    case False
    then have s': "node_queue_ok s' q" "node_queue s' q = node_queue u q @ [b]" "bufs_ok s'"
      "buf_held s' = (buf_held u)(b := buf_held u b + 1)"
      using spec hu len by auto
    have hb: "0 < buf_held s' b" by (simp add: s'(4))
    have "bufs_ok (nos_buffer_release b s')" "buf_held (nos_buffer_release b s') = (buf_held s)(b := 1)"
      using node_bufs.release_held[OF s'(3) hb] s'(4) hu(2) by auto
    then show ?thesis
      using s' al False nq mu ms rx
      by (intro exI[of _ "nos_buffer_release b s'"]) (simp only: h release_frame refs_ipc_frame node_queue_upd if_False simp_thms)
  qed
qed

end
