(* ===== verification/NodeMgr.thy ===== *)
theory NodeMgr
  imports IpcProps EventLoop LogRing
begin

text \<open>
  The node manager (\<open>src/core/nos_node_mgr.c\<close>): loading the components a manifest assigns to the
  threads, building the routes of the services from it, and unloading and reloading a component
  of a running node.

  Shared libraries and the components in them are parameters: \<open>dl_open\<close> is \<open>dlopen\<close> (\<open>NULL\<close> when it
  fails), \<open>dl_export\<close> what \<open>dlsym\<close> finds in a library, which fills in the handlers of a component, and
  \<open>call_init\<close> and \<open>call_stop\<close> are calls of a component's handlers. \<open>comp_addrs\<close> gives the addresses \<open>calloc\<close>
  returns for the component objects.
\<close>

section \<open>Manifests\<close>

text \<open>The reserved status of a service is left out.\<close>

record nos_thread_def =
  td_name :: string
  td_comp_ids :: "u32 list"
  td_comp_names :: "string list"
  td_comp_models :: "string list"

record nos_service_def =
  sd_service_name :: string
  sd_service_id :: u32
  sd_node_name :: string
  sd_provider_comp_id :: u32
  sd_remote_uds_path :: "string option"

record nos_node_def =
  nd_name :: string
  nd_uds_path :: string
  nd_buffer_pools :: "nos_buffer_pool_def list"
  nd_threads :: "nos_thread_def list"
  nd_services :: "nos_service_def list"
  nd_busy_poll_cycles :: u32
  nd_platform_inits :: "ptr list"

definition MAX_WORKERS :: nat where "MAX_WORKERS = 8"

definition MAX_COMPONENTS_PER_NODE :: nat where "MAX_COMPONENTS_PER_NODE = 64"

section \<open>State\<close>

record loaded_comp_info =
  info_comp :: ptr
  info_handle :: ptr
  info_lib_name :: string
  info_owner :: thread_ref

text \<open>\<open>loaded_info\<close> with its count is a list: entries are appended and removed by shifting.\<close>

record mgr_node = ipc_node +
  node_def :: nos_node_def
  loaded_info :: "loaded_comp_info list"
  log_ctx :: nos_log_context
  comp_addrs :: "nat \<Rightarrow> ptr"
  addr_no :: nat

record 'z mgr_env =
  dl_open :: "string \<Rightarrow> ptr"
  dl_export :: "ptr \<Rightarrow> (nos_component \<Rightarrow> nos_status \<times> nos_component) option"
  call_init :: "ptr \<Rightarrow> ptr \<Rightarrow> 'z mgr_node_scheme \<Rightarrow> nos_status \<times> 'z mgr_node_scheme"
  call_stop :: "ptr \<Rightarrow> ptr \<Rightarrow> 'z mgr_node_scheme \<Rightarrow> 'z mgr_node_scheme"

section \<open>Loading\<close>

text \<open>The result is the component and the handle of its library.\<close>

definition node_load_component_internal ::
  "'z mgr_env \<Rightarrow> u32 \<Rightarrow> string \<Rightarrow> string \<Rightarrow> 'z mgr_node_scheme \<Rightarrow> (ptr \<times> ptr) option \<times> 'z mgr_node_scheme" where
  "node_load_component_internal env cid name lib_name s =
     (let handle = dl_open env (''./'' @ lib_name) in
      if handle = NULL then (None, s)
      else case dl_export env handle of
        None \<Rightarrow> (None, s)
      | Some export_func \<Rightarrow>
          (let p = comp_addrs s (addr_no s); s = s\<lparr>addr_no := addr_no s + 1\<rparr> in
           if p = NULL then (None, s)
           else
             (let (st, comp) = export_func \<lparr>comp_id = cid, comp_name = name, comp_status = NOS_COMP_ST_LOADED, comp_init = NULL,
                                            comp_start = NULL, comp_stop = NULL, comp_on_msg = NULL\<rparr> in
              if st \<noteq> NOS_OK then (None, s)
              else
                (let s = s\<lparr>comps := (comps s)(p \<mapsto> comp)\<rparr>;
                     (st, s) = (if comp_init comp \<noteq> NULL then call_init env (comp_init comp) p s else (NOS_OK, s))
                 in if st \<noteq> NOS_OK then (None, s\<lparr>comps := (comps s)(p := None)\<rparr>)
                    else
                      (let s = s\<lparr>comps := (comps s)(p := map_option (\<lambda>c. c\<lparr>comp_status := NOS_COMP_ST_INITED\<rparr>) (comps s p))\<rparr>;
                           s = s\<lparr>log_ctx := nos_log_set_comp_info cid (Some name) (log_ctx s)\<rparr>
                       in (Some (p, handle), s))))))"

definition has_comp_id :: "'z node_scheme \<Rightarrow> u32 \<Rightarrow> ptr \<Rightarrow> bool" where
  "has_comp_id s cid p \<longleftrightarrow> (case comps s p of None \<Rightarrow> False | Some c \<Rightarrow> comp_id c = cid)"

definition node_get_loaded_comp_by_id :: "u32 \<Rightarrow> 'z mgr_node_scheme \<Rightarrow> ptr" where
  "node_get_loaded_comp_by_id cid s =
     (case find_slot (\<lambda>i. has_comp_id s cid (info_comp i)) (length (loaded_info s)) (loaded_info s) of
        None \<Rightarrow> NULL
      | Some k \<Rightarrow> info_comp (loaded_info s ! k))"

definition register_on :: "thread_ref \<Rightarrow> ptr \<Rightarrow> 'z mgr_node_scheme \<Rightarrow> 'z mgr_node_scheme" where
  "register_on r p s = s\<lparr>threads := (threads s)(r := snd (nos_scheduler_register_component (threads s r) p))\<rparr>"

text \<open>One component of a thread's list; it is registered even when the table of loaded components is full.\<close>

definition init_component :: "'z mgr_env \<Rightarrow> thread_ref \<Rightarrow> u32 \<times> string \<times> string \<Rightarrow> 'z mgr_node_scheme \<Rightarrow> 'z mgr_node_scheme" where
  "init_component env r x s =
     (let (cid, name, model) = x; (res, s) = node_load_component_internal env cid name model s in
      case res of
        None \<Rightarrow> s
      | Some (p, handle) \<Rightarrow>
          (let s = (if length (loaded_info s) < MAX_COMPONENTS_PER_NODE
                    then s\<lparr>loaded_info := loaded_info s @ [\<lparr>info_comp = p, info_handle = handle, info_lib_name = model, info_owner = r\<rparr>]\<rparr>
                    else s)
           in register_on r p s))"

text \<open>
  The components of a thread are those before the first id 0. When all 16 entries are in use the
  code reads past the array; the model stops there.
\<close>

definition thread_entries :: "nos_thread_def \<Rightarrow> (u32 \<times> string \<times> string) list" where
  "thread_entries t = takeWhile (\<lambda>(i, _). i \<noteq> 0) (zip (td_comp_ids t) (zip (td_comp_names t) (td_comp_models t)))"

definition zero_thread :: nos_thread where
  "zero_thread = \<lparr>thread_id = 0, thread_name = [], epoll_set = Map.empty, notify_fd = 0, notify_count = 0,
     notify_entry = zero_fd_entry, stop_requested = False, is_sleeping = False, msg_queue = [], head = 0, tail = 0,
     components = [], component_count = 0, fd_entries = [], fd_count = 0,
     timer_heap = \<lparr>heap_nodes = [], heap_size = 0, heap_capacity = 0\<rparr>\<rparr>"

text \<open>\<open>efd\<close> gives what \<open>eventfd\<close> returns for a thread.\<close>

definition init_worker :: "'z mgr_env \<Rightarrow> (thread_ref \<Rightarrow> int) \<Rightarrow> nat \<Rightarrow> nos_thread_def \<Rightarrow> 'z mgr_node_scheme \<Rightarrow> 'z mgr_node_scheme" where
  "init_worker env efd i t s =
     (let th = snd (nos_scheduler_init_thread (thread_ptr (Worker i)) zero_thread i (td_name t) (efd (Worker i)));
          s = s\<lparr>threads := (threads s)(Worker i \<mapsto> th)\<rparr>;
          s = foldl (\<lambda>s x. init_component env (Worker i) x s) s (thread_entries t)
      in s\<lparr>worker_count := worker_count s + 1\<rparr>)"

fun init_workers_from ::
  "'z mgr_env \<Rightarrow> (thread_ref \<Rightarrow> int) \<Rightarrow> nat \<Rightarrow> nos_thread_def list \<Rightarrow> 'z mgr_node_scheme \<Rightarrow> 'z mgr_node_scheme" where
  "init_workers_from env efd i [] s = s"
| "init_workers_from env efd i (t # ts) s =
     (if i < MAX_WORKERS then init_workers_from env efd (Suc i) ts (init_worker env efd i t s) else s)"

text \<open>The array of threads is allocated zeroed.\<close>

definition node_init_workers :: "'z mgr_env \<Rightarrow> (thread_ref \<Rightarrow> int) \<Rightarrow> nos_node_def \<Rightarrow> 'z mgr_node_scheme \<Rightarrow> 'z mgr_node_scheme" where
  "node_init_workers env efd nd s =
     init_workers_from env efd 0 (nd_threads nd)
       (s\<lparr>threads := (\<lambda>r. case r of Mgmt \<Rightarrow> threads s Mgmt | Worker i \<Rightarrow> if i < MAX_WORKERS then Some zero_thread else None),
          worker_count := 0\<rparr>)"

definition node_init_mgmt ::
  "(thread_ref \<Rightarrow> int) \<Rightarrow> int \<Rightarrow> bool \<Rightarrow> bool \<Rightarrow> 'z mgr_node_scheme \<Rightarrow> 'z mgr_node_scheme" where
  "node_init_mgmt efd listen_fd bind_ok listen_ok s =
     (let th = snd (nos_scheduler_init_thread (thread_ptr Mgmt) zero_thread 999 ''Mgmt-Master'' (efd Mgmt));
          s = s\<lparr>threads := (threads s)(Mgmt \<mapsto> th)\<rparr>
      in snd (nos_ipc_init listen_fd bind_ok listen_ok Mgmt s))"

section \<open>Routing\<close>

text \<open>The first worker that has a component with this id.\<close>

fun find_owner_from :: "'z node_scheme \<Rightarrow> u32 \<Rightarrow> nat \<Rightarrow> nat \<Rightarrow> thread_ref option" where
  "find_owner_from s cid k 0 = None"
| "find_owner_from s cid k (Suc n) =
     (case threads s (Worker k) of
        Some th \<Rightarrow> if list_ex (has_comp_id s cid) (thread_comps th) then Some (Worker k) else find_owner_from s cid (Suc k) n
      | None \<Rightarrow> find_owner_from s cid (Suc k) n)"

definition route_service :: "string \<Rightarrow> nos_service_def \<Rightarrow> 'z mgr_node_scheme \<Rightarrow> 'z mgr_node_scheme" where
  "route_service current_node_name svc s =
     (if sd_node_name svc = current_node_name then
        (let provider = node_get_loaded_comp_by_id (sd_provider_comp_id svc) s;
             owner_worker = find_owner_from s (sd_provider_comp_id svc) 0 (worker_count s)
         in if provider \<noteq> NULL \<and> owner_worker \<noteq> None
            then s\<lparr>registry := snd (nos_service_register_provider_bind (sd_service_id svc) provider owner_worker (registry s))\<rparr>
            else s)
      else
        (case sd_remote_uds_path svc of
           None \<Rightarrow> s
         | Some path \<Rightarrow>
             if path = [] then s
             else s\<lparr>registry := snd (nos_service_register_remote_ex (sd_service_id svc) (Some (sd_node_name svc)) (Some path) (registry s))\<rparr>))"

definition node_setup_routing :: "string \<Rightarrow> 'z mgr_node_scheme \<Rightarrow> 'z mgr_node_scheme" where
  "node_setup_routing current_node_name s = foldl (\<lambda>s svc. route_service current_node_name svc s) s (nd_services (node_def s))"

section \<open>Unloading and reloading\<close>

definition find_loaded :: "string \<Rightarrow> 'z mgr_node_scheme \<Rightarrow> nat option" where
  "find_loaded name s =
     find_slot (\<lambda>i. case comps s (info_comp i) of None \<Rightarrow> False | Some c \<Rightarrow> comp_name c = name) (length (loaded_info s)) (loaded_info s)"

definition unregister_on :: "thread_ref \<Rightarrow> ptr \<Rightarrow> 'z mgr_node_scheme \<Rightarrow> 'z mgr_node_scheme" where
  "unregister_on r p s = s\<lparr>threads := (threads s)(r := snd (nos_scheduler_unregister_component (threads s r) p))\<rparr>"

definition unroute_component :: "u32 \<Rightarrow> 'z mgr_node_scheme \<Rightarrow> 'z mgr_node_scheme" where
  "unroute_component cid s =
     s\<lparr>registry := foldl (\<lambda>reg svc. if sd_provider_comp_id svc = cid then snd (nos_service_unregister_provider (sd_service_id svc) reg) else reg)
         (registry s) (nd_services (node_def s))\<rparr>"

definition node_unload_component :: "'z mgr_env \<Rightarrow> string \<Rightarrow> 'z mgr_node_scheme \<Rightarrow> nos_status \<times> 'z mgr_node_scheme" where
  "node_unload_component env name s =
     (case find_loaded name s of
        None \<Rightarrow> (NOS_ERR, s)
      | Some k \<Rightarrow>
          (let info = loaded_info s ! k; p = info_comp info in
           case comps s p of
             None \<Rightarrow> (NOS_ERR, s)
           | Some c \<Rightarrow>
               (let s = unregister_on (info_owner info) p s;
                    s = unroute_component (comp_id c) s;
                    s = (if comp_stop c \<noteq> NULL then call_stop env (comp_stop c) p s else s);
                    s = s\<lparr>comps := (comps s)(p := None)\<rparr>
                in (NOS_OK, s\<lparr>loaded_info := take k (loaded_info s) @ drop (Suc k) (loaded_info s)\<rparr>))))"

definition rebind_services :: "u32 \<Rightarrow> ptr \<Rightarrow> thread_ref \<Rightarrow> 'z mgr_node_scheme \<Rightarrow> 'z mgr_node_scheme" where
  "rebind_services cid p r s =
     s\<lparr>registry := foldl (\<lambda>reg svc. if sd_provider_comp_id svc = cid \<and> sd_node_name svc = nd_name (node_def s)
           then snd (nos_service_register_provider_bind (sd_service_id svc) p (Some r) reg) else reg)
         (registry s) (nd_services (node_def s))\<rparr>"

definition node_reload_component :: "'z mgr_env \<Rightarrow> string \<Rightarrow> 'z mgr_node_scheme \<Rightarrow> nos_status \<times> 'z mgr_node_scheme" where
  "node_reload_component env name s =
     (case find_loaded name s of
        None \<Rightarrow> (NOS_ERR, s)
      | Some k \<Rightarrow>
          (let info = loaded_info s ! k; r = info_owner info; lib_name = info_lib_name info in
           case comps s (info_comp info) of
             None \<Rightarrow> (NOS_ERR, s)
           | Some c \<Rightarrow>
               (let cid = comp_id c;
                    s = snd (node_unload_component env name s);
                    (res, s) = node_load_component_internal env cid name lib_name s
                in case res of
                     None \<Rightarrow> (NOS_ERR, s)
                   | Some (p, handle) \<Rightarrow>
                       if length (loaded_info s) < MAX_COMPONENTS_PER_NODE then
                         (let s = s\<lparr>loaded_info := loaded_info s @
                                    [\<lparr>info_comp = p, info_handle = handle, info_lib_name = lib_name, info_owner = r\<rparr>]\<rparr>;
                              s = register_on r p s
                          in (NOS_OK, rebind_services cid p r s))
                       else (NOS_OK, s))))"

section \<open>Starting a node\<close>

text \<open>The part of \<open>main\<close> that builds the node from its manifest.\<close>

definition node_start ::
  "'z mgr_env \<Rightarrow> (thread_ref \<Rightarrow> int) \<Rightarrow> int \<Rightarrow> bool \<Rightarrow> bool \<Rightarrow> nos_node_def \<Rightarrow> 'z mgr_node_scheme \<Rightarrow> 'z mgr_node_scheme" where
  "node_start env efd listen_fd bind_ok listen_ok nd s =
     (let s = node_init_mgmt efd listen_fd bind_ok listen_ok s;
          s = node_init_workers env efd nd s
      in node_setup_routing (nd_name nd) s)"

end
