(* ===== verification/NodeMgrProps.thy ===== *)
theory NodeMgrProps
  imports NodeMgr
begin

text \<open>
  The consistency of the node manager's structures (\<open>mgr_ok\<close>): the table of loaded components, the
  component tables of the threads and the local routes of the service registry refer to live
  components only. Starting a node establishes it; unloading and reloading keep it.
\<close>

section \<open>What the manager's structures say\<close>

definition comp_tables :: "'z tnode_scheme \<Rightarrow> thread_ref \<Rightarrow> (ptr list \<times> nat) option" where
  "comp_tables s r = map_option (\<lambda>th. (components th, component_count th)) (threads s r)"

definition comp_list :: "'z tnode_scheme \<Rightarrow> thread_ref \<Rightarrow> ptr list" where
  "comp_list s r = (case comp_tables s r of None \<Rightarrow> [] | Some (cs, n) \<Rightarrow> take n cs)"

definition table_ok :: "'z tnode_scheme \<Rightarrow> thread_ref \<Rightarrow> bool" where
  "table_ok s r \<longleftrightarrow> (case comp_tables s r of None \<Rightarrow> False
     | Some (cs, n) \<Rightarrow> length cs = MAX_COMP_PER_THREAD \<and> n \<le> MAX_COMP_PER_THREAD)"

lemma comp_list_thread: "threads s r = Some th \<Longrightarrow> comp_list s r = thread_comps th \<and> table_ok s r = comps_ok th"
  by (simp add: comp_list_def table_ok_def comp_tables_def thread_comps_def comps_ok_def)

text \<open>All that the node manager reads of a node.\<close>

definition mgr_view :: "'z mgr_node_scheme \<Rightarrow> _" where
  "mgr_view s = (comp_tables s, registry s, comps s, loaded_info s, node_def s, comp_addrs s, addr_no s)"

text \<open>Where a service of this id may be routed to: a loaded component which the manifest names as its provider.\<close>

definition route_ok :: "'z mgr_node_scheme \<Rightarrow> u32 \<Rightarrow> ptr \<Rightarrow> bool" where
  "route_ok s sid p \<longleftrightarrow> (\<exists>i \<in> set (loaded_info s). info_comp i = p) \<and>
     (\<exists>svc \<in> set (nd_services (node_def s)). sd_service_id svc = sid \<and> has_comp_id s (sd_provider_comp_id svc) p)"

definition loaded_ok :: "'z mgr_node_scheme \<Rightarrow> bool" where
  "loaded_ok s \<longleftrightarrow> distinct (map info_comp (loaded_info s)) \<and> length (loaded_info s) \<le> MAX_COMPONENTS_PER_NODE \<and>
     (\<forall>i \<in> set (loaded_info s). info_comp i \<noteq> NULL \<and> comps s (info_comp i) \<noteq> None \<and> table_ok s (info_owner i))"

definition tables_ok :: "'z mgr_node_scheme \<Rightarrow> bool" where
  "tables_ok s \<longleftrightarrow> (\<forall>r. distinct (comp_list s r) \<and>
     (\<forall>p \<in> set (comp_list s r). \<exists>i \<in> set (loaded_info s). info_comp i = p \<and> info_owner i = r))"

definition routes_ok :: "'z mgr_node_scheme \<Rightarrow> bool" where
  "routes_ok s \<longleftrightarrow> reg_ok (registry s) \<and> length (nd_services (node_def s)) \<le> MAX_SERVICES \<and>
     dom (reg_route (registry s)) \<subseteq> sd_service_id ` set (nd_services (node_def s)) \<and>
     (\<forall>sid p t. reg_route (registry s) sid = Some (Local p t) \<longrightarrow> route_ok s sid p)"

definition mgr_ok :: "'z mgr_node_scheme \<Rightarrow> bool" where
  "mgr_ok s \<longleftrightarrow> loaded_ok s \<and> tables_ok s \<and> routes_ok s"

lemma mgr_view_cong:
  assumes "mgr_view s' = mgr_view s"
  shows "comp_tables s' = comp_tables s" "registry s' = registry s" "comps s' = comps s" "loaded_info s' = loaded_info s"
    "node_def s' = node_def s" "comp_addrs s' = comp_addrs s" "addr_no s' = addr_no s"
    "comp_list s' = comp_list s" "table_ok s' = table_ok s" "has_comp_id s' = has_comp_id s"
  using assms by (simp_all add: mgr_view_def comp_list_def[abs_def] table_ok_def[abs_def] has_comp_id_def[abs_def])

section \<open>The steps of unloading\<close>

lemma unregister_on_simps [simp]:
  "registry (unregister_on r p s) = registry s" "comps (unregister_on r p s) = comps s"
  "loaded_info (unregister_on r p s) = loaded_info s" "node_def (unregister_on r p s) = node_def s"
  "comp_addrs (unregister_on r p s) = comp_addrs s" "addr_no (unregister_on r p s) = addr_no s"
  by (simp_all add: unregister_on_def)

lemma unregister_on_tables:
  assumes "table_ok s r" "p \<noteq> NULL"
  shows "table_ok (unregister_on r p s) q = table_ok s q"
    "mset (comp_list (unregister_on r p s) q) = (if q = r then mset (comp_list s q) - {#p#} else mset (comp_list s q))"
proof -
  obtain th where th: "threads s r = Some th" "comps_ok th"
    using assms(1) by (auto simp: table_ok_def comp_tables_def comps_ok_def split: option.splits)
  obtain t where t: "snd (nos_scheduler_unregister_component (Some th) p) = Some t" "comps_ok t"
    "mset (thread_comps t) = mset (thread_comps th) - {#p#}"
    using unregister_comps[OF th(2) assms(2)] th(2) by (cases "p \<in> set (thread_comps th)") (auto simp: diff_single_trivial)
  have u: "threads (unregister_on r p s) = (threads s)(r \<mapsto> t)" using th t by (simp add: unregister_on_def)
  show "table_ok (unregister_on r p s) q = table_ok s q"
    "mset (comp_list (unregister_on r p s) q) = (if q = r then mset (comp_list s q) - {#p#} else mset (comp_list s q))"
    using comp_list_thread[of "unregister_on r p s" r t] comp_list_thread[OF th(1)] th t u
    by (auto simp: table_ok_def comp_list_def comp_tables_def)
qed

definition provided_sids :: "u32 \<Rightarrow> nos_service_def list \<Rightarrow> u32 set" where
  "provided_sids cid svcs = {sd_service_id svc | svc. svc \<in> set svcs \<and> sd_provider_comp_id svc = cid}"

lemma unroute_routes:
  "reg_ok reg \<Longrightarrow> reg_ok (foldl (\<lambda>reg svc. if sd_provider_comp_id svc = cid then snd (nos_service_unregister_provider (sd_service_id svc) reg) else reg) reg svcs) \<and>
     reg_route (foldl (\<lambda>reg svc. if sd_provider_comp_id svc = cid then snd (nos_service_unregister_provider (sd_service_id svc) reg) else reg) reg svcs) =
       (\<lambda>sid. if sid \<in> provided_sids cid svcs then None else reg_route reg sid)"
proof (induction svcs arbitrary: reg)
  case (Cons svc svcs)
  let ?r = "if sd_provider_comp_id svc = cid then snd (nos_service_unregister_provider (sd_service_id svc) reg) else reg"
  have r: "reg_ok ?r" "reg_route ?r = (if sd_provider_comp_id svc = cid then (reg_route reg)(sd_service_id svc := None) else reg_route reg)"
    using unregister_route[OF Cons.prems] Cons.prems by auto
  have "provided_sids cid (svc # svcs) = (if sd_provider_comp_id svc = cid then {sd_service_id svc} else {}) \<union> provided_sids cid svcs"
    by (auto simp: provided_sids_def)
  then show ?case using Cons.IH[OF r(1)] r(2) by (auto simp: fun_eq_iff)
qed (simp add: provided_sids_def)

lemma unroute_component_simps [simp]:
  "threads (unroute_component cid s) = threads s" "comps (unroute_component cid s) = comps s"
  "loaded_info (unroute_component cid s) = loaded_info s" "node_def (unroute_component cid s) = node_def s"
  "comp_addrs (unroute_component cid s) = comp_addrs s" "addr_no (unroute_component cid s) = addr_no s"
  by (simp_all add: unroute_component_def)

lemma set_remove_at:
  assumes "distinct (map f xs)" "k < length xs"
  shows "set (take k xs @ drop (Suc k) xs) = {x \<in> set xs. f x \<noteq> f (xs ! k)}" "distinct (map f (take k xs @ drop (Suc k) xs))"
proof -
  have x: "xs = take k xs @ xs ! k # drop (Suc k) xs" using assms(2) by (simp add: id_take_nth_drop)
  have d: "distinct (map f (take k xs @ xs ! k # drop (Suc k) xs))" using assms(1) x by metis
  then show "distinct (map f (take k xs @ drop (Suc k) xs))" by auto
  have "set xs = set (take k xs @ xs ! k # drop (Suc k) xs)" using x by metis
  then show "set (take k xs @ drop (Suc k) xs) = {x \<in> set xs. f x \<noteq> f (xs ! k)}" using d by (auto simp: rev_image_eqI)
qed

lemma find_loaded_Some:
  assumes "find_loaded name s = Some k"
  obtains c where "k < length (loaded_info s)" "comps s (info_comp (loaded_info s ! k)) = Some c" "comp_name c = name"
  using find_slot_Some[OF assms[unfolded find_loaded_def]] by (auto split: option.splits)

text \<open>What unloading leaves.\<close>

lemma unload_spec:
  assumes ok: "mgr_ok s" and k: "find_loaded name s = Some k" "i = loaded_info s ! k" "comps s (info_comp i) = Some c"
    and stop: "\<And>f p s. mgr_view (call_stop env f p s) = mgr_view s"
  shows "\<exists>s'. node_unload_component env name s = (NOS_OK, s') \<and>
    set (loaded_info s') = {j \<in> set (loaded_info s). info_comp j \<noteq> info_comp i} \<and> distinct (map info_comp (loaded_info s')) \<and>
    length (loaded_info s') = length (loaded_info s) - 1 \<and>
    comps s' = (comps s)(info_comp i := None) \<and> node_def s' = node_def s \<and>
    comp_addrs s' = comp_addrs s \<and> addr_no s' = addr_no s \<and> table_ok s' = table_ok s \<and>
    (\<forall>r. mset (comp_list s' r) = (if r = info_owner i then mset (comp_list s r) - {#info_comp i#} else mset (comp_list s r))) \<and>
    reg_ok (registry s') \<and>
    reg_route (registry s') = (\<lambda>sid. if sid \<in> provided_sids (comp_id c) (nd_services (node_def s)) then None else reg_route (registry s) sid)"
proof -
  have kl: "k < length (loaded_info s)" using find_loaded_Some[OF k(1)] by blast
  have i: "i \<in> set (loaded_info s)" using kl k(2) by simp
  have l: "distinct (map info_comp (loaded_info s))" "info_comp i \<noteq> NULL" "table_ok s (info_owner i)"
    using ok i by (auto simp: mgr_ok_def loaded_ok_def)
  define s1 where "s1 = unregister_on (info_owner i) (info_comp i) s"
  define s2 where "s2 = unroute_component (comp_id c) s1"
  define s3 where "s3 = (if comp_stop c \<noteq> NULL then call_stop env (comp_stop c) (info_comp i) s2 else s2)"
  define s' where "s' = s3\<lparr>comps := (comps s3)(info_comp i := None), loaded_info := take k (loaded_info s3) @ drop (Suc k) (loaded_info s3)\<rparr>"
  have un: "node_unload_component env name s = (NOS_OK, s')"
    using k by (simp add: node_unload_component_def s1_def s2_def s3_def s'_def Let_def)
  have v: "mgr_view s3 = mgr_view s2" using stop by (simp add: s3_def)
  note c3 = mgr_view_cong[OF v]
  have s2: "comp_tables s2 = comp_tables s1" "comps s2 = comps s" "loaded_info s2 = loaded_info s" "node_def s2 = node_def s"
    "comp_addrs s2 = comp_addrs s" "addr_no s2 = addr_no s"
    by (simp_all add: s2_def s1_def comp_tables_def[abs_def])
  have "comp_tables s' = comp_tables s3" by (simp add: s'_def comp_tables_def[abs_def])
  then have "comp_tables s' = comp_tables s1" using c3(1) s2(1) by simp
  then have t: "comp_list s' = comp_list s1" "table_ok s' = table_ok s1"
    by (simp_all add: comp_list_def[abs_def] table_ok_def[abs_def])
  have t1: "table_ok s1 = table_ok s"
    "\<And>r. mset (comp_list s1 r) = (if r = info_owner i then mset (comp_list s r) - {#info_comp i#} else mset (comp_list s r))"
    using unregister_on_tables[OF l(3,2)] by (auto simp: s1_def)
  have ro: "reg_ok (registry s)" using ok by (simp add: mgr_ok_def routes_ok_def)
  have reg: "reg_ok (registry s')"
    "reg_route (registry s') = (\<lambda>sid. if sid \<in> provided_sids (comp_id c) (nd_services (node_def s)) then None else reg_route (registry s) sid)"
    using unroute_routes[OF ro, of "comp_id c" "nd_services (node_def s)"] c3(2) by (simp_all add: s'_def s2_def s1_def unroute_component_def)
  show ?thesis
    using un reg t t1 c3 s2 set_remove_at[OF l(1) kl] kl k(2)
    by (intro exI[of _ s'] conjI allI) (simp_all add: s'_def)
qed

lemma has_comp_id_upd:
  "q \<noteq> p \<Longrightarrow> has_comp_id (s\<lparr>comps := (comps s)(p := x)\<rparr>) cid q = has_comp_id s cid q"
  by (simp add: has_comp_id_def)

text \<open>After unloading nothing points to the component any more, and the structures are consistent.\<close>

lemma unload_ok:
  assumes ok: "mgr_ok s" and k: "find_loaded name s = Some k" "i = loaded_info s ! k" "comps s (info_comp i) = Some c"
    and stop: "\<And>f p s. mgr_view (call_stop env f p s) = mgr_view s"
    and s': "node_unload_component env name s = (st, s')"
  shows "mgr_ok s'" "\<And>r. info_comp i \<notin> set (comp_list s' r)" "\<And>sid t. reg_route (registry s') sid \<noteq> Some (Local (info_comp i) t)"
proof -
  note u = unload_spec[OF assms(1-5)]
  have sp: "set (loaded_info s') = {j \<in> set (loaded_info s). info_comp j \<noteq> info_comp i}" "distinct (map info_comp (loaded_info s'))"
    "length (loaded_info s') = length (loaded_info s) - 1" "comps s' = (comps s)(info_comp i := None)" "node_def s' = node_def s"
    "table_ok s' = table_ok s" "reg_ok (registry s')"
    "\<And>r. mset (comp_list s' r) = (if r = info_owner i then mset (comp_list s r) - {#info_comp i#} else mset (comp_list s r))"
    "reg_route (registry s') = (\<lambda>sid. if sid \<in> provided_sids (comp_id c) (nd_services (node_def s)) then None else reg_route (registry s) sid)"
    using u s' by auto
  have i: "i \<in> set (loaded_info s)" using find_loaded_Some[OF k(1)] k(2) by (metis nth_mem)
  have lo: "loaded_ok s" "tables_ok s" "routes_ok s" using ok by (simp_all add: mgr_ok_def)
  have inj: "j = i" if "j \<in> set (loaded_info s)" "info_comp j = info_comp i" for j
    using lo(1) i that by (auto simp: loaded_ok_def distinct_map inj_on_def)
  have sub: "set (comp_list s' r) \<subseteq> set (comp_list s r)" "distinct (comp_list s' r)" for r
  proof -
    have d: "distinct (comp_list s r)" using lo(2) by (simp add: tables_ok_def)
    have le: "mset (comp_list s' r) \<subseteq># mset (comp_list s r)" using sp(8)[of r] by auto
    then show "set (comp_list s' r) \<subseteq> set (comp_list s r)" by (metis set_mset_mset set_mset_mono)
    show "distinct (comp_list s' r)" using distinct_submultiset[OF d le] .
  qed
  show gone: "info_comp i \<notin> set (comp_list s' r)" for r
  proof
    assume a: "info_comp i \<in> set (comp_list s' r)"
    then have "info_comp i \<in> set (comp_list s r)" using sub(1) by blast
    then obtain j where "j \<in> set (loaded_info s)" "info_comp j = info_comp i" "info_owner j = r"
      using lo(2) unfolding tables_ok_def by blast
    then have r: "r = info_owner i" using inj by auto
    have "distinct (comp_list s r)" using lo(2) by (simp add: tables_ok_def)
    then have "count (mset (comp_list s r)) (info_comp i) \<le> 1" by (metis distinct_count_atmost_1 le_zero_eq less_one linorder_not_less nle_le)
    then have "count (mset (comp_list s' r)) (info_comp i) = 0" using sp(8)[of r] r by simp
    then show False using a by (simp add: count_mset_0_iff)
  qed
  have route: "route_ok s sid p \<and> p \<noteq> info_comp i" if "reg_route (registry s') sid = Some (Local p t)" for sid p t
  proof -
    have r: "reg_route (registry s) sid = Some (Local p t)" "sid \<notin> provided_sids (comp_id c) (nd_services (node_def s))"
      using that sp(9) by (auto split: if_splits)
    then have "route_ok s sid p" using lo(3) by (simp add: routes_ok_def)
    moreover have "p \<noteq> info_comp i"
    proof
      assume "p = info_comp i"
      then have "sid \<in> provided_sids (comp_id c) (nd_services (node_def s))"
        using \<open>route_ok s sid p\<close> k(3) by (auto simp: route_ok_def provided_sids_def has_comp_id_def)
      then show False using r(2) by simp
    qed
    ultimately show ?thesis by simp
  qed
  then show "reg_route (registry s') sid \<noteq> Some (Local (info_comp i) t)" for sid t by blast
  have "loaded_ok s'" using lo(1) sp(1-4,6) by (auto simp: loaded_ok_def)
  moreover have "tables_ok s'"
    unfolding tables_ok_def
  proof (intro allI conjI ballI)
    fix r show "distinct (comp_list s' r)" by (rule sub)
    fix p assume p: "p \<in> set (comp_list s' r)"
    then have "p \<in> set (comp_list s r)" using sub(1) by blast
    then obtain j where j: "j \<in> set (loaded_info s)" "info_comp j = p" "info_owner j = r"
      using lo(2) unfolding tables_ok_def by blast
    moreover have "p \<noteq> info_comp i" using p gone by auto
    ultimately show "\<exists>j \<in> set (loaded_info s'). info_comp j = p \<and> info_owner j = r" using sp(1) by auto
  qed
  moreover have "routes_ok s'"
    unfolding routes_ok_def
  proof (intro conjI allI impI)
    show "reg_ok (registry s')" by (rule sp)
    show "length (nd_services (node_def s')) \<le> MAX_SERVICES" using lo(3) by (simp add: routes_ok_def sp(5))
    show "dom (reg_route (registry s')) \<subseteq> sd_service_id ` set (nd_services (node_def s'))"
      using lo(3) by (auto simp: routes_ok_def sp(5,9) split: if_splits)
    fix sid p t assume r: "reg_route (registry s') sid = Some (Local p t)"
    then have o: "route_ok s sid p" "p \<noteq> info_comp i" using route by auto
    then have "has_comp_id s' x p = has_comp_id s x p" for x by (simp add: has_comp_id_def sp(4))
    then show "route_ok s' sid p" using o sp(1,5) by (auto simp: route_ok_def)
  qed
  ultimately show "mgr_ok s'" by (simp add: mgr_ok_def)
qed


section \<open>Loading\<close>

text \<open>
  What is relied on of the components: their handlers leave the manager's structures alone, and an export function
  does not change the id and name of the component it fills in.
\<close>

definition stop_quiet :: "'z mgr_env \<Rightarrow> bool" where
  "stop_quiet env \<longleftrightarrow> (\<forall>f p s. mgr_view (call_stop env f p s) = mgr_view s)"

definition load_quiet :: "'z mgr_env \<Rightarrow> bool" where
  "load_quiet env \<longleftrightarrow> (\<forall>f p s. mgr_view (snd (call_init env f p s)) = mgr_view s) \<and>
     (\<forall>h f c. dl_export env h = Some f \<longrightarrow> comp_id (snd (f c)) = comp_id c \<and> comp_name (snd (f c)) = comp_name c)"

text \<open>Address \<open>n\<close> is one that \<open>calloc\<close> may return: no live component has it.\<close>

definition fresh_addr :: "'z mgr_node_scheme \<Rightarrow> bool" where
  "fresh_addr s \<longleftrightarrow> comps s (comp_addrs s (addr_no s)) = None"

lemma load_spec:
  assumes q: "load_quiet env" and fresh: "fresh_addr s" and l: "node_load_component_internal env cid name lib_name s = (res, s')"
  shows "comp_tables s' = comp_tables s \<and> registry s' = registry s \<and> loaded_info s' = loaded_info s \<and> node_def s' = node_def s \<and>
    comp_addrs s' = comp_addrs s \<and> (case res of
       None \<Rightarrow> comps s' = comps s \<and> addr_no s' \<le> Suc (addr_no s) \<and> addr_no s \<le> addr_no s'
     | Some (p, h) \<Rightarrow> p = comp_addrs s (addr_no s) \<and> p \<noteq> NULL \<and> addr_no s' = Suc (addr_no s) \<and>
         (\<exists>c. comps s' = (comps s)(p \<mapsto> c) \<and> comp_id c = cid \<and> comp_name c = name \<and> comp_status c = NOS_COMP_ST_INITED))"
proof -
  define h where "h = dl_open env (''./'' @ lib_name)"
  define p where "p = comp_addrs s (addr_no s)"
  define u where "u = s\<lparr>addr_no := addr_no s + 1\<rparr>"
  define c0 where "c0 = \<lparr>comp_id = cid, comp_name = name, comp_status = NOS_COMP_ST_LOADED, comp_init = NULL,
      comp_start = NULL, comp_stop = NULL, comp_on_msg = NULL\<rparr>"
  have u: "comp_tables u = comp_tables s" "comps u = comps s" by (simp_all add: u_def comp_tables_def[abs_def])
  have e: "node_load_component_internal env cid name lib_name s =
      (if h = NULL then (None, s)
       else case dl_export env h of None \<Rightarrow> (None, s)
         | Some f \<Rightarrow> if p = NULL then (None, u)
             else case f c0 of (st, cm) \<Rightarrow>
               if st \<noteq> NOS_OK then (None, u)
               else case (if comp_init cm \<noteq> NULL then call_init env (comp_init cm) p (u\<lparr>comps := (comps u)(p \<mapsto> cm)\<rparr>)
                          else (NOS_OK, u\<lparr>comps := (comps u)(p \<mapsto> cm)\<rparr>)) of (st, w) \<Rightarrow>
                 if st \<noteq> NOS_OK then (None, w\<lparr>comps := (comps w)(p := None)\<rparr>)
                 else let w = w\<lparr>comps := (comps w)(p := map_option (\<lambda>c. c\<lparr>comp_status := NOS_COMP_ST_INITED\<rparr>) (comps w p))\<rparr>
                   in (Some (p, h), w\<lparr>log_ctx := nos_log_set_comp_info cid (Some name) (log_ctx w)\<rparr>))"
    unfolding node_load_component_internal_def Let_def u_def p_def c0_def h_def by (rule refl)
  consider "h = NULL \<or> dl_export env h = None" | f where "h \<noteq> NULL" "dl_export env h = Some f" by auto
  then show ?thesis
  proof cases
    case 1
    then have "res = None \<and> s' = s"
      using l[unfolded e] by (cases "h = NULL") simp_all
    then show ?thesis by simp
  next
    case 2
    obtain st comp where f: "f c0 = (st, comp)" by (cases "f c0")
    have "comp_id (snd (f c0)) = comp_id c0" "comp_name (snd (f c0)) = comp_name c0" using q 2(2) by (auto simp: load_quiet_def)
    then have c: "comp_id comp = cid" "comp_name comp = name" by (simp_all add: f) (simp_all add: c0_def)
    show ?thesis
    proof (cases "p = NULL \<or> st \<noteq> NOS_OK")
      case True
      then have "res = None \<and> s' = u"
        using l[unfolded e] 2 f by (cases "p = NULL") simp_all
      then show ?thesis using u by (simp add: u_def)
    next
      case False
      define v where "v = u\<lparr>comps := (comps u)(p \<mapsto> comp)\<rparr>"
      obtain st2 w where w: "(if comp_init comp \<noteq> NULL then call_init env (comp_init comp) p v else (NOS_OK, v)) = (st2, w)" by fastforce
      have "mgr_view w = mgr_view v"
        using q w by (auto simp: load_quiet_def split: if_splits) (metis snd_conv)
      note wv = mgr_view_cong[OF this]
      have v: "comp_tables v = comp_tables s" "comps v = (comps s)(p \<mapsto> comp)" using u by (simp_all add: v_def comp_tables_def[abs_def])
      have r: "(res, s') = (if st2 \<noteq> NOS_OK then (None, w\<lparr>comps := (comps w)(p := None)\<rparr>)
          else (Some (p, h), w\<lparr>comps := (comps w)(p := map_option (\<lambda>c. c\<lparr>comp_status := NOS_COMP_ST_INITED\<rparr>) (comps w p)),
             log_ctx := nos_log_set_comp_info cid (Some name) (log_ctx w)\<rparr>))"
        using l[unfolded e] 2 f False w[unfolded v_def] by (cases "st2 = NOS_OK") (auto simp: Let_def)
      have none: "(comps s)(p := None) = comps s" using fresh by (auto simp: fresh_addr_def p_def)
      show ?thesis
      proof (cases "st2 = NOS_OK")
        case True
        then show ?thesis
          using r wv v c False
          by (simp add: comp_tables_def[abs_def] p_def[symmetric] v_def u_def)
            (intro exI[of _ "comp\<lparr>comp_status := NOS_COMP_ST_INITED\<rparr>"], simp)
      next
        case nok: False
        then show ?thesis
          using r wv v none by (simp add: comp_tables_def[abs_def] v_def u_def)
      qed
    qed
  qed
qed

section \<open>Registering\<close>

lemma register_on_simps [simp]:
  "registry (register_on r p s) = registry s" "comps (register_on r p s) = comps s"
  "loaded_info (register_on r p s) = loaded_info s" "node_def (register_on r p s) = node_def s"
  "comp_addrs (register_on r p s) = comp_addrs s" "addr_no (register_on r p s) = addr_no s"
  by (simp_all add: register_on_def)

lemma register_on_tables:
  assumes "table_ok s r" "p \<noteq> NULL"
  shows "table_ok (register_on r p s) q = table_ok s q"
    "comp_list (register_on r p s) q =
       (if q = r \<and> length (comp_list s r) < MAX_COMP_PER_THREAD then comp_list s q @ [p] else comp_list s q)"
proof -
  obtain th where th: "threads s r = Some th" "comps_ok th"
    using assms(1) by (auto simp: table_ok_def comp_tables_def comps_ok_def split: option.splits)
  have len: "length (thread_comps th) \<le> MAX_COMP_PER_THREAD" using th(2) by (simp add: comps_ok_def thread_comps_def)
  obtain t where t: "snd (nos_scheduler_register_component (Some th) p) = Some t" "comps_ok t"
    "thread_comps t = (if length (thread_comps th) < MAX_COMP_PER_THREAD then thread_comps th @ [p] else thread_comps th)"
    using register_comps[OF th(2) assms(2)] th(2) len by (cases "length (thread_comps th) = MAX_COMP_PER_THREAD") auto
  have u: "threads (register_on r p s) = (threads s)(r \<mapsto> t)" using th t by (simp add: register_on_def)
  show "table_ok (register_on r p s) q = table_ok s q"
    "comp_list (register_on r p s) q =
       (if q = r \<and> length (comp_list s r) < MAX_COMP_PER_THREAD then comp_list s q @ [p] else comp_list s q)"
    using comp_list_thread[of "register_on r p s" r t] comp_list_thread[OF th(1)] th t u
    by (auto simp: table_ok_def comp_list_def comp_tables_def)
qed

text \<open>A loaded component that is entered into the manager's table and that of its thread.\<close>

definition enter :: "loaded_comp_info \<Rightarrow> 'z mgr_node_scheme \<Rightarrow> 'z mgr_node_scheme" where
  "enter i s = register_on (info_owner i) (info_comp i) (s\<lparr>loaded_info := loaded_info s @ [i]\<rparr>)"

lemma enter_simps [simp]:
  "registry (enter i s) = registry s" "comps (enter i s) = comps s" "loaded_info (enter i s) = loaded_info s @ [i]"
  "node_def (enter i s) = node_def s" "comp_addrs (enter i s) = comp_addrs s" "addr_no (enter i s) = addr_no s"
  by (simp_all add: enter_def)

lemma enter_tables:
  assumes "table_ok s (info_owner i)" "info_comp i \<noteq> NULL"
  shows "table_ok (enter i s) = table_ok s"
    "comp_list (enter i s) q =
       (if q = info_owner i \<and> length (comp_list s q) < MAX_COMP_PER_THREAD then comp_list s q @ [info_comp i] else comp_list s q)"
proof -
  let ?u = "s\<lparr>loaded_info := loaded_info s @ [i]\<rparr>"
  have u: "table_ok ?u = table_ok s" "comp_list ?u = comp_list s"
    by (simp_all add: table_ok_def[abs_def] comp_list_def[abs_def] comp_tables_def[abs_def])
  have t: "table_ok ?u (info_owner i)" using assms(1) u(1) by simp
  show "table_ok (enter i s) = table_ok s"
    using register_on_tables(1)[OF t assms(2)] u(1) by (auto simp: enter_def)
  show "comp_list (enter i s) q =
       (if q = info_owner i \<and> length (comp_list s q) < MAX_COMP_PER_THREAD then comp_list s q @ [info_comp i] else comp_list s q)"
    using register_on_tables(2)[OF t assms(2)] u(2) by (simp add: enter_def)
qed

lemma enter_ok:
  assumes "loaded_ok s" "tables_ok s" "length (loaded_info s) < MAX_COMPONENTS_PER_NODE"
    and "info_comp i \<noteq> NULL" "info_comp i \<notin> info_comp ` set (loaded_info s)" "comps s (info_comp i) \<noteq> None" "table_ok s (info_owner i)"
  shows "loaded_ok (enter i s)" "tables_ok (enter i s)"
proof -
  note t = enter_tables[OF assms(7,4)]
  show "loaded_ok (enter i s)" using assms t(1) by (auto simp: loaded_ok_def)
  have new: "info_comp i \<notin> set (comp_list s q)" for q using assms(2,5) unfolding tables_ok_def by (metis imageI)
  show "tables_ok (enter i s)"
    unfolding tables_ok_def t(2)
  proof (intro allI conjI ballI)
    fix r
    have d: "distinct (comp_list s r)" using assms(2) by (simp add: tables_ok_def)
    then show "distinct (if r = info_owner i \<and> length (comp_list s r) < MAX_COMP_PER_THREAD then comp_list s r @ [info_comp i] else comp_list s r)"
      using new[of r] by auto
    fix p assume "p \<in> set (if r = info_owner i \<and> length (comp_list s r) < MAX_COMP_PER_THREAD then comp_list s r @ [info_comp i] else comp_list s r)"
    then consider "p \<in> set (comp_list s r)" | "p = info_comp i" "r = info_owner i" by (auto split: if_splits)
    then show "\<exists>j \<in> set (loaded_info (enter i s)). info_comp j = p \<and> info_owner j = r"
    proof cases
      case 1
      then obtain j where "j \<in> set (loaded_info s)" "info_comp j = p" "info_owner j = r"
        using assms(2) unfolding tables_ok_def by blast
      then show ?thesis by auto
    qed auto
  qed
qed


section \<open>Starting the workers\<close>

lemma comp_tables_cong:
  assumes "comp_tables s' = comp_tables s"
  shows "comp_list s' = comp_list s" "table_ok s' = table_ok s"
  using assms by (simp_all add: comp_list_def[abs_def] table_ok_def[abs_def])

definition addrs_distinct :: "'z mgr_node_scheme \<Rightarrow> bool" where
  "addrs_distinct s \<longleftrightarrow> (\<forall>m n. comp_addrs s m = comp_addrs s n \<longrightarrow> comp_addrs s m \<noteq> NULL \<longrightarrow> m = n)"

definition boot_ok :: "'z mgr_node_scheme \<Rightarrow> bool" where
  "boot_ok s \<longleftrightarrow> loaded_ok s \<and> tables_ok s \<and> addrs_distinct s \<and>
     (\<forall>p. comps s p \<noteq> None \<longrightarrow> p \<noteq> NULL \<and> (\<exists>n < addr_no s. comp_addrs s n = p))"

lemma boot_fresh: "boot_ok s \<Longrightarrow> fresh_addr s"
  unfolding fresh_addr_def boot_ok_def addrs_distinct_def by (metis less_irrefl)

lemma init_component_ok:
  assumes "load_quiet env" "boot_ok s" "table_ok s r" "length (loaded_info s) < MAX_COMPONENTS_PER_NODE"
    and s': "s' = init_component env r x s"
  shows "boot_ok s' \<and> table_ok s' = table_ok s \<and> length (loaded_info s') \<le> Suc (length (loaded_info s)) \<and>
    registry s' = registry s \<and> node_def s' = node_def s"
proof -
  obtain cid name model where x: "x = (cid, name, model)" by (cases x)
  obtain res u where l: "node_load_component_internal env cid name model s = (res, u)" by fastforce
  note sp = load_spec[OF assms(1) boot_fresh[OF assms(2)] l]
  note ct = comp_tables_cong[of u s]
  have b: "loaded_ok s" "tables_ok s" "addrs_distinct s" "\<And>p. comps s p \<noteq> None \<Longrightarrow> p \<noteq> NULL \<and> (\<exists>n < addr_no s. comp_addrs s n = p)"
    using assms(2) by (auto simp: boot_ok_def)
  show ?thesis
  proof (cases res)
    case None
    then have "s' = u" using l by (simp add: s' init_component_def x Let_def)
    moreover have "boot_ok u"
    proof -
      have "\<exists>n < addr_no u. comp_addrs u n = p" if "comps u p \<noteq> None" for p
        using b(4)[of p] that sp None by (auto intro: less_le_trans)
      then show ?thesis using b sp ct None by (auto simp: boot_ok_def loaded_ok_def tables_ok_def addrs_distinct_def)
    qed
    ultimately show ?thesis using sp ct by simp
  next
    case (Some ph)
    then obtain p h where ph: "res = Some (p, h)" by (cases ph) auto
    then obtain c where sq: "comp_tables u = comp_tables s" "registry u = registry s" "loaded_info u = loaded_info s" "node_def u = node_def s"
      "comp_addrs u = comp_addrs s" "p = comp_addrs s (addr_no s)" "p \<noteq> NULL" "addr_no u = Suc (addr_no s)" "comps u = (comps s)(p \<mapsto> c)"
      using sp by auto
    have ct: "comp_list u = comp_list s" "table_ok u = table_ok s" using comp_tables_cong[OF sq(1)] .
    define i where "i = \<lparr>info_comp = p, info_handle = h, info_lib_name = model, info_owner = r\<rparr>"
    have e: "s' = enter i u" using l ph assms(4) sq(3) by (simp add: s' init_component_def x Let_def enter_def i_def)
    have lo: "loaded_ok u" "tables_ok u" using b(1,2) sq ct by (auto simp: loaded_ok_def tables_ok_def)
    have "comps s p = None" using boot_fresh[OF assms(2)] sq(6) by (simp add: fresh_addr_def)
    then have new: "p \<notin> info_comp ` set (loaded_info u)" using b(1) sq(3) by (auto simp: loaded_ok_def)
    have t: "table_ok u (info_owner i)" "info_comp i \<noteq> NULL" using assms(3) ct(2) sq(7) by (simp_all add: i_def)
    have "loaded_ok s'" "tables_ok s'"
      using enter_ok[OF lo _ t(2) _ _ t(1)] assms(4) sq(3,9) new by (simp_all add: e i_def)
    moreover have "q \<noteq> NULL \<and> (\<exists>n < addr_no s'. comp_addrs s' n = q)" if "comps s' q \<noteq> None" for q
    proof (cases "q = p")
      case True
      then show ?thesis using sq(5-8) by (intro conjI exI[of _ "addr_no s"]) (simp_all add: e)
    next
      case False
      then have "comps s q \<noteq> None" using that sq(9) by (simp add: e)
      then obtain n where "q \<noteq> NULL" "n < addr_no s" "comp_addrs s n = q" using b(4) by blast
      then show ?thesis using sq(5,8) by (intro conjI exI[of _ n]) (simp_all add: e)
    qed
    moreover have "addrs_distinct s'" using b(3) sq(5) by (simp add: addrs_distinct_def e)
    ultimately have "boot_ok s'" by (simp add: boot_ok_def)
    then show ?thesis using enter_tables(1)[OF t] ct sq by (simp add: e)
  qed
qed

lemma init_components_ok:
  assumes "load_quiet env" "boot_ok s" "table_ok s r" "length (loaded_info s) + length xs \<le> MAX_COMPONENTS_PER_NODE"
    and "s' = foldl (\<lambda>s x. init_component env r x s) s xs"
  shows "boot_ok s' \<and> table_ok s' = table_ok s \<and> length (loaded_info s') \<le> length (loaded_info s) + length xs \<and>
    registry s' = registry s \<and> node_def s' = node_def s"
  using assms(2-5)
proof (induction xs arbitrary: s)
  case (Cons x xs)
  have len: "length (loaded_info s) < MAX_COMPONENTS_PER_NODE" using Cons.prems(3) by simp
  note i = init_component_ok[OF assms(1) Cons.prems(1,2) len refl, of x]
  show ?case using Cons.IH[of "init_component env r x s"] i Cons.prems by auto
qed simp

lemma init_thread_table:
  "table_ok (s\<lparr>threads := (threads s)(r \<mapsto> snd (nos_scheduler_init_thread self th i name efd))\<rparr>) q = (q = r \<or> table_ok s q)"
  "comp_list (s\<lparr>threads := (threads s)(r \<mapsto> snd (nos_scheduler_init_thread self th i name efd))\<rparr>) q = (if q = r then [] else comp_list s q)"
  by (auto simp: table_ok_def comp_list_def comp_tables_def nos_scheduler_init_thread_def Let_def)

lemma init_worker_ok:
  assumes "load_quiet env" "boot_ok s"
    and "length (loaded_info s) + length (thread_entries t) \<le> MAX_COMPONENTS_PER_NODE"
    and s': "s' = init_worker env efd k t s"
  shows "boot_ok s' \<and> length (loaded_info s') \<le> length (loaded_info s) + length (thread_entries t) \<and>
    registry s' = registry s \<and> node_def s' = node_def s"
proof -
  define u where "u = s\<lparr>threads := (threads s)(Worker k \<mapsto> snd (nos_scheduler_init_thread (thread_ptr (Worker k)) zero_thread k (td_name t) (efd (Worker k))))\<rparr>"
  define v where "v = foldl (\<lambda>s x. init_component env (Worker k) x s) u (thread_entries t)"
  have sv: "s' = v\<lparr>worker_count := worker_count v + 1\<rparr>" by (simp add: s' init_worker_def u_def v_def Let_def)
  note t = init_thread_table[of s "Worker k" "thread_ptr (Worker k)" zero_thread k "td_name t" "efd (Worker k)", folded u_def]
  have u: "loaded_info u = loaded_info s" "comps u = comps s" "comp_addrs u = comp_addrs s" "addr_no u = addr_no s"
    "registry u = registry s" "node_def u = node_def s" by (simp_all add: u_def)
  have "boot_ok u"
    using assms(2) by (auto simp: boot_ok_def loaded_ok_def tables_ok_def addrs_distinct_def u t)
  then have v: "boot_ok v \<and> table_ok v = table_ok u \<and> length (loaded_info v) \<le> length (loaded_info u) + length (thread_entries t) \<and>
      registry v = registry u \<and> node_def v = node_def u"
    using assms(3) t(1) u(1) by (intro init_components_ok[OF assms(1) _ _ _ v_def]) simp_all
  have "comp_tables s' = comp_tables v" by (simp add: sv comp_tables_def[abs_def])
  then have "comp_list s' = comp_list v" "table_ok s' = table_ok v" using comp_tables_cong by blast+
  then have "boot_ok s'"
    using v by (auto simp: boot_ok_def loaded_ok_def tables_ok_def addrs_distinct_def sv)
  then show ?thesis using v u by (simp add: sv)
qed

lemma init_workers_ok:
  assumes "load_quiet env" "boot_ok s" "length (loaded_info s) + length (concat (map thread_entries ts)) \<le> MAX_COMPONENTS_PER_NODE"
    and "s' = init_workers_from env efd k ts s"
  shows "boot_ok s' \<and> registry s' = registry s \<and> node_def s' = node_def s"
  using assms(2-)
proof (induction ts arbitrary: s k)
  case (Cons t ts)
  have len: "length (loaded_info s) + length (thread_entries t) \<le> MAX_COMPONENTS_PER_NODE" using Cons.prems(2) by simp
  note w = init_worker_ok[OF assms(1) Cons.prems(1) len refl, of efd k]
  show ?case
    using Cons.IH[of "init_worker env efd k t s" "Suc k"] Cons.prems w by (cases "k < MAX_WORKERS") auto
qed simp

section \<open>Routing\<close>

text \<open>Where the manifest sends a service, given what is loaded.\<close>

definition svc_target :: "'z mgr_node_scheme \<Rightarrow> string \<Rightarrow> nos_service_def \<Rightarrow> route option" where
  "svc_target s cur svc =
     (if sd_node_name svc = cur then
        (let p = node_get_loaded_comp_by_id (sd_provider_comp_id svc) s;
             t = find_owner_from s (sd_provider_comp_id svc) 0 (worker_count s)
         in if p \<noteq> NULL \<and> t \<noteq> None then Some (Local p t) else None)
      else (case sd_remote_uds_path svc of
              None \<Rightarrow> None
            | Some u \<Rightarrow> if u = [] then None else Some (Remote (sd_node_name svc) u)))"

definition reg_add :: "u32 \<Rightarrow> route option \<Rightarrow> service_registry \<Rightarrow> service_registry" where
  "reg_add sid x reg =
     (case x of
        None \<Rightarrow> reg
      | Some (Local p t) \<Rightarrow> snd (nos_service_register_provider_bind sid p t reg)
      | Some (Remote n u) \<Rightarrow> snd (nos_service_register_remote_ex sid (Some n) (Some u) reg))"

lemma route_service_add:
  "route_service cur svc s = s\<lparr>registry := reg_add (sd_service_id svc) (svc_target s cur svc) (registry s)\<rparr>"
  by (auto simp: route_service_def svc_target_def reg_add_def Let_def split: option.splits)

lemma has_comp_id_registry [simp]: "has_comp_id (s\<lparr>registry := reg\<rparr>) = has_comp_id s"
  by (simp add: has_comp_id_def[abs_def])

lemma find_owner_registry [simp]: "find_owner_from (s\<lparr>registry := reg\<rparr>) cid k n = find_owner_from s cid k n"
  by (induction n arbitrary: k) (auto split: option.splits)

lemma loaded_comp_registry [simp]: "node_get_loaded_comp_by_id cid (s\<lparr>registry := reg\<rparr>) = node_get_loaded_comp_by_id cid s"
  by (simp add: node_get_loaded_comp_by_id_def split: option.split)

lemma svc_target_registry [simp]: "svc_target (s\<lparr>registry := reg\<rparr>) cur svc = svc_target s cur svc"
  by (simp add: svc_target_def)

lemma setup_routing_registry:
  "node_setup_routing cur s =
     s\<lparr>registry := foldl (\<lambda>reg svc. reg_add (sd_service_id svc) (svc_target s cur svc) reg) (registry s) (nd_services (node_def s))\<rparr>"
proof -
  have "foldl (\<lambda>s svc. route_service cur svc s) (s\<lparr>registry := reg\<rparr>) svcs =
      s\<lparr>registry := foldl (\<lambda>reg svc. reg_add (sd_service_id svc) (svc_target s cur svc) reg) reg svcs\<rparr>" for reg svcs
    by (induction svcs arbitrary: reg) (simp_all add: route_service_add)
  from this[of "registry s"] show ?thesis by (simp add: node_setup_routing_def)
qed

text \<open>Adding routes for distinct services to a registry with room for them.\<close>

lemma reg_add_route:
  assumes "reg_ok reg" "card (dom (reg_route reg)) < MAX_SERVICES"
  shows "reg_ok (reg_add sid x reg) \<and>
    reg_route (reg_add sid x reg) = (case x of None \<Rightarrow> reg_route reg | Some r \<Rightarrow> (reg_route reg)(sid \<mapsto> stored_route r))"
  using bind_route[OF assms(1), of sid] remote_route[OF assms(1), of sid] assms
  by (auto simp: reg_add_def split: option.splits route.splits)

lemma reg_add_all:
  fixes f :: "nos_service_def \<Rightarrow> route option"
  assumes "reg_ok reg" "finite (dom (reg_route reg))" "card (dom (reg_route reg)) + length svcs \<le> MAX_SERVICES"
    and "distinct (map sd_service_id svcs)"
  defines "reg' \<equiv> foldl (\<lambda>reg svc. reg_add (sd_service_id svc) (f svc) reg) reg svcs"
  shows "reg_ok reg' \<and> (\<forall>svc \<in> set svcs. f svc \<noteq> None \<longrightarrow> reg_route reg' (sd_service_id svc) = map_option stored_route (f svc)) \<and>
    (\<forall>svc \<in> set svcs. f svc = None \<longrightarrow> reg_route reg' (sd_service_id svc) = reg_route reg (sd_service_id svc)) \<and>
    (\<forall>sid. sid \<notin> sd_service_id ` set svcs \<longrightarrow> reg_route reg' sid = reg_route reg sid)"
  using assms(1-4) unfolding reg'_def
proof (induction svcs arbitrary: reg)
  case (Cons svc svcs)
  let ?sid = "sd_service_id svc"
  define r where "r = reg_add ?sid (f svc) reg"
  have lt: "card (dom (reg_route reg)) < MAX_SERVICES" using Cons.prems(3) by simp
  have r: "reg_ok r" "reg_route r = (case f svc of None \<Rightarrow> reg_route reg | Some x \<Rightarrow> (reg_route reg)(?sid \<mapsto> stored_route x))"
    using reg_add_route[OF Cons.prems(1) lt] by (simp_all add: r_def)
  have d: "finite (dom (reg_route r))" "card (dom (reg_route r)) \<le> Suc (card (dom (reg_route reg)))"
    using Cons.prems(2) r(2) card_insert_le_m1 by (auto split: option.splits simp: card_insert_if)
  have n: "card (dom (reg_route r)) + length svcs \<le> MAX_SERVICES" "distinct (map sd_service_id svcs)" "?sid \<notin> sd_service_id ` set svcs"
    using d(2) Cons.prems(3,4) by auto
  note ih = Cons.IH[OF r(1) d(1) n(1,2)]
  have other: "reg_route r sid = reg_route reg sid" if "sid \<noteq> ?sid" for sid
    using r(2) that by (auto split: option.splits)
  have own: "reg_route r ?sid = (case f svc of None \<Rightarrow> reg_route reg ?sid | Some x \<Rightarrow> Some (stored_route x))"
    using r(2) by (auto split: option.splits)
  have ne: "sd_service_id x \<noteq> ?sid" if "x \<in> set svcs" for x using n(3) that by (metis imageI)
  show ?case
    unfolding foldl_Cons r_def[symmetric] list.set(2) ball_simps(7) using ih n(3) other own ne by (auto split: option.splits)
qed simp


section \<open>Reloading\<close>

lemma rebind_all:
  assumes "reg_ok reg" "dom (reg_route reg) \<subseteq> D" "finite D" "card D \<le> MAX_SERVICES" "sd_service_id ` set svcs \<subseteq> D"
  shows "reg_ok (foldl (\<lambda>reg svc. if P svc then snd (nos_service_register_provider_bind (sd_service_id svc) q t reg) else reg) reg svcs) \<and>
    reg_route (foldl (\<lambda>reg svc. if P svc then snd (nos_service_register_provider_bind (sd_service_id svc) q t reg) else reg) reg svcs) =
      (\<lambda>sid. if \<exists>svc \<in> set svcs. P svc \<and> sd_service_id svc = sid then Some (Local q t) else reg_route reg sid)"
  using assms(1,2,5)
proof (induction svcs arbitrary: reg)
  case (Cons svc svcs)
  let ?sid = "sd_service_id svc"
  define r where "r = (if P svc then snd (nos_service_register_provider_bind ?sid q t reg) else reg)"
  have room: "card (dom (reg_route reg)) < MAX_SERVICES" if "reg_route reg ?sid = None"
  proof -
    have "dom (reg_route reg) \<subseteq> D - {?sid}" using Cons.prems(2) that by auto
    then have "card (dom (reg_route reg)) \<le> card (D - {?sid})" using assms(3) by (intro card_mono) auto
    moreover have "?sid \<in> D" using Cons.prems(3) by simp
    ultimately show ?thesis using assms(3,4) card_Diff1_less[of D ?sid] by linarith
  qed
  have r: "reg_ok r" "reg_route r = (if P svc then (reg_route reg)(?sid \<mapsto> Local q t) else reg_route reg)"
    using bind_route[OF Cons.prems(1), of ?sid q t] Cons.prems(1) room by (auto simp: r_def)
  have "dom (reg_route r) \<subseteq> D" using r(2) Cons.prems(2,3) by auto
  then show ?case using Cons.IH[OF r(1)] Cons.prems(3) r(2) unfolding foldl_Cons r_def[symmetric] by (auto simp: fun_eq_iff)
qed simp

lemma reload_ok:
  assumes ok: "mgr_ok s" and quiet: "stop_quiet env" "load_quiet env"
    and k: "find_loaded name s = Some k" "i = loaded_info s ! k" "comps s (info_comp i) = Some c"
    and room: "info_comp i \<in> set (comp_list s (info_owner i))"
    and q: "q = comp_addrs s (addr_no s)" "q = info_comp i \<or> comps s q = None"
    and re: "node_reload_component env name s = (st, s')"
  shows "mgr_ok s' \<and>
    (if st = NOS_OK
     then (\<exists>c'. comps s' q = Some c' \<and> comp_id c' = comp_id c \<and> comp_name c' = name \<and> comp_status c' = NOS_COMP_ST_INITED) \<and>
       q \<in> set (comp_list s' (info_owner i)) \<and>
       (\<forall>svc \<in> set (nd_services (node_def s)). sd_provider_comp_id svc = comp_id c \<and> sd_node_name svc = nd_name (node_def s) \<longrightarrow>
          reg_route (registry s') (sd_service_id svc) = Some (Local q (Some (info_owner i))))
     else st = NOS_ERR \<and> (\<forall>sid t. reg_route (registry s') sid \<noteq> Some (Local (info_comp i) t)) \<and>
       (\<forall>r. info_comp i \<notin> set (comp_list s' r)))"
proof -
  let ?p = "info_comp i" and ?r = "info_owner i"
  have stop: "\<And>f p s. mgr_view (call_stop env f p s) = mgr_view s" using quiet(1) by (simp add: stop_quiet_def)
  obtain u where u: "node_unload_component env name s = (NOS_OK, u)" and sp: "loaded_info u = loaded_info u"
    "set (loaded_info u) = {j \<in> set (loaded_info s). info_comp j \<noteq> ?p}" "length (loaded_info u) = length (loaded_info s) - 1"
    "comps u = (comps s)(?p := None)" "node_def u = node_def s" "comp_addrs u = comp_addrs s" "addr_no u = addr_no s" "table_ok u = table_ok s"
    "\<And>r. mset (comp_list u r) = (if r = ?r then mset (comp_list s r) - {#?p#} else mset (comp_list s r))"
    using unload_spec[OF ok k stop] by blast
  note uo = unload_ok[OF ok k stop u]
  have lo: "loaded_ok s" "tables_ok s" using ok by (simp_all add: mgr_ok_def)
  have iin: "i \<in> set (loaded_info s)" using find_loaded_Some[OF k(1)] k(2) by (metis nth_mem)
  have fresh: "fresh_addr u" using q by (auto simp: fresh_addr_def sp(4,6,7))
  obtain res v where l: "node_load_component_internal env (comp_id c) name (info_lib_name i) u = (res, v)" by fastforce
  note ld = load_spec[OF quiet(2) fresh l]
  have nm: "comp_name c = name" using find_loaded_Some[OF k(1)] k(2,3) by (metis option.inject)
  show ?thesis
  proof (cases res)
    case None
    have s': "st = NOS_ERR" "s' = v" using re k None u l by (auto simp: node_reload_component_def Let_def)
    have ct: "comp_list v = comp_list u" "table_ok v = table_ok u" using comp_tables_cong[of v u] ld by auto
    have eq: "registry v = registry u" "loaded_info v = loaded_info u" "node_def v = node_def u" "comps v = comps u" using ld None by auto
    have "mgr_ok v"
      using uo(1) by (simp add: mgr_ok_def loaded_ok_def tables_ok_def routes_ok_def route_ok_def has_comp_id_def eq ct)
    then show ?thesis using uo(2,3) s' eq ct by simp
  next
    case (Some ph)
    then obtain h where ph: "res = Some (q, h)" using ld q(1) sp(6,7) by (cases ph) auto
    then obtain c' where v: "comp_tables v = comp_tables u" "registry v = registry u" "loaded_info v = loaded_info u" "node_def v = node_def u"
      "q \<noteq> NULL" "comps v = (comps u)(q \<mapsto> c')" "comp_id c' = comp_id c" "comp_name c' = name" "comp_status c' = NOS_COMP_ST_INITED"
      using ld by auto
    have ct: "comp_list v = comp_list u" "table_ok v = table_ok u" using comp_tables_cong[OF v(1)] by auto
    define j where "j = \<lparr>info_comp = q, info_handle = h, info_lib_name = info_lib_name i, info_owner = ?r\<rparr>"
    define w where "w = enter j v"
    have len: "length (loaded_info v) < MAX_COMPONENTS_PER_NODE"
      using iin lo(1) sp(3) v(3) by (cases "loaded_info s") (auto simp: loaded_ok_def)
    have s': "st = NOS_OK" "s' = rebind_services (comp_id c) q ?r w"
      using re k u l ph len by (simp_all add: node_reload_component_def Let_def w_def enter_def j_def)
    have free: "comps u q = None" using q(2) by (auto simp: sp(4))
    have lv: "loaded_ok v" "tables_ok v"
      using uo(1) v(6) by (auto simp: mgr_ok_def loaded_ok_def tables_ok_def v(3) ct)
    have new: "q \<notin> info_comp ` set (loaded_info v)"
      using uo(1) free by (auto simp: mgr_ok_def loaded_ok_def v(3))
    have t: "table_ok v (info_owner j)" "info_comp j \<noteq> NULL"
      using lo(1) iin v(5) ct(2) sp(8) by (auto simp: loaded_ok_def j_def)
    have wl: "loaded_ok w" "tables_ok w"
      using enter_ok[OF lv len t(2) _ _ t(1)] new v(6) by (simp_all add: w_def j_def)
    have wq: "q \<in> set (comp_list w ?r)"
    proof -
      have "size (mset (comp_list u ?r)) < size (mset (comp_list s ?r))" using sp(9)[of ?r] room by (simp add: size_Diff_singleton)
          (metis Suc_pred length_pos_if_in_set lessI)
      moreover have "length (comp_list s ?r) \<le> MAX_COMP_PER_THREAD"
        using lo(1) iin by (auto simp: loaded_ok_def table_ok_def comp_list_def split: option.splits prod.splits)
      ultimately have "length (comp_list v ?r) < MAX_COMP_PER_THREAD" using ct(1) by simp
      then show ?thesis using enter_tables(2)[OF t, of ?r] by (simp add: w_def j_def)
    qed
    let ?P = "\<lambda>svc. sd_provider_comp_id svc = comp_id c \<and> sd_node_name svc = nd_name (node_def s)"
    have nd: "node_def w = node_def s" "registry w = registry u" by (simp_all add: w_def v sp(5))
    have ru: "reg_ok (registry u)" "dom (reg_route (registry u)) \<subseteq> sd_service_id ` set (nd_services (node_def s))"
      "length (nd_services (node_def s)) \<le> MAX_SERVICES"
      using uo(1) by (auto simp: mgr_ok_def routes_ok_def sp(5))
    have card: "card (sd_service_id ` set (nd_services (node_def s))) \<le> MAX_SERVICES"
      using ru(3) card_image_le[of "set (nd_services (node_def s))" sd_service_id] card_length[of "nd_services (node_def s)"] by simp
    have reg: "reg_ok (registry s')"
      "reg_route (registry s') = (\<lambda>sid. if \<exists>svc \<in> set (nd_services (node_def s)). ?P svc \<and> sd_service_id svc = sid
         then Some (Local q (Some ?r)) else reg_route (registry u) sid)"
      using rebind_all[OF ru(1,2) _ card subset_refl, of ?P q "Some ?r"] by (simp_all add: s'(2) rebind_services_def nd)
    have fr: "comps s' = comps w" "loaded_info s' = loaded_info w" "node_def s' = node_def s" "comp_tables s' = comp_tables w"
      using nd by (simp_all add: s'(2) rebind_services_def comp_tables_def[abs_def])
    have ct': "comp_list s' = comp_list w" "table_ok s' = table_ok w" using comp_tables_cong[OF fr(4)] by auto
    have "routes_ok s'"
      unfolding routes_ok_def
    proof (intro conjI allI impI)
      show "reg_ok (registry s')" "length (nd_services (node_def s')) \<le> MAX_SERVICES" using reg(1) ru(3) fr(3) by simp_all
      have "dom (reg_route (registry s')) \<subseteq> dom (reg_route (registry u)) \<union> sd_service_id ` set (nd_services (node_def s))"
        using reg(2) by (auto split: if_splits)
      then show "dom (reg_route (registry s')) \<subseteq> sd_service_id ` set (nd_services (node_def s'))"
        using ru(2) fr(3) by auto
      fix sid p t' assume r: "reg_route (registry s') sid = Some (Local p t')"
      have cw: "comps w = (comps u)(q \<mapsto> c')" "loaded_info w = loaded_info u @ [j]" by (simp_all add: w_def v)
      show "route_ok s' sid p"
      proof (cases "\<exists>svc \<in> set (nd_services (node_def s)). ?P svc \<and> sd_service_id svc = sid")
        case True
        then have p: "p = q" using r reg(2) by simp
        obtain svc where "svc \<in> set (nd_services (node_def s))" "sd_provider_comp_id svc = comp_id c" "sd_service_id svc = sid"
          using True by blast
        moreover have "has_comp_id s' (comp_id c) q" using v(7) by (simp add: has_comp_id_def fr(1) cw(1))
        ultimately show ?thesis using fr cw(2) p unfolding route_ok_def by (auto simp: j_def)
      next
        case False
        have "reg_route (registry u) sid = Some (Local p t')" using r unfolding reg(2) if_not_P[OF False] .
        then have o: "route_ok u sid p" using uo(1) by (auto simp: mgr_ok_def routes_ok_def)
        then have "comps u p \<noteq> None" using uo(1) by (auto simp: route_ok_def mgr_ok_def loaded_ok_def)
        then have "p \<noteq> q" using free by auto
        then have "has_comp_id s' x p = has_comp_id u x p" for x by (simp add: has_comp_id_def fr(1) cw(1))
        then show ?thesis using o fr cw(2) sp(5) unfolding route_ok_def by auto
      qed
    qed
    moreover have "loaded_ok s'" "tables_ok s'" using wl fr ct' by (simp_all add: loaded_ok_def tables_ok_def)
    ultimately have "mgr_ok s'" by (simp add: mgr_ok_def)
    moreover have "comps s' q = Some c'" by (simp add: fr(1) w_def v(6))
    ultimately show ?thesis using s'(1) v(7-9) wq ct'(1) reg(2) by auto
  qed
qed


section \<open>Starting a node\<close>

lemma add_fd_comps:
  "components (snd (nos_scheduler_add_fd ok th fd cb a)) = components th"
  "component_count (snd (nos_scheduler_add_fd ok th fd cb a)) = component_count th"
  by (simp_all add: nos_scheduler_add_fd_def nos_scheduler_add_fd_ex_def Let_def split: option.splits)

lemma init_mgmt_ok:
  fixes s :: "'z mgr_node_scheme"
  assumes "s' = node_init_mgmt efd lfd bok lok s"
  shows "comp_list s' Mgmt = [] \<and> table_ok s' Mgmt \<and> comps s' = comps s \<and> loaded_info s' = loaded_info s \<and> registry s' = registry s \<and>
    node_def s' = node_def s \<and> comp_addrs s' = comp_addrs s \<and> addr_no s' = addr_no s"
proof -
  define u where "u = s\<lparr>threads := (threads s)(Mgmt \<mapsto> snd (nos_scheduler_init_thread (thread_ptr Mgmt) zero_thread 999 ''Mgmt-Master'' (efd Mgmt)))\<rparr>"
  have s': "s' = snd (nos_ipc_init lfd bok lok Mgmt u)" by (simp add: assms node_init_mgmt_def u_def Let_def)
  have t: "comp_tables s' Mgmt = comp_tables u Mgmt"
    by (auto simp: s' nos_ipc_init_def comp_tables_def u_def add_fd_comps Let_def split: prod.splits option.splits)
      (metis add_fd_comps snd_conv)+
  have "comp_list s' Mgmt = comp_list u Mgmt" "table_ok s' Mgmt = table_ok u Mgmt" using t by (simp_all add: comp_list_def table_ok_def)
  moreover have "comp_list u Mgmt = []" "table_ok u Mgmt"
    using init_thread_table[of s Mgmt "thread_ptr Mgmt" zero_thread 999 "''Mgmt-Master''" "efd Mgmt" Mgmt] by (simp_all add: u_def)
  moreover have "comps s' = comps s \<and> loaded_info s' = loaded_info s \<and> registry s' = registry s \<and>
    node_def s' = node_def s \<and> comp_addrs s' = comp_addrs s \<and> addr_no s' = addr_no s"
    by (auto simp: s' nos_ipc_init_def u_def upd_thread_def split: prod.splits option.splits)
  ultimately show ?thesis by simp
qed

text \<open>A state before the start: nothing is loaded, registered or allocated.\<close>

definition unstarted :: "nos_node_def \<Rightarrow> 'z mgr_node_scheme \<Rightarrow> bool" where
  "unstarted nd s \<longleftrightarrow> node_def s = nd \<and> loaded_info s = [] \<and> comps s = Map.empty \<and> registry s = empty_registry \<and> addrs_distinct s"

text \<open>The limits of the manager: 64 components and 64 services, each service listed once.\<close>

definition manifest_fits :: "nos_node_def \<Rightarrow> bool" where
  "manifest_fits nd \<longleftrightarrow> length (concat (map thread_entries (nd_threads nd))) \<le> MAX_COMPONENTS_PER_NODE \<and>
     length (nd_services nd) \<le> MAX_SERVICES \<and> distinct (map sd_service_id (nd_services nd))"

lemma empty_registry_routes: "reg_ok empty_registry" "reg_route empty_registry = Map.empty"
  by (simp_all add: reg_ok_def empty_registry_def reg_route_def find_service_entry_def find_slot_def fun_eq_iff)

lemma svc_target_Local:
  assumes "svc_target s cur svc = Some (Local p t)"
  shows "(\<exists>i \<in> set (loaded_info s). info_comp i = p) \<and> has_comp_id s (sd_provider_comp_id svc) p"
proof -
  have "p = node_get_loaded_comp_by_id (sd_provider_comp_id svc) s" "p \<noteq> NULL"
    using assms by (auto simp: svc_target_def Let_def split: if_splits option.splits)
  then obtain k where k: "find_slot (\<lambda>i. has_comp_id s (sd_provider_comp_id svc) (info_comp i)) (length (loaded_info s)) (loaded_info s) = Some k"
    "p = info_comp (loaded_info s ! k)"
    by (auto simp: node_get_loaded_comp_by_id_def split: option.splits)
  then show ?thesis using find_slot_Some[OF k(1)] by auto
qed

lemma node_start_ok:
  assumes env: "load_quiet env" and s: "unstarted nd s" and fits: "manifest_fits nd"
    and s': "s' = node_start env efd lfd bok lok nd s"
  shows "mgr_ok s' \<and> (\<forall>svc \<in> set (nd_services nd). reg_route (registry s') (sd_service_id svc) = map_option stored_route (svc_target s' (nd_name nd) svc))"
proof -
  define u where "u = node_init_mgmt efd lfd bok lok s"
  define v where "v = u\<lparr>threads := (\<lambda>r. case r of Mgmt \<Rightarrow> threads u Mgmt | Worker i \<Rightarrow> if i < MAX_WORKERS then Some zero_thread else None), worker_count := 0\<rparr>"
  define w where "w = init_workers_from env efd 0 (nd_threads nd) v"
  note u = init_mgmt_ok[OF u_def]
  have s'w: "s' = node_setup_routing (nd_name nd) w" 
    unfolding s' node_start_def Let_def node_init_workers_def w_def v_def u_def ..
  have cl: "comp_list v r = []" for r
    using u by (cases r) (auto simp: comp_list_def comp_tables_def v_def zero_thread_def)
  have "boot_ok v"
    using s u cl by (simp add: boot_ok_def loaded_ok_def tables_ok_def unstarted_def v_def addrs_distinct_def)
  moreover have "length (loaded_info v) + length (concat (map thread_entries (nd_threads nd))) \<le> MAX_COMPONENTS_PER_NODE"
    using s u fits by (simp add: unstarted_def v_def manifest_fits_def)
  ultimately have w: "boot_ok w" "registry w = registry v" "node_def w = node_def v"
    using init_workers_ok[OF env _ _ w_def] by auto
  then have w': "registry w = empty_registry" "node_def w = nd" using s u by (simp_all add: v_def unstarted_def)
  let ?f = "svc_target w (nd_name nd)"
  define reg where "reg = foldl (\<lambda>reg svc. reg_add (sd_service_id svc) (?f svc) reg) empty_registry (nd_services nd)"
  have s'reg: "s' = w\<lparr>registry := reg\<rparr>" using setup_routing_registry[of "nd_name nd" w] w' by (simp add: s'w reg_def)
  have ra: "reg_ok reg" "\<And>svc. svc \<in> set (nd_services nd) \<Longrightarrow> reg_route reg (sd_service_id svc) = map_option stored_route (?f svc)"
    "\<And>sid. sid \<notin> sd_service_id ` set (nd_services nd) \<Longrightarrow> reg_route reg sid = None"
    using reg_add_all[of empty_registry "nd_services nd" ?f] fits
    by (auto simp: empty_registry_routes manifest_fits_def reg_def[symmetric])
  have fr: "loaded_info s' = loaded_info w" "node_def s' = nd" "comps s' = comps w" "comp_tables s' = comp_tables w" "registry s' = reg"
    using w' by (simp_all add: s'reg comp_tables_def[abs_def])
  have ct: "comp_list s' = comp_list w" "table_ok s' = table_ok w" using comp_tables_cong[OF fr(4)] by auto
  have "loaded_ok s'" "tables_ok s'" using w(1) fr ct by (simp_all add: boot_ok_def loaded_ok_def tables_ok_def)
  moreover have "routes_ok s'"
    unfolding routes_ok_def
  proof (intro conjI allI impI)
    show "reg_ok (registry s')" "length (nd_services (node_def s')) \<le> MAX_SERVICES"
      using ra(1) fits fr by (simp_all add: manifest_fits_def)
    show "dom (reg_route (registry s')) \<subseteq> sd_service_id ` set (nd_services (node_def s'))" using ra(3) unfolding fr by fastforce
    fix sid p t assume r: "reg_route (registry s') sid = Some (Local p t)"
    then obtain svc where svc: "svc \<in> set (nd_services nd)" "sd_service_id svc = sid" using ra(3)[of sid] fr(5) by fastforce
    then have "map_option stored_route (?f svc) = Some (Local p t)" using ra(2) r fr(5) by auto
    then have "?f svc = Some (Local p t)" by (cases "?f svc") (auto elim: stored_route.elims)
    then show "route_ok s' sid p"
      using svc_target_Local[of w] svc fr by (fastforce simp: route_ok_def has_comp_id_def)
  qed
  moreover have "svc_target s' = svc_target w" by (simp add: s'reg fun_eq_iff)
  ultimately show ?thesis using ra(2) fr(5) by (simp add: mgr_ok_def)
qed

end
