(* ===== verification/IpcClaims.thy ===== *)
theory IpcClaims
  imports IpcProps
begin

text \<open>
  The properties of the transport between nodes: what serving a link sends, that a link which stays up
  is a lossless FIFO with backpressure, where a received message goes, and the handshake by which two
  nodes come to share a connection.
\<close>

section \<open>The handshake\<close>

lemma find_slot_all: "find_slot p (length xs) xs = find_from 0 p xs"
  by (simp add: find_slot_def)

text \<open>A name of at most 31 characters leads to one connection as long as there is room for it.\<close>

lemma get_conn_named:
  assumes "length name \<le> 31" "length (conns s) < MAX_REMOTE_CONNS"
  obtains k s' where "get_or_create_conn (Some name) None s = (Some k, s')" "k < length (conns s')"
    "find_slot (key_matches (Some name) None) (length (conns s')) (map conn_key (conns s')) = Some k"
    "threads s' = threads s" "buf_held s' = buf_held s" "bufs_ok s' = bufs_ok s"
proof (cases "find_slot (\<lambda>c. Some name = Some (conn_node_name c) \<or> None = Some (conn_uds_path c)) (length (conns s)) (conns s)")
  case (Some k)
  then have g: "get_or_create_conn (Some name) None s = (Some k, s)" by (simp add: get_or_create_conn_def)
  show thesis
    by (rule that[of k s]) (use g find_slot_Some[OF Some] get_conn_find[of "Some name" None s k] in auto)
next
  case None
  define c where "c = \<lparr>conn_node_name = strncpy_field 32 name, conn_uds_path = ''Passive'', conn_fd = - 1,
      tx_queue = replicate TX_QUEUE_SIZE None, conn_head = 0, conn_tail = 0, is_connected = False, is_congested = False\<rparr>"
  have g: "get_or_create_conn (Some name) None s = (Some (length (conns s)), s\<lparr>conns := conns s @ [c]\<rparr>)"
    using None assms(2) by (simp add: get_or_create_conn_def c_def)
  have "find_from 0 (\<lambda>c. name = conn_node_name c) (conns s) = None" using None by (simp add: find_slot_all)
  then have "find_from 0 (key_matches (Some name) None) (map conn_key (conns s)) = None"
    by (simp add: find_from_map key_matches_def conn_key_def)
  then have "find_slot (key_matches (Some name) None) (length (conns s @ [c])) (map conn_key (conns s @ [c])) = Some (length (conns s))"
    using assms(1) by (simp add: find_slot_def find_from_append key_matches_def conn_key_def c_def)
  then show thesis
    by (intro that[OF g]) simp_all
qed

lemma recv_hello_named:
  assumes "length name \<le> 31" "length (conns s) < MAX_REMOTE_CONNS" "s' = recv_hello fd None r name s"
  shows "\<exists>k. get_or_create_conn (Some name) None s' = (Some k, s') \<and> conn_fd (conns s' ! k) = fd \<and>
     is_connected (conns s' ! k) \<and> buf_held s' = buf_held s \<and> (bufs_ok s \<longrightarrow> bufs_ok s')"
proof -
  obtain k u where g: "get_or_create_conn (Some name) None s = (Some k, u)" "k < length (conns u)"
    "find_slot (key_matches (Some name) None) (length (conns u)) (map conn_key (conns u)) = Some k"
    "threads u = threads s" "buf_held u = buf_held s" "bufs_ok u = bufs_ok s"
    using get_conn_named[OF assms(1,2)] by blast
  have s': "s' = add_fd Mgmt fd EPOLL_INOUT_ET nos_ipc_event_handler_ptr (conn_ptr k)
      (remove_fd r fd (upd_conn k (\<lambda>c. c\<lparr>conn_fd := fd, is_connected := True\<rparr>) u))"
    using assms(3) g(1) by (simp add: recv_hello_def Let_def)
  have c: "conns s' = conns (upd_conn k (\<lambda>c. c\<lparr>conn_fd := fd, is_connected := True\<rparr>) u)"
    by (simp add: s' add_fd_def remove_fd_def)
  have "map conn_key (conns s') = map conn_key (conns u)"
  proof (rule nth_equalityI)
    fix j assume "j < length (map conn_key (conns s'))"
    then show "map conn_key (conns s') ! j = map conn_key (conns u) ! j"
      using g(2) by (cases "j = k") (simp_all add: c conn_key_def)
  qed (simp add: c)
  then have "get_or_create_conn (Some name) None s' = (Some k, s')"
    using g(3) by (simp add: get_conn_find c)
  moreover have "conn_fd (conns s' ! k) = fd" "is_connected (conns s' ! k)" using g(2) by (simp_all add: c)
  moreover have "buf_held s' = buf_held s" "bufs_ok s' = bufs_ok s"
    using g(5,6) by (simp_all add: s' add_fd_def remove_fd_def)
  ultimately show ?thesis by blast
qed

text \<open>What the greeting carries.\<close>

definition hello_msg :: "string \<Rightarrow> nos_service_msg \<Rightarrow> bool" where
  "hello_msg name m \<longleftrightarrow> msg_magic m = NOS_IPC_MAGIC \<and> msg_code m = NOS_IPC_MSG_HELLO \<and> msg_payload m = name @ [CHR 0x00] \<and>
     payload_len m = of_nat (length name) + 1"

lemma c_string_name: "CHR 0x00 \<notin> set name \<Longrightarrow> c_string (name @ [CHR 0x00]) = name"
  unfolding c_string_def by (subst takeWhile_append2) auto

lemma send_hello_queued:
  assumes "i < length (conns s)" "conn_ok (conns s ! i)" "length (conn_items (conns s ! i)) < 1023" "bufs_ok s"
    and al: "node_alloc (Inl (of_nat MSG_HEADER_SIZE + 32, 0)) s = Some (b, u)" and s': "s' = nos_ipc_send_hello i s"
  shows "conn_items (conns s' ! i) = conn_items (conns s ! i) @ [b]" "hello_msg (local_name s) (msgs s' b)"
    "bufs_ok s'" "buf_held s' = (buf_held s)(b := 1)"
proof -
  note f = node_alloc_frame[OF al]
  note a = node_bufs.alloc_Some[OF assms(4) al]
  obtain c where c: "conn_enq b (conns s ! i) = Some c" "conn_items c = conn_items (conns s ! i) @ [b]"
    using conn_ring.enq_room[OF assms(2) TrueI, of b] assms(3) by (auto simp: TX_QUEUE_SIZE_def)
  define v where "v = u\<lparr>msgs := (msgs u)(b := (msgs u b)\<lparr>msg_magic := NOS_IPC_MAGIC, msg_version := NOS_IPC_VERSION,
                       msg_code := NOS_IPC_MSG_HELLO, payload_len := of_nat (length (local_name u)) + 1,
                       msg_payload := local_name u @ [CHR 0x00]\<rparr>)\<rparr>"
  have e: "s' = nos_buffer_release b (upd_conn i (\<lambda>_. c) (nos_buffer_retain b v))"
    using c f by (simp add: s' nos_ipc_send_hello_def al Let_def v_def)
  have v: "bufs_ok v" "buf_held v = (buf_held s)(b := 1)" using a by (simp_all add: v_def)
  have "0 < buf_held v b" "buf_held v b < 2 ^ 31 - 1" using v(2) by simp_all
  note r = node_bufs.retain_held[OF v(1) this]
  let ?w = "upd_conn i (\<lambda>_. c) (nos_buffer_retain b v)"
  have w: "bufs_ok ?w" "0 < buf_held ?w b" "buf_held ?w = (buf_held s)(b := 2)" using r v(2) by (simp_all add: numeral_2_eq_2)
  show "bufs_ok s'" "buf_held s' = (buf_held s)(b := 1)"
    using node_bufs.release_held[OF w(1,2)] w(3) by (simp_all add: e)
  show "hello_msg (local_name s) (msgs s' b)" using f by (simp add: e v_def hello_msg_def)
  show "conn_items (conns s' ! i) = conn_items (conns s ! i) @ [b]"
    using assms(1) c(2) f by (simp add: e v_def)
qed

lemma recv_hello_msg:
  assumes m: "hello_msg name m" "CHR 0x00 \<notin> set name" "length name \<le> 31"
    and t: "length (conns t) < MAX_REMOTE_CONNS" "bufs_ok t" "node_alloc (Inl (ucast (full_len m), 0)) t = Some (c, t1)"
  shows "\<exists>t' k. nos_ipc_recv_handler fuel (Peek m) (Some m) fd None r t = Returned t' \<and>
     get_or_create_conn (Some name) None t' = (Some k, t') \<and> conn_fd (conns t' ! k) = fd \<and> is_connected (conns t' ! k) \<and>
     bufs_ok t' \<and> buf_held t' = buf_held t"
proof -
  note f = node_alloc_frame[OF t(3)]
  note a = node_bufs.alloc_Some[OF t(2,3)]
  define u where "u = recv_hello fd None r name (t1\<lparr>msgs := (msgs t1)(c := m)\<rparr>)"
  have len: "length (conns (t1\<lparr>msgs := (msgs t1)(c := m)\<rparr>)) < MAX_REMOTE_CONNS" using t(1) f by simp
  obtain k where k: "get_or_create_conn (Some name) None u = (Some k, u)" "conn_fd (conns u ! k) = fd" "is_connected (conns u ! k)"
    "buf_held u = buf_held (t1\<lparr>msgs := (msgs t1)(c := m)\<rparr>)" "bufs_ok u"
    using recv_hello_named[OF m(3) len u_def] a by auto
  have h: "nos_ipc_recv_handler fuel (Peek m) (Some m) fd None r t = Returned (nos_buffer_release c u)"
    using m t(3) c_string_name[OF m(2)] by (simp add: nos_ipc_recv_handler_def hello_msg_def u_def)
  have hu: "buf_held u = (buf_held t)(c := 1)" using k(4) a by simp
  have "0 < buf_held u c" by (simp add: hu)
  note rel = node_bufs.release_held[OF k(5) this]
  have "buf_held (nos_buffer_release c u) = buf_held t" using rel hu a by auto
  moreover have "get_or_create_conn (Some name) None (nos_buffer_release c u) = (Some k, nos_buffer_release c u)"
    using k(1) by (simp add: get_conn_find)
  ultimately show ?thesis using h k rel by auto
qed


section \<open>Sample nodes\<close>

text \<open>Node A with the connections \<open>cs\<close>; the sender of buffer (0, 1) holds it.\<close>

definition sample_conn :: "int \<Rightarrow> buf_ref list \<Rightarrow> bool \<Rightarrow> nos_ipc_conn" where
  "sample_conn fd bs cong =
     \<lparr>conn_node_name = ''B'', conn_uds_path = ''/tmp/b'', conn_fd = fd, tx_queue = map Some bs @ replicate (1024 - length bs) None,
      conn_head = 0, conn_tail = length bs, is_connected = True, is_congested = cong\<rparr>"

definition ipc_sample :: "nos_ipc_conn list \<Rightarrow> (nat \<Rightarrow> send_result) \<Rightarrow> unit ipc_node_scheme" where
  "ipc_sample cs os =
     \<lparr>threads = threads idle_node, worker_count = 1, timers = Map.empty, clock = (\<lambda>_. (5, 0)), clock_reads = 0,
      registry = service_5, bufs = one_buf_pool, shmem = fresh_shm, comps = Map.empty, msgs = (\<lambda>_. sample_msg 5),
      conns = cs, stats = zero_stats, local_name = ''A'', local_queue = None, os_sends = os, send_no = 0,
      os_connects = (\<lambda>_. None), connect_no = 0, wire = []\<rparr>"

lemma sample_conn_ok:
  assumes "length bs < 1024"
  shows "conn_ok (sample_conn fd bs cong)" "conn_items (sample_conn fd bs cong) = bs"
proof -
  have s: "conn_slots (sample_conn fd bs cong) = map Some bs"
    using assms by (intro nth_equalityI) (simp_all add: conn_slots_def sample_conn_def ring_items_def ring_used_def TX_QUEUE_SIZE_def nth_append)
  show "conn_items (sample_conn fd bs cong) = bs" unfolding conn_items_def s by simp
  show "conn_ok (sample_conn fd bs cong)"
    unfolding conn_ok_def s using assms by (auto simp: ring_ok_def sample_conn_def TX_QUEUE_SIZE_def)
qed

lemma ipc_sample_simps [simp]:
  "conns (ipc_sample cs os) = cs" "os_sends (ipc_sample cs os) = os" "send_no (ipc_sample cs os) = 0" "wire (ipc_sample cs os) = []"
  "stats (ipc_sample cs os) = zero_stats" "registry (ipc_sample cs os) = service_5" "msgs (ipc_sample cs os) = (\<lambda>_. sample_msg 5)"
  "threads (ipc_sample cs os) = threads idle_node" "local_name (ipc_sample cs os) = ''A''"
  by (simp_all add: ipc_sample_def)

lemma ipc_sample_bufs [simp]:
  "bufs_ok (ipc_sample cs os)" "buf_held (ipc_sample cs os) b = (if b = PoolBuf 0 1 then 1 else 0)"
proof -
  have b: "bufs (ipc_sample cs os) = bufs idle_node" "shmem (ipc_sample cs os) = shmem idle_node"
    by (simp_all add: ipc_sample_def idle_node_def msg_node_def)
  have h: "buf_held (ipc_sample cs os) b = buf_held idle_node b" "bufs_ok (ipc_sample cs os) = bufs_ok idle_node"
    by (simp_all add: buf_held_def bufs_ok_def b split: buf_ref.split)
  show "bufs_ok (ipc_sample cs os)" "buf_held (ipc_sample cs os) b = (if b = PoolBuf 0 1 then 1 else 0)"
    unfolding h idle_node_def by (simp_all add: msg_node_bufs)
qed

lemma ipc_sample_alloc:
  "\<exists>s'. node_alloc (Inl (28, 0)) (ipc_sample cs os) = Some (PoolBuf 0 0, s')"
  "\<exists>s'. node_alloc (Inl (30, 0)) (ipc_sample cs os) = Some (PoolBuf 0 0, s')"
  "\<exists>s'. node_alloc (Inl (60, 0)) (ipc_sample cs os) = Some (PoolBuf 0 0, s')"
proof -
  have "case nos_buffer_alloc 28 0 one_buf_pool of None \<Rightarrow> False | Some (r, p) \<Rightarrow> r = (0, 0)"
    "case nos_buffer_alloc 30 0 one_buf_pool of None \<Rightarrow> False | Some (r, p) \<Rightarrow> r = (0, 0)"
    "case nos_buffer_alloc 60 0 one_buf_pool of None \<Rightarrow> False | Some (r, p) \<Rightarrow> r = (0, 0)" by code_simp+
  moreover have "bufs (ipc_sample cs os) = one_buf_pool" by (simp add: ipc_sample_def)
  ultimately show "\<exists>s'. node_alloc (Inl (28, 0)) (ipc_sample cs os) = Some (PoolBuf 0 0, s')"
    "\<exists>s'. node_alloc (Inl (30, 0)) (ipc_sample cs os) = Some (PoolBuf 0 0, s')"
    "\<exists>s'. node_alloc (Inl (60, 0)) (ipc_sample cs os) = Some (PoolBuf 0 0, s')"
    by (auto simp: node_alloc_def split: option.splits)
qed

section \<open>Properties\<close>

text \<open>
  Serving a link: the messages waiting for a peer are sent in order up to the first one that the socket
  does not take, each gives back the reference the queue held, and the others stay queued in their
  order. When the socket fails, the link goes down and the queue is kept for the next connection. A congested
  link is relieved only by an empty queue.
\<close>

theorem nos_ipc_process_tx_correct:
  assumes "i < length (conns s)" "conn_ok (conns s ! i)" "bs = conn_items (conns s ! i)"
    and "bufs_ok s" "\<And>b. count_list bs b \<le> buf_held s b"
    and "k = sent_count s (length bs)" "s' = nos_ipc_process_tx i s"
  shows "conn_ok (conns s' ! i) \<and> conn_items (conns s' ! i) = drop k bs \<and>
    wire s' = wire s @ map (\<lambda>b. (conn_fd (conns s ! i), msgs s b)) (take k bs) \<and>
    bufs_ok s' \<and> (\<forall>b. buf_held s' b = buf_held s b - count_list (take k bs) b) \<and>
    tx_packets (stats s') = tx_packets (stats s) + of_nat k \<and>
    (if tx_failed s (length bs) k
     then conn_fd (conns s' ! i) = - 1 \<and> \<not> is_connected (conns s' ! i) \<and> tx_errors (stats s') = tx_errors (stats s) + 1
     else conn_fd (conns s' ! i) = conn_fd (conns s ! i) \<and> is_connected (conns s' ! i) = is_connected (conns s ! i) \<and>
       is_congested (conns s' ! i) = (is_congested (conns s ! i) \<and> k < length bs))"
  using process_tx_spec[OF assms] by presburger

theorem nos_ipc_process_tx_correct_witness:
  "let s' = nos_ipc_process_tx 0 (ipc_sample [sample_conn 9 [PoolBuf 0 1] True] (\<lambda>_. Sent))
   in wire s' = [(9, sample_msg 5)] \<and> conn_items (conns s' ! 0) = [] \<and> \<not> is_congested (conns s' ! 0) \<and> buf_held s' (PoolBuf 0 1) = 0"
proof -
  let ?s = "ipc_sample [sample_conn 9 [PoolBuf 0 1] True] (\<lambda>_. Sent)"
  have c: "0 < length (conns ?s)" "conn_ok (conns ?s ! 0)" "[PoolBuf 0 1] = conn_items (conns ?s ! 0)"
    by (simp_all add: sample_conn_ok)
  have h: "count_list [PoolBuf 0 1] b \<le> buf_held ?s b" for b by simp
  have k: "1 = sent_count ?s (length [PoolBuf 0 1])" by (simp add: sent_count_def)
  have fd: "conn_fd (conns ?s ! 0) = 9" "is_congested (conns ?s ! 0)" by (simp_all add: sample_conn_def)
  show ?thesis
    using nos_ipc_process_tx_correct[OF c ipc_sample_bufs(1) h k refl] fd by (simp add: Let_def tx_failed_def)
qed

text \<open>
  C19 A link that stays up is a lossless FIFO: over any sequence of sends and of events of its socket, the messages
  on the wire followed by those still queued are those that were queued before followed by those
  accepted since, in this order; every refused one is counted, and none is refused while at most 900
  are waiting. Each queued message has one reference, which it loses when it is sent.
\<close>

theorem nos_ipc_link_fifo:
  assumes "link_up i nname uds_path s" "\<And>n. os_sends s n \<noteq> Send_failed" "tx_refs i (tx_sends ops) s"
    "\<And>b. buf_held s b + length ops < 2 ^ 31" "tx_run i nname uds_path s ops = (s', acc)"
  shows "\<exists>sent. link_up i nname uds_path s' \<and> conn_items (conns s ! i) @ acc = sent @ conn_items (conns s' ! i) \<and>
    wire s' = wire s @ map (\<lambda>b. (conn_fd (conns s ! i), msgs s b)) sent \<and>
    (\<forall>x. buf_held s' x + count_list sent x = buf_held s x + count_list acc x) \<and>
    dropped_full (stats s') + of_nat (length acc) = dropped_full (stats s) + of_nat (length (tx_sends ops)) \<and>
    (length (conn_items (conns s ! i)) + length (tx_sends ops) \<le> 901 \<longrightarrow> acc = tx_sends ops)"
  using tx_run_balance[OF assms] .

theorem nos_ipc_link_fifo_witness:
  "\<exists>s' sent. tx_run 0 (Some ''B'') None (ipc_sample [sample_conn 9 [] False] (\<lambda>_. Sent)) [TxSend (PoolBuf 0 1), TxReady, TxSend (PoolBuf 0 1)] =
      (s', [PoolBuf 0 1, PoolBuf 0 1]) \<and> [PoolBuf 0 1, PoolBuf 0 1] = sent @ conn_items (conns s' ! 0) \<and>
      wire s' = map (\<lambda>b. (9, sample_msg 5)) sent"
proof -
  let ?s = "ipc_sample [sample_conn 9 [] False] (\<lambda>_. Sent)" and ?ops = "[TxSend (PoolBuf 0 1), TxReady, TxSend (PoolBuf 0 1)]"
  obtain s' acc where r: "tx_run 0 (Some ''B'') None ?s ?ops = (s', acc)" by (metis prod.exhaust)
  have up: "link_up 0 (Some ''B'') None ?s"
    by (simp add: link_up_def get_conn_find sample_conn_ok find_slot_def key_matches_def conn_key_def) (simp add: sample_conn_def)
  have os: "os_sends ?s n \<noteq> Send_failed" for n by simp
  have refs: "tx_refs 0 (tx_sends ?ops) ?s" by (simp add: tx_refs_def sample_conn_ok)
  have small: "buf_held ?s b + length ?ops < 2 ^ 31" for b by simp
  have fd: "conn_fd (conns ?s ! 0) = 9" "conn_items (conns ?s ! 0) = []" by (simp_all add: sample_conn_ok) (simp add: sample_conn_def)
  obtain sent where "conn_items (conns ?s ! 0) @ acc = sent @ conn_items (conns s' ! 0)"
    "wire s' = wire ?s @ map (\<lambda>b. (conn_fd (conns ?s ! 0), msgs ?s b)) sent"
    "length (conn_items (conns ?s ! 0)) + length (tx_sends ?ops) \<le> 901 \<longrightarrow> acc = tx_sends ?ops"
    using nos_ipc_link_fifo[OF up os refs small r] by blast
  then have "acc = [PoolBuf 0 1, PoolBuf 0 1]" "acc = sent @ conn_items (conns s' ! 0)" "wire s' = map (\<lambda>b. (9, sample_msg 5)) sent"
    using fd by simp_all
  then show ?thesis using r by (intro exI[of _ s'] exI[of _ sent]) (simp only: simp_thms)
qed

text \<open>
  C25 Receiving: a message of the protocol for a service of this node is put into a buffer of its own and appended to the
  queue of the thread of its provider, which then holds the only reference; when that queue is full the
  message is lost, though counted as received, and its buffer is free again. The end of a connection or a
  message with a wrong magic number closes the link: it is not watched any more, what was queued for it is kept.
\<close>

theorem nos_ipc_recv_correct:
  assumes "bufs_ok s" "i < length (conns s)"
  shows "(plain_msg m \<longrightarrow> node_alloc (Inl (ucast (full_len m), 0)) s = Some (b, s1) \<longrightarrow>
      reg_route (registry s) (dst_service m) = Some (Local p (Some q)) \<longrightarrow> node_queue_ok s q \<longrightarrow>
      (\<exists>s'. nos_ipc_recv_handler fuel (Peek m) (Some m) fd conn r s = Returned s' \<and> msgs s' b = m \<and> bufs_ok s' \<and>
        node_queue_ok s' q \<and> rx_packets (stats s') = rx_packets (stats s) + 1 \<and>
        (if length (node_queue s q) = 1023 then node_queue s' q = node_queue s q \<and> buf_held s' = buf_held s
         else node_queue s' q = node_queue s q @ [b] \<and> buf_held s b = 0 \<and> buf_held s' = (buf_held s)(b := 1)))) \<and>
    (peek = Peek_closed \<or> peek = Peek m \<and> msg_magic m \<noteq> NOS_IPC_MAGIC \<longrightarrow>
      (\<exists>s'. nos_ipc_recv_handler fuel peek got fd (Some i) r s = Returned s' \<and> conn_fd (conns s' ! i) = - 1 \<and>
        \<not> is_connected (conns s' ! i) \<and> conn_items (conns s' ! i) = conn_items (conns s ! i) \<and> buf_held s' = buf_held s \<and>
        (\<forall>th. threads s' Mgmt = Some th \<longrightarrow> event_entry th fd = None)))"
proof (rule conjI[OF impI[OF impI[OF impI[OF impI]]] impI])
  show "\<exists>s'. nos_ipc_recv_handler fuel (Peek m) (Some m) fd conn r s = Returned s' \<and> msgs s' b = m \<and> bufs_ok s' \<and>
        node_queue_ok s' q \<and> rx_packets (stats s') = rx_packets (stats s) + 1 \<and>
        (if length (node_queue s q) = 1023 then node_queue s' q = node_queue s q \<and> buf_held s' = buf_held s
         else node_queue s' q = node_queue s q @ [b] \<and> buf_held s b = 0 \<and> buf_held s' = (buf_held s)(b := 1))"
    if "plain_msg m" "node_alloc (Inl (ucast (full_len m), 0)) s = Some (b, s1)"
      "reg_route (registry s) (dst_service m) = Some (Local p (Some q))" "node_queue_ok s q"
    using recv_local[OF that assms(1)] .
  assume closed: "peek = Peek_closed \<or> peek = Peek m \<and> msg_magic m \<noteq> NOS_IPC_MAGIC"
  define s' where "s' = drop_link fd (Some i) r s"
  have h: "nos_ipc_recv_handler fuel peek got fd (Some i) r s = Returned s'"
    using closed by (auto simp: nos_ipc_recv_handler_def s'_def)
  have c: "conns s' ! i = (conns s ! i)\<lparr>conn_fd := - 1, is_connected := False\<rparr>" "buf_held s' = buf_held s"
    using assms(2) by (simp_all add: s'_def drop_link_def close_fd_def remove_fd_def)
  have k: "conn_items ((conns s ! i)\<lparr>conn_fd := - 1, is_connected := False\<rparr>) = conn_items (conns s ! i)"
    by (rule conn_ok_cong(2)) simp_all
  have "event_entry th fd = None" if "threads s' Mgmt = Some th" for th
    using that by (auto simp: s'_def drop_link_def close_fd_def remove_fd_def event_entry_def)
  then show "\<exists>s'. nos_ipc_recv_handler fuel peek got fd (Some i) r s = Returned s' \<and> conn_fd (conns s' ! i) = - 1 \<and>
        \<not> is_connected (conns s' ! i) \<and> conn_items (conns s' ! i) = conn_items (conns s ! i) \<and> buf_held s' = buf_held s \<and>
        (\<forall>th. threads s' Mgmt = Some th \<longrightarrow> event_entry th fd = None)"
    using h c k by auto
qed

theorem nos_ipc_recv_correct_witness:
  "\<exists>s'. nos_ipc_recv_handler 0 (Peek (sample_msg 5)) (Some (sample_msg 5)) 9 None Mgmt (ipc_sample [sample_conn 9 [] False] (\<lambda>_. Sent)) =
      Returned s' \<and> node_queue s' (Worker 0) = [PoolBuf 0 0] \<and> buf_held s' (PoolBuf 0 0) = 1"
proof -
  let ?s = "ipc_sample [sample_conn 9 [] False] (\<lambda>_. Sent)"
  have fl: "ucast (full_len (sample_msg 5)) = (28 :: u32)" by (simp add: full_len_def sample_msg_def MSG_HEADER_SIZE_def)
  obtain s1 where al: "node_alloc (Inl (ucast (full_len (sample_msg 5)), 0)) ?s = Some (PoolBuf 0 0, s1)"
    using ipc_sample_alloc(1) unfolding fl by blast
  have pl: "plain_msg (sample_msg 5)"
    by (simp add: plain_msg_def sample_msg_def NOS_IPC_MAGIC_def NOS_IPC_MSG_HELLO_def NOS_IPC_MSG_SHM_EVENT_def)
  have route: "reg_route (registry ?s) (dst_service (sample_msg 5)) = Some (Local 7 (Some (Worker 0)))"
    using service_5_route by (simp add: sample_msg_def)
  have q: "node_queue_ok ?s (Worker 0)" "node_queue ?s (Worker 0) = []"
    using idle_queue by (simp_all add: node_queue_ok_def node_queue_def)
  have i: "0 < length (conns ?s)" by simp
  show ?thesis
    using nos_ipc_recv_correct[OF ipc_sample_bufs(1) i, THEN conjunct1, rule_format, OF pl al route q(1), where fuel = 0 and fd = 9 and conn = None and r = Mgmt]
      q(2) by auto
qed

text \<open>
  C34 The greeting connects two nodes both ways: a greeting is queued with one reference and, received on a link that is
  not known by name yet, makes it the connection to the greeting node, so that messages to that node go
  over this link; this needs a name of at most 31 characters and fewer than 16 connections.
\<close>

theorem nos_ipc_hello_roundtrip:
  assumes "i < length (conns s)" "conn_ok (conns s ! i)" "length (conn_items (conns s ! i)) < 1023" "bufs_ok s"
    "node_alloc (Inl (of_nat MSG_HEADER_SIZE + 32, 0)) s = Some (b, s1)" "s' = nos_ipc_send_hello i s"
    and "CHR 0x00 \<notin> set (local_name s)" "length (local_name s) \<le> 31"
    and "length (conns t) < MAX_REMOTE_CONNS" "bufs_ok t" "node_alloc (Inl (ucast (full_len (msgs s' b)), 0)) t = Some (c, t1)"
  shows "conn_items (conns s' ! i) = conn_items (conns s ! i) @ [b] \<and> buf_held s' = (buf_held s)(b := 1) \<and>
    (\<exists>t' k. nos_ipc_recv_handler fuel (Peek (msgs s' b)) (Some (msgs s' b)) fd None r t = Returned t' \<and>
      get_or_create_conn (Some (local_name s)) None t' = (Some k, t') \<and> conn_fd (conns t' ! k) = fd \<and>
      is_connected (conns t' ! k) \<and> bufs_ok t' \<and> buf_held t' = buf_held t)"
  using send_hello_queued[OF assms(1-6)] recv_hello_msg[OF _ assms(7-11)] by blast

theorem nos_ipc_hello_roundtrip_witness:
  "let s' = nos_ipc_send_hello 0 (ipc_sample [sample_conn 9 [] False] (\<lambda>_. Sent)); m = msgs s' (PoolBuf 0 0) in
   conn_items (conns s' ! 0) = [PoolBuf 0 0] \<and>
   (\<exists>t' k. nos_ipc_recv_handler 0 (Peek m) (Some m) 12 None Mgmt (ipc_sample [] (\<lambda>_. Sent)) = Returned t' \<and>
      get_or_create_conn (Some ''A'') None t' = (Some k, t') \<and> conn_fd (conns t' ! k) = 12)"
proof -
  let ?s = "ipc_sample [sample_conn 9 [] False] (\<lambda>_. Sent)" and ?t = "ipc_sample [] (\<lambda>_. Sent)"
  have sz: "of_nat MSG_HEADER_SIZE + 32 = (60 :: u32)" by (simp add: MSG_HEADER_SIZE_def)
  obtain s1 where al: "node_alloc (Inl (of_nat MSG_HEADER_SIZE + 32, 0)) ?s = Some (PoolBuf 0 0, s1)"
    using ipc_sample_alloc(3) unfolding sz by blast
  have i: "0 < length (conns ?s)" "conn_ok (conns ?s ! 0)" "length (conn_items (conns ?s ! 0)) < 1023"
    by (simp_all add: sample_conn_ok)
  have m: "hello_msg ''A'' (msgs (nos_ipc_send_hello 0 ?s) (PoolBuf 0 0))"
    using send_hello_queued(2)[OF i ipc_sample_bufs(1) al refl] by simp
  then have "ucast (full_len (msgs (nos_ipc_send_hello 0 ?s) (PoolBuf 0 0))) = (30 :: u32)"
    by (simp add: hello_msg_def full_len_def MSG_HEADER_SIZE_def)
  then obtain t1 where al2: "node_alloc (Inl (ucast (full_len (msgs (nos_ipc_send_hello 0 ?s) (PoolBuf 0 0))), 0)) ?t = Some (PoolBuf 0 0, t1)"
    using ipc_sample_alloc(2) by auto
  have n: "CHR 0x00 \<notin> set (local_name ?s)" "length (local_name ?s) \<le> 31" "length (conns ?t) < MAX_REMOTE_CONNS"
    by (simp_all add: MAX_REMOTE_CONNS_def)
  show ?thesis
    using nos_ipc_hello_roundtrip[OF i ipc_sample_bufs(1) al refl n ipc_sample_bufs(1) al2, of 0 12 Mgmt] i
    by (simp add: Let_def sample_conn_ok) blast
qed

text \<open>
  Remote services registered without a node name share one link: \<open>nos_service_register_remote\<close> stores the name
  ``Unknown'' for every path, and connections are looked up by name first, so messages for the second
  path are sent to the process that listens on the first.
\<close>

theorem remote_services_share_link:
  "let reg = snd (nos_service_register_remote 2 (Some ''/tmp/y'') (snd (nos_service_register_remote 1 (Some ''/tmp/x'') empty_registry)));
       (i, s1) = get_or_create_conn (Some ''Unknown'') (Some ''/tmp/x'') (ipc_sample [] os);
       (j, s2) = get_or_create_conn (Some ''Unknown'') (Some ''/tmp/y'') s1
   in reg_route reg 1 = Some (Remote ''Unknown'' ''/tmp/x'') \<and> reg_route reg 2 = Some (Remote ''Unknown'' ''/tmp/y'') \<and>
     i = Some 0 \<and> j = Some 0 \<and> conn_uds_path (conns s2 ! 0) = ''/tmp/x''"
proof -
  let ?reg = "snd (nos_service_register_remote 2 (Some ''/tmp/y'') (snd (nos_service_register_remote 1 (Some ''/tmp/x'') empty_registry)))"
  have "reg_route ?reg 1 = Some (Remote ''Unknown'' ''/tmp/x'')" "reg_route ?reg 2 = Some (Remote ''Unknown'' ''/tmp/y'')"
    by code_simp+
  then show ?thesis
    by (simp add: Let_def get_or_create_conn_def find_slot_def MAX_REMOTE_CONNS_def)
qed

text \<open>
  The size of the buffer for a received message is cut to 32 bits but the message is read with its
  full length: a header that announces nearly 4 GB gets a buffer of a few bytes.
\<close>

lemma recv_length_truncated:
  "payload_len m = 0xFFFFFFF0 \<Longrightarrow> ucast (full_len m) = (12 :: u32) \<and> full_len m = 2 ^ 32 + 12"
  by (simp add: full_len_def MSG_HEADER_SIZE_def)

end
