(* ===== verification/NodeMgrClaims.thy ===== *)
theory NodeMgrClaims
  imports NodeMgrProps IpcClaims
begin

text \<open>
  The properties of the node manager: starting a node from its manifest, unloading and reloading a
  component.
\<close>

section \<open>A sample manifest\<close>

text \<open>Node A has one worker with component 7 (``hb''), which provides service 5; service 6 is on node B.\<close>

definition sample_def :: nos_node_def where
  "sample_def = \<lparr>nd_name = ''A'', nd_uds_path = ''/tmp/a'', nd_buffer_pools = [],
     nd_threads = [\<lparr>td_name = ''Worker-1'', td_comp_ids = [7, 0], td_comp_names = [''hb'', []], td_comp_models = [''libhb.so'', []]\<rparr>],
     nd_services = [\<lparr>sd_service_name = ''hb'', sd_service_id = 5, sd_node_name = ''A'', sd_provider_comp_id = 7, sd_remote_uds_path = None\<rparr>,
                    \<lparr>sd_service_name = ''db'', sd_service_id = 6, sd_node_name = ''B'', sd_provider_comp_id = 8, sd_remote_uds_path = Some ''/tmp/b''\<rparr>],
     nd_busy_poll_cycles = 0, nd_platform_inits = []\<rparr>"

definition sample_env :: "unit mgr_env" where
  "sample_env = \<lparr>dl_open = (\<lambda>_. 1), dl_export = (\<lambda>_. Some (\<lambda>c. (NOS_OK, c\<lparr>comp_init := 1, comp_start := 2, comp_stop := 3, comp_on_msg := 4\<rparr>))),
     call_init = (\<lambda>_ _ s. (NOS_OK, s)), call_stop = (\<lambda>_ _ s. s)\<rparr>"

definition sample_unstarted :: "unit mgr_node_scheme" where
  "sample_unstarted =
     \<lparr>threads = Map.empty, worker_count = 0, timers = Map.empty, clock = (\<lambda>_. (5, 0)), clock_reads = 0,
      registry = empty_registry, bufs = one_buf_pool, shmem = fresh_shm, comps = Map.empty, msgs = (\<lambda>_. sample_msg 5),
      conns = [], stats = zero_stats, local_name = ''A'', local_queue = None, os_sends = (\<lambda>_. Sent), send_no = 0,
      os_connects = (\<lambda>_. None), connect_no = 0, wire = [],
      node_def = sample_def, loaded_info = [], log_ctx = g_log_ctx, comp_addrs = (\<lambda>n. n + 20), addr_no = 0\<rparr>"

definition sample_started :: "unit mgr_node_scheme" where
  "sample_started = node_start sample_env (\<lambda>_. 4) 5 True True sample_def sample_unstarted"

lemma sample_quiet: "load_quiet sample_env" "stop_quiet sample_env"
  by (simp_all add: load_quiet_def stop_quiet_def sample_env_def)

lemma sample_fits: "unstarted sample_def sample_unstarted" "manifest_fits sample_def"
  by (simp_all add: unstarted_def sample_unstarted_def addrs_distinct_def manifest_fits_def sample_def_def thread_entries_def
      MAX_COMPONENTS_PER_NODE_def MAX_SERVICES_def)

lemmas start_defs = node_start_def node_init_mgmt_def nos_scheduler_init_thread_def Let_def nos_ipc_init_def
  nos_scheduler_add_fd_def nos_scheduler_add_fd_ex_def epoll_ctl_add_def zero_thread_def MAX_FDS_def node_init_workers_def
  init_worker_def thread_entries_def init_component_def node_load_component_internal_def MAX_WORKERS_def
  MAX_COMPONENTS_PER_NODE_def register_on_def nos_scheduler_register_component_def MAX_COMP_PER_THREAD_def upd_thread_def

lemma take_first_slot: "0 < n \<Longrightarrow> take (Suc 0) ((replicate n y)[0 := x]) = [x]"
  by (cases n) simp_all

lemma sample_started_simps:
  "loaded_info sample_started = [\<lparr>info_comp = 20, info_handle = 1, info_lib_name = ''libhb.so'', info_owner = Worker 0\<rparr>]"
  "comps sample_started = [20 \<mapsto> \<lparr>comp_id = 7, comp_name = ''hb'', comp_status = NOS_COMP_ST_INITED, comp_init = 1,
     comp_start = 2, comp_stop = 3, comp_on_msg = 4\<rparr>]"
  "comp_list sample_started (Worker 0) = [20]" "worker_count sample_started = 1" "node_def sample_started = sample_def"
  "comp_addrs sample_started = (\<lambda>n. n + 20)" "addr_no sample_started = 1"
  by (simp_all add: sample_started_def start_defs sample_def_def sample_env_def sample_unstarted_def setup_routing_registry
      comp_list_def comp_tables_def take_first_slot)

lemma sample_targets:
  "svc_target sample_started ''A'' \<lparr>sd_service_name = ''hb'', sd_service_id = 5, sd_node_name = ''A'', sd_provider_comp_id = 7, sd_remote_uds_path = None\<rparr> =
     Some (Local 20 (Some (Worker 0)))"
  "svc_target sample_started ''A'' \<lparr>sd_service_name = ''db'', sd_service_id = 6, sd_node_name = ''B'', sd_provider_comp_id = 8, sd_remote_uds_path = Some ''/tmp/b''\<rparr> =
     Some (Remote ''B'' ''/tmp/b'')"
proof -
  have "threads sample_started (Worker 0) \<noteq> None"
    using sample_started_simps(3) by (cases "threads sample_started (Worker 0)") (simp_all add: comp_list_def comp_tables_def)
  then obtain th where th: "threads sample_started (Worker 0) = Some th" by auto
  then have "thread_comps th = [20]" using comp_list_thread[OF th] sample_started_simps(3) by simp
  with th show "svc_target sample_started ''A'' \<lparr>sd_service_name = ''hb'', sd_service_id = 5, sd_node_name = ''A'', sd_provider_comp_id = 7, sd_remote_uds_path = None\<rparr> =
     Some (Local 20 (Some (Worker 0)))"
    by (simp add: svc_target_def node_get_loaded_comp_by_id_def sample_started_simps has_comp_id_def find_slot_def)
qed (simp add: svc_target_def)

section \<open>Properties\<close>

text \<open>
  Starting a node: for a manifest of at most 64 components and 64 distinct services the structures of the manager are
  consistent afterwards, whatever fails to load: every component in the table of a thread and every local
  route belongs to a loaded component. Each service has the route that the manifest and
  what is loaded give it.
\<close>

theorem node_start_correct:
  assumes "load_quiet env" "unstarted nd s" "manifest_fits nd" "s' = node_start env efd lfd bok lok nd s"
  shows "mgr_ok s' \<and> (\<forall>svc \<in> set (nd_services nd).
    reg_route (registry s') (sd_service_id svc) = map_option stored_route (svc_target s' (nd_name nd) svc))"
  by (rule node_start_ok[OF assms])

theorem node_start_correct_witness:
  "mgr_ok sample_started \<and> reg_route (registry sample_started) 5 = Some (Local 20 (Some (Worker 0))) \<and>
     reg_route (registry sample_started) 6 = Some (Remote ''B'' ''/tmp/b'')"
proof -
  note st = node_start_correct[OF sample_quiet(1) sample_fits sample_started_def]
  have n: "nd_name sample_def = ''A''" by (simp add: sample_def_def)
  show ?thesis using st sample_targets unfolding n by (simp add: sample_def_def)
qed

lemma sample_started_ok: "mgr_ok sample_started"
  using node_start_ok[OF sample_quiet(1) sample_fits sample_started_def] by simp



text \<open>
  C26 Reloading: the component is loaded again under its id and name, is initialised and in the table of its thread, and exactly
  the services of this node that the manifest assigns to it are routed to the new object; when loading
  fails nothing points to the old object any more. The new component is initialised but not started.
\<close>

theorem node_reload_correct:
  assumes "mgr_ok s" "stop_quiet env" "load_quiet env"
    and "find_loaded name s = Some k" "i = loaded_info s ! k" "comps s (info_comp i) = Some c"
    and "info_comp i \<in> set (comp_list s (info_owner i))"
    and "q = comp_addrs s (addr_no s)" "q = info_comp i \<or> comps s q = None"
    and "node_reload_component env name s = (st, s')"
  shows "mgr_ok s' \<and>
    (if st = NOS_OK
     then (\<exists>c'. comps s' q = Some c' \<and> comp_id c' = comp_id c \<and> comp_name c' = name \<and> comp_status c' = NOS_COMP_ST_INITED) \<and>
       q \<in> set (comp_list s' (info_owner i)) \<and>
       (\<forall>svc \<in> set (nd_services (node_def s)). sd_provider_comp_id svc = comp_id c \<and> sd_node_name svc = nd_name (node_def s) \<longrightarrow>
          reg_route (registry s') (sd_service_id svc) = Some (Local q (Some (info_owner i))))
     else st = NOS_ERR \<and> (\<forall>sid t. reg_route (registry s') sid \<noteq> Some (Local (info_comp i) t)) \<and>
       (\<forall>r. info_comp i \<notin> set (comp_list s' r)))"
  by (rule reload_ok[OF assms])

theorem node_reload_correct_witness:
  "\<exists>st s'. node_reload_component sample_env ''hb'' sample_started = (st, s') \<and> mgr_ok s' \<and>
     (st = NOS_OK \<longrightarrow> reg_route (registry s') 5 = Some (Local 21 (Some (Worker 0))))"
proof -
  let ?s = sample_started
  obtain st s' where r: "node_reload_component sample_env ''hb'' ?s = (st, s')" by (metis prod.exhaust)
  let ?i = "\<lparr>info_comp = 20, info_handle = 1, info_lib_name = ''libhb.so'', info_owner = Worker 0\<rparr>"
  let ?c = "\<lparr>comp_id = 7, comp_name = ''hb'', comp_status = NOS_COMP_ST_INITED, comp_init = 1, comp_start = 2, comp_stop = 3, comp_on_msg = 4\<rparr>"
  have f: "find_loaded ''hb'' ?s = Some 0" "?i = loaded_info ?s ! 0" "comps ?s (info_comp ?i) = Some ?c"
    "info_comp ?i \<in> set (comp_list ?s (info_owner ?i))" "21 = comp_addrs ?s (addr_no ?s)" "21 = info_comp ?i \<or> comps ?s 21 = None"
    by (simp_all add: find_loaded_def sample_started_simps find_slot_def)
  show ?thesis
    using node_reload_correct[OF sample_started_ok sample_quiet(2,1) f(1-6) r] r by (auto simp: sample_started_simps sample_def_def)
qed

end
