(* ===== verification/RefCount.thy ===== *)
theory RefCount
  imports NodeMgr
begin

text \<open>
  The accounting of references in a node. A reference to a buffer of the local pool is held by an
  entry of a thread's queue, by an entry of a link's transmit queue, or by running code. \<open>owned s hs\<close> says that
  these are all: the reference count of every buffer is the number of its entries in the queues
  plus the number of times it occurs in \<open>hs\<close>, the list of references that running code holds. This theory shows
  what the primitive operations do to it.
\<close>

section \<open>Who has references\<close>

definition flow_threads :: "thread_ref list" where
  "flow_threads = Mgmt # map Worker [0..<MAX_WORKERS]"

definition queued :: "'z ipc_node_scheme \<Rightarrow> buf_ref \<Rightarrow> nat" where
  "queued s b = (\<Sum>r\<leftarrow>flow_threads. count_list (node_queue s r) b) + (\<Sum>c\<leftarrow>conns s. count_list (conn_items c) b)"

text \<open>A thread of the array that no manifest entry uses was never initialised: it has no queue and no route.\<close>

definition flow_ok :: "'z ipc_node_scheme \<Rightarrow> bool" where
  "flow_ok s \<longleftrightarrow> pool_ok (bufs s) \<and>
     (\<forall>r. queue_view s r = None \<or> r \<in> set flow_threads \<and> (node_queue_ok s r \<or> queue_view s r = Some ([], 0, 0))) \<and>
     (\<forall>c \<in> set (conns s). conn_ok c) \<and> length (conns s) \<le> MAX_REMOTE_CONNS \<and>
     (\<forall>sid p r. reg_route (registry s) sid = Some (Local p (Some r)) \<longrightarrow> queue_view s r = None \<or> node_queue_ok s r)"

definition owned :: "'z ipc_node_scheme \<Rightarrow> buf_ref list \<Rightarrow> bool" where
  "owned s hs \<longleftrightarrow> flow_ok s \<and>
     (\<forall>i j. pool_held (bufs s) (i, j) = queued s (PoolBuf i j) + count_list hs (PoolBuf i j))"

definition conn_view :: "nos_ipc_conn \<Rightarrow> buf_ref option list \<times> nat \<times> nat" where
  "conn_view c = (tx_queue c, conn_head c, conn_tail c)"

definition flow_view ::
  "'z ipc_node_scheme \<Rightarrow> (thread_ref \<Rightarrow> (buf_ref option list \<times> nat \<times> nat) option) \<times>
     (buf_ref option list \<times> nat \<times> nat) list \<times> bufpool \<times> service_registry" where
  "flow_view s = (queue_view s, map conn_view (conns s), bufs s, registry s)"

lemma conn_view_cong: "conn_view c' = conn_view c \<Longrightarrow> conn_ok c' = conn_ok c \<and> conn_items c' = conn_items c"
  using conn_ok_cong[of c' c] by (simp add: conn_view_def)

lemma map_view_cong:
  "map conn_view cs' = map conn_view cs \<Longrightarrow>
     length cs' = length cs \<and> map conn_items cs' = map conn_items cs \<and> ((\<forall>c \<in> set cs'. conn_ok c) \<longleftrightarrow> (\<forall>c \<in> set cs. conn_ok c))"
proof (induction cs arbitrary: cs')
  case (Cons c cs)
  then obtain c' ds where d: "cs' = c' # ds" "conn_view c' = conn_view c" "map conn_view ds = map conn_view cs" by (cases cs') auto
  show ?case using Cons.IH[OF d(3)] conn_view_cong[OF d(2)] by (simp add: d(1))
qed simp

lemma owned_view:
  fixes s :: "'y ipc_node_scheme" and s' :: "'z ipc_node_scheme"
  assumes "flow_view s' = flow_view s"
  shows "owned s' hs = owned s hs"
proof -
  have v: "queue_view s' = queue_view s" "map conn_view (conns s') = map conn_view (conns s)" "bufs s' = bufs s" "registry s' = registry s"
    using assms by (auto simp: flow_view_def)
  have q: "node_queue s' r = node_queue s r" "node_queue_ok s' r = node_queue_ok s r" for r
    by (rule queue_view_eq[OF fun_cong[OF v(1)]])+
  have c: "length (conns s') = length (conns s)" "map conn_items (conns s') = map conn_items (conns s)"
    "(\<forall>c \<in> set (conns s'). conn_ok c) = (\<forall>c \<in> set (conns s). conn_ok c)"
    using map_view_cong[OF v(2)] by blast+
  have l: "(\<Sum>x\<leftarrow>conns s'. count_list (conn_items x) b) = (\<Sum>x\<leftarrow>conns s. count_list (conn_items x) b)" for b
    using arg_cong[OF c(2), of "\<lambda>is. sum_list (map (\<lambda>i. count_list i b) is)"] by (simp add: comp_def)
  show ?thesis
    unfolding owned_def flow_ok_def queued_def q c l v ..
qed

lemma ownedD:
  assumes "owned s hs"
  shows "pool_ok (bufs s)" "pool_held (bufs s) (i, j) = queued s (PoolBuf i j) + count_list hs (PoolBuf i j)"
    "queue_view s r \<noteq> None \<Longrightarrow> r \<in> set flow_threads" "node_queue s r \<noteq> [] \<Longrightarrow> node_queue_ok s r"
    "c \<in> set (conns s) \<Longrightarrow> conn_ok c" "length (conns s) \<le> MAX_REMOTE_CONNS"
    "reg_route (registry s) sid = Some (Local p (Some r)) \<Longrightarrow> threads s r = Some th \<Longrightarrow> queue_ok th"
    "threads s r = Some th \<Longrightarrow> queue_ok th \<or> head th = tail th"
proof -
  have ok: "flow_ok s" using assms by (simp add: owned_def)
  then have t: "queue_view s r = None \<or> r \<in> set flow_threads \<and> (node_queue_ok s r \<or> queue_view s r = Some ([], 0, 0))"
    unfolding flow_ok_def by blast
  show "queue_view s r \<noteq> None \<Longrightarrow> r \<in> set flow_threads" using t by auto
  show "pool_ok (bufs s)" "c \<in> set (conns s) \<Longrightarrow> conn_ok c" "length (conns s) \<le> MAX_REMOTE_CONNS"
    using ok by (simp_all add: flow_ok_def)
  show "pool_held (bufs s) (i, j) = queued s (PoolBuf i j) + count_list hs (PoolBuf i j)"
    using assms by (simp add: owned_def)
  show "node_queue_ok s r" if ne: "node_queue s r \<noteq> []"
  proof (rule ccontr)
    assume no: "\<not> node_queue_ok s r"
    obtain th where th: "threads s r = Some th" using ne by (cases "threads s r") (auto simp: node_queue_def)
    then have "queue_view s r = Some ([], 0, 0)"
      using t no by (simp add: queue_view_def)
    then have "thread_msgs th = []"
      using th by (auto simp: queue_view_def thread_msgs_def thread_slots_def ring_items_empty MAX_QUEUE_SIZE_def)
    then show False using ne th by (simp add: node_queue_def)
  qed
  show "threads s r = Some th \<Longrightarrow> queue_ok th \<or> head th = tail th"
    using t by (auto simp: queue_view_def node_queue_ok_def)
  show "queue_ok th" if "reg_route (registry s) sid = Some (Local p (Some r))" "threads s r = Some th"
  proof -
    have "queue_view s r = None \<or> node_queue_ok s r" using ok that(1) unfolding flow_ok_def by blast
    then show ?thesis using that(2) by (auto simp: queue_view_def node_queue_ok_def)
  qed
qed

section \<open>Sums over the queues\<close>

lemma sum_list_map_upd:
  assumes "distinct xs" "x \<in> set xs" "\<And>y. y \<noteq> x \<Longrightarrow> f y = (g y :: nat)"
  shows "(\<Sum>y\<leftarrow>xs. f y) + g x = (\<Sum>y\<leftarrow>xs. g y) + f x"
  using assms
proof (induction xs)
  case (Cons y ys)
  then show ?case
  proof (cases "y = x")
    case True
    then have "f z = g z" if "z \<in> set ys" for z using Cons.prems(1,3) that by (metis distinct.simps(2))
    then have "map f ys = map g ys" by simp
    from arg_cong[OF this, of sum_list] show ?thesis by (simp add: True)
  qed auto
qed simp

lemma sum_list_update_nat:
  "i < length xs \<Longrightarrow> (\<Sum>y\<leftarrow>xs[i := x]. f y) + f (xs ! i) = (\<Sum>y\<leftarrow>xs. f y) + (f x :: nat)"
proof (induction xs arbitrary: i)
  case (Cons y ys)
  then show ?case by (cases i) auto
qed simp

lemma distinct_flow_threads: "distinct flow_threads"
  by (simp add: flow_threads_def distinct_map inj_on_def image_iff)

lemma sum_list_le: "(\<And>x. x \<in> set xs \<Longrightarrow> f x \<le> (k :: nat)) \<Longrightarrow> (\<Sum>x\<leftarrow>xs. f x) \<le> length xs * k"
  by (induction xs) (auto intro: add_mono)

text \<open>The queues hold far fewer references than a counter can count.\<close>

lemma queued_bound:
  assumes "owned s hs"
  shows "queued s b \<le> 30000"
proof -
  have t: "count_list (node_queue s r) b \<le> 1023" for r
  proof (cases "node_queue s r = []")
    case False
    then obtain th where "threads s r = Some th" "queue_ok th" using ownedD(4)[OF assms] by (auto simp: node_queue_ok_def)
    then have "length (node_queue s r) \<le> 1023" using msg_ring.bounded[of th] by (simp add: node_queue_def MAX_QUEUE_SIZE_def)
    then show ?thesis using count_le_length[of "node_queue s r" b] by linarith
  qed simp
  have c: "count_list (conn_items c) b \<le> 1023" if "c \<in> set (conns s)" for c
    using conn_ring.bounded[OF ownedD(5)[OF assms that]] count_le_length[of "conn_items c" b] by (simp add: TX_QUEUE_SIZE_def)
  have "(\<Sum>r\<leftarrow>flow_threads. count_list (node_queue s r) b) \<le> length flow_threads * 1023"
    by (rule sum_list_le) (rule t)
  moreover have "(\<Sum>c\<leftarrow>conns s. count_list (conn_items c) b) \<le> length (conns s) * 1023"
    by (rule sum_list_le) (rule c)
  ultimately show ?thesis
    using ownedD(6)[OF assms] by (simp add: queued_def flow_threads_def MAX_WORKERS_def MAX_REMOTE_CONNS_def)
qed

section \<open>One operation\<close>

lemma flow_view_simps [simp]:
  "flow_view (count_stat f s) = flow_view s" "flow_view (s\<lparr>send_no := n\<rparr>) = flow_view s"
  "flow_view (s\<lparr>wire := w\<rparr>) = flow_view s" "flow_view (s\<lparr>msgs := ms\<rparr>) = flow_view s"
  "flow_view (s\<lparr>shmem := sh\<rparr>) = flow_view s" "flow_view (s\<lparr>connect_no := n\<rparr>) = flow_view s"
  "flow_view (s\<lparr>comps := cs\<rparr>) = flow_view s" "flow_view (set_rx_queue k q s) = flow_view s"
  by (simp_all add: flow_view_def queue_view_def[abs_def] count_stat_def set_rx_queue_def)

lemma flow_view_thread:
  "(\<And>th. threads s r = Some th \<Longrightarrow> msg_queue (f th) = msg_queue th \<and> head (f th) = head th \<and> tail (f th) = tail th) \<Longrightarrow>
     flow_view (upd_thread r f s) = flow_view s"
  by (cases "threads s r") (auto simp: flow_view_def queue_view_def fun_eq_iff)

lemma flow_view_conn:
  "(\<And>c. conn_view (f c) = conn_view c) \<Longrightarrow> flow_view (upd_conn i f s) = flow_view s"
proof -
  assume f: "\<And>c. conn_view (f c) = conn_view c"
  have "map conn_view ((conns s)[i := f (conns s ! i)]) = (map conn_view (conns s))[i := conn_view (conns s ! i)]"
    by (simp add: map_update f)
  also have "\<dots> = map conn_view (conns s)"
    by (cases "i < length (conns s)") (simp_all add: nth_map[symmetric] list_update_beyond del: nth_map)
  finally show ?thesis by (simp add: flow_view_def queue_view_def[abs_def] upd_conn_def)
qed

lemma owned_bufs:
  assumes "owned s hs" "pool_ok p"
    and "\<And>i j. pool_held p (i, j) + count_list hs (PoolBuf i j) = pool_held (bufs s) (i, j) + count_list hs' (PoolBuf i j)"
  shows "owned (s\<lparr>bufs := p\<rparr>) hs'"
proof -
  have q: "queue_view (s\<lparr>bufs := p\<rparr>) = queue_view s" "node_queue (s\<lparr>bufs := p\<rparr>) = node_queue s"
    "node_queue_ok (s\<lparr>bufs := p\<rparr>) = node_queue_ok s"
    by (simp_all add: queue_view_def[abs_def] node_queue_def[abs_def] node_queue_ok_def[abs_def])
  have "flow_ok (s\<lparr>bufs := p\<rparr>)"
    using assms(1,2) unfolding owned_def flow_ok_def q by simp
  moreover have "pool_held p (i, j) = queued (s\<lparr>bufs := p\<rparr>) (PoolBuf i j) + count_list hs' (PoolBuf i j)" for i j
    using assms(3)[of i j] ownedD(2)[OF assms(1), of i j] by (simp add: queued_def q)
  ultimately show ?thesis by (simp add: owned_def)
qed

lemma owned_alloc:
  assumes "owned s hs" "node_alloc a s = Some (b, s')"
  shows "owned s' (b # hs)"
proof (cases a)
  case (Inl x)
  then obtain i j p where p: "nos_buffer_alloc (fst x) (snd x) (bufs s) = Some ((i, j), p)" "b = PoolBuf i j" "s' = s\<lparr>bufs := p\<rparr>"
    using assms(2) by (cases x) (auto simp: node_alloc_def)
  show ?thesis
    unfolding p(3) by (rule owned_bufs[OF assms(1)]) (use buf_pool.alloc_Some[OF ownedD(1)[OF assms(1)] p(1)] p(2) in auto)
next
  case (Inr sz)
  then obtain o' m where "b = ShmBuf o'" "s' = s\<lparr>shmem := m\<rparr>" using assms(2) by (auto simp: node_alloc_def)
  then show ?thesis using assms(1) owned_view[of s' s hs] by (simp add: owned_def)
qed

lemma owned_release:
  assumes "owned s (b # hs)"
  shows "owned (nos_buffer_release b s) hs"
proof (cases b)
  case (PoolBuf i j)
  have h: "0 < pool_held (bufs s) (i, j)" using ownedD(2)[OF assms, of i j] PoolBuf by simp
  note r = buf_pool.release_held[OF ownedD(1)[OF assms] h]
  show ?thesis
    unfolding PoolBuf nos_buffer_release_def buf_ref.case
    by (rule owned_bufs[OF assms]) (use r h PoolBuf in auto)
next
  case (ShmBuf o')
  then show ?thesis using assms owned_view[of "nos_buffer_release b s" s hs] by (simp add: nos_buffer_release_def owned_def)
qed

lemma owned_retain:
  assumes "owned s hs" "b \<in> set hs" "length hs < 2 ^ 30"
  shows "owned (nos_buffer_retain b s) (b # hs)"
proof (cases b)
  case (PoolBuf i j)
  have h: "0 < pool_held (bufs s) (i, j)"
    using ownedD(2)[OF assms(1), of i j] assms(2) PoolBuf by (metis add_gr_0 count_list_0_iff neq0_conv)
  have "pool_held (bufs s) (i, j) < 2 ^ 31 - 1"
    using ownedD(2)[OF assms(1), of i j] queued_bound[OF assms(1), of b] count_le_length[of hs b] assms(3) PoolBuf by simp
  note r = buf_pool.retain_held[OF ownedD(1)[OF assms(1)] h this]
  show ?thesis
    unfolding PoolBuf nos_buffer_retain_def buf_ref.case
    by (rule owned_bufs[OF assms(1)]) (use r PoolBuf in auto)
next
  case (ShmBuf o')
  then show ?thesis using assms(1) owned_view[of "nos_buffer_retain b s" s hs] by (simp add: nos_buffer_retain_def owned_def)
qed

lemma owned_thread:
  assumes "owned s hs" "threads s r = Some th" "queue_ok th'"
    and "\<And>b. count_list (thread_msgs th') b + count_list hs' b = count_list (thread_msgs th) b + count_list hs b"
  shows "owned (upd_thread r (\<lambda>_. th') s) hs'"
proof -
  let ?s = "upd_thread r (\<lambda>_. th') s"
  have r: "r \<in> set flow_threads" using ownedD(3)[OF assms(1)] assms(2) by (simp add: queue_view_def)
  have nq: "node_queue ?s r = thread_msgs th'" "node_queue s r = thread_msgs th" "y \<noteq> r \<Longrightarrow> node_queue ?s y = node_queue s y" for y
    using assms(2) by (simp_all add: node_queue_def)
  have "queued ?s b + count_list hs' b = queued s b + count_list hs b" for b
    using sum_list_map_upd[OF distinct_flow_threads r, of "\<lambda>r. count_list (node_queue ?s r) b" "\<lambda>r. count_list (node_queue s r) b"]
      nq assms(4)[of b] by (simp add: queued_def)
  moreover have "flow_ok ?s"
  proof -
    have v: "queue_view ?s y = (if y = r then Some (msg_queue th', head th', tail th') else queue_view s y)" for y
      using assms(2) by (simp add: queue_view_def)
    have k: "node_queue_ok ?s y = (y = r \<or> node_queue_ok s y)" for y
      using assms(2,3) by (simp add: node_queue_ok_def)
    show ?thesis using assms(1) r unfolding owned_def flow_ok_def v k by auto
  qed
  ultimately show ?thesis using ownedD(2)[OF assms(1)] by (metis (no_types) owned_def upd_thread_frame(4))
qed

lemma owned_conn:
  assumes "owned s hs" "i < length (conns s)" "conn_ok (f (conns s ! i))"
    and "\<And>b. count_list (conn_items (f (conns s ! i))) b + count_list hs' b = count_list (conn_items (conns s ! i)) b + count_list hs b"
  shows "owned (upd_conn i f s) hs'"
proof -
  let ?s = "upd_conn i f s"
  have q: "queue_view ?s = queue_view s" "node_queue ?s = node_queue s" "node_queue_ok ?s = node_queue_ok s"
    by (simp_all add: queue_view_def[abs_def] node_queue_def[abs_def] node_queue_ok_def[abs_def])
  have "queued ?s b + count_list hs' b = queued s b + count_list hs b" for b
    using sum_list_update_nat[OF assms(2), of "\<lambda>c. count_list (conn_items c) b" "f (conns s ! i)"] assms(4)[of b]
    by (simp add: queued_def q) (simp add: upd_conn_def)
  moreover have "conn_ok c" if "c \<in> set (conns ?s)" for c
  proof -
    have "c = f (conns s ! i) \<or> c \<in> set (conns s)"
      using that set_update_subset_insert[of "conns s" i "f (conns s ! i)"] by (auto simp: upd_conn_def)
    then show ?thesis using assms(3) ownedD(5)[OF assms(1)] by blast
  qed
  moreover have "flow_ok ?s"
    using assms(1) calculation(2) unfolding owned_def flow_ok_def q by auto
  ultimately show ?thesis using ownedD(2)[OF assms(1)] by (metis (no_types) owned_def upd_conn_simps(11))
qed

end
