(* ===== verification/RefFlow.thy ===== *)
theory RefFlow
  imports RefCount
begin

text \<open>
  How the operations that move messages keep the accounting of \<open>RefCount\<close>: sending to a thread, over
  a link or through shared memory, serving a link, receiving from a link, and a thread draining its
  queue with component handlers that keep it themselves.
\<close>

section \<open>Queues of threads and links\<close>

lemma owned_shm [simp]: "owned s (ShmBuf o' # hs) = owned s hs"
  by (simp add: owned_def)

lemma owned_cong: "flow_view s' = flow_view s \<Longrightarrow> owned s hs \<Longrightarrow> owned s' hs"
  using owned_view by blast

lemma fd_views [simp]:
  "flow_view (add_fd r fd ev cb a s) = flow_view s" "flow_view (remove_fd r fd s) = flow_view s"
  "flow_view (close_fd r fd s) = flow_view s" "flow_view (upd_thread r eventfd_write s) = flow_view s"
  unfolding add_fd_def remove_fd_def close_fd_def
  by (rule flow_view_thread;
      simp add: nos_scheduler_add_fd_ex_def nos_scheduler_remove_fd_def Let_def split: option.split)+

lemma owned_simps [simp]:
  "owned (count_stat f s) hs = owned s hs" "owned (s\<lparr>send_no := n\<rparr>) hs = owned s hs"
  "owned (s\<lparr>wire := w\<rparr>) hs = owned s hs" "owned (s\<lparr>msgs := ms\<rparr>) hs = owned s hs"
  "owned (s\<lparr>shmem := sh\<rparr>) hs = owned s hs" "owned (s\<lparr>connect_no := n\<rparr>) hs = owned s hs"
  "owned (set_rx_queue k q s) hs = owned s hs" "owned (upd_thread r eventfd_write s) hs = owned s hs"
  "owned (add_fd r fd ev cb a s) hs = owned s hs" "owned (remove_fd r fd s) hs = owned s hs"
  "owned (close_fd r fd s) hs = owned s hs"
  by (rule owned_view, simp)+

lemma owned_local_send:
  assumes "owned s hs" "b \<in> set hs" "length hs < 2 ^ 30"
    and ok: "\<And>r th. t = Some r \<Longrightarrow> threads s r = Some th \<Longrightarrow> queue_ok th"
  shows "owned (snd (nos_transport_local_send b t s)) hs"
proof -
  have "owned (if is_sleeping th' then upd_thread r eventfd_write (upd_thread r (\<lambda>_. th') (nos_buffer_retain b s))
      else upd_thread r (\<lambda>_. th') (nos_buffer_retain b s)) hs"
    if t: "t = Some r" "threads s r = Some th" "thread_enq b th = Some th'" for r th th'
  proof -
    note e = msg_ring.enq_Some[OF ok[OF t(1,2)] t(3)]
    have "owned (upd_thread r (\<lambda>_. th') (nos_buffer_retain b s)) hs"
      by (rule owned_thread[OF owned_retain[OF assms(1-3)], of r th]) (use t e in auto)
    then show ?thesis by simp
  qed
  then show ?thesis using assms(1) by (auto simp: nos_transport_local_send_def Let_def split: option.split)
qed

lemma upd_conn_release: "upd_conn i f (nos_buffer_release b s) = nos_buffer_release b (upd_conn i f s)"
  by (cases b) (simp_all add: upd_conn_def nos_buffer_release_def)

lemma owned_msg_sent:
  assumes "owned s hs" "i < length (conns s)" "conn_items (conns s ! i) = b # bs"
  shows "owned (msg_sent i b s) hs"
proof -
  let ?f = "\<lambda>c. c\<lparr>conn_head := (conn_head c + 1) mod TX_QUEUE_SIZE\<rparr>"
  let ?s = "(count_stat (\<lambda>st. st\<lparr>tx_packets := tx_packets st + 1, tx_bytes := tx_bytes st + full_len (msgs s b)\<rparr>) s)
     \<lparr>wire := wire s @ [(conn_fd (conns s ! i), msgs s b)]\<rparr>"
  have c: "conn_ok (conns s ! i)" using ownedD(5)[OF assms(1)] assms(2) by simp
  note h = conn_head_entry[OF c assms(3)]
  have s: "owned ?s hs" using assms(1) by (rule owned_cong[rotated]) simp
  have cs: "conns ?s = conns s" by simp
  have "owned (upd_conn i ?f ?s) (b # hs)"
  proof (rule owned_conn[OF s])
    show "i < length (conns ?s)" using assms(2) by simp
    show "conn_ok (?f (conns ?s ! i))" unfolding cs by (rule h(3))
    show "count_list (conn_items (?f (conns ?s ! i))) x + count_list (b # hs) x = count_list (conn_items (conns ?s ! i)) x + count_list hs x" for x
      unfolding cs h(4) assms(3) by simp
  qed
  then have "owned (nos_buffer_release b (upd_conn i ?f ?s)) hs" by (rule owned_release)
  then show ?thesis by (simp add: msg_sent_def Let_def upd_conn_release)
qed

lemma owned_process_tx_loop:
  "owned s hs \<Longrightarrow> i < length (conns s) \<Longrightarrow> owned (process_tx_loop n i s) hs"
proof (induction n arbitrary: s)
  case (Suc n)
  let ?c = "conns s ! i" and ?s = "s\<lparr>send_no := send_no s + 1\<rparr>"
  have c: "conn_ok ?c" using ownedD(5)[OF Suc.prems(1)] Suc.prems(2) by simp
  have s: "owned ?s hs" using Suc.prems(1) by (rule owned_cong[rotated]) simp
  have idle: "owned (upd_conn i (\<lambda>c. c\<lparr>is_congested := False\<rparr>) s) hs"
    using Suc.prems(1) by (rule owned_cong[rotated]) (rule flow_view_conn, simp add: conn_view_def)
  have failed: "owned (link_failed i ?s) hs"
    using s by (rule owned_cong[rotated]) (simp add: link_failed_def Let_def flow_view_conn conn_view_def)
  show ?case
  proof (cases "conn_head ?c = conn_tail ?c")
    case True
    then show ?thesis using Suc.prems(1) idle by (simp add: Let_def)
  next
    case False
    then obtain b bs where b: "conn_items ?c = b # bs" using conn_empty[OF c] by (cases "conn_items ?c") auto
    note h = conn_head_entry[OF c b]
    have "owned (msg_sent i b ?s) hs" by (rule owned_msg_sent[OF s]) (use Suc.prems(2) b in simp_all)
    then have "owned (process_tx_loop n i (msg_sent i b ?s)) hs"
      by (rule Suc.IH) (use Suc.prems(2) in \<open>simp add: msg_sent_def Let_def\<close>)
    then show ?thesis
      using False h(2) s failed by (cases "os_sends s (send_no s)") (simp_all add: Let_def)
  qed
qed simp

lemma owned_process_tx: "owned s hs \<Longrightarrow> i < length (conns s) \<Longrightarrow> owned (nos_ipc_process_tx i s) hs"
  by (simp add: nos_ipc_process_tx_def owned_process_tx_loop)

section \<open>Links\<close>

lemma owned_new_conn:
  assumes "owned s hs" "length (conns s) < MAX_REMOTE_CONNS" "conn_ok c" "conn_items c = []"
  shows "owned (s\<lparr>conns := conns s @ [c]\<rparr>) hs"
proof -
  let ?s = "s\<lparr>conns := conns s @ [c]\<rparr>"
  have q: "queue_view ?s = queue_view s" "node_queue ?s = node_queue s" "node_queue_ok ?s = node_queue_ok s"
    by (simp_all add: queue_view_def[abs_def] node_queue_def[abs_def] node_queue_ok_def[abs_def])
  have "queued ?s b = queued s b" for b by (simp add: queued_def q assms(4))
  then show ?thesis using assms unfolding owned_def flow_ok_def q by auto
qed

lemma owned_get_conn:
  assumes "owned s hs" "get_or_create_conn nname path s = (k, s')"
  shows "owned s' hs" "k = Some i \<Longrightarrow> i < length (conns s')"
proof -
  let ?c = "\<lparr>conn_node_name = (case nname of Some n \<Rightarrow> strncpy_field 32 n | None \<Rightarrow> ''Unknown''),
     conn_uds_path = (case path of Some p \<Rightarrow> strncpy_field 108 p | None \<Rightarrow> ''Passive''), conn_fd = - 1,
     tx_queue = replicate TX_QUEUE_SIZE None, conn_head = 0, conn_tail = 0, is_connected = False, is_congested = False\<rparr>"
  have "0 < TX_QUEUE_SIZE" by (simp add: TX_QUEUE_SIZE_def)
  moreover from this have "ring_items TX_QUEUE_SIZE a 0 0 = []" for a :: "buf_ref option list"
    by (simp add: ring_items_empty)
  ultimately have c: "conn_ok ?c" "conn_items ?c = []"
    by (simp_all add: conn_ok_def conn_items_def conn_slots_def ring_ok_def)
  have new: "owned (s\<lparr>conns := conns s @ [?c]\<rparr>) hs" if "length (conns s) < MAX_REMOTE_CONNS"
    by (rule owned_new_conn[OF assms(1) that c])
  show "owned s' hs"
    using assms new by (auto simp: get_or_create_conn_def split: option.splits if_splits)
  show "i < length (conns s')" if "k = Some i"
    using assms(2) that by (auto simp: get_or_create_conn_def find_slot_Some split: option.splits if_splits)
qed

lemma owned_hello:
  assumes "owned s hs" "i < length (conns s)" "length hs + 1 < 2 ^ 30"
  shows "owned (nos_ipc_send_hello i s) hs"
proof (cases "node_alloc (Inl (of_nat MSG_HEADER_SIZE + 32, 0)) s")
  case None
  then show ?thesis using assms(1) by (simp add: nos_ipc_send_hello_def)
next
  case (Some x)
  obtain b s1 where x: "x = (b, s1)" by (cases x)
  define s2 where "s2 = s1\<lparr>msgs := (msgs s1)(b := (msgs s1 b)\<lparr>msg_magic := NOS_IPC_MAGIC, msg_version := NOS_IPC_VERSION,
     msg_code := NOS_IPC_MSG_HELLO, payload_len := of_nat (length (local_name s1)) + 1,
     msg_payload := local_name s1 @ [CHR 0x00]\<rparr>)\<rparr>"
  have o2: "owned s2 (b # hs)"
    by (rule owned_cong[OF _ owned_alloc[OF assms(1) Some[unfolded x]]]) (simp add: s2_def)
  have i2: "i < length (conns s2)" "conns s2 = conns s" using node_alloc_frame[OF Some[unfolded x]] assms(2) by (simp_all add: s2_def)
  have "owned (case conn_enq b (conns s2 ! i) of None \<Rightarrow> s2 | Some c \<Rightarrow> upd_conn i (\<lambda>_. c) (nos_buffer_retain b s2)) (b # hs)"
  proof (cases "conn_enq b (conns s2 ! i)")
    case (Some c)
    have "conn_ok (conns s2 ! i)" using ownedD(5)[OF o2] i2(1) by simp
    note e = conn_ring.enq_Some[OF this Some]
    have "owned (nos_buffer_retain b s2) (b # b # hs)" by (rule owned_retain[OF o2]) (use assms(3) in simp_all)
    then have "owned (upd_conn i (\<lambda>_. c) (nos_buffer_retain b s2)) (b # hs)"
      by (rule owned_conn) (use i2 e in simp_all)
    then show ?thesis by (simp add: Some)
  qed (use o2 in simp)
  then have "owned (nos_buffer_release b (case conn_enq b (conns s2 ! i) of None \<Rightarrow> s2
      | Some c \<Rightarrow> upd_conn i (\<lambda>_. c) (nos_buffer_retain b s2))) hs" by (rule owned_release)
  moreover have "nos_ipc_send_hello i s = nos_buffer_release b (case conn_enq b (conns s2 ! i) of None \<Rightarrow> s2
      | Some c \<Rightarrow> upd_conn i (\<lambda>_. c) (nos_buffer_retain b s2))"
    unfolding nos_ipc_send_hello_def Some x option.case prod.case Let_def s2_def ..
  ultimately show ?thesis by (simp only:)
qed

lemma conns_frame [simp]:
  "conns (add_fd r fd ev cb a s) = conns s" "conns (s\<lparr>connect_no := n\<rparr>) = conns s"
  by (simp_all add: add_fd_def)

lemma length_conns_hello [simp]: "length (conns (nos_ipc_send_hello i s)) = length (conns s)"
  by (auto simp: nos_ipc_send_hello_def Let_def node_alloc_frame split: option.splits prod.splits)

lemma owned_reconnect:
  assumes "owned s hs" "i < length (conns s)" "length hs + 1 < 2 ^ 30"
  shows "owned (reconnect i path s) hs" "i < length (conns (reconnect i path s))"
proof -
  have "owned (nos_ipc_send_hello i (add_fd Mgmt fd EPOLL_INOUT_ET nos_ipc_event_handler_ptr (conn_ptr i)
      (upd_conn i (\<lambda>c. c\<lparr>conn_fd := fd, is_connected := True, is_congested := False\<rparr>) (s\<lparr>connect_no := connect_no s + 1\<rparr>)))) hs" for fd
  proof (rule owned_hello)
    show "owned (add_fd Mgmt fd EPOLL_INOUT_ET nos_ipc_event_handler_ptr (conn_ptr i)
        (upd_conn i (\<lambda>c. c\<lparr>conn_fd := fd, is_connected := True, is_congested := False\<rparr>) (s\<lparr>connect_no := connect_no s + 1\<rparr>))) hs"
      by (rule owned_cong[OF _ assms(1)]) (simp add: flow_view_conn conn_view_def)
  qed (use assms in simp_all)
  moreover have "owned (s\<lparr>connect_no := connect_no s + 1\<rparr>) hs" by (rule owned_cong[OF _ assms(1)]) simp
  ultimately show "owned (reconnect i path s) hs"
    using assms(1) by (simp add: reconnect_def Let_def split: option.split)
  show "i < length (conns (reconnect i path s))"
    using assms(2) by (simp add: reconnect_def Let_def split: option.split)
qed

section \<open>Sending and receiving\<close>

lemma owned_enqueue:
  assumes "owned s hs" "b \<in> set hs" "length hs + 1 < 2 ^ 30"
  shows "owned (snd (nos_ipc_send_enqueue_ex nname path b s)) hs"
proof -
  obtain k s1 where g: "get_or_create_conn nname path s = (k, s1)" by (metis prod.exhaust)
  note o1 = owned_get_conn[OF assms(1) g]
  show ?thesis
  proof (cases k)
    case None
    then show ?thesis using o1(1) g by (simp add: nos_ipc_send_enqueue_ex_def)
  next
    case (Some i)
    define s2 where "s2 = reconnect i path s1"
    note o2 = owned_reconnect[OF o1(1) o1(2)[OF Some] assms(3), of path, folded s2_def]
    have busy: "owned (upd_conn i (\<lambda>c. c\<lparr>is_congested := True\<rparr>) s2) hs"
      by (rule owned_cong[OF _ o2(1)]) (simp add: flow_view_conn conn_view_def)
    have sent: "owned (nos_ipc_process_tx i (upd_conn i (\<lambda>_. c) (nos_buffer_retain b s2))) hs"
      if "conn_enq b (conns s2 ! i) = Some c" for c
    proof -
      have "conn_ok (conns s2 ! i)" using ownedD(5)[OF o2(1)] o2(2) by simp
      note e = conn_ring.enq_Some[OF this that]
      have "owned (nos_buffer_retain b s2) (b # hs)" by (rule owned_retain[OF o2(1) assms(2)]) (use assms(3) in simp)
      then have "owned (upd_conn i (\<lambda>_. c) (nos_buffer_retain b s2)) hs"
        by (rule owned_conn) (use o2(2) e in simp_all)
      then show ?thesis by (rule owned_process_tx) (use o2(2) in simp)
    qed
    show ?thesis
      using g Some o2(1) busy sent
      by (auto simp: nos_ipc_send_enqueue_ex_def Let_def s2_def[symmetric] split: option.split)
  qed
qed

lemma owned_enqueue_shm:
  assumes "owned s hs" "length hs + 2 < 2 ^ 30"
  shows "owned (snd (nos_ipc_send_enqueue_shm nname path b s)) hs"
proof (cases b)
  case (ShmBuf o')
  define s1 where "s1 = nos_buffer_retain b s"
  have r: "owned s1 hs" "owned (nos_buffer_release b s1) hs"
    using assms(1)
    by (simp_all add: ShmBuf s1_def nos_buffer_retain_def nos_buffer_release_def)
  have "owned (snd (case node_alloc (Inl (of_nat MSG_HEADER_SIZE, 0)) (set_rx_queue k q s1) of
      None \<Rightarrow> (NOS_OK, set_rx_queue k q s1)
    | Some (e, s) \<Rightarrow>
       (let s = s\<lparr>msgs := (msgs s)(e := (msgs s e)\<lparr>msg_magic := NOS_IPC_MAGIC, msg_version := NOS_IPC_VERSION,
                                        msg_code := NOS_IPC_MSG_SHM_EVENT, payload_len := 0, msg_payload := []\<rparr>)\<rparr>;
                                 (_, s) = nos_ipc_send_enqueue_ex (Some nname) path e s
                             in (NOS_OK, nos_buffer_release e s)))) hs" for k q
  proof (cases "node_alloc (Inl (of_nat MSG_HEADER_SIZE, 0)) (set_rx_queue k q s1)")
    case None
    then show ?thesis using r(1) by simp
  next
    case (Some x)
    obtain e s2 where x: "x = (e, s2)" by (cases x)
    have "owned (set_rx_queue k q s1) hs" using r(1) by simp
    from owned_alloc[OF this Some[unfolded x]] have o2: "owned s2 (e # hs)" .
    define s3 where "s3 = s2\<lparr>msgs := (msgs s2)(e := (msgs s2 e)\<lparr>msg_magic := NOS_IPC_MAGIC, msg_version := NOS_IPC_VERSION,
       msg_code := NOS_IPC_MSG_SHM_EVENT, payload_len := 0, msg_payload := []\<rparr>)\<rparr>"
    have "owned s3 (e # hs)" unfolding s3_def using o2 by simp
    then have "owned (snd (nos_ipc_send_enqueue_ex (Some nname) path e s3)) (e # hs)"
      by (rule owned_enqueue) (use assms(2) in simp_all)
    from owned_release[OF this] show ?thesis
      unfolding Some x option.case prod.case Let_def s3_def[symmetric] by (simp add: case_prod_beta)
  qed
  then show ?thesis
    using assms(1) r unfolding ShmBuf nos_ipc_send_enqueue_shm_def buf_ref.case Let_def s1_def[unfolded ShmBuf, symmetric]
    by (auto simp: case_prod_beta split: option.split)
qed (use assms in \<open>simp add: nos_ipc_send_enqueue_shm_def\<close>)

lemma owned_remote_send:
  assumes "owned s hs" "b \<in> set hs" "length hs + 2 < 2 ^ 30"
  shows "owned (snd (nos_transport_remote_uds_send b nname path s)) hs"
  using owned_enqueue[OF assms(1,2), of "Some nname" "Some path"] owned_enqueue_shm[OF assms(1,3), of nname "Some path" b] assms(3)
  by (cases b) (simp_all add: nos_transport_remote_uds_send_def)

abbreviation "msg_send \<equiv> nos_service_msg_send nos_transport_remote_uds_send"

lemma owned_send:
  assumes "owned s hs" "b \<in> set hs" "length hs + 2 < 2 ^ 30"
  shows "owned (snd (msg_send (Some b) s)) hs"
proof (cases "reg_route (registry s) (dst_service (msgs s b))")
  case None
  then show ?thesis using assms(1) send_routes(1)[OF None] by simp
next
  case (Some rt)
  show ?thesis
  proof (cases rt)
    case (Local p t)
    have "owned (snd (nos_transport_local_send b t s)) hs"
      by (rule owned_local_send[OF assms(1,2)]) (use assms(3) ownedD(7)[OF assms(1)] Some Local in auto)
    then show ?thesis using send_routes(3)[of s b p t] Some Local by simp
  next
    case (Remote n u)
    then show ?thesis using send_routes(2)[of s b n u] Some owned_remote_send[OF assms] by simp
  qed
qed

section \<open>Receiving\<close>

lemma flow_view_rebase [simp]: "flow_view (s\<lparr>shmem := rebase_buf o' (shmem s)\<rparr>) = flow_view s"
  by simp

lemma owned_drain_shm:
  "owned s hs \<Longrightarrow> length hs + 3 < 2 ^ 30 \<Longrightarrow> drain_shm fuel k s = Returned s' \<Longrightarrow> owned s' hs"
proof (induction fuel arbitrary: s)
  case 0
  then show ?case by (subst (asm) drain_shm.simps) (auto split: option.splits)
next
  case (Suc n)
  show ?case
  proof (cases "nos_shm_mpsc_dequeue (rx_queues (shmem s) ! k)")
    case None
    then show ?thesis using Suc.prems(3) by (subst (asm) drain_shm.simps) simp
  next
    case (Some x)
    obtain off q where x: "x = (off, q)" by (cases x)
    show ?thesis
    proof (cases "nos_shm_offset_to_ptr off")
      case None
      then show ?thesis using Suc.prems Some x by (subst (asm) drain_shm.simps) simp
    next
      case o': (Some o')
      define s1 where "s1 = count_stat (\<lambda>st. st\<lparr>rx_packets := rx_packets st + 1\<rparr>)
        ((set_rx_queue k q s)\<lparr>shmem := rebase_buf o' (shmem (set_rx_queue k q s))\<rparr>)"
      have "owned s1 (ShmBuf o' # hs)" using Suc.prems(1) by (simp add: s1_def)
      then have "owned (snd (msg_send (Some (ShmBuf o')) s1)) (ShmBuf o' # hs)"
        by (rule owned_send) (use Suc.prems(2) in simp_all)
      from owned_release[OF this] have "owned (nos_buffer_release (ShmBuf o') (snd (msg_send (Some (ShmBuf o')) s1))) hs" .
      moreover have "drain_shm n k (nos_buffer_release (ShmBuf o') (snd (msg_send (Some (ShmBuf o')) s1))) = Returned s'"
        using Suc.prems(3) Some x o' by (subst (asm) drain_shm.simps) (simp add: Let_def s1_def)
      ultimately show ?thesis using Suc.IH Suc.prems(2) by blast
    qed
  qed
qed

lemma owned_drop_link:
  assumes "owned s hs" shows "owned (drop_link fd conn r s) hs"
proof (cases conn)
  case (Some i)
  have "owned (upd_conn i (\<lambda>c. c\<lparr>conn_fd := - 1, is_connected := False\<rparr>) (close_fd Mgmt fd (remove_fd Mgmt fd s))) hs"
    by (rule owned_cong[OF flow_view_conn]) (use assms in \<open>simp_all add: conn_view_def\<close>)
  then show ?thesis by (simp add: drop_link_def Some)
qed (use assms in \<open>simp add: drop_link_def\<close>)

lemma owned_recv_hello:
  assumes "owned s hs" shows "owned (recv_hello fd conn r name s) hs"
proof (cases conn)
  case (Some i)
  have "owned (upd_conn i (\<lambda>c. c\<lparr>conn_node_name := strncpy_field 32 name\<rparr>) s) hs"
    by (rule owned_cong[OF flow_view_conn]) (use assms in \<open>simp_all add: conn_view_def\<close>)
  then show ?thesis by (simp add: recv_hello_def Some)
next
  case None
  obtain k s1 where g: "get_or_create_conn (Some name) None s = (k, s1)" by (metis prod.exhaust)
  note o1 = owned_get_conn(1)[OF assms g]
  have "owned (upd_conn i (\<lambda>c. c\<lparr>conn_fd := fd, is_connected := True\<rparr>) s1) hs" for i
    by (rule owned_cong[OF flow_view_conn]) (use o1 in \<open>simp_all add: conn_view_def\<close>)
  then show ?thesis using g o1 by (cases k) (simp_all add: recv_hello_def None Let_def)
qed

lemma map_run_Returned: "map_run f x = Returned y \<longleftrightarrow> (\<exists>z. x = Returned z \<and> y = f z)"
  by (cases x) auto

lemma owned_recv:
  assumes "owned s hs" "length hs + 4 < 2 ^ 30" "nos_ipc_recv_handler fuel peek got fd conn r s = Returned s'"
  shows "owned s' hs"
proof (cases "\<exists>h. peek = Peek h \<and> msg_magic h = NOS_IPC_MAGIC")
  case False
  then show ?thesis
    using assms(1,3) owned_drop_link[OF assms(1), of fd conn r] by (cases peek) (auto simp: nos_ipc_recv_handler_def)
next
  case True
  then obtain h where h: "peek = Peek h" "msg_magic h = NOS_IPC_MAGIC" by blast
  show ?thesis
  proof (cases "node_alloc (Inl (ucast (full_len h), 0)) s")
    case None
    then show ?thesis using assms(1,3) h by (auto simp: nos_ipc_recv_handler_def)
  next
    case (Some x)
    obtain b s1 where x: "x = (b, s1)" by (cases x)
    have o1: "owned s1 (b # hs)" by (rule owned_alloc[OF assms(1) Some[unfolded x]])
    have small: "length (b # hs) + 3 < 2 ^ 30" using assms(2) by simp
    define u where "u m = s1\<lparr>msgs := (msgs s1)(b := m)\<rparr>" for m
    have ou: "owned (u m) (b # hs)" for m using o1 by (simp add: u_def)
    have snd: "owned (snd (msg_send (Some b) (count_stat f (u m)))) (b # hs)" for f m
      by (rule owned_send) (use ou assms(2) in simp_all)
    let ?run = "case got of
                   None \<Rightarrow> Returned (count_stat (\<lambda>st. st\<lparr>rx_errors := rx_errors st + 1\<rparr>) s1)
                 | Some m \<Rightarrow>
                     if msg_code m = NOS_IPC_MSG_HELLO then Returned (recv_hello fd conn r (c_string (msg_payload m)) (u m))
                      else if msg_code m = NOS_IPC_MSG_SHM_EVENT then
                        (case local_queue (u m) of None \<Rightarrow> Returned (u m) | Some k \<Rightarrow> drain_shm fuel k (u m))
                      else Returned (snd (msg_send (Some b) (count_stat (\<lambda>st. st\<lparr>rx_packets := rx_packets st + 1, rx_bytes := rx_bytes st + full_len h\<rparr>) (u m))))"
    have "nos_ipc_recv_handler fuel peek got fd conn r s = map_run (nos_buffer_release b) ?run"
      unfolding nos_ipc_recv_handler_def h peek_result.case Some x option.case prod.case Let_def u_def by (simp add: h)
    then have "map_run (nos_buffer_release b) ?run = Returned s'" using assms(3) by (simp only:)
    then obtain s2 where s2: "?run = Returned s2" "s' = nos_buffer_release b s2" unfolding map_run_Returned by blast
    have "owned s2 (b # hs)"
    proof (cases got)
      case None
      then show ?thesis using s2(1) o1 by auto
    next
      case (Some m)
      consider "msg_code m = NOS_IPC_MSG_HELLO" | "msg_code m = NOS_IPC_MSG_SHM_EVENT" "msg_code m \<noteq> NOS_IPC_MSG_HELLO"
        | "msg_code m \<noteq> NOS_IPC_MSG_HELLO" "msg_code m \<noteq> NOS_IPC_MSG_SHM_EVENT" by blast
      then show ?thesis
      proof cases
        case 1
        then show ?thesis using s2(1) owned_recv_hello[OF ou] unfolding Some option.case if_P[OF 1] by blast
      next
        case 2
        then show ?thesis
          using s2(1) ou[of m] owned_drain_shm[OF ou small]
          unfolding Some option.case if_P[OF 2(1)] if_not_P[OF 2(2)] by (cases "local_queue (u m)") auto
      next
        case 3
        then show ?thesis using s2(1) snd unfolding Some option.case if_not_P[OF 3(1)] if_not_P[OF 3(2)] by blast
      qed
    qed
    then show ?thesis using owned_release s2(2) by blast
  qed
qed

section \<open>Draining a thread\<close>

text \<open>
  The handlers of the node's components, as far as references are concerned: those that are \<open>good\<close> give back what
  they take, and no handler changes the table of components.
\<close>

definition good_comps :: "(ptr \<Rightarrow> bool) \<Rightarrow> (ptr \<rightharpoonup> nos_component) \<Rightarrow> bool" where
  "good_comps good cs \<longleftrightarrow> (\<forall>p c. cs p = Some c \<longrightarrow> comp_on_msg c \<noteq> NULL \<longrightarrow> good (comp_on_msg c))"

locale balanced_handlers =
  fixes on_msg :: "ptr \<Rightarrow> ptr \<Rightarrow> nos_service_msg \<Rightarrow> 'z ipc_node_scheme \<Rightarrow> 'z ipc_node_scheme"
    and good :: "ptr \<Rightarrow> bool"
  assumes handler_owned: "good f \<Longrightarrow> owned s hs \<Longrightarrow> length hs + 4 < 2 ^ 30 \<Longrightarrow> owned (on_msg f c m s) hs"
    and handler_comps: "good f \<Longrightarrow> comps (on_msg f c m s) = comps s"
begin

lemma deliver_owned:
  assumes "owned s (b # hs)" "length hs + 5 < 2 ^ 30" "good_comps good (comps s)"
  shows "owned (deliver on_msg b s) hs" "comps (deliver on_msg b s) = comps s"
proof -
  have h: "owned (on_msg f c m s) (b # hs)" if "good f" for f c m
    by (rule handler_owned[OF that assms(1)]) (use assms(2) in simp)
  have g: "good (comp_on_msg c)" if "comps s p = Some c" "comp_on_msg c \<noteq> NULL" for p c
    using assms(3) that unfolding good_comps_def by blast
  have "\<exists>u. deliver on_msg b s = nos_buffer_release b u \<and> owned u (b # hs) \<and> comps u = comps s"
    using assms(1) h[OF g] handler_comps[OF g] by (auto simp: deliver_def Let_def split: option.split)
  then show "owned (deliver on_msg b s) hs" "comps (deliver on_msg b s) = comps s" using owned_release by auto
qed

end

lemma owned_pop:
  assumes "owned s hs" "threads s r = Some th" "thread_pop th = Some (x, th')"
  obtains b where "x = Some b" "owned (upd_thread r (\<lambda>_. th') s) (b # hs)"
proof -
  have "head th \<noteq> tail th" using assms(3) by (auto simp: thread_pop_def split: if_splits)
  then have ok: "queue_ok th" using ownedD(8)[OF assms(1,2)] by simp
  obtain b where b: "x = Some b" "queue_ok th'" "thread_msgs th = b # thread_msgs th'"
    using thread_pop_Some[OF ok] \<open>head th \<noteq> tail th\<close> assms(3) by auto
  have "owned (upd_thread r (\<lambda>_. th') s) (b # hs)"
    by (rule owned_thread[OF assms(1,2) b(2)]) (simp add: b(3))
  then show ?thesis using that b(1) by blast
qed

context balanced_handlers begin

lemma drain_owned:
  "owned s hs \<Longrightarrow> length hs + 5 < 2 ^ 30 \<Longrightarrow> good_comps good (comps s) \<Longrightarrow>
     process_thread_messages fuel on_msg r s = Returned s' \<Longrightarrow> owned s' hs \<and> comps s' = comps s"
proof (induction fuel arbitrary: s)
  case 0
  then have "s' = s"
  proof (cases "threads s r")
    case (Some th)
    have "fst y \<noteq> None" if "thread_pop th = Some y" for y
      using owned_pop[OF 0(1) Some, of "fst y" "snd y"] that by auto
    then show ?thesis using 0(4) Some by (subst (asm) process_thread_messages.simps) (auto split: option.splits prod.splits)
  qed (subst (asm) process_thread_messages.simps, simp)
  then show ?case using 0 by simp
next
  case (Suc n)
  show ?case
  proof (cases "\<exists>th x th'. threads s r = Some th \<and> thread_pop th = Some (x, th')")
    case False
    then have "s' = s" using Suc.prems(4) by (subst (asm) process_thread_messages.simps) (auto split: option.splits)
    then show ?thesis using Suc.prems(1) by simp
  next
    case True
    then obtain th x th' where th: "threads s r = Some th" "thread_pop th = Some (x, th')" by blast
    obtain b where b: "x = Some b" "owned (upd_thread r (\<lambda>_. th') s) (b # hs)" by (rule owned_pop[OF Suc.prems(1) th])
    have "process_thread_messages n on_msg r (deliver on_msg b (upd_thread r (\<lambda>_. th') s)) = Returned s'"
      using Suc.prems(4) th b(1) by (subst (asm) process_thread_messages.simps) simp
    moreover have "good_comps good (comps (upd_thread r (\<lambda>_. th') s))" using Suc.prems(3) by simp
    note d = deliver_owned[OF b(2) Suc.prems(2) this]
    ultimately show ?thesis using Suc.IH[OF d(1) Suc.prems(2)] d(2) Suc.prems(3) by simp
  qed
qed

end

end
