(* ===== verification/RefClaims.thy ===== *)
theory RefClaims
  imports RefFlow IpcClaims
begin

text \<open>
  No reference is lost or made up: whatever order the operations of all threads, links and clients
  of a node come in, the reference count of a buffer is the number of its entries in the queues plus what
  running code holds.
\<close>

section \<open>Any interleaving\<close>

text \<open>
  The operations by which a node moves references, each as it runs under its lock: a client takes a
  buffer, fills it in, sends it, drops its reference; a thread takes the next message off its queue;
  a link is served; a message comes in. The state carries the list of references that running
  code holds. \<open>None\<close> is a client that uses a reference it does not hold.
\<close>

datatype flow_op =
    Op_alloc u32 u32
  | Op_fill buf_ref nos_service_msg
  | Op_send buf_ref
  | Op_release buf_ref
  | Op_pop thread_ref
  | Op_serve nat
  | Op_recv nat peek_result "nos_service_msg option" int "nat option" thread_ref

fun flow_step :: "flow_op \<Rightarrow> 'z ipc_node_scheme \<times> buf_ref list \<Rightarrow> ('z ipc_node_scheme \<times> buf_ref list) option" where
  "flow_step (Op_alloc sz hr) (s, hs) =
     (case node_alloc (Inl (sz, hr)) s of None \<Rightarrow> Some (s, hs) | Some (b, s) \<Rightarrow> Some (s, b # hs))"
| "flow_step (Op_fill b m) (s, hs) = (if b \<in> set hs then Some (s\<lparr>msgs := (msgs s)(b := m)\<rparr>, hs) else None)"
| "flow_step (Op_send b) (s, hs) = (if b \<in> set hs then Some (snd (msg_send (Some b) s), hs) else None)"
| "flow_step (Op_release b) (s, hs) = (if b \<in> set hs then Some (nos_buffer_release b s, remove1 b hs) else None)"
| "flow_step (Op_pop r) (s, hs) =
     (case threads s r of
        None \<Rightarrow> None
      | Some th \<Rightarrow>
          (case thread_pop th of
             Some (Some b, th') \<Rightarrow> Some (upd_thread r (\<lambda>_. th') s, b # hs)
           | _ \<Rightarrow> Some (s, hs)))"
| "flow_step (Op_serve i) (s, hs) = (if i < length (conns s) then Some (nos_ipc_process_tx i s, hs) else None)"
| "flow_step (Op_recv fuel peek got fd conn r) (s, hs) =
     (case nos_ipc_recv_handler fuel peek got fd conn r s of Returned s \<Rightarrow> Some (s, hs) | _ \<Rightarrow> None)"

fun flow_run :: "flow_op list \<Rightarrow> 'z ipc_node_scheme \<times> buf_ref list \<Rightarrow> ('z ipc_node_scheme \<times> buf_ref list) option" where
  "flow_run [] x = Some x"
| "flow_run (op # ops) x = (case flow_step op x of None \<Rightarrow> None | Some y \<Rightarrow> flow_run ops y)"

lemma owned_perm: "owned s hs \<Longrightarrow> mset hs' = mset hs \<Longrightarrow> owned s hs'"
  by (simp add: owned_def flip: count_mset)

lemma flow_step_owned:
  assumes "owned s hs" "length hs + 5 < 2 ^ 30" "flow_step op (s, hs) = Some (s', hs')"
  shows "owned s' hs'" "length hs' \<le> Suc (length hs)"
proof -
  have "owned s' hs' \<and> length hs' \<le> Suc (length hs)"
  proof (cases op)
    case (Op_alloc sz hr)
    then show ?thesis using assms owned_alloc[OF assms(1)] by (auto split: option.splits)
  next
    case (Op_send b)
    then show ?thesis using assms owned_send[OF assms(1), of b] by (auto split: if_splits)
  next
    case (Op_release b)
    then have b: "b \<in> set hs" "s' = nos_buffer_release b s" "hs' = remove1 b hs" using assms(3) by (auto split: if_splits)
    have "owned s (b # remove1 b hs)" by (rule owned_perm[OF assms(1)]) (simp add: b(1))
    then show ?thesis using owned_release b by (auto simp: length_remove1)
  next
    case (Op_pop r)
    then show ?thesis using assms owned_pop[OF assms(1), of r] by (auto split: option.splits prod.splits)
  next
    case (Op_serve i)
    then show ?thesis using assms owned_process_tx[OF assms(1), of i] by (auto split: if_splits)
  next
    case (Op_recv fuel peek got fd conn r)
    then show ?thesis using assms owned_recv[OF assms(1), of fuel peek got fd conn r] by (auto split: run.splits)
  qed (use assms in \<open>auto split: if_splits\<close>)
  then show "owned s' hs'" "length hs' \<le> Suc (length hs)" by auto
qed

lemma flow_run_owned:
  "owned s hs \<Longrightarrow> length hs + length ops + 5 < 2 ^ 30 \<Longrightarrow> flow_run ops (s, hs) = Some (s', hs') \<Longrightarrow> owned s' hs'"
proof (induction ops arbitrary: s hs)
  case (Cons op ops)
  obtain s1 hs1 where s1: "flow_step op (s, hs) = Some (s1, hs1)" "flow_run ops (s1, hs1) = Some (s', hs')"
    using Cons.prems(3) by (auto split: option.splits)
  note o1 = flow_step_owned[OF Cons.prems(1) _ s1(1)]
  show ?case by (rule Cons.IH[OF o1(1) _ s1(2)]) (use Cons.prems(2) o1(2) in simp_all)
qed simp

section \<open>Properties\<close>


lemma service_5_only: "reg_route service_5 sid = (if sid = 5 then Some (Local 7 (Some (Worker 0))) else None)"
proof (cases "sid = 5")
  case False
  have "map service_id (take (g_service_count service_5) (g_service_registry service_5)) = [5]" by code_simp
  then obtain e where e: "take (g_service_count service_5) (g_service_registry service_5) = [e]" "service_id e = 5" by auto
  have "find_service_entry sid service_5 = None"
    using False e(2) unfolding find_service_entry_def find_slot_def e(1) by simp
  then show ?thesis using False by (simp add: reg_route_def)
qed (simp add: service_5_route)

lemma ipc_sample_owned: "owned (ipc_sample [] os) [PoolBuf 0 1]"
proof -
  let ?s = "ipc_sample [] os"
  have th: "threads ?s r = None" if "r \<noteq> Worker 0" for r using that by (simp add: idle_node_def msg_node_def)
  have nq: "node_queue ?s = node_queue idle_node" "node_queue_ok ?s = node_queue_ok idle_node"
    by (simp_all add: node_queue_def[abs_def] node_queue_ok_def[abs_def])
  have q: "node_queue ?s r = []" for r
    using idle_queue(2) th[of r] unfolding nq by (cases "r = Worker 0") (auto simp: node_queue_def)
  have "pool_held one_buf_pool (i, j) = (if i = 0 \<and> j = 1 then 1 else 0)" for i j
    using ipc_sample_bufs(2)[of "[]" os "PoolBuf i j"] by (simp add: buf_held_def ipc_sample_def)
  moreover have "pool_ok one_buf_pool" using ipc_sample_bufs(1)[of "[]" os] by (simp add: bufs_ok_def ipc_sample_def)
  moreover have "bufs ?s = one_buf_pool" by (simp add: ipc_sample_def)
  moreover have "flow_ok ?s"
  proof -
    have t: "queue_view ?s r = None \<or> r \<in> set flow_threads \<and> node_queue_ok idle_node r" for r
      using th[of r] idle_queue(1) by (cases "r = Worker 0") (simp_all add: queue_view_def flow_threads_def MAX_WORKERS_def)
    have a: "\<forall>r. queue_view ?s r = None \<or> r \<in> set flow_threads \<and> (node_queue_ok idle_node r \<or> queue_view ?s r = Some ([], 0, 0))"
      using t by blast
    have b: "\<forall>sid p r. reg_route (registry ?s) sid = Some (Local p (Some r)) \<longrightarrow> queue_view ?s r = None \<or> node_queue_ok idle_node r"
      using t by blast
    show ?thesis using calculation(2,3) a b unfolding flow_ok_def nq by (simp add: MAX_REMOTE_CONNS_def)
  qed
  ultimately show ?thesis by (auto simp: owned_def queued_def q)
qed


end
