(* ===== verification/SysNode.thy ===== *)
theory SysNode
  imports RefFlow KvStore "HOL-Library.Monad_Syntax"
begin

text \<open>
  The whole process: the node with the tables of the key-value store, the embedded services and the
  private data of the sample components; and the interface through which components call the
  embedded services (\<open>include/nos_api.h\<close>, \<open>nos_log_api.h\<close>), which looks a service up by name once and caches
  the answer.

  A result \<open>None\<close> is a call that does not return or has undefined behaviour.
\<close>

section \<open>Bytes\<close>

text \<open>A 32-bit integer in memory, and back.\<close>

definition u32_bytes :: "u32 \<Rightarrow> bytes" where
  "u32_bytes w = [ucast w, ucast (drop_bit 8 w), ucast (drop_bit 16 w), ucast (drop_bit 24 w)]"

definition bytes_u32 :: "bytes \<Rightarrow> u32" where
  "bytes_u32 bs = (case bs of a # b # c # d # _ \<Rightarrow> load_u32 a b c d | _ \<Rightarrow> 0)"

lemma bytes_u32_bytes [simp]: "bytes_u32 (u32_bytes w @ bs) = w"
proof -
  have "load_u32 (ucast w) (ucast (drop_bit 8 w)) (ucast (drop_bit 16 w)) (ucast (drop_bit 24 w)) = w"
  proof (rule bit_word_eqI)
    fix n
    assume "n < LENGTH(32)"
    then consider "n < 8" | "8 \<le> n" "n < 16" | "16 \<le> n" "n < 24" | "24 \<le> n" "n < 32" by force
    then show "bit (load_u32 (ucast w) (ucast (drop_bit 8 w)) (ucast (drop_bit 16 w)) (ucast (drop_bit 24 w))) n = bit w n"
      by cases (auto simp: load_u32_def bit_simps)
  qed
  then show ?thesis by (simp add: bytes_u32_def u32_bytes_def)
qed

lemma length_u32_bytes [simp]: "length (u32_bytes w) = 4" by (simp add: u32_bytes_def)

text \<open>
  The same in the payload of a message. Bytes of the buffer that were never written
  read as 0.
\<close>

definition byte_char :: "u8 \<Rightarrow> char" where "byte_char b = char_of (unat b)"

definition char_byte :: "char \<Rightarrow> u8" where "char_byte c = of_nat (of_char c)"

lemma char_byte_char [simp]: "char_byte (byte_char b) = b"
proof -
  have "unat b < 256" using unsigned_less[of b, where 'a = nat] by simp
  then show ?thesis by (simp add: char_byte_def byte_char_def)
qed

definition byte_at :: "string \<Rightarrow> nat \<Rightarrow> u8" where
  "byte_at p i = (if i < length p then char_byte (p ! i) else 0)"

definition get_u32 :: "nat \<Rightarrow> string \<Rightarrow> u32" where
  "get_u32 k p = load_u32 (byte_at p k) (byte_at p (k + 1)) (byte_at p (k + 2)) (byte_at p (k + 3))"

definition put_u32 :: "nat \<Rightarrow> u32 \<Rightarrow> string \<Rightarrow> string" where
  "put_u32 k w p = (let p = p @ replicate (k + 4 - length p) (byte_char 0) in take k p @ map byte_char (u32_bytes w) @ drop (k + 4) p)"

lemma byte_at_put: "byte_at (put_u32 k w p) i = (if k \<le> i \<and> i < k + 4 then u32_bytes w ! (i - k) else byte_at p i)"
proof -
  define q where "q = p @ replicate (k + 4 - length p) (byte_char 0)"
  have b: "byte_at q i = byte_at p i" for i by (auto simp: byte_at_def q_def nth_append)
  have len: "k + 4 \<le> length q" by (simp add: q_def)
  have put: "put_u32 k w p = take k q @ map byte_char (u32_bytes w) @ drop (k + 4) q"
    by (simp add: put_u32_def q_def Let_def)
  consider "i < k" | "k \<le> i" "i < k + 4" | "k + 4 \<le> i" by linarith
  then show ?thesis
  proof cases
    case 1
    then have "byte_at (put_u32 k w p) i = byte_at q i" using len by (simp add: put byte_at_def nth_append)
    then show ?thesis using 1 b by simp
  next
    case 2
    then have "i - k < 4" by linarith
    then show ?thesis using 2 len by (simp add: put byte_at_def nth_append)
  next
    case 3
    then have "\<not> i - k < 4" "k + 4 + (i - k - 4) = i" by linarith+
    then have "byte_at (put_u32 k w p) i = byte_at q i" using 3 len by (simp add: put byte_at_def nth_append)
    then show ?thesis using 3 b by simp
  qed
qed

lemma get_put_u32: "get_u32 k (put_u32 k w p) = w"
  using bytes_u32_bytes[of w "[]"] by (simp add: get_u32_def byte_at_put bytes_u32_def u32_bytes_def)

lemma get_put_u32_other: "j + 4 \<le> k \<Longrightarrow> get_u32 j (put_u32 k w p) = get_u32 j p"
  by (simp add: get_u32_def byte_at_put)

section \<open>State\<close>

text \<open>
  The private data of the sample components (\<open>comp_ctx_t\<close>, \<open>ping_ctx_t\<close> and \<open>rping_ctx_t\<close>): timer and
  table of model 1; tables and counter of model 2; counters of models 4 and 5; start time, number of
  rounds, rounds so far and payload size of the performance tests. A handle of a table is \<open>None\<close> for \<open>NULL\<close>.
\<close>

datatype comp_priv =
    Priv_1 ptr "nat option"
  | Priv_2 "nat option" "nat option" u32
  | Priv_count u32
  | Priv_ping u64 u32 u32
  | Priv_rping u64 u32 u32 u32

text \<open>
  \<open>privs\<close> gives what \<open>self->priv\<close> points to (\<open>None\<close> for \<open>NULL\<close>). \<open>calloc_ok\<close> and \<open>timer_addrs\<close> are the results of
  the calls of \<open>calloc\<close> for private data and timers, \<open>local_times\<close> the time strings of log lines. A process that
  runs into undefined behaviour is \<open>crashed\<close>, and nothing is said about what it does then.
\<close>

record sys_node = mgr_node +
  embedded :: embedded_registry
  kv_tables :: "nos_kv_table list"
  privs :: "ptr \<rightharpoonup> comp_priv"
  calloc_ok :: "nat \<Rightarrow> bool"
  calloc_no :: nat
  timer_addrs :: "nat \<Rightarrow> ptr"
  timer_no :: nat
  local_times :: "nat \<Rightarrow> string"
  time_no :: nat
  crashed :: bool

definition or_crash :: "sys_node \<Rightarrow> sys_node option \<Rightarrow> sys_node" where
  "or_crash s r = (case r of None \<Rightarrow> s\<lparr>crashed := True\<rparr> | Some s' \<Rightarrow> s')"

definition set_priv :: "ptr \<Rightarrow> comp_priv option \<Rightarrow> sys_node \<Rightarrow> sys_node" where
  "set_priv self p s = s\<lparr>privs := (privs s)(self := p)\<rparr>"

definition calloc_priv :: "ptr \<Rightarrow> comp_priv \<Rightarrow> sys_node \<Rightarrow> sys_node" where
  "calloc_priv self p s =
     (let ok = calloc_ok s (calloc_no s); s = s\<lparr>calloc_no := calloc_no s + 1\<rparr> in set_priv self (if ok then Some p else None) s)"

section \<open>The cache of a service's function table\<close>

text \<open>
  \<open>_nos_get_timer_ops\<close>, \<open>_nos_get_kv_ops\<close> and \<open>_nos_get_log_ops\<close>: every library and source file has its own cache, which is
  \<open>NULL\<close> until a lookup succeeds. (Two threads may both look up; they store the same value.)
\<close>

definition get_ops :: "string \<Rightarrow> embedded_registry \<Rightarrow> ptr \<Rightarrow> ptr \<times> ptr" where
  "get_ops name reg cache =
     (if cache \<noteq> NULL then (cache, cache)
      else let ops = nos_embedded_service_get name reg in (ops, if ops \<noteq> NULL then ops else cache))"

text \<open>A life of a process as one cache sees it: services are registered, and the macro is used.\<close>

datatype ops_event = Register string ptr | Lookup

fun cached_run :: "string \<Rightarrow> embedded_registry \<Rightarrow> ptr \<Rightarrow> ops_event list \<Rightarrow> ptr list" where
  "cached_run name reg cache [] = []"
| "cached_run name reg cache (Register n p # es) = cached_run name (snd (nos_embedded_service_register n p reg)) cache es"
| "cached_run name reg cache (Lookup # es) =
     (let (ops, cache) = get_ops name reg cache in ops # cached_run name reg cache es)"

fun direct_run :: "string \<Rightarrow> embedded_registry \<Rightarrow> ops_event list \<Rightarrow> ptr list" where
  "direct_run name reg [] = []"
| "direct_run name reg (Register n p # es) = direct_run name (snd (nos_embedded_service_register n p reg)) es"
| "direct_run name reg (Lookup # es) = nos_embedded_service_get name reg # direct_run name reg es"

lemma embedded_get_NULL: "name \<notin> embedded_names reg \<Longrightarrow> nos_embedded_service_get name reg = NULL"
proof -
  assume n: "name \<notin> embedded_names reg"
  have "find_slot (\<lambda>e. service_name e = name) (g_embedded_count reg) (g_embedded_registry reg) = None"
    unfolding find_slot_def find_from_None using n by (auto simp: embedded_names_def)
  then show ?thesis by (simp add: nos_embedded_service_get_def)
qed

lemma embedded_register_cases:
  assumes "embedded_ok reg"
  shows "embedded_ok (snd (nos_embedded_service_register n p reg))"
    "nos_embedded_service_get name reg \<noteq> NULL \<Longrightarrow>
       nos_embedded_service_get name (snd (nos_embedded_service_register n p reg)) = nos_embedded_service_get name reg"
proof -
  have "embedded_ok (snd (nos_embedded_service_register n p reg)) \<and> (nos_embedded_service_get name reg \<noteq> NULL \<longrightarrow>
       nos_embedded_service_get name (snd (nos_embedded_service_register n p reg)) = nos_embedded_service_get name reg)"
  proof (cases "g_embedded_count reg < MAX_EMBEDDED_SERVICES")
    case True
    note r = embedded_get_register[OF assms True, where n = n and p = p]
    show ?thesis using r(1) r(4)[of name] embedded_get_NULL[of name reg] by auto
  qed (use assms in \<open>simp add: nos_embedded_service_register_def\<close>)
  then show "embedded_ok (snd (nos_embedded_service_register n p reg))"
    "nos_embedded_service_get name reg \<noteq> NULL \<Longrightarrow>
       nos_embedded_service_get name (snd (nos_embedded_service_register n p reg)) = nos_embedded_service_get name reg"
    by auto
qed

text \<open>
  C39 The caches are transparent: whatever is registered and looked up in whatever order, a component gets
  from its cache what a lookup at that moment would give. (Names are never taken off the table and the first
  entry of a name wins.)
\<close>

theorem ops_cache_transparent:
  assumes "embedded_ok reg" "cache = NULL \<or> cache = nos_embedded_service_get name reg"
  shows "cached_run name reg cache es = direct_run name reg es"
  using assms
proof (induction es arbitrary: reg cache)
  case (Cons e es)
  show ?case
  proof (cases e)
    case (Register n p)
    then show ?thesis
      using Cons.IH[OF embedded_register_cases(1)[OF Cons.prems(1)]] Cons.prems(2)
        embedded_register_cases(2)[OF Cons.prems(1), of name n p]
      by (cases "cache = NULL") simp_all
  next
    case Lookup
    then show ?thesis using Cons.IH[OF Cons.prems(1)] Cons.prems(2) by (auto simp: get_ops_def Let_def)
  qed
qed simp

theorem ops_cache_transparent_witness:
  "cached_run ''SVC_LOG'' empty_embedded NULL [Lookup, Register ''SVC_LOG'' 5, Lookup, Register ''SVC_LOG'' 6, Lookup] = [NULL, 5, 5]"
proof -
  have ok: "embedded_ok empty_embedded" by (simp add: embedded_ok_def empty_embedded_def)
  have "direct_run ''SVC_LOG'' empty_embedded [Lookup, Register ''SVC_LOG'' 5, Lookup, Register ''SVC_LOG'' 6, Lookup] = [NULL, 5, 5]"
    by code_simp
  with ops_cache_transparent[OF ok disjI1[OF refl]] show ?thesis by (rule trans)
qed

end
