(* ===== verification/Components.thy ===== *)
theory Components
  imports SysNode
begin

text \<open>
  The sample components (\<open>src/components\<close>): the five models, the pair that measures
  messaging inside a node (\<open>ping.c\<close>, \<open>pong.c\<close>) and the pair for messaging between nodes
  (\<open>remote_ping.c\<close>, \<open>remote_pong.c\<close>), as the libraries a node loads. Each handler takes the address
  of its component. Only the last log lines of the performance tests, which print floating-point
  numbers, are left out.
\<close>

section \<open>What components call\<close>

definition has_ops :: "string \<Rightarrow> sys_node \<Rightarrow> bool" where
  "has_ops name s \<longleftrightarrow> nos_embedded_service_get name (embedded s) \<noteq> NULL"

definition timer_create_auto :: "ptr \<Rightarrow> ptr \<Rightarrow> sys_node \<Rightarrow> ptr \<times> sys_node" where
  "timer_create_auto cb a s =
     (if has_ops ''SVC_TIMER'' s
      then nos_timer_create (timer_addrs s (timer_no s)) cb a NULL (s\<lparr>timer_no := timer_no s + 1\<rparr>) else (NULL, s))"

definition timer_start_auto :: "ptr \<Rightarrow> ptr \<Rightarrow> u32 \<Rightarrow> bool \<Rightarrow> sys_node \<Rightarrow> nos_status \<times> sys_node" where
  "timer_start_auto self tm interval periodic s =
     (if has_ops ''SVC_TIMER'' s then nos_timer_start self tm interval periodic s else (NOS_ERR, s))"

text \<open>The sample components have no \<open>free_arg\<close> functions.\<close>

definition timer_delete_auto :: "ptr \<Rightarrow> sys_node \<Rightarrow> sys_node option" where
  "timer_delete_auto tm s = (if has_ops ''SVC_TIMER'' s then nos_timer_delete (\<lambda>_ _ s. s) tm s else Some s)"

definition kv_handle :: "sys_node \<Rightarrow> nat option \<Rightarrow> nos_kv_table option" where
  "kv_handle s t = map_option (\<lambda>i. kv_tables s ! i) t"

definition kv_store :: "nat option \<Rightarrow> nos_kv_table option \<Rightarrow> sys_node \<Rightarrow> sys_node" where
  "kv_store t x s = (case (t, x) of (Some i, Some x) \<Rightarrow> s\<lparr>kv_tables := (kv_tables s)[i := x]\<rparr> | _ \<Rightarrow> s)"

definition kv_create_auto :: "string \<Rightarrow> u32 \<Rightarrow> u32 \<Rightarrow> u32 \<Rightarrow> sys_node \<Rightarrow> (nat option \<times> sys_node) option" where
  "kv_create_auto name ks vs cap s =
     (if has_ops ''SVC_KV_DB'' s
      then let ok = calloc_ok s (calloc_no s); s = s\<lparr>calloc_no := calloc_no s + 1\<rparr>
           in map_option (\<lambda>(t, ts). (t, s\<lparr>kv_tables := ts\<rparr>)) (nos_kv_table_create ok (Some name) ks vs cap (kv_tables s))
      else Some (None, s))"

definition kv_get_auto :: "nat option \<Rightarrow> bytes \<Rightarrow> u32 \<Rightarrow> sys_node \<Rightarrow> (nos_status \<times> (bytes \<times> u32) option) option" where
  "kv_get_auto t key n s =
     (if has_ops ''SVC_KV_DB'' s then nos_kv_get (kv_handle s t) (Some key) (Some n) else Some (NOS_ERR, None))"

definition kv_subscribe_auto :: "nat option \<Rightarrow> bytes \<Rightarrow> nos_kv_sub \<Rightarrow> sys_node \<Rightarrow> (nos_status \<times> sys_node) option" where
  "kv_subscribe_auto t key sub s =
     (if has_ops ''SVC_KV_DB'' s
      then map_option (\<lambda>(st, x). (st, kv_store t x s)) (nos_kv_subscribe (kv_handle s t) (Some key) sub) else Some (NOS_ERR, s))"

definition kv_unsubscribe_auto :: "nat option \<Rightarrow> bytes \<Rightarrow> nos_kv_sub \<Rightarrow> sys_node \<Rightarrow> (nos_status \<times> sys_node) option" where
  "kv_unsubscribe_auto t key sub s =
     (if has_ops ''SVC_KV_DB'' s
      then map_option (\<lambda>(st, x). (st, kv_store t x s)) (nos_kv_unsubscribe (kv_handle s t) (Some key) sub) else Some (NOS_ERR, s))"

text \<open>Decimal output of \<open>%u\<close> and \<open>%d\<close>.\<close>

fun dec :: "nat \<Rightarrow> string" where
  "dec n = (if n < 10 then [char_of (48 + n)] else dec (n div 10) @ [char_of (48 + n mod 10)])"

declare dec.simps [simp del]

definition dec_int :: "int \<Rightarrow> string" where
  "dec_int i = (if i < 0 then CHR ''-'' # dec (nat (- i)) else dec (nat i))"

text \<open>\<open>nos_log_raw\<close>: the component macros log with the component's id, \<open>nos_sys_log\<close> with id 0.\<close>

definition nos_log_raw :: "nos_log_level \<Rightarrow> u32 \<Rightarrow> string \<Rightarrow> sys_node \<Rightarrow> sys_node" where
  "nos_log_raw lv cid msg s =
     (if has_ops ''SVC_LOG'' s
      then s\<lparr>log_ctx := nos_log_impl lv cid (local_times s (time_no s)) msg (log_ctx s), time_no := time_no s + 1\<rparr>
      else s)"

abbreviation "log_debug c \<equiv> nos_log_raw NOS_LOG_LEVEL_DEBUG (comp_id c)"
abbreviation "log_info c \<equiv> nos_log_raw NOS_LOG_LEVEL_INFO (comp_id c)"
abbreviation "log_warn c \<equiv> nos_log_raw NOS_LOG_LEVEL_WARN (comp_id c)"

text \<open>
  The way every sender sends: take a buffer, fill in fields of its header, send it, drop the reference. Fields
  that are not filled in keep what an earlier message left in the buffer.
\<close>

definition post_buf :: "(buf_ref \<times> 'z ipc_node_scheme) option \<Rightarrow> (nos_service_msg \<Rightarrow> nos_service_msg) \<Rightarrow> 'z ipc_node_scheme \<Rightarrow> 'z ipc_node_scheme" where
  "post_buf got fill s =
     (case got of
        None \<Rightarrow> s
      | Some (b, s) \<Rightarrow> nos_buffer_release b (snd (msg_send (Some b) (s\<lparr>msgs := (msgs s)(b := fill (msgs s b))\<rparr>))))"

definition post_msg :: "u32 \<Rightarrow> (nos_service_msg \<Rightarrow> nos_service_msg) \<Rightarrow> 'z ipc_node_scheme \<Rightarrow> 'z ipc_node_scheme" where
  "post_msg sz fill s = post_buf (node_alloc (Inl (sz, 0)) s) fill s"

text \<open>The headers they fill in: with a payload length, and without.\<close>

definition fill_header :: "u32 \<Rightarrow> u32 \<Rightarrow> u32 \<Rightarrow> u32 \<Rightarrow> nos_service_msg \<Rightarrow> nos_service_msg" where
  "fill_header dst src code plen m =
     m\<lparr>msg_magic := NOS_IPC_MAGIC, dst_service := dst, src_component := src, msg_code := code, payload_len := plen\<rparr>"

definition fill_reply :: "u32 \<Rightarrow> u32 \<Rightarrow> u32 \<Rightarrow> nos_service_msg \<Rightarrow> nos_service_msg" where
  "fill_reply dst src code m = m\<lparr>msg_magic := NOS_IPC_MAGIC, dst_service := dst, src_component := src, msg_code := code\<rparr>"

section \<open>Libraries\<close>

datatype lib = Comp_1 | Comp_2 | Comp_3 | Comp_4 | Comp_5 | Comp_ping | Comp_pong | Comp_rping | Comp_rpong

text \<open>The names of the files.\<close>

fun lib_file :: "lib \<Rightarrow> string" where
  "lib_file Comp_1 = ''libcomp-1.so''" | "lib_file Comp_2 = ''libcomp-2.so''" | "lib_file Comp_3 = ''libcomp-3.so''"
| "lib_file Comp_4 = ''libcomp-4.so''" | "lib_file Comp_5 = ''libcomp-5.so''" | "lib_file Comp_ping = ''libcomp-ping.so''"
| "lib_file Comp_pong = ''libcomp-pong.so''" | "lib_file Comp_rping = ''libcomp-rping.so''" | "lib_file Comp_rpong = ''libcomp-rpong.so''"

text \<open>The functions of a library whose addresses are taken.\<close>

datatype fn = Fn_init | Fn_start | Fn_stop | Fn_on_msg | Fn_callback | Fn_notify

definition libs :: "lib list" where
  "libs = [Comp_1, Comp_2, Comp_3, Comp_4, Comp_5, Comp_ping, Comp_pong, Comp_rping, Comp_rpong]"

definition fns :: "fn list" where "fns = [Fn_init, Fn_start, Fn_stop, Fn_on_msg, Fn_callback, Fn_notify]"

text \<open>Addresses: of a library (its handle) and of its functions.\<close>

fun lib_ptr :: "lib \<Rightarrow> ptr" where
  "lib_ptr Comp_1 = 1" | "lib_ptr Comp_2 = 2" | "lib_ptr Comp_3 = 3" | "lib_ptr Comp_4 = 4" | "lib_ptr Comp_5 = 5"
| "lib_ptr Comp_ping = 6" | "lib_ptr Comp_pong = 7" | "lib_ptr Comp_rping = 8" | "lib_ptr Comp_rpong = 9"

fun fn_no :: "fn \<Rightarrow> nat" where
  "fn_no Fn_init = 0" | "fn_no Fn_start = 1" | "fn_no Fn_stop = 2" | "fn_no Fn_on_msg = 3" | "fn_no Fn_callback = 4" | "fn_no Fn_notify = 5"

definition fn_ptr :: "lib \<Rightarrow> fn \<Rightarrow> ptr" where "fn_ptr l f = 8 * lib_ptr l + fn_no f"

definition ptr_lib :: "ptr \<Rightarrow> lib option" where "ptr_lib p = find (\<lambda>l. lib_ptr l = p) libs"

definition ptr_fn :: "ptr \<Rightarrow> (lib \<times> fn) option" where
  "ptr_fn p = find (\<lambda>(l, f). fn_ptr l f = p) (List.product libs fns)"

lemma ptr_lib [simp]: "ptr_lib (lib_ptr l) = Some l"
  by (cases l; simp add: ptr_lib_def libs_def)

lemma ptr_fn [simp]: "ptr_fn (fn_ptr l f) = Some (l, f)"
  by (cases l; cases f; simp add: ptr_fn_def libs_def fns_def fn_ptr_def)

lemma fn_ptr_not_NULL [simp]: "fn_ptr l f \<noteq> NULL" "0 < fn_ptr l f"
  by (cases l; simp add: fn_ptr_def)+

text \<open>\<open>nos_export_component\<close>; handlers it does not set stay \<open>NULL\<close>.\<close>

definition nos_export_component :: "lib \<Rightarrow> nos_component \<Rightarrow> nos_status \<times> nos_component" where
  "nos_export_component l c =
     (NOS_OK,
      let c = c\<lparr>comp_on_msg := fn_ptr l Fn_on_msg\<rparr>;
          c = (if l \<in> {Comp_pong, Comp_rpong} then c else c\<lparr>comp_init := fn_ptr l Fn_init\<rparr>);
          c = (if l \<in> {Comp_1, Comp_2, Comp_4, Comp_5} then c\<lparr>comp_start := fn_ptr l Fn_start\<rparr> else c)
      in if l \<in> {Comp_1, Comp_2, Comp_ping, Comp_rping} then c\<lparr>comp_stop := fn_ptr l Fn_stop\<rparr> else c)"

section \<open>Model 1: heartbeat and subscriber\<close>

definition SVC_MGMT :: u32 where "SVC_MGMT = 101"

definition SVC_ROUTING_V4 :: u32 where "SVC_ROUTING_V4 = 102"

text \<open>\<open>char key[32]\<close>, a string of at most 31 characters padded with \<open>NUL\<close>.\<close>

definition key32 :: "string \<Rightarrow> bytes" where
  "key32 name = map char_byte (take 31 name) @ replicate (32 - length (take 31 name)) 0"

definition model_1_sub :: "ptr \<Rightarrow> nos_kv_sub" where
  "model_1_sub self = \<lparr>sub_notify = fn_ptr Comp_1 Fn_notify, sub_arg = self\<rparr>"

definition on_comp2_state_change :: "ptr \<Rightarrow> bytes option \<Rightarrow> u32 \<Rightarrow> sys_node \<Rightarrow> sys_node option" where
  "on_comp2_state_change self v n s =
     (if n = 4 then do {
        v \<leftarrow> v;
        c \<leftarrow> comps s self;
        Some (log_info c (''DETECTED: Comp-2 state changed to '' @ dec_int (sint (bytes_u32 v)) @ '' via KV Sub/Notify!'') s)
      } else Some s)"

definition heartbeat_callback :: "ptr \<Rightarrow> sys_node \<Rightarrow> sys_node option" where
  "heartbeat_callback self s = do {
     c \<leftarrow> comps s self;
     let s = log_debug c ''Timer callback: sending heartbeat to Comp-2'' s;
     Some (post_msg 28 (fill_header SVC_ROUTING_V4 (comp_id c) 1001 0) s)
   }"

text \<open>The reply leaves the length of its payload as it is in the buffer.\<close>

definition model_1_on_msg :: "ptr \<Rightarrow> nos_service_msg \<Rightarrow> sys_node \<Rightarrow> sys_node option" where
  "model_1_on_msg self m s = do {
     c \<leftarrow> comps s self;
     let s = log_info c (''Received msg from Comp '' @ dec (unat (src_component m)) @ '', Code '' @ dec (unat (msg_code m))) s;
     Some (if msg_code m = 1001
           then post_msg (28 + 32) (fill_reply SVC_MGMT (comp_id c) 1002) (log_info c ''Replying to MGMT Service'' s)
           else s)
   }"

definition model_1_init :: "ptr \<Rightarrow> sys_node \<Rightarrow> (nos_status \<times> sys_node) option" where
  "model_1_init self s = do {
     c \<leftarrow> comps s self;
     let s = calloc_priv self (Priv_1 NULL None) s;
     Some (if privs s self = None then (NOS_ERR, s) else (NOS_OK, log_debug c ''Initialized via Auto-Injection API'' s))
   }"

definition model_1_start :: "ptr \<Rightarrow> sys_node \<Rightarrow> (nos_status \<times> sys_node) option" where
  "model_1_start self s =
     (case (privs s self, comps s self) of
        (Some (Priv_1 _ _), Some c) \<Rightarrow> do {
          let (tm, s) = timer_create_auto (fn_ptr Comp_1 Fn_callback) self s;
          let s = (if tm \<noteq> NULL
                   then log_info c ''Heartbeat timer object created and started (10s)'' (snd (timer_start_auto self tm 10000 True s))
                   else s);
          (t, s) \<leftarrow> kv_create_auto ''CompStates'' 32 4 128 s;
          let s = set_priv self (Some (Priv_1 tm t)) s;
          if t = None then Some (NOS_OK, s)
          else do {
            (st, s) \<leftarrow> kv_subscribe_auto t (key32 ''Comp-2'') (model_1_sub self) s;
            Some (NOS_OK,
              if st = NOS_OK then log_info c ''Subscribed to Comp-2 state changes in KV DB'' s
              else log_warn c ''Failed to subscribe to Comp-2 state (might not exist yet)'' s)
          }
        }
      | _ \<Rightarrow> None)"

definition model_1_stop :: "ptr \<Rightarrow> sys_node \<Rightarrow> sys_node option" where
  "model_1_stop self s =
     (case privs s self of
        None \<Rightarrow> Some s
      | Some (Priv_1 tm t) \<Rightarrow> do {
          s \<leftarrow> (if tm \<noteq> NULL then timer_delete_auto tm s else Some s);
          s \<leftarrow> (if t = None then Some s
                else map_option snd (kv_unsubscribe_auto t (key32 ''Comp-2'') (model_1_sub self) s));
          Some (set_priv self None s)
        }
      | _ \<Rightarrow> None)"

section \<open>Model 2: a counter kept in the store\<close>

text \<open>\<open>nos_kv_put\<close> makes the calls of the subscribers when it has released its lock.\<close>

fun notify_all :: "notification list \<Rightarrow> sys_node \<Rightarrow> sys_node option" where
  "notify_all [] s = Some s"
| "notify_all ((f, a, key, v, n) # ns) s = do {
     s \<leftarrow> (if f = fn_ptr Comp_1 Fn_notify then on_comp2_state_change a v n s else None);
     notify_all ns s
   }"

definition kv_put_auto :: "nat option \<Rightarrow> bytes \<Rightarrow> bytes \<Rightarrow> u32 \<Rightarrow> sys_node \<Rightarrow> (nos_status \<times> sys_node) option" where
  "kv_put_auto t key v n s =
     (if has_ops ''SVC_KV_DB'' s then do {
        (st, x, notes) \<leftarrow> nos_kv_put (kv_handle s t) (Some key) (Some v) n;
        s \<leftarrow> notify_all notes (kv_store t x s);
        Some (st, s)
      } else Some (NOS_ERR, s))"

definition model_2_on_msg :: "ptr \<Rightarrow> nos_service_msg \<Rightarrow> sys_node \<Rightarrow> sys_node option" where
  "model_2_on_msg self m s =
     (case (privs s self, comps s self) of
        (None, _) \<Rightarrow> Some s
      | (Some (Priv_2 state_table test_table k), Some c) \<Rightarrow> do {
          let k = k + 1;
          let s = set_priv self (Some (Priv_2 state_table test_table k)) s;
          s \<leftarrow> (if state_table = None then Some s
                else map_option snd (kv_put_auto state_table (key32 (comp_name c)) (u32_bytes k) 4 s));
          s \<leftarrow> (if test_table = None then Some s
                else map_option snd (kv_put_auto test_table (u32_bytes k) (u32_bytes k) 4 s));
          Some (log_info c (''Msg received, counter: '' @ dec_int (sint k) @ ''. Data synced to KV DB.'') s)
        }
      | _ \<Rightarrow> None)"

text \<open>\<open>nos_kv_get\<close> copies what it finds over the counter, which is 0.\<close>

definition overwrite :: "bytes \<Rightarrow> u32 \<Rightarrow> u32" where
  "overwrite v w = bytes_u32 (v @ drop (length v) (u32_bytes w))"

definition model_2_init :: "ptr \<Rightarrow> sys_node \<Rightarrow> (nos_status \<times> sys_node) option" where
  "model_2_init self s = do {
     c \<leftarrow> comps s self;
     let ok = calloc_ok s (calloc_no s);
     let s = s\<lparr>calloc_no := calloc_no s + 1\<rparr>;
     if \<not> ok then Some (NOS_ERR, s)
     else do {
       (state_table, s) \<leftarrow> kv_create_auto ''CompStates'' 32 4 128 s;
       (test_table, s) \<leftarrow> kv_create_auto ''TestData'' 4 4 1024 s;
       let s = set_priv self (Some (Priv_2 state_table test_table 0)) s;
       s \<leftarrow> (if state_table = None then Some s
             else do {
               (st, got) \<leftarrow> kv_get_auto state_table (key32 (comp_name c)) 4 s;
               if st = NOS_OK
               then let k = (case got of Some (v, _) \<Rightarrow> overwrite v 0 | None \<Rightarrow> 0)
                    in Some (log_info c (''State recovered from KV DB: counter = '' @ dec_int (sint k))
                              (set_priv self (Some (Priv_2 state_table test_table k)) s))
               else map_option snd (kv_put_auto state_table (key32 (comp_name c)) (u32_bytes 0) 4 s)
             });
       Some (NOS_OK, log_debug c ''Component instance with multiple KV tables initialized'' s)
     }
   }"

text \<open>\<open>free(self->priv)\<close>. Model 2 then clears the pointer; the performance tests are freed themselves.\<close>

definition free_priv :: "ptr \<Rightarrow> sys_node \<Rightarrow> sys_node" where
  "free_priv self s = set_priv self None s"

section \<open>Models 3 to 5\<close>

text \<open>The loop of log lines from \<open>i\<close> on, with \<open>n\<close> to go.\<close>

fun spam_loop :: "nat \<Rightarrow> nat \<Rightarrow> nos_component \<Rightarrow> sys_node \<Rightarrow> sys_node" where
  "spam_loop 0 i c s = s"
| "spam_loop (Suc n) i c s = spam_loop n (Suc i) c (log_debug c (''Spam message #'' @ dec i @ '' for stress testing'') s)"

definition model_3_on_msg :: "ptr \<Rightarrow> nos_service_msg \<Rightarrow> sys_node \<Rightarrow> sys_node option" where
  "model_3_on_msg self m s =
     (if msg_code m = 3002 then do {
        c \<leftarrow> comps s self;
        let log_count = (if payload_len m \<ge> 4 then get_u32 0 (msg_payload m) else 2000);
        let s = log_info c (''Starting Spam Logging: '' @ dec (unat log_count) @ '' messages'') s;
        let s = spam_loop (unat log_count) 0 c s;
        Some (log_info c ''Spam Logging Complete'' s)
      } else Some s)"

definition model_3_init :: "ptr \<Rightarrow> sys_node \<Rightarrow> (nos_status \<times> sys_node) option" where
  "model_3_init self s = do {
     c \<leftarrow> comps s self;
     Some (NOS_OK, log_debug c ''Model 3 (Infrastructure Helper) initialized'' s)
   }"

text \<open>The counters of models 4 and 5; a \<open>NULL\<close> pointer from \<open>calloc\<close> is not noticed before.\<close>

definition count_msg :: "ptr \<Rightarrow> nos_component \<Rightarrow> nos_service_msg \<Rightarrow> sys_node \<Rightarrow> sys_node option" where
  "count_msg self c m s =
     (case privs s self of
        Some (Priv_count k) \<Rightarrow>
          Some (log_info c (''RECEIVED (Total: '' @ dec_int (sint (k + 1)) @ ''): From Component '' @ dec (unat (src_component m)) @
                            '', MsgCode '' @ dec (unat (msg_code m)))
                 (set_priv self (Some (Priv_count (k + 1))) s))
      | _ \<Rightarrow> None)"

text \<open>Model 4 does not release the buffer of its reply.\<close>

definition model_4_on_msg :: "ptr \<Rightarrow> nos_service_msg \<Rightarrow> sys_node \<Rightarrow> sys_node option" where
  "model_4_on_msg self m s = do {
     c \<leftarrow> comps s self;
     s \<leftarrow> count_msg self c m s;
     if msg_code m = 1001 then
       (let s = log_info c ''Auto-replying to MGMT Service'' s in
        case node_alloc (Inl (28 + 32, 0)) s of
          None \<Rightarrow> Some s
        | Some (b, s) \<Rightarrow> Some (snd (msg_send (Some b) (s\<lparr>msgs := (msgs s)(b := fill_reply SVC_MGMT (comp_id c) 1002 (msgs s b))\<rparr>))))
     else Some s
   }"

definition model_5_on_msg :: "ptr \<Rightarrow> nos_service_msg \<Rightarrow> sys_node \<Rightarrow> sys_node option" where
  "model_5_on_msg self m s = do { c \<leftarrow> comps s self; count_msg self c m s }"

definition model_4_init :: "ptr \<Rightarrow> sys_node \<Rightarrow> (nos_status \<times> sys_node) option" where
  "model_4_init self s = do {
     c \<leftarrow> comps s self;
     Some (NOS_OK, log_debug c ''Model 4 initialized'' (calloc_priv self (Priv_count 0) s))
   }"

definition model_5_init :: "ptr \<Rightarrow> sys_node \<Rightarrow> (nos_status \<times> sys_node) option" where
  "model_5_init self s = do {
     c \<leftarrow> comps s self;
     Some (NOS_OK, log_debug c ''Model 5 (Instance of Model 2 code) initialized'' (calloc_priv self (Priv_count 0) s))
   }"

section \<open>The performance test inside a node\<close>

definition SVC_PING :: u32 where "SVC_PING = 111"

definition SVC_PONG :: u32 where "SVC_PONG = 112"

definition get_now_ns :: "'z tnode_scheme \<Rightarrow> u64 \<times> 'z tnode_scheme" where
  "get_now_ns s = (let ts = clock s (clock_reads s) in (fst ts * 1000000000 + snd ts, s\<lparr>clock_reads := clock_reads s + 1\<rparr>))"

definition send_ping :: "nos_component \<Rightarrow> sys_node \<Rightarrow> sys_node" where
  "send_ping c s = post_msg 28 (fill_header SVC_PONG (comp_id c) 2001 0) s"

definition ping_on_msg :: "ptr \<Rightarrow> nos_service_msg \<Rightarrow> sys_node \<Rightarrow> sys_node option" where
  "ping_on_msg self m s =
     (if msg_code m = 3001 then
        (case (privs s self, comps s self) of
           (Some (Priv_ping _ _ _), Some c) \<Rightarrow>
             (let target = (if payload_len m \<ge> 4 then get_u32 0 (msg_payload m) else 100000);
                  s = log_info c (''Specialized Perf Test Started: '' @ dec (unat target) @ '' iterations'') s;
                  (now, s) = get_now_ns s
              in Some (send_ping c (set_priv self (Some (Priv_ping now target 0)) s)))
         | _ \<Rightarrow> None)
      else if msg_code m = 2002 then
        (case (privs s self, comps s self) of
           (Some (Priv_ping start target k), Some c) \<Rightarrow>
             (let s = set_priv self (Some (Priv_ping start target (k + 1))) s
              in Some (if k + 1 < target then send_ping c s
                       else log_info c ''Specialized Perf Test Complete!'' (snd (get_now_ns s))))
         | _ \<Rightarrow> None)
      else Some s)"

definition pong_on_msg :: "ptr \<Rightarrow> nos_service_msg \<Rightarrow> sys_node \<Rightarrow> sys_node option" where
  "pong_on_msg self m s =
     (if msg_code m = 2001 then do {
        c \<leftarrow> comps s self;
        Some (post_msg 28 (fill_header SVC_PING (comp_id c) 2002 0) s)
      } else Some s)"

definition ping_init :: "ptr \<Rightarrow> sys_node \<Rightarrow> (nos_status \<times> sys_node) option" where
  "ping_init self s = Some (NOS_OK, calloc_priv self (Priv_ping 0 0 0) s)"

section \<open>The performance test between nodes\<close>

definition SVC_REMOTE_PING :: u32 where "SVC_REMOTE_PING = 113"

definition SVC_REMOTE_PONG :: u32 where "SVC_REMOTE_PONG = 114"

definition buf_capacity :: "'z node_scheme \<Rightarrow> buf_ref \<Rightarrow> u32" where
  "buf_capacity s b =
     (case b of
        PoolBuf i j \<Rightarrow> nos_buffer.capacity (pool_buf (bufs s) (i, j))
      | ShmBuf o' \<Rightarrow> (case blocks (shmem s) o' of None \<Rightarrow> 0 | Some blk \<Rightarrow> nos_buffer.capacity (blk_buf blk)))"

text \<open>
  Both sides send the same way: a message with a payload of \<open>n\<close> bytes, in shared memory if it is small and there
  is room, otherwise from the local pool. The sum of the sizes is one of 32 bits. A \<open>memset\<close> past the
  end of the buffer is \<open>None\<close>.
\<close>

definition alloc_remote :: "u32 \<Rightarrow> 'z ipc_node_scheme \<Rightarrow> (buf_ref \<times> 'z ipc_node_scheme) option" where
  "alloc_remote sz s =
     (case (if sz \<le> 4096 then node_alloc (Inr sz) s else None) of
        None \<Rightarrow> node_alloc (Inl (sz, 0)) s
      | Some got \<Rightarrow> Some got)"

definition fill_payload :: "u8 \<Rightarrow> u32 \<Rightarrow> nos_service_msg \<Rightarrow> nos_service_msg" where
  "fill_payload x n m = m\<lparr>msg_payload := replicate (unat n) (byte_char x) @ drop (unat n) (msg_payload m)\<rparr>"

definition post_remote :: "u32 \<Rightarrow> u32 \<Rightarrow> u8 \<Rightarrow> u32 \<Rightarrow> nos_component \<Rightarrow> 'z ipc_node_scheme \<Rightarrow> 'z ipc_node_scheme option" where
  "post_remote dst code x n c s =
     (let got = alloc_remote (28 + n) s in
      case got of
        None \<Rightarrow> Some s
      | Some (b, s') \<Rightarrow>
          if 28 + unat n > unat (buf_capacity s' b) then None
          else Some (post_buf got (\<lambda>m. fill_payload x n (fill_header dst (comp_id c) code n m)) s))"

definition remote_send_ping :: "ptr \<Rightarrow> nos_component \<Rightarrow> sys_node \<Rightarrow> sys_node option" where
  "remote_send_ping self c s =
     (case privs s self of
        Some (Priv_rping _ _ _ payload_size) \<Rightarrow> post_remote SVC_REMOTE_PONG 2001 0xAA payload_size c s
      | _ \<Rightarrow> None)"

definition rping_on_msg :: "ptr \<Rightarrow> nos_service_msg \<Rightarrow> sys_node \<Rightarrow> sys_node option" where
  "rping_on_msg self m s =
     (if msg_code m = 3001 then
        (case (privs s self, comps s self) of
           (Some (Priv_rping _ _ _ _), Some c) \<Rightarrow>
             (let target = (if payload_len m \<ge> 4 then get_u32 0 (msg_payload m) else 10000);
                  payload_size = (if payload_len m \<ge> 8 then get_u32 4 (msg_payload m) else 0);
                  s = log_info c (''Cross-Process Perf Test Started: '' @ dec (unat target) @ '' iterations, Payload: '' @
                                  dec (unat payload_size) @ '' bytes'') s;
                  (now, s) = get_now_ns s
              in remote_send_ping self c (set_priv self (Some (Priv_rping now target 0 payload_size)) s))
         | _ \<Rightarrow> None)
      else if msg_code m = 2002 then
        (case (privs s self, comps s self) of
           (Some (Priv_rping start target k payload_size), Some c) \<Rightarrow>
             (let s = set_priv self (Some (Priv_rping start target (k + 1) payload_size)) s
              in if k + 1 < target then remote_send_ping self c s
                 else Some (log_info c (''Test Complete for Size '' @ dec (unat payload_size) @ '':'') (snd (get_now_ns s))))
         | _ \<Rightarrow> None)
      else Some s)"

definition rpong_on_msg :: "ptr \<Rightarrow> nos_service_msg \<Rightarrow> sys_node \<Rightarrow> sys_node option" where
  "rpong_on_msg self m s =
     (if msg_code m = 2001 then do {
        c \<leftarrow> comps s self;
        post_remote SVC_REMOTE_PING 2002 0xBB (payload_len m) c s
      } else Some s)"

definition rping_init :: "ptr \<Rightarrow> sys_node \<Rightarrow> (nos_status \<times> sys_node) option" where
  "rping_init self s = Some (NOS_OK, calloc_priv self (Priv_rping 0 0 0 0) s)"

section \<open>Calls through the pointers\<close>

fun lib_on_msg :: "lib \<Rightarrow> ptr \<Rightarrow> nos_service_msg \<Rightarrow> sys_node \<Rightarrow> sys_node option" where
  "lib_on_msg Comp_1 = model_1_on_msg"
| "lib_on_msg Comp_2 = model_2_on_msg"
| "lib_on_msg Comp_3 = model_3_on_msg"
| "lib_on_msg Comp_4 = model_4_on_msg"
| "lib_on_msg Comp_5 = model_5_on_msg"
| "lib_on_msg Comp_ping = ping_on_msg"
| "lib_on_msg Comp_pong = pong_on_msg"
| "lib_on_msg Comp_rping = rping_on_msg"
| "lib_on_msg Comp_rpong = rpong_on_msg"

fun lib_init :: "lib \<Rightarrow> ptr \<Rightarrow> sys_node \<Rightarrow> (nos_status \<times> sys_node) option" where
  "lib_init Comp_1 = model_1_init"
| "lib_init Comp_2 = model_2_init"
| "lib_init Comp_3 = model_3_init"
| "lib_init Comp_4 = model_4_init"
| "lib_init Comp_5 = model_5_init"
| "lib_init Comp_ping = ping_init"
| "lib_init Comp_rping = rping_init"
| "lib_init l = (\<lambda>self s. None)"

fun lib_start :: "lib \<Rightarrow> ptr \<Rightarrow> sys_node \<Rightarrow> (nos_status \<times> sys_node) option" where
  "lib_start Comp_1 self s = model_1_start self s"
| "lib_start l self s = (if l \<in> {Comp_2, Comp_4, Comp_5} then Some (NOS_OK, s) else None)"

fun lib_stop :: "lib \<Rightarrow> ptr \<Rightarrow> sys_node \<Rightarrow> sys_node option" where
  "lib_stop Comp_1 self s = model_1_stop self s"
| "lib_stop l self s = (if l \<in> {Comp_2, Comp_ping, Comp_rping} then Some (free_priv self s) else None)"

text \<open>A call through a pointer that is not the address of such a function is undefined.\<close>

definition comp_call_msg :: "ptr \<Rightarrow> ptr \<Rightarrow> nos_service_msg \<Rightarrow> sys_node \<Rightarrow> sys_node" where
  "comp_call_msg f self m s = or_crash s (case ptr_fn f of Some (l, Fn_on_msg) \<Rightarrow> lib_on_msg l self m s | _ \<Rightarrow> None)"

definition comp_call_init :: "ptr \<Rightarrow> ptr \<Rightarrow> sys_node \<Rightarrow> nos_status \<times> sys_node" where
  "comp_call_init f self s =
     (case (case ptr_fn f of Some (l, Fn_init) \<Rightarrow> lib_init l self s | _ \<Rightarrow> None) of
        None \<Rightarrow> (NOS_ERR, s\<lparr>crashed := True\<rparr>)
      | Some r \<Rightarrow> r)"

definition comp_call_start :: "ptr \<Rightarrow> ptr \<Rightarrow> sys_node \<Rightarrow> nos_status \<times> sys_node" where
  "comp_call_start f self s =
     (case (case ptr_fn f of Some (l, Fn_start) \<Rightarrow> lib_start l self s | _ \<Rightarrow> None) of
        None \<Rightarrow> (NOS_ERR, s\<lparr>crashed := True\<rparr>)
      | Some r \<Rightarrow> r)"

definition comp_call_stop :: "ptr \<Rightarrow> ptr \<Rightarrow> sys_node \<Rightarrow> sys_node" where
  "comp_call_stop f self s = or_crash s (case ptr_fn f of Some (l, Fn_stop) \<Rightarrow> lib_stop l self s | _ \<Rightarrow> None)"

definition comp_call_timer :: "ptr \<Rightarrow> ptr \<Rightarrow> sys_node \<Rightarrow> sys_node" where
  "comp_call_timer f a s = or_crash s (if f = fn_ptr Comp_1 Fn_callback then heartbeat_callback a s else None)"

definition file_lib :: "string \<Rightarrow> lib option" where "file_lib path = find (\<lambda>l. ''./'' @ lib_file l = path) libs"

text \<open>The environment of the node manager: the libraries, all of them in the working directory.\<close>

definition sys_env :: "unit sys_node_ext mgr_env" where
  "sys_env =
     \<lparr>dl_open = (\<lambda>path. case file_lib path of None \<Rightarrow> NULL | Some l \<Rightarrow> lib_ptr l),
      dl_export = (\<lambda>handle. map_option nos_export_component (ptr_lib handle)),
      call_init = comp_call_init, call_stop = comp_call_stop\<rparr>"

end
