(* ===== verification/NodeMain.thy ===== *)
theory NodeMain
  imports Components
begin

text \<open>
  The main program of a node (\<open>src/core/nos_node_main.c\<close>): start-up from the manifest, and shutdown. The
  initialisation of the embedded services (\<open>nos_timer.c\<close>, \<open>nos_log.c\<close>, \<open>nos_kv.c\<close>), and the release and the memory
  statistics of scheduler threads (\<open>nos_scheduler.c\<close>).
\<close>

section \<open>Memory of the scheduler\<close>

text \<open>\<open>sz\<close> gives the sizes of structures, which the compiler chooses; pointers have 8 bytes.\<close>

definition get_thread_mem_usage :: "(string \<Rightarrow> u64) \<Rightarrow> nos_thread option \<Rightarrow> u64" where
  "get_thread_mem_usage sz t =
     (case t of
        None \<Rightarrow> 0
      | Some t \<Rightarrow> sz ''nos_thread_t'' + of_nat MAX_COMP_PER_THREAD * 8 + 32 * sz ''nos_fd_entry_t'' + of_nat MAX_QUEUE_SIZE * 8 +
                  of_nat (heap_capacity (timer_heap t)) * 8)"

definition nos_scheduler_get_total_mem_usage :: "(string \<Rightarrow> u64) \<Rightarrow> 'z tnode_scheme \<Rightarrow> u64" where
  "nos_scheduler_get_total_mem_usage sz s =
     foldl (\<lambda>total i. total + get_thread_mem_usage sz (threads s (Worker i))) (get_thread_mem_usage sz (threads s Mgmt))
       [0..<worker_count s]"

section \<open>Releasing a thread\<close>

text \<open>The messages still in the queue; at most \<open>MAX_QUEUE_SIZE\<close> rounds.\<close>

fun release_queue :: "nat \<Rightarrow> thread_ref \<Rightarrow> 'z node_scheme \<Rightarrow> 'z node_scheme" where
  "release_queue 0 r s = s"
| "release_queue (Suc n) r s =
     (case threads s r of
        None \<Rightarrow> s
      | Some th \<Rightarrow>
          if head th = tail th then s
          else
            (let s = (case msg_queue th ! head th of None \<Rightarrow> s | Some b \<Rightarrow> nos_buffer_release b s)
             in release_queue n r (upd_thread r (\<lambda>th. th\<lparr>head := (head th + 1) mod MAX_QUEUE_SIZE\<rparr>) s)))"

text \<open>The memory of the thread is freed; the object itself is freed by \<open>main\<close>. Timers belong to components.\<close>

definition free_arrays :: "nos_thread \<Rightarrow> nos_thread" where
  "free_arrays th = th\<lparr>components := [], fd_entries := [], msg_queue := [], timer_heap := (timer_heap th)\<lparr>heap_nodes := []\<rparr>\<rparr>"

definition nos_scheduler_deinit_thread :: "thread_ref \<Rightarrow> 'z node_scheme \<Rightarrow> 'z node_scheme" where
  "nos_scheduler_deinit_thread r s =
     (if threads s r = None then s else upd_thread r free_arrays (release_queue MAX_QUEUE_SIZE r s))"

section \<open>Embedded services\<close>

text \<open>Addresses of the tables of operations.\<close>

definition g_timer_ops :: ptr where "g_timer_ops = 1"

definition g_log_ops :: ptr where "g_log_ops = 2"

definition g_kv_ops :: ptr where "g_kv_ops = 3"

text \<open>\<open>initialized\<close> is a static variable of the function.\<close>

definition nos_timer_init :: "bool \<times> embedded_registry \<Rightarrow> bool \<times> embedded_registry" where
  "nos_timer_init x =
     (let (initialized, reg) = x in
      if initialized then x else (True, snd (nos_embedded_service_register ''SVC_TIMER'' g_timer_ops reg)))"

definition nos_log_service_init :: "nos_log_context \<times> embedded_registry \<Rightarrow> nos_log_context \<times> embedded_registry" where
  "nos_log_service_init x =
     (let (ctx, reg) = x in
      if initialized ctx then x else (nos_log_init ctx, snd (nos_embedded_service_register ''SVC_LOG'' g_log_ops reg)))"

definition nos_kv_db_init :: "embedded_registry \<Rightarrow> embedded_registry" where
  "nos_kv_db_init reg = snd (nos_embedded_service_register ''SVC_KV_DB'' g_kv_ops reg)"

text \<open>The functions a manifest may list as \<open>platform_inits\<close>, with their addresses.\<close>

datatype init_fn = Timer_init | Log_init | Kv_db_init

fun init_ptr :: "init_fn \<Rightarrow> ptr" where
  "init_ptr Timer_init = 1" | "init_ptr Log_init = 2" | "init_ptr Kv_db_init = 3"

definition ptr_init :: "ptr \<Rightarrow> init_fn option" where
  "ptr_init p = find (\<lambda>f. init_ptr f = p) [Timer_init, Log_init, Kv_db_init]"

fun run_init :: "init_fn \<Rightarrow> bool \<times> sys_node \<Rightarrow> bool \<times> sys_node" where
  "run_init Timer_init (i, s) = (let (i, reg) = nos_timer_init (i, embedded s) in (i, s\<lparr>embedded := reg\<rparr>))"
| "run_init Log_init (i, s) =
     (let (ctx, reg) = nos_log_service_init (log_ctx s, embedded s) in (i, s\<lparr>log_ctx := ctx, embedded := reg\<rparr>))"
| "run_init Kv_db_init (i, s) = (i, s\<lparr>embedded := nos_kv_db_init (embedded s)\<rparr>)"

text \<open>The list ends with \<open>NULL\<close>; calling another value is undefined.\<close>

fun platform_init :: "ptr list \<Rightarrow> bool \<times> sys_node \<Rightarrow> sys_node option" where
  "platform_init [] x = None"
| "platform_init (p # ps) x =
     (if p = NULL then Some (snd x)
      else do { f \<leftarrow> ptr_init p; platform_init ps (run_init f x) })"

section \<open>Start\<close>

text \<open>
  What the system calls of the start-up return: the mapped segment (\<open>None\<close> if opening or mapping it fails), its magic number each time it is
  read, aligned memory for the buffers, event descriptors, the listening socket.
\<close>

record boot_env =
  env_shm :: "nos_shm option"
  env_magic :: "nat \<Rightarrow> u32"
  env_memalign :: "u32 \<Rightarrow> bool"
  env_eventfd :: "thread_ref \<Rightarrow> int"
  env_listen_fd :: int
  env_bind_ok :: bool
  env_listen_ok :: bool

text \<open>Waiting for the daemon to publish the segment: \<open>k\<close> reads failed so far, 50 more than the first are tried.\<close>

fun wait_magic :: "nat \<Rightarrow> nat \<Rightarrow> (nat \<Rightarrow> u32) \<Rightarrow> bool" where
  "wait_magic 0 k reads = False"
| "wait_magic (Suc n) k reads = (if reads k = SHM_MAGIC then True else wait_magic n (k + 1) reads)"

definition nos_shm_init :: "nos_shm option \<Rightarrow> (nat \<Rightarrow> u32) \<Rightarrow> string \<Rightarrow> 'z ipc_node_scheme \<Rightarrow> nos_status \<times> 'z ipc_node_scheme" where
  "nos_shm_init mapped reads name s =
     (case mapped of
        None \<Rightarrow> (NOS_ERR, s)
      | Some shm \<Rightarrow>
          if \<not> wait_magic 51 0 reads then (NOS_ERR, s\<lparr>shmem := shm\<rparr>)
          else (case nos_shm_init_node name shm of
                  None \<Rightarrow> (NOS_ERR, s\<lparr>shmem := shm\<rparr>)
                | Some (i, shm) \<Rightarrow> (NOS_OK, s\<lparr>shmem := shm, local_queue := Some i\<rparr>)))"

text \<open>A node without the segment logs the error and goes on.\<close>

definition main_start :: "boot_env \<Rightarrow> nos_node_def option \<Rightarrow> sys_node \<Rightarrow> (int \<times> sys_node) option" where
  "main_start env manifest s =
     (case manifest of
        None \<Rightarrow> Some (- 1, nos_log_raw NOS_LOG_LEVEL_ERROR 0 ''Local node manifest not found.'' s)
      | Some nd \<Rightarrow> do {
          let (st, s) = nos_shm_init (env_shm env) (env_magic env) (nd_name nd) (s\<lparr>node_def := nd, local_name := nd_name nd\<rparr>);
          let s = (if st \<noteq> NOS_OK then nos_log_raw NOS_LOG_LEVEL_ERROR 0 ''Failed to initialize Shared Memory subsystem.'' s else s);
          s \<leftarrow> platform_init (nd_platform_inits nd) (False, s);
          let s = nos_log_raw NOS_LOG_LEVEL_INFO 0 (''--- [NOS Node: '' @ nd_name nd @ ''] Starting ---'') s;
          (st, p) \<leftarrow> nos_buffer_init_pool (env_memalign env) (Some (nd_buffer_pools nd)) (bufs s);
          let s = s\<lparr>bufs := p\<rparr>;
          Some (0, node_start sys_env (env_eventfd env) (env_listen_fd env) (env_bind_ok env) (env_listen_ok env) nd s)
        })"

section \<open>Shutdown\<close>

definition stop_threads :: "'z node_scheme \<Rightarrow> 'z node_scheme" where
  "stop_threads s = foldl (\<lambda>s i. upd_thread (Worker i) nos_scheduler_stop s) (upd_thread Mgmt nos_scheduler_stop s) [0..<worker_count s]"

text \<open>A loaded component is stopped and freed; the last one first.\<close>

definition close_component :: "'z mgr_env \<Rightarrow> loaded_comp_info \<Rightarrow> 'z mgr_node_scheme \<Rightarrow> 'z mgr_node_scheme" where
  "close_component env info s =
     (case comps s (info_comp info) of
        None \<Rightarrow> s
      | Some c \<Rightarrow>
          (let s = (if comp_stop c \<noteq> NULL then call_stop env (comp_stop c) (info_comp info) s else s)
           in s\<lparr>comps := (comps s)(info_comp info := None)\<rparr>))"

definition close_components :: "'z mgr_env \<Rightarrow> 'z mgr_node_scheme \<Rightarrow> 'z mgr_node_scheme" where
  "close_components env s = foldr (close_component env) (loaded_info s) s"

text \<open>The threads' own memory and the messages still in their queues.\<close>

definition deinit_threads :: "'z node_scheme \<Rightarrow> 'z node_scheme" where
  "deinit_threads s = foldl (\<lambda>s i. nos_scheduler_deinit_thread (Worker i) s) (nos_scheduler_deinit_thread Mgmt s) [0..<worker_count s]"

text \<open>
  From the end of the threads on, which have been joined: components, threads, the pool, the store, the log.
  The result has what the consumer of the log printed last; \<open>None\<close> when a reader still holds a bucket of the store.
\<close>

definition main_cleanup :: "unit sys_node_ext mgr_env \<Rightarrow> sys_node \<Rightarrow> ((string \<times> string \<times> string \<times> string) list \<times> sys_node) option" where
  "main_cleanup env s = do {
     let s = close_components env s;
     let s = deinit_threads s;
     let s = s\<lparr>bufs := nos_buffer_deinit_pool (bufs s)\<rparr>;
     ts \<leftarrow> nos_kv_db_deinit (kv_tables s);
     let s = nos_log_raw NOS_LOG_LEVEL_INFO 0 ''Shutdown complete.'' (s\<lparr>kv_tables := ts\<rparr>);
     let (out, ctx) = nos_log_deinit (log_ctx s);
     Some (out, s\<lparr>log_ctx := ctx, threads := Map.empty\<rparr>)
   }"

section \<open>The whole program\<close>

text \<open>
  \<open>run\<close> is what the threads, the command line and signals do until \<open>keep_running\<close> is off, \<open>finish\<close> what the threads do from
  the request to stop until they have been joined. The result has the exit code and the last lines of the log.
\<close>

definition node_main ::
  "boot_env \<Rightarrow> nos_node_def option \<Rightarrow> (sys_node \<Rightarrow> sys_node) \<Rightarrow> (sys_node \<Rightarrow> sys_node) \<Rightarrow> sys_node \<Rightarrow>
     (int \<times> (string \<times> string \<times> string \<times> string) list \<times> sys_node) option" where
  "node_main env manifest run finish s = do {
     (rc, s) \<leftarrow> main_start env manifest s;
     if rc \<noteq> 0 then Some (rc, [], s)
     else do {
       let s = nos_log_raw NOS_LOG_LEVEL_INFO 0 ''Node shutting down...'' (run s);
       (out, s) \<leftarrow> main_cleanup sys_env (finish (stop_threads s));
       Some (0, out, s)
     }
   }"

end
