(* ===== verification/CText.thy ===== *)
theory CText
  imports Components
begin

text \<open>
  The functions of the C library that the command line uses to read numbers and words from text: \<open>atoi\<close>,
  \<open>sscanf\<close> with \<open>%u\<close> and \<open>%s\<close>, \<open>strcasecmp\<close>, the comparison \<open>strncmp\<close>, and the padding of \<open>printf\<close>. A number
  that does not fit its type is undefined behaviour, \<open>None\<close>.
\<close>

definition is_space :: "char \<Rightarrow> bool" where
  "is_space c \<longleftrightarrow> c \<in> {CHR '' '', CHR 0x09, CHR 0x0A, CHR 0x0B, CHR 0x0C, CHR 0x0D}"

definition is_digit :: "char \<Rightarrow> bool" where
  "is_digit c \<longleftrightarrow> 48 \<le> (of_char c :: nat) \<and> (of_char c :: nat) \<le> 57"

definition digits_value :: "string \<Rightarrow> nat" where
  "digits_value = foldl (\<lambda>n c. 10 * n + (of_char c - 48)) 0"

text \<open>White space, a sign, digits; the number and the rest of the text, or \<open>None\<close> without digits.\<close>

definition scan_sign :: "string \<Rightarrow> bool \<times> string" where
  "scan_sign s = (case s of [] \<Rightarrow> (False, []) | c # cs \<Rightarrow> if c = CHR ''-'' then (True, cs) else if c = CHR ''+'' then (False, cs) else (False, s))"

definition scan_int :: "string \<Rightarrow> (int \<times> string) option" where
  "scan_int s =
     (let (neg, s) = scan_sign (dropWhile is_space s); ds = takeWhile is_digit s in
      if ds = [] then None
      else Some (if neg then - int (digits_value ds) else int (digits_value ds), dropWhile is_digit s))"

definition atoi :: "string \<Rightarrow> u32 option" where
  "atoi s =
     (case scan_int s of
        None \<Rightarrow> Some 0
      | Some (i, _) \<Rightarrow> if - (2 ^ 31) \<le> i \<and> i < 2 ^ 31 then Some (word_of_int i) else None)"

text \<open>\<open>%u\<close>: no match is \<open>Some None\<close>. A minus sign negates in the type of the result.\<close>

definition scan_u32 :: "string \<Rightarrow> (u32 \<times> string) option option" where
  "scan_u32 s =
     (case scan_int s of
        None \<Rightarrow> Some None
      | Some (i, rest) \<Rightarrow> if \<bar>i\<bar> < 2 ^ 32 then Some (Some (word_of_int i, rest)) else None)"

text \<open>\<open>%s\<close>: a word without white space.\<close>

definition scan_word :: "string \<Rightarrow> (string \<times> string) option" where
  "scan_word s =
     (let s = dropWhile is_space s; w = takeWhile (\<lambda>c. \<not> is_space c) s in
      if w = [] then None else Some (w, drop (length w) s))"

definition to_lower :: "char \<Rightarrow> char" where
  "to_lower c = (if 65 \<le> (of_char c :: nat) \<and> (of_char c :: nat) \<le> 90 then char_of ((of_char c :: nat) + 32) else c)"

definition strcasecmp_eq :: "string \<Rightarrow> string \<Rightarrow> bool" where
  "strcasecmp_eq a b \<longleftrightarrow> map to_lower a = map to_lower b"

definition strncmp_eq :: "nat \<Rightarrow> string \<Rightarrow> string \<Rightarrow> bool" where
  "strncmp_eq n a b \<longleftrightarrow> take n a = take n b"

text \<open>\<open>%-ns\<close>.\<close>

definition pad :: "nat \<Rightarrow> string \<Rightarrow> string" where
  "pad n s = s @ replicate (n - length s) CHR '' ''"

definition dec_word :: "'w::len word \<Rightarrow> string" where "dec_word w = dec (unat w)"

section \<open>Printed numbers are read back\<close>

lemma digits_value_snoc: "digits_value (s @ [c]) = 10 * digits_value s + (of_char c - 48)"
  by (simp add: digits_value_def)

lemma of_digit: "n < 10 \<Longrightarrow> of_char (char_of (48 + n) :: char) = 48 + n" for n :: nat
  by simp

lemma dec_digits: "list_all is_digit (dec n) \<and> dec n \<noteq> [] \<and> digits_value (dec n) = n"
proof (induction n rule: dec.induct)
  case (1 n)
  show ?case
  proof (cases "n < 10")
    case True
    then show ?thesis by (subst (1 2 3) dec.simps) (simp add: is_digit_def digits_value_def)
  next
    case False
    have m: "n mod 10 < 10" by simp
    have "dec n = dec (n div 10) @ [char_of (48 + n mod 10)]" using False by (subst dec.simps) simp
    moreover have "10 * (n div 10) + n mod 10 = n" by simp
    ultimately show ?thesis using 1[OF False] of_digit[OF m] m by (simp add: is_digit_def digits_value_snoc)
  qed
qed

lemma no_space_digit: "is_digit c \<Longrightarrow> \<not> is_space c"
  by (auto simp: is_digit_def is_space_def)

lemma scan_sign_digit: "s \<noteq> [] \<Longrightarrow> is_digit (hd s) \<Longrightarrow> scan_sign s = (False, s)"
  by (cases s) (auto simp: scan_sign_def is_digit_def)

lemma scan_int_dec:
  assumes "rest = [] \<or> \<not> is_digit (hd rest)"
  shows "scan_int (dec n @ rest) = Some (int n, rest)"
proof -
  have d: "list_all is_digit (dec n)" "dec n \<noteq> []" "digits_value (dec n) = n" using dec_digits[of n] by auto
  have h: "is_digit (hd (dec n @ rest))" "dec n @ rest \<noteq> []" using d(1,2) by (cases "dec n"; simp)+
  have "dropWhile is_space (dec n @ rest) = dec n @ rest"
    using h no_space_digit by (cases "dec n @ rest") auto
  moreover have "takeWhile is_digit (dec n @ rest) = dec n" "dropWhile is_digit (dec n @ rest) = rest"
    using d(1) assms by (auto simp: list_all_iff takeWhile_append2 dropWhile_append2 takeWhile_eq_Nil_iff dropWhile_eq_self_iff)
  ultimately show ?thesis using scan_sign_digit[OF h(2,1)] d(2,3) by (simp add: scan_int_def)
qed

lemma atoi_dec: "n < 2 ^ 31 \<Longrightarrow> atoi (dec n) = Some (of_nat n)"
  using scan_int_dec[of "[]" n] by (simp add: atoi_def)

lemma scan_u32_dec:
  assumes "n < 2 ^ 32" "rest = [] \<or> \<not> is_digit (hd rest)"
  shows "scan_u32 (dec n @ rest) = Some (Some (of_nat n, rest))"
  using scan_int_dec[OF assms(2), of n] assms(1) by (simp add: scan_u32_def)

lemma dec_chars: "c \<in> set (dec n) \<Longrightarrow> is_digit c"
  using dec_digits[of n] by (auto simp: list_all_iff)

end
