(* ===== verification/Cli.thy ===== *)
theory Cli
  imports NodeMain CText
begin

text \<open>
  The command line of a node (\<open>src/core/nos_cli.c\<close>): the line editor with its history and completion, the table of
  commands, and the commands. Keys come as a string of bytes, the end of which is the end of the
  terminal's input; what is printed is collected. A result \<open>None\<close> is undefined behaviour.
\<close>

section \<open>State\<close>

text \<open>
  The node, the history, \<open>keep_running\<close>, and what was printed. \<open>struct_size\<close> gives the sizes of structures, \<open>ratio_text\<close> what
  \<open>printf\<close> makes of a quotient of two numbers with a format.
\<close>

record cli =
  cli_node :: sys_node
  g_history :: "string list"
  g_history_count :: nat
  cli_running :: bool
  screen :: "string list"
  struct_size :: "string \<Rightarrow> u64"
  ratio_text :: "string \<Rightarrow> nat \<Rightarrow> nat \<Rightarrow> string"

definition out :: "string \<Rightarrow> cli \<Rightarrow> cli" where "out t c = c\<lparr>screen := screen c @ [t]\<rparr>"

definition out_all :: "string list \<Rightarrow> cli \<Rightarrow> cli" where "out_all ts c = c\<lparr>screen := screen c @ ts\<rparr>"

abbreviation "NUL \<equiv> CHR 0x00"
abbreviation "NL \<equiv> CHR 0x0A"
abbreviation "SP \<equiv> CHR '' ''"

text \<open>The string in an array; without a terminator reading it runs past the array.\<close>

definition cstr :: "string \<Rightarrow> string option" where
  "cstr buf = (if NUL \<in> set buf then Some (c_string buf) else None)"

section \<open>History\<close>

definition MAX_HISTORY :: nat where "MAX_HISTORY = 3"

definition history_add :: "string \<Rightarrow> cli \<Rightarrow> cli" where
  "history_add cmd c =
     (if cmd = [] then c
      else if g_history_count c > 0 \<and> g_history c ! 0 = cmd then c
      else c\<lparr>g_history := strncpy_field 256 cmd # take (MAX_HISTORY - 1) (g_history c),
             g_history_count := (if g_history_count c < MAX_HISTORY then g_history_count c + 1 else g_history_count c)\<rparr>)"

section \<open>Commands that show something\<close>

fun comp_status_str :: "nos_comp_status \<Rightarrow> string" where
  "comp_status_str NOS_COMP_ST_LOADED = ''Loaded''"
| "comp_status_str NOS_COMP_ST_INITED = ''Inited''"
| "comp_status_str NOS_COMP_ST_ACTIVE = ''Active''"
| "comp_status_str NOS_COMP_ST_STOPPED = ''Stopped''"
| "comp_status_str NOS_COMP_ST_ERROR = ''Error''"

definition rule :: "nat \<Rightarrow> string" where "rule n = replicate n CHR ''-'' @ [NL]"

definition component_row :: "sys_node \<Rightarrow> loaded_comp_info \<Rightarrow> string option" where
  "component_row s info = do {
     c \<leftarrow> comps s (info_comp info);
     th \<leftarrow> threads s (info_owner info);
     Some (pad 15 (comp_name c) @ [SP] @ pad 4 (dec_word (comp_id c)) @ [SP] @ pad 10 (comp_status_str (comp_status c)) @ [SP] @
           pad 15 (info_lib_name info) @ [SP] @ pad 12 (thread_name th) @ [NL])
   }"

text \<open>The rows of a table whose fields are read through pointers.\<close>

fun all_rows :: "('a \<Rightarrow> 'b option) \<Rightarrow> 'a list \<Rightarrow> 'b list option" where
  "all_rows f [] = Some []"
| "all_rows f (x # xs) = do { r \<leftarrow> f x; rs \<leftarrow> all_rows f xs; Some (r # rs) }"

definition do_show_components :: "cli \<Rightarrow> cli option" where
  "do_show_components c = do {
     rows \<leftarrow> all_rows (component_row (cli_node c)) (loaded_info (cli_node c));
     Some (out_all ([[NL] @ pad 15 ''Name'' @ [SP] @ pad 4 ''ID'' @ [SP] @ pad 10 ''Status'' @ [SP] @ pad 15 ''Model-Lib'' @ [SP] @
                     pad 12 ''Thread'' @ [NL], rule 70] @ rows) c)
   }"

definition service_location :: "nos_node_def \<Rightarrow> nos_service_def \<Rightarrow> string" where
  "service_location nd svc =
     (if sd_node_name svc = ''Platform'' then ''Embedded'' else if sd_node_name svc = nd_name nd then ''Local'' else ''Remote'')"

definition service_row :: "nos_node_def \<Rightarrow> nos_service_def \<Rightarrow> string" where
  "service_row nd svc =
     pad 18 (sd_service_name svc) @ [SP] @ pad 8 (dec_word (sd_service_id svc)) @ [SP] @ pad 10 (sd_node_name svc) @ [SP] @
     pad 8 (dec_word (sd_provider_comp_id svc)) @ [SP] @ pad 10 (service_location nd svc) @ [NL]"

definition do_show_services :: "cli \<Rightarrow> cli" where
  "do_show_services c =
     (let nd = node_def (cli_node c) in
      out_all ([[NL] @ pad 18 ''Name'' @ [SP] @ pad 8 ''Svc-ID'' @ [SP] @ pad 10 ''Node'' @ [SP] @ pad 8 ''Comp-ID'' @ [SP] @
                pad 10 ''Location'' @ [NL], rule 70] @ map (service_row nd) (nd_services nd)) c)"

definition do_show_db :: "cli \<Rightarrow> cli" where
  "do_show_db c =
     (let rows = nos_kv_dump_all (kv_tables (cli_node c)) in
      if rows = [] then out (''No KV tables registered.'' @ [NL]) c
      else out_all ([[NL] @ pad 15 ''Table'' @ [SP] @ pad 8 ''KeySize'' @ [SP] @ pad 8 ''MaxVal'' @ [SP] @ pad 10 ''Capacity'' @ [SP] @
                     pad 8 ''Used'' @ [NL], rule 60] @
             map (\<lambda>(name, ks, mv, cap, used).
                    pad 15 name @ [SP] @ pad 8 (dec_word ks) @ [SP] @ pad 8 (dec_word mv) @ [SP] @ pad 10 (dec_word cap) @ [SP] @
                    pad 8 (dec_word used) @ '' ('' @ ratio_text c ''%.1f'' (unat used * 100) (unat cap) @ ''%)'' @ [NL]) rows) c)"

text \<open>\<open>strstr\<close> finds a substring.\<close>

definition strstr :: "string \<Rightarrow> string \<Rightarrow> bool" where
  "strstr a b = list_ex (\<lambda>i. take (length b) (drop i a) = b) [0..<Suc (length a)]"

definition component_mem :: "cli \<Rightarrow> loaded_comp_info \<Rightarrow> (string \<times> u64) option" where
  "component_mem c info = do {
     cp \<leftarrow> comps (cli_node c) (info_comp info);
     let priv_mem = (if strstr (info_lib_name info) ''libcomp-1.so'' then 16 else if strstr (info_lib_name info) ''libcomp-2.so'' then 32 else 0);
     Some (comp_name cp, struct_size c ''nos_component_t'' + priv_mem)
   }"

definition memory_row :: "string \<Rightarrow> u64 \<Rightarrow> string \<Rightarrow> string" where
  "memory_row name n kind = pad 20 name @ [SP] @ pad 15 (dec_word n) @ [SP] @ pad 15 kind @ [NL]"

definition do_show_memory :: "cli \<Rightarrow> cli option" where
  "do_show_memory c =
     (let s = cli_node c; sz = struct_size c;
          log_mem = sz ''nos_log_context_t'';
          kv_mem = nos_kv_get_total_mem_usage (kv_tables s);
          buf_mem = nos_buffer_get_total_mem_usage (sz ''nos_buffer_bin_t'') (sz ''nos_buffer_t'') (bufs s);
          sch_mem = nos_scheduler_get_total_mem_usage sz s
      in do {
        ms \<leftarrow> all_rows (component_mem c) (loaded_info s);
        Some (out_all
          ([[NL] @ ''--- NOS Process Memory Consumption ---'' @ [NL],
            pad 20 ''Module/Component'' @ [SP] @ pad 15 ''Usage (Bytes)'' @ [SP] @ pad 15 ''Type'' @ [NL], rule 60,
            memory_row ''SVC_LOG'' log_mem ''Embedded Service'', memory_row ''SVC_KV_DB'' kv_mem ''Embedded Service'',
            memory_row ''Buffer Pool'' buf_mem ''Infrastructure'', memory_row ''Scheduler/Threads'' sch_mem ''Infrastructure''] @
           map (\<lambda>(n, m). memory_row n m ''Component'') ms @
           [rule 60, pad 20 ''Total Accounted'' @ [SP] @
              pad 15 (dec_word (log_mem + kv_mem + buf_mem + sch_mem + sum_list (map snd ms))) @ [NL, NL]]) c)
      })"

definition conn_row :: "string \<times> string \<times> int \<times> string \<times> nat \<times> nat \<times> string \<Rightarrow> string" where
  "conn_row x =
     (let (name, path, fd, st, h, t, cong) = x in
      pad 15 name @ [SP] @ pad 25 path @ [SP] @ pad 4 (dec_int fd) @ [SP] @ pad 10 st @ [SP] @ dec h @ ''/'' @ dec t @ [SP] @ cong @ [NL])"

definition do_show_ipc :: "cli \<Rightarrow> cli" where
  "do_show_ipc c =
     (let s = cli_node c; st = stats s; mb = (\<lambda>n :: u64. ratio_text c ''%-12.2f'' (unat n) (1024 * 1024)) in
      out_all
        ([[NL] @ ''--- NOS IPC Global Statistics ---'' @ [NL],
          pad 15 ''Packets:'' @ '' TX: '' @ pad 12 (dec_word (tx_packets st)) @ '' RX: '' @ pad 12 (dec_word (rx_packets st)) @ [NL],
          pad 15 ''Volume:'' @ '' TX: '' @ mb (tx_bytes st) @ '' MB RX: '' @ mb (rx_bytes st) @ '' MB'' @ [NL],
          pad 15 ''Errors:'' @ '' TX_Err: '' @ pad 8 (dec_word (tx_errors st)) @ '' RX_Err: '' @ pad 8 (dec_word (rx_errors st)) @ [NL],
          pad 15 ''Drops:'' @ '' Queue_Full: '' @ pad 8 (dec_word (dropped_full st)) @ '' Buf_Alloc_Fail: '' @
            pad 8 (dec_word (buffer_alloc_fails st)) @ [NL],
          [NL] @ ''--- IPC Connection Status ---'' @ [NL],
          pad 15 ''Remote-Node'' @ [SP] @ pad 25 ''UDS-Path'' @ [SP] @ pad 4 ''FD'' @ [SP] @ pad 10 ''Status'' @ [SP] @
            pad 12 ''Queue(H/T)'' @ [SP] @ pad 6 ''Congest'' @ [NL], rule 80] @
         map conn_row (nos_ipc_get_conn_snapshot 16 s) @ [rule 70]) c)"

definition do_clear_ipc :: "cli \<Rightarrow> cli" where
  "do_clear_ipc c = out (''[CLI] IPC statistics cleared.'' @ [NL]) (c\<lparr>cli_node := nos_ipc_stats_clear (cli_node c)\<rparr>)"

section \<open>Commands that send a message\<close>

text \<open>The CLI has no component: it leaves the sender of the message as it is in the buffer.\<close>

definition fill_command :: "u32 \<Rightarrow> u32 \<Rightarrow> u32 list \<Rightarrow> nos_service_msg \<Rightarrow> nos_service_msg" where
  "fill_command dst code args m =
     m\<lparr>msg_magic := NOS_IPC_MAGIC, dst_service := dst, msg_code := code, payload_len := of_nat (4 * length args),
       msg_payload := foldl (\<lambda>p (i, w). put_u32 (4 * i) w p) (msg_payload m) (enumerate 0 args)\<rparr>"

definition send_command :: "u32 \<Rightarrow> u32 \<Rightarrow> u32 list \<Rightarrow> string \<Rightarrow> cli \<Rightarrow> cli" where
  "send_command dst code args text c =
     (let sz = 28 + of_nat (4 * length args) in
      if node_alloc (Inl (sz, 0)) (cli_node c) = None then c
      else out text (c\<lparr>cli_node := post_msg sz (fill_command dst code args) (cli_node c)\<rparr>))"

definition SVC_PERF_RX :: u32 where "SVC_PERF_RX = 110"

definition do_perf_start :: "string option \<Rightarrow> cli \<Rightarrow> cli option" where
  "do_perf_start args c = do {
     n \<leftarrow> (case args of None \<Rightarrow> Some 10000 | Some a \<Rightarrow> cstr a \<bind> atoi);
     let n = (if n = 0 then 10000 else n);
     Some (send_command SVC_PING 3001 [n]
             (''[CLI] Triggering specialized performance test with '' @ dec_word n @ '' iterations...'' @ [NL]) c)
   }"

text \<open>\<open>sscanf(args, "%u %u", &count, &size)\<close>.\<close>

definition scan_two :: "string \<Rightarrow> u32 \<Rightarrow> u32 \<Rightarrow> (u32 \<times> u32) option" where
  "scan_two a n sz = do {
     r \<leftarrow> scan_u32 a;
     case r of
       None \<Rightarrow> Some (n, sz)
     | Some (n, rest) \<Rightarrow> do {
         r \<leftarrow> scan_u32 rest;
         Some (case r of None \<Rightarrow> (n, sz) | Some (sz, _) \<Rightarrow> (n, sz))
       }
   }"

definition do_perf_remote_start :: "string option \<Rightarrow> cli \<Rightarrow> cli option" where
  "do_perf_remote_start args c = do {
     (n, sz) \<leftarrow> (case args of None \<Rightarrow> Some (10000, 0) | Some a \<Rightarrow> cstr a \<bind> (\<lambda>a. scan_two a 10000 0));
     let n = (if n = 0 then 10000 else n);
     Some (send_command SVC_REMOTE_PING 3001 [n, sz]
             (''[CLI] Triggering cross-process performance test: '' @ dec_word n @ '' iterations, '' @ dec_word sz @
              '' byte payload...'' @ [NL]) c)
   }"

section \<open>The log command\<close>

definition str_to_level :: "string \<Rightarrow> nos_log_level" where
  "str_to_level s =
     (if strcasecmp_eq s ''debug'' then NOS_LOG_LEVEL_DEBUG
      else if strcasecmp_eq s ''info'' then NOS_LOG_LEVEL_INFO
      else if strcasecmp_eq s ''warn'' then NOS_LOG_LEVEL_WARN
      else if strcasecmp_eq s ''error'' then NOS_LOG_LEVEL_ERROR
      else NOS_LOG_LEVEL_INFO)"

definition set_filter_level :: "nos_log_level \<Rightarrow> sys_node \<Rightarrow> sys_node" where
  "set_filter_level lv s = s\<lparr>log_ctx := nos_set_level_impl (local_times s (time_no s)) lv (log_ctx s), time_no := time_no s + 1\<rparr>"

definition set_comp_level :: "u32 \<Rightarrow> nos_log_level \<Rightarrow> sys_node \<Rightarrow> sys_node" where
  "set_comp_level i lv s =
     s\<lparr>log_ctx := nos_set_comp_level_impl (local_times s (time_no s)) dec_word i lv (log_ctx s), time_no := time_no s + 1\<rparr>"

text \<open>\<open>char sub[64], val[64]\<close>; the words that \<open>sscanf(text, "%s %s", sub, val)\<close> stores.\<close>

definition scan_words :: "string \<Rightarrow> string list option" where
  "scan_words a =
     (case scan_word a of
        None \<Rightarrow> Some []
      | Some (sub, rest) \<Rightarrow>
          if length sub \<ge> 64 then None
          else case scan_word rest of
                 None \<Rightarrow> Some [sub]
               | Some (v, _) \<Rightarrow> if length v \<ge> 64 then None else Some [sub, v])"

text \<open>\<open>args + 6\<close> skips the space after \<open>level\<close>, or the terminator when nothing follows.\<close>

definition do_log_level :: "string \<Rightarrow> cli \<Rightarrow> cli option" where
  "do_log_level args c = do {
     a \<leftarrow> cstr (drop 6 args);
     ws \<leftarrow> scan_words a;
     if \<not> has_ops ''SVC_LOG'' (cli_node c) then Some (out (''Log service not found.'' @ [NL]) c)
     else case ws of
         [sub] \<Rightarrow> Some (c\<lparr>cli_node := set_filter_level (str_to_level sub) (cli_node c)\<rparr>)
       | [sub, v] \<Rightarrow> do {
           i \<leftarrow> atoi sub;
           Some (c\<lparr>cli_node := set_comp_level i (str_to_level v) (cli_node c)\<rparr>)
         }
       | _ \<Rightarrow> Some (out (''Usage: log level <level> | log level <comp_id> <level>'' @ [NL]) c)
   }"

definition do_log_spam :: "string \<Rightarrow> cli \<Rightarrow> cli option" where
  "do_log_spam a c = do {
     n \<leftarrow> (if length a > 4 then atoi (drop 5 a) else Some 2000);
     Some (send_command SVC_PERF_RX 3002 [n]
             (''[CLI] Triggering spam logging test with '' @ dec_word n @ '' messages...'' @ [NL]) c)
   }"

definition do_log_stats :: "cli \<Rightarrow> cli" where
  "do_log_stats c =
     (let dropped = nos_log_get_stats (log_ctx (cli_node c)) in
      out_all ([[NL] @ ''--- NOS Logging Statistics ---'' @ [NL], ''Dropped Messages: '' @ dec dropped @ [NL]] @
               (if dropped > 0 then [''Warning: High log volume or slow consumer. Consider increasing LOG_BUFFER_SIZE.'' @ [NL]] else []) @
               [rule 30]) c)"

definition do_log :: "string option \<Rightarrow> cli \<Rightarrow> cli option" where
  "do_log args c =
     (case args of
        None \<Rightarrow> Some (out (''Usage: log stats | log level <DEBUG|INFO|WARN|ERROR> | log level <comp_id> <level>'' @ [NL]) c)
      | Some args \<Rightarrow> do {
          a \<leftarrow> cstr args;
          if strncmp_eq 5 a ''stats'' then Some (do_log_stats c)
          else if strncmp_eq 4 a ''spam'' then do_log_spam a c
          else if strncmp_eq 5 a ''level'' then do_log_level args c
          else Some c
        })"

section \<open>Commands that load and unload\<close>

definition do_load :: "string option \<Rightarrow> cli \<Rightarrow> cli option" where
  "do_load args c =
     (case args of
        None \<Rightarrow> Some c
      | Some a \<Rightarrow> do { a \<leftarrow> cstr a; Some (c\<lparr>cli_node := snd (node_reload_component sys_env a (cli_node c))\<rparr>) })"

definition do_reload :: "string option \<Rightarrow> cli \<Rightarrow> cli option" where
  "do_reload args c =
     (case args of
        None \<Rightarrow> Some c
      | Some a \<Rightarrow> do { a \<leftarrow> cstr a; Some (c\<lparr>cli_node := snd (node_reload_component sys_env a (cli_node c))\<rparr>) })"

definition do_unload :: "string option \<Rightarrow> cli \<Rightarrow> cli option" where
  "do_unload args c =
     (case args of
        None \<Rightarrow> Some c
      | Some a \<Rightarrow> do { a \<leftarrow> cstr a; Some (c\<lparr>cli_node := snd (node_unload_component sys_env a (cli_node c))\<rparr>) })"

definition do_quit :: "cli \<Rightarrow> cli" where "do_quit c = c\<lparr>cli_running := False\<rparr>"

section \<open>The table of commands\<close>

datatype cmd =
    Help | Show_components | Show_services | Show_db | Show_memory | Show_ipc | Clear_ipc | Log_cmd | Perf_start | Perf_remote
  | Load | Unload | Reload | Quit

definition g_cli_cmds :: "(string \<times> string \<times> cmd) list" where
  "g_cli_cmds =
     [(''help'', ''Show this help message'', Help),
      (''show components'', ''List all loaded components'', Show_components),
      (''show services'', ''List all service routes'', Show_services),
      (''show db'', ''List all KV tables status'', Show_db),
      (''show memory'', ''Show process memory consumption'', Show_memory),
      (''show ipc'', ''Show IPC statistics and status'', Show_ipc),
      (''clear ipc'', ''Reset IPC statistics'', Clear_ipc),
      (''log'', ''Manage logging (stats, level)'', Log_cmd),
      (''perf start'', ''Start IPC performance test'', Perf_start),
      (''perf remote'', ''Start Cross-Process IPC test'', Perf_remote),
      (''load'', ''Load a component by name'', Load),
      (''unload'', ''Unload a component by name'', Unload),
      (''reload'', ''Reload a component (Stateless check)'', Reload),
      (''quit'', ''Shutdown the node'', Quit)]"

definition do_help :: "cli \<Rightarrow> cli" where
  "do_help c =
     out_all ([[NL] @ ''--- NOS Node CLI Commands ---'' @ [NL]] @
              map (\<lambda>(name, help, _). ''  '' @ pad 18 name @ '' - '' @ help @ [NL]) g_cli_cmds @ [rule 29]) c"

fun exec_cmd :: "cmd \<Rightarrow> string option \<Rightarrow> cli \<Rightarrow> cli option" where
  "exec_cmd Help args c = Some (do_help c)"
| "exec_cmd Show_components args c = do_show_components c"
| "exec_cmd Show_services args c = Some (do_show_services c)"
| "exec_cmd Show_db args c = Some (do_show_db c)"
| "exec_cmd Show_memory args c = do_show_memory c"
| "exec_cmd Show_ipc args c = Some (do_show_ipc c)"
| "exec_cmd Clear_ipc args c = Some (do_clear_ipc c)"
| "exec_cmd Log_cmd args c = do_log args c"
| "exec_cmd Perf_start args c = do_perf_start args c"
| "exec_cmd Perf_remote args c = do_perf_remote_start args c"
| "exec_cmd Load args c = do_load args c"
| "exec_cmd Unload args c = do_unload args c"
| "exec_cmd Reload args c = do_reload args c"
| "exec_cmd Quit args c = Some (do_quit c)"

text \<open>A line matches a command that it equals or starts with, followed by a space.\<close>

definition cmd_matches :: "string \<Rightarrow> string \<Rightarrow> bool" where
  "cmd_matches line name \<longleftrightarrow>
     line = name \<or> (strncmp_eq (length name) line name \<and> length name < length line \<and> line ! length name = SP)"

definition exec_line :: "bool \<Rightarrow> string \<Rightarrow> cli \<Rightarrow> cli option" where
  "exec_line is_tty buf c = do {
     line \<leftarrow> cstr buf;
     let c = history_add line c;
     case find (\<lambda>x. cmd_matches line (fst x)) g_cli_cmds of
       Some (name, _, cmd) \<Rightarrow> exec_cmd cmd (if length name < length line then Some (drop (length name + 1) buf) else None) c
     | None \<Rightarrow> Some (if is_tty then out (''Unknown command: '' @ line @ [NL]) c else c)
   }"

end
