(* ===== verification/CliEdit.thy ===== *)
theory CliEdit
  imports Cli
begin

text \<open>
  The line editor of the command line (\<open>advanced_get_line\<close>) with completion and history, and the loop of its thread. A
  line lives in an array \<open>buf\<close> of 256 characters with a position; what was in the array before stays visible. Writing
  past the array is \<open>None\<close>.
\<close>

section \<open>Completion\<close>

definition matching :: "nat \<Rightarrow> string \<Rightarrow> string list \<Rightarrow> string list" where
  "matching n text ws = filter (\<lambda>w. strncmp_eq n w text) ws"

text \<open>\<open>strrchr(s, ' ')\<close>\<close>

definition last_space :: "string \<Rightarrow> nat option" where
  "last_space s = (let n = length (takeWhile (\<lambda>c. c \<noteq> SP) (rev s)) in if n < length s then Some (length s - 1 - n) else None)"

definition starts_with :: "string \<Rightarrow> string \<Rightarrow> bool" where
  "starts_with s p \<longleftrightarrow> strncmp_eq (length p) s p"

text \<open>The lines for which a hint is printed instead.\<close>

definition tab_hint :: "string \<Rightarrow> string option" where
  "tab_hint line =
     (if line = ''log level '' then Some ''<level> | <comp_id> <level>''
      else if line = ''perf start '' then Some ''<count>''
      else if line = ''perf remote '' then Some ''<count> [payload_size]''
      else None)"

text \<open>The words that may complete the last word of a line whose last space is at \<open>k\<close>.\<close>

definition tab_words :: "sys_node \<Rightarrow> string \<Rightarrow> nat \<Rightarrow> string list option" where
  "tab_words s line k =
     (if starts_with line ''log '' then
        Some (if starts_with line ''log level '' then [''DEBUG'', ''INFO'', ''WARN'', ''ERROR'']
              else if k = 3 then [''stats'', ''level'', ''spam''] else [])
      else if starts_with line ''perf '' then Some [''start'', ''remote'']
      else if starts_with line ''show '' then Some [''components'', ''services'', ''db'', ''memory'', ''ipc'']
      else if starts_with line ''clear '' then Some [''ipc'']
      else if starts_with line ''load '' \<or> starts_with line ''unload '' \<or> starts_with line ''reload '' then
        all_rows (\<lambda>i. map_option comp_name (comps s (info_comp i))) (loaded_info s)
      else Some [])"

text \<open>
  The suggestions and the length of the text they complete: commands for the whole line, or if there are none,
  words for the part behind the last space. \<open>Some (Inl hint)\<close> is a hint.
\<close>

definition suggestions :: "sys_node \<Rightarrow> string \<Rightarrow> nat \<Rightarrow> (string + string list \<times> nat) option" where
  "suggestions s line pos =
     (let tops = matching pos line (map fst g_cli_cmds) in
      case (if tops = [] then last_space line else None) of
        None \<Rightarrow> Some (Inr (tops, pos))
      | Some k \<Rightarrow>
          (case tab_hint line of
             Some hint \<Rightarrow> Some (Inl hint)
           | None \<Rightarrow> do {
               ws \<leftarrow> tab_words s line k;
               let n = pos - (k + 1);
               Some (Inr (matching n (drop (k + 1) line) ws, n))
             }))"

definition handle_tab_completion :: "string \<Rightarrow> string \<Rightarrow> nat \<Rightarrow> cli \<Rightarrow> (string \<times> nat \<times> cli) option" where
  "handle_tab_completion prompt buf pos c = do {
     let buf = buf[pos := NUL];
     let line = c_string buf;
     r \<leftarrow> suggestions (cli_node c) line pos;
     case r of
       Inl hint \<Rightarrow> Some (buf, pos, out_all [[NL] @ ''Hint: '' @ hint @ [NL] @ prompt @ line] c)
     | Inr (sugs, n) \<Rightarrow>
         (case sugs of
            [] \<Rightarrow> Some (buf, pos, c)
          | [w] \<Rightarrow>
              if length w < n \<or> pos + length (drop n w) \<ge> length buf then None
              else (let rest = drop n w;
                        buf = take pos buf @ rest @ [NUL] @ drop (pos + length rest + 1) buf
                    in Some (buf, length (c_string buf), out rest c))
          | _ \<Rightarrow> Some (buf, pos, out_all ([[NL]] @ map (\<lambda>w. w @ [SP, SP]) sugs @ [[NL] @ prompt @ line]) c))
   }"

section \<open>Reading a line\<close>

definition ESC :: char where "ESC = CHR 0x1B"

text \<open>
  The loop of \<open>advanced_get_line\<close> from position \<open>pos\<close> on; \<open>h\<close> is \<open>h_idx + 1\<close>. The result is the value returned, the array
  and the rest of the input.
\<close>

fun get_line_loop :: "string \<Rightarrow> nat \<Rightarrow> nat \<Rightarrow> string \<Rightarrow> string \<Rightarrow> cli \<Rightarrow> (int \<times> string \<times> string \<times> cli) option" where
  "get_line_loop prompt h pos buf inp c =
     (if pos \<ge> length buf - 1 then Some (int pos, buf, inp, c)
      else case inp of
        [] \<Rightarrow> Some (- 1, buf, [], c)
      | ch # inp \<Rightarrow>
          if ch = NL \<or> ch = CHR 0x0D then Some (int pos, buf[pos := NUL], inp, out [NL] c)
          else if ch = ESC then
            (case inp of
               a # b # inp \<Rightarrow>
                 if a = CHR ''['' \<and> b = CHR ''A'' \<and> h < g_history_count c then
                   (let t = g_history c ! h in
                    if length t \<ge> length buf then None
                    else get_line_loop prompt (h + 1) (length t) (t @ [NUL] @ drop (length t + 1) buf) inp
                           (out ([CHR 0x0D] @ prompt @ [ESC] @ ''[K'' @ t) c))
                 else get_line_loop prompt h pos buf inp c
             | _ \<Rightarrow> Some (int pos, buf, [], c))
          else if ch = CHR 0x7F \<or> ch = CHR 0x08 then
            (if pos > 0 then get_line_loop prompt h (pos - 1) buf inp (out [CHR 0x08, SP, CHR 0x08] c)
             else get_line_loop prompt h pos buf inp c)
          else if ch = CHR 0x09 then
            (case handle_tab_completion prompt buf pos c of
               None \<Rightarrow> None
             | Some (buf, pos, c) \<Rightarrow> get_line_loop prompt h pos buf inp c)
          else get_line_loop prompt h (pos + 1) (buf[pos := ch]) inp (out [ch] c))"

declare get_line_loop.simps [simp del]

definition advanced_get_line :: "string \<Rightarrow> string \<Rightarrow> string \<Rightarrow> cli \<Rightarrow> (int \<times> string \<times> string \<times> cli) option" where
  "advanced_get_line prompt buf inp c = get_line_loop prompt 0 0 buf inp (out prompt c)"

text \<open>\<open>fgets\<close> and the length of what it read: the input of a node that has no terminal.\<close>

definition get_line_fgets :: "string \<Rightarrow> string \<Rightarrow> int \<times> string \<times> string" where
  "get_line_fgets buf inp =
     (if inp = [] then (- 1, buf, [])
      else (let w = takeWhile (\<lambda>ch. ch \<noteq> NL) inp;
                w = take (length buf - 1) (if length w < length inp then w @ [NL] else w);
                buf = w @ [NUL] @ drop (length w + 1) buf
            in (int (length (c_string buf)), buf, drop (length w) inp)))"

section \<open>The thread of the command line\<close>

text \<open>
  \<open>others\<close> is what the other threads of the process and its signal handlers do while the CLI waits for a line. \<open>n\<close>
  counts down; as every line uses up input, the length of the input and one more are enough.
\<close>

fun cli_loop :: "nat \<Rightarrow> bool \<Rightarrow> (nat \<Rightarrow> cli \<Rightarrow> cli) \<Rightarrow> string \<Rightarrow> string \<Rightarrow> string \<Rightarrow> cli \<Rightarrow> cli run" where
  "cli_loop n is_tty others prompt buf inp c =
     (if \<not> cli_running c then Returned c
      else case n of
        0 \<Rightarrow> OutOfFuel
      | Suc n \<Rightarrow>
          (case (if is_tty then advanced_get_line prompt buf inp (others n c)
                 else (let (got, buf, inp) = get_line_fgets buf inp in Some (got, buf, inp, others n c))) of
             None \<Rightarrow> Undefined
           | Some (got, buf, inp, c) \<Rightarrow>
               if got < 0 then Returned c
               else if got = 0 then cli_loop n is_tty others prompt buf inp c
               else (let buf = (if is_tty then buf else buf[length (takeWhile (\<lambda>ch. ch \<noteq> NL) (c_string buf)) := NUL]) in
                     case exec_line is_tty buf c of
                       None \<Rightarrow> Undefined
                     | Some c \<Rightarrow> cli_loop n is_tty others prompt buf inp c)))"

declare cli_loop.simps [simp del]

definition node_cli_thread_entry :: "bool \<Rightarrow> (nat \<Rightarrow> cli \<Rightarrow> cli) \<Rightarrow> string \<Rightarrow> string \<Rightarrow> string \<Rightarrow> cli \<Rightarrow> cli run" where
  "node_cli_thread_entry is_tty others name buf inp c =
     (let c = (if is_tty then out (''[CLI] Management interface started. (Tab for completion, Up for history)'' @ [NL]) c else c)
      in cli_loop (length inp + 1) is_tty others (''nos-node('' @ name @ '')> '') buf inp c)"

section \<open>Termination\<close>

text \<open>One key at a time.\<close>

lemma get_line_end: "length buf - 1 \<le> pos \<Longrightarrow> get_line_loop prompt h pos buf inp c = Some (int pos, buf, inp, c)"
  by (subst get_line_loop.simps) simp

lemma get_line_eof: "pos < length buf - 1 \<Longrightarrow> get_line_loop prompt h pos buf [] c = Some (- 1, buf, [], c)"
  by (subst get_line_loop.simps) simp

definition enter_key :: "char \<Rightarrow> bool" where "enter_key ch \<longleftrightarrow> ch = NL \<or> ch = CHR 0x0D"

definition erase_key :: "char \<Rightarrow> bool" where "erase_key ch \<longleftrightarrow> ch = CHR 0x7F \<or> ch = CHR 0x08"

definition tab_key :: "char \<Rightarrow> bool" where "tab_key ch \<longleftrightarrow> ch = CHR 0x09"

definition plain_key :: "char \<Rightarrow> bool" where
  "plain_key ch \<longleftrightarrow> \<not> enter_key ch \<and> \<not> erase_key ch \<and> \<not> tab_key ch \<and> ch \<noteq> ESC"

lemma get_line_key:
  assumes "pos < length buf - 1"
  shows "enter_key ch \<Longrightarrow> get_line_loop prompt h pos buf (ch # inp) c = Some (int pos, buf[pos := NUL], inp, out [NL] c)"
    "erase_key ch \<Longrightarrow> get_line_loop prompt h pos buf (ch # inp) c =
       get_line_loop prompt h (pos - 1) buf inp (if pos > 0 then out [CHR 0x08, SP, CHR 0x08] c else c)"
    "tab_key ch \<Longrightarrow> get_line_loop prompt h pos buf (ch # inp) c =
       (case handle_tab_completion prompt buf pos c of
          None \<Rightarrow> None
        | Some (buf, pos, c) \<Rightarrow> get_line_loop prompt h pos buf inp c)"
    "plain_key ch \<Longrightarrow> get_line_loop prompt h pos buf (ch # inp) c = get_line_loop prompt h (pos + 1) (buf[pos := ch]) inp (out [ch] c)"
  using assms
  by (subst get_line_loop.simps;
      auto simp: enter_key_def erase_key_def tab_key_def plain_key_def ESC_def)+

lemma get_line_escape:
  assumes "pos < length buf - 1"
  shows "get_line_loop prompt h pos buf (ESC # a # b # inp) c =
     (if a = CHR ''['' \<and> b = CHR ''A'' \<and> h < g_history_count c then
        (let t = g_history c ! h in
         if length t \<ge> length buf then None
         else get_line_loop prompt (h + 1) (length t) (t @ [NUL] @ drop (length t + 1) buf) inp
                (out ([CHR 0x0D] @ prompt @ [ESC] @ ''[K'' @ t) c))
      else get_line_loop prompt h pos buf inp c)"
    "get_line_loop prompt h pos buf [ESC] c = Some (int pos, buf, [], c)"
    "get_line_loop prompt h pos buf [ESC, a] c = Some (int pos, buf, [], c)"
  using assms by (subst get_line_loop.simps; simp add: ESC_def Let_def)+

lemma key_cases:
  obtains "enter_key ch" | "erase_key ch" | "tab_key ch" | "ch = ESC" | "plain_key ch"
  by (auto simp: plain_key_def)

text \<open>A line that is read uses up input: each key ends the line or leaves it to a shorter input.\<close>

lemma get_line_step:
  assumes "pos < length buf - 1" "get_line_loop prompt h pos buf (ch # inp) c = Some (got, buf', inp', c')"
  shows "length inp' \<le> length inp \<or>
    (\<exists>h2 p2 b2 x c2. length x \<le> length inp \<and> get_line_loop prompt h2 p2 b2 x c2 = Some (got, buf', inp', c'))"
proof (cases ch rule: key_cases)
  case 3
  then obtain p b c2 where "get_line_loop prompt h p b inp c2 = Some (got, buf', inp', c')"
    using assms(2) get_line_key(3)[OF assms(1), of ch prompt h inp c] by (auto split: option.splits)
  then show ?thesis by blast
next
  case 4
  show ?thesis
  proof (cases "\<exists>a b x. inp = a # b # x")
    case True
    then obtain a b x where inp: "inp = a # b # x" by blast
    obtain h2 p2 b2 c2 where "get_line_loop prompt h2 p2 b2 x c2 = Some (got, buf', inp', c')"
      using assms(2) 4 get_line_escape(1)[OF assms(1), of prompt h a b x c] inp by (auto simp: Let_def split: if_splits)
    moreover have "length x \<le> length inp" by (simp add: inp)
    ultimately show ?thesis by blast
  next
    case False
    then have "inp = [] \<or> (\<exists>a. inp = [a])" by (metis list.exhaust)
    then show ?thesis using assms(2) 4 get_line_escape(2,3)[OF assms(1)] by auto
  qed
qed (use assms(2) get_line_key[OF assms(1), of ch prompt h inp c] in \<open>metis order_refl prod.inject option.inject\<close>)+

lemma get_line_shorter: "get_line_loop prompt h pos buf inp c = Some (got, buf', inp', c') \<Longrightarrow> length inp' \<le> length inp"
proof (induction "length inp" arbitrary: h pos buf inp c rule: less_induct)
  case less
  show ?case
  proof (cases "pos < length buf - 1 \<and> inp \<noteq> []")
    case False
    then show ?thesis using less(2) get_line_end[of buf pos] get_line_eof[of pos buf] by (cases "pos < length buf - 1") auto
  next
    case True
    then obtain ch rest where inp: "inp = ch # rest" and pos: "pos < length buf - 1" by (cases inp) auto
    show ?thesis using get_line_step[OF pos less(2)[unfolded inp]]
    proof
      assume "\<exists>h2 p2 b2 x c2. length x \<le> length rest \<and> get_line_loop prompt h2 p2 b2 x c2 = Some (got, buf', inp', c')"
      then obtain h2 p2 b2 x c2 where x: "length x \<le> length rest" "get_line_loop prompt h2 p2 b2 x c2 = Some (got, buf', inp', c')"
        by blast
      have "length x < length inp" using x(1) inp by simp
      from less(1)[OF this x(2)] x(1) inp show ?thesis by simp
    qed (simp add: inp)
  qed
qed

lemma get_line_consumes:
  assumes "get_line_loop prompt h pos buf inp c = Some (got, buf', inp', c')" "0 \<le> got" "pos < length buf - 1"
  shows "length inp' < length inp"
proof (cases inp)
  case Nil
  then show ?thesis using assms get_line_eof[OF assms(3)] by auto
next
  case (Cons ch rest)
  then show ?thesis
    using get_line_step[OF assms(3) assms(1)[unfolded Cons]] get_line_shorter by (metis le_trans length_Cons less_Suc_eq_le)
qed

end
