(* ===== verification/CompFrames.thy ===== *)
theory CompFrames
  imports Components
begin

text \<open>
  What sending a message leaves alone: timers, clock, components, registry and everything that the node manager
  and the components keep. And what the interface calls of components leave alone.
\<close>

section \<open>Sending\<close>

definition outer ::
  "'z ipc_node_scheme \<Rightarrow> (ptr \<rightharpoonup> nos_timer) \<times> (thread_ref \<Rightarrow> nos_timer_heap option) \<times> (nat \<Rightarrow> u64 \<times> u64) \<times> nat \<times>
     (ptr \<rightharpoonup> nos_component) \<times> service_registry \<times> 'z" where
  "outer s = (timers s, heap_of s, clock s, clock_reads s, comps s, registry s, ipc_node.more s)"

lemma outer_simps [simp]:
  "outer (count_stat f s) = outer s" "outer (s\<lparr>send_no := n\<rparr>) = outer s"
  "outer (s\<lparr>wire := w\<rparr>) = outer s" "outer (s\<lparr>msgs := ms\<rparr>) = outer s"
  "outer (s\<lparr>shmem := sh\<rparr>) = outer s" "outer (s\<lparr>bufs := p\<rparr>) = outer s" "outer (s\<lparr>connect_no := n\<rparr>) = outer s"
  "outer (set_rx_queue k q s) = outer s" "outer (upd_conn i g s) = outer s" "outer (s\<lparr>conns := cs\<rparr>) = outer s"
  by (simp_all add: outer_def heap_of_def[abs_def] count_stat_def set_rx_queue_def upd_conn_def)

lemma outer_bufs [simp]: "outer (nos_buffer_retain b s) = outer s" "outer (nos_buffer_release b s) = outer s"
  by (cases b; simp add: nos_buffer_retain_def nos_buffer_release_def)+

lemma outer_thread:
  "(\<And>th. threads s r = Some th \<Longrightarrow> timer_heap (f th) = timer_heap th) \<Longrightarrow> outer (upd_thread r f s) = outer s"
  by (cases "threads s r") (auto simp: outer_def heap_of_def fun_eq_iff upd_thread_def)

lemma outer_fds [simp]:
  "outer (add_fd r fd ev cb a s) = outer s" "outer (remove_fd r fd s) = outer s"
  "outer (close_fd r fd s) = outer s" "outer (upd_thread r eventfd_write s) = outer s"
  unfolding add_fd_def remove_fd_def close_fd_def
  by (rule outer_thread; simp add: nos_scheduler_add_fd_ex_def nos_scheduler_remove_fd_def Let_def split: option.split)+

lemma outer_alloc: "node_alloc a s = Some (b, s') \<Longrightarrow> outer s' = outer s"
  by (cases a) (auto simp: node_alloc_def)

lemma outer_local_send [simp]: "outer (snd (nos_transport_local_send b t s)) = outer s"
proof -
  have "outer (upd_thread r (\<lambda>_. th') s) = outer s" if "threads s r = Some th" "thread_enq b th = Some th'"
    for r th th' and s :: "'a ipc_node_scheme"
    by (rule outer_thread) (use that in \<open>auto simp: thread_enq_def Let_def split: if_splits\<close>)
  then show ?thesis by (simp add: nos_transport_local_send_def Let_def split: option.split)
qed

lemma outer_process_tx [simp]: "outer (nos_ipc_process_tx i s) = outer s"
proof -
  have "outer (process_tx_loop n i s) = outer s" for n
  proof (induction n arbitrary: s)
    case (Suc n)
    then show ?case by (simp add: Let_def msg_sent_def link_failed_def split: option.split send_result.split)
  qed simp
  then show ?thesis by (simp add: nos_ipc_process_tx_def)
qed

lemma outer_hello [simp]: "outer (nos_ipc_send_hello i s) = outer s"
  by (auto simp: nos_ipc_send_hello_def Let_def dest!: outer_alloc split: option.split)

lemma outer_reconnect [simp]: "outer (reconnect i p s) = outer s"
  by (simp add: reconnect_def Let_def split: option.split)

lemma outer_get_conn: "get_or_create_conn n u s = (k, s') \<Longrightarrow> outer s' = outer s"
  by (auto simp: get_or_create_conn_def split: option.splits if_splits)

lemma outer_enqueue [simp]: "outer (snd (nos_ipc_send_enqueue_ex n u b s)) = outer s"
  by (auto simp: nos_ipc_send_enqueue_ex_def Let_def dest!: outer_get_conn split: option.split prod.split)

lemma outer_enqueue_shm [simp]: "outer (snd (nos_ipc_send_enqueue_shm n u b s)) = outer s"
  by (auto simp: nos_ipc_send_enqueue_shm_def Let_def case_prod_beta dest!: outer_alloc split: option.split buf_ref.split)

lemma outer_send [simp]: "outer (snd (msg_send b s)) = outer s"
  by (simp add: nos_service_msg_send_def nos_transport_remote_uds_send_def Let_def split: option.split buf_ref.split)

lemma outer_post_buf: "(\<And>b s'. got = Some (b, s') \<Longrightarrow> outer s' = outer s) \<Longrightarrow> outer (post_buf got fill s) = outer s"
  by (auto simp: post_buf_def split: option.split)

lemma outer_post [simp]: "outer (post_msg sz fill s) = outer s"
  unfolding post_msg_def by (rule outer_post_buf) (rule outer_alloc)

lemma outer_alloc_remote: "alloc_remote n s = Some (b, s') \<Longrightarrow> outer s' = outer s"
  by (auto simp: alloc_remote_def dest: outer_alloc split: option.splits if_splits)

lemma outer_post_remote: "post_remote dst code x n c s = Some s' \<Longrightarrow> outer s' = outer s"
  by (auto simp: post_remote_def Let_def outer_alloc_remote intro!: outer_post_buf split: option.splits if_splits)

text \<open>What follows for a whole process.\<close>

lemma outerD:
  fixes s s' :: "sys_node"
  assumes "outer s' = outer s"
  shows "timers s' = timers s" "heap_of s' = heap_of s" "clock s' = clock s" "clock_reads s' = clock_reads s"
    "comps s' = comps s" "registry s' = registry s" "embedded s' = embedded s" "kv_tables s' = kv_tables s" "privs s' = privs s"
    "log_ctx s' = log_ctx s" "crashed s' = crashed s" "loaded_info s' = loaded_info s" "node_def s' = node_def s"
    "calloc_no s' = calloc_no s" "calloc_ok s' = calloc_ok s"
  using assms by (cases s; cases s'; simp add: outer_def heap_of_def[abs_def])+

section \<open>Calls of embedded services\<close>

lemma log_raw_frame [simp]:
  "comps (nos_log_raw lv i msg s) = comps s" "privs (nos_log_raw lv i msg s) = privs s" "kv_tables (nos_log_raw lv i msg s) = kv_tables s"
  "embedded (nos_log_raw lv i msg s) = embedded s" "crashed (nos_log_raw lv i msg s) = crashed s" "timers (nos_log_raw lv i msg s) = timers s"
  "heap_of (nos_log_raw lv i msg s) = heap_of s" "clock (nos_log_raw lv i msg s) = clock s"
  "clock_reads (nos_log_raw lv i msg s) = clock_reads s" "registry (nos_log_raw lv i msg s) = registry s"
  "threads (nos_log_raw lv i msg s) = threads s" "bufs (nos_log_raw lv i msg s) = bufs s" "shmem (nos_log_raw lv i msg s) = shmem s"
  "conns (nos_log_raw lv i msg s) = conns s" "msgs (nos_log_raw lv i msg s) = msgs s" "has_ops name (nos_log_raw lv i msg s) = has_ops name s"
  by (simp_all add: nos_log_raw_def has_ops_def heap_of_def[abs_def])

lemma set_priv_frame [simp]:
  "comps (set_priv p x s) = comps s" "kv_tables (set_priv p x s) = kv_tables s" "embedded (set_priv p x s) = embedded s"
  "privs (set_priv p x s) = (privs s)(p := x)" "crashed (set_priv p x s) = crashed s" "timers (set_priv p x s) = timers s"
  "heap_of (set_priv p x s) = heap_of s" "clock (set_priv p x s) = clock s" "clock_reads (set_priv p x s) = clock_reads s"
  "registry (set_priv p x s) = registry s" "threads (set_priv p x s) = threads s" "bufs (set_priv p x s) = bufs s"
  "shmem (set_priv p x s) = shmem s" "conns (set_priv p x s) = conns s" "msgs (set_priv p x s) = msgs s"
  "has_ops name (set_priv p x s) = has_ops name s"
  by (simp_all add: set_priv_def has_ops_def heap_of_def[abs_def])

lemma kv_store_frame [simp]:
  "comps (kv_store t x s) = comps s" "embedded (kv_store t x s) = embedded s" "privs (kv_store t x s) = privs s"
  "crashed (kv_store t x s) = crashed s" "timers (kv_store t x s) = timers s" "heap_of (kv_store t x s) = heap_of s"
  "clock (kv_store t x s) = clock s" "clock_reads (kv_store t x s) = clock_reads s" "registry (kv_store t x s) = registry s"
  "threads (kv_store t x s) = threads s" "bufs (kv_store t x s) = bufs s" "shmem (kv_store t x s) = shmem s"
  "conns (kv_store t x s) = conns s" "msgs (kv_store t x s) = msgs s" "has_ops name (kv_store t x s) = has_ops name s"
  by (simp_all add: kv_store_def has_ops_def heap_of_def[abs_def] split: option.split)

lemma now_frame [simp]:
  "comps (snd (get_now_ns s)) = comps s" "registry (snd (get_now_ns s)) = registry s" "threads (snd (get_now_ns s)) = threads s"
  "bufs (snd (get_now_ns s)) = bufs s" "shmem (snd (get_now_ns s)) = shmem s" "conns (snd (get_now_ns s)) = conns s"
  "msgs (snd (get_now_ns s)) = msgs s" "embedded (snd (get_now_ns s)) = embedded s" "kv_tables (snd (get_now_ns s)) = kv_tables s"
  "privs (snd (get_now_ns s)) = privs s" "crashed (snd (get_now_ns s)) = crashed s" "timers (snd (get_now_ns s)) = timers s"
  "has_ops name (snd (get_now_ns s)) = has_ops name s"
  by (simp_all add: get_now_ns_def Let_def has_ops_def)

text \<open>Updates that the handlers of a component make to the process without touching the flow of messages.\<close>

definition same_flow :: "sys_node \<Rightarrow> sys_node \<Rightarrow> bool" where
  "same_flow s s' \<longleftrightarrow> threads s' = threads s \<and> bufs s' = bufs s \<and> shmem s' = shmem s \<and> conns s' = conns s \<and>
     registry s' = registry s \<and> comps s' = comps s \<and> msgs s' = msgs s \<and> timers s' = timers s \<and>
     embedded s' = embedded s \<and> calloc_ok s' = calloc_ok s \<and> crashed s' = crashed s \<and> loaded_info s' = loaded_info s \<and>
     node_def s' = node_def s \<and> comp_addrs s' = comp_addrs s \<and> addr_no s' = addr_no s \<and> worker_count s' = worker_count s"

lemma mgr_frame [simp]:
  "worker_count (nos_log_raw lv i msg s) = worker_count s" "worker_count (set_priv p x s) = worker_count s"
  "worker_count (kv_store t y s) = worker_count s" "worker_count (snd (get_now_ns s)) = worker_count s"
  "calloc_ok (nos_log_raw lv i msg s) = calloc_ok s" "calloc_ok (set_priv p x s) = calloc_ok s" "calloc_ok (kv_store t y s) = calloc_ok s" "calloc_ok (snd (get_now_ns s)) = calloc_ok s"
  "loaded_info (nos_log_raw lv i msg s) = loaded_info s" "loaded_info (set_priv p x s) = loaded_info s" "loaded_info (kv_store t y s) = loaded_info s" "loaded_info (snd (get_now_ns s)) = loaded_info s"
  "node_def (nos_log_raw lv i msg s) = node_def s" "node_def (set_priv p x s) = node_def s" "node_def (kv_store t y s) = node_def s" "node_def (snd (get_now_ns s)) = node_def s"
  "comp_addrs (nos_log_raw lv i msg s) = comp_addrs s" "comp_addrs (set_priv p x s) = comp_addrs s" "comp_addrs (kv_store t y s) = comp_addrs s" "comp_addrs (snd (get_now_ns s)) = comp_addrs s"
  "addr_no (nos_log_raw lv i msg s) = addr_no s" "addr_no (set_priv p x s) = addr_no s" "addr_no (kv_store t y s) = addr_no s" "addr_no (snd (get_now_ns s)) = addr_no s"
  by (simp_all add: nos_log_raw_def set_priv_def kv_store_def get_now_ns_def Let_def split: option.split)

lemma same_flow_simps [simp]:
  "same_flow s s" "same_flow s (nos_log_raw lv i msg s') = same_flow s s'" "same_flow s (set_priv p x s') = same_flow s s'"
  "same_flow s (kv_store t y s') = same_flow s s'" "same_flow s (snd (get_now_ns s')) = same_flow s s'"
  "same_flow (set_priv p x s) s' = same_flow s s'" "same_flow (nos_log_raw lv i msg s) s' = same_flow s s'"
  by (simp_all add: same_flow_def)

lemma same_flow_view: "same_flow s s' \<Longrightarrow> flow_view s' = flow_view s"
  by (simp add: same_flow_def flow_view_def queue_view_def[abs_def])

lemma same_flow_trans: "same_flow s s' \<Longrightarrow> same_flow s' s'' \<Longrightarrow> same_flow s s''"
  by (simp add: same_flow_def)

lemma notify_all_flow: "notify_all ns s = Some s' \<Longrightarrow> same_flow s s' \<and> privs s' = privs s \<and> kv_tables s' = kv_tables s \<and> embedded s' = embedded s"
proof (induction ns s rule: notify_all.induct)
  case (2 f a key v n ns s)
  obtain s1 where s1: "f = fn_ptr Comp_1 Fn_notify" "on_comp2_state_change a v n s = Some s1" "notify_all ns s1 = Some s'"
    using 2(2) by (auto simp: bind_eq_Some_conv split: if_splits)
  have "same_flow s s1 \<and> privs s1 = privs s \<and> kv_tables s1 = kv_tables s \<and> embedded s1 = embedded s"
    using s1(2) by (auto simp: on_comp2_state_change_def bind_eq_Some_conv split: if_splits)
  moreover have "same_flow s1 s' \<and> privs s' = privs s1 \<and> kv_tables s' = kv_tables s1 \<and> embedded s' = embedded s1"
    by (rule 2(1)) (use s1 in simp_all)
  ultimately show ?case using same_flow_trans by metis
qed simp

lemma kv_put_flow: "kv_put_auto t key v n s = Some (st, s') \<Longrightarrow> same_flow s s' \<and> privs s' = privs s"
  by (auto simp: kv_put_auto_def bind_eq_Some_conv split: if_splits dest!: notify_all_flow) (simp add: same_flow_def)

lemma spam_flow [simp]: "same_flow s (spam_loop n i c s') = same_flow s s'" "privs (spam_loop n i c s') = privs s'"
  by (induction n arbitrary: i s') simp_all

end
