(* ===== verification/CompRefs.thy ===== *)
theory CompRefs
  imports CompFrames TimerProps
begin

text \<open>
  The sample components and the references to buffers: what their handlers take they give back, except model 4,
  which keeps a reference to every reply. And the replies of the performance tests, whose size may
  overflow.
\<close>

section \<open>Posting a message\<close>

lemma owned_post_buf:
  assumes "owned s hs" "length hs + 4 < 2 ^ 30" "\<And>b s'. got = Some (b, s') \<Longrightarrow> owned s' (b # hs)"
  shows "owned (post_buf got fill s) hs"
proof (cases got)
  case (Some x)
  then obtain b s1 where x: "got = Some (b, s1)" by (cases x) auto
  let ?s = "s1\<lparr>msgs := (msgs s1)(b := fill (msgs s1 b))\<rparr>"
  have o1: "owned ?s (b # hs)" using assms(3)[OF x] by simp
  have "owned (snd (msg_send (Some b) ?s)) (b # hs)" by (rule owned_send[OF o1]) (use assms(2) in simp_all)
  then show ?thesis using owned_release by (simp add: post_buf_def x)
qed (use assms in \<open>simp add: post_buf_def\<close>)

lemma owned_post: "owned s hs \<Longrightarrow> length hs + 4 < 2 ^ 30 \<Longrightarrow> owned (post_msg sz fill s) hs"
  unfolding post_msg_def by (rule owned_post_buf) (auto intro: owned_alloc)

lemma owned_alloc_remote: "owned s hs \<Longrightarrow> alloc_remote n s = Some (b, s') \<Longrightarrow> owned s' (b # hs)"
  by (auto simp: alloc_remote_def intro: owned_alloc split: option.splits if_splits)

lemma owned_post_remote:
  "post_remote dst code x n c s = Some s' \<Longrightarrow> owned s hs \<Longrightarrow> length hs + 4 < 2 ^ 30 \<Longrightarrow> owned s' hs"
  by (auto simp: post_remote_def Let_def intro!: owned_post_buf owned_alloc_remote split: option.splits if_splits)

lemma owned_same_flow: "same_flow s s' \<Longrightarrow> owned s' hs = owned s hs"
  by (rule owned_view) (rule same_flow_view)

lemma owned_quiet [simp]:
  "owned (nos_log_raw lv i msg s) hs = owned s hs" "owned (set_priv p x s) hs = owned s hs"
  "owned (kv_store t y s) hs = owned s hs" "owned (snd (get_now_ns s)) hs = owned (s :: sys_node) hs"
  "owned (spam_loop n k c s) hs = owned s hs" "owned (s\<lparr>crashed := x'\<rparr>) hs = owned s hs"
  by (rule owned_same_flow, simp)+ (rule owned_view, simp add: flow_view_def queue_view_def[abs_def])

section \<open>What every handler keeps\<close>

definition kept :: "buf_ref list \<Rightarrow> sys_node \<Rightarrow> sys_node \<Rightarrow> bool" where
  "kept hs s s' \<longleftrightarrow> (owned s hs \<longrightarrow> owned s' hs) \<and> comps s' = comps s"

lemma kept_flow: "same_flow s s' \<Longrightarrow> kept hs s s'"
  using owned_same_flow[of s s' hs] by (simp add: kept_def same_flow_def)

lemma kept_trans: "kept hs s s' \<Longrightarrow> kept hs s' s'' \<Longrightarrow> kept hs s s''"
  by (auto simp: kept_def)

lemma kept_post: "length hs + 4 < 2 ^ 30 \<Longrightarrow> same_flow s s' \<Longrightarrow> kept hs s (post_msg sz fill s')"
  using owned_same_flow[of s s' hs] outerD(5)[OF outer_post[of sz fill s']] owned_post[of s' hs sz fill]
  by (auto simp: kept_def same_flow_def)

lemma kept_post_remote:
  "post_remote dst code x n c s' = Some s'' \<Longrightarrow> length hs + 4 < 2 ^ 30 \<Longrightarrow> same_flow s s' \<Longrightarrow> kept hs s s''"
  using owned_same_flow[of s s' hs] outerD(5)[OF outer_post_remote] owned_post_remote
  by (auto simp: kept_def same_flow_def)

lemma count_msg_flow: "count_msg self c m s = Some s' \<Longrightarrow> same_flow s s'"
  by (auto simp: count_msg_def split: option.splits comp_priv.splits)

lemma model_2_flow:
  assumes "model_2_on_msg self m s = Some s'"
  shows "same_flow s s'"
proof (cases "privs s self")
  case (Some x)
  then obtain st tt k c where x: "x = Priv_2 st tt k" "comps s self = Some c"
    using assms by (cases x) (auto simp: model_2_on_msg_def split: option.splits)
  have put: "(if t = None then Some s1 else map_option snd (kv_put_auto t key v n s1)) = Some s2 \<Longrightarrow> same_flow s1 s2"
    for t key v n s1 s2
    using kv_put_flow[of t key v n s1] by (auto split: if_splits)
  show ?thesis
    using assms unfolding model_2_on_msg_def Some x option.case prod.case comp_priv.case Let_def bind_eq_Some_conv
  proof (elim exE conjE)
    fix s1 s2
    assume "(if st = None then Some (set_priv self (Some (Priv_2 st tt (k + 1))) s)
        else map_option snd (kv_put_auto st (key32 (comp_name c)) (u32_bytes (k + 1)) 4 (set_priv self (Some (Priv_2 st tt (k + 1))) s))) = Some s1"
      and "(if tt = None then Some s1 else map_option snd (kv_put_auto tt (u32_bytes (k + 1)) (u32_bytes (k + 1)) 4 s1)) = Some s2"
      and s': "Some (log_info c (''Msg received, counter: '' @ dec_int (sint (k + 1)) @ ''. Data synced to KV DB.'') s2) = Some s'"
    note f = put[OF this(1)] put[OF this(2)]
    have "same_flow s s1" using f(1) by (simp only: same_flow_simps)
    from same_flow_trans[OF this f(2)] show ?thesis using s' by (metis option.inject same_flow_simps(2))
  qed
qed (use assms in \<open>simp add: model_2_on_msg_def\<close>)

lemma model_3_flow: "model_3_on_msg self m s = Some s' \<Longrightarrow> same_flow s s'"
  by (auto simp: model_3_on_msg_def bind_eq_Some_conv Let_def split: if_splits)

lemma model_5_flow: "model_5_on_msg self m s = Some s' \<Longrightarrow> same_flow s s'"
  by (auto simp: model_5_on_msg_def bind_eq_Some_conv intro: count_msg_flow)

lemma lib_msg_kept:
  assumes "lib_on_msg l self m s = Some s'" "l \<noteq> Comp_4" "length hs + 4 < 2 ^ 30"
  shows "kept hs s s'"
proof (cases l)
  case Comp_1
  then show ?thesis
    using assms by (auto simp: model_1_on_msg_def bind_eq_Some_conv Let_def kept_post kept_flow split: if_splits)
next
  case Comp_2
  then show ?thesis using assms model_2_flow kept_flow by simp
next
  case Comp_3
  then show ?thesis using assms model_3_flow kept_flow by simp
next
  case Comp_5
  then show ?thesis using assms model_5_flow kept_flow by simp
next
  case Comp_ping
  have now: "same_flow s (set_priv self x (snd (get_now_ns (nos_log_raw lv i msg s))))" for x lv i msg by simp
  show ?thesis
    using assms Comp_ping
    by (auto simp: ping_on_msg_def send_ping_def Let_def case_prod_beta kept_post kept_flow
        split: if_splits option.splits comp_priv.splits)
next
  case Comp_pong
  then show ?thesis
    using assms by (auto simp: pong_on_msg_def bind_eq_Some_conv kept_post kept_flow split: if_splits)
next
  case Comp_rping
  have send: "remote_send_ping self c s1 = Some s2 \<Longrightarrow> same_flow s s1 \<Longrightarrow> kept hs s s2" for c s1 s2
    using assms(3) by (auto simp: remote_send_ping_def intro: kept_post_remote split: option.splits comp_priv.splits)
  show ?thesis
    using assms Comp_rping
    by (auto simp: rping_on_msg_def Let_def case_prod_beta intro: send simp: kept_flow
        split: if_splits option.splits comp_priv.splits)
next
  case Comp_rpong
  then show ?thesis
    using assms by (auto simp: rpong_on_msg_def bind_eq_Some_conv intro: kept_post_remote simp: kept_flow split: if_splits)
qed (use assms(2) in simp)

text \<open>The libraries as the contracts of the message loop and of the timers see them.\<close>

definition good_fn :: "ptr \<Rightarrow> bool" where "good_fn f \<longleftrightarrow> (case ptr_fn f of Some (l, _) \<Rightarrow> l \<noteq> Comp_4 | None \<Rightarrow> True)"

interpretation sample_comps: balanced_handlers comp_call_msg good_fn
proof (unfold_locales, goal_cases)
  case (1 f s hs c m)
  then show ?case
    using lib_msg_kept[of _ c m s _ hs]
    by (fastforce simp: comp_call_msg_def or_crash_def good_fn_def kept_def split: option.split fn.split)
next
  case (2 f c m s)
  then show ?case
    using lib_msg_kept[of _ c m s _ "[]"]
    by (fastforce simp: comp_call_msg_def or_crash_def good_fn_def kept_def split: option.split fn.split)
qed

interpretation heartbeat: quiet_callbacks comp_call_timer
proof -
  have o: "timers s' = timers s \<and> heap_of s' = heap_of s \<and> clock s' = clock s \<and> clock_reads s' = clock_reads s"
    if "heartbeat_callback a s = Some s'" for a s s'
    using that outerD[OF outer_post] by (auto simp: heartbeat_callback_def bind_eq_Some_conv Let_def)
  have c: "timers (s\<lparr>crashed := True\<rparr>) = timers s \<and> heap_of (s\<lparr>crashed := True\<rparr>) = heap_of s \<and>
      clock (s\<lparr>crashed := True\<rparr>) = clock s \<and> clock_reads (s\<lparr>crashed := True\<rparr>) = clock_reads s" for s :: sys_node
    by (simp add: heap_of_def[abs_def])
  have "timers (comp_call_timer f a s) = timers s \<and> heap_of (comp_call_timer f a s) = heap_of s \<and>
      clock (comp_call_timer f a s) = clock s \<and> clock_reads (comp_call_timer f a s) = clock_reads s" for f a s
    using o[of a s] c[of s] by (auto simp: comp_call_timer_def or_crash_def split: option.split)
  then show "quiet_callbacks comp_call_timer" by unfold_locales auto
qed

end
