(* ===== verification/CompClaims.thy ===== *)
theory CompClaims
  imports CompRefs RefClaims NodeMgrClaims
begin

text \<open>
  Properties of the sample components: references, sizes of replies.
\<close>

section \<open>Components that send nothing\<close>

text \<open>Models 2, 3 and 5 keep the stronger contract of the message loop: they leave queues and references alone.\<close>

lemma silent_view:
  assumes "r = None \<or> (\<exists>s'. r = Some s' \<and> same_flow s s')"
  shows "queue_view (or_crash s r) t = queue_view s t" "bufs_ok s \<Longrightarrow> bufs_ok (or_crash s r)" "buf_held (or_crash s r) = buf_held s"
  using assms
  by (auto simp: or_crash_def same_flow_def queue_view_def bufs_ok_def buf_held_def fun_eq_iff split: buf_ref.split)

interpretation model_2: ref_handlers "\<lambda>f self m s. or_crash s (model_2_on_msg self m s)" r for r
  using silent_view model_2_flow by unfold_locales (metis option.exhaust)+

interpretation model_3: ref_handlers "\<lambda>f self m s. or_crash s (model_3_on_msg self m s)" r for r
  using silent_view model_3_flow by unfold_locales (metis option.exhaust)+

interpretation model_5: ref_handlers "\<lambda>f self m s. or_crash s (model_5_on_msg self m s)" r for r
  using silent_view model_5_flow by unfold_locales (metis option.exhaust)+

section \<open>Sizes of replies\<close>

lemma alloc_capacity:
  assumes "pool_ok (bufs s)" "node_alloc a s = Some (b, s')"
  shows "(case a of Inl (sz, hr) \<Rightarrow> sz + hr | Inr sz \<Rightarrow> sz) \<le> buf_capacity s' b"
proof (cases a)
  case (Inl x)
  then obtain sz hr i j p where x: "x = (sz, hr)" "nos_buffer_alloc sz hr (bufs s) = Some ((i, j), p)" "b = PoolBuf i j" "s' = s\<lparr>bufs := p\<rparr>"
    using assms(2) by (cases x) (auto simp: node_alloc_def)
  note al = nos_buffer_alloc_ok[OF assms(1) x(2)] and c = nos_buffer_alloc_cases[OF assms(1) x(2)]
  have "bin_ok i (g_bins (bufs s) ! i)" using assms(1) al(4) by (simp add: pool_ok_def)
  then have "nos_buffer.capacity (pool_buf (bufs s) (i, j)) = chunk_size (g_bins (bufs s) ! i)"
    using al(5) by (simp add: bin_ok_def Let_def buf_fixed_def pool_buf_def)
  then show ?thesis using al(6) c(2) Inl x by (simp add: buf_capacity_def)
next
  case (Inr sz)
  then obtain o' m where m: "nos_shm_buffer_alloc sz (shmem s) = Some (o', m)" "b = ShmBuf o'" "s' = s\<lparr>shmem := m\<rparr>"
    using assms(2) by (auto simp: node_alloc_def)
  then show ?thesis
    using Inr by (auto simp: nos_shm_buffer_alloc_def Let_def buf_capacity_def shm_buffer_def not_less split: if_splits option.splits)
qed

lemma alloc_remote_capacity:
  assumes "pool_ok (bufs s)" "alloc_remote n s = Some (b, s')"
  shows "n \<le> buf_capacity s' b"
  using assms(2) alloc_capacity[OF assms(1), of "Inr n" b s'] alloc_capacity[OF assms(1), of "Inl (n, 0)" b s']
  by (auto simp: alloc_remote_def split: option.splits if_splits)

lemma post_remote_fits:
  assumes "pool_ok (bufs s)" "unat n + 28 < 2 ^ 32"
  shows "\<exists>s'. post_remote dst code x n c s = Some s'"
proof (cases "alloc_remote (28 + n) s")
  case (Some y)
  then obtain b s1 where y: "alloc_remote (28 + n) s = Some (b, s1)" by (cases y) auto
  have u: "unat (28 + n) = 28 + unat n" using assms(2) by (simp add: unat_word_ariths)
  have "28 + unat n \<le> unat (buf_capacity s1 b)"
    using alloc_remote_capacity[OF assms(1) y] unfolding word_le_nat_alt u .
  then show ?thesis by (simp add: post_remote_def y Let_def)
qed (simp add: post_remote_def)

text \<open>
  Replies of the performance test between nodes: filling in the payload stays inside the buffer exactly when the size
  of header and payload is below \<open>2 ^ 32\<close>. A larger length, which comes from the header of a message or
  from the command line, wraps around, so a small buffer is taken and written past its end as soon
  as any buffer is free.
\<close>

theorem remote_payload_bounds:
  assumes "pool_ok (bufs s)"
  shows "(unat n + 28 < 2 ^ 32 \<longrightarrow> (\<exists>s'. post_remote dst code x n c s = Some s')) \<and>
    (2 ^ 32 \<le> unat n + 28 \<longrightarrow> (post_remote dst code x n c s = None \<longleftrightarrow> alloc_remote (28 + n) s \<noteq> None)) \<and>
    (2 ^ 32 \<le> unat n + 28 \<longrightarrow> 28 + n < 28)"
proof (intro conjI impI)
  show "\<exists>s'. post_remote dst code x n c s = Some s'" if "unat n + 28 < 2 ^ 32" by (rule post_remote_fits[OF assms that])
  show "post_remote dst code x n c s = None \<longleftrightarrow> alloc_remote (28 + n) s \<noteq> None" if "2 ^ 32 \<le> unat n + 28"
  proof (cases "alloc_remote (28 + n) s")
    case (Some y)
    then obtain b s1 where y: "alloc_remote (28 + n) s = Some (b, s1)" by (cases y) auto
    have "unat (buf_capacity s1 b) < 28 + unat n" using that unsigned_less[of "buf_capacity s1 b", where 'a = nat] by simp
    then show ?thesis by (simp add: post_remote_def y Let_def)
  qed (simp add: post_remote_def)
  show "28 + n < 28" if "2 ^ 32 \<le> unat n + 28"
  proof -
    have "unat (28 + n) = 28 + unat n - 2 ^ 32"
      using that unsigned_less[of n, where 'a = nat] by (simp add: unat_word_ariths le_mod_geq)
    then show ?thesis using unsigned_less[of n, where 'a = nat] by (simp add: word_less_nat_alt)
  qed
qed

theorem remote_payload_bounds_witness:
  "\<forall>c os. post_remote SVC_REMOTE_PING 2002 0xBB 0xFFFFFFF0 c (ipc_sample [] os) = None \<and>
     (\<exists>s'. post_remote SVC_REMOTE_PING 2002 0xBB 100 c (ipc_sample [] os) = Some s')"
proof (intro allI)
  fix c and os :: "nat \<Rightarrow> send_result"
  have "pool_ok (bufs (ipc_sample [] os))" using ipc_sample_bufs(1)[of "[]" os] by (simp add: bufs_ok_def)
  note b = remote_payload_bounds[OF this, where dst = SVC_REMOTE_PING and code = 2002 and x = "0xBB" and c = c]
  have e: "(28 :: u32) + 0xFFFFFFF0 = 12" by simp
  have "nos_buffer_alloc 12 0 one_buf_pool \<noteq> None" by code_simp
  then have "alloc_remote 12 (ipc_sample [] os) \<noteq> None"
    by (auto simp: alloc_remote_def node_alloc_def ipc_sample_def split: option.split)
  then show "post_remote SVC_REMOTE_PING 2002 0xBB 0xFFFFFFF0 c (ipc_sample [] os) = None \<and>
     (\<exists>s'. post_remote SVC_REMOTE_PING 2002 0xBB 100 c (ipc_sample [] os) = Some s')"
    using b[where n = "0xFFFFFFF0", unfolded e] b[where n = 100] by simp
qed

section \<open>A sample process\<close>

lemma ownedI:
  assumes "\<And>r th. threads s r = Some th \<Longrightarrow> r \<in> set flow_threads \<and> queue_ok th" "conns s = []" "pool_ok (bufs s)"
    and "\<And>i j. pool_held (bufs s) (i, j) = (\<Sum>r\<leftarrow>flow_threads. count_list (node_queue s r) (PoolBuf i j)) + count_list hs (PoolBuf i j)"
  shows "owned s hs"
proof -
  have q: "queue_view s r = None \<or> r \<in> set flow_threads \<and> node_queue_ok s r" for r
    using assms(1)[of r] by (cases "threads s r") (auto simp: queue_view_def node_queue_ok_def)
  have a: "\<forall>r. queue_view s r = None \<or> r \<in> set flow_threads \<and> (node_queue_ok s r \<or> queue_view s r = Some ([], 0, 0))"
    using q by blast
  have b: "\<forall>sid p r. reg_route (registry s) sid = Some (Local p (Some r)) \<longrightarrow> queue_view s r = None \<or> node_queue_ok s r"
    using q by blast
  have "flow_ok s" using assms(2,3) a b unfolding flow_ok_def by simp
  then show ?thesis using assms(2,4) by (simp add: owned_def queued_def)
qed

definition sys_sample ::
  "(thread_ref \<rightharpoonup> nos_thread) \<Rightarrow> service_registry \<Rightarrow> (ptr \<rightharpoonup> nos_component) \<Rightarrow> (ptr \<rightharpoonup> comp_priv) \<Rightarrow> nos_service_msg \<Rightarrow> sys_node" where
  "sys_sample ths reg cs ps m =
     \<lparr>threads = ths, worker_count = 2, timers = Map.empty, clock = (\<lambda>_. (5, 0)), clock_reads = 0,
      registry = reg, bufs = one_buf_pool, shmem = fresh_shm, comps = cs, msgs = (\<lambda>_. m),
      conns = [], stats = zero_stats, local_name = ''A'', local_queue = None, os_sends = (\<lambda>_. Sent), send_no = 0,
      os_connects = (\<lambda>_. None), connect_no = 0, wire = [],
      node_def = sample_def, loaded_info = [], log_ctx = g_log_ctx, comp_addrs = (\<lambda>n. n + 20), addr_no = 0,
      embedded = empty_embedded, kv_tables = [], privs = ps, calloc_ok = (\<lambda>_. True), calloc_no = 0,
      timer_addrs = (\<lambda>n. n + 1), timer_no = 0, local_times = (\<lambda>_. ''12:00:00''), time_no = 0, crashed = False\<rparr>"

lemma sys_sample_simps [simp]:
  "threads (sys_sample ths reg cs ps m) = ths" "registry (sys_sample ths reg cs ps m) = reg" "comps (sys_sample ths reg cs ps m) = cs"
  "privs (sys_sample ths reg cs ps m) = ps" "bufs (sys_sample ths reg cs ps m) = one_buf_pool" "conns (sys_sample ths reg cs ps m) = []"
  "msgs (sys_sample ths reg cs ps m) = (\<lambda>_. m)" "embedded (sys_sample ths reg cs ps m) = empty_embedded"
  "kv_tables (sys_sample ths reg cs ps m) = []" "shmem (sys_sample ths reg cs ps m) = fresh_shm"
  by (simp_all add: sys_sample_def)

definition sample_comp :: "lib \<Rightarrow> u32 \<Rightarrow> nos_component" where
  "sample_comp l i =
     snd (nos_export_component l \<lparr>comp_id = i, comp_name = ''sample'', comp_status = NOS_COMP_ST_ACTIVE, comp_init = NULL,
                                  comp_start = NULL, comp_stop = NULL, comp_on_msg = NULL\<rparr>)"

lemma sample_comp_simps [simp]: "comp_on_msg (sample_comp l i) = fn_ptr l Fn_on_msg" "comp_id (sample_comp l i) = i"
  by (simp_all add: sample_comp_def nos_export_component_def Let_def)

lemma one_buf_held: "pool_ok one_buf_pool" "pool_held one_buf_pool (i, j) = (if i = 0 \<and> j = 1 then 1 else 0)"
  using nos_buffer_alloc_ok(1,3)[OF sample_pool_ok(1) one_buf_alloc] sample_pool_ok(2) by simp_all

lemma worker_threads:
  "threads full_node r = Some th \<Longrightarrow> r = Worker 0 \<and> queue_ok th \<and> thread_msgs th = [PoolBuf 0 1]"
  "threads idle_node r = Some th \<Longrightarrow> r = Worker 0 \<and> queue_ok th \<and> thread_msgs th = []"
  using full_queue idle_queue
  by (auto simp: node_queue_ok_def node_queue_def full_node_def idle_node_def msg_node_def split: if_splits)

lemma sys_sample_owned:
  "owned (sys_sample (threads full_node) reg cs ps m) []" "owned (sys_sample (threads idle_node) reg cs ps m) [PoolBuf 0 1]"
proof -
  have w: "Worker 0 \<in> set flow_threads" by (simp add: flow_threads_def MAX_WORKERS_def)
  have q: "(\<Sum>r\<leftarrow>flow_threads. count_list (if r = Worker 0 then bs else []) x) = count_list bs x" for bs x
    by (simp add: flow_threads_def MAX_WORKERS_def upt_rec)
  have full: "node_queue (sys_sample (threads full_node) reg cs ps m) = (\<lambda>r. if r = Worker 0 then [PoolBuf 0 1] else [])"
    using full_queue(2) by (auto simp: fun_eq_iff node_queue_def full_node_def msg_node_def split: option.split)
  have idle: "node_queue (sys_sample (threads idle_node) reg cs ps m) = (\<lambda>r. [])"
    using idle_queue(2) by (auto simp: fun_eq_iff node_queue_def idle_node_def msg_node_def split: option.split)
  show "owned (sys_sample (threads full_node) reg cs ps m) []"
    by (rule ownedI) (use w worker_threads(1) one_buf_held in \<open>auto simp: full q\<close>)
  show "owned (sys_sample (threads idle_node) reg cs ps m) [PoolBuf 0 1]"
    by (rule ownedI) (use w worker_threads(2) one_buf_held in \<open>auto simp: idle\<close>)
qed

section \<open>References\<close>


text \<open>
  Model 4 loses the reference to its reply: after each heartbeat it answers, the count of the buffer is one more
  than the queues and the code account for, so the buffer never returns to the pool.
\<close>

theorem model_4_loses_reference:
  assumes "owned s hs" "length hs + 4 < 2 ^ 30" "model_4_on_msg self m s = Some s'" "msg_code m = 1001"
    and "nos_buffer_alloc (28 + 32) 0 (bufs s) = Some ((i, j), p)"
  shows "pool_held (bufs s') (i, j) = queued s' (PoolBuf i j) + count_list hs (PoolBuf i j) + 1"
proof -
  obtain c s1 where c: "comps s self = Some c" "count_msg self c m s = Some s1"
    using assms(3) by (auto simp: model_4_on_msg_def bind_eq_Some_conv)
  define s2 where "s2 = log_info c ''Auto-replying to MGMT Service'' s1"
  have f: "same_flow s s2" using count_msg_flow[OF c(2)] by (simp only: s2_def same_flow_simps)
  then have o2: "owned s2 hs" using assms(1) owned_same_flow by blast
  have al: "node_alloc (Inl (28 + 32, 0)) s2 = Some (PoolBuf i j, s2\<lparr>bufs := p\<rparr>)"
    using assms(5) f by (simp add: node_alloc_def same_flow_def)
  let ?s = "s2\<lparr>bufs := p, msgs := (msgs s2)(PoolBuf i j := fill_reply SVC_MGMT (comp_id c) 1002 (msgs s2 (PoolBuf i j)))\<rparr>"
  have "owned (s2\<lparr>bufs := p\<rparr>) (PoolBuf i j # hs)" by (rule owned_alloc[OF o2 al])
  then have "owned ?s (PoolBuf i j # hs)" by (subst owned_view[of ?s "s2\<lparr>bufs := p\<rparr>"]) simp_all
  then have "owned (snd (msg_send (Some (PoolBuf i j)) ?s)) (PoolBuf i j # hs)"
    by (rule owned_send) (use assms(2) in simp_all)
  moreover have "s' = snd (msg_send (Some (PoolBuf i j)) ?s)"
    using assms(3,4) al c by (simp add: model_4_on_msg_def s2_def[symmetric])
  ultimately have "owned s' (PoolBuf i j # hs)" by simp
  from ownedD(2)[OF this, of i j] show ?thesis by simp
qed


theorem model_4_loses_reference_witness:
  "\<exists>s'. model_4_on_msg 7 ((sample_msg 5)\<lparr>msg_code := 1001\<rparr>)
      (sys_sample (threads idle_node) service_5 [7 \<mapsto> sample_comp Comp_4 4] [7 \<mapsto> Priv_count 0] (sample_msg 5)) = Some s' \<and>
     (\<exists>i j. pool_held (bufs s') (i, j) = queued s' (PoolBuf i j) + count_list [PoolBuf 0 1] (PoolBuf i j) + 1)"
proof -
  let ?s = "sys_sample (threads idle_node) service_5 [7 \<mapsto> sample_comp Comp_4 4] [7 \<mapsto> Priv_count 0] (sample_msg 5)"
  let ?m = "(sample_msg 5)\<lparr>msg_code := 1001\<rparr>"
  have "nos_buffer_alloc (28 + 32) 0 one_buf_pool \<noteq> None" by code_simp
  then obtain i j p where p: "nos_buffer_alloc (28 + 32) 0 (bufs ?s) = Some ((i, j), p)" by auto
  obtain s1 where s1: "count_msg 7 (sample_comp Comp_4 4) ?m ?s = Some s1" by (simp add: count_msg_def)
  obtain s' where s': "model_4_on_msg 7 ?m ?s = Some s'"
    using s1 that by (fastforce simp: model_4_on_msg_def Let_def split: option.split)
  have "pool_held (bufs s') (i, j) = queued s' (PoolBuf i j) + count_list [PoolBuf 0 1] (PoolBuf i j) + 1"
    by (rule model_4_loses_reference[OF sys_sample_owned(2) _ s' _ p]) simp_all
  then show ?thesis using s' by blast
qed

end
