(* ===== verification/CompTypes.thy ===== *)
theory CompTypes
  imports CompClaims KvClaims
begin

text \<open>
  Types for what the code passes around as \<open>void *\<close>: the private data of a component has the shape its
  library expects, its table handles exist, and the subscribers in the store are components that exist. In a
  node that is typed so, no handler runs into undefined behaviour, and it stays typed. Also
  here: model 2 gets its counter back from the store.
\<close>

section \<open>Types\<close>

definition handle_ok :: "nat \<Rightarrow> nat option \<Rightarrow> bool" where
  "handle_ok n t \<longleftrightarrow> (case t of None \<Rightarrow> True | Some i \<Rightarrow> i < n)"

definition size_ok :: "u32 \<Rightarrow> bool" where "size_ok n \<longleftrightarrow> unat n + 28 < 2 ^ 32"

text \<open>The private data of a component, when there are \<open>n\<close> tables. Models 2 and 3 and the pongs work without.\<close>

fun priv_ok :: "lib \<Rightarrow> nat \<Rightarrow> comp_priv option \<Rightarrow> bool" where
  "priv_ok Comp_1 n p = (case p of None \<Rightarrow> True | Some (Priv_1 tm t) \<Rightarrow> handle_ok n t | _ \<Rightarrow> False)"
| "priv_ok Comp_2 n p = (case p of None \<Rightarrow> True | Some (Priv_2 t u k) \<Rightarrow> handle_ok n t \<and> handle_ok n u | _ \<Rightarrow> False)"
| "priv_ok Comp_4 n p = (case p of Some (Priv_count k) \<Rightarrow> True | _ \<Rightarrow> False)"
| "priv_ok Comp_5 n p = (case p of Some (Priv_count k) \<Rightarrow> True | _ \<Rightarrow> False)"
| "priv_ok Comp_ping n p = (case p of Some (Priv_ping st t k) \<Rightarrow> True | _ \<Rightarrow> False)"
| "priv_ok Comp_rping n p = (case p of Some (Priv_rping st t k sz) \<Rightarrow> size_ok sz | _ \<Rightarrow> False)"
| "priv_ok l n p = True"

definition comps_typed :: "sys_node \<Rightarrow> bool" where
  "comps_typed s \<longleftrightarrow> (\<forall>p c l. comps s p = Some c \<longrightarrow> comp_on_msg c = fn_ptr l Fn_on_msg \<longrightarrow> priv_ok l (length (kv_tables s)) (privs s p))"

definition subs_typed :: "(ptr \<rightharpoonup> nos_component) \<Rightarrow> nos_kv_table \<Rightarrow> bool" where
  "subs_typed cs t \<longleftrightarrow> kv_inv t \<and>
     (\<forall>key v subs x. kv_map t key = Some (v, subs) \<longrightarrow> x \<in> set subs \<longrightarrow> sub_notify x = fn_ptr Comp_1 Fn_notify \<and> cs (sub_arg x) \<noteq> None)"

definition kv_typed :: "sys_node \<Rightarrow> bool" where
  "kv_typed s \<longleftrightarrow> (\<forall>t \<in> set (kv_tables s). subs_typed (comps s) t)"

definition well_typed :: "sys_node \<Rightarrow> bool" where
  "well_typed s \<longleftrightarrow> comps_typed s \<and> kv_typed s"

text \<open>Messages that carry a size.\<close>

fun msg_fits :: "lib \<Rightarrow> nos_service_msg \<Rightarrow> bool" where
  "msg_fits Comp_rpong m = size_ok (payload_len m)"
| "msg_fits Comp_rping m = (msg_code m = 3001 \<and> payload_len m \<ge> 8 \<longrightarrow> size_ok (get_u32 4 (msg_payload m)))"
| "msg_fits l m = True"

section \<open>The store\<close>

lemma notify_all_runs:
  "(\<And>f a key v n. (f, a, key, v, n) \<in> set ns \<Longrightarrow> f = fn_ptr Comp_1 Fn_notify \<and> v \<noteq> None \<and> comps s a \<noteq> None) \<Longrightarrow>
     \<exists>s'. notify_all ns s = Some s'"
proof (induction ns arbitrary: s)
  case (Cons x ns)
  obtain f a key v n where x: "x = (f, a, key, v, n)" by (cases x) auto
  have p: "f = fn_ptr Comp_1 Fn_notify" "v \<noteq> None" "comps s a \<noteq> None" using Cons.prems[of f a key v n] x by auto
  then obtain s1 where s1: "on_comp2_state_change a v n s = Some s1" by (cases "n = 4") (auto simp: on_comp2_state_change_def)
  have "comps s1 = comps s" using s1 by (auto simp: on_comp2_state_change_def bind_eq_Some_conv split: if_splits)
  then have "\<exists>s'. notify_all ns s1 = Some s'" using Cons.prems by (intro Cons.IH) (metis list.set_intros(2))
  then show ?case using p(1) s1 by (simp add: x)
qed simp

text \<open>A put of a value of four bytes. It may be refused, but it returns and leaves the store typed.\<close>

lemma kv_put_typed:
  assumes "kv_typed s" "handle_ok (length (kv_tables s)) (Some i)" "length v = 4"
  shows "\<exists>st s'. kv_put_auto (Some i) key v 4 s = Some (st, s') \<and> kv_typed s' \<and> length (kv_tables s') = length (kv_tables s) \<and>
     same_flow s s' \<and> privs s' = privs s \<and> embedded s' = embedded s \<and>
     (st = NOS_OK \<and> has_ops ''SVC_KV_DB'' s \<longrightarrow> kv_value (kv_tables s' ! i) = (kv_value (kv_tables s ! i))(key \<mapsto> v)) \<and>
     (has_ops ''SVC_KV_DB'' s \<and> 4 \<le> max_val_size (kv_tables s ! i) \<and> kv_value (kv_tables s ! i) key \<noteq> None \<longrightarrow> st = NOS_OK) \<and>
     (\<forall>j. j \<noteq> i \<longrightarrow> kv_tables s' ! j = kv_tables s ! j) \<and>
     table_name (kv_tables s' ! i) = table_name (kv_tables s ! i) \<and> max_val_size (kv_tables s' ! i) = max_val_size (kv_tables s ! i)"
proof (cases "has_ops ''SVC_KV_DB'' s")
  case True
  let ?t = "kv_tables s ! i"
  have i: "i < length (kv_tables s)" using assms(2) by (simp add: handle_ok_def)
  then have t: "subs_typed (comps s) ?t" using assms(1) nth_mem unfolding kv_typed_def by blast
  then have inv: "kv_inv ?t" by (simp add: subs_typed_def)
  obtain st t' calls where put: "nos_kv_put (Some ?t) (Some key) (Some v) 4 = Some (st, Some t', calls)"
    and t': "subs_typed (comps s) t'" "st = NOS_OK \<Longrightarrow> kv_value t' = (kv_value ?t)(key \<mapsto> v)"
      "table_name t' = table_name ?t" "max_val_size t' = max_val_size ?t"
      "4 \<le> max_val_size ?t \<and> kv_value ?t key \<noteq> None \<longrightarrow> st = NOS_OK"
    and calls: "\<And>f a k w n. (f, a, k, w, n) \<in> set calls \<Longrightarrow> f = fn_ptr Comp_1 Fn_notify \<and> w \<noteq> None \<and> comps s a \<noteq> None"
  proof (cases "4 \<le> max_val_size ?t")
    case True
    have u: "unat (4 :: u32) = length v" using assms(3) by simp
    obtain st t' calls where p: "nos_kv_put (Some ?t) (Some key) (Some v) 4 = Some (st, Some t', calls)" "kv_inv t'"
      "max_val_size t' = max_val_size ?t"
      "if kv_map ?t key = None \<and> unat (nos_kv_table.capacity ?t) \<le> card (dom (kv_map ?t)) then st = NOS_ERR_BUSY \<and> t' = ?t \<and> calls = []
       else st = NOS_OK \<and> kv_map t' = (kv_map ?t)(key \<mapsto> (v, case kv_map ?t key of None \<Rightarrow> [] | Some (_, subs) \<Rightarrow> subs)) \<and>
        calls = (case kv_map ?t key of None \<Rightarrow> []
                 | Some (_, subs) \<Rightarrow> map (\<lambda>s. (sub_notify s, sub_arg s, key, Some v, 4)) subs)"
      using put_correct[OF inv u True, of key] by auto
    have name: "table_name t' = table_name ?t"
      using p(1) by (auto simp: nos_kv_put_def Let_def wr_locked_def upd_kv_entry_def insert_entry_def upd_bucket_def split: if_splits option.splits)
    have typed: "subs_typed (comps s) t'"
      using p(2,4) t unfolding subs_typed_def
      by (cases "kv_map ?t key = None \<and> unat (nos_kv_table.capacity ?t) \<le> card (dom (kv_map ?t))"; cases "kv_map ?t key")
        (force split: if_splits)+
    have val: "kv_value t' = (kv_value ?t)(key \<mapsto> v)" if "st = NOS_OK"
      using p(4) that kv_value_upd[of t' ?t key] by (auto split: if_splits)
    have st: "kv_value ?t key \<noteq> None \<longrightarrow> st = NOS_OK" using p(4) by (auto simp: kv_value_def split: if_splits)
    have "f = fn_ptr Comp_1 Fn_notify \<and> w \<noteq> None \<and> comps s a \<noteq> None" if c: "(f, a, k, w, n) \<in> set calls" for f a k w n
    proof -
      obtain v0 subs where m: "kv_map ?t key = Some (v0, subs)" "calls = map (\<lambda>s. (sub_notify s, sub_arg s, key, Some v, 4)) subs"
        using p(4) c by (cases "kv_map ?t key") (auto split: if_splits)
      then obtain x where "x \<in> set subs" "f = sub_notify x" "a = sub_arg x" "w = Some v" using c by auto
      then show ?thesis using t m(1) unfolding subs_typed_def by blast
    qed
    then show ?thesis using that p(1,3) name typed val st by blast
  next
    case False
    show ?thesis
      by (rule that[of NOS_ERR ?t "[]"]) (use False t in \<open>simp_all add: nos_kv_put_def not_le\<close>)
  qed
  have h: "kv_handle s (Some i) = Some ?t" by (simp add: kv_handle_def)
  let ?s = "kv_store (Some i) (Some t') s"
  have "comps ?s = comps s" by simp
  then obtain s' where s': "notify_all calls ?s = Some s'" using notify_all_runs[of calls ?s] calls by metis
  note nf = notify_all_flow[OF s']
  have kt: "kv_tables s' = (kv_tables s)[i := t']" using nf by (simp add: kv_store_def)
  have "kv_typed s'"
    using assms(1) t'(1) nf set_update_subset_insert[of "kv_tables s" i t']
    by (auto simp: kv_typed_def kt same_flow_def)
  moreover have "same_flow s s'" "privs s' = privs s" "embedded s' = embedded s" using nf by (auto simp: same_flow_def)
  ultimately show ?thesis
    using True put h s' i t'(2-5) by (simp add: kv_put_auto_def kt)
qed (use assms in \<open>simp add: kv_put_auto_def\<close>)

lemma typed_log [simp]:
  "well_typed (nos_log_raw lv i msg s) = well_typed s" "kv_typed (set_priv p x s) = kv_typed s"
  "well_typed (snd (get_now_ns s)) = well_typed s" "well_typed (spam_loop n k c s) = well_typed s"
proof -
  show log: "well_typed (nos_log_raw lv i msg s) = well_typed s" for lv i msg s
    by (simp add: well_typed_def kv_typed_def comps_typed_def)
  show "kv_typed (set_priv p x s) = kv_typed s" "well_typed (snd (get_now_ns s)) = well_typed s"
    by (simp_all add: well_typed_def kv_typed_def comps_typed_def)
  show "well_typed (spam_loop n k c s) = well_typed s" by (induction n arbitrary: k s) (simp_all add: log)
qed

lemma well_typed_outer: "outer s' = outer s \<Longrightarrow> well_typed s' = well_typed s"
  using outerD[of s' s] by (simp add: well_typed_def kv_typed_def comps_typed_def)

lemma well_typed_post [simp]: "well_typed (post_msg sz fill s) = well_typed s"
  by (rule well_typed_outer) (rule outer_post)

lemma well_typed_set:
  assumes "well_typed s" "\<And>c l. comps s p = Some c \<Longrightarrow> comp_on_msg c = fn_ptr l Fn_on_msg \<Longrightarrow> priv_ok l (length (kv_tables s)) x"
  shows "well_typed (set_priv p x s)"
  using assms by (auto simp: well_typed_def comps_typed_def)

lemma well_typed_put:
  assumes "well_typed s" "handle_ok (length (kv_tables s)) t" "length v = 4"
  shows "\<exists>s'. (if t = None then Some s else map_option snd (kv_put_auto t key v 4 s)) = Some s' \<and> well_typed s' \<and>
     length (kv_tables s') = length (kv_tables s) \<and> same_flow s s' \<and> privs s' = privs s"
proof (cases t)
  case (Some i)
  have "kv_typed s" "handle_ok (length (kv_tables s)) (Some i)" using assms(1,2) Some by (simp_all add: well_typed_def)
  from kv_put_typed[OF this assms(3), of key] obtain st s' where
    s': "kv_put_auto t key v 4 s = Some (st, s')" "kv_typed s'" "length (kv_tables s') = length (kv_tables s)"
    "same_flow s s'" "privs s' = privs s" unfolding Some by blast
  have "comps s' = comps s" using s'(4) by (simp add: same_flow_def)
  then have "well_typed s'" using assms(1) s' by (simp add: well_typed_def comps_typed_def)
  then show ?thesis using s' Some by simp
qed (use assms in simp)

lemma fn_ptr_inj: "fn_ptr l f = fn_ptr l' f' \<Longrightarrow> l = l' \<and> f = f'"
  by (metis option.inject prod.inject ptr_fn)

section \<open>Handlers of typed components\<close>

lemma send_typed:
  assumes "well_typed s" "pool_ok (bufs s)" "size_ok n"
  shows "\<exists>s'. post_remote dst code x n c s = Some s' \<and> well_typed s'"
proof -
  obtain s' where s': "post_remote dst code x n c s = Some s'"
    using post_remote_fits[OF assms(2)] assms(3) unfolding size_ok_def by blast
  then show ?thesis using well_typed_outer[OF outer_post_remote[OF s']] assms(1) by blast
qed

lemma typed_handler:
  assumes typed: "well_typed s" and pool: "pool_ok (bufs s)" and c: "comps s self = Some c" "comp_on_msg c = fn_ptr l Fn_on_msg"
    and fits: "msg_fits l m"
  shows "\<exists>s'. lib_on_msg l self m s = Some s' \<and> well_typed s'"
proof -
  have p: "priv_ok l (length (kv_tables s)) (privs s self)" using typed c by (simp add: well_typed_def comps_typed_def)
  have l: "l' = l" if "comp_on_msg c = fn_ptr l' Fn_on_msg" for l' using that c(2) fn_ptr_inj by metis
  have set: "well_typed (set_priv self x s1)"
    if "well_typed s1" "comps s1 = comps s" "length (kv_tables s1) = length (kv_tables s)" "priv_ok l (length (kv_tables s)) x" for x s1
    by (rule well_typed_set[OF that(1)]) (use that c l in auto)
  have count: "\<exists>s'. count_msg self c m s = Some s' \<and> well_typed s'" if l45: "l = Comp_4 \<or> l = Comp_5"
  proof -
    obtain k where "privs s self = Some (Priv_count k)" using p l45 by (auto split: option.splits comp_priv.splits)
    then show ?thesis using set[OF typed] l45 by (auto simp: count_msg_def)
  qed
  show ?thesis
  proof (cases l)
    case Comp_1
    then show ?thesis using typed c by (simp add: model_1_on_msg_def Let_def)
  next
    case Comp_2
    show ?thesis
    proof (cases "privs s self")
      case (Some x)
      then obtain t u k where x: "privs s self = Some (Priv_2 t u k)" "handle_ok (length (kv_tables s)) t" "handle_ok (length (kv_tables s)) u"
        using p Comp_2 by (cases x) auto
      let ?s = "set_priv self (Some (Priv_2 t u (k + 1))) s"
      have "well_typed ?s" by (rule set[OF typed]) (use x Comp_2 in simp_all)
      from well_typed_put[OF this, of t "u32_bytes (k + 1)" "key32 (comp_name c)"] x(2) obtain s1 where
        s1: "(if t = None then Some ?s else map_option snd (kv_put_auto t (key32 (comp_name c)) (u32_bytes (k + 1)) 4 ?s)) = Some s1"
          "well_typed s1" "length (kv_tables s1) = length (kv_tables s)" by auto
      from well_typed_put[OF s1(2), of u "u32_bytes (k + 1)" "u32_bytes (k + 1)"] x(3) s1(3) obtain s2 where
        s2: "(if u = None then Some s1 else map_option snd (kv_put_auto u (u32_bytes (k + 1)) (u32_bytes (k + 1)) 4 s1)) = Some s2"
          "well_typed s2" by auto
      show ?thesis
        unfolding Comp_2 lib_on_msg.simps model_2_on_msg_def x(1) c(1) option.case prod.case comp_priv.case Let_def s1(1) s2(1) bind.bind_lunit
        using s2(2) by simp
    qed (use Comp_2 typed in \<open>simp add: model_2_on_msg_def\<close>)
  next
    case Comp_3
    then show ?thesis using typed c by (simp add: model_3_on_msg_def Let_def)
  next
    case Comp_4
    obtain s1 where s1: "count_msg self c m s = Some s1" "well_typed s1" using count Comp_4 by blast
    have send: "well_typed (snd (msg_send (Some b) (s2\<lparr>msgs := ms\<rparr>)))"
      if "node_alloc a (nos_log_raw lv i msg s1) = Some (b, s2)" for a lv i msg b s2 ms
      using s1(2) well_typed_outer[OF outer_alloc[OF that]] well_typed_outer[of "snd (msg_send (Some b) (s2\<lparr>msgs := ms\<rparr>))" s2] by simp
    then show ?thesis
      using c s1 Comp_4 by (auto simp: model_4_on_msg_def Let_def split: option.split)
  next
    case Comp_5
    then show ?thesis using count c by (simp add: model_5_on_msg_def)
  next
    case Comp_ping
    then obtain st t k where x: "privs s self = Some (Priv_ping st t k)" using p by (auto split: option.splits comp_priv.splits)
    have "well_typed (set_priv self (Some (Priv_ping st t k)) s1)"
      if "well_typed s1" "comps s1 = comps s" "kv_tables s1 = kv_tables s" for st t k s1
      by (rule set[OF that(1)]) (use that Comp_ping in simp_all)
    then show ?thesis
      using typed c x Comp_ping by (simp add: ping_on_msg_def send_ping_def Let_def case_prod_beta)
  next
    case Comp_pong
    then show ?thesis using typed c by (simp add: pong_on_msg_def)
  next
    case Comp_rping
    then obtain st t k sz where x: "privs s self = Some (Priv_rping st t k sz)" "size_ok sz"
      using p by (auto split: option.splits comp_priv.splits)
    have w: "well_typed (set_priv self (Some (Priv_rping st t k sz)) s1)"
      if "well_typed s1" "comps s1 = comps s" "kv_tables s1 = kv_tables s" "size_ok sz" for st t k sz s1
      by (rule set[OF that(1)]) (use that Comp_rping in simp_all)
    have send: "\<exists>s'. remote_send_ping self c (set_priv self (Some (Priv_rping st t k sz)) s1) = Some s' \<and> well_typed s'"
      if "well_typed s1" "comps s1 = comps s" "kv_tables s1 = kv_tables s" "bufs s1 = bufs s" "size_ok sz" for st t k sz s1
      using send_typed[OF w[OF that(1-3,5)], where n = sz] pool that by (simp add: remote_send_ping_def)
    have zero: "size_ok 0" by (simp add: size_ok_def)
    show ?thesis
      using typed c x Comp_rping fits zero send w
      by (simp add: rping_on_msg_def Let_def case_prod_beta not_le)
  next
    case Comp_rpong
    then show ?thesis using send_typed[OF typed pool] c fits typed by (simp add: rpong_on_msg_def)
  qed
qed



section \<open>The counter of model 2\<close>

lemma bytes_u32_exact [simp]: "bytes_u32 (u32_bytes w) = w"
  using bytes_u32_bytes[of w "[]"] by simp

lemma kv_create_appends:
  assumes "ks \<noteq> 0" "cap \<noteq> 0" "unat cap < 2 ^ 31"
  shows "\<exists>t xs. nos_kv_table_create ok (Some name) ks vs cap ts = Some (t, ts @ xs)"
proof -
  have "round_up 1024 cap \<noteq> None" using round_up_pow[of 10 cap] assms(3) by auto
  then obtain n where n: "round_up 1024 cap = Some n" by blast
  show ?thesis
  proof (cases "find_slot (\<lambda>t. table_name t = name) (length ts) ts = None \<and> length ts < MAX_TABLES \<and> ok")
    case True
    then show ?thesis using assms n by (simp add: nos_kv_table_create_def)
  next
    case False
    then have "\<exists>t. nos_kv_table_create ok (Some name) ks vs cap ts = Some (t, ts @ [])"
      using assms by (auto simp: nos_kv_table_create_def not_less split: option.split)
    then show ?thesis by blast
  qed
qed

lemma kv_create_runs:
  assumes "ks \<noteq> 0" "cap \<noteq> 0" "unat cap < 2 ^ 31"
  obtains t xs s' where "kv_create_auto name ks vs cap s = Some (t, s')" "kv_tables s' = kv_tables s @ xs" "same_flow s s'"
    "privs s' = privs s" "embedded s' = embedded s"
proof (cases "has_ops ''SVC_KV_DB'' s")
  case True
  obtain t xs where t: "nos_kv_table_create (calloc_ok s (calloc_no s)) (Some name) ks vs cap (kv_tables s) = Some (t, kv_tables s @ xs)"
    using kv_create_appends[OF assms] by blast
  show ?thesis
    by (rule that[of t "s\<lparr>calloc_no := calloc_no s + 1, kv_tables := kv_tables s @ xs\<rparr>" xs])
       (use True t in \<open>simp_all add: kv_create_auto_def Let_def same_flow_def\<close>)
next
  case False
  show ?thesis by (rule that[of None s "[]"]) (use False in \<open>simp_all add: kv_create_auto_def\<close>)
qed

lemma kv_create_found:
  assumes "ks \<noteq> 0" "cap \<noteq> 0" "has_ops ''SVC_KV_DB'' s" "find_slot (\<lambda>t. table_name t = name) (length (kv_tables s)) (kv_tables s) = Some i"
  shows "kv_create_auto name ks vs cap s = Some (Some i, s\<lparr>calloc_no := calloc_no s + 1\<rparr>)"
  using assms by (simp add: kv_create_auto_def nos_kv_table_create_def Let_def)

lemma overwrite_all [simp]: "overwrite (u32_bytes w) v = w"
  by (simp add: overwrite_def)

lemma model_2_msg_stores:
  assumes typed: "well_typed s" and c: "comps s self = Some c" "comp_on_msg c = fn_ptr Comp_2 Fn_on_msg"
    and p: "privs s self = Some (Priv_2 (Some i) t k)" "t \<noteq> Some i" and kv: "has_ops ''SVC_KV_DB'' s"
    and table: "4 \<le> max_val_size (kv_tables s ! i)" "kv_value (kv_tables s ! i) (key32 (comp_name c)) \<noteq> None"
  shows "\<exists>s1. model_2_on_msg self m s = Some s1 \<and> same_flow s s1 \<and> kv_typed s1 \<and> i < length (kv_tables s1) \<and>
     length (kv_tables s1) = length (kv_tables s) \<and> map table_name (kv_tables s1) = map table_name (kv_tables s) \<and>
     kv_value (kv_tables s1 ! i) (key32 (comp_name c)) = Some (u32_bytes (k + 1))"
proof -
  let ?key = "key32 (comp_name c)" and ?v = "u32_bytes (k + 1)"
  let ?s = "set_priv self (Some (Priv_2 (Some i) t (k + 1))) s"
  have "priv_ok Comp_2 (length (kv_tables s)) (privs s self)"
    using typed c(1,2) unfolding well_typed_def comps_typed_def by blast
  then have h: "handle_ok (length (kv_tables s)) (Some i)" "handle_ok (length (kv_tables s)) t" by (simp_all add: p(1))
  have ty: "kv_typed ?s" using typed by (simp add: well_typed_def)
  obtain st1 u where u: "kv_put_auto (Some i) ?key ?v 4 ?s = Some (st1, u)" "kv_typed u" "length (kv_tables u) = length (kv_tables s)"
      "same_flow s u" "privs u = (privs s)(self \<mapsto> Priv_2 (Some i) t (k + 1))" "kv_value (kv_tables u ! i) ?key = Some ?v"
      "\<And>j. j \<noteq> i \<Longrightarrow> kv_tables u ! j = kv_tables s ! j" "table_name (kv_tables u ! i) = table_name (kv_tables s ! i)"
    using kv_put_typed[OF ty, of i ?v ?key] h(1) kv table by auto
  obtain w where w: "(if t = None then Some u else map_option snd (kv_put_auto t ?v ?v 4 u)) = Some w" "kv_typed w"
      "length (kv_tables w) = length (kv_tables s)" "same_flow s w" "kv_tables w ! i = kv_tables u ! i"
      "map table_name (kv_tables w) = map table_name (kv_tables s)"
  proof (cases t)
    case None
    have "table_name (kv_tables u ! m) = table_name (kv_tables s ! m)" for m using u(7,8) by metis
    then have "map table_name (kv_tables u) = map table_name (kv_tables s)" using u(3) by (intro nth_equalityI) simp_all
    then show ?thesis using that[of u] None u by simp
  next
    case (Some j)
    then have j: "handle_ok (length (kv_tables u)) (Some j)" "j \<noteq> i" using h(2) u(3) p(2) by auto
    obtain st2 w where "kv_put_auto (Some j) ?v ?v 4 u = Some (st2, w)" "kv_typed w" "length (kv_tables w) = length (kv_tables u)"
      "same_flow u w" "\<And>m. m \<noteq> j \<Longrightarrow> kv_tables w ! m = kv_tables u ! m" "table_name (kv_tables w ! j) = table_name (kv_tables u ! j)"
      using kv_put_typed[OF u(2) j(1), of ?v ?v] by auto
    moreover have "table_name (kv_tables w ! m) = table_name (kv_tables s ! m)" for m
      using calculation(5,6) u(7,8) by metis
    then have "map table_name (kv_tables w) = map table_name (kv_tables s)"
      using calculation(3) u(3) by (intro nth_equalityI) simp_all
    ultimately show ?thesis
      using that[of w] Some j(2) u(3,4) same_flow_trans[of s u w] by simp
  qed
  define s1 where "s1 = log_info c (''Msg received, counter: '' @ dec_int (sint (k + 1)) @ ''. Data synced to KV DB.'') w"
  have run: "model_2_on_msg self m s = Some s1"
    unfolding model_2_on_msg_def p(1) c(1) option.case prod.case comp_priv.case Let_def s1_def
    using u(1) w(1) by simp
  then show ?thesis using w u(6) h(1) by (intro exI[of _ s1]) (simp add: s1_def kv_typed_def handle_ok_def)
qed

lemma model_2_init_recovers:
  assumes c: "comps s self = Some c" and calloc: "calloc_ok s (calloc_no s)" and kv: "has_ops ''SVC_KV_DB'' s"
    and slot: "find_slot (\<lambda>t. table_name t = ''CompStates'') (length (kv_tables s)) (kv_tables s) = Some i"
    and inv: "kv_inv (kv_tables s ! i)" and val: "kv_value (kv_tables s ! i) (key32 (comp_name c)) = Some (u32_bytes k)"
  shows "\<exists>s2 u. model_2_init self s = Some (NOS_OK, s2) \<and> privs s2 self = Some (Priv_2 (Some i) u k)"
proof -
  let ?s1 = "s\<lparr>calloc_no := calloc_no s + 1\<rparr>" and ?key = "key32 (comp_name c)"
  have kv1: "has_ops ''SVC_KV_DB'' ?s1" using kv by (simp add: has_ops_def)
  have slot1: "find_slot (\<lambda>t. table_name t = ''CompStates'') (length (kv_tables ?s1)) (kv_tables ?s1) = Some i" using slot by simp
  obtain u xs r where r: "kv_create_auto ''TestData'' 4 4 1024 (?s1\<lparr>calloc_no := calloc_no ?s1 + 1\<rparr>) = Some (u, r)"
      "kv_tables r = kv_tables (?s1\<lparr>calloc_no := calloc_no ?s1 + 1\<rparr>) @ xs" "embedded r = embedded (?s1\<lparr>calloc_no := calloc_no ?s1 + 1\<rparr>)"
    by (rule kv_create_runs[where ks = 4 and cap = 1024 and name = "''TestData''" and vs = 4 and s = "?s1\<lparr>calloc_no := calloc_no ?s1 + 1\<rparr>"];
        (simp only: | simp))
  let ?r = "set_priv self (Some (Priv_2 (Some i) u 0)) r"
  have "kv_handle ?r (Some i) = Some (kv_tables s ! i)"
    using r(2) find_slot_Some[OF slot] by (simp add: kv_handle_def nth_append)
  moreover have "has_ops ''SVC_KV_DB'' ?r" using kv r(3) by (simp add: has_ops_def)
  moreover have "unat (4 :: u32) = 4" by simp
  ultimately have "kv_get_auto (Some i) ?key 4 ?r = Some (NOS_OK, Some (u32_bytes k, 4))"
    using kv_get_value[OF inv, of ?key 4] val by (simp add: kv_get_auto_def)
  then show ?thesis
    using c calloc kv_create_found[OF _ _ kv1 slot1, of 32 128 4] r(1) by (simp add: model_2_init_def Let_def)
qed

text \<open>
  C40 Model 2 is stateless in the way the documentation asks for: after it has handled a message, stopping it, loading it
  anew under the same name and initialising it gives back the counter, as long as its key was in the table.
\<close>

theorem model_2_counter_survives:
  assumes typed: "well_typed s" and c: "comps s self = Some c" "comp_on_msg c = fn_ptr Comp_2 Fn_on_msg" "comp_name c' = comp_name c"
    and p: "privs s self = Some (Priv_2 (Some i) t k)" "t \<noteq> Some i" and kv: "has_ops ''SVC_KV_DB'' s"
    and table: "find_slot (\<lambda>t. table_name t = ''CompStates'') (length (kv_tables s)) (kv_tables s) = Some i"
      "4 \<le> max_val_size (kv_tables s ! i)" "kv_value (kv_tables s ! i) (key32 (comp_name c)) \<noteq> None"
    and calloc: "\<And>n. calloc_ok s n"
  shows "\<exists>s1 s2. model_2_on_msg self m s = Some s1 \<and>
     model_2_init self' ((free_priv self s1)\<lparr>comps := (comps s1)(self := None, self' \<mapsto> c')\<rparr>) = Some (NOS_OK, s2) \<and>
     (\<exists>u. privs s2 self' = Some (Priv_2 (Some i) u (k + 1)))"
proof -
  obtain s1 where s1: "model_2_on_msg self m s = Some s1" "same_flow s s1" "kv_typed s1" "i < length (kv_tables s1)"
      "length (kv_tables s1) = length (kv_tables s)" "map table_name (kv_tables s1) = map table_name (kv_tables s)"
      "kv_value (kv_tables s1 ! i) (key32 (comp_name c)) = Some (u32_bytes (k + 1))"
    using model_2_msg_stores[OF typed c(1,2) p kv table(2,3)] by blast
  let ?r = "(free_priv self s1)\<lparr>comps := (comps s1)(self := None, self' \<mapsto> c')\<rparr>"
  have r: "kv_tables ?r = kv_tables s1" "has_ops ''SVC_KV_DB'' ?r" "calloc_ok ?r (calloc_no ?r)" "comps ?r self' = Some c'"
    using s1(2) kv calloc by (simp_all add: free_priv_def same_flow_def has_ops_def)
  have slot: "find_slot (\<lambda>t. table_name t = ''CompStates'') (length (kv_tables ?r)) (kv_tables ?r) = Some i"
    using table(1) s1(5,6) r(1) unfolding find_slot_map[where f = table_name and P = "\<lambda>x. x = ''CompStates''"] by simp
  have "kv_inv (kv_tables ?r ! i)" using s1(3,4) r(1) nth_mem unfolding kv_typed_def subs_typed_def by metis
  from model_2_init_recovers[OF r(4,3,2) slot this, of "k + 1"] show ?thesis using s1(1,7) r(1) c(3) by auto
qed

theorem model_2_counter_survives_witness:
  "\<exists>s s1 s2 u. privs s 7 = Some (Priv_2 (Some 0) None 41) \<and> model_2_on_msg 7 (sample_msg 5) s = Some s1 \<and>
     model_2_init 8 ((free_priv 7 s1)\<lparr>comps := (comps s1)(7 := None, 8 \<mapsto> sample_comp Comp_2 2)\<rparr>) = Some (NOS_OK, s2) \<and>
     privs s2 8 = Some (Priv_2 (Some 0) u 42)"
proof -
  let ?t = "new_table ''CompStates'' 32 4 128 1024" and ?c = "sample_comp Comp_2 2"
  have t: "kv_inv ?t" "kv_map ?t = Map.empty" "max_val_size ?t = 4" "unat (nos_kv_table.capacity ?t) = 128"
    using new_table_inv[of 128 1024 32 4 "''CompStates''"] by (simp_all add: KV_ENTRY_HEADER_def new_table_def)
  have n: "unat (4 :: u32) = length (u32_bytes 41)" "(4 :: u32) \<le> max_val_size ?t" using t(3) by simp_all
  obtain st x calls where x: "nos_kv_put (Some ?t) (Some (key32 (comp_name ?c))) (Some (u32_bytes 41)) 4 = Some (st, Some x, calls)"
    "kv_inv x" "max_val_size x = 4" "kv_map x = [key32 (comp_name ?c) \<mapsto> (u32_bytes 41, [])]"
    using put_correct[OF t(1) n, of "key32 (comp_name ?c)"] t by auto
  have name: "table_name x = ''CompStates''"
    using x(1) t(1) n by (auto simp: nos_kv_put_def Let_def wr_locked_def upd_kv_entry_def insert_entry_def upd_bucket_def
        new_table_def strncpy_field_def split: if_splits option.splits)
  let ?s = "(sys_sample (threads idle_node) service_5 [7 \<mapsto> ?c] [7 \<mapsto> Priv_2 (Some 0) None 41] (sample_msg 5))
    \<lparr>kv_tables := [x], embedded := snd (nos_embedded_service_register ''SVC_KV_DB'' 5 empty_embedded)\<rparr>"
  have w: "well_typed ?s"
    using x(2,4) by (auto simp: well_typed_def comps_typed_def kv_typed_def subs_typed_def handle_ok_def dest!: fn_ptr_inj split: if_splits)
  have "nos_embedded_service_get ''SVC_KV_DB'' (snd (nos_embedded_service_register ''SVC_KV_DB'' 5 empty_embedded)) = 5" by code_simp
  then have kv: "has_ops ''SVC_KV_DB'' ?s" by (simp add: has_ops_def)
  have v: "kv_value (kv_tables ?s ! 0) (key32 (comp_name ?c)) \<noteq> None" using x(4) by (simp add: kv_value_def)
  have f: "find_slot (\<lambda>t. table_name t = ''CompStates'') (length (kv_tables ?s)) (kv_tables ?s) = Some 0"
    using name by (simp add: find_slot_def)
  have e: "(41 :: u32) + 1 = 42" and d: "(None :: nat option) \<noteq> Some 0" by simp_all
  have "\<exists>s1 s2. model_2_on_msg 7 (sample_msg 5) ?s = Some s1 \<and>
     model_2_init 8 ((free_priv 7 s1)\<lparr>comps := (comps s1)(7 := None, 8 \<mapsto> ?c)\<rparr>) = Some (NOS_OK, s2) \<and>
     (\<exists>u. privs s2 8 = Some (Priv_2 (Some 0) u (41 + 1)))"
    by (rule model_2_counter_survives[OF w _ _ refl _ d kv f _ v]) (use x(3) in \<open>simp_all add: sys_sample_def\<close>)
  moreover have "privs ?s 7 = Some (Priv_2 (Some 0) None 41)" by simp
  ultimately show ?thesis unfolding e by blast
qed

end
