(* ===== verification/CompPerf.thy ===== *)
theory CompPerf
  imports CompTypes
begin

text \<open>
  The performance test inside a node (\<open>ping.c\<close>, \<open>pong.c\<close>) from the command of the CLI to its end: one message
  is in flight at a time, ping and pong take turns, and the test ends after exactly as many rounds as
  were asked for.
\<close>

section \<open>There is room for one more message\<close>

text \<open>Some bin has two chunks or more that hold \<open>sz\<close> bytes.\<close>

definition pool_room :: "u32 \<Rightarrow> bufpool \<Rightarrow> bool" where
  "pool_room sz p \<longleftrightarrow> (\<exists>i < g_bin_count p. sz \<le> chunk_size (g_bins p ! i) \<and> 2 \<le> unat (chunk_count (g_bins p ! i)))"

definition pool_shape :: "bufpool \<Rightarrow> nat \<times> (u32 \<times> u32) list" where
  "pool_shape p = (g_bin_count p, map (\<lambda>b. (chunk_size b, chunk_count b)) (g_bins p))"

lemma shape_upd:
  assumes "\<And>b. (chunk_size (f b), chunk_count (f b)) = (chunk_size b, chunk_count b)"
  shows "pool_shape (upd_bin i f p) = pool_shape p"
proof -
  have f: "chunk_size (f b) = chunk_size b" "chunk_count (f b) = chunk_count b" for b using assms[of b] by simp_all
  have "map (\<lambda>b. (chunk_size b, chunk_count b)) ((g_bins p)[i := f (g_bins p ! i)]) = map (\<lambda>b. (chunk_size b, chunk_count b)) (g_bins p)"
    by (cases "i < length (g_bins p)") (auto intro!: nth_equalityI simp: nth_list_update f)
  then show ?thesis by (simp add: pool_shape_def upd_bin_def)
qed

lemma shape_ops [simp]:
  "pool_shape (pool_retain r p) = pool_shape p" "pool_shape (pool_release r p) = pool_shape p"
  by (auto simp: pool_retain_def pool_release_def upd_pool_buf_def Let_def shape_upd split: if_splits)

lemma shape_alloc: "nos_buffer_alloc sz hr p = Some (r, p') \<Longrightarrow> pool_shape p' = pool_shape p"
  by (auto simp: nos_buffer_alloc_def Let_def shape_upd split: option.splits)

lemma room_shape: "pool_shape p' = pool_shape p \<Longrightarrow> length (g_bins p) = MAX_BINS \<Longrightarrow> g_bin_count p \<le> MAX_BINS \<Longrightarrow> pool_room sz p \<Longrightarrow> pool_room sz p'"
proof -
  assume a: "pool_shape p' = pool_shape p" "length (g_bins p) = MAX_BINS" "g_bin_count p \<le> MAX_BINS" "pool_room sz p"
  then have m: "map (\<lambda>b. (chunk_size b, chunk_count b)) (g_bins p') = map (\<lambda>b. (chunk_size b, chunk_count b)) (g_bins p)" "g_bin_count p' = g_bin_count p"
    by (auto simp: pool_shape_def)
  have l: "length (g_bins p') = length (g_bins p)" using arg_cong[OF m(1), of length] by simp
  have "chunk_size (g_bins p' ! i) = chunk_size (g_bins p ! i) \<and> chunk_count (g_bins p' ! i) = chunk_count (g_bins p ! i)"
    if "i < g_bin_count p" for i
    using nth_map[of i "g_bins p'" "\<lambda>b. (chunk_size b, chunk_count b)"] nth_map[of i "g_bins p" "\<lambda>b. (chunk_size b, chunk_count b)"]
      that a(2,3) l m(1) by simp
  then show ?thesis using a(4) m(2) unfolding pool_room_def by metis
qed

lemma room_alloc:
  assumes "pool_ok p" "pool_room sz p" "\<And>r. pool_held p r \<noteq> 0 \<Longrightarrow> r = r0"
  shows "\<exists>r p'. nos_buffer_alloc sz 0 p = Some (r, p')"
proof (rule ccontr)
  assume no: "\<not> ?thesis"
  obtain i where i: "i < g_bin_count p" "sz \<le> chunk_size (g_bins p ! i)" "2 \<le> unat (chunk_count (g_bins p ! i))"
    using assms(2) by (auto simp: pool_room_def)
  have len: "i < length (g_bins p)" "g_bin_count p \<le> length (g_bins p)" using assms(1) i(1) by (simp_all add: pool_ok_def)
  have "find_slot (\<lambda>bin. chunk_size bin \<ge> sz \<and> nos_buffer_bin.free_top bin \<ge> 0) (g_bin_count p) (g_bins p) = None"
    using no by (auto simp: nos_buffer_alloc_def Let_def split: option.splits)
  then have "nos_buffer_bin.free_top (g_bins p ! i) < 0" using i len find_slot_None[of "g_bin_count p" "g_bins p"] by auto
  then have fl: "free_list (g_bins p ! i) = []" by (simp add: free_list_def)
  have ok: "bin_ok i (g_bins p ! i)" using assms(1) i(1) by (simp add: pool_ok_def)
  have "pool_held p (i, j) \<noteq> 0" if "j < 2" for j
    using bin_ok_buf(2)[OF ok, of j] that i fl by (simp add: pool_held_def pool_buf_def)
  then have "(i, 0) = r0" "(i, 1) = r0" using assms(3) by (metis zero_less_numeral, metis one_less_numeral_iff semiring_norm(76))
  then show False by auto
qed

section \<open>One message in flight\<close>

definition only_msg :: "'z ipc_node_scheme \<Rightarrow> thread_ref \<Rightarrow> buf_ref \<Rightarrow> bool" where
  "only_msg s r b \<longleftrightarrow> node_queue s = (\<lambda>_. [])(r := [b]) \<and> (\<forall>c \<in> set (conns s). conn_items c = [])"

definition no_msg :: "'z ipc_node_scheme \<Rightarrow> bool" where
  "no_msg s \<longleftrightarrow> node_queue s = (\<lambda>_. []) \<and> (\<forall>c \<in> set (conns s). conn_items c = [])"

lemma no_msg_queued: "no_msg s \<Longrightarrow> queued s b = 0"
proof -
  assume a: "no_msg s"
  have "map (\<lambda>c. count_list (conn_items c) b) (conns s) = map (\<lambda>c. 0) (conns s)" using a by (auto simp: no_msg_def)
  then have "(\<Sum>c\<leftarrow>conns s. count_list (conn_items c) b) = 0" by (simp only: sum_list_0)
  then show ?thesis using a by (simp add: queued_def no_msg_def)
qed

lemma no_msg_held: "owned s hs \<Longrightarrow> no_msg s \<Longrightarrow> pool_held (bufs s) (i, j) = count_list hs (PoolBuf i j)"
  using ownedD(2)[of s hs i j] no_msg_queued by simp

lemma no_msg_flow: "same_flow s s' \<Longrightarrow> no_msg s' = no_msg s"
  by (simp add: same_flow_def no_msg_def node_queue_def[abs_def])

text \<open>Sending from a thread when nothing else is in the queues.\<close>

lemma post_in_flight:
  fixes s :: sys_node
  assumes own: "owned s hs" "hs = [] \<or> hs = [b]" and none: "no_msg s" and room: "pool_room sz (bufs s)"
    and route: "\<And>m. reg_route (registry s) (dst_service (fill m)) = Some (Local c (Some r))" and th: "threads s r \<noteq> None"
  shows "\<exists>b'. only_msg (post_msg sz fill s) r b' \<and> (\<exists>m. msgs (post_msg sz fill s) b' = fill m) \<and>
     pool_shape (bufs (post_msg sz fill s)) = pool_shape (bufs s)"
proof -
  have held: "pool_held (bufs s) (i, j) \<noteq> 0 \<Longrightarrow> PoolBuf i j = b" for i j
    using no_msg_held[OF own(1) none, of i j] own(2) by (auto split: if_splits)
  have "\<exists>r0. \<forall>r. pool_held (bufs s) r \<noteq> 0 \<longrightarrow> r = r0"
    using held by (cases b) (metis buf_ref.inject(1) prod.exhaust, metis buf_ref.distinct(1) prod.exhaust)
  then obtain r0 where "\<And>r. pool_held (bufs s) r \<noteq> 0 \<Longrightarrow> r = r0" by blast
  from room_alloc[OF ownedD(1)[OF own(1)] room this] obtain i j p where p: "nos_buffer_alloc sz 0 (bufs s) = Some ((i, j), p)" by auto
  let ?b = "PoolBuf i j" and ?s1 = "s\<lparr>bufs := p\<rparr>"
  let ?s2 = "?s1\<lparr>msgs := (msgs ?s1)(PoolBuf i j := fill (msgs ?s1 (PoolBuf i j)))\<rparr>"
  have al: "node_alloc (Inl (sz, 0)) s = Some (?b, ?s1)" using p by (simp add: node_alloc_def)
  obtain th where th: "threads s r = Some th" using th by blast
  have q: "queue_ok th" by (rule ownedD(7)[OF own(1) route th])
  have "thread_msgs th = []" using none th by (auto simp: no_msg_def node_queue_def fun_eq_iff split: option.splits)
  then obtain th' where th': "thread_enq ?b th = Some th'"
    using msg_ring.enq_None[OF q, of ?b] by (cases "thread_enq ?b th") (auto simp: MAX_QUEUE_SIZE_def)
  note e = msg_ring.enq_Some[OF q th']
  have send: "snd (msg_send (Some ?b) ?s2) = snd (nos_transport_local_send ?b (Some r) ?s2)"
    using send_routes(3)[of ?s2 ?b c "Some r"] route by simp
  have "queue_ok (eventfd_write th') = queue_ok th'" "thread_msgs (eventfd_write th') = thread_msgs th'"
    using queue_ok_cong[of "eventfd_write th'" th'] by auto
  then have nq: "node_queue (snd (nos_transport_local_send ?b (Some r) ?s2)) = (\<lambda>_. [])(r := [?b])"
    using th th' e none \<open>thread_msgs th = []\<close>
    by (auto simp: nos_transport_local_send_def Let_def no_msg_def node_queue_def fun_eq_iff)
  have fr: "conns (snd (nos_transport_local_send ?b (Some r) ?s2)) = conns s"
    "pool_shape (bufs (snd (nos_transport_local_send ?b (Some r) ?s2))) = pool_shape (bufs s)"
    using th th' shape_alloc[OF p] by (auto simp: nos_transport_local_send_def Let_def nos_buffer_retain_def upd_thread_def)
  have post: "post_msg sz fill s = nos_buffer_release ?b (snd (nos_transport_local_send ?b (Some r) ?s2))"
    using al send by (simp add: post_msg_def post_buf_def)
  have "node_queue (post_msg sz fill s) = (\<lambda>_. [])(r := [?b])" "conns (post_msg sz fill s) = conns s"
    "msgs (post_msg sz fill s) ?b = fill (msgs s ?b)" "pool_shape (bufs (post_msg sz fill s)) = pool_shape (bufs s)"
    unfolding post using nq fr by (simp_all add: node_queue_def[abs_def]) (simp add: nos_buffer_release_def)
  then show ?thesis using none unfolding only_msg_def no_msg_def by auto
qed

lemma upd_thread_sys [simp]:
  fixes s :: sys_node
  shows "privs (upd_thread r f s) = privs s" "kv_tables (upd_thread r f s) = kv_tables s" "conns (upd_thread r f s) = conns s"
  by (simp_all add: upd_thread_def)

lemma route_entry:
  assumes "reg_route reg sid = Some (Local c t)"
  obtains i where "find_service_entry sid reg = Some i" "local_provider (g_service_registry reg ! i) = c"
  using assms by (auto simp: reg_route_def entry_route_def Let_def split: option.splits if_splits)

text \<open>A thread takes the message in flight: its handler runs with nothing in the queues.\<close>

lemma take_in_flight:
  fixes s :: sys_node
  assumes own: "owned s []" and msg: "only_msg s r b"
  obtains th th' where "threads s r = Some th" "thread_pop th = Some (Some b, th')" "owned (upd_thread r (\<lambda>_. th') s) [b]"
    "no_msg (upd_thread r (\<lambda>_. th') s)"
proof -
  have q: "node_queue s r = [b]" using msg by (simp add: only_msg_def)
  then obtain th where th: "threads s r = Some th" "thread_msgs th = [b]" by (auto simp: node_queue_def split: option.splits)
  have ok: "queue_ok th" using ownedD(4)[OF own, of r] q th(1) by (simp add: node_queue_ok_def)
  have "head th \<noteq> tail th" using thread_pop_None[OF ok] th(2) by (auto simp: thread_pop_def)
  then obtain th' where th': "thread_pop th = Some (Some b, th')" "thread_msgs th' = []"
    using thread_pop_Some[OF ok] th(2) by auto
  obtain b' where "Some b = Some b'" "owned (upd_thread r (\<lambda>_. th') s) [b']" by (rule owned_pop[OF own th(1) th'(1)])
  moreover have "no_msg (upd_thread r (\<lambda>_. th') s)"
    using msg th th'(2) by (auto simp: only_msg_def no_msg_def node_queue_def fun_eq_iff split: option.splits)
  ultimately show ?thesis using that th(1) th'(1) by simp
qed

text \<open>One step of a thread whose handler leaves nothing in the thread's queue.\<close>

lemma run_one:
  fixes s :: sys_node
  assumes th: "threads s r = Some th" "thread_pop th = Some (Some b, th')"
    and route: "reg_route (registry s) (dst_service (msgs s b)) = Some (Local c t)" "c \<noteq> NULL"
    and comp: "comps s c = Some cp" "comp_on_msg cp = fn_ptr l Fn_on_msg"
    and v: "v = comp_call_msg (fn_ptr l Fn_on_msg) c (msgs s b) (upd_thread r (\<lambda>_. th') s)"
    and left: "owned v [b]" "threads v r \<noteq> None" "node_queue v r = []"
  shows "process_thread_messages 1 comp_call_msg r s = Returned (nos_buffer_release b v)"
proof -
  let ?u = "upd_thread r (\<lambda>_. th') s" and ?s' = "nos_buffer_release b v"
  obtain i where i: "find_service_entry (dst_service (msgs s b)) (registry s) = Some i" "local_provider (g_service_registry (registry s) ! i) = c"
    by (rule route_entry[OF route(1)])
  have d: "deliver comp_call_msg b ?u = ?s'" using i comp route(2) by (simp add: deliver_def Let_def v)
  have o': "owned ?s' []" by (rule owned_release[OF left(1)])
  obtain th2 where th2: "threads ?s' r = Some th2" using left(2) by auto
  have "node_queue ?s' r = []" using left(3) by (simp add: node_queue_def[abs_def])
  then have "thread_msgs th2 = []" using th2 by (simp add: node_queue_def)
  then have "thread_pop th2 = None" using ownedD(8)[OF o' th2] thread_pop_None[of th2] by (metis thread_pop_def)
  then have "process_thread_messages 0 comp_call_msg r ?s' = Returned ?s'" using th2 by (subst process_thread_messages.simps) simp
  then show ?thesis using th d by (subst process_thread_messages.simps) simp
qed

text \<open>A thread whose handler sends one message to another thread or none.\<close>

definition settled :: "sys_node \<Rightarrow> sys_node \<Rightarrow> bool" where
  "settled s s' \<longleftrightarrow> owned s' [] \<and> registry s' = registry s \<and> comps s' = comps s \<and> pool_shape (bufs s') = pool_shape (bufs s) \<and>
     (\<forall>r. threads s r \<noteq> None \<longrightarrow> threads s' r \<noteq> None)"

lemma exchange:
  assumes own: "owned s []" and msg: "only_msg s r b"
    and route: "reg_route (registry s) (dst_service (msgs s b)) = Some (Local c t)" "c \<noteq> NULL"
    and comp: "comps s c = Some cp" "comp_on_msg cp = fn_ptr l Fn_on_msg"
    and hand: "\<And>u. privs u = privs s \<Longrightarrow> comps u = comps s \<Longrightarrow>
      \<exists>u'. lib_on_msg l c (msgs s b) u = Some (if send then post_msg 28 fill u' else u') \<and> same_flow u u' \<and> P (privs u')"
    and next_route: "send \<Longrightarrow> (\<And>m. reg_route (registry s) (dst_service (fill m)) = Some (Local c' (Some r')))"
    and other: "r' \<noteq> r" "threads s r' \<noteq> None" and room: "pool_room 28 (bufs s)"
  shows "\<exists>s'. process_thread_messages 1 comp_call_msg r s = Returned s' \<and> settled s s' \<and> P (privs s') \<and>
     (if send then \<exists>b'. only_msg s' r' b' \<and> (\<exists>m. msgs s' b' = fill m) else no_msg s')"
proof -
  obtain th th' where th: "threads s r = Some th" "thread_pop th = Some (Some b, th')" "owned (upd_thread r (\<lambda>_. th') s) [b]"
    "no_msg (upd_thread r (\<lambda>_. th') s)" by (rule take_in_flight[OF own msg])
  let ?u = "upd_thread r (\<lambda>_. th') s"
  obtain u' where u': "lib_on_msg l c (msgs s b) ?u = Some (if send then post_msg 28 fill u' else u')" "same_flow ?u u'" "P (privs u')"
    using hand[of ?u] by auto
  define v where "v = (if send then post_msg 28 fill u' else u')"
  define s' where "s' = nos_buffer_release b v"
  have "owned u' [b]" "no_msg u'" using owned_same_flow[OF u'(2)] no_msg_flow[OF u'(2)] th(3,4) by simp_all
  moreover have "registry u' = registry s" "comps u' = comps s" "bufs u' = bufs s" "threads u' = threads ?u"
    using u'(2) by (simp_all add: same_flow_def)
  ultimately have ou: "owned u' [b]" "no_msg u'" "registry u' = registry s" "comps u' = comps s" "bufs u' = bufs s"
    "threads u' = threads ?u" by auto
  have outer: "outer v = outer u'" by (simp add: v_def)
  have "owned v [b]" unfolding v_def using ou(1) owned_post[OF ou(1)] by simp
  then have o': "owned s' []" unfolding s'_def by (rule owned_release)
  have q: "(if send then \<exists>b'. only_msg v r' b' \<and> (\<exists>m. msgs v b' = fill m) else no_msg v) \<and> pool_shape (bufs v) = pool_shape (bufs s)"
  proof (cases send)
    case True
    have "threads u' r' \<noteq> None" using other ou(6) by simp
    from post_in_flight[OF ou(1) _ ou(2) _ _ this, where b = b and sz = 28 and fill = fill and c = c'] show ?thesis
      using True room next_route ou(3,5) by (auto simp: v_def)
  qed (use ou in \<open>simp add: v_def\<close>)
  have rel: "node_queue s' = node_queue v" "msgs s' = msgs v" "conns s' = conns v" "pool_shape (bufs s') = pool_shape (bufs v)"
    by (simp_all add: s'_def node_queue_def[abs_def]) (cases b; simp add: nos_buffer_release_def)
  have thr: "threads v r \<noteq> None" "\<And>x. threads s x \<noteq> None \<Longrightarrow> threads v x \<noteq> None"
  proof -
    have "heap_of v = heap_of u'" by (rule outerD[OF outer])
    then have "threads v x = None \<longleftrightarrow> threads u' x = None" for x by (auto simp: heap_of_def dest!: fun_cong[of _ _ x])
    then show "threads v r \<noteq> None" "\<And>x. threads s x \<noteq> None \<Longrightarrow> threads v x \<noteq> None" using ou(6) th(1) by (auto split: if_splits)
  qed
  have "comp_call_msg (fn_ptr l Fn_on_msg) c (msgs s b) ?u = v" using u'(1) by (simp add: comp_call_msg_def or_crash_def v_def)
  moreover have "node_queue v r = []" using q other(1) by (auto simp: only_msg_def no_msg_def split: if_splits)
  ultimately have run: "process_thread_messages 1 comp_call_msg r s = Returned s'"
    unfolding s'_def using run_one[OF th(1,2) route comp] \<open>owned v [b]\<close> thr(1) by metis
  have "settled s s'" using o' outerD(5,6)[OF outer] ou(3,4) q rel(4) thr(2) by (simp add: settled_def s'_def)
  moreover have "privs s' = privs u'"
    using outerD(9)[OF outer] by (cases b) (simp_all add: s'_def nos_buffer_release_def)
  ultimately show ?thesis using run u'(3) q rel by (auto simp: only_msg_def no_msg_def split: if_splits)
qed

section \<open>The test\<close>

text \<open>
  The threads of the two components take turns: \<open>k\<close> times the thread of pong and then the one of ping. The
  command of the CLI starts the test with a message to ping.
\<close>

fun ping_rounds :: "nat \<Rightarrow> thread_ref \<Rightarrow> thread_ref \<Rightarrow> sys_node \<Rightarrow> sys_node run" where
  "ping_rounds 0 r1 r2 s = Returned s"
| "ping_rounds (Suc k) r1 r2 s =
     (case process_thread_messages 1 comp_call_msg r2 s of
        Returned s \<Rightarrow>
          (case process_thread_messages 1 comp_call_msg r1 s of
             Returned s \<Rightarrow> ping_rounds k r1 r2 s
           | x \<Rightarrow> x)
      | x \<Rightarrow> x)"

definition ping_test :: "nat \<Rightarrow> thread_ref \<Rightarrow> thread_ref \<Rightarrow> sys_node \<Rightarrow> sys_node run" where
  "ping_test k r1 r2 s =
     (case process_thread_messages 1 comp_call_msg r1 s of Returned s \<Rightarrow> ping_rounds k r1 r2 s | x \<Rightarrow> x)"

text \<open>A node that runs ping as component \<open>p\<close> on one thread and pong as \<open>q\<close> on another, with nothing else in flight.\<close>

definition perf_node :: "thread_ref \<Rightarrow> thread_ref \<Rightarrow> ptr \<Rightarrow> ptr \<Rightarrow> sys_node \<Rightarrow> bool" where
  "perf_node r1 r2 p q s \<longleftrightarrow> owned s [] \<and> pool_room 28 (bufs s) \<and> r1 \<noteq> r2 \<and> p \<noteq> NULL \<and> q \<noteq> NULL \<and>
     reg_route (registry s) SVC_PING = Some (Local p (Some r1)) \<and> reg_route (registry s) SVC_PONG = Some (Local q (Some r2)) \<and>
     threads s r1 \<noteq> None \<and> threads s r2 \<noteq> None \<and>
     (\<exists>c. comps s p = Some c \<and> comp_on_msg c = fn_ptr Comp_ping Fn_on_msg) \<and>
     (\<exists>c. comps s q = Some c \<and> comp_on_msg c = fn_ptr Comp_pong Fn_on_msg)"

lemma perf_settled: "perf_node r1 r2 p q s \<Longrightarrow> settled s s' \<Longrightarrow> perf_node r1 r2 p q s'"
  using ownedD(1)[of s "[]"] room_shape[of "bufs s'" "bufs s"] unfolding perf_node_def settled_def pool_ok_def by metis

lemma fill_header_simps [simp]:
  "dst_service (fill_header d c k n m) = d" "msg_code (fill_header d c k n m) = k" "payload_len (fill_header d c k n m) = n"
  by (simp_all add: fill_header_def)

definition in_flight :: "sys_node \<Rightarrow> thread_ref \<Rightarrow> u32 \<Rightarrow> u32 \<Rightarrow> bool" where
  "in_flight s r sid code \<longleftrightarrow> (\<exists>b. only_msg s r b \<and> dst_service (msgs s b) = sid \<and> msg_code (msgs s b) = code)"

lemma pong_step:
  assumes s: "perf_node r1 r2 p q s" "in_flight s r2 SVC_PONG 2001"
  shows "\<exists>s'. process_thread_messages 1 comp_call_msg r2 s = Returned s' \<and> perf_node r1 r2 p q s' \<and> privs s' = privs s \<and>
     in_flight s' r1 SVC_PING 2002"
proof -
  obtain b c where b: "only_msg s r2 b" "dst_service (msgs s b) = SVC_PONG" "msg_code (msgs s b) = 2001"
    and c: "comps s q = Some c" "comp_on_msg c = fn_ptr Comp_pong Fn_on_msg"
    using s by (auto simp: in_flight_def perf_node_def)
  have "\<exists>u'. lib_on_msg Comp_pong q (msgs s b) u = Some (if True then post_msg 28 (fill_header SVC_PING (comp_id c) 2002 0) u' else u') \<and>
      same_flow u u' \<and> privs u' = privs s" if "privs u = privs s" "comps u = comps s" for u
    using that b(3) c by (auto simp: pong_on_msg_def)
  note e = exchange[OF _ b(1) _ _ c, where send = True and P = "\<lambda>x. x = privs s" and fill = "fill_header SVC_PING (comp_id c) 2002 0"
      and c' = p and r' = r1 and t = "Some r2", OF _ _ _ this]
  obtain s' where "process_thread_messages 1 comp_call_msg r2 s = Returned s'" "settled s s'" "privs s' = privs s"
      "\<exists>b'. only_msg s' r1 b' \<and> (\<exists>m. msgs s' b' = fill_header SVC_PING (comp_id c) 2002 0 m)"
    using e s b(2) by (auto simp: perf_node_def)
  then show ?thesis using perf_settled[OF s(1)] unfolding in_flight_def by (metis fill_header_simps(1,2))
qed

lemma ping_step:
  assumes s: "perf_node r1 r2 p q s" "in_flight s r1 SVC_PING 2002" and k: "privs s p = Some (Priv_ping t0 n k)"
  shows "\<exists>s'. process_thread_messages 1 comp_call_msg r1 s = Returned s' \<and> perf_node r1 r2 p q s' \<and>
     privs s' p = Some (Priv_ping t0 n (k + 1)) \<and> (if k + 1 < n then in_flight s' r2 SVC_PONG 2001 else no_msg s')"
proof -
  obtain b c where b: "only_msg s r1 b" "dst_service (msgs s b) = SVC_PING" "msg_code (msgs s b) = 2002"
    and c: "comps s p = Some c" "comp_on_msg c = fn_ptr Comp_ping Fn_on_msg"
    using s by (auto simp: in_flight_def perf_node_def)
  have "\<exists>u'. lib_on_msg Comp_ping p (msgs s b) u = Some (if k + 1 < n then post_msg 28 (fill_header SVC_PONG (comp_id c) 2001 0) u' else u') \<and>
      same_flow u u' \<and> privs u' p = Some (Priv_ping t0 n (k + 1))" if "privs u = privs s" "comps u = comps s" for u
    using that b(3) c k by (auto simp: ping_on_msg_def send_ping_def Let_def)
  note e = exchange[OF _ b(1) _ _ c, where send = "k + 1 < n" and P = "\<lambda>x. x p = Some (Priv_ping t0 n (k + 1))"
      and fill = "fill_header SVC_PONG (comp_id c) 2001 0" and c' = q and r' = r2 and t = "Some r1", OF _ _ _ this]
  obtain s' where "process_thread_messages 1 comp_call_msg r1 s = Returned s'" "settled s s'" "privs s' p = Some (Priv_ping t0 n (k + 1))"
      "if k + 1 < n then \<exists>b'. only_msg s' r2 b' \<and> (\<exists>m. msgs s' b' = fill_header SVC_PONG (comp_id c) 2001 0 m) else no_msg s'"
    using e s b(2) by (auto simp: perf_node_def)
  then show ?thesis using perf_settled[OF s(1)] unfolding in_flight_def by (metis fill_header_simps(1,2))
qed

lemma start_step:
  assumes s: "perf_node r1 r2 p q s" "only_msg s r1 b" and k: "privs s p = Some (Priv_ping t0 n0 k0)"
    and m: "dst_service (msgs s b) = SVC_PING" "msg_code (msgs s b) = 3001" "4 \<le> payload_len (msgs s b)"
  shows "\<exists>s' t. process_thread_messages 1 comp_call_msg r1 s = Returned s' \<and> perf_node r1 r2 p q s' \<and>
     privs s' p = Some (Priv_ping t (get_u32 0 (msg_payload (msgs s b))) 0) \<and> in_flight s' r2 SVC_PONG 2001"
proof -
  let ?n = "get_u32 0 (msg_payload (msgs s b))"
  obtain c where c: "comps s p = Some c" "comp_on_msg c = fn_ptr Comp_ping Fn_on_msg" using s by (auto simp: perf_node_def)
  have "\<exists>u'. lib_on_msg Comp_ping p (msgs s b) u = Some (if True then post_msg 28 (fill_header SVC_PONG (comp_id c) 2001 0) u' else u') \<and>
      same_flow u u' \<and> (\<exists>t. privs u' p = Some (Priv_ping t ?n 0))" if "privs u = privs s" "comps u = comps s" for u
    using that m c k by (auto simp: ping_on_msg_def send_ping_def Let_def case_prod_beta)
  note e = exchange[OF _ s(2) _ _ c, where send = True and P = "\<lambda>x. \<exists>t. x p = Some (Priv_ping t ?n 0)"
      and fill = "fill_header SVC_PONG (comp_id c) 2001 0" and c' = q and r' = r2 and t = "Some r1", OF _ _ _ this]
  obtain s' where "process_thread_messages 1 comp_call_msg r1 s = Returned s'" "settled s s'" "\<exists>t. privs s' p = Some (Priv_ping t ?n 0)"
      "\<exists>b'. only_msg s' r2 b' \<and> (\<exists>m. msgs s' b' = fill_header SVC_PONG (comp_id c) 2001 0 m)"
    using e s m(1) by (auto simp: perf_node_def)
  then show ?thesis using perf_settled[OF s(1)] unfolding in_flight_def by (metis fill_header_simps(1,2))
qed

text \<open>From the \<open>k\<close>-th ping on, \<open>n - k\<close> rounds finish the test.\<close>

lemma rounds_complete:
  "perf_node r1 r2 p q s \<Longrightarrow> in_flight s r2 SVC_PONG 2001 \<Longrightarrow> privs s p = Some (Priv_ping t n k) \<Longrightarrow> k < n \<Longrightarrow>
     unat n - unat k = d \<Longrightarrow>
     \<exists>s'. ping_rounds d r1 r2 s = Returned s' \<and> perf_node r1 r2 p q s' \<and> no_msg s' \<and> privs s' p = Some (Priv_ping t n n)"
proof (induction d arbitrary: s k)
  case 0
  then show ?case by (simp add: word_less_nat_alt)
next
  case (Suc d)
  obtain s1 where s1: "process_thread_messages 1 comp_call_msg r2 s = Returned s1" "perf_node r1 r2 p q s1" "privs s1 = privs s"
      "in_flight s1 r1 SVC_PING 2002" using pong_step[OF Suc.prems(1,2)] by blast
  have k1: "privs s1 p = Some (Priv_ping t n k)" using s1(3) Suc.prems(3) by simp
  obtain s2 where s2: "process_thread_messages 1 comp_call_msg r1 s1 = Returned s2" "perf_node r1 r2 p q s2"
      "privs s2 p = Some (Priv_ping t n (k + 1))" "if k + 1 < n then in_flight s2 r2 SVC_PONG 2001 else no_msg s2"
    using ping_step[OF s1(2,4) k1] by blast
  have "unat k + 1 < 2 ^ 32" using Suc.prems(4) unsigned_less[of n, where 'a = nat] by (simp add: word_less_nat_alt)
  then have u: "unat (k + 1) = unat k + 1" by (simp add: unat_word_ariths)
  have "ping_rounds (Suc d) r1 r2 s = ping_rounds d r1 r2 s2" using s1(1) s2(1) by simp
  moreover have "\<exists>s'. ping_rounds d r1 r2 s2 = Returned s' \<and> perf_node r1 r2 p q s' \<and> no_msg s' \<and> privs s' p = Some (Priv_ping t n n)"
  proof (cases "k + 1 < n")
    case True
    have "unat n - unat (k + 1) = d" using Suc.prems(5) u by simp
    from Suc.IH[OF s2(2) _ s2(3) True this] show ?thesis using s2(4) True by simp
  next
    case False
    then have "n = k + 1" using Suc.prems(4) u by (simp add: word_less_nat_alt word_unat_eq_iff)
    moreover from this have "d = 0" using Suc.prems(5) u by simp
    ultimately show ?thesis using s2 False by simp
  qed
  ultimately show ?case by simp
qed

text \<open>
  The performance test ends: when the command for \<open>n\<close> rounds reaches ping in a quiet node with room for two messages,
  the two threads exchange messages and after exactly \<open>n\<close> rounds (one, if \<open>n\<close> is 0) ping has counted them all,
  nothing is left in a queue and every buffer is free again.
\<close>

lemma ping_test_ends:
  assumes "perf_node r1 r2 p q s" "only_msg s r1 b" "privs s p = Some (Priv_ping t0 n0 k0)"
    and "dst_service (msgs s b) = SVC_PING" "msg_code (msgs s b) = 3001" "4 \<le> payload_len (msgs s b)"
    and n: "n = get_u32 0 (msg_payload (msgs s b))"
  shows "\<exists>s' t. ping_test (max 1 (unat n)) r1 r2 s = Returned s' \<and> privs s' p = Some (Priv_ping t n (max 1 n)) \<and>
     (\<forall>r. node_queue s' r = []) \<and> (\<forall>i j. pool_held (bufs s') (i, j) = 0)"
proof -
  obtain s1 t where s1: "process_thread_messages 1 comp_call_msg r1 s = Returned s1" "perf_node r1 r2 p q s1"
      "privs s1 p = Some (Priv_ping t n 0)" "in_flight s1 r2 SVC_PONG 2001"
    using start_step[OF assms(1-6)] unfolding n by blast
  have "\<exists>s'. ping_rounds (max 1 (unat n)) r1 r2 s1 = Returned s' \<and> perf_node r1 r2 p q s' \<and> no_msg s' \<and>
      privs s' p = Some (Priv_ping t n (max 1 n))"
  proof (cases "n = 0")
    case True
    obtain s2 where s2: "process_thread_messages 1 comp_call_msg r2 s1 = Returned s2" "perf_node r1 r2 p q s2" "privs s2 = privs s1"
      "in_flight s2 r1 SVC_PING 2002" using pong_step[OF s1(2,4)] by blast
    have "privs s2 p = Some (Priv_ping t n 0)" using s2(3) s1(3) by simp
    then obtain s3 where s3: "process_thread_messages 1 comp_call_msg r1 s2 = Returned s3" "perf_node r1 r2 p q s3"
      "privs s3 p = Some (Priv_ping t n 1)" "no_msg s3"
      using ping_step[OF s2(2,4)] True by fastforce
    then show ?thesis using s2(1) True by simp
  next
    case False
    then have pos: "0 < n" "0 < unat n" by (simp_all add: word_neq_0_conv unat_gt_0)
    then have "max 1 (unat n) = unat n" "max 1 n = n" by (auto simp: max_def word_le_nat_alt)
    then show ?thesis using rounds_complete[OF s1(2,4,3) pos(1)] by simp
  qed
  then obtain s' where s': "ping_rounds (max 1 (unat n)) r1 r2 s1 = Returned s'" "perf_node r1 r2 p q s'" "no_msg s'"
      "privs s' p = Some (Priv_ping t n (max 1 n))" by blast
  have "pool_held (bufs s') (i, j) = 0" for i j using no_msg_held[OF _ s'(3), of "[]"] s'(2) by (simp add: perf_node_def)
  moreover have "node_queue s' r = []" for r using s'(3) by (simp add: no_msg_def)
  ultimately show ?thesis using s1(1) s'(1,4) by (simp add: ping_test_def)
qed

definition perf_registry :: service_registry where
  "perf_registry =
     snd (nos_service_register_provider_bind 112 8 (Some (Worker 1))
       (snd (nos_service_register_provider_bind 111 7 (Some (Worker 0)) empty_registry)))"

definition perf_msg :: nos_service_msg where
  "perf_msg = (sample_msg 111)\<lparr>msg_code := 3001, payload_len := 4, msg_payload := put_u32 0 3 []\<rparr>"

definition perf_sample :: sys_node where
  "perf_sample =
     sys_sample ((threads full_node)(Worker 1 := threads idle_node (Worker 0))) perf_registry
       [7 \<mapsto> sample_comp Comp_ping 10, 8 \<mapsto> sample_comp Comp_pong 11] [7 \<mapsto> Priv_ping 0 0 0] perf_msg"

lemma perf_sample_queues: "node_queue perf_sample = (\<lambda>_. [])(Worker 0 := [PoolBuf 0 1])"
  using full_queue(2) idle_queue(2)
  by (auto simp: fun_eq_iff node_queue_def perf_sample_def full_node_def idle_node_def msg_node_def split: option.split)

lemma perf_sample_owned: "owned perf_sample []"
proof (rule ownedI)
  show "r \<in> set flow_threads \<and> queue_ok th" if "threads perf_sample r = Some th" for r th
  proof (cases "r = Worker 1")
    case True
    then have "threads idle_node (Worker 0) = Some th" using that by (simp add: perf_sample_def)
    then show ?thesis using True worker_threads(2) by (simp add: flow_threads_def MAX_WORKERS_def)
  next
    case False
    then have "threads full_node r = Some th" using that by (simp add: perf_sample_def)
    then have "r = Worker 0" "queue_ok th" using worker_threads(1) by blast+
    then show ?thesis by (simp add: flow_threads_def MAX_WORKERS_def)
  qed
  have w: "(\<Sum>r\<leftarrow>flow_threads. count_list (((\<lambda>_. [])(Worker 0 := [PoolBuf 0 1])) r) x) = count_list [PoolBuf 0 1] x" for x
    by (simp add: flow_threads_def MAX_WORKERS_def upt_rec)
  show "pool_held (bufs perf_sample) (i, j) = (\<Sum>r\<leftarrow>flow_threads. count_list (node_queue perf_sample r) (PoolBuf i j)) + count_list [] (PoolBuf i j)" for i j
    unfolding perf_sample_queues w by (auto simp: perf_sample_def one_buf_held)
qed (simp_all add: perf_sample_def one_buf_held)

lemma perf_sample_node: "perf_node (Worker 0) (Worker 1) 7 8 perf_sample"
proof -
  have "pool_room 28 one_buf_pool"
  proof -
    have "0 < g_bin_count one_buf_pool \<and> 28 \<le> chunk_size (g_bins one_buf_pool ! 0) \<and> 2 \<le> unat (chunk_count (g_bins one_buf_pool ! 0))"
      by code_simp
    then show ?thesis unfolding pool_room_def by blast
  qed
  moreover have "reg_route perf_registry 111 = Some (Local 7 (Some (Worker 0)))" "reg_route perf_registry 112 = Some (Local 8 (Some (Worker 1)))"
    by code_simp+
  moreover have "threads perf_sample (Worker 0) \<noteq> None" "threads perf_sample (Worker 1) \<noteq> None"
    by (simp_all add: perf_sample_def full_node_def idle_node_def msg_node_def)
  ultimately show ?thesis
    using perf_sample_owned by (simp add: perf_node_def perf_sample_def SVC_PING_def SVC_PONG_def)
qed

lemma ping_test_ends_sample:
  "\<exists>s' t. ping_test 3 (Worker 0) (Worker 1) perf_sample = Returned s' \<and> privs s' 7 = Some (Priv_ping t 3 3) \<and>
     (\<forall>r. node_queue s' r = []) \<and> (\<forall>i j. pool_held (bufs s') (i, j) = 0)"
proof -
  have o: "only_msg perf_sample (Worker 0) (PoolBuf 0 1)" using perf_sample_queues by (simp add: only_msg_def perf_sample_def)
  have m: "msgs perf_sample (PoolBuf 0 1) = perf_msg" by (simp add: perf_sample_def)
  have p: "privs perf_sample 7 = Some (Priv_ping 0 0 0)" by (simp add: perf_sample_def)
  have n: "3 = get_u32 0 (msg_payload (msgs perf_sample (PoolBuf 0 1)))" by (simp add: perf_sample_def perf_msg_def get_put_u32)
  have "dst_service (msgs perf_sample (PoolBuf 0 1)) = SVC_PING" "msg_code (msgs perf_sample (PoolBuf 0 1)) = 3001"
      "4 \<le> payload_len (msgs perf_sample (PoolBuf 0 1))"
    unfolding m by (simp_all add: perf_msg_def SVC_PING_def sample_msg_def)
  from ping_test_ends[OF perf_sample_node o p this n] show ?thesis by simp
qed

end
