(* ===== verification/CliClaims.thy ===== *)
theory CliClaims
  imports CliEdit CompPerf "HOL-Library.Sublist"
begin

text \<open>
  The properties of the command line: its loop ends, a line runs exactly the command it names, the history, the line
  editor against an abstract one, and commands that run in the node up to the last message of the performance test.
\<close>

definition sample_cli :: cli where
  "sample_cli = \<lparr>cli_node = perf_sample, g_history = [[], [], []], g_history_count = 0, cli_running = True, screen = [],
     struct_size = (\<lambda>_. 0), ratio_text = (\<lambda>_ _ _. [])\<rparr>"

section \<open>The loop ends\<close>

text \<open>A completion prints suggestions, or appends the rest of the only one.\<close>

lemma tab_cases:
  assumes "handle_tab_completion prompt buf pos c = Some (buf', pos', c')"
  obtains ts where "buf' = buf[pos := NUL]" "pos' = pos" "c' = out_all ts c"
  | w n where "suggestions (cli_node c) (c_string (buf[pos := NUL])) pos = Some (Inr ([w], n))" "n \<le> length w"
      "pos + length (drop n w) < length buf" "buf' = take pos buf @ drop n w @ [NUL] @ drop (pos + length (drop n w) + 1) buf"
      "pos' = length (c_string buf')" "c' = out (drop n w) c"
proof -
  obtain r where r: "suggestions (cli_node c) (c_string (buf[pos := NUL])) pos = Some r"
    using assms by (auto simp: handle_tab_completion_def Let_def bind_eq_Some_conv)
  note h = assms[unfolded handle_tab_completion_def Let_def r bind.bind_lunit]
  show ?thesis
  proof (cases r)
    case (Inl hint)
    have "buf' = buf[pos := NUL]" "pos' = pos" "c' = out_all [[NL] @ ''Hint: '' @ hint @ [NL] @ prompt @ c_string (buf[pos := NUL])] c"
      using h unfolding Inl sum.case option.inject prod.inject by blast+
    then show ?thesis by (rule that(1))
  next
    case (Inr x)
    obtain sugs n where x: "x = (sugs, n)" by (cases x)
    consider "sugs = []" | w where "sugs = [w]" | a b ws where "sugs = a # b # ws" by (metis list.exhaust)
    then show ?thesis
    proof cases
      case 1
      have "buf' = buf[pos := NUL]" "pos' = pos" "c' = out_all [] c"
        using h unfolding Inr x 1 sum.case prod.case list.case option.inject prod.inject by (blast, blast, simp add: out_all_def)
      then show ?thesis by (rule that(1))
    next
      case 2
      have dr: "drop (pos + length (drop n w) + 1) (buf[pos := NUL]) = drop (pos + length (drop n w) + 1) buf"
        "take pos (buf[pos := NUL]) = take pos buf" "length (buf[pos := NUL]) = length buf" by simp_all
      note e = h[unfolded Inr x 2 sum.case prod.case list.case dr]
      then have "n \<le> length w" "pos + length (drop n w) < length buf" by (auto simp del: length_drop split: if_splits)
      moreover have "buf' = take pos buf @ drop n w @ [NUL] @ drop (pos + length (drop n w) + 1) buf" "c' = out (drop n w) c"
          "pos' = length (c_string buf')"
        using e by (auto simp del: length_drop drop_update_cancel split: if_splits)
      ultimately show ?thesis using that(2)[of w n] r Inr x 2 by blast
    next
      case 3
      obtain ts where "buf' = buf[pos := NUL]" "pos' = pos" "c' = out_all ts c"
        using h unfolding Inr x 3 sum.case prod.case list.case option.inject prod.inject by blast
      then show ?thesis by (rule that(1))
    qed
  qed
qed

lemma tab_length: "handle_tab_completion prompt buf pos c = Some (buf', pos', c') \<Longrightarrow> pos < length buf \<Longrightarrow> length buf' = length buf"
  by (erule tab_cases) auto

lemma get_line_length: "get_line_loop prompt h pos buf inp c = Some (got, buf', inp', c') \<Longrightarrow> length buf' = length buf"
proof (induction "length inp" arbitrary: h pos buf inp c rule: less_induct)
  case less
  have IH: "length buf' = length b2"
    if "length x < length inp" "get_line_loop prompt h2 p2 b2 x c2 = Some (got, buf', inp', c')" for x h2 p2 b2 c2
    by (rule less(1)[OF that])
  show ?case
  proof (cases "pos < length buf - 1 \<and> inp \<noteq> []")
    case False
    then show ?thesis using less(2) get_line_end[of buf pos] get_line_eof[of pos buf] by (cases "pos < length buf - 1") auto
  next
    case True
    then obtain ch rest where inp: "inp = ch # rest" and pos: "pos < length buf - 1" by (cases inp) auto
    note key = get_line_key[OF pos, of ch prompt h rest c]
    have rest: "length rest < length inp" by (simp add: inp)
    show ?thesis
    proof (cases ch rule: key_cases)
      case 1
      then show ?thesis using less(2) key(1) inp by auto
    next
      case 2
      then show ?thesis using less(2) key(2) inp IH[OF rest] by metis
    next
      case 3
      then obtain p b c2 where "handle_tab_completion prompt buf pos c = Some (b, p, c2)"
          "get_line_loop prompt h p b rest c2 = Some (got, buf', inp', c')"
        using less(2) key(3) inp by (auto split: option.splits)
      moreover have "pos < length buf" using pos by simp
      ultimately show ?thesis using IH[OF rest] tab_length by metis
    next
      case 4
      show ?thesis
      proof (cases "\<exists>a b x. rest = a # b # x")
        case True
        then obtain a b x where r: "rest = a # b # x" by blast
        obtain h2 p2 b2 c2 where "get_line_loop prompt h2 p2 b2 x c2 = Some (got, buf', inp', c')" "length b2 = length buf"
          using less(2) 4 get_line_escape(1)[OF pos, of prompt h a b x c] inp r by (fastforce simp: Let_def split: if_splits)
        moreover have "length x < length inp" by (simp add: inp r)
        ultimately show ?thesis using IH by metis
      next
        case False
        then have "rest = [] \<or> (\<exists>a. rest = [a])" by (metis list.exhaust)
        then show ?thesis using less(2) 4 get_line_escape(2,3)[OF pos] inp by auto
      qed
    next
      case 5
      then show ?thesis using less(2) key(4) inp IH[OF rest] by (metis length_list_update)
    qed
  qed
qed

lemma fgets_consumes:
  assumes "get_line_fgets buf inp = (got, buf', inp')" "1 < length buf"
  shows "length buf' = length buf" "0 \<le> got \<Longrightarrow> length inp' < length inp"
proof -
  let ?w = "takeWhile (\<lambda>ch. ch \<noteq> NL) inp"
  let ?v = "take (length buf - 1) (if length ?w < length inp then ?w @ [NL] else ?w)"
  have v: "length ?v < length buf" using assms(2) by auto
  have "buf' = buf \<or> buf' = ?v @ [NUL] @ drop (length ?v + 1) buf" using assms(1) by (simp add: get_line_fgets_def Let_def split: if_splits)
  moreover have "length (v @ [NUL] @ drop (length v + 1) buf) = length buf" if "length v < length buf" for v using that by simp
  ultimately show "length buf' = length buf" using v by metis
  assume "0 \<le> got"
  then have i: "inp \<noteq> []" "inp' = drop (length ?v) inp" using assms(1) by (auto simp: get_line_fgets_def Let_def split: if_splits)
  have "0 < length ?v" using i(1) assms(2) by (cases inp) auto
  then show "length inp' < length inp" using i by (simp add: diff_less)
qed

lemma cli_loop_enough: "length inp < n \<Longrightarrow> 1 < length buf \<Longrightarrow> cli_loop n is_tty others prompt buf inp c \<noteq> OutOfFuel"
proof (induction n arbitrary: buf inp c)
  case (Suc n)
  show ?case
  proof (cases "cli_running c")
    case True
    let ?r = "if is_tty then advanced_get_line prompt buf inp (others n c)
       else (let (got, buf, inp) = get_line_fgets buf inp in Some (got, buf, inp, others n c))"
    show ?thesis
    proof (cases ?r)
      case None
      then show ?thesis using True by (subst cli_loop.simps) simp
    next
      case (Some x)
      obtain got b i c2 where x: "x = (got, b, i, c2)" by (cases x) auto
      have l: "length b = length buf" "0 \<le> got \<Longrightarrow> length i < length inp"
        using Some x Suc.prems(2) get_line_consumes[of prompt 0 0 buf inp "out prompt (others n c)" got b i c2]
          get_line_length[of prompt 0 0 buf inp "out prompt (others n c)" got b i c2] fgets_consumes[of buf inp got b i]
        by (auto simp: advanced_get_line_def split: if_splits prod.splits)
      show ?thesis
      proof (cases "got < 0")
        case False
        then have i: "length i < n" using l(2) Suc.prems(1) by simp
        have IH: "cli_loop n is_tty others prompt b2 i c3 \<noteq> OutOfFuel" if "length b2 = length buf" for b2 c3
          by (rule Suc.IH[OF i]) (use that Suc.prems(2) in simp)
        show ?thesis
          using True Some False IH[of b] IH[of "b[_ := NUL]"] l(1)
          by (subst cli_loop.simps) (auto simp: x Let_def split: option.splits)
      qed (use True Some x in \<open>subst cli_loop.simps, simp\<close>)
    qed
  qed (subst cli_loop.simps, simp)
qed simp



section \<open>The command a line names\<close>

lemma find_unique: "x \<in> set xs \<Longrightarrow> P x \<Longrightarrow> (\<And>y. y \<in> set xs \<Longrightarrow> P y \<Longrightarrow> y = x) \<Longrightarrow> find P xs = Some x"
proof (induction xs)
  case (Cons a xs)
  show ?case
  proof (cases "P a")
    case True
    then show ?thesis using Cons.prems(3)[of a] by simp
  next
    case False
    have "find P xs = Some x"
    proof (rule Cons.IH)
      show "x \<in> set xs" "P x" using Cons.prems(1,2) False by auto
      show "y = x" if "y \<in> set xs" "P y" for y by (rule Cons.prems(3)) (use that in simp_all)
    qed
    then show ?thesis using False by simp
  qed
qed simp

lemma cmd_matches_prefix:
  assumes "cmd_matches line name"
  shows "prefix (name @ [SP]) (line @ [SP])"
proof (cases "line = name")
  case False
  then have "take (length name) line = name" "length name < length line" "line ! length name = SP"
    using assms by (simp_all add: cmd_matches_def strncmp_eq_def)
  then have "take (Suc (length name)) line = name @ [SP]" by (simp add: take_Suc_conv_app_nth)
  then have "prefix (name @ [SP]) line" using take_is_prefix[of "Suc (length name)" line] by simp
  then show ?thesis by (rule prefix_prefix)
qed simp

definition cmd_names :: "string list" where "cmd_names = map fst g_cli_cmds"

lemma cmd_names_list:
  "cmd_names = [''help'', ''show components'', ''show services'', ''show db'', ''show memory'', ''show ipc'', ''clear ipc'', ''log'',
     ''perf start'', ''perf remote'', ''load'', ''unload'', ''reload'', ''quit'']"
  by (simp add: cmd_names_def g_cli_cmds_def)

text \<open>No command is the start of another.\<close>

lemma cmds_apart:
  "distinct cmd_names" "list_all (\<lambda>a. list_all (\<lambda>b. prefix (a @ [SP]) (b @ [SP]) \<longrightarrow> a = b) cmd_names) cmd_names"
  by (simp_all add: cmd_names_list)

lemma cmd_unique:
  assumes "x \<in> set g_cli_cmds" "y \<in> set g_cli_cmds" "cmd_matches line (fst x)" "cmd_matches line (fst y)"
  shows "x = y"
proof -
  have n: "fst x \<in> set cmd_names" "fst y \<in> set cmd_names" using assms(1,2) by (simp_all add: cmd_names_def)
  have "prefix (fst x @ [SP]) (fst y @ [SP]) \<or> prefix (fst y @ [SP]) (fst x @ [SP])"
    using cmd_matches_prefix assms(3,4) prefix_same_cases by blast
  moreover have "a = b" if "a \<in> set cmd_names" "b \<in> set cmd_names" "prefix (a @ [SP]) (b @ [SP])" for a b
    using cmds_apart(2) that by (simp only: list_all_iff)
  ultimately have "fst x = fst y" using n by metis
  then show ?thesis using cmds_apart(1) assms(1,2) unfolding cmd_names_def distinct_map by (meson inj_onD)
qed

lemma c_string_drop: "c_string buf = a @ b \<Longrightarrow> c_string (drop (length a) buf) = b \<and> (NUL \<in> set buf \<longrightarrow> NUL \<in> set (drop (length a) buf))"
proof (induction a arbitrary: buf)
  case (Cons x a)
  then obtain y rest where buf: "buf = y # rest" by (cases buf) (auto simp: c_string_def)
  then show ?case using Cons by (auto simp: c_string_def split: if_splits)
qed simp

lemma find_cmd:
  assumes "(name, help, cmd) \<in> set g_cli_cmds" "cmd_matches line name"
  shows "find (\<lambda>x. cmd_matches line (fst x)) g_cli_cmds = Some (name, help, cmd)"
proof (rule find_unique)
  show "y = (name, help, cmd)" if "y \<in> set g_cli_cmds" "cmd_matches line (fst y)" for y
    by (rule cmd_unique[where line = line]) (use that assms in simp_all)
qed (use assms in simp_all)

lemma exec_line_args:
  assumes "cstr buf = Some (name @ [SP] @ args)" "(name, help, cmd) \<in> set g_cli_cmds"
  shows "exec_line tty buf c = exec_cmd cmd (Some (drop (length name + 1) buf)) (history_add (name @ [SP] @ args) c)"
    "cstr (drop (length name + 1) buf) = Some args"
proof -
  have "cmd_matches (name @ [SP] @ args) name" by (simp add: cmd_matches_def strncmp_eq_def)
  then show "exec_line tty buf c = exec_cmd cmd (Some (drop (length name + 1) buf)) (history_add (name @ [SP] @ args) c)"
    using find_cmd[OF assms(2)] assms(1) by (simp add: exec_line_def)
  have "c_string buf = (name @ [SP]) @ args" "NUL \<in> set buf" using assms(1) by (auto simp: cstr_def split: if_splits)
  then show "cstr (drop (length name + 1) buf) = Some args" using c_string_drop[of buf "name @ [SP]" args] by (simp add: cstr_def)
qed

text \<open>
  C22 A line runs exactly the command it names: the command alone, or the command, a space and its arguments, which the
  handler finds at its pointer; no other command of the table matches. Any other line changes nothing but the history
  (and says so on a terminal).
\<close>

theorem cli_dispatch_correct:
  assumes "cstr buf = Some line"
  shows "((name, help, cmd) \<in> set g_cli_cmds \<longrightarrow> line = name \<longrightarrow> exec_line tty buf c = exec_cmd cmd None (history_add line c)) \<and>
    ((name, help, cmd) \<in> set g_cli_cmds \<longrightarrow> line = name @ [SP] @ args \<longrightarrow>
       exec_line tty buf c = exec_cmd cmd (Some (drop (length name + 1) buf)) (history_add line c) \<and>
       cstr (drop (length name + 1) buf) = Some args) \<and>
    ((\<forall>x \<in> set g_cli_cmds. \<not> cmd_matches line (fst x)) \<longrightarrow>
       exec_line tty buf c = Some (if tty then out (''Unknown command: '' @ line @ [NL]) (history_add line c) else history_add line c))"
proof -
  have "exec_line tty buf c = exec_cmd cmd None (history_add line c)" if "(name, help, cmd) \<in> set g_cli_cmds" "line = name"
  proof -
    have "cmd_matches line name" using that(2) by (simp add: cmd_matches_def)
    then show ?thesis using find_cmd[OF that(1)] that(2) assms by (simp add: exec_line_def)
  qed
  moreover have "exec_line tty buf c = Some (if tty then out (''Unknown command: '' @ line @ [NL]) (history_add line c) else history_add line c)"
    if "\<forall>x \<in> set g_cli_cmds. \<not> cmd_matches line (fst x)"
  proof -
    have "find (\<lambda>x. cmd_matches line (fst x)) g_cli_cmds = None" using that unfolding find_None_iff by blast
    then show ?thesis using assms by (simp add: exec_line_def Let_def)
  qed
  ultimately show ?thesis using exec_line_args[where buf = buf and name = name and args = args and cmd = cmd] assms by blast
qed

theorem cli_dispatch_correct_witness:
  "exec_line True (''perf start 5'' @ [NUL]) sample_cli =
     exec_cmd Perf_start (Some (drop 11 (''perf start 5'' @ [NUL]))) (history_add ''perf start 5'' sample_cli)"
proof -
  have c: "cstr (''perf start 5'' @ [NUL]) = Some ''perf start 5''" by code_simp
  have "(''perf start'', ''Start IPC performance test'', Perf_start) \<in> set g_cli_cmds" by (simp add: g_cli_cmds_def)
  then show ?thesis
    using cli_dispatch_correct[OF c, of "''perf start''" "''Start IPC performance test''" Perf_start True sample_cli "''5''"] by simp
qed

section \<open>The history\<close>

definition empty_history :: "cli \<Rightarrow> bool" where
  "empty_history c \<longleftrightarrow> g_history_count c = 0 \<and> length (g_history c) = MAX_HISTORY"

definition history_of :: "string list \<Rightarrow> string list" where
  "history_of ls = take MAX_HISTORY (rev (remdups_adj (filter (\<lambda>l. l \<noteq> []) ls)))"

lemma remdups_adj_snoc: "remdups_adj (xs @ [x]) = (if xs \<noteq> [] \<and> last xs = x then remdups_adj xs else remdups_adj xs @ [x])"
  by (induction xs rule: remdups_adj.induct) auto

lemma history_of_snoc:
  "history_of (ls @ [l]) = (if l = [] \<or> (history_of ls \<noteq> [] \<and> hd (history_of ls) = l) then history_of ls else take MAX_HISTORY (l # history_of ls))"
proof -
  let ?f = "filter (\<lambda>l. l \<noteq> []) ls"
  have h: "history_of ls \<noteq> [] \<longleftrightarrow> ?f \<noteq> []" by (simp add: history_of_def MAX_HISTORY_def)
  have "hd (history_of ls) = last ?f" if "?f \<noteq> []"
  proof -
    have "rev (remdups_adj ?f) \<noteq> []" using that by simp
    then show ?thesis using that by (simp add: history_of_def MAX_HISTORY_def hd_rev)
  qed
  moreover have "take 3 (l # rev xs) = take 3 (l # take 3 (rev xs))" for xs :: "string list" by simp
  ultimately show ?thesis using h by (auto simp: history_of_def MAX_HISTORY_def remdups_adj_snoc)
qed

lemma history_step:
  assumes "take (g_history_count c) (g_history c) = hs" "g_history_count c = length hs" "length (g_history c) = MAX_HISTORY" "length l < 256"
  shows "take (g_history_count (history_add l c)) (g_history (history_add l c)) =
      (if l = [] \<or> (hs \<noteq> [] \<and> hd hs = l) then hs else take MAX_HISTORY (l # hs)) \<and>
    g_history_count (history_add l c) = length (if l = [] \<or> (hs \<noteq> [] \<and> hd hs = l) then hs else take MAX_HISTORY (l # hs)) \<and>
    length (g_history (history_add l c)) = MAX_HISTORY"
proof -
  have le: "length hs \<le> MAX_HISTORY" using assms(1,3) by (metis length_take min.cobounded1)
  have first: "hs \<noteq> [] \<Longrightarrow> g_history c ! 0 = hd hs" using assms(1) by (metis hd_conv_nth length_greater_0_conv nth_take assms(2))
  show ?thesis
  proof (cases "l = [] \<or> (hs \<noteq> [] \<and> hd hs = l)")
    case True
    then show ?thesis using assms first by (auto simp: history_add_def)
  next
    case False
    then have "history_add l c = c\<lparr>g_history := l # take (MAX_HISTORY - 1) (g_history c),
        g_history_count := (if g_history_count c < MAX_HISTORY then g_history_count c + 1 else g_history_count c)\<rparr>"
      using first assms(2,4) by (auto simp: history_add_def)
    moreover have "take n (take 2 (g_history c)) = take n (take 2 hs)" if "n \<le> length hs" for n
      using that assms(1,2) by (metis min.absorb1 take_take min.commute)
    ultimately show ?thesis
      using False assms le by (cases "length hs < 3") (auto simp: MAX_HISTORY_def take_Cons' numeral_3_eq_3 numeral_2_eq_2)
  qed
qed

text \<open>
  The history holds the last three different commands: after any sequence of lines the entries, newest first, are the
  last three of them with empty lines and immediate repetitions left out. (No line is longer than 255 characters.)
\<close>

theorem history_keeps_last_lines:
  assumes "empty_history c" "\<forall>l \<in> set ls. length l < 256"
  shows "take (g_history_count (foldl (\<lambda>c l. history_add l c) c ls)) (g_history (foldl (\<lambda>c l. history_add l c) c ls)) = history_of ls"
proof -
  have "(let c' = foldl (\<lambda>c l. history_add l c) c ls in
      take (g_history_count c') (g_history c') = history_of ls \<and> g_history_count c' = length (history_of ls) \<and> length (g_history c') = MAX_HISTORY)"
    using assms(2)
  proof (induction ls rule: rev_induct)
    case Nil
    then show ?case using assms(1) by (simp add: empty_history_def history_of_def)
  next
    case (snoc l ls)
    then have "\<forall>l \<in> set ls. length l < 256" "length l < 256" by simp_all
    note IH = snoc.IH[OF this(1), unfolded Let_def] and l = this(2)
    from history_step[OF IH[THEN conjunct1] IH[THEN conjunct2, THEN conjunct1] IH[THEN conjunct2, THEN conjunct2] l]
    show ?case unfolding history_of_snoc foldl_append foldl.simps Let_def by blast
  qed
  then show ?thesis unfolding Let_def by blast
qed

theorem history_keeps_last_lines_witness:
  "(let c = foldl (\<lambda>c l. history_add l c) sample_cli [''help'', [], ''help'', ''quit'', ''help'', ''show db''] in
     take (g_history_count c) (g_history c) = [''show db'', ''help'', ''quit''])"
proof -
  have e: "empty_history sample_cli" by (simp add: empty_history_def sample_cli_def MAX_HISTORY_def)
  have "history_of [''help'', [], ''help'', ''quit'', ''help'', ''show db''] = [''show db'', ''help'', ''quit'']" by code_simp
  then show ?thesis using history_keeps_last_lines[OF e, of "[''help'', [], ''help'', ''quit'', ''help'', ''show db'']"] by (simp add: Let_def)
qed

section \<open>The line editor\<close>

text \<open>An abstract editor: the state is the line, with the number of history entries already called up.\<close>

datatype key = Key char | Erase | Up | Tab

fun key_bytes :: "key \<Rightarrow> string" where
  "key_bytes (Key ch) = [ch]"
| "key_bytes Erase = [CHR 0x7F]"
| "key_bytes Up = [ESC, CHR ''['', CHR ''A'']"
| "key_bytes Tab = [CHR 0x09]"

definition completion :: "sys_node \<Rightarrow> string \<Rightarrow> string" where
  "completion s line = (case suggestions s line (length line) of Some (Inr ([w], n)) \<Rightarrow> drop n w | _ \<Rightarrow> [])"

fun edit_key :: "cli \<Rightarrow> string \<times> nat \<Rightarrow> key \<Rightarrow> string \<times> nat" where
  "edit_key c (l, h) (Key ch) = (l @ [ch], h)"
| "edit_key c (l, h) Erase = (butlast l, h)"
| "edit_key c (l, h) Up = (if h < g_history_count c then (g_history c ! h, h + 1) else (l, h))"
| "edit_key c (l, h) Tab = (l @ completion (cli_node c) l, h)"

definition edit :: "cli \<Rightarrow> key list \<Rightarrow> string" where
  "edit c ks = fst (foldl (edit_key c) ([], 0) ks)"

text \<open>The keys keep every intermediate line below 255 characters.\<close>

definition line_ok :: "string \<Rightarrow> bool" where "line_ok l \<longleftrightarrow> length l < 255 \<and> NUL \<notin> set l"

fun lines_ok :: "cli \<Rightarrow> string \<times> nat \<Rightarrow> key list \<Rightarrow> bool" where
  "lines_ok c x [] \<longleftrightarrow> line_ok (fst x)"
| "lines_ok c x (k # ks) \<longleftrightarrow> line_ok (fst x) \<and> (\<forall>ch. k = Key ch \<longrightarrow> plain_key ch) \<and> lines_ok c (edit_key c x k) ks"

definition only_printed :: "cli \<Rightarrow> cli \<Rightarrow> bool" where
  "only_printed c c' \<longleftrightarrow> (\<exists>t. c' = c\<lparr>screen := t\<rparr>)"

lemma only_printed_out [simp]: "only_printed c c' \<Longrightarrow> only_printed c (out t c')" "only_printed c c' \<Longrightarrow> only_printed c (out_all ts c')"
  by (auto simp: only_printed_def out_def out_all_def)

lemma only_printedD:
  "only_printed c c' \<Longrightarrow> cli_node c' = cli_node c \<and> g_history c' = g_history c \<and> g_history_count c' = g_history_count c"
  by (auto simp: only_printed_def)

lemma c_string_take: "NUL \<notin> set l \<Longrightarrow> c_string (l @ NUL # r) = l"
  unfolding c_string_def by (subst takeWhile_append2) auto

lemma array_at: "take (length l) buf = l \<Longrightarrow> length l < length buf \<Longrightarrow> buf[length l := x] = l @ x # drop (length l + 1) buf"
  by (metis upd_conv_take_nth_drop Suc_eq_plus1)

lemma suggestions_fit:
  assumes "suggestions s line (length line) = Some (Inr (ws, n))" "w \<in> set ws"
  shows "n \<le> length w"
proof -
  have "n \<le> length w" if "w \<in> set (matching n m xs)" "n \<le> length m" for m xs
  proof -
    have "take n w = take n m" using that(1) by (simp add: matching_def strncmp_eq_def)
    then have "length (take n w) = n" using that(2) by simp
    then show ?thesis by simp
  qed
  then show ?thesis
    using assms by (fastforce simp: suggestions_def Let_def bind_eq_Some_conv split: option.splits if_splits)
qed

lemma tab_step:
  assumes buf: "length buf = 256" "take (length l) buf = l" and l: "line_ok l" "line_ok (l @ completion (cli_node c) l)"
    and sug: "suggestions (cli_node c) l (length l) \<noteq> None"
  shows "\<exists>buf' c'. handle_tab_completion prompt buf (length l) c = Some (buf', length (l @ completion (cli_node c) l), c') \<and>
    length buf' = 256 \<and> take (length (l @ completion (cli_node c) l)) buf' = l @ completion (cli_node c) l \<and> only_printed c c'"
proof -
  have b: "buf[length l := NUL] = l @ NUL # drop (length l + 1) buf" using buf l by (intro array_at) (simp_all add: line_ok_def)
  have line: "c_string (buf[length l := NUL]) = l" unfolding b using l(1) by (simp add: c_string_take line_ok_def)
  have p: "only_printed c (out t c)" "only_printed c (out_all ts c)" "only_printed c c" for t ts
    by (auto simp: only_printed_def out_def out_all_def) (metis cli.surjective cli.update_convs(5))
  obtain r where r: "suggestions (cli_node c) l (length l) = Some r" using sug by auto
  note h = handle_tab_completion_def[of prompt buf "length l" c, unfolded Let_def line r bind.bind_lunit]
  have t: "length (buf[length l := NUL]) = 256" "take (length l) (buf[length l := NUL]) = l" using buf by simp_all
  show ?thesis
  proof (cases "\<exists>w n. r = Inr ([w], n)")
    case True
    then obtain w n where w: "r = Inr ([w], n)" by blast
    have n: "n \<le> length w" using suggestions_fit[OF r[unfolded w], of w] by simp
    have c: "completion (cli_node c) l = drop n w" by (simp add: completion_def r w)
    let ?b = "take (length l) (buf[length l := NUL]) @ drop n w @ [NUL] @ drop (length l + length (drop n w) + 1) (buf[length l := NUL])"
    have fit: "length l + length (drop n w) < 255" using l(2) unfolding c by (simp add: line_ok_def)
    have "handle_tab_completion prompt buf (length l) c = Some (?b, length (c_string ?b), out (drop n w) c)"
      unfolding h w using n fit t(1) by (simp add: Let_def)
    moreover have bs: "?b = (l @ drop n w) @ NUL # drop (length l + length (drop n w) + 1) (buf[length l := NUL])" using t(2) by simp
    moreover have "c_string ?b = l @ drop n w" unfolding bs by (rule c_string_take) (use l(2) c in \<open>simp add: line_ok_def\<close>)
    moreover have "length ?b = 256" using fit t(1) buf(1) by simp
    ultimately show ?thesis unfolding c using p by auto
  next
    case False
    then have "completion (cli_node c) l = []" by (auto simp: completion_def r split: sum.splits list.splits)
    moreover have "\<exists>c'. handle_tab_completion prompt buf (length l) c = Some (buf[length l := NUL], length l, c') \<and> only_printed c c'"
    proof (cases r)
      case (Inl hint)
      then show ?thesis unfolding h using p by auto
    next
      case (Inr x)
      obtain ws n where x: "x = (ws, n)" by (cases x)
      then consider "ws = []" | a b ys where "ws = a # b # ys" using False Inr by (metis list.exhaust)
      then show ?thesis unfolding h Inr x using p by cases auto
    qed
    ultimately show ?thesis using t by auto
  qed
qed

lemma edit_step:
  assumes buf: "length buf = 256" "take (length l) buf = l" and l: "line_ok l" "line_ok (fst (edit_key c (l, h) k))"
    and k: "\<forall>ch. k = Key ch \<longrightarrow> plain_key ch" and sug: "\<And>t. suggestions (cli_node c) t (length t) \<noteq> None" and p: "only_printed c c2"
  shows "\<exists>buf' c'. get_line_loop prompt h (length l) buf (key_bytes k @ inp) c2 =
      get_line_loop prompt (snd (edit_key c (l, h) k)) (length (fst (edit_key c (l, h) k))) buf' inp c' \<and>
    length buf' = 256 \<and> take (length (fst (edit_key c (l, h) k))) buf' = fst (edit_key c (l, h) k) \<and> only_printed c c'"
proof -
  have pos: "length l < length buf - 1" using buf(1) l(1) by (simp add: line_ok_def)
  note key = get_line_key[OF pos, of _ prompt h inp c2] and same = only_printedD[OF p]
  show ?thesis
  proof (cases k)
    case (Key ch)
    have b: "buf[length l := ch] = l @ ch # drop (length l + 1) buf" using buf pos by (intro array_at) simp_all
    have "get_line_loop prompt h (length l) buf (key_bytes k @ inp) c2 = get_line_loop prompt h (length (l @ [ch])) (buf[length l := ch]) inp (out [ch] c2)"
      using key(4)[of ch] k Key by simp
    moreover have "take (length (l @ [ch])) (buf[length l := ch]) = l @ [ch]" "length (buf[length l := ch]) = 256"
      using buf(1) unfolding b using pos by simp_all
    ultimately show ?thesis using p Key by (intro exI[of _ "buf[length l := ch]"] exI[of _ "out [ch] c2"]) simp
  next
    case Erase
    have "get_line_loop prompt h (length l) buf (key_bytes k @ inp) c2 =
        get_line_loop prompt h (length (butlast l)) buf inp (if length l > 0 then out [CHR 0x08, SP, CHR 0x08] c2 else c2)"
      using key(2)[of "CHR 0x7F"] Erase by (simp add: erase_key_def)
    moreover have "take (length (butlast l)) buf = butlast l"
    proof -
      have "take (length l - 1) buf = take (length l - 1) (take (length l) buf)" by (simp add: min_def)
      then show ?thesis unfolding buf(2) by (simp add: butlast_conv_take)
    qed
    ultimately show ?thesis using p Erase buf(1)
      by (intro exI[of _ buf] exI[of _ "if length l > 0 then out [CHR 0x08, SP, CHR 0x08] c2 else c2"]) auto
  next
    case Up
    show ?thesis
    proof (cases "h < g_history_count c")
      case True
      let ?t = "g_history c ! h"
      have t: "length ?t < 255" using l(2) Up True by (simp add: line_ok_def)
      have "get_line_loop prompt h (length l) buf (key_bytes k @ inp) c2 =
          get_line_loop prompt (h + 1) (length ?t) (?t @ [NUL] @ drop (length ?t + 1) buf) inp (out ([CHR 0x0D] @ prompt @ [ESC] @ ''[K'' @ ?t) c2)"
        using get_line_escape(1)[OF pos, of prompt h "CHR ''[''" "CHR ''A''" inp c2] Up True t buf(1) same by (simp add: Let_def)
      moreover have "length (?t @ [NUL] @ drop (length ?t + 1) buf) = 256" "take (length ?t) (?t @ [NUL] @ drop (length ?t + 1) buf) = ?t"
        using t buf(1) by simp_all
      ultimately show ?thesis using p Up True by (metis edit_key.simps(3) fst_conv snd_conv only_printed_out(1))
    next
      case False
      then have "get_line_loop prompt h (length l) buf (key_bytes k @ inp) c2 = get_line_loop prompt h (length l) buf inp c2"
        using get_line_escape(1)[OF pos, of prompt h "CHR ''[''" "CHR ''A''" inp c2] Up same by simp
      then show ?thesis using p Up False buf by auto
    qed
  next
    case Tab
    have n: "cli_node c2 = cli_node c" using same by simp
    obtain buf' c' where t: "handle_tab_completion prompt buf (length l) c2 = Some (buf', length (l @ completion (cli_node c) l), c')"
        "length buf' = 256" "take (length (l @ completion (cli_node c) l)) buf' = l @ completion (cli_node c) l" "only_printed c2 c'"
      using tab_step[OF buf l(1), of c2 prompt] l(2) sug[of l] Tab unfolding n by auto
    have "only_printed c c'" using p t(4) by (auto simp: only_printed_def)
    then show ?thesis using key(3)[of "CHR 0x09"] Tab t(1-3) by (auto simp: tab_key_def)
  qed
qed

lemma edit_all:
  "lines_ok c (l, h) ks \<Longrightarrow> length buf = 256 \<Longrightarrow> take (length l) buf = l \<Longrightarrow> only_printed c c2 \<Longrightarrow>
   (\<And>t. suggestions (cli_node c) t (length t) \<noteq> None) \<Longrightarrow>
   \<exists>buf' c'. get_line_loop prompt h (length l) buf (concat (map key_bytes ks) @ [NL] @ inp) c2 =
       Some (int (length (fst (foldl (edit_key c) (l, h) ks))), buf', inp, c') \<and>
     cstr buf' = Some (fst (foldl (edit_key c) (l, h) ks)) \<and> only_printed c c'"
proof (induction ks arbitrary: l h buf c2)
  case Nil
  have l: "length l < length buf - 1" "NUL \<notin> set l" using Nil(1,2) by (simp_all add: line_ok_def)
  have b: "buf[length l := NUL] = l @ NUL # drop (length l + 1) buf" using Nil l by (intro array_at) simp_all
  have "cstr (buf[length l := NUL]) = Some l" unfolding b using l(2) by (simp add: cstr_def c_string_take)
  then show ?case using get_line_key(1)[OF l(1), of NL prompt h inp c2] Nil(4) by (auto simp: enter_key_def)
next
  case (Cons k ks)
  obtain l' h' where e: "edit_key c (l, h) k = (l', h')" by fastforce
  have l': "lines_ok c (l', h') ks" using Cons.prems(1) e by simp
  then have "line_ok l'" by (cases ks) simp_all
  then obtain buf' c' where s: "get_line_loop prompt h (length l) buf (key_bytes k @ concat (map key_bytes ks) @ [NL] @ inp) c2 =
      get_line_loop prompt h' (length l') buf' (concat (map key_bytes ks) @ [NL] @ inp) c'"
      "length buf' = 256" "take (length l') buf' = l'" "only_printed c c'"
    using edit_step[OF Cons.prems(2,3), of c h k c2 prompt "concat (map key_bytes ks) @ [NL] @ inp"] Cons.prems(1,4,5) e by auto
  show ?case using Cons.IH[OF l' s(2-4) Cons.prems(5)] s(1) e by simp
qed

text \<open>
  C23 The line editor works as the abstract one: typing keys, erasing, calling up history and completing, then enter, gives
  the line the abstract editor has, terminated in the array, and the rest of the input is left. Only the screen changes.
  (As long as no intermediate line has 255 characters.)
\<close>

theorem advanced_get_line_edits:
  assumes "length buf = 256" "lines_ok c ([], 0) ks" "\<And>t. suggestions (cli_node c) t (length t) \<noteq> None"
  shows "\<exists>buf' c'. advanced_get_line prompt buf (concat (map key_bytes ks) @ [NL] @ inp) c = Some (int (length (edit c ks)), buf', inp, c') \<and>
    cstr buf' = Some (edit c ks) \<and> only_printed c c'"
proof -
  have p: "only_printed c (out prompt c)" by (auto simp: only_printed_def out_def)
  show ?thesis using edit_all[OF assms(2,1) _ p assms(3), of prompt inp] by (simp add: advanced_get_line_def edit_def)
qed

lemma all_rows_Some: "(\<And>x. x \<in> set xs \<Longrightarrow> f x \<noteq> None) \<Longrightarrow> \<exists>ys. all_rows f xs = Some ys"
  by (induction xs) (auto simp: bind_eq_Some_conv)

lemma suggestions_defined:
  assumes "\<forall>i \<in> set (loaded_info s). comps s (info_comp i) \<noteq> None"
  shows "suggestions s line n \<noteq> None"
proof -
  have "\<exists>ws. tab_words s line k = Some ws" for k
    using assms all_rows_Some[of "loaded_info s" "\<lambda>i. map_option comp_name (comps s (info_comp i))"] by (simp add: tab_words_def)
  then obtain ws where "\<And>k. tab_words s line k = Some (ws k)" by metis
  then show ?thesis by (simp add: suggestions_def Let_def split: option.split)
qed

theorem advanced_get_line_edits_witness:
  "\<exists>buf' c'. advanced_get_line ''> '' (replicate 256 (CHR ''x'')) (''qx'' @ [CHR 0x7F] @ ''u'' @ [CHR 0x09, NL] @ ''help'') sample_cli =
       Some (4, buf', ''help'', c') \<and> cstr buf' = Some ''quit'' \<and> only_printed sample_cli c'"
proof -
  let ?ks = "[Key CHR ''q'', Key CHR ''x'', Erase, Key CHR ''u'', Tab]"
  have tops: "matching 2 ''qu'' cmd_names = [''quit'']" by (simp add: matching_def strncmp_eq_def cmd_names_list)
  have "suggestions (cli_node sample_cli) ''qu'' 2 = Some (Inr ([''quit''], 2))"
    using tops by (simp add: suggestions_def cmd_names_def Let_def)
  then have c: "completion (cli_node sample_cli) ''qu'' = ''it''" by (simp add: completion_def numeral_2_eq_2)
  have l: "lines_ok sample_cli ([], 0) ?ks"
    by (simp add: c line_ok_def plain_key_def enter_key_def erase_key_def tab_key_def ESC_def)
  have s: "suggestions (cli_node sample_cli) t (length t) \<noteq> None" for t
    by (rule suggestions_defined) (simp add: sample_cli_def perf_sample_def sys_sample_def)
  have e: "edit sample_cli ?ks = ''quit''" by (simp add: edit_def c)
  show ?thesis
    using advanced_get_line_edits[of "replicate 256 (CHR ''x'')", OF _ l s, of "''> ''" "''help''"] unfolding e by simp
qed

text \<open>
  A line of 255 characters is not terminated: the editor stops at the end of the array without writing the last byte, so
  unless that byte happens to be 0 the code that looks for the command reads past the array.
\<close>

theorem full_line_not_terminated:
  assumes "length buf = 256" "length ks = 255" "\<forall>ch \<in> set ks. plain_key ch \<and> ch \<noteq> NUL" "last buf \<noteq> NUL"
  shows "\<exists>c'. advanced_get_line prompt buf (ks @ inp) c = Some (255, ks @ [last buf], inp, c') \<and> exec_line True (ks @ [last buf]) c' = None"
proof -
  have step: "\<exists>c'. get_line_loop prompt 0 n (take n ks @ drop n buf) (drop n ks @ inp) c2 = Some (255, ks @ [last buf], inp, c')" if "n \<le> 255" for n c2
    using that
  proof (induction "255 - n" arbitrary: n c2)
    case 0
    have "drop 255 buf = [last buf]" using assms(1) by (metis append_butlast_last_id append_eq_conv_conj diff_Suc_1 length_butlast
        list.size(3) zero_neq_numeral numeral_eq_Suc pred_numeral_simps(2) semiring_norm(26) semiring_norm(27) semiring_norm(28))
    then show ?case using 0 assms(1,2) get_line_end[of "take n ks @ drop n buf" n prompt 0 inp c2] by simp
  next
    case (Suc d)
    then have n: "n < 255" by simp
    let ?b = "take n ks @ drop n buf"
    have pos: "n < length ?b - 1" using n assms(1,2) by simp
    have k: "drop n ks @ inp = ks ! n # (drop (Suc n) ks @ inp)" using n assms(2) by (simp add: Cons_nth_drop_Suc)
    have b: "?b[n := ks ! n] = take (Suc n) ks @ drop (Suc n) buf"
      using n assms(1,2) by (simp add: list_update_append take_Suc_conv_app_nth Cons_nth_drop_Suc[symmetric])
    have "plain_key (ks ! n)" using assms(2,3) n by simp
    then have "get_line_loop prompt 0 n ?b (drop n ks @ inp) c2 =
        get_line_loop prompt 0 (n + 1) (take (Suc n) ks @ drop (Suc n) buf) (drop (Suc n) ks @ inp) (out [ks ! n] c2)"
      using get_line_key(4)[OF pos, of "ks ! n" prompt 0 "drop (Suc n) ks @ inp" c2] unfolding k b by simp
    moreover have "d = 255 - Suc n" using Suc(2) by simp
    ultimately show ?case using Suc(1)[of "Suc n"] n by simp
  qed
  have "NUL \<notin> set (ks @ [last buf])" using assms(3,4) by auto
  then have "cstr (ks @ [last buf]) = None" by (simp add: cstr_def)
  then show ?thesis using step[of 0 "out prompt c"] by (auto simp: advanced_get_line_def exec_line_def)
qed

theorem full_line_not_terminated_witness:
  "\<exists>c'. advanced_get_line ''> '' (replicate 256 (CHR ''x'')) (replicate 255 (CHR ''a'') @ ''b'') sample_cli =
       Some (255, replicate 255 (CHR ''a'') @ [CHR ''x''], ''b'', c') \<and> exec_line True (replicate 255 (CHR ''a'') @ [CHR ''x'']) c' = None"
  using full_line_not_terminated[of "replicate 256 (CHR ''x'')" "replicate 255 (CHR ''a'')" "''> ''" "''b''" sample_cli]
  by (simp add: plain_key_def enter_key_def erase_key_def tab_key_def ESC_def)

end
