(* ===== verification/CliRun.thy ===== *)
theory CliRun
  imports CliClaims
begin

text \<open>
  Commands running in the node: what the show commands need and change, and the two performance tests from the line typed
  to what the components make of it.
\<close>

section \<open>Commands that only print\<close>


definition one_loaded :: sys_node where
  "one_loaded = (sys_sample [Worker 0 \<mapsto> (sample_thread [])\<lparr>components := replicate MAX_COMP_PER_THREAD NULL, component_count := 0\<rparr>]
     empty_registry [7 \<mapsto> sample_comp Comp_ping 10] Map.empty (sample_msg 5))\<lparr>loaded_info :=
       [\<lparr>info_comp = 7, info_handle = 6, info_lib_name = ''libcomp-ping.so'', info_owner = Worker 0\<rparr>]\<rparr>"


section \<open>Sending a command\<close>

lemma cli_node_history [simp]: "cli_node (history_add l c) = cli_node c"
  by (simp add: history_add_def)

lemma cli_node_out [simp]: "cli_node (out t c) = cli_node c"
  by (simp add: out_def)

lemma fill_command_simps:
  "dst_service (fill_command d k as m) = d" "msg_code (fill_command d k as m) = k"
  "payload_len (fill_command d k [n] m) = 4" "payload_len (fill_command d k [n, n'] m) = 8"
  "get_u32 0 (msg_payload (fill_command d k [n] m)) = n"
  "get_u32 0 (msg_payload (fill_command d k [n, n'] m)) = n" "get_u32 4 (msg_payload (fill_command d k [n, n'] m)) = n'"
  by (simp_all add: fill_command_def get_put_u32 get_put_u32_other)

text \<open>A command sent from a quiet node is alone in the queue of its receiver.\<close>

lemma command_in_flight:
  assumes own: "owned s []" "no_msg s" and room: "pool_room (28 + of_nat (4 * length args)) (bufs s)"
    and route: "reg_route (registry s) dst = Some (Local p (Some r))" "threads s r \<noteq> None" and c: "cli_node c = s"
  shows "\<exists>b m s'. cli_node (send_command dst code args t c) = s' \<and> settled s s' \<and> privs s' = privs s \<and> only_msg s' r b \<and>
     msgs s' b = fill_command dst code args m"
proof -
  let ?sz = "28 + of_nat (4 * length args) :: u32" and ?f = "fill_command dst code args"
  have held: "pool_held (bufs s) x = 0" for x using no_msg_held[OF own(1,2), of "fst x" "snd x"] by simp
  have "\<exists>x p. nos_buffer_alloc ?sz 0 (bufs s) = Some (x, p)" by (rule room_alloc[OF ownedD(1)[OF own(1)] room]) (use held in simp)
  then have al: "node_alloc (Inl (?sz, 0)) s \<noteq> None" by (auto simp: node_alloc_def)
  have s': "cli_node (send_command dst code args t c) = post_msg ?sz ?f s" using al c by (auto simp: send_command_def Let_def)
  obtain b m where b: "only_msg (post_msg ?sz ?f s) r b" "msgs (post_msg ?sz ?f s) b = ?f m"
      "pool_shape (bufs (post_msg ?sz ?f s)) = pool_shape (bufs s)"
    using post_in_flight[OF own(1) _ own(2) room _ route(2), where fill = ?f and c = p] route(1) by (auto simp: fill_command_simps)
  note o = outer_post[of ?sz ?f s]
  have "heap_of (post_msg ?sz ?f s) = heap_of s" by (rule outerD[OF o])
  then have "threads (post_msg ?sz ?f s) x = None \<longleftrightarrow> threads s x = None" for x by (auto simp: heap_of_def dest!: fun_cong[of _ _ x])
  then have "settled s (post_msg ?sz ?f s)" using owned_post[OF own(1), of ?sz ?f] outerD(5,6)[OF o] b(3) by (simp add: settled_def)
  then show ?thesis using s' b outerD(9)[OF o] by blast
qed

lemma cli_line: "NUL \<notin> set l \<Longrightarrow> cstr (l @ NUL # junk) = Some l"
  by (simp add: cstr_def c_string_take)

lemma dec_no_NUL: "NUL \<notin> set (dec n)" "SP \<notin> set (dec n)"
  using dec_chars by (auto simp: is_digit_def dest!: dec_chars)

text \<open>A quiet node with two threads.\<close>

definition quiet_node :: "service_registry \<Rightarrow> (ptr \<rightharpoonup> nos_component) \<Rightarrow> (ptr \<rightharpoonup> comp_priv) \<Rightarrow> sys_node" where
  "quiet_node reg cs ps =
     (sys_sample (\<lambda>r. if r = Worker 0 \<or> r = Worker 1 then threads idle_node (Worker 0) else None) reg cs ps (sample_msg 5))\<lparr>bufs := sample_pool\<rparr>"

lemma quiet_node_simps [simp]:
  "registry (quiet_node reg cs ps) = reg" "comps (quiet_node reg cs ps) = cs" "privs (quiet_node reg cs ps) = ps"
  "bufs (quiet_node reg cs ps) = sample_pool" "conns (quiet_node reg cs ps) = []" "loaded_info (quiet_node reg cs ps) = []"
  by (simp_all add: quiet_node_def) (simp add: sys_sample_def)

lemma quiet_node_ok:
  "owned (quiet_node reg cs ps) []" "no_msg (quiet_node reg cs ps)" "pool_room 36 (bufs (quiet_node reg cs ps))"
  "threads (quiet_node reg cs ps) (Worker 0) \<noteq> None" "threads (quiet_node reg cs ps) (Worker 1) \<noteq> None"
proof -
  have "threads (quiet_node reg cs ps) r = (if r = Worker 0 \<or> r = Worker 1 then threads idle_node (Worker 0) else None)" for r
    by (simp add: quiet_node_def)
  then have th: "threads (quiet_node reg cs ps) r = Some th \<Longrightarrow> r \<in> {Worker 0, Worker 1} \<and> queue_ok th \<and> thread_msgs th = []" for r th
    using worker_threads(2)[of "Worker 0" th] by (metis insertCI option.distinct(1))
  have q: "node_queue (quiet_node reg cs ps) = (\<lambda>_. [])" using th by (fastforce simp: node_queue_def fun_eq_iff split: option.splits)
  then show "no_msg (quiet_node reg cs ps)" by (simp add: no_msg_def)
  show "owned (quiet_node reg cs ps) []"
  proof (rule ownedI)
    show "r \<in> set flow_threads \<and> queue_ok th" if "threads (quiet_node reg cs ps) r = Some th" for r th
      using th[OF that] by (auto simp: flow_threads_def MAX_WORKERS_def)
  qed (simp_all add: q sample_pool_ok)
  have "0 < g_bin_count sample_pool \<and> 36 \<le> chunk_size (g_bins sample_pool ! 0) \<and> 2 \<le> unat (chunk_count (g_bins sample_pool ! 0))"
    by code_simp
  then show "pool_room 36 (bufs (quiet_node reg cs ps))" unfolding pool_room_def quiet_node_simps by blast
  show "threads (quiet_node reg cs ps) (Worker 0) \<noteq> None" "threads (quiet_node reg cs ps) (Worker 1) \<noteq> None"
    by (simp_all add: quiet_node_def idle_node_def msg_node_def)
qed

lemma smaller_room: "sz \<le> 36 \<Longrightarrow> pool_room 36 p \<Longrightarrow> pool_room sz p"
  unfolding pool_room_def by (meson order_trans)

section \<open>The performance tests\<close>

lemma perf_runs:
  assumes node: "perf_node r1 r2 p q (cli_node c)" "no_msg (cli_node c)" "pool_room 32 (bufs (cli_node c))"
    and p: "privs (cli_node c) p = Some (Priv_ping t0 n0 k0)" and n: "0 < n" "n < 2 ^ 31"
  shows "\<exists>c' s' t. exec_line tty (''perf start '' @ dec n @ NUL # junk) c = Some c' \<and>
     ping_test n r1 r2 (cli_node c') = Returned s' \<and> privs s' p = Some (Priv_ping t (of_nat n) (of_nat n)) \<and>
     (\<forall>r. node_queue s' r = []) \<and> (\<forall>i j. pool_held (bufs s') (i, j) = 0)"
proof -
  let ?s = "cli_node c" and ?n = "of_nat n :: u32"
  define l where "l = ''perf start'' @ [SP] @ dec n"
  define t where "t = ''[CLI] Triggering specialized performance test with '' @ dec_word ?n @ '' iterations...'' @ [NL]"
  have un: "unat ?n = n" using n(2) by (simp add: unat_of_nat take_bit_nat_eq_self)
  then have n0: "?n \<noteq> 0" using n(1) by auto
  have "NUL \<notin> set l" using dec_no_NUL by (simp add: l_def)
  then have line: "cstr (''perf start '' @ dec n @ NUL # junk) = Some (''perf start'' @ [SP] @ dec n)"
    using cli_line[of l junk] by (simp add: l_def)
  have cmd: "(''perf start'', ''Start IPC performance test'', Perf_start) \<in> set g_cli_cmds" by (simp add: g_cli_cmds_def)
  have run: "exec_line tty (''perf start '' @ dec n @ NUL # junk) c = Some (send_command SVC_PING 3001 [?n] t (history_add l c))"
    unfolding exec_line_args(1)[OF line cmd] l_def[symmetric] t_def exec_cmd.simps
    using exec_line_args(2)[OF line cmd] n0 atoi_dec[OF n(2)] by (simp add: do_perf_start_def Let_def)
  have own: "owned ?s []" "reg_route (registry ?s) SVC_PING = Some (Local p (Some r1))" "threads ?s r1 \<noteq> None"
    using node(1) by (simp_all add: perf_node_def)
  have room: "pool_room (28 + of_nat (4 * length [?n])) (bufs ?s)" using node(3) by simp
  obtain b m s1 where s1: "cli_node (send_command SVC_PING 3001 [?n] t (history_add l c)) = s1" "settled ?s s1" "privs s1 = privs ?s"
      "only_msg s1 r1 b" "msgs s1 b = fill_command SVC_PING 3001 [?n] m"
    using command_in_flight[OF own(1) node(2) room own(2,3) cli_node_history, where code = 3001] by metis
  have m: "dst_service (msgs s1 b) = SVC_PING" "msg_code (msgs s1 b) = 3001" "4 \<le> payload_len (msgs s1 b)"
      "?n = get_u32 0 (msg_payload (msgs s1 b))" unfolding s1(5) by (simp_all add: fill_command_simps)
  have "privs s1 p = Some (Priv_ping t0 n0 k0)" using p s1(3) by simp
  from ping_test_ends[OF perf_settled[OF node(1) s1(2)] s1(4) this m] obtain s' t' where
    "ping_test (max 1 (unat ?n)) r1 r2 s1 = Returned s'" "privs s' p = Some (Priv_ping t' ?n (max 1 ?n))"
    "\<forall>r. node_queue s' r = []" "\<forall>i j. pool_held (bufs s') (i, j) = 0" by blast
  moreover have "max 1 (unat ?n) = n" "max 1 ?n = ?n" using un n(1) n0 by (auto simp: max_def word_le_nat_alt)
  ultimately show ?thesis using run s1(1) by auto
qed

text \<open>
  From the command line to the end of the test: on a quiet node that runs ping and pong on two threads, with room for two
  messages, the line \<open>perf start n\<close> makes them exchange exactly \<open>n\<close> messages each way, after which nothing is left in a
  queue and every buffer is free.
\<close>

theorem perf_start_runs_test:
  assumes node: "perf_node r1 r2 p q (cli_node c)" "no_msg (cli_node c)" "pool_room 32 (bufs (cli_node c))"
    and p: "privs (cli_node c) p = Some (Priv_ping t0 n0 k0)" and n: "0 < n" "n < 2 ^ 31"
  shows "\<exists>c' s' t. exec_line tty (''perf start '' @ dec n @ NUL # junk) c = Some c' \<and>
     ping_test n r1 r2 (cli_node c') = Returned s' \<and> privs s' p = Some (Priv_ping t (of_nat n) (of_nat n)) \<and>
     (\<forall>r. node_queue s' r = []) \<and> (\<forall>i j. pool_held (bufs s') (i, j) = 0)"
  by (rule perf_runs[OF assms])

theorem perf_start_runs_test_witness:
  "\<exists>c' s' t. exec_line True (''perf start 7'' @ [NUL])
       (sample_cli\<lparr>cli_node := quiet_node perf_registry [7 \<mapsto> sample_comp Comp_ping 10, 8 \<mapsto> sample_comp Comp_pong 11] [7 \<mapsto> Priv_ping 0 0 0]\<rparr>) = Some c' \<and>
     ping_test 7 (Worker 0) (Worker 1) (cli_node c') = Returned s' \<and> privs s' 7 = Some (Priv_ping t 7 7) \<and> (\<forall>r. node_queue s' r = [])"
proof -
  let ?s = "quiet_node perf_registry [7 \<mapsto> sample_comp Comp_ping 10, 8 \<mapsto> sample_comp Comp_pong 11] [7 \<mapsto> Priv_ping 0 0 0]"
  let ?c = "sample_cli\<lparr>cli_node := ?s\<rparr>"
  have room: "pool_room 32 (bufs ?s)" "pool_room 28 (bufs ?s)" using smaller_room quiet_node_ok(3) by simp_all
  have "reg_route perf_registry 111 = Some (Local 7 (Some (Worker 0)))" "reg_route perf_registry 112 = Some (Local 8 (Some (Worker 1)))"
    by code_simp+
  then have "perf_node (Worker 0) (Worker 1) 7 8 ?s"
    using quiet_node_ok(1,4,5) room by (simp add: perf_node_def SVC_PING_def SVC_PONG_def)
  then have "perf_node (Worker 0) (Worker 1) 7 8 (cli_node ?c)" "no_msg (cli_node ?c)" "pool_room 32 (bufs (cli_node ?c))"
      "privs (cli_node ?c) 7 = Some (Priv_ping 0 0 0)" using quiet_node_ok(2) room by simp_all
  note t = perf_start_runs_test[OF this, of 7 True "[]"]
  have d: "''perf start '' @ dec 7 @ [NUL] = ''perf start 7'' @ [NUL]" by code_simp
  show ?thesis using t unfolding d by auto
qed

lemma scan_two_dec:
  assumes "n < 2 ^ 32" "m < 2 ^ 32"
  shows "scan_two (dec n @ [SP] @ dec m) x y = Some (of_nat n, of_nat m)"
proof -
  have "scan_u32 (dec n @ [SP] @ dec m) = Some (Some (of_nat n, [SP] @ dec m))"
    by (rule scan_u32_dec[OF assms(1)]) (simp add: is_digit_def)
  moreover have "scan_int ([SP] @ dec m) = scan_int (dec m)" by (simp add: scan_int_def is_space_def)
  then have "scan_u32 ([SP] @ dec m) = Some (Some (of_nat m, []))"
    using scan_u32_dec[OF assms(2), of "[]"] by (simp add: scan_u32_def)
  ultimately show ?thesis by (simp add: scan_two_def)
qed

lemma rping_overflow:
  fixes s :: sys_node
  assumes own: "owned s [b]" "no_msg s" and room: "pool_room 36 (bufs s)"
    and c: "comps s p = Some cp" "privs s p = Some (Priv_rping t0 n0 k0 z0)"
    and m: "msg_code m = 3001" "payload_len m = 8" "2 ^ 32 \<le> unat (get_u32 4 (msg_payload m)) + 28"
  shows "rping_on_msg p m s = None"
proof -
  let ?z = "get_u32 4 (msg_payload m)"
  have small: "28 + ?z < 28" using m(3) unsigned_less[of ?z, where 'a = nat]
    by (simp add: word_less_nat_alt unat_word_ariths le_mod_geq)
  define u where "u = set_priv p (Some (Priv_rping (fst (get_now_ns s)) (get_u32 0 (msg_payload m)) 0 ?z)) s"
  have "post_remote SVC_REMOTE_PONG 2001 0xAA ?z cp v = None" if v: "same_flow s v" for v
  proof -
    have o: "owned v [b]" "no_msg v" "bufs v = bufs s" using own v owned_same_flow[OF v] no_msg_flow[OF v] by (simp_all add: same_flow_def)
    have held: "pool_held (bufs v) (i, j) \<noteq> 0 \<Longrightarrow> PoolBuf i j = b" for i j
      using no_msg_held[OF o(1,2), of i j] by (auto split: if_splits)
    have "\<exists>r0. \<forall>r. pool_held (bufs v) r \<noteq> 0 \<longrightarrow> r = r0"
      using held by (cases b) (metis buf_ref.inject(1) prod.exhaust, metis buf_ref.distinct(1) prod.exhaust)
    then obtain r0 where r0: "\<And>r. pool_held (bufs v) r \<noteq> 0 \<Longrightarrow> r = r0" by blast
    have "pool_room (28 + ?z) (bufs v)"
    proof -
      have "28 + ?z \<le> x" if "36 \<le> x" for x
      proof -
        have "(28 :: u32) \<le> 36" by simp
        then show ?thesis using small that by (meson order.strict_trans2 order_less_imp_le order_trans)
      qed
      then show ?thesis using room o(3) unfolding pool_room_def by auto
    qed
    from room_alloc[OF ownedD(1)[OF o(1)] this r0] have "nos_buffer_alloc (28 + ?z) 0 (bufs v) \<noteq> None" by blast
    then have "alloc_remote (28 + ?z) v \<noteq> None" by (auto simp: alloc_remote_def node_alloc_def split: option.splits)
    moreover have "28 + unat ?z > unat (buf_capacity w x)" for w :: sys_node and x
      using m(3) unsigned_less[of "buf_capacity w x", where 'a = nat] by simp
    ultimately show ?thesis by (auto simp: post_remote_def Let_def split: option.splits)
  qed
  then show ?thesis using c m(1,2) by (simp add: rping_on_msg_def Let_def remote_send_ping_def case_prod_beta)
qed

text \<open>
  C37 The remote test can be started with a size that corrupts memory: for \<open>perf remote n m\<close> with \<open>m\<close> so close to \<open>2 ^ 32\<close> that
  adding the header overflows, the command is accepted, and the component that gets it writes past the end of a small
  buffer as soon as it handles the message.
\<close>

theorem perf_remote_corrupts_memory:
  assumes node: "owned (cli_node c) []" "no_msg (cli_node c)" "pool_room 36 (bufs (cli_node c))"
    and route: "reg_route (registry (cli_node c)) SVC_REMOTE_PING = Some (Local p (Some r))" "p \<noteq> NULL" "threads (cli_node c) r \<noteq> None"
    and comp: "comps (cli_node c) p = Some cp" "comp_on_msg cp = fn_ptr Comp_rping Fn_on_msg"
      "privs (cli_node c) p = Some (Priv_rping t0 n0 k0 z0)"
    and n: "0 < n" "n < 2 ^ 32" "m < 2 ^ 32" "2 ^ 32 \<le> m + 28"
  shows "\<exists>c' s'. exec_line tty (''perf remote '' @ dec n @ '' '' @ dec m @ NUL # junk) c = Some c' \<and>
     process_thread_messages 1 comp_call_msg r (cli_node c') = Returned s' \<and> crashed s'"
proof -
  let ?s = "cli_node c" and ?n = "of_nat n :: u32" and ?m = "of_nat m :: u32"
  define l where "l = ''perf remote'' @ [SP] @ dec n @ [SP] @ dec m"
  define t where "t = ''[CLI] Triggering cross-process performance test: '' @ dec_word ?n @ '' iterations, '' @ dec_word ?m @
     '' byte payload...'' @ [NL]"
  have un: "unat ?n = n" "unat ?m = m" using n by (simp_all add: unat_of_nat take_bit_nat_eq_self)
  then have n0: "?n \<noteq> 0" using n(1) by auto
  have "NUL \<notin> set l" using dec_no_NUL by (simp add: l_def)
  then have line: "cstr (''perf remote '' @ dec n @ '' '' @ dec m @ NUL # junk) = Some (''perf remote'' @ [SP] @ (dec n @ [SP] @ dec m))"
    using cli_line[of l junk] by (simp add: l_def)
  have cmd: "(''perf remote'', ''Start Cross-Process IPC test'', Perf_remote) \<in> set g_cli_cmds" by (simp add: g_cli_cmds_def)
  have run: "exec_line tty (''perf remote '' @ dec n @ '' '' @ dec m @ NUL # junk) c =
      Some (send_command SVC_REMOTE_PING 3001 [?n, ?m] t (history_add l c))"
    unfolding exec_line_args(1)[OF line cmd] l_def[symmetric] t_def exec_cmd.simps
    using exec_line_args(2)[OF line cmd] n0 scan_two_dec[OF n(2,3)] by (simp add: do_perf_remote_start_def Let_def)
  have room: "pool_room (28 + of_nat (4 * length [?n, ?m])) (bufs ?s)" using node(3) by simp
  obtain b msg s1 where s1: "cli_node (send_command SVC_REMOTE_PING 3001 [?n, ?m] t (history_add l c)) = s1" "settled ?s s1"
      "privs s1 = privs ?s" "only_msg s1 r b" "msgs s1 b = fill_command SVC_REMOTE_PING 3001 [?n, ?m] msg"
    using command_in_flight[OF node(1,2) room route(1,3) cli_node_history, where code = 3001] by metis
  have own: "owned s1 []" "registry s1 = registry ?s" "comps s1 = comps ?s" "pool_shape (bufs s1) = pool_shape (bufs ?s)"
    using s1(2) by (simp_all add: settled_def)
  obtain th th' where th: "threads s1 r = Some th" "thread_pop th = Some (Some b, th')" "owned (upd_thread r (\<lambda>_. th') s1) [b]"
    "no_msg (upd_thread r (\<lambda>_. th') s1)" by (rule take_in_flight[OF own(1) s1(4)])
  let ?u = "upd_thread r (\<lambda>_. th') s1"
  have "pool_room 36 (bufs ?u)"
    using room_shape[OF own(4)] node(3) ownedD(1)[OF node(1)] by (simp add: pool_ok_def)
  then have none: "rping_on_msg p (msgs s1 b) ?u = None"
    using rping_overflow[OF th(3,4) _ _ _, of p cp t0 n0 k0 z0 "msgs s1 b"] comp own(3) s1(3,5) un(2) n(4)
    by (simp add: fill_command_simps)
  define v where "v = ?u\<lparr>crashed := True\<rparr>"
  have "comp_call_msg (fn_ptr Comp_rping Fn_on_msg) p (msgs s1 b) ?u = v"
    using none by (simp add: comp_call_msg_def or_crash_def v_def)
  moreover have "owned v [b]" "threads v r \<noteq> None" "node_queue v r = []"
    using th(1,3,4) by (simp_all add: v_def no_msg_def node_queue_def[abs_def])
  ultimately have "process_thread_messages 1 comp_call_msg r s1 = Returned (nos_buffer_release b v)"
    using run_one[OF th(1,2) _ route(2) _ comp(2), of "Some r" v] own(2,3) route(1) comp(1) s1(5) by (simp add: fill_command_simps)
  moreover have "crashed (nos_buffer_release b v)" by (cases b) (simp_all add: nos_buffer_release_def v_def)
  ultimately show ?thesis using run s1(1) by auto
qed

definition rping_registry :: service_registry where
  "rping_registry = snd (nos_service_register_provider_bind SVC_REMOTE_PING 7 (Some (Worker 0)) empty_registry)"

theorem perf_remote_corrupts_memory_witness:
  "\<exists>c' s'. exec_line True (''perf remote 1 4294967290'' @ [NUL])
       (sample_cli\<lparr>cli_node := quiet_node rping_registry [7 \<mapsto> sample_comp Comp_rping 12] [7 \<mapsto> Priv_rping 0 0 0 0]\<rparr>) = Some c' \<and>
     process_thread_messages 1 comp_call_msg (Worker 0) (cli_node c') = Returned s' \<and> crashed s'"
proof -
  let ?s = "quiet_node rping_registry [7 \<mapsto> sample_comp Comp_rping 12] [7 \<mapsto> Priv_rping 0 0 0 0]"
  let ?c = "sample_cli\<lparr>cli_node := ?s\<rparr>"
  have "reg_route rping_registry SVC_REMOTE_PING = Some (Local 7 (Some (Worker 0)))" by code_simp
  then have h: "owned (cli_node ?c) []" "no_msg (cli_node ?c)" "pool_room 36 (bufs (cli_node ?c))"
      "reg_route (registry (cli_node ?c)) SVC_REMOTE_PING = Some (Local 7 (Some (Worker 0)))" "7 \<noteq> NULL" "threads (cli_node ?c) (Worker 0) \<noteq> None"
      "comps (cli_node ?c) 7 = Some (sample_comp Comp_rping 12)" "comp_on_msg (sample_comp Comp_rping 12) = fn_ptr Comp_rping Fn_on_msg"
      "privs (cli_node ?c) 7 = Some (Priv_rping 0 0 0 0)"
    using quiet_node_ok by simp_all
  have n: "0 < (1 :: nat)" "(1 :: nat) < 2 ^ 32" "(4294967290 :: nat) < 2 ^ 32" "2 ^ 32 \<le> (4294967290 :: nat) + 28" by simp_all
  have "''perf remote '' @ dec 1 @ '' '' @ dec 4294967290 @ [NUL] = ''perf remote 1 4294967290'' @ [NUL]" by (simp add: dec.simps) code_simp
  from perf_remote_corrupts_memory[OF h n, of True "[]", unfolded this] show ?thesis .
qed

end
