(* ===== verification/Manifests.thy ===== *)
theory Manifests
  imports NodeMain
begin

text \<open>
  The manifests of the two sample processes (\<open>src/core/manifest_ProcA.c\<close> and \<open>manifest_ProcB.c\<close>) and the daemon that creates
  the shared memory (\<open>src/core/nos_daemon_main.c\<close>).

  Arrays of a manifest keep their terminators; names that are \<open>NULL\<close> are the empty string.
\<close>

section \<open>Process A\<close>

definition g_local_pools_A :: "nos_buffer_pool_def list" where
  "g_local_pools_A =
     [\<lparr>def_chunk_size = 32, def_chunk_count = 256\<rparr>, \<lparr>def_chunk_size = 64, def_chunk_count = 128\<rparr>,
      \<lparr>def_chunk_size = 128, def_chunk_count = 64\<rparr>, \<lparr>def_chunk_size = 0, def_chunk_count = 0\<rparr>]"

definition svc_def :: "string \<Rightarrow> u32 \<Rightarrow> string \<Rightarrow> u32 \<Rightarrow> string \<Rightarrow> nos_service_def" where
  "svc_def name sid node cid path =
     \<lparr>sd_service_name = name, sd_service_id = sid, sd_node_name = node, sd_provider_comp_id = cid, sd_remote_uds_path = Some path\<rparr>"

definition g_local_services_A :: "nos_service_def list" where
  "g_local_services_A =
     [svc_def ''SVC_REMOTE_PONG'' 114 ''ProcB'' 13 ''/tmp/nos_proc_B.sock'',
      svc_def ''SVC_ROUTING_V6'' 105 ''ProcA'' 5 ''/tmp/nos_proc_A.sock'',
      svc_def ''SVC_TIMER'' 3 ''Platform'' 0 [],
      svc_def ''SVC_PERF_RX'' 110 ''ProcA'' 3 ''/tmp/nos_proc_A.sock'',
      svc_def ''SVC_KV_DB'' 2 ''Platform'' 0 [],
      svc_def ''SVC_LOG'' 1 ''Platform'' 0 [],
      svc_def ''SVC_MGMT'' 101 ''ProcA'' 1 ''/tmp/nos_proc_A.sock'',
      svc_def ''SVC_PING'' 111 ''ProcA'' 10 ''/tmp/nos_proc_A.sock'',
      svc_def ''SVC_PONG'' 112 ''ProcA'' 11 ''/tmp/nos_proc_A.sock'',
      svc_def ''SVC_REMOTE_PING'' 113 ''ProcA'' 12 ''/tmp/nos_proc_A.sock'',
      svc_def ''SVC_DATA_PROC'' 204 ''ProcB'' 4 ''/tmp/nos_proc_B.sock'',
      svc_def ''SVC_ROUTING_V4'' 102 ''ProcA'' 2 ''/tmp/nos_proc_A.sock'']"

definition g_infra_inits_A :: "ptr list" where
  "g_infra_inits_A = [init_ptr Timer_init, init_ptr Log_init, init_ptr Kv_db_init, NULL]"

definition g_local_node_def_A :: nos_node_def where
  "g_local_node_def_A =
     \<lparr>nd_name = ''ProcA'', nd_uds_path = ''/tmp/nos_proc_A.sock'', nd_buffer_pools = g_local_pools_A,
      nd_threads =
        [\<lparr>td_name = ''Worker-1'', td_comp_ids = [1, 3, 10, 12, 0],
          td_comp_names = [''Comp-1'', ''Comp-3'', ''Comp-Ping'', ''Comp-RemotePing'', []],
          td_comp_models = [''libcomp-1.so'', ''libcomp-3.so'', ''libcomp-ping.so'', ''libcomp-rping.so'', []]\<rparr>,
         \<lparr>td_name = ''Worker-2'', td_comp_ids = [2, 5, 11, 0],
          td_comp_names = [''Comp-2'', ''Comp-5'', ''Comp-Pong'', []],
          td_comp_models = [''libcomp-2.so'', ''libcomp-2.so'', ''libcomp-pong.so'', []]\<rparr>],
      nd_services = g_local_services_A, nd_busy_poll_cycles = 200, nd_platform_inits = g_infra_inits_A\<rparr>"

section \<open>Process B\<close>

definition g_local_pools_B :: "nos_buffer_pool_def list" where
  "g_local_pools_B =
     [\<lparr>def_chunk_size = 2048, def_chunk_count = 512\<rparr>, \<lparr>def_chunk_size = 4096, def_chunk_count = 256\<rparr>,
      \<lparr>def_chunk_size = 0, def_chunk_count = 0\<rparr>]"

definition g_local_services_B :: "nos_service_def list" where
  "g_local_services_B =
     [svc_def ''SVC_REMOTE_PONG'' 114 ''ProcB'' 13 ''/tmp/nos_proc_B.sock'',
      svc_def ''SVC_LOG'' 1 ''Platform'' 0 [],
      svc_def ''SVC_REMOTE_PING'' 113 ''ProcA'' 12 ''/tmp/nos_proc_A.sock'',
      svc_def ''SVC_DATA_PROC'' 204 ''ProcB'' 4 ''/tmp/nos_proc_B.sock'']"

definition g_infra_inits_B :: "ptr list" where
  "g_infra_inits_B = [init_ptr Log_init, NULL]"

definition g_local_node_def_B :: nos_node_def where
  "g_local_node_def_B =
     \<lparr>nd_name = ''ProcB'', nd_uds_path = ''/tmp/nos_proc_B.sock'', nd_buffer_pools = g_local_pools_B,
      nd_threads =
        [\<lparr>td_name = ''Worker-1'', td_comp_ids = [4, 0], td_comp_names = [''Comp-4'', []], td_comp_models = [''libcomp-4.so'', []]\<rparr>,
         \<lparr>td_name = ''Worker-2'', td_comp_ids = [13, 0], td_comp_names = [''Comp-RemotePong'', []],
          td_comp_models = [''libcomp-rpong.so'', []]\<rparr>],
      nd_services = g_local_services_B, nd_busy_poll_cycles = 200, nd_platform_inits = g_infra_inits_B\<rparr>"

text \<open>\<open>nos_manifest_get_local\<close>; which of the two a program is linked with is decided when it is built.\<close>

datatype proc = ProcA | ProcB

fun nos_manifest_get_local :: "proc \<Rightarrow> nos_node_def option" where
  "nos_manifest_get_local ProcA = Some g_local_node_def_A"
| "nos_manifest_get_local ProcB = Some g_local_node_def_B"

section \<open>The daemon\<close>

text \<open>
  \<open>while (keep_running) sleep(1)\<close>: \<open>stop i\<close> says whether a signal came before the test in round \<open>i\<close>. The result is
  the number of rounds slept.
\<close>

partial_function (option) sleep_while :: "(nat \<Rightarrow> bool) \<Rightarrow> nat \<Rightarrow> nat option" where
  "sleep_while stop i = (if stop i then Some i else sleep_while stop (Suc i))"

text \<open>
  The daemon: \<open>memory\<close> is what \<open>shm_open\<close>, \<open>ftruncate\<close> and \<open>mmap\<close> give (\<open>None\<close> if one fails), \<open>seg\<close> the segment that has the
  name before. The result is the exit code, the segment that nodes find while the daemon sleeps, and the one under
  the name at the end, after \<open>shm_unlink\<close>.
\<close>

definition daemon_main ::
  "(u32 \<rightharpoonup> nos_shm_block) option \<Rightarrow> (nat \<Rightarrow> bool) \<Rightarrow> nos_shm option \<Rightarrow> (int \<times> nos_shm option \<times> nos_shm option) option" where
  "daemon_main memory stop seg =
     (case memory of
        None \<Rightarrow> Some (- 1, seg, seg)
      | Some m \<Rightarrow> (let made = Some (nos_shm_create_and_init m) in map_option (\<lambda>_. (0, made, None)) (sleep_while stop 0)))"

end
