(* ===== verification/CompBoot.thy ===== *)
theory CompBoot
  imports CompPerf Manifests NodeMgrClaims
begin

text \<open>
  Starting a process: what the handlers that initialise, start and stop the sample components leave alone, and the state a
  process is in after \<open>main\<close> has built it from a manifest.
\<close>

section \<open>What initialisation leaves alone\<close>

text \<open>All of a node but its private data, timers, tables of the store and log.\<close>

definition same_node :: "sys_node \<Rightarrow> sys_node \<Rightarrow> bool" where
  "same_node s s' \<longleftrightarrow> mgr_view s' = mgr_view s \<and> queue_view s' = queue_view s \<and> conns s' = conns s \<and> bufs s' = bufs s \<and>
     embedded s' = embedded s \<and> calloc_ok s' = calloc_ok s \<and> crashed s' = crashed s \<and> worker_count s' = worker_count s"

lemma same_nodeD:
  assumes "same_node s s'"
  shows "comp_tables s' = comp_tables s" "registry s' = registry s" "comps s' = comps s" "loaded_info s' = loaded_info s"
    "node_def s' = node_def s" "comp_addrs s' = comp_addrs s" "addr_no s' = addr_no s" "comp_list s' = comp_list s"
    "table_ok s' = table_ok s" "queue_view s' = queue_view s" "conns s' = conns s" "bufs s' = bufs s" "embedded s' = embedded s"
    "calloc_ok s' = calloc_ok s" "crashed s' = crashed s" "worker_count s' = worker_count s"
  using assms mgr_view_cong[of s' s] by (simp_all add: same_node_def)

lemma same_node_refl [simp]: "same_node s s" by (simp add: same_node_def)

lemma same_node_trans: "same_node s s' \<Longrightarrow> same_node s' s'' \<Longrightarrow> same_node s s''"
  by (simp add: same_node_def)

lemma same_flow_node: "same_flow s s' \<Longrightarrow> same_node s s'"
  by (simp add: same_flow_def same_node_def mgr_view_def comp_tables_def[abs_def] queue_view_def[abs_def])

lemma calloc_priv_flow: "same_flow s (calloc_priv self p s)"
  by (simp add: calloc_priv_def Let_def) (simp add: same_flow_def)

lemma kv_create_flow: "kv_create_auto name ks vs cap s = Some (t, s') \<Longrightarrow> same_flow s s' \<and> privs s' = privs s"
  by (auto simp: kv_create_auto_def same_flow_def Let_def split: if_splits)

lemma kv_sub_flow:
  "kv_subscribe_auto t key sub s = Some (st, s') \<Longrightarrow> same_flow s s'"
  "kv_unsubscribe_auto t key sub s = Some (st, s') \<Longrightarrow> same_flow s s'"
  by (auto simp: kv_subscribe_auto_def kv_unsubscribe_auto_def split: if_splits)

lemma flow_steps:
  "same_flow s s1 \<Longrightarrow> same_flow s (calloc_priv self p s1)"
  "kv_create_auto name ks vs cap s1 = Some (t, s2) \<Longrightarrow> same_flow s s1 \<Longrightarrow> same_flow s s2"
  "kv_put_auto i key v n s1 = Some (st, s2) \<Longrightarrow> same_flow s s1 \<Longrightarrow> same_flow s s2"
  using same_flow_trans calloc_priv_flow kv_create_flow kv_put_flow by blast+

lemma same_flow_calloc: "same_flow s s1 \<Longrightarrow> same_flow s (s1\<lparr>calloc_no := n\<rparr>)"
  by (simp add: same_flow_def)

lemma model_2_init_flow: "model_2_init self s = Some (st, s') \<Longrightarrow> same_flow s s'"
proof -
  assume i: "model_2_init self s = Some (st, s')"
  then obtain c where c: "comps s self = Some c" by (auto simp: model_2_init_def bind_eq_Some_conv)
  define u where "u = s\<lparr>calloc_no := Suc (calloc_no s)\<rparr>"
  have u: "same_flow s u" by (simp add: u_def same_flow_def)
  show "same_flow s s'"
  proof (cases "calloc_ok s (calloc_no s)")
    case True
    then obtain t v where v: "kv_create_auto ''CompStates'' 32 4 128 u = Some (t, v)"
      using i c by (auto simp: model_2_init_def u_def[symmetric] bind_eq_Some_conv Let_def)
    then obtain t2 w where w: "kv_create_auto ''TestData'' 4 4 1024 v = Some (t2, w)"
      using i c True by (auto simp: model_2_init_def u_def[symmetric] bind_eq_Some_conv Let_def)
    have fw: "same_flow s w" using flow_steps(2)[OF w] flow_steps(2)[OF v] u by blast
    have put: "same_flow s y" if "kv_put_auto k d e n (set_priv self p w) = Some (r, y)" for k d e n p r y
      by (rule flow_steps(3)[OF that]) (simp add: fw)
    show ?thesis
      using i c True v w fw
      by (auto simp: model_2_init_def u_def[symmetric] bind_eq_Some_conv Let_def dest: put split: if_splits)
  qed (use i c u in \<open>auto simp: model_2_init_def u_def[symmetric] bind_eq_Some_conv Let_def\<close>)
qed

lemma lib_init_flow: "lib_init l self s = Some (st, s') \<Longrightarrow> same_flow s s'"
  by (cases l)
    (auto simp: model_1_init_def model_3_init_def model_4_init_def model_5_init_def ping_init_def rping_init_def bind_eq_Some_conv Let_def
      flow_steps(1) model_2_init_flow split: if_splits)

section \<open>Timers\<close>

text \<open>Operations on timers change timers and the heaps of threads.\<close>

lemma heap_node [simp]:
  "mgr_view (upd_heap r f s) = mgr_view s" "queue_view (upd_heap r f s) = queue_view s"
  "mgr_view (set_timer p t s) = mgr_view s" "queue_view (set_timer p t s) = queue_view s"
  "mgr_view (upd_thread r eventfd_write s) = mgr_view s" "queue_view (upd_thread r eventfd_write s) = queue_view s"
  by (auto simp: mgr_view_def comp_tables_def queue_view_def upd_heap_def upd_thread_def set_timer_def fun_eq_iff option.map_comp comp_def
      split: option.split)

lemma same_node_timer [simp]:
  "same_node s (upd_heap r f s1) = same_node s s1" "same_node s (set_timer p t s1) = same_node s s1"
  "same_node s (upd_thread r eventfd_write s1) = same_node s s1" "same_node s (snd (get_monotonic_ms s1)) = same_node s s1"
proof -
  have m: "mgr_view (snd (get_monotonic_ms s1)) = mgr_view s1" "queue_view (snd (get_monotonic_ms s1)) = queue_view s1"
    by (simp_all add: get_monotonic_ms_def Let_def mgr_view_def comp_tables_def[abs_def] queue_view_def[abs_def])
  show "same_node s (upd_heap r f s1) = same_node s s1" "same_node s (set_timer p t s1) = same_node s s1"
    "same_node s (upd_thread r eventfd_write s1) = same_node s s1" "same_node s (snd (get_monotonic_ms s1)) = same_node s s1"
    unfolding same_node_def heap_node m
    by (simp_all add: upd_heap_def upd_thread_def set_timer_def get_monotonic_ms_def Let_def)
qed

lemma timer_node:
  "same_node s (snd (nos_timer_create p cb a fa s))" "same_node s (snd (nos_timer_start self tm n per s))"
  "nos_timer_delete (\<lambda>_ _ s. s) tm s = Some s' \<Longrightarrow> same_node s s'"
  by (auto simp: nos_timer_create_def nos_timer_start_def nos_timer_delete_def unlink_timer_def Let_def case_prod_beta
      split: option.splits if_splits bool.splits)

lemma same_node_fields: "same_node s s1 \<Longrightarrow> same_node s (s1\<lparr>timer_no := n\<rparr>)"
  by (simp add: same_node_def mgr_view_def comp_tables_def[abs_def] queue_view_def[abs_def])

lemma auto_node:
  "same_node s (snd (timer_create_auto cb a s))" "same_node s (snd (timer_start_auto self tm n per s))"
  "timer_delete_auto tm s = Some s' \<Longrightarrow> same_node s s'"
proof -
  have "same_node s (s\<lparr>timer_no := timer_no s + 1\<rparr>)" by (rule same_node_fields) simp
  from same_node_trans[OF this timer_node(1)] show "same_node s (snd (timer_create_auto cb a s))" by (simp add: timer_create_auto_def)
qed (use timer_node in \<open>auto simp: timer_start_auto_def timer_delete_auto_def split: if_splits\<close>)

section \<open>Handlers\<close>

lemma model_1_stop_node: "model_1_stop self s = Some s' \<Longrightarrow> same_node s s'"
proof -
  assume st: "model_1_stop self s = Some s'"
  show "same_node s s'"
  proof (cases "privs s self")
    case (Some x)
    then obtain tm t where x: "privs s self = Some (Priv_1 tm t)" using st by (cases x) (auto simp: model_1_stop_def)
    then obtain s1 s2 where s1: "(if tm \<noteq> NULL then timer_delete_auto tm s else Some s) = Some s1"
      and s2: "(if t = None then Some s1 else map_option snd (kv_unsubscribe_auto t (key32 ''Comp-2'') (model_1_sub self) s1)) = Some s2"
      and s': "s' = set_priv self None s2"
      using st by (auto simp: model_1_stop_def bind_eq_Some_conv)
    have "same_node s s1" using s1 auto_node(3) by (auto split: if_splits)
    moreover have "same_flow s1 s'" using s2 kv_sub_flow(2) by (auto simp: s' split: if_splits)
    ultimately show ?thesis using same_node_trans same_flow_node by blast
  qed (use st in \<open>simp add: model_1_stop_def\<close>)
qed

lemma lib_stop_node: "lib_stop l self s = Some s' \<Longrightarrow> same_node s s'"
  by (cases l) (auto simp: free_priv_def model_1_stop_node same_flow_node)

lemma crashed_view [simp]: "mgr_view (s\<lparr>crashed := x\<rparr>) = mgr_view s"
  by (simp add: mgr_view_def comp_tables_def[abs_def])

lemma sys_env_quiet: "load_quiet sys_env" "stop_quiet sys_env"
proof -
  have e: "call_init sys_env = comp_call_init" "call_stop sys_env = comp_call_stop" by (simp_all add: sys_env_def)
  have "mgr_view (snd (comp_call_init f p s)) = mgr_view s" for f p and s :: sys_node
    by (auto simp: comp_call_init_def dest!: lib_init_flow same_flow_node simp: same_node_def split: option.splits fn.splits)
  moreover have "mgr_view (comp_call_stop f p s) = mgr_view s" for f p and s :: sys_node
    by (auto simp: comp_call_stop_def or_crash_def dest!: lib_stop_node simp: same_node_def split: option.splits fn.splits)
  moreover have "comp_id (snd (f c)) = comp_id c \<and> comp_name (snd (f c)) = comp_name c" if "dl_export sys_env h = Some f" for h f c
    using that by (auto simp: sys_env_def nos_export_component_def Let_def)
  ultimately show "load_quiet sys_env" "stop_quiet sys_env" by (simp_all add: load_quiet_def stop_quiet_def e)
qed

end
