(* ===== verification/BootTypes.thy ===== *)
theory BootTypes
  imports CompBoot
begin

text \<open>
  Loading the sample components gives them private data of the shape their libraries expect: a node that is well-typed but
  for a new component is well-typed when the component has been initialised, and stays so when it is started.
\<close>

section \<open>Adding a component\<close>

definition but_for :: "ptr \<Rightarrow> sys_node \<Rightarrow> sys_node" where
  "but_for p s = s\<lparr>comps := (comps s)(p := None)\<rparr>"

lemma but_for_simps [simp]:
  "comps (but_for p s) = (comps s)(p := None)" "kv_tables (but_for p s) = kv_tables s" "privs (but_for p s) = privs s"
  by (simp_all add: but_for_def)

lemma priv_ok_mono: "priv_ok l n p \<Longrightarrow> n \<le> m \<Longrightarrow> priv_ok l m p"
  by (induction l n p rule: priv_ok.induct) (auto simp: handle_ok_def split: option.splits comp_priv.splits)

definition typed_but :: "ptr \<Rightarrow> sys_node \<Rightarrow> bool" where
  "typed_but p s \<longleftrightarrow> comps_typed (but_for p s) \<and> kv_typed s"

lemma well_typed_but: "well_typed s \<Longrightarrow> typed_but p s"
  by (auto simp: well_typed_def typed_but_def comps_typed_def)

lemma well_typed_add:
  assumes "typed_but p s"
    and "\<And>c l. comps s p = Some c \<Longrightarrow> comp_on_msg c = fn_ptr l Fn_on_msg \<Longrightarrow> priv_ok l (length (kv_tables s)) (privs s p)"
  shows "well_typed s"
  unfolding well_typed_def
proof (intro conjI)
  show "comps_typed s"
    unfolding comps_typed_def
  proof (intro allI impI)
    fix q c l assume c: "comps s q = Some c" "comp_on_msg c = fn_ptr l Fn_on_msg"
    show "priv_ok l (length (kv_tables s)) (privs s q)"
      using assms c by (cases "q = p") (auto simp: typed_but_def comps_typed_def)
  qed
qed (use assms(1) in \<open>simp add: typed_but_def\<close>)

text \<open>What initialisation changes of the types: more tables in the store, and the private data of one component.\<close>

lemma typed_but_step:
  assumes "typed_but p s" "comps s' = comps s" "kv_typed s'" "length (kv_tables s) \<le> length (kv_tables s')"
    and "\<And>q. q \<noteq> p \<Longrightarrow> privs s' q = privs s q"
  shows "typed_but p s'"
  unfolding typed_but_def comps_typed_def
proof (intro conjI allI impI)
  fix q c l assume c: "comps (but_for p s') q = Some c" "comp_on_msg c = fn_ptr l Fn_on_msg"
  then have q: "q \<noteq> p" by auto
  then have "priv_ok l (length (kv_tables s)) (privs s q)" using assms(1,2) c by (simp add: typed_but_def comps_typed_def)
  then show "priv_ok l (length (kv_tables (but_for p s'))) (privs (but_for p s') q)"
    using assms(4,5) q priv_ok_mono by simp
qed (rule assms(3))

section \<open>New tables\<close>

lemma kv_create_typed:
  assumes ty: "kv_typed s" and sz: "0 < cap" "unat cap < 2 ^ 31" "0 < ks" "0 < KV_ENTRY_HEADER + ks + vs"
    "unat cap * unat (KV_ENTRY_HEADER + ks + vs) \<le> 2 ^ 32"
  obtains t s' where "kv_create_auto name ks vs cap s = Some (t, s')" "kv_typed s'"
    "length (kv_tables s) \<le> length (kv_tables s')" "handle_ok (length (kv_tables s')) t" "same_flow s s'" "privs s' = privs s"
proof -
  obtain j where j: "unat cap \<le> 2 ^ j" "j \<le> 31" "round_up 1024 cap = Some (2 ^ j)" using round_up_pow[of 10 cap] sz(2) by auto
  have "unat (2 ^ j :: u32) = 2 ^ j" using j(2) by (intro unat_pow2) simp
  then have nt: "kv_inv (new_table name ks vs cap (2 ^ j))" "kv_map (new_table name ks vs cap (2 ^ j)) = Map.empty"
    using new_table_inv[of cap "2 ^ j" ks vs name] sz j(1) by simp_all
  define slot where "slot = find_slot (\<lambda>t. table_name t = name) (length (kv_tables s)) (kv_tables s)"
  define u where "u = s\<lparr>calloc_no := calloc_no s + 1\<rparr>"
  define made where "made = u\<lparr>kv_tables := kv_tables s @ [new_table name ks vs cap (2 ^ j)]\<rparr>"
  have u: "kv_typed u" "same_flow s u" "kv_tables u = kv_tables s" "privs u = privs s"
    using ty by (simp_all add: u_def kv_typed_def same_flow_def)
  have made: "kv_typed made" "same_flow s made" "kv_tables made = kv_tables s @ [new_table name ks vs cap (2 ^ j)]" "privs made = privs s"
    using ty nt by (auto simp: made_def u_def kv_typed_def subs_typed_def same_flow_def)
  have pos: "ks \<noteq> 0" "cap \<noteq> 0" using sz by auto
  have run: "kv_create_auto name ks vs cap s =
      (if has_ops ''SVC_KV_DB'' s
       then (case slot of
               Some i \<Rightarrow> Some (Some i, u)
             | None \<Rightarrow> if length (kv_tables s) \<ge> MAX_TABLES \<or> \<not> calloc_ok s (calloc_no s) then Some (None, u)
                       else Some (Some (length (kv_tables s)), made))
       else Some (None, s))"
    using pos j(3) by (simp add: kv_create_auto_def nos_kv_table_create_def Let_def slot_def u_def made_def split: option.split)
  have slot: "i < length (kv_tables s)" if "slot = Some i" for i using that find_slot_Some unfolding slot_def by blast
  show ?thesis
  proof (cases "has_ops ''SVC_KV_DB'' s")
    case True
    show ?thesis
    proof (cases slot)
      case (Some i)
      then show ?thesis using that[of "Some i" u] run True u slot by (simp add: handle_ok_def)
    next
      case None
      then show ?thesis
        using that[of None u] that[of "Some (length (kv_tables s))" made] run True u made
        by (cases "length (kv_tables s) \<ge> MAX_TABLES \<or> \<not> calloc_ok s (calloc_no s)") (simp_all add: handle_ok_def)
    qed
  next
    case False
    then show ?thesis using that[of None s] run ty by (simp add: handle_ok_def)
  qed
qed

lemma comp_states_size:
  "0 < (128 :: u32)" "unat (128 :: u32) < 2 ^ 31" "0 < (32 :: u32)" "0 < KV_ENTRY_HEADER + 32 + 4" "unat (128 :: u32) * unat (KV_ENTRY_HEADER + 32 + 4) \<le> 2 ^ 32"
  "0 < (1024 :: u32)" "unat (1024 :: u32) < 2 ^ 31" "0 < (4 :: u32)" "0 < KV_ENTRY_HEADER + 4 + 4" "unat (1024 :: u32) * unat (KV_ENTRY_HEADER + 4 + 4) \<le> 2 ^ 32"
  by (simp_all add: KV_ENTRY_HEADER_def)

section \<open>Initialising\<close>

lemma kv_typed_cong: "comps s' = comps s \<Longrightarrow> kv_tables s' = kv_tables s \<Longrightarrow> kv_typed s' = kv_typed s"
  by (simp add: kv_typed_def)

lemma kv_typed_quiet [simp]:
  "kv_typed (nos_log_raw lv i msg s) = kv_typed s" "kv_typed (calloc_priv p x s) = kv_typed s"
  by (rule kv_typed_cong; simp add: calloc_priv_def Let_def)+

lemma kv_get_returns:
  assumes "kv_typed s" "handle_ok (length (kv_tables s)) t"
  shows "\<exists>st got. kv_get_auto t key n s = Some (st, got)"
proof (cases t)
  case (Some i)
  then have "kv_tables s ! i \<in> set (kv_tables s)" using assms(2) by (simp add: handle_ok_def)
  then have "kv_inv (kv_tables s ! i)" using assms(1) by (simp add: kv_typed_def subs_typed_def)
  then show ?thesis using kv_get_value by (simp add: kv_get_auto_def kv_handle_def Some split: option.split)
qed (simp add: kv_get_auto_def kv_handle_def nos_kv_get_def)

lemma calloc_priv_ok:
  assumes "\<And>n. calloc_ok s n"
  shows "calloc_priv p x s = set_priv p (Some x) (s\<lparr>calloc_no := calloc_no s + 1\<rparr>)"
  using assms by (simp add: calloc_priv_def Let_def)

text \<open>The result of initialising a component: its private data is typed, and all else is as before.\<close>

definition init_ok :: "lib \<Rightarrow> ptr \<Rightarrow> sys_node \<Rightarrow> (nos_status \<times> sys_node) option \<Rightarrow> bool" where
  "init_ok l p s r \<longleftrightarrow> (\<exists>s'. r = Some (NOS_OK, s') \<and> kv_typed s' \<and> length (kv_tables s) \<le> length (kv_tables s') \<and>
     priv_ok l (length (kv_tables s')) (privs s' p) \<and> (l = Comp_1 \<longrightarrow> privs s' p \<noteq> None) \<and> (\<forall>q. q \<noteq> p \<longrightarrow> privs s' q = privs s q))"

lemma model_2_init_typed:
  assumes ty: "kv_typed s" and c: "comps s p = Some c" and ok: "\<And>n. calloc_ok s n"
  shows "init_ok Comp_2 p s (model_2_init p s)"
proof -
  define u where "u = s\<lparr>calloc_no := calloc_no s + 1\<rparr>"
  have u: "kv_typed u" "kv_tables u = kv_tables s" "privs u = privs s" "comps u = comps s" using ty by (simp_all add: u_def kv_typed_def)
  obtain t v where v: "kv_create_auto ''CompStates'' 32 4 128 u = Some (t, v)" "kv_typed v" "length (kv_tables u) \<le> length (kv_tables v)"
      "handle_ok (length (kv_tables v)) t" "privs v = privs u"
    by (rule kv_create_typed[OF u(1) comp_states_size(1-5)])
  obtain t2 w where w: "kv_create_auto ''TestData'' 4 4 1024 v = Some (t2, w)" "kv_typed w" "length (kv_tables v) \<le> length (kv_tables w)"
      "handle_ok (length (kv_tables w)) t2" "privs w = privs v"
    by (rule kv_create_typed[OF v(2) comp_states_size(6-10)])
  define x where "x = set_priv p (Some (Priv_2 t t2 0)) w"
  have h: "handle_ok (length (kv_tables w)) t" using v(4) w(3) by (auto simp: handle_ok_def split: option.splits)
  have x: "kv_typed x" "kv_tables x = kv_tables w" "privs x = (privs s)(p \<mapsto> Priv_2 t t2 0)" using w(2,5) v(5) u(3) by (simp_all add: x_def)
  let ?r = "if t = None then Some x
            else do {
              (st, got) \<leftarrow> kv_get_auto t (key32 (comp_name c)) 4 x;
              if st = NOS_OK
              then let k = (case got of Some (v, _) \<Rightarrow> overwrite v 0 | None \<Rightarrow> 0)
                   in Some (log_info c (''State recovered from KV DB: counter = '' @ dec_int (sint k)) (set_priv p (Some (Priv_2 t t2 k)) x))
              else map_option snd (kv_put_auto t (key32 (comp_name c)) (u32_bytes 0) 4 x)
            }"
  have "\<exists>y k. ?r = Some y \<and> kv_typed y \<and> length (kv_tables y) = length (kv_tables w) \<and> privs y = (privs s)(p \<mapsto> Priv_2 t t2 k)"
  proof (cases t)
    case None
    then show ?thesis using x by auto
  next
    case (Some i)
    then obtain st got where g: "kv_get_auto t (key32 (comp_name c)) 4 x = Some (st, got)" using kv_get_returns[OF x(1)] h x(2) by metis
    have hi: "handle_ok (length (kv_tables x)) (Some i)" using h Some x(2) by simp
    show ?thesis
    proof (cases "st = NOS_OK")
      case True
      then show ?thesis using Some g x by (auto simp: Let_def)
    next
      case False
      then show ?thesis
        using kv_put_typed[OF x(1) hi, of "u32_bytes 0" "key32 (comp_name c)"] Some g x by fastforce
    qed
  qed
  then obtain y k where y: "?r = Some y" "kv_typed y" "length (kv_tables y) = length (kv_tables w)" "privs y = (privs s)(p \<mapsto> Priv_2 t t2 k)"
    by blast
  have "model_2_init p s = Some (NOS_OK, log_debug c ''Component instance with multiple KV tables initialized'' y)"
    by (simp only: model_2_init_def c bind.bind_lunit Let_def ok simp_thms if_False u_def[symmetric] v(1) prod.case w(1) x_def[symmetric]
        y(1)[unfolded Let_def])
  then show ?thesis using y h w(3,4) v(3) u(2) by (simp add: init_ok_def)
qed

lemma lib_init_typed:
  assumes "kv_typed s" "comps s p = Some c" "\<And>n. calloc_ok s n" "l \<notin> {Comp_pong, Comp_rpong}"
  shows "init_ok l p s (lib_init l p s)"
proof -
  have u: "kv_typed (s\<lparr>calloc_no := n\<rparr>)" for n using assms(1) by (simp add: kv_typed_def)
  show ?thesis
  proof (cases l)
    case Comp_2
    then show ?thesis using model_2_init_typed[OF assms(1-3)] by simp
  qed (use assms u in \<open>simp_all add: init_ok_def model_1_init_def model_3_init_def model_4_init_def model_5_init_def
      ping_init_def rping_init_def calloc_priv_ok handle_ok_def size_ok_def Let_def\<close>)
qed

section \<open>Loading\<close>

text \<open>The components are those the libraries export; model 1 has its private data.\<close>

definition handlers :: "nos_component \<Rightarrow> ptr \<times> ptr \<times> ptr \<times> ptr" where
  "handlers c = (comp_init c, comp_start c, comp_stop c, comp_on_msg c)"

definition lib_comp :: "lib \<Rightarrow> nos_component \<Rightarrow> bool" where
  "lib_comp l c \<longleftrightarrow> handlers c =
     (if l \<in> {Comp_pong, Comp_rpong} then NULL else fn_ptr l Fn_init,
      if l \<in> {Comp_1, Comp_2, Comp_4, Comp_5} then fn_ptr l Fn_start else NULL,
      if l \<in> {Comp_1, Comp_2, Comp_ping, Comp_rping} then fn_ptr l Fn_stop else NULL, fn_ptr l Fn_on_msg)"

lemma lib_compD:
  assumes "lib_comp l c"
  shows "comp_on_msg c = fn_ptr l Fn_on_msg" "comp_init c = (if l \<in> {Comp_pong, Comp_rpong} then NULL else fn_ptr l Fn_init)"
    "comp_start c = (if l \<in> {Comp_1, Comp_2, Comp_4, Comp_5} then fn_ptr l Fn_start else NULL)"
    "comp_stop c = (if l \<in> {Comp_1, Comp_2, Comp_ping, Comp_rping} then fn_ptr l Fn_stop else NULL)"
  using assms unfolding lib_comp_def handlers_def by (simp_all only: prod.inject)

lemma export_lib_comp:
  "comp_init c = NULL \<Longrightarrow> comp_start c = NULL \<Longrightarrow> comp_stop c = NULL \<Longrightarrow> lib_comp l (snd (nos_export_component l c))"
  "comp_id (snd (nos_export_component l c)) = comp_id c" "comp_name (snd (nos_export_component l c)) = comp_name c"
  "fst (nos_export_component l c) = NOS_OK"
  by (simp_all add: nos_export_component_def lib_comp_def handlers_def Let_def)

lemma lib_comp_status [simp]: "lib_comp l (c\<lparr>comp_status := st\<rparr>) = lib_comp l c"
  by (simp add: lib_comp_def handlers_def)

definition live_ok :: "sys_node \<Rightarrow> bool" where
  "live_ok s \<longleftrightarrow> (\<forall>p c. comps s p = Some c \<longrightarrow> (\<exists>l. lib_comp l c \<and> (l = Comp_1 \<longrightarrow> privs s p \<noteq> None)))"

lemma lib_ptr_not_NULL [simp]: "lib_ptr l \<noteq> NULL" "0 < lib_ptr l"
  by (cases l; simp)+

lemma sys_env_simps [simp]:
  "dl_open sys_env path = (case file_lib path of None \<Rightarrow> NULL | Some l \<Rightarrow> lib_ptr l)"
  "dl_export sys_env (lib_ptr l) = Some (nos_export_component l)"
  "call_init sys_env = comp_call_init" "call_stop sys_env = comp_call_stop"
  by (simp_all add: sys_env_def)

lemma kv_typed_mono:
  assumes "kv_typed s" "kv_tables s' = kv_tables s" "\<And>q. comps s q \<noteq> None \<Longrightarrow> comps s' q \<noteq> None"
  shows "kv_typed s'"
  using assms unfolding kv_typed_def subs_typed_def by metis

text \<open>A component whose library exists is loaded at the next address and initialised.\<close>

lemma sys_load:
  assumes l: "file_lib (''./'' @ model) = Some l" and p: "p = comp_addrs s (addr_no s)" "p \<noteq> NULL"
    and ok: "\<And>n. calloc_ok s n" and ty: "kv_typed s"
  obtains w c where "node_load_component_internal sys_env cid name model s = (Some (p, lib_ptr l), w)"
    "comps w = (comps s)(p \<mapsto> c)" "lib_comp l c" "comp_id c = cid" "comp_name c = name" "kv_typed w"
    "length (kv_tables s) \<le> length (kv_tables w)" "priv_ok l (length (kv_tables w)) (privs w p)"
    "l = Comp_1 \<longrightarrow> privs w p \<noteq> None" "\<forall>q. q \<noteq> p \<longrightarrow> privs w q = privs s q"
    "same_node (s\<lparr>addr_no := addr_no s + 1, comps := comps w\<rparr>) w"
proof -
  define c0 where "c0 = \<lparr>comp_id = cid, comp_name = name, comp_status = NOS_COMP_ST_LOADED, comp_init = NULL,
      comp_start = NULL, comp_stop = NULL, comp_on_msg = NULL\<rparr>"
  define cm where "cm = snd (nos_export_component l c0)"
  have cm: "lib_comp l cm" "comp_id cm = cid" "comp_name cm = name" "nos_export_component l c0 = (NOS_OK, cm)"
    using export_lib_comp[where c = c0 and l = l] by (simp_all add: cm_def) (simp_all add: c0_def prod_eq_iff)
  define v where "v = s\<lparr>addr_no := Suc (addr_no s), comps := (comps s)(p \<mapsto> cm)\<rparr>"
  have v: "kv_typed v" "comps v p = Some cm" "\<And>n. calloc_ok v n" "kv_tables v = kv_tables s" "privs v = privs s"
    using ok by (auto simp: v_def intro: kv_typed_mono[OF ty])
  obtain x where x: "(if comp_init cm \<noteq> NULL then comp_call_init (comp_init cm) p v else (NOS_OK, v)) = (NOS_OK, x)"
      "kv_typed x" "length (kv_tables v) \<le> length (kv_tables x)" "priv_ok l (length (kv_tables x)) (privs x p)"
      "l = Comp_1 \<longrightarrow> privs x p \<noteq> None" "\<forall>q. q \<noteq> p \<longrightarrow> privs x q = privs v q" "same_flow v x"
  proof (cases "l \<in> {Comp_pong, Comp_rpong}")
    case True
    then show ?thesis using that[of v] lib_compD(2)[OF cm(1)] v(1) by (cases l) simp_all
  next
    case False
    then obtain x where "lib_init l p v = Some (NOS_OK, x)" "kv_typed x" "length (kv_tables v) \<le> length (kv_tables x)"
        "priv_ok l (length (kv_tables x)) (privs x p)" "l = Comp_1 \<longrightarrow> privs x p \<noteq> None" "\<forall>q. q \<noteq> p \<longrightarrow> privs x q = privs v q"
      using lib_init_typed[OF v(1,2,3)] unfolding init_ok_def by blast
    then show ?thesis
      using that[of x] False lib_compD(2)[OF cm(1)] lib_init_flow[of l p v NOS_OK x] by (simp add: comp_call_init_def)
  qed
  define c where "c = cm\<lparr>comp_status := NOS_COMP_ST_INITED\<rparr>"
  define w where "w = x\<lparr>comps := (comps x)(p := map_option (\<lambda>c. c\<lparr>comp_status := NOS_COMP_ST_INITED\<rparr>) (comps x p)),
      log_ctx := nos_log_set_comp_info cid (Some name) (log_ctx x)\<rparr>"
  have cx: "comps x = comps v" using x(7) by (simp add: same_flow_def)
  have load: "node_load_component_internal sys_env cid name model s = (Some (p, lib_ptr l), w)"
    using l p(2) x(1) cm(4) unfolding node_load_component_internal_def sys_env_simps c0_def[symmetric] p(1)[symmetric]
    by (cases "0 < comp_init cm") (simp_all add: Let_def p(1)[symmetric] v_def[symmetric] w_def)
  show ?thesis
  proof (rule that[OF load])
    show "comps w = (comps s)(p \<mapsto> c)" using cx v(2) by (simp add: w_def c_def v_def)
    show "kv_typed w" by (rule kv_typed_mono[OF x(2)]) (auto simp: w_def)
    show "same_node (s\<lparr>addr_no := addr_no s + 1, comps := comps w\<rparr>) w"
      using x(7) by (simp add: same_flow_def same_node_def v_def w_def mgr_view_def comp_tables_def[abs_def] queue_view_def[abs_def])
  qed (use cm x v in \<open>simp_all add: c_def w_def\<close>)
qed

end
