(* ===== verification/NodeBoot.thy ===== *)
theory NodeBoot
  imports BootTypes
begin

text \<open>
  Starting a node from a manifest with the libraries of the sample components: which components are loaded where, and what
  holds of the node afterwards.
\<close>

section \<open>A node without messages\<close>

definition fresh_queue :: "buf_ref option list \<times> nat \<times> nat" where
  "fresh_queue = (replicate MAX_QUEUE_SIZE None, 0, 0)"

text \<open>No links, all buffers free, and only threads that were not initialised, or whose queues are empty; threads with components are initialised.\<close>

definition idle :: "sys_node \<Rightarrow> bool" where
  "idle s \<longleftrightarrow> conns s = [] \<and> pool_ok (bufs s) \<and> (\<forall>r. pool_held (bufs s) r = 0) \<and>
     (\<forall>r. queue_view s r \<in> {None, Some ([], 0, 0), Some fresh_queue} \<and> (queue_view s r \<noteq> None \<longrightarrow> r \<in> set flow_threads) \<and>
       (comp_list s r \<noteq> [] \<longrightarrow> queue_view s r = Some fresh_queue))"

lemma fresh_queue_ok:
  assumes "queue_view s r = Some fresh_queue"
  shows "node_queue_ok s r" "node_queue s r = []"
proof -
  obtain th where "threads s r = Some th" "msg_queue th = replicate MAX_QUEUE_SIZE None" "head th = 0" "tail th = 0"
    using assms by (auto simp: queue_view_def fresh_queue_def)
  then show "node_queue_ok s r" "node_queue s r = []"
    by (simp_all add: node_queue_ok_def node_queue_def queue_ok_def thread_msgs_def thread_slots_def ring_ok_def ring_items_def ring_used_def MAX_QUEUE_SIZE_def)
qed

lemma idle_node_queue: "idle s \<Longrightarrow> node_queue s r = []"
proof -
  assume "idle s"
  then have "queue_view s r \<in> {None, Some ([], 0, 0), Some fresh_queue}" unfolding idle_def by blast
  then consider "queue_view s r = None" | "queue_view s r = Some ([], 0, 0)" | "queue_view s r = Some fresh_queue"
    unfolding insert_iff empty_iff by (elim disjE) (assumption | (erule FalseE))+
  then show ?thesis
  proof cases
    case 2
    then show ?thesis
      by (auto simp: queue_view_def node_queue_def thread_msgs_def thread_slots_def ring_items_empty MAX_QUEUE_SIZE_def)
  qed (simp_all add: fresh_queue_ok, simp add: node_queue_def queue_view_def)
qed

lemma idle_owned:
  assumes "idle s" "\<And>sid p r. reg_route (registry s) sid = Some (Local p (Some r)) \<Longrightarrow> comp_list s r \<noteq> []"
  shows "owned s []" "no_msg s"
proof -
  have q: "node_queue s = (\<lambda>_. [])" using idle_node_queue[OF assms(1)] by (simp add: fun_eq_iff)
  then show n: "no_msg s" using assms(1) by (simp add: no_msg_def idle_def)
  have "queue_view s r = None \<or> r \<in> set flow_threads \<and> (node_queue_ok s r \<or> queue_view s r = Some ([], 0, 0))" for r
    using assms(1) fresh_queue_ok(1)[of s r] unfolding idle_def by blast
  moreover have "queue_view s r = None \<or> node_queue_ok s r" if "reg_route (registry s) sid = Some (Local p (Some r))" for sid p r
    using assms(1) assms(2)[OF that] fresh_queue_ok(1)[of s r] unfolding idle_def by blast
  ultimately have "flow_ok s" using assms(1) unfolding flow_ok_def idle_def by auto
  then show "owned s []" using assms(1) no_msg_queued[OF n] by (simp add: owned_def idle_def)
qed

text \<open>
  \<open>same_node\<close> steps keep a node idle, and so does a change of the components' table on an initialised thread.
\<close>

lemma idle_cong:
  assumes "idle s" "conns s' = conns s" "bufs s' = bufs s" "queue_view s' = queue_view s"
    and "\<And>q. comp_list s' q \<noteq> [] \<Longrightarrow> comp_list s q \<noteq> [] \<or> queue_view s q = Some fresh_queue"
  shows "idle s'"
  using assms unfolding idle_def by metis

section \<open>What is loaded where\<close>

type_synonym entry = "thread_ref \<times> u32 \<times> string \<times> string"

text \<open>The component of entry \<open>e\<close> of the manifest is at \<open>p\<close>.\<close>

definition is_entry :: "(ptr \<rightharpoonup> nos_component) \<Rightarrow> loaded_comp_info \<Rightarrow> entry \<Rightarrow> bool" where
  "is_entry cs i e \<longleftrightarrow> (case e of (r, cid, name, model) \<Rightarrow> info_owner i = r \<and>
     (\<exists>c l. cs (info_comp i) = Some c \<and> comp_id c = cid \<and> comp_name c = name \<and> file_lib (''./'' @ model) = Some l \<and> lib_comp l c))"

text \<open>Exactly the entries \<open>es\<close> are loaded, in this order, and each is in the table of its thread.\<close>

definition placed :: "sys_node \<Rightarrow> entry list \<Rightarrow> bool" where
  "placed s es \<longleftrightarrow> list_all2 (is_entry (comps s)) (loaded_info s) es \<and>
     (\<forall>r. comp_list s r = map info_comp (filter (\<lambda>i. info_owner i = r) (loaded_info s)))"

lemma placed_length: "placed s es \<Longrightarrow> length (loaded_info s) = length es"
  by (auto simp: placed_def dest: list_all2_lengthD)

lemma placed_owner: "placed s es \<Longrightarrow> info_owner ` set (loaded_info s) = fst ` set es"
proof -
  assume "placed s es"
  then have "list_all2 (is_entry (comps s)) (loaded_info s) es" by (simp add: placed_def)
  then have "map info_owner (loaded_info s) = map fst es"
    by (induction rule: list_all2_induct) (auto simp: is_entry_def)
  then show ?thesis by (metis image_set)
qed

text \<open>The states a node passes through while it is built.\<close>

definition booting :: "sys_node \<Rightarrow> bool" where
  "booting s \<longleftrightarrow> boot_ok s \<and> well_typed s \<and> live_ok s \<and> idle s \<and> (\<forall>n. calloc_ok s n) \<and> \<not> crashed s"

lemma booting_frame:
  assumes "booting s" "same_node s s'" "kv_typed s'" "length (kv_tables s) \<le> length (kv_tables s')" "privs s' = privs s"
  shows "booting s'"
proof -
  note f = same_nodeD[OF assms(2)]
  have "boot_ok s'" using assms(1) f by (simp add: booting_def boot_ok_def loaded_ok_def tables_ok_def addrs_distinct_def)
  moreover have "idle s'" using assms(1) f by (intro idle_cong[of s s']) (simp_all add: booting_def)
  moreover have "comps_typed s'"
    using assms(1,4,5) f(3) priv_ok_mono unfolding booting_def well_typed_def comps_typed_def by metis
  ultimately show ?thesis using assms f by (simp add: booting_def well_typed_def live_ok_def)
qed

section \<open>Loading one component\<close>

text \<open>The two things that can go wrong: the library is missing, or there is no memory for the component.\<close>

lemma sys_load_fails:
  assumes "file_lib (''./'' @ model) = None \<or> comp_addrs s (addr_no s) = NULL"
  shows "\<exists>n \<le> Suc (addr_no s). addr_no s \<le> n \<and> node_load_component_internal sys_env cid name model s = (None, s\<lparr>addr_no := n\<rparr>)"
proof (cases "file_lib (''./'' @ model)")
  case None
  then have "node_load_component_internal sys_env cid name model s = (None, s\<lparr>addr_no := addr_no s\<rparr>)"
    by (simp add: node_load_component_internal_def)
  then show ?thesis by (metis le_refl le_Suc_eq)
next
  case (Some l)
  then have "comp_addrs s (addr_no s) = NULL" using assms by simp
  then have "node_load_component_internal sys_env cid name model s = (None, s\<lparr>addr_no := Suc (addr_no s)\<rparr>)"
    using Some by (simp add: node_load_component_internal_def)
  then show ?thesis by (metis le_refl le_Suc_eq)
qed

lemma init_component_fails:
  assumes "file_lib (''./'' @ model) = None \<or> comp_addrs s (addr_no s) = NULL"
  obtains n where "n \<le> Suc (addr_no s)" "addr_no s \<le> n" "init_component sys_env r (cid, name, model) s = s\<lparr>addr_no := n\<rparr>"
  using sys_load_fails[OF assms, of cid name] by (auto simp: init_component_def Let_def)

lemma init_component_loads:
  assumes b: "booting s" and t: "table_ok s r" "length (loaded_info s) < MAX_COMPONENTS_PER_NODE" and q: "queue_view s r = Some fresh_queue"
    and l: "file_lib (''./'' @ model) = Some l" "comp_addrs s (addr_no s) \<noteq> NULL"
  obtains w c i where "init_component sys_env r (cid, name, model) s = enter i w" "is_entry (comps w) i (r, cid, name, model)"
    "info_comp i = comp_addrs s (addr_no s)" "comps w = (comps s)(info_comp i \<mapsto> c)" "comps s (info_comp i) = None"
    "same_node (s\<lparr>addr_no := addr_no s + 1, comps := comps w\<rparr>) w" "well_typed w" "live_ok w"
proof -
  have fresh: "comps s (comp_addrs s (addr_no s)) = None" using boot_fresh b by (auto simp: booting_def fresh_addr_def)
  have kv: "kv_typed s" "\<And>n. calloc_ok s n" using b by (simp_all add: booting_def well_typed_def)
  obtain w c where w: "node_load_component_internal sys_env cid name model s = (Some (comp_addrs s (addr_no s), lib_ptr l), w)"
    "comps w = (comps s)(comp_addrs s (addr_no s) \<mapsto> c)" "lib_comp l c" "comp_id c = cid" "comp_name c = name" "kv_typed w"
    "length (kv_tables s) \<le> length (kv_tables w)" "priv_ok l (length (kv_tables w)) (privs w (comp_addrs s (addr_no s)))"
    "l = Comp_1 \<longrightarrow> privs w (comp_addrs s (addr_no s)) \<noteq> None" "\<forall>q. q \<noteq> comp_addrs s (addr_no s) \<longrightarrow> privs w q = privs s q"
    "same_node (s\<lparr>addr_no := addr_no s + 1, comps := comps w\<rparr>) w"
    by (rule sys_load[OF l(1) refl l(2) kv(2,1)])
  let ?p = "comp_addrs s (addr_no s)"
  define i where "i = \<lparr>info_comp = ?p, info_handle = lib_ptr l, info_lib_name = model, info_owner = r\<rparr>"
  have "loaded_info w = loaded_info s" using same_nodeD(4)[OF w(11)] by simp
  then have e: "init_component sys_env r (cid, name, model) s = enter i w"
    using w(1) t(2) by (simp add: init_component_def Let_def enter_def i_def)
  have ct: "typed_but ?p (s\<lparr>comps := comps w\<rparr>)"
  proof -
    have "comps_typed (but_for ?p (s\<lparr>comps := comps w\<rparr>))"
      using b unfolding booting_def well_typed_def comps_typed_def by (auto simp: but_for_def w(2))
    moreover have "kv_typed (s\<lparr>comps := comps w\<rparr>)" by (rule kv_typed_mono[OF kv(1)]) (simp_all add: w(2))
    ultimately show ?thesis by (simp add: typed_but_def)
  qed
  have "typed_but ?p w" by (rule typed_but_step[OF ct]) (use w in simp_all)
  then have "well_typed w"
  proof (rule well_typed_add)
    fix c' l' assume "comps w ?p = Some c'" "comp_on_msg c' = fn_ptr l' Fn_on_msg"
    then have "l' = l" using w(2) lib_compD(1)[OF w(3)] fn_ptr_inj by (metis fun_upd_same option.inject)
    then show "priv_ok l' (length (kv_tables w)) (privs w ?p)" using w(8) by simp
  qed
  moreover have "live_ok w"
    unfolding live_ok_def
  proof (intro allI impI)
    fix q c' assume q: "comps w q = Some c'"
    show "\<exists>l. lib_comp l c' \<and> (l = Comp_1 \<longrightarrow> privs w q \<noteq> None)"
      using b q w(2,3,9,10) by (cases "q = ?p") (auto simp: booting_def live_ok_def)
  qed
  ultimately show ?thesis
    using that[of i w c] e w fresh l(1) by (simp add: is_entry_def i_def)
qed

lemma enter_frame [simp]:
  "kv_tables (enter i s) = kv_tables s" "privs (enter i s) = privs s" "calloc_ok (enter i s) = calloc_ok s" "crashed (enter i s) = crashed s"
  "conns (enter i s) = conns s" "bufs (enter i s) = bufs s" "worker_count (enter i s) = worker_count s" "embedded (enter i s) = embedded s"
  by (simp_all add: enter_def register_on_def)

lemma enter_queue:
  assumes "table_ok s (info_owner i)"
  shows "queue_view (enter i s) = queue_view s"
proof -
  obtain th where "threads s (info_owner i) = Some th"
    using assms by (auto simp: table_ok_def comp_tables_def split: option.splits)
  then show ?thesis
    by (auto simp: enter_def register_on_def queue_view_def fun_eq_iff nos_scheduler_register_component_def Let_def)
qed

lemma init_component_boots:
  assumes b: "booting s" and t: "table_ok s r" "length (loaded_info s) < MAX_COMPONENTS_PER_NODE" and q: "queue_view s r = Some fresh_queue"
    and s': "s' = init_component sys_env r x s"
  shows "booting s'" "queue_view s' = queue_view s" "worker_count s' = worker_count s" "embedded s' = embedded s" "bufs s' = bufs s"
    "comp_addrs s' = comp_addrs s" "table_ok s' = table_ok s" "registry s' = registry s" "node_def s' = node_def s"
proof -
  obtain cid name model where x: "x = (cid, name, model)" by (cases x)
  have bo: "boot_ok s'" "table_ok s' = table_ok s" "registry s' = registry s" "node_def s' = node_def s"
    using init_component_ok[OF sys_env_quiet(1) _ t s'] b by (auto simp: booting_def)
  have "booting s' \<and> queue_view s' = queue_view s \<and> worker_count s' = worker_count s \<and> embedded s' = embedded s \<and> bufs s' = bufs s \<and>
      comp_addrs s' = comp_addrs s"
  proof (cases "file_lib (''./'' @ model) = None \<or> comp_addrs s (addr_no s) = NULL")
    case True
    then obtain n where n: "s' = s\<lparr>addr_no := n\<rparr>"
      using init_component_fails[OF True, of r cid name] unfolding s' x by metis
    have v: "queue_view s' = queue_view s" "comp_list s' = comp_list s" by (simp_all add: n queue_view_def[abs_def] comp_list_def[abs_def] comp_tables_def[abs_def])
    have "idle s'" using b v by (intro idle_cong[of s s']) (simp_all add: booting_def n)
    then show ?thesis
      using b bo(1) v by (simp add: booting_def n well_typed_def comps_typed_def kv_typed_def live_ok_def)
  next
    case False
    then obtain l where l: "file_lib (''./'' @ model) = Some l" "comp_addrs s (addr_no s) \<noteq> NULL" by auto
    obtain w c i where w: "init_component sys_env r (cid, name, model) s = enter i w" "is_entry (comps w) i (r, cid, name, model)"
      "info_comp i = comp_addrs s (addr_no s)" "comps w = (comps s)(info_comp i \<mapsto> c)" "comps s (info_comp i) = None"
      "same_node (s\<lparr>addr_no := addr_no s + 1, comps := comps w\<rparr>) w" "well_typed w" "live_ok w"
      by (rule init_component_loads[OF b t q l])
    have e: "s' = enter i w" by (simp add: s' x w(1))
    have ow: "info_owner i = r" using w(2) by (simp add: is_entry_def)
    have u: "queue_view (s\<lparr>addr_no := addr_no s + 1, comps := comps w\<rparr>) = queue_view s"
      "comp_list (s\<lparr>addr_no := addr_no s + 1, comps := comps w\<rparr>) = comp_list s" "table_ok (s\<lparr>addr_no := addr_no s + 1, comps := comps w\<rparr>) = table_ok s"
      by (simp_all add: queue_view_def[abs_def] comp_list_def[abs_def] table_ok_def[abs_def] comp_tables_def[abs_def])
    note f = same_nodeD[OF w(6), unfolded u]
    have tw: "table_ok w (info_owner i)" "info_comp i \<noteq> NULL" using t(1) f(9) ow l(2) w(3) by simp_all
    have qv: "queue_view s' = queue_view s" using enter_queue[OF tw(1)] f(10) e by simp
    have "idle s'"
    proof (rule idle_cong[of s])
      show "comp_list s' q \<noteq> [] \<Longrightarrow> comp_list s q \<noteq> [] \<or> queue_view s q = Some fresh_queue" for q
        using enter_tables(2)[OF tw, of q] f(8) ow assms(4) by (auto simp: e split: if_splits)
    qed (use b f qv in \<open>simp_all add: booting_def e\<close>)
    then show ?thesis
      using b bo(1) w(7,8) f qv by (simp add: booting_def e well_typed_def comps_typed_def kv_typed_def live_ok_def)
  qed
  then show "booting s'" "queue_view s' = queue_view s" "worker_count s' = worker_count s" "embedded s' = embedded s" "bufs s' = bufs s"
    "comp_addrs s' = comp_addrs s" "table_ok s' = table_ok s" "registry s' = registry s" "node_def s' = node_def s" using bo by blast+
qed

lemma init_component_places:
  assumes b: "booting s" and t: "table_ok s r" "length (loaded_info s) < MAX_COMPONENTS_PER_NODE" and q: "queue_view s r = Some fresh_queue"
    and l: "file_lib (''./'' @ model) \<noteq> None" "comp_addrs s (addr_no s) \<noteq> NULL"
    and p: "placed s es" "length (comp_list s r) < MAX_COMP_PER_THREAD"
  shows "placed (init_component sys_env r (cid, name, model) s) (es @ [(r, cid, name, model)])"
proof -
  obtain l where l': "file_lib (''./'' @ model) = Some l" using l(1) by blast
  obtain w c i where w: "init_component sys_env r (cid, name, model) s = enter i w" "is_entry (comps w) i (r, cid, name, model)"
    "info_comp i = comp_addrs s (addr_no s)" "comps w = (comps s)(info_comp i \<mapsto> c)" "comps s (info_comp i) = None"
    "same_node (s\<lparr>addr_no := addr_no s + 1, comps := comps w\<rparr>) w"
    by (rule init_component_loads[OF b t q l' l(2)])
  have u: "comp_list (s\<lparr>addr_no := addr_no s + 1, comps := comps w\<rparr>) = comp_list s" "table_ok (s\<lparr>addr_no := addr_no s + 1, comps := comps w\<rparr>) = table_ok s"
    by (simp_all add: comp_list_def[abs_def] table_ok_def[abs_def] comp_tables_def[abs_def])
  note f = same_nodeD[OF w(6), unfolded u]
  have ow: "info_owner i = r" using w(2) by (simp add: is_entry_def)
  have tw: "table_ok w (info_owner i)" "info_comp i \<noteq> NULL" using t(1) f(9) ow l(2) w(3) by simp_all
  have "is_entry (comps w) j e" if "is_entry (comps s) j e" for j e
    using that w(4,5) by (auto simp: is_entry_def split: prod.splits)
  then have "list_all2 (is_entry (comps w)) (loaded_info s) es"
    using p(1) unfolding placed_def by (metis list_all2_mono)
  then have "list_all2 (is_entry (comps w)) (loaded_info s @ [i]) (es @ [(r, cid, name, model)])"
    using w(2) by (simp add: list_all2_appendI)
  then show ?thesis
    using p enter_tables(2)[OF tw] f(4,8) ow by (simp add: placed_def w(1))
qed

section \<open>Loading the components of a thread\<close>

lemma placed_count: "placed s es \<Longrightarrow> length (comp_list s r) = length (filter (\<lambda>e. fst e = r) es)"
proof -
  assume p: "placed s es"
  then have "list_all2 (is_entry (comps s)) (loaded_info s) es" by (simp add: placed_def)
  then have "length (filter (\<lambda>i. info_owner i = r) (loaded_info s)) = length (filter (\<lambda>e. fst e = r) es)"
    by (induction rule: list_all2_induct) (auto simp: is_entry_def)
  then show ?thesis using p by (simp add: placed_def)
qed

text \<open>What the steps of the start keep on the way, whatever is loaded.\<close>

definition boot_frame :: "sys_node \<Rightarrow> sys_node \<Rightarrow> bool" where
  "boot_frame s s' \<longleftrightarrow> worker_count s' = worker_count s \<and> embedded s' = embedded s \<and> bufs s' = bufs s \<and> comp_addrs s' = comp_addrs s \<and>
     registry s' = registry s \<and> node_def s' = node_def s"

lemma init_components_boot:
  assumes "booting s" "table_ok s r" "length (loaded_info s) + length xs \<le> MAX_COMPONENTS_PER_NODE" "queue_view s r = Some fresh_queue"
    and "s' = foldl (\<lambda>s x. init_component sys_env r x s) s xs"
  shows "booting s' \<and> queue_view s' = queue_view s \<and> boot_frame s s' \<and> length (loaded_info s') \<le> length (loaded_info s) + length xs"
  using assms
proof (induction xs arbitrary: s)
  case (Cons x xs)
  let ?u = "init_component sys_env r x s"
  have len: "length (loaded_info s) < MAX_COMPONENTS_PER_NODE" using Cons.prems(3) by simp
  note u = init_component_boots[OF Cons.prems(1,2) len Cons.prems(4) refl, of x]
  have n: "length (loaded_info ?u) \<le> Suc (length (loaded_info s))"
    using init_component_ok[OF sys_env_quiet(1) _ Cons.prems(2) len refl, of x] Cons.prems(1) by (simp add: booting_def)
  have "booting s' \<and> queue_view s' = queue_view ?u \<and> boot_frame ?u s' \<and> length (loaded_info s') \<le> length (loaded_info ?u) + length xs"
    by (rule Cons.IH) (use Cons.prems u n in simp_all)
  then show ?case using u n by (simp add: boot_frame_def)
qed (simp add: boot_frame_def)

lemma init_components_place:
  assumes "booting s" "table_ok s r" "length (loaded_info s) + length xs \<le> MAX_COMPONENTS_PER_NODE" "queue_view s r = Some fresh_queue"
    and "\<And>x. x \<in> set xs \<Longrightarrow> file_lib (''./'' @ snd (snd x)) \<noteq> None" "\<And>n. comp_addrs s n \<noteq> NULL"
    and "placed s es" "length (filter (\<lambda>e. fst e = r) es) + length xs \<le> MAX_COMP_PER_THREAD"
  shows "placed (foldl (\<lambda>s x. init_component sys_env r x s) s xs) (es @ map (Pair r) xs)"
  using assms
proof (induction xs arbitrary: s es)
  case (Cons x xs)
  obtain cid name model where x: "x = (cid, name, model)" by (cases x)
  let ?u = "init_component sys_env r x s"
  have len: "length (loaded_info s) < MAX_COMPONENTS_PER_NODE" using Cons.prems(3) by simp
  note u = init_component_boots[OF Cons.prems(1,2) len Cons.prems(4) refl, of x]
  have lib: "file_lib (''./'' @ model) \<noteq> None" using Cons.prems(5)[of x] by (simp add: x)
  have "length (comp_list s r) < MAX_COMP_PER_THREAD" using placed_count[OF Cons.prems(7)] Cons.prems(8) by simp
  then have p: "placed ?u (es @ [(r, x)])"
    using init_component_places[OF Cons.prems(1,2) len Cons.prems(4) lib Cons.prems(6,7), of cid name] by (simp add: x)
  have "placed (foldl (\<lambda>s x. init_component sys_env r x s) ?u xs) ((es @ [(r, x)]) @ map (Pair r) xs)"
    by (rule Cons.IH) (use Cons.prems u p placed_length[OF p] placed_length[OF Cons.prems(7)] in simp_all)
  then show ?case by simp
qed simp

section \<open>The worker threads\<close>

text \<open>Initialising thread \<open>k\<close> of a node that has nothing on it.\<close>

lemma init_thread_boot:
  assumes b: "booting s" and k: "r \<in> set flow_threads"
    and u: "u = s\<lparr>threads := (threads s)(r \<mapsto> snd (nos_scheduler_init_thread self th i name efd))\<rparr>"
  shows "booting u" "queue_view u r = Some fresh_queue" "table_ok u r" "boot_frame s u" "loaded_info u = loaded_info s"
    "placed s es \<Longrightarrow> r \<notin> fst ` set es \<Longrightarrow> placed u es"
proof -
  note t = init_thread_table[of s r self th i name efd, folded u]
  show v: "queue_view u r = Some fresh_queue" "table_ok u r" "boot_frame s u" "loaded_info u = loaded_info s"
    using t(1) by (simp_all add: u queue_view_def nos_scheduler_init_thread_def fresh_queue_def Let_def boot_frame_def)
  have qv: "queue_view u q = (if q = r then Some fresh_queue else queue_view s q)" for q
    using v(1) by (simp add: u queue_view_def)
  have bo: "boot_ok u"
    using b by (auto simp: booting_def boot_ok_def loaded_ok_def tables_ok_def addrs_distinct_def u t[unfolded u])
  have "idle u"
    using b k unfolding booting_def idle_def qv t(2) by (auto simp: u)
  then show "booting u"
    using b bo unfolding booting_def by (auto simp: u well_typed_def comps_typed_def kv_typed_def live_ok_def)
  show "placed u es" if p: "placed s es" "r \<notin> fst ` set es"
  proof -
    have "r \<notin> info_owner ` set (loaded_info s)" using placed_owner[OF p(1)] p(2) by simp
    then have "filter (\<lambda>i. info_owner i = r) (loaded_info s) = []" by (auto simp: filter_empty_conv)
    then show ?thesis using p(1) t(2) by (simp add: placed_def) (simp add: u)
  qed
qed

fun entries_from :: "nat \<Rightarrow> nos_thread_def list \<Rightarrow> entry list" where
  "entries_from k [] = []"
| "entries_from k (t # ts) = map (Pair (Worker k)) (thread_entries t) @ entries_from (Suc k) ts"

lemma length_entries: "length (entries_from k ts) = length (concat (map thread_entries ts))"
  by (induction ts arbitrary: k) simp_all

lemma entries_owner: "e \<in> set (entries_from k ts) \<Longrightarrow> \<exists>j \<ge> k. j < k + length ts \<and> fst e = Worker j"
  by (induction ts arbitrary: k) fastforce+

lemma init_worker_boots:
  assumes "booting s" "k < MAX_WORKERS" "length (loaded_info s) + length (thread_entries t) \<le> MAX_COMPONENTS_PER_NODE"
    and s': "s' = init_worker sys_env efd k t s"
  shows "booting s'" "boot_frame (s\<lparr>worker_count := worker_count s + 1\<rparr>) s'"
    "length (loaded_info s') \<le> length (loaded_info s) + length (thread_entries t)"
    "(\<forall>(cid, name, model) \<in> set (thread_entries t). file_lib (''./'' @ model) \<noteq> None) \<Longrightarrow> (\<forall>n. comp_addrs s n \<noteq> NULL) \<Longrightarrow>
       length (thread_entries t) \<le> MAX_COMP_PER_THREAD \<Longrightarrow> placed s es \<Longrightarrow> Worker k \<notin> fst ` set es \<Longrightarrow>
       placed s' (es @ map (Pair (Worker k)) (thread_entries t))"
proof -
  define u where "u = s\<lparr>threads := (threads s)(Worker k \<mapsto> snd (nos_scheduler_init_thread (thread_ptr (Worker k)) zero_thread k (td_name t) (efd (Worker k))))\<rparr>"
  define v where "v = foldl (\<lambda>s x. init_component sys_env (Worker k) x s) u (thread_entries t)"
  have sv: "s' = v\<lparr>worker_count := worker_count v + 1\<rparr>" by (simp add: s' init_worker_def u_def v_def Let_def)
  have k: "Worker k \<in> set flow_threads" using assms(2) by (auto simp: flow_threads_def)
  note u = init_thread_boot[OF assms(1) k u_def]
  have len: "length (loaded_info u) + length (thread_entries t) \<le> MAX_COMPONENTS_PER_NODE" using assms(3) u(5) by simp
  note v = init_components_boot[OF u(1,3) len u(2) v_def]
  have w: "boot_ok s' = boot_ok v" "idle s' = idle v" "placed s' xs = placed v xs" for xs
    by (simp_all add: sv boot_ok_def loaded_ok_def tables_ok_def addrs_distinct_def idle_def placed_def comp_list_def[abs_def] table_ok_def[abs_def]
        comp_tables_def[abs_def] queue_view_def[abs_def])
  show "booting s'"
    using v w unfolding booting_def by (auto simp: sv well_typed_def comps_typed_def kv_typed_def live_ok_def)
  show "boot_frame (s\<lparr>worker_count := worker_count s + 1\<rparr>) s'" "length (loaded_info s') \<le> length (loaded_info s) + length (thread_entries t)"
    using v u(4,5) by (simp_all add: boot_frame_def sv)
  assume l: "\<forall>(cid, name, model) \<in> set (thread_entries t). file_lib (''./'' @ model) \<noteq> None" "\<forall>n. comp_addrs s n \<noteq> NULL"
    "length (thread_entries t) \<le> MAX_COMP_PER_THREAD" and p: "placed s es" "Worker k \<notin> fst ` set es"
  have "filter (\<lambda>e. fst e = Worker k) es = []" unfolding filter_empty_conv using p(2) by (metis imageI)
  then have n: "length (filter (\<lambda>e. fst e = Worker k) es) + length (thread_entries t) \<le> MAX_COMP_PER_THREAD" using l(3) by simp
  have a: "comp_addrs u m \<noteq> NULL" for m using l(2) u(4) by (simp add: boot_frame_def)
  have "placed v (es @ map (Pair (Worker k)) (thread_entries t))"
    unfolding v_def by (rule init_components_place[OF u(1,3) len u(2) _ a u(6)[OF p] n]) (use l(1) in auto)
  then show "placed s' (es @ map (Pair (Worker k)) (thread_entries t))" using w by simp
qed

lemma init_workers_boot:
  assumes "booting s" "length (loaded_info s) + length (entries_from k ts) \<le> MAX_COMPONENTS_PER_NODE"
    and "s' = init_workers_from sys_env efd k ts s"
  shows "booting s'" "embedded s' = embedded s" "bufs s' = bufs s" "registry s' = registry s" "node_def s' = node_def s"
proof -
  have "booting s' \<and> embedded s' = embedded s \<and> bufs s' = bufs s \<and> registry s' = registry s \<and> node_def s' = node_def s"
    using assms
  proof (induction ts arbitrary: s k)
    case (Cons t ts)
    show ?case
    proof (cases "k < MAX_WORKERS")
      case True
      let ?u = "init_worker sys_env efd k t s"
      have len: "length (loaded_info s) + length (thread_entries t) \<le> MAX_COMPONENTS_PER_NODE" using Cons.prems(2) by simp
      note u = init_worker_boots(1-3)[OF Cons.prems(1) True len refl, where efd = efd]
      have "booting s' \<and> embedded s' = embedded ?u \<and> bufs s' = bufs ?u \<and> registry s' = registry ?u \<and> node_def s' = node_def ?u"
        by (rule Cons.IH[of ?u "Suc k"]) (use Cons.prems u True in simp_all)
      then show ?thesis using u by (simp add: boot_frame_def)
    qed (use Cons.prems in simp)
  qed simp
  then show "booting s'" "embedded s' = embedded s" "bufs s' = bufs s" "registry s' = registry s" "node_def s' = node_def s" by blast+
qed

text \<open>What a manifest must have for all its components to be loaded.\<close>

definition loadable :: "nos_thread_def list \<Rightarrow> bool" where
  "loadable ts \<longleftrightarrow> list_all (\<lambda>t. length (thread_entries t) \<le> MAX_COMP_PER_THREAD \<and>
     list_all (\<lambda>(cid, name, model). file_lib (''./'' @ model) \<noteq> None) (thread_entries t)) ts"

lemma init_workers_place:
  assumes "booting s" "length (loaded_info s) + length (entries_from k ts) \<le> MAX_COMPONENTS_PER_NODE"
    and "s' = init_workers_from sys_env efd k ts s" "loadable ts" "k + length ts \<le> MAX_WORKERS" "\<And>n. comp_addrs s n \<noteq> NULL"
    and "placed s es" "\<And>e. e \<in> set es \<Longrightarrow> \<exists>j < k. fst e = Worker j" "worker_count s = k"
  shows "placed s' (es @ entries_from k ts) \<and> worker_count s' = k + length ts"
  using assms
proof (induction ts arbitrary: s k es)
  case (Cons t ts)
  let ?u = "init_worker sys_env efd k t s" and ?es = "es @ map (Pair (Worker k)) (thread_entries t)"
  have k: "k < MAX_WORKERS" using Cons.prems(5) by simp
  have len: "length (loaded_info s) + length (thread_entries t) \<le> MAX_COMPONENTS_PER_NODE" using Cons.prems(2) by simp
  note u = init_worker_boots[OF Cons.prems(1) k len refl, where efd = efd]
  have new: "Worker k \<notin> fst ` set es" using Cons.prems(8) by fastforce
  have p: "placed ?u ?es"
    by (rule u(4)) (use Cons.prems(4,6,7) new in \<open>auto simp: loadable_def list_all_iff\<close>)
  have "placed s' (?es @ entries_from (Suc k) ts) \<and> worker_count s' = Suc k + length ts"
  proof (rule Cons.IH[OF u(1) _ _ _ _ _ p])
    show "length (loaded_info ?u) + length (entries_from (Suc k) ts) \<le> MAX_COMPONENTS_PER_NODE" using Cons.prems(2) u(3) by simp
    show "s' = init_workers_from sys_env efd (Suc k) ts ?u" using Cons.prems(3) k by simp
    show "loadable ts" "Suc k + length ts \<le> MAX_WORKERS" using Cons.prems(4,5) by (simp_all add: loadable_def)
    show "comp_addrs ?u n \<noteq> NULL" for n using Cons.prems(6) u(2) by (simp add: boot_frame_def)
    show "\<exists>j < Suc k. fst e = Worker j" if "e \<in> set ?es" for e using that Cons.prems(8)[of e] by (auto intro: less_SucI)
    show "worker_count ?u = Suc k" using Cons.prems(9) u(2) by (simp add: boot_frame_def)
  qed
  then show ?case by simp
qed simp

end
