(* ===== verification/BootMain.thy ===== *)
theory BootMain
  imports NodeBoot
begin

text \<open>
  The state of a process that \<open>main\<close> has started from a manifest: its routes, its queues and its embedded services.
\<close>

section \<open>Routes to what is loaded\<close>

lemma find_owner_comps:
  "find_owner_from s cid k n = Some r \<Longrightarrow> \<exists>j. r = Worker j \<and> comp_list s r \<noteq> []"
proof (induction n arbitrary: k)
  case (Suc n)
  show ?case
  proof (cases "threads s (Worker k)")
    case (Some th)
    then show ?thesis
      using Suc comp_list_thread[OF Some] by (cases "thread_comps th") (auto split: if_splits)
  qed (use Suc in simp)
qed simp

lemma find_owner_first:
  assumes "i < k + n" "k \<le> i" "list_ex (has_comp_id s cid) (comp_list s (Worker i))"
    and "\<And>j. j \<noteq> i \<Longrightarrow> \<not> list_ex (has_comp_id s cid) (comp_list s (Worker j))"
  shows "find_owner_from s cid k n = Some (Worker i)"
  using assms(1,2)
proof (induction n arbitrary: k)
  case (Suc n)
  have cl: "comp_list s (Worker k) = thread_comps th" if "threads s (Worker k) = Some th" for th
    using comp_list_thread[OF that] by simp
  show ?case
  proof (cases "k = i")
    case True
    then obtain th where "threads s (Worker k) = Some th"
      using assms(3) by (cases "threads s (Worker k)") (auto simp: comp_list_def comp_tables_def)
    then show ?thesis using assms(3) cl True by simp
  next
    case False
    then have "find_owner_from s cid (Suc k) n = Some (Worker i)" using Suc.IH[of "Suc k"] Suc.prems by simp
    then show ?thesis using assms(4)[OF False] cl by (auto split: option.split)
  qed
qed simp

text \<open>A manifest whose component ids are distinct names each component uniquely.\<close>

definition entry_id :: "entry \<Rightarrow> u32" where "entry_id e = fst (snd e)"

lemma placed_ids:
  assumes "placed s es"
  shows "map (\<lambda>i. map_option comp_id (comps s (info_comp i))) (loaded_info s) = map (\<lambda>e. Some (entry_id e)) es"
proof -
  have "list_all2 (is_entry (comps s)) (loaded_info s) es" using assms by (simp add: placed_def)
  then show ?thesis by (induction rule: list_all2_induct) (auto simp: is_entry_def entry_id_def)
qed

lemma placed_target:
  assumes p: "placed s es" and d: "distinct (map entry_id es)" and e: "(Worker i, cid, name, model) \<in> set es" and i: "i < worker_count s"
    and l: "loaded_ok s"
  obtains p c l where "\<forall>svc. sd_provider_comp_id svc = cid \<longrightarrow> svc_target s (sd_node_name svc) svc = Some (Local p (Some (Worker i)))"
    "comps s p = Some c" "comp_id c = cid" "comp_name c = name" "lib_comp l c" "file_lib (''./'' @ model) = Some l" "p \<noteq> NULL"
    "p \<in> set (comp_list s (Worker i))"
proof -
  let ?P = "\<lambda>j. has_comp_id s cid (info_comp j)"
  obtain k where k: "k < length es" "es ! k = (Worker i, cid, name, model)" using e by (metis in_set_conv_nth)
  have len: "length (loaded_info s) = length es" using placed_length[OF p] .
  have ids: "map_option comp_id (comps s (info_comp (loaded_info s ! j))) = Some (entry_id (es ! j))" if "j < length es" for j
    using arg_cong[OF placed_ids[OF p], of "\<lambda>xs. xs ! j"] that len by simp
  have uniq: "?P (loaded_info s ! j) \<longleftrightarrow> j = k" if "j < length es" for j
  proof -
    have "?P (loaded_info s ! j) \<longleftrightarrow> entry_id (es ! j) = cid" using ids[OF that] by (auto simp: has_comp_id_def split: option.splits)
    also have "\<dots> \<longleftrightarrow> j = k"
      using d k that nth_eq_iff_index_eq[OF d, of j k] by (simp add: entry_id_def)
    finally show ?thesis .
  qed
  have f: "find_slot ?P (length (loaded_info s)) (loaded_info s) = Some k"
  proof (cases "find_slot ?P (length (loaded_info s)) (loaded_info s)")
    case None
    then show ?thesis using uniq[OF k(1)] k(1) len find_slot_None[of "length (loaded_info s)" "loaded_info s" ?P] by simp
  next
    case (Some j)
    then show ?thesis using find_slot_Some[OF Some] uniq[of j] len by simp
  qed
  let ?i = "loaded_info s ! k"
  have node: "node_get_loaded_comp_by_id cid s = info_comp ?i" using f by (simp add: node_get_loaded_comp_by_id_def)
  have "is_entry (comps s) ?i (es ! k)" using p k(1) by (auto simp: placed_def list_all2_conv_all_nth)
  then obtain c l where c: "info_owner ?i = Worker i" "comps s (info_comp ?i) = Some c" "comp_id c = cid" "comp_name c = name"
    "file_lib (''./'' @ model) = Some l" "lib_comp l c" unfolding k(2) is_entry_def by auto
  have cl: "list_ex (has_comp_id s cid) (comp_list s r) \<longleftrightarrow> (\<exists>j < length es. info_owner (loaded_info s ! j) = r \<and> ?P (loaded_info s ! j))" for r
    using p len by (auto simp: placed_def list_ex_iff in_set_conv_nth) 
  have "find_owner_from s cid 0 (worker_count s) = Some (Worker i)"
    by (rule find_owner_first) (use cl uniq c(1) k(1) i in auto)
  moreover have "info_comp ?i \<noteq> NULL" using l k(1) len by (simp add: loaded_ok_def)
  moreover have "info_comp ?i \<in> set (comp_list s (Worker i))" using p c(1) k(1) len by (auto simp: placed_def)
  ultimately show ?thesis using that[of "info_comp ?i" c l] c node by (simp add: svc_target_def Let_def)
qed

section \<open>Building the node\<close>

lemma add_fd_queue: "queue_view (upd_thread r (\<lambda>_. snd (nos_scheduler_add_fd ok th fd cb a)) s) q =
    (if q = r \<and> threads s r \<noteq> None then Some (msg_queue th, head th, tail th) else queue_view s q)"
  by (auto simp: queue_view_def nos_scheduler_add_fd_def nos_scheduler_add_fd_ex_def Let_def split: option.splits)

text \<open>Before the threads are made: nothing is loaded, there are no messages and all buffers are free.\<close>

definition before_start :: "sys_node \<Rightarrow> bool" where
  "before_start s \<longleftrightarrow> threads s = Map.empty \<and> conns s = [] \<and> pool_ok (bufs s) \<and> (\<forall>r. pool_held (bufs s) r = 0) \<and> kv_typed s \<and>
     (\<forall>n. calloc_ok s n) \<and> \<not> crashed s"

lemma init_mgmt_boot:
  fixes s :: sys_node
  assumes "s' = node_init_mgmt efd lfd bok lok s"
  shows "queue_view s' Mgmt = Some fresh_queue" "conns s' = conns s" "bufs s' = bufs s" "kv_tables s' = kv_tables s" "calloc_ok s' = calloc_ok s"
    "crashed s' = crashed s" "embedded s' = embedded s" "privs s' = privs s"
proof -
  define u where "u = s\<lparr>threads := (threads s)(Mgmt \<mapsto> snd (nos_scheduler_init_thread (thread_ptr Mgmt) zero_thread 999 ''Mgmt-Master'' (efd Mgmt)))\<rparr>"
  have s': "s' = snd (nos_ipc_init lfd bok lok Mgmt u)" by (simp add: assms node_init_mgmt_def u_def Let_def)
  have u: "queue_view u Mgmt = Some fresh_queue"
    by (simp add: u_def queue_view_def nos_scheduler_init_thread_def fresh_queue_def Let_def)
  show "queue_view s' Mgmt = Some fresh_queue"
  proof (cases "lfd < 0 \<or> \<not> bok \<or> \<not> lok")
    case True
    then show ?thesis using u by (simp add: s' nos_ipc_init_def)
  next
    case False
    obtain th where th: "threads u Mgmt = Some th" by (simp add: u_def)
    have "s' = upd_thread Mgmt (\<lambda>_. snd (nos_scheduler_add_fd True th lfd nos_ipc_accept_handler_ptr (thread_ptr Mgmt))) u"
      using False th by (simp add: s' nos_ipc_init_def case_prod_beta)
    then show ?thesis using u th by (simp add: add_fd_queue) (simp add: queue_view_def)
  qed
  show "conns s' = conns s" "bufs s' = bufs s" "kv_tables s' = kv_tables s" "calloc_ok s' = calloc_ok s"
    "crashed s' = crashed s" "embedded s' = embedded s" "privs s' = privs s"
    by (auto simp: s' nos_ipc_init_def u_def upd_thread_def split: prod.splits option.splits)
qed

text \<open>A node that has been built: consistent, without messages, all components typed, and the routes those of the manifest.\<close>

definition booted :: "nos_node_def \<Rightarrow> sys_node \<Rightarrow> bool" where
  "booted nd s \<longleftrightarrow> mgr_ok s \<and> owned s [] \<and> no_msg s \<and> well_typed s \<and> live_ok s \<and> \<not> crashed s \<and> node_def s = nd \<and>
     (\<forall>svc \<in> set (nd_services nd). reg_route (registry s) (sd_service_id svc) = map_option stored_route (svc_target s (nd_name nd) svc))"

lemma start_routes_comps:
  assumes "reg_route (registry s) sid = Some (Local p (Some r))" "mgr_ok s"
    and "\<forall>svc \<in> set (nd_services (node_def s)). reg_route (registry s) (sd_service_id svc) = map_option stored_route (svc_target s cur svc)"
  shows "comp_list s r \<noteq> []"
proof -
  have "sid \<in> sd_service_id ` set (nd_services (node_def s))" using assms(1,2) unfolding mgr_ok_def routes_ok_def by blast
  then obtain svc where "svc \<in> set (nd_services (node_def s))" "sd_service_id svc = sid" by blast
  then have "map_option stored_route (svc_target s cur svc) = Some (Local p (Some r))" using assms(1,3) by metis
  then have "svc_target s cur svc = Some (Local p (Some r))" by (cases "svc_target s cur svc") (auto elim: stored_route.elims)
  then have "find_owner_from s (sd_provider_comp_id svc) 0 (worker_count s) = Some r"
    by (auto simp: svc_target_def Let_def split: if_splits option.splits)
  then show ?thesis using find_owner_comps by blast
qed

lemma node_start_boot:
  assumes s: "unstarted nd s" "before_start s" and fits: "manifest_fits nd"
    and s': "s' = node_start sys_env efd lfd bok lok nd s"
  shows "booted nd s'" "embedded s' = embedded s" "bufs s' = bufs s" "conns s' = []"
    "loadable (nd_threads nd) \<Longrightarrow> length (nd_threads nd) \<le> MAX_WORKERS \<Longrightarrow> (\<And>n. comp_addrs s n \<noteq> NULL) \<Longrightarrow>
       placed s' (entries_from 0 (nd_threads nd)) \<and> worker_count s' = length (nd_threads nd)"
proof -
  define u where "u = node_init_mgmt efd lfd bok lok s"
  define v where "v = u\<lparr>threads := (\<lambda>r. case r of Mgmt \<Rightarrow> threads u Mgmt | Worker i \<Rightarrow> if i < MAX_WORKERS then Some zero_thread else None), worker_count := 0\<rparr>"
  define w where "w = init_workers_from sys_env efd 0 (nd_threads nd) v"
  note u = init_mgmt_ok[OF u_def] and ub = init_mgmt_boot[OF u_def]
  have "s' = node_setup_routing (nd_name nd) w"
    unfolding s' node_start_def Let_def node_init_workers_def w_def v_def u_def ..
  then obtain reg where s'w: "s' = w\<lparr>registry := reg\<rparr>" using setup_routing_registry by blast
  have cl: "comp_list v r = []" for r
    using u by (cases r) (auto simp: comp_list_def comp_tables_def v_def zero_thread_def)
  have v: "comps v = Map.empty" "loaded_info v = []" "node_def v = nd" "bufs v = bufs s" "embedded v = embedded s" "conns v = []"
      "comp_addrs v = comp_addrs s" "worker_count v = 0" "\<not> crashed v" "\<And>n. calloc_ok v n"
    using s u ub by (simp_all add: v_def unstarted_def before_start_def)
  have bo: "boot_ok v"
    using s u cl by (simp add: boot_ok_def loaded_ok_def tables_ok_def unstarted_def v_def addrs_distinct_def)
  have qv: "queue_view v r = (case r of Mgmt \<Rightarrow> Some fresh_queue | Worker i \<Rightarrow> if i < MAX_WORKERS then Some ([], 0, 0) else None)" for r
    using ub(1) by (cases r) (auto simp: v_def queue_view_def zero_thread_def)
  have "idle v"
    using s(2) cl v by (auto simp: idle_def qv before_start_def flow_threads_def split: thread_ref.split)
  moreover have "kv_typed v"
    using s(1,2) ub(4) u by (simp add: v_def kv_typed_def before_start_def)
  ultimately have bv: "booting v"
    using bo v by (simp add: booting_def well_typed_def comps_typed_def live_ok_def)
  have len: "length (loaded_info v) + length (entries_from 0 (nd_threads nd)) \<le> MAX_COMPONENTS_PER_NODE"
    using fits v(2) by (simp add: manifest_fits_def length_entries)
  note w = init_workers_boot[OF bv len w_def]
  have n: "mgr_ok s' \<and> (\<forall>svc \<in> set (nd_services nd). reg_route (registry s') (sd_service_id svc) = map_option stored_route (svc_target s' (nd_name nd) svc))"
    by (rule node_start_ok[OF sys_env_quiet(1) s(1) fits s'])
  have nd: "node_def s' = nd" using w(5) v(3) by (simp add: s'w)
  have fr: "comp_list s' = comp_list w" "queue_view s' = queue_view w"
    by (simp_all add: s'w comp_list_def[abs_def] comp_tables_def[abs_def] queue_view_def[abs_def])
  have "idle s'" by (rule idle_cong[of w]) (use w(1) fr in \<open>simp_all add: booting_def s'w\<close>)
  moreover have "comp_list s' r \<noteq> []" if "reg_route (registry s') sid = Some (Local p (Some r))" for sid p r
    by (rule start_routes_comps[OF that]) (use n nd in blast)+
  ultimately have "owned s' []" "no_msg s'" using idle_owned[of s'] by blast+
  then show "booted nd s'"
    using w(1) n nd by (simp add: booted_def booting_def well_typed_def comps_typed_def kv_typed_def live_ok_def s'w)
  show "embedded s' = embedded s" "bufs s' = bufs s" using w v by (simp_all add: s'w)
  show "conns s' = []" using w(1) by (simp add: s'w booting_def idle_def)
  show "placed s' (entries_from 0 (nd_threads nd)) \<and> worker_count s' = length (nd_threads nd)"
    if l: "loadable (nd_threads nd)" "length (nd_threads nd) \<le> MAX_WORKERS" and a: "\<And>n. comp_addrs s n \<noteq> NULL"
  proof -
    have "placed v []" using v cl by (simp add: placed_def)
    from init_workers_place[OF bv len w_def l(1) _ _ this] have "placed w (entries_from 0 (nd_threads nd)) \<and> worker_count w = length (nd_threads nd)"
      using l(2) a v by simp
    then show ?thesis using fr(1) by (simp add: placed_def s'w)
  qed
qed

section \<open>The program\<close>

text \<open>A process before \<open>main\<close>.\<close>

definition process_start :: "sys_node \<Rightarrow> bool" where
  "process_start s \<longleftrightarrow> threads s = Map.empty \<and> conns s = [] \<and> bufs s = empty_pool \<and> kv_tables s = [] \<and> loaded_info s = [] \<and>
     comps s = Map.empty \<and> registry s = empty_registry \<and> embedded s = empty_embedded \<and> \<not> initialized (log_ctx s) \<and>
     addrs_distinct s \<and> (\<forall>n. calloc_ok s n) \<and> \<not> crashed s"

text \<open>The functions in a list that ends with \<open>NULL\<close>; \<open>None\<close> when it does not, or has other values.\<close>

fun inits_of :: "ptr list \<Rightarrow> init_fn list option" where
  "inits_of [] = None"
| "inits_of (p # ps) = (if p = NULL then Some [] else do { f \<leftarrow> ptr_init p; fs \<leftarrow> inits_of ps; Some (f # fs) })"

fun init_service :: "init_fn \<Rightarrow> string" where
  "init_service Timer_init = ''SVC_TIMER''" | "init_service Log_init = ''SVC_LOG''" | "init_service Kv_db_init = ''SVC_KV_DB''"

lemma platform_init_list:
  "inits_of ps = Some fs \<Longrightarrow> platform_init ps x = Some (snd (foldl (\<lambda>x f. run_init f x) x fs))"
proof (induction ps arbitrary: x fs)
  case (Cons p ps)
  show ?case
  proof (cases "p = NULL")
    case False
    then obtain f gs where f: "ptr_init p = Some f" "inits_of ps = Some gs" "fs = f # gs"
      using Cons.prems by (auto simp: bind_eq_Some_conv)
    then show ?thesis using Cons.IH[OF f(2), of "run_init f x"] False by simp
  qed (use Cons.prems in simp)
qed simp

text \<open>The services installed so far are those of the functions run so far; each is installed once.\<close>

definition installed :: "init_fn set \<Rightarrow> bool \<times> sys_node \<Rightarrow> bool" where
  "installed F x \<longleftrightarrow> embedded_ok (embedded (snd x)) \<and> g_embedded_count (embedded (snd x)) = card F \<and>
     embedded_names (embedded (snd x)) = init_service ` F \<and>
     (\<forall>f. nos_embedded_service_get (init_service f) (embedded (snd x)) \<noteq> NULL \<longleftrightarrow> f \<in> F) \<and> (fst x \<longleftrightarrow> Timer_init \<in> F) \<and>
     (initialized (log_ctx (snd x)) \<longleftrightarrow> Log_init \<in> F)"

lemma init_service_inj: "init_service f = init_service g \<longleftrightarrow> f = g"
  by (cases f; cases g) simp_all

lemma card_inits: "card (F :: init_fn set) \<le> 3"
proof -
  have "F \<subseteq> {Timer_init, Log_init, Kv_db_init}" using init_fn.exhaust by auto
  then have "card F \<le> card {Timer_init, Log_init, Kv_db_init}" by (rule card_mono[rotated]) simp
  then show ?thesis by simp
qed

lemma run_init_installs:
  assumes i: "installed F x" and f: "f \<notin> F"
  shows "installed (insert f F) (run_init f x)"
proof -
  obtain b s where x: "x = (b, s)" by (cases x)
  define p where "p = (case f of Timer_init \<Rightarrow> g_timer_ops | Log_init \<Rightarrow> g_log_ops | Kv_db_init \<Rightarrow> g_kv_ops)"
  define reg where "reg = snd (nos_embedded_service_register (init_service f) p (embedded s))"
  have p: "p \<noteq> NULL" by (cases f) (simp_all add: p_def g_timer_ops_def g_log_ops_def g_kv_ops_def)
  have fin: "finite F" using finite_subset[of F "{Timer_init, Log_init, Kv_db_init}"] init_fn.exhaust by auto
  have "g_embedded_count (embedded s) < MAX_EMBEDDED_SERVICES"
    using i card_inits[of F] by (simp add: installed_def x MAX_EMBEDDED_SERVICES_def)
  note g = embedded_get_register[where reg = "embedded s" and n = "init_service f" and p = p, OF _ this, folded reg_def]
  define y where "y = run_init f x"
  have y: "embedded (snd y) = reg" "fst y = (b \<or> f = Timer_init)" "initialized (log_ctx (snd y)) = (initialized (log_ctx s) \<or> f = Log_init)"
    using i f unfolding y_def by (cases f; simp add: x installed_def reg_def p_def nos_timer_init_def nos_log_service_init_def nos_kv_db_init_def nos_log_init_def)+
  have "installed (insert f F) y"
    unfolding installed_def y
  proof (intro conjI allI)
    show "embedded_ok reg" "g_embedded_count reg = card (insert f F)" "embedded_names reg = init_service ` insert f F"
      using g i f fin by (simp_all add: installed_def x)
    show "(nos_embedded_service_get (init_service h) reg \<noteq> NULL) = (h \<in> insert f F)" for h
    proof -
      have "embedded_ok (embedded s)" "init_service h \<in> embedded_names (embedded s) \<longleftrightarrow> h \<in> F"
        "nos_embedded_service_get (init_service h) (embedded s) \<noteq> NULL \<longleftrightarrow> h \<in> F"
        using i init_service_inj by (auto simp: installed_def x)
      then show ?thesis using g(4)[of "init_service h"] p init_service_inj[of h f] by (cases "h \<in> F"; cases "h = f") simp_all
    qed
    show "(b \<or> f = Timer_init) = (Timer_init \<in> insert f F)" "(initialized (log_ctx s) \<or> f = Log_init) = (Log_init \<in> insert f F)"
      using i by (auto simp: installed_def x)
  qed
  then show ?thesis by (simp add: y_def)
qed

lemma run_inits_install:
  "installed F x \<Longrightarrow> distinct fs \<Longrightarrow> set fs \<inter> F = {} \<Longrightarrow> installed (set fs \<union> F) (foldl (\<lambda>x f. run_init f x) x fs)"
proof (induction fs arbitrary: F x)
  case (Cons f fs)
  have "installed (set fs \<union> insert f F) (foldl (\<lambda>x f. run_init f x) (run_init f x) fs)"
    by (rule Cons.IH[OF run_init_installs]) (use Cons.prems in auto)
  then show ?case by simp
qed simp

lemma run_inits_frame:
  "\<exists>l e. snd (foldl (\<lambda>x f. run_init f x) x fs) = (snd x)\<lparr>log_ctx := l, embedded := e\<rparr>"
proof (induction fs arbitrary: x)
  case Nil
  then show ?case by (intro exI[of _ "log_ctx (snd x)"] exI[of _ "embedded (snd x)"]) simp
next
  case (Cons f fs)
  have "\<exists>l e. snd (run_init f x) = (snd x)\<lparr>log_ctx := l, embedded := e\<rparr>"
  proof (cases x; cases f)
    fix b s assume x: "x = (b, s)"
    show ?thesis if "f = Timer_init"
      by (intro exI[of _ "log_ctx s"] exI[of _ "snd (nos_timer_init (b, embedded s))"]) (simp add: x that Let_def split: prod.split)
    show ?thesis if "f = Log_init" by (auto simp: x that Let_def split: prod.split)
    show ?thesis if "f = Kv_db_init"
      by (intro exI[of _ "log_ctx s"] exI[of _ "nos_kv_db_init (embedded s)"]) (simp add: x that)
  qed
  then obtain l e where 1: "snd (run_init f x) = (snd x)\<lparr>log_ctx := l, embedded := e\<rparr>" by blast
  obtain l' e' where "snd (foldl (\<lambda>x f. run_init f x) x (f # fs)) = (snd (run_init f x))\<lparr>log_ctx := l', embedded := e'\<rparr>"
    using Cons.IH[of "run_init f x"] by auto
  then have "snd (foldl (\<lambda>x f. run_init f x) x (f # fs)) = (snd x)\<lparr>log_ctx := l', embedded := e'\<rparr>" using 1 by simp
  then show ?case by blast
qed

lemma init_bins_total:
  assumes "\<And>sz. memalign sz"
  shows "\<exists>q. init_bins memalign i ds p = Some q"
  by (induction ds arbitrary: i p) (use assms in \<open>simp_all add: Let_def\<close>)

lemma shm_init_frame: "\<exists>st m q. nos_shm_init mapped reads name s = (st, s\<lparr>shmem := m, local_queue := q\<rparr>)"
proof -
  have "s = s\<lparr>shmem := shmem s, local_queue := local_queue s\<rparr>" "s\<lparr>shmem := x\<rparr> = s\<lparr>shmem := x, local_queue := local_queue s\<rparr>" for x
    by simp_all
  then have f: "\<exists>m q. s = s\<lparr>shmem := m, local_queue := q\<rparr>" "\<exists>m q. s\<lparr>shmem := x\<rparr> = s\<lparr>shmem := m, local_queue := q\<rparr>" for x
    by blast+
  show ?thesis
    unfolding nos_shm_init_def using f by (auto simp del: ex_simps split: option.split)
qed

text \<open>The state that \<open>main\<close> has reached when it builds the threads.\<close>

lemma before_threads:
  assumes s: "process_start s" and inits: "inits_of (nd_platform_inits nd) = Some fs" "distinct fs"
    and mem: "\<And>sz. env_memalign env sz" and pools: "\<And>d. d \<in> set (nd_buffer_pools nd) \<Longrightarrow> unat (def_chunk_count d) < 2 ^ 31"
  obtains u where "main_start env (Some nd) s = Some (0, node_start sys_env (env_eventfd env) (env_listen_fd env) (env_bind_ok env) (env_listen_ok env) nd u)"
    "unstarted nd u" "before_start u" "comp_addrs u = comp_addrs s" "init_bins (env_memalign env) 0 (nd_buffer_pools nd) empty_pool = Some (bufs u)"
    "\<And>f. has_ops (init_service f) u \<longleftrightarrow> f \<in> set fs"
proof -
  obtain st m q where shm: "nos_shm_init (env_shm env) (env_magic env) (nd_name nd) (s\<lparr>node_def := nd, local_name := nd_name nd\<rparr>) =
      (st, s\<lparr>node_def := nd, local_name := nd_name nd, shmem := m, local_queue := q\<rparr>)"
    using shm_init_frame by blast
  define v where "v = s\<lparr>node_def := nd, local_name := nd_name nd, shmem := m, local_queue := q\<rparr>"
  have v: "embedded v = empty_embedded" "\<not> initialized (log_ctx v)" using s by (simp_all add: v_def process_start_def)
  have get: "nos_embedded_service_get n empty_embedded = NULL" for n
    by (simp add: nos_embedded_service_get_def empty_embedded_def find_slot_def)
  have quiet: "nos_log_raw lv i t v = v" for lv i t using get v(1) by (simp add: nos_log_raw_def has_ops_def)
  have "installed {} (False, v)" using v get
    by (simp add: installed_def embedded_ok_def embedded_names_def) (simp add: empty_embedded_def MAX_EMBEDDED_SERVICES_def)
  from run_inits_install[OF this inits(2)] have inst: "installed (set fs) (foldl (\<lambda>x f. run_init f x) (False, v) fs)" by simp
  obtain l e where le: "snd (foldl (\<lambda>x f. run_init f x) (False, v) fs) = v\<lparr>log_ctx := l, embedded := e\<rparr>" using run_inits_frame by fastforce
  then have pi: "platform_init (nd_platform_inits nd) (False, v) = Some (v\<lparr>log_ctx := l, embedded := e\<rparr>)"
    using platform_init_list[OF inits(1)] by simp
  define w where "w = nos_log_raw NOS_LOG_LEVEL_INFO 0 (''--- [NOS Node: '' @ nd_name nd @ ''] Starting ---'') (v\<lparr>log_ctx := l, embedded := e\<rparr>)"
  have w: "bufs w = empty_pool" "threads w = Map.empty" "conns w = []" "kv_tables w = []" "calloc_ok w = calloc_ok s" "\<not> crashed w"
    "node_def w = nd" "loaded_info w = []" "comps w = Map.empty" "registry w = empty_registry" "comp_addrs w = comp_addrs s" "addr_no w = addr_no s"
    "embedded w = e"
    using s by (simp_all add: w_def v_def process_start_def)
  obtain p where p: "init_bins (env_memalign env) 0 (nd_buffer_pools nd) empty_pool = Some p" using init_bins_total mem by blast
  then obtain k where k: "pool_prefix k p (nd_buffer_pools nd)" using init_bins_empty by blast
  have pool: "nos_buffer_init_pool (env_memalign env) (Some (nd_buffer_pools nd)) (bufs w) = Some (NOS_OK, p)"
    using p w(1) by (simp add: nos_buffer_init_pool_def) (simp add: empty_pool_def)
  have "main_start env (Some nd) s = Some (0, node_start sys_env (env_eventfd env) (env_listen_fd env) (env_bind_ok env) (env_listen_ok env) nd (w\<lparr>bufs := p\<rparr>))"
    by (simp only: main_start_def option.case Let_def shm prod.case v_def[symmetric] quiet if_cancel pi bind.bind_lunit w_def[symmetric] pool)
  moreover have "unstarted nd (w\<lparr>bufs := p\<rparr>)" using w s by (simp add: unstarted_def addrs_distinct_def process_start_def)
  moreover have "before_start (w\<lparr>bufs := p\<rparr>)"
    using w s pool_prefix_ok[OF k pools] by (auto simp: before_start_def kv_typed_def process_start_def)
  moreover have "has_ops (init_service f) (w\<lparr>bufs := p\<rparr>) \<longleftrightarrow> f \<in> set fs" for f
    using inst le w(13) by (simp add: installed_def has_ops_def)
  ultimately show ?thesis using that[of "w\<lparr>bufs := p\<rparr>"] w(11) p by simp
qed

end
