(* ===== verification/NodeUp.thy ===== *)
theory NodeUp
  imports BootMain
begin

text \<open>
  Starting the components: what a node keeps when its threads call the start handlers of the sample components, in
  whatever order the threads run.
\<close>

section \<open>Component 1\<close>

text \<open>The other sample components only return \<open>NOS_OK\<close>. Component 1 starts its timer and subscribes to a key of the store.\<close>

lemma timer_typed:
  "kv_tables (snd (timer_create_auto cb a s)) = kv_tables s" "privs (snd (timer_create_auto cb a s)) = privs s"
  "crashed (snd (timer_create_auto cb a s)) = crashed s"
  "kv_tables (snd (timer_start_auto self tm n per s)) = kv_tables s" "privs (snd (timer_start_auto self tm n per s)) = privs s"
  "crashed (snd (timer_start_auto self tm n per s)) = crashed s"
  by (auto simp: timer_create_auto_def timer_start_auto_def nos_timer_create_def nos_timer_start_def set_timer_def upd_heap_def
      upd_thread_def get_monotonic_ms_def Let_def case_prod_beta split: option.splits if_splits bool.splits)

lemma kv_subscribe_typed:
  assumes ty: "kv_typed s" and i: "handle_ok (length (kv_tables s)) (Some i)" and c: "comps s p \<noteq> None"
  shows "\<exists>st s'. kv_subscribe_auto (Some i) key (model_1_sub p) s = Some (st, s') \<and> kv_typed s' \<and>
     length (kv_tables s') = length (kv_tables s) \<and> privs s' = privs s"
proof (cases "has_ops ''SVC_KV_DB'' s")
  case True
  let ?t = "kv_tables s ! i"
  have "?t \<in> set (kv_tables s)" using i by (simp add: handle_ok_def)
  then have t: "subs_typed (comps s) ?t" using ty by (simp add: kv_typed_def)
  have n: "sub_notify (model_1_sub p) \<noteq> NULL" by (simp add: model_1_sub_def)
  obtain st t' where sub: "nos_kv_subscribe (Some ?t) (Some key) (model_1_sub p) = Some (st, Some t')" "kv_inv t'"
      "case kv_map ?t key of None \<Rightarrow> st = NOS_ERR \<and> t' = ?t
       | Some (v, subs) \<Rightarrow> st = NOS_OK \<and> kv_map t' = (kv_map ?t)(key \<mapsto> (v, if model_1_sub p \<in> set subs then subs else model_1_sub p # subs))"
    using nos_kv_subscribe_correct[OF _ n, of ?t key] t by (auto simp: subs_typed_def)
  have "subs_typed (comps s) t'"
    unfolding subs_typed_def
  proof (intro conjI allI impI)
    fix k v subs x assume m: "kv_map t' k = Some (v, subs)" and x: "x \<in> set subs"
    have "x = model_1_sub p \<or> (\<exists>v subs. kv_map ?t k = Some (v, subs) \<and> x \<in> set subs)"
      using sub(3) m x by (cases "kv_map ?t key") (auto split: if_splits)
    then show "sub_notify x = fn_ptr Comp_1 Fn_notify" "comps s (sub_arg x) \<noteq> None"
      using t c by (auto simp: subs_typed_def model_1_sub_def)
  qed (rule sub(2))
  then have "kv_typed (kv_store (Some i) (Some t') s)" using ty set_update_subset_insert[of "kv_tables s" i t']
    by (auto simp: kv_typed_def kv_store_def)
  then show ?thesis using True sub(1) by (simp add: kv_subscribe_auto_def kv_handle_def) (simp add: kv_store_def)
qed (use ty in \<open>simp add: kv_subscribe_auto_def\<close>)

text \<open>What a start handler keeps of a node.\<close>

definition starts :: "lib \<Rightarrow> ptr \<Rightarrow> sys_node \<Rightarrow> sys_node \<Rightarrow> bool" where
  "starts l p s s' \<longleftrightarrow> same_node s s' \<and> kv_typed s' \<and> length (kv_tables s) \<le> length (kv_tables s') \<and>
     priv_ok l (length (kv_tables s')) (privs s' p) \<and> (privs s p \<noteq> None \<longrightarrow> privs s' p \<noteq> None) \<and> (\<forall>q. q \<noteq> p \<longrightarrow> privs s' q = privs s q)"

lemma model_1_starts:
  assumes ty: "kv_typed s" and c: "comps s p = Some c" and pr: "privs s p = Some (Priv_1 tm0 t0)"
  shows "\<exists>s'. model_1_start p s = Some (NOS_OK, s') \<and> starts Comp_1 p s s'"
proof -
  obtain tm s1 where s1: "timer_create_auto (fn_ptr Comp_1 Fn_callback) p s = (tm, s1)" by (metis surj_pair)
  define s2 where "s2 = (if tm \<noteq> NULL then log_info c ''Heartbeat timer object created and started (10s)'' (snd (timer_start_auto p tm 10000 True s1)) else s1)"
  have f1: "same_node s s1" "kv_tables s1 = kv_tables s" "privs s1 = privs s"
    using auto_node(1)[where s = s and cb = "fn_ptr Comp_1 Fn_callback" and a = p] timer_typed(1,2)[where cb = "fn_ptr Comp_1 Fn_callback" and a = p and s = s] s1 by simp_all
  have "same_node s1 (snd (timer_start_auto p tm 10000 True s1))" "same_node x (nos_log_raw lv i m x)" for x lv i m
    by (rule auto_node(2), rule same_flow_node) simp
  then have f2: "same_node s s2" "kv_tables s2 = kv_tables s" "privs s2 = privs s"
    using f1 timer_typed same_node_trans by (auto simp: s2_def)
  have t2: "kv_typed s2" using ty f2(2) same_nodeD(3)[OF f2(1)] by (simp add: kv_typed_def)
  obtain t s3 where s3: "kv_create_auto ''CompStates'' 32 4 128 s2 = Some (t, s3)" "kv_typed s3" "length (kv_tables s2) \<le> length (kv_tables s3)"
      "handle_ok (length (kv_tables s3)) t" "same_flow s2 s3" "privs s3 = privs s2"
    by (rule kv_create_typed[OF t2 comp_states_size(1-5)])
  define s4 where "s4 = set_priv p (Some (Priv_1 tm t)) s3"
  have f4: "same_node s s4" "kv_typed s4" "kv_tables s4 = kv_tables s3" "privs s4 = (privs s)(p \<mapsto> Priv_1 tm t)"
    using f2 s3 same_node_trans[OF f2(1) same_flow_node[OF s3(5)]] same_node_trans[OF _ same_flow_node[of s3 s4]] by (simp_all add: s4_def)
  have c4: "comps s4 p \<noteq> None" using c same_nodeD(3)[OF f4(1)] by simp
  have run: "model_1_start p s = (if t = None then Some (NOS_OK, s4) else do {
      (st, x) \<leftarrow> kv_subscribe_auto t (key32 ''Comp-2'') (model_1_sub p) s4;
      Some (NOS_OK, if st = NOS_OK then log_info c ''Subscribed to Comp-2 state changes in KV DB'' x
        else log_warn c ''Failed to subscribe to Comp-2 state (might not exist yet)'' x) })"
    by (simp only: model_1_start_def pr c option.case prod.case comp_priv.case s1 Let_def s2_def[symmetric] s3(1) bind.bind_lunit s4_def[symmetric])
  have ok: "starts Comp_1 p s x" if "same_node s4 x" "kv_typed x" "length (kv_tables x) = length (kv_tables s4)" "privs x = privs s4" for x
    using that same_node_trans[OF f4(1) that(1)] f2(2) f4(3,4) s3(3,4) by (simp add: starts_def)
  show ?thesis
  proof (cases t)
    case None
    then show ?thesis using run ok[of s4] f4(2) by simp
  next
    case (Some i)
    then have "handle_ok (length (kv_tables s4)) (Some i)" using s3(4) f4(3) by simp
    from kv_subscribe_typed[OF f4(2) this c4] obtain st x where x: "kv_subscribe_auto t (key32 ''Comp-2'') (model_1_sub p) s4 = Some (st, x)" "kv_typed x"
        "length (kv_tables x) = length (kv_tables s4)" "privs x = privs s4" using Some by blast
    have "same_node s4 x" by (rule same_flow_node[OF kv_sub_flow(1)[OF x(1)]])
    then have "same_node s4 (nos_log_raw lv k m x)" for lv k m using same_node_trans same_flow_node[of x] by simp
    then show ?thesis using run Some x ok by (auto intro!: ok)
  qed
qed

section \<open>Starting a component\<close>

text \<open>A node after starts: the status of components and the private data of those with a start handler may differ.\<close>

definition strip :: "nos_component \<Rightarrow> nos_component" where "strip c = c\<lparr>comp_status := NOS_COMP_ST_LOADED\<rparr>"

lemma strip_eq:
  assumes "strip c' = strip c"
  shows "comp_id c' = comp_id c" "comp_name c' = comp_name c" "lib_comp l c' = lib_comp l c" "comp_on_msg c' = comp_on_msg c"
    "comp_start c' = comp_start c"
proof -
  have "comp_id (strip x) = comp_id x" "comp_name (strip x) = comp_name x" "lib_comp l (strip x) = lib_comp l x" "comp_on_msg (strip x) = comp_on_msg x"
    "comp_start (strip x) = comp_start x" for x by (simp_all add: strip_def)
  then show "comp_id c' = comp_id c" "comp_name c' = comp_name c" "lib_comp l c' = lib_comp l c" "comp_on_msg c' = comp_on_msg c"
    "comp_start c' = comp_start c" using assms by metis+
qed

definition begun :: "sys_node \<Rightarrow> sys_node \<Rightarrow> bool" where
  "begun s s' \<longleftrightarrow> comp_tables s' = comp_tables s \<and> registry s' = registry s \<and> loaded_info s' = loaded_info s \<and> node_def s' = node_def s \<and>
     queue_view s' = queue_view s \<and> conns s' = conns s \<and> bufs s' = bufs s \<and> embedded s' = embedded s \<and> worker_count s' = worker_count s \<and>
     (\<forall>p. map_option strip (comps s' p) = map_option strip (comps s p)) \<and>
     (\<forall>p c. comps s p = Some c \<longrightarrow> comp_start c = NULL \<longrightarrow> privs s' p = privs s p)"

lemma begun_comps:
  assumes "begun s s'"
  shows "comps s' p = None \<longleftrightarrow> comps s p = None" "comps s p = Some c \<Longrightarrow> \<exists>c'. comps s' p = Some c' \<and> strip c' = strip c"
    "comps s' p = Some c' \<Longrightarrow> \<exists>c. comps s p = Some c \<and> strip c' = strip c"
proof -
  have "map_option strip (comps s' p) = map_option strip (comps s p)" using assms by (simp add: begun_def)
  then show "comps s' p = None \<longleftrightarrow> comps s p = None" "comps s p = Some c \<Longrightarrow> \<exists>c'. comps s' p = Some c' \<and> strip c' = strip c"
    "comps s' p = Some c' \<Longrightarrow> \<exists>c. comps s p = Some c \<and> strip c' = strip c"
    by (cases "comps s p"; cases "comps s' p"; simp)+
qed

lemma begun_trans:
  assumes "begun s s'" "begun s' s''"
  shows "begun s s''"
proof -
  have "privs s'' p = privs s p" if c: "comps s p = Some c" "comp_start c = NULL" for p c
  proof -
    obtain c' where "comps s' p = Some c'" "strip c' = strip c" using begun_comps(2)[OF assms(1) c(1)] by blast
    then show ?thesis using assms c strip_eq(5) unfolding begun_def by metis
  qed
  then show ?thesis using assms unfolding begun_def by auto
qed

lemma begun_same:
  assumes "begun s s'"
  shows "comp_list s' = comp_list s" "table_ok s' = table_ok s" "has_comp_id s' = has_comp_id s" "svc_target s' = svc_target s"
proof -
  show cl: "comp_list s' = comp_list s" "table_ok s' = table_ok s"
    using comp_tables_cong[of s' s] assms by (simp_all add: begun_def)
  have h: "has_comp_id s' cid p = has_comp_id s cid p" for cid p
  proof (cases "comps s p")
    case None
    then show ?thesis using begun_comps(1)[OF assms, of p] by (simp add: has_comp_id_def)
  next
    case (Some c)
    then obtain c' where c': "comps s' p = Some c'" "strip c' = strip c" using begun_comps(2)[OF assms] by blast
    then show ?thesis using Some strip_eq(1)[OF c'(2)] by (simp add: has_comp_id_def)
  qed
  then show hc: "has_comp_id s' = has_comp_id s" by (simp add: fun_eq_iff)
  have step: "find_owner_from x cid k (Suc n) =
      (if list_ex (has_comp_id x cid) (comp_list x (Worker k)) then Some (Worker k) else find_owner_from x cid (Suc k) n)" for x :: sys_node and cid k n
    using comp_list_thread[where s = x and r = "Worker k"] by (cases "threads x (Worker k)") (simp_all add: comp_list_def comp_tables_def)
  have f: "find_owner_from s' cid k n = find_owner_from s cid k n" for cid k n
    by (induction n arbitrary: k) (simp, simp only: step hc cl)
  show "svc_target s' = svc_target s"
    using assms unfolding svc_target_def fun_eq_iff node_get_loaded_comp_by_id_def begun_def hc f by metis
qed

lemma begun_booted:
  assumes b: "booted nd s" and f: "begun s s'" and s': "well_typed s'" "live_ok s'" "\<not> crashed s'"
  shows "booted nd s'"
proof -
  note g = begun_same[OF f]
  have fv: "registry s' = registry s" "loaded_info s' = loaded_info s" "node_def s' = node_def s" "queue_view s' = queue_view s"
    "conns s' = conns s" "bufs s' = bufs s" using f by (simp_all add: begun_def)
  have "mgr_ok s" using b by (simp add: booted_def)
  then have "mgr_ok s'"
    unfolding mgr_ok_def loaded_ok_def tables_ok_def routes_ok_def route_ok_def g fv begun_comps(1)[OF f] .
  moreover have "owned s' []" using b fv by (intro owned_cong[of s' s]) (simp_all add: booted_def flow_view_def)
  moreover have "node_queue s' = node_queue s" using queue_view_eq[OF fun_cong[OF fv(4)]] by blast
  then have "no_msg s'" using b fv(5) by (simp add: booted_def no_msg_def)
  ultimately show ?thesis using b s' fv g by (simp add: booted_def)
qed

lemma begun_placed:
  assumes "begun s s'" "placed s es"
  shows "placed s' es"
proof -
  have "is_entry (comps s') i e" if "is_entry (comps s) i e" for i e
  proof -
    obtain r cid name model c l where e: "e = (r, cid, name, model)" "info_owner i = r" "comps s (info_comp i) = Some c" "comp_id c = cid"
      "comp_name c = name" "file_lib (''./'' @ model) = Some l" "lib_comp l c" using \<open>is_entry (comps s) i e\<close> by (auto simp: is_entry_def)
    obtain c' where "comps s' (info_comp i) = Some c'" "strip c' = strip c" using begun_comps(2)[OF assms(1) e(3)] by blast
    then show ?thesis using e strip_eq[of c' c] by (auto simp: is_entry_def)
  qed
  then show ?thesis
    using assms begun_same(1)[OF assms(1)] list_all2_mono[of "is_entry (comps s)" "loaded_info s" es "is_entry (comps s')"]
    by (simp add: placed_def begun_def)
qed

text \<open>A component whose start handler returns is active afterwards; the sample handlers always return.\<close>

lemma lib_starts:
  assumes ty: "well_typed s" and lv: "live_ok s" and c: "comps s p = Some c" and st: "comp_start c \<noteq> NULL"
  obtains l s' where "lib_comp l c" "comp_call_start (comp_start c) p s = (NOS_OK, s')" "starts l p s s'" "crashed s' = crashed s"
proof -
  obtain l where l: "lib_comp l c" "l = Comp_1 \<longrightarrow> privs s p \<noteq> None" using lv c unfolding live_ok_def by blast
  have l4: "l \<in> {Comp_1, Comp_2, Comp_4, Comp_5}" and ptr: "comp_start c = fn_ptr l Fn_start" using lib_compD(3)[OF l(1)] st by (auto split: if_splits)
  have pr: "priv_ok l (length (kv_tables s)) (privs s p)"
    using ty c lib_compD(1)[OF l(1)] by (simp add: well_typed_def comps_typed_def)
  have kv: "kv_typed s" using ty by (simp add: well_typed_def)
  show ?thesis
  proof (cases "l = Comp_1")
    case True
    then obtain tm t where "privs s p = Some (Priv_1 tm t)" using l(2) pr by (auto split: comp_priv.splits option.splits)
    from model_1_starts[OF kv c this] obtain s' where s': "model_1_start p s = Some (NOS_OK, s')" "starts Comp_1 p s s'" by blast
    then show ?thesis using that[OF l(1), of s'] True ptr same_nodeD(15)[of s s'] by (simp add: comp_call_start_def starts_def)
  next
    case False
    then have "lib_start l p s = Some (NOS_OK, s)" using l4 by auto
    then show ?thesis using that[OF l(1), of s] ptr pr kv by (simp add: comp_call_start_def starts_def)
  qed
qed

lemma start_component_begun:
  assumes b: "booted nd s" and s': "s' = start_component comp_call_start p s"
  shows "begun s s'" "booted nd s'" "p \<noteq> NULL \<Longrightarrow> comps s p = Some c \<Longrightarrow> comp_start c \<noteq> NULL \<Longrightarrow>
     \<exists>c'. comps s' p = Some c' \<and> comp_status c' = NOS_COMP_ST_ACTIVE"
    "comps s q = Some d \<Longrightarrow> comp_status d = NOS_COMP_ST_ACTIVE \<Longrightarrow> \<exists>c'. comps s' q = Some c' \<and> comp_status c' = NOS_COMP_ST_ACTIVE"
proof -
  have wt: "well_typed s" "live_ok s" "\<not> crashed s" using b by (simp_all add: booted_def)
  have "begun s s' \<and> booted nd s' \<and> (\<forall>c. p \<noteq> NULL \<longrightarrow> comps s p = Some c \<longrightarrow> comp_start c \<noteq> NULL \<longrightarrow>
       (\<exists>c'. comps s' p = Some c' \<and> comp_status c' = NOS_COMP_ST_ACTIVE)) \<and>
     (\<forall>q c. comps s q = Some c \<longrightarrow> comp_status c = NOS_COMP_ST_ACTIVE \<longrightarrow> (\<exists>c'. comps s' q = Some c' \<and> comp_status c' = NOS_COMP_ST_ACTIVE))"
  proof (cases "p = NULL \<or> comps s p = None \<or> comp_start (the (comps s p)) = NULL \<or> comp_status (the (comps s p)) = NOS_COMP_ST_ACTIVE")
    case True
    then have "s' = s" using s' by (cases "comps s p") (auto simp: start_component_def)
    then show ?thesis using True b by (auto simp: begun_def)
  next
    case False
    then obtain c where c: "p \<noteq> NULL" "comps s p = Some c" "comp_start c \<noteq> NULL" "comp_status c \<noteq> NOS_COMP_ST_ACTIVE" by auto
    obtain l x where l: "lib_comp l c" "comp_call_start (comp_start c) p s = (NOS_OK, x)" "starts l p s x" "crashed x = crashed s"
      by (rule lib_starts[OF wt(1,2) c(2,3)])
    have x: "same_node s x" "kv_typed x" "length (kv_tables s) \<le> length (kv_tables x)" "priv_ok l (length (kv_tables x)) (privs x p)"
        "privs s p \<noteq> None \<longrightarrow> privs x p \<noteq> None" "\<forall>q. q \<noteq> p \<longrightarrow> privs x q = privs s q" using l(3) by (simp_all add: starts_def)
    note f = same_nodeD[OF x(1)]
    define a where "a = c\<lparr>comp_status := NOS_COMP_ST_ACTIVE\<rparr>"
    have e: "s' = x\<lparr>comps := (comps s)(p \<mapsto> a)\<rparr>" using c l(2) f(3) by (simp add: s' start_component_def a_def)
    have "privs s' q = privs s q" if "comps s q = Some d" "comp_start d = NULL" for q d
      using that x(6) c(2,3) by (cases "q = p") (simp_all add: e)
    moreover have "map_option strip (comps s' q) = map_option strip (comps s q)" for q
      using c(2) by (simp add: e strip_def a_def)
    moreover have "comp_tables s' = comp_tables x" "queue_view s' = queue_view x"
      by (simp_all add: e comp_tables_def[abs_def] queue_view_def[abs_def])
    ultimately have bg: "begun s s'" using f by (simp add: begun_def) (simp add: e)
    have "lib_comp l a" "comp_on_msg a = comp_on_msg c" using l(1) by (simp_all add: a_def)
    then have "well_typed s'"
      unfolding well_typed_def comps_typed_def
    proof (intro conjI allI impI)
      fix q d k assume d: "comps s' q = Some d" "comp_on_msg d = fn_ptr k Fn_on_msg"
      show "priv_ok k (length (kv_tables s')) (privs s' q)"
      proof (cases "q = p")
        case True
        then have "fn_ptr k Fn_on_msg = fn_ptr l Fn_on_msg" using d \<open>lib_comp l a\<close> lib_compD(1) by (simp add: e)
        then have "k = l" using fn_ptr_inj by blast
        then show ?thesis using x(4) True by (simp add: e)
      next
        case False
        then have "priv_ok k (length (kv_tables s)) (privs s q)" using d wt(1) by (simp add: e well_typed_def comps_typed_def)
        then show ?thesis using priv_ok_mono[OF _ x(3)] x(6) False by (simp add: e)
      qed
    qed (use kv_typed_mono[OF x(2), of s'] in \<open>simp add: e f(3)\<close>)
    moreover have "live_ok s'"
      unfolding live_ok_def
    proof (intro allI impI)
      fix q d assume d: "comps s' q = Some d"
      show "\<exists>k. lib_comp k d \<and> (k = Comp_1 \<longrightarrow> privs s' q \<noteq> None)"
      proof (cases "q = p")
        case True
        obtain k where "lib_comp k c" "k = Comp_1 \<longrightarrow> privs s p \<noteq> None" using wt(2) c(2) unfolding live_ok_def by blast
        then show ?thesis using True d x(5) by (auto simp: e a_def)
      qed (use d wt(2) x(6) in \<open>simp add: e live_ok_def\<close>)
    qed
    ultimately have "booted nd s'" using begun_booted[OF b bg] wt(3) l(4) by (simp add: e)
    then show ?thesis using bg by (auto simp: e a_def)
  qed
  then show "begun s s'" "booted nd s'" "p \<noteq> NULL \<Longrightarrow> comps s p = Some c \<Longrightarrow> comp_start c \<noteq> NULL \<Longrightarrow>
     \<exists>c'. comps s' p = Some c' \<and> comp_status c' = NOS_COMP_ST_ACTIVE"
    "comps s q = Some d \<Longrightarrow> comp_status d = NOS_COMP_ST_ACTIVE \<Longrightarrow> \<exists>c'. comps s' q = Some c' \<and> comp_status c' = NOS_COMP_ST_ACTIVE"
    by blast+
qed

section \<open>Starting the threads\<close>

text \<open>The threads start their components in the order \<open>rs\<close>; a thread may come more than once.\<close>

definition start_threads :: "thread_ref list \<Rightarrow> sys_node \<Rightarrow> sys_node" where
  "start_threads rs s = foldl (\<lambda>s r. start_components comp_call_start r s) s rs"

definition active :: "sys_node \<Rightarrow> ptr \<Rightarrow> bool" where
  "active s p \<longleftrightarrow> (\<exists>c. comps s p = Some c \<and> comp_status c = NOS_COMP_ST_ACTIVE)"

lemma start_list_begun:
  assumes "booted nd s" "s' = foldl (\<lambda>s p. start_component comp_call_start p s) s ps"
  shows "begun s s' \<and> booted nd s' \<and> (\<forall>p. active s p \<longrightarrow> active s' p) \<and>
     (\<forall>p \<in> set ps. \<forall>c. p \<noteq> NULL \<longrightarrow> comps s p = Some c \<longrightarrow> comp_start c \<noteq> NULL \<longrightarrow> active s' p)"
  using assms
proof (induction ps arbitrary: s)
  case Nil
  then show ?case by (simp add: begun_def)
next
  case (Cons p ps)
  let ?u = "start_component comp_call_start p s"
  note u = start_component_begun[OF Cons.prems(1) refl, where p = p]
  have i: "begun ?u s'" "booted nd s'" "\<And>q. active ?u q \<Longrightarrow> active s' q"
      "\<And>q c. q \<in> set ps \<Longrightarrow> q \<noteq> NULL \<Longrightarrow> comps ?u q = Some c \<Longrightarrow> comp_start c \<noteq> NULL \<Longrightarrow> active s' q"
    using Cons.IH[OF u(2)] Cons.prems(2) by simp_all
  have "active s' q" if q: "q \<in> set (p # ps)" "q \<noteq> NULL" "comps s q = Some c" "comp_start c \<noteq> NULL" for q c
  proof (cases "q = p")
    case True
    then show ?thesis using u(3) q i(3) by (auto simp: active_def)
  next
    case False
    obtain c' where "comps ?u q = Some c'" "strip c' = strip c" using begun_comps(2)[OF u(1) q(3)] by blast
    then show ?thesis using i(4)[of q c'] q False strip_eq(5)[of c' c] by simp
  qed
  moreover have "active s' q" if "active s q" for q using that u(4) i(3)[of q] unfolding active_def by blast
  ultimately show ?case using begun_trans[OF u(1) i(1)] i(2) by blast
qed

lemma start_threads_begun:
  assumes "booted nd s" "s' = start_threads rs s"
  shows "begun s s' \<and> booted nd s' \<and> (\<forall>p. active s p \<longrightarrow> active s' p) \<and>
     (\<forall>r \<in> set rs. \<forall>p \<in> set (comp_list s r). \<forall>c. p \<noteq> NULL \<longrightarrow> comps s p = Some c \<longrightarrow> comp_start c \<noteq> NULL \<longrightarrow> active s' p)"
  using assms
proof (induction rs arbitrary: s)
  case Nil
  then show ?case by (simp add: start_threads_def begun_def)
next
  case (Cons r rs)
  let ?u = "start_components comp_call_start r s"
  have cl: "(case threads s r of None \<Rightarrow> [] | Some th \<Rightarrow> thread_comps th) = comp_list s r"
    using comp_list_thread[where s = s and r = r] by (cases "threads s r") (simp_all add: comp_list_def comp_tables_def)
  note u = start_list_begun[OF Cons.prems(1) refl, of "comp_list s r"]
  have e: "foldl (\<lambda>s p. start_component comp_call_start p s) s (comp_list s r) = ?u" by (simp add: start_components_def cl)
  have ub: "booted nd ?u" "begun s ?u" using u e by simp_all
  have s': "s' = start_threads rs ?u" using Cons.prems(2) by (simp add: start_threads_def)
  note i = Cons.IH[OF ub(1) s']
  have "active s' q" if q: "q \<in> set (comp_list s k)" "k \<in> set (r # rs)" "q \<noteq> NULL" "comps s q = Some c" "comp_start c \<noteq> NULL" for k q c
  proof (cases "k = r")
    case True
    then show ?thesis using u e q i by auto
  next
    case False
    obtain c' where "comps ?u q = Some c'" "strip c' = strip c" using begun_comps(2)[OF ub(2) q(4)] by blast
    then show ?thesis using i q False strip_eq(5)[of c' c] begun_same(1)[OF ub(2)] by auto
  qed
  moreover have "active s' q" if "active s q" for q using that u e i by auto
  ultimately show ?case using begun_trans[OF ub(2)] i by blast
qed

end
