(* ===== verification/BootClaims.thy ===== *)
theory BootClaims
  imports NodeUp CliRun
begin

text \<open>
  The properties of a process from \<open>main\<close> to running components: any manifest that fits, the two sample processes, and
  the performance test on process A.
\<close>

section \<open>Any process\<close>

lemma main_boots:
  assumes s: "process_start s" and fits: "manifest_fits nd" and inits: "inits_of (nd_platform_inits nd) = Some fs" "distinct fs"
    and mem: "\<And>sz. env_memalign env sz" and pools: "\<And>d. d \<in> set (nd_buffer_pools nd) \<Longrightarrow> unat (def_chunk_count d) < 2 ^ 31"
  obtains s' where "main_start env (Some nd) s = Some (0, s')" "\<And>rs. begun s' (start_threads rs s')" "\<And>rs. booted nd (start_threads rs s')"
    "\<And>rs r p c. r \<in> set rs \<Longrightarrow> p \<in> set (comp_list s' r) \<Longrightarrow> p \<noteq> NULL \<Longrightarrow> comps s' p = Some c \<Longrightarrow> comp_start c \<noteq> NULL \<Longrightarrow>
       active (start_threads rs s') p"
    "booted nd s'" "\<And>rs f. has_ops (init_service f) (start_threads rs s') \<longleftrightarrow> f \<in> set fs"
    "init_bins (env_memalign env) 0 (nd_buffer_pools nd) empty_pool = Some (bufs s')"
    "loadable (nd_threads nd) \<Longrightarrow> length (nd_threads nd) \<le> MAX_WORKERS \<Longrightarrow> (\<And>n. comp_addrs s n \<noteq> NULL) \<Longrightarrow>
       placed s' (entries_from 0 (nd_threads nd)) \<and> worker_count s' = length (nd_threads nd)"
proof -
  obtain u where u: "main_start env (Some nd) s = Some (0, node_start sys_env (env_eventfd env) (env_listen_fd env) (env_bind_ok env) (env_listen_ok env) nd u)"
    "unstarted nd u" "before_start u" "comp_addrs u = comp_addrs s" "init_bins (env_memalign env) 0 (nd_buffer_pools nd) empty_pool = Some (bufs u)"
    "\<And>f. has_ops (init_service f) u \<longleftrightarrow> f \<in> set fs"
    using before_threads[where s = s and nd = nd and fs = fs and env = env] assms by metis
  define s' where "s' = node_start sys_env (env_eventfd env) (env_listen_fd env) (env_bind_ok env) (env_listen_ok env) nd u"
  note n = node_start_boot[OF u(2,3) fits s'_def, unfolded u(4)]
  have st: "begun s' (start_threads rs s')" "booted nd (start_threads rs s')"
    "\<And>r p c. r \<in> set rs \<Longrightarrow> p \<in> set (comp_list s' r) \<Longrightarrow> p \<noteq> NULL \<Longrightarrow> comps s' p = Some c \<Longrightarrow> comp_start c \<noteq> NULL \<Longrightarrow> active (start_threads rs s') p" for rs
    using start_threads_begun[OF n(1) refl] by blast+
  have "has_ops (init_service f) (start_threads rs s') \<longleftrightarrow> f \<in> set fs" for f rs
    using u(6) n(2) st(1)[of rs] by (simp add: has_ops_def begun_def)
  then show ?thesis using that[of s'] u(1,5) n st by (simp add: s'_def[symmetric])
qed


text \<open>A process before its start, and a system in which everything can be opened.\<close>

definition new_process :: sys_node where
  "new_process = (sys_sample Map.empty empty_registry Map.empty Map.empty (sample_msg 5))\<lparr>bufs := empty_pool\<rparr>"

definition good_env :: boot_env where
  "good_env = \<lparr>env_shm = Some fresh_shm, env_magic = (\<lambda>_. SHM_MAGIC), env_memalign = (\<lambda>_. True), env_eventfd = (\<lambda>_. 4), env_listen_fd = 5,
     env_bind_ok = True, env_listen_ok = True\<rparr>"

lemma new_process_start: "process_start new_process" "comp_addrs new_process n \<noteq> NULL" "env_memalign good_env sz"
  by (simp_all add: process_start_def new_process_def good_env_def) (simp_all add: sys_sample_def addrs_distinct_def g_log_ctx_def)

section \<open>The sample processes\<close>

text \<open>What the manifests of the two processes have in common, each checked by evaluation.\<close>

definition manifest_good :: "nos_node_def \<Rightarrow> bool" where
  "manifest_good nd \<longleftrightarrow> manifest_fits nd \<and> loadable (nd_threads nd) \<and> length (nd_threads nd) = 2 \<and>
     distinct (map entry_id (entries_from 0 (nd_threads nd))) \<and> list_all (\<lambda>d. def_chunk_count d < 2 ^ 31) (nd_buffer_pools nd)"

lemma manifests_good: "manifest_good g_local_node_def_A" "manifest_good g_local_node_def_B"
  by code_simp+

lemma manifest_inits:
  "inits_of (nd_platform_inits g_local_node_def_A) = Some [Timer_init, Log_init, Kv_db_init]"
  "inits_of (nd_platform_inits g_local_node_def_B) = Some [Log_init]"
  by code_simp+


text \<open>A service and where messages to it go in a running node.\<close>

definition served :: "nos_node_def \<Rightarrow> sys_node \<Rightarrow> nos_service_def \<Rightarrow> bool" where
  "served nd s svc \<longleftrightarrow>
     (if sd_node_name svc = nd_name nd then
        (\<exists>i name model p c l. (Worker i, sd_provider_comp_id svc, name, model) \<in> set (entries_from 0 (nd_threads nd)) \<and>
           reg_route (registry s) (sd_service_id svc) = Some (Local p (Some (Worker i))) \<and> p \<in> set (comp_list s (Worker i)) \<and>
           comps s p = Some c \<and> comp_name c = name \<and> file_lib (''./'' @ model) = Some l \<and> lib_comp l c)
      else if sd_node_name svc = ''Platform'' then
        reg_route (registry s) (sd_service_id svc) = None \<and> has_ops (sd_service_name svc) s
      else
        (\<exists>proc nd'. nos_manifest_get_local proc = Some nd' \<and> nd_name nd' = sd_node_name svc \<and>
           reg_route (registry s) (sd_service_id svc) = Some (Remote (nd_name nd') (nd_uds_path nd')) \<and>
           sd_provider_comp_id svc \<in> entry_id ` set (entries_from 0 (nd_threads nd'))))"

text \<open>What the manifest must say for that, as a check of the manifest alone.\<close>

definition service_good :: "nos_node_def \<Rightarrow> init_fn list \<Rightarrow> nos_service_def \<Rightarrow> bool" where
  "service_good nd fs svc \<longleftrightarrow>
     (if sd_node_name svc = nd_name nd then sd_provider_comp_id svc \<in> set (map entry_id (entries_from 0 (nd_threads nd)))
      else if sd_node_name svc = ''Platform'' then
        sd_remote_uds_path svc = Some [] \<and> list_ex (\<lambda>f. init_service f = sd_service_name svc) fs
      else sd_remote_uds_path svc \<noteq> Some [] \<and> sd_remote_uds_path svc \<noteq> None \<and>
        list_ex (\<lambda>nd'. nd_name nd' = sd_node_name svc \<and>
            stored_route (Remote (sd_node_name svc) (the (sd_remote_uds_path svc))) = Remote (nd_name nd') (nd_uds_path nd') \<and>
            sd_provider_comp_id svc \<in> set (map entry_id (entries_from 0 (nd_threads nd'))))
          [g_local_node_def_A, g_local_node_def_B])"

lemma services_good:
  "list_all (service_good g_local_node_def_A [Timer_init, Log_init, Kv_db_init]) (nd_services g_local_node_def_A)"
  "list_all (service_good g_local_node_def_B [Log_init]) (nd_services g_local_node_def_B)"
  by code_simp+

lemma manifest_found: "nd \<in> {g_local_node_def_A, g_local_node_def_B} \<Longrightarrow> \<exists>proc. nos_manifest_get_local proc = Some nd"
  using nos_manifest_get_local.simps by blast

lemma service_served:
  assumes b: "booted nd s" and p: "placed s (entries_from 0 (nd_threads nd))" "worker_count s = length (nd_threads nd)"
    and d: "distinct (map entry_id (entries_from 0 (nd_threads nd)))"
    and svc: "svc \<in> set (nd_services nd)" "service_good nd fs svc" and ops: "\<And>f. has_ops (init_service f) s \<longleftrightarrow> f \<in> set fs"
  shows "served nd s svc"
proof -
  have r: "reg_route (registry s) (sd_service_id svc) = map_option stored_route (svc_target s (nd_name nd) svc)"
    using b svc(1) by (simp add: booted_def)
  consider (own) "sd_node_name svc = nd_name nd" | (platform) "sd_node_name svc \<noteq> nd_name nd" "sd_node_name svc = ''Platform''"
    | (remote) "sd_node_name svc \<noteq> nd_name nd" "sd_node_name svc \<noteq> ''Platform''" by blast
  then show ?thesis
  proof cases
    case own
    then obtain e where e: "e \<in> set (entries_from 0 (nd_threads nd))" "entry_id e = sd_provider_comp_id svc"
      using svc(2) by (auto simp: service_good_def list_ex_iff)
    obtain q cid name model where q: "e = (q, cid, name, model)" by (cases e)
    obtain i where i: "q = Worker i" "i < worker_count s" using entries_owner[OF e(1)] p(2) q by auto
    have mem: "(Worker i, cid, name, model) \<in> set (entries_from 0 (nd_threads nd))" using e(1) q i by simp
    have l: "loaded_ok s" using b by (simp add: booted_def mgr_ok_def)
    obtain x c lb where x: "\<forall>svc. sd_provider_comp_id svc = cid \<longrightarrow> svc_target s (sd_node_name svc) svc = Some (Local x (Some (Worker i)))"
      "comps s x = Some c" "comp_id c = cid" "comp_name c = name" "lib_comp lb c" "file_lib (''./'' @ model) = Some lb"
      "x \<noteq> NULL" "x \<in> set (comp_list s (Worker i))"
      by (rule placed_target[OF p(1) d mem i(2) l])
    have cid: "cid = sd_provider_comp_id svc" using e(2) q by (simp add: entry_id_def)
    then have "svc_target s (nd_name nd) svc = Some (Local x (Some (Worker i)))" using x(1) own by metis
    then have rt: "reg_route (registry s) (sd_service_id svc) = Some (Local x (Some (Worker i)))" using r by simp
    show ?thesis unfolding served_def if_P[OF own] using mem rt x(2,4-6,8) cid by blast
  next
    case platform
    then obtain f where "f \<in> set fs" "init_service f = sd_service_name svc" "sd_remote_uds_path svc = Some []"
      using svc(2) by (auto simp: service_good_def list_ex_iff)
    then show ?thesis using platform r ops[of f] by (simp add: served_def svc_target_def)
  next
    case remote
    then have ex: "sd_remote_uds_path svc \<noteq> Some []" "sd_remote_uds_path svc \<noteq> None"
      "\<exists>nd' \<in> set [g_local_node_def_A, g_local_node_def_B]. nd_name nd' = sd_node_name svc \<and>
         stored_route (Remote (sd_node_name svc) (the (sd_remote_uds_path svc))) = Remote (nd_name nd') (nd_uds_path nd') \<and>
         sd_provider_comp_id svc \<in> set (map entry_id (entries_from 0 (nd_threads nd')))"
      using svc(2) unfolding service_good_def list_ex_iff by simp_all
    obtain u where u: "sd_remote_uds_path svc = Some u" "u \<noteq> []" using ex(1,2) by auto
    obtain nd' where n: "nd' \<in> {g_local_node_def_A, g_local_node_def_B}" "nd_name nd' = sd_node_name svc"
        "stored_route (Remote (sd_node_name svc) u) = Remote (nd_name nd') (nd_uds_path nd')"
        "sd_provider_comp_id svc \<in> entry_id ` set (entries_from 0 (nd_threads nd'))"
      using ex(3) unfolding u(1) option.sel set_map by (metis empty_set list.simps(15))
    obtain proc where "nos_manifest_get_local proc = Some nd'" using manifest_found[OF n(1)] by blast
    moreover have "reg_route (registry s) (sd_service_id svc) = Some (Remote (nd_name nd') (nd_uds_path nd'))"
      using r u n(2,3) remote(1) by (simp add: svc_target_def)
    ultimately show ?thesis unfolding served_def if_not_P[OF remote(1)] if_not_P[OF remote(2)] using n(2,4) by blast
  qed
qed

text \<open>A sample process that runs.\<close>

lemma proc_boots:
  assumes s: "process_start s" and env: "\<And>sz. env_memalign env sz" "\<And>n. comp_addrs s n \<noteq> NULL"
    and nd: "nos_manifest_get_local proc = Some nd"
  obtains s' fs where "main_start env (Some nd) s = Some (0, s')" "\<And>rs. begun s' (start_threads rs s')" "\<And>rs. booted nd (start_threads rs s')"
    "\<And>rs. placed (start_threads rs s') (entries_from 0 (nd_threads nd))" "worker_count s' = 2" "manifest_good nd"
    "\<And>rs f. has_ops (init_service f) (start_threads rs s') \<longleftrightarrow> f \<in> set fs" "list_all (service_good nd fs) (nd_services nd)"
    "init_bins (\<lambda>_. True) 0 (nd_buffer_pools nd) empty_pool = Some (bufs s')"
proof -
  obtain fs where m: "manifest_good nd" "inits_of (nd_platform_inits nd) = Some fs" "distinct fs" "list_all (service_good nd fs) (nd_services nd)"
  proof (cases proc)
    case ProcA
    then show ?thesis using nd that[of "[Timer_init, Log_init, Kv_db_init]"] manifests_good(1) manifest_inits(1) services_good(1) by simp
  next
    case ProcB
    then show ?thesis using nd that[of "[Log_init]"] manifests_good(2) manifest_inits(2) services_good(2) by simp
  qed
  have f: "manifest_fits nd" "loadable (nd_threads nd)" "length (nd_threads nd) = 2" "length (nd_threads nd) \<le> MAX_WORKERS"
    using m(1) by (simp_all add: manifest_good_def MAX_WORKERS_def)
  have c: "unat (def_chunk_count d) < 2 ^ 31" if "d \<in> set (nd_buffer_pools nd)" for d
    using m(1) that by (auto simp: manifest_good_def list_all_iff word_less_nat_alt)
  have mem: "env_memalign env = (\<lambda>_. True)" using env(1) by (simp add: fun_eq_iff)
  obtain s' where s': "main_start env (Some nd) s = Some (0, s')" "\<And>rs. begun s' (start_threads rs s')" "\<And>rs. booted nd (start_threads rs s')"
    "\<And>rs f. has_ops (init_service f) (start_threads rs s') \<longleftrightarrow> f \<in> set fs"
    "init_bins (env_memalign env) 0 (nd_buffer_pools nd) empty_pool = Some (bufs s')"
    "placed s' (entries_from 0 (nd_threads nd))" "worker_count s' = length (nd_threads nd)"
    using main_boots[OF s f(1) m(2,3) env(1) c] f(2,4) env(2) by metis
  show ?thesis
    using that[OF s'(1,2,3) begun_placed[OF s'(2,6)] _ m(1) s'(4) m(4)] s'(5,7) f(3) mem by simp
qed

text \<open>
  C14 The two sample processes start as their manifests say: every service of either manifest is reachable once the threads
  have started their components. A service of the process itself has a route to a loaded component of the library
  that the manifest names, on the worker it names; an embedded service is installed and needs no route; a service of
  the other process has a route to the socket where that process listens, and is provided there by a component of
  its manifest.
\<close>

theorem sample_processes_serve:
  assumes "process_start s" "\<And>sz. env_memalign env sz" "\<And>n. comp_addrs s n \<noteq> NULL" "nos_manifest_get_local proc = Some nd"
  shows "\<exists>s'. main_start env (nos_manifest_get_local proc) s = Some (0, s') \<and>
     (\<forall>rs. \<forall>svc \<in> set (nd_services nd). served nd (start_threads rs s') svc)"
proof -
  obtain s' fs where s': "main_start env (Some nd) s = Some (0, s')" "\<And>rs. begun s' (start_threads rs s')" "\<And>rs. booted nd (start_threads rs s')"
    "\<And>rs. placed (start_threads rs s') (entries_from 0 (nd_threads nd))" "worker_count s' = 2" "manifest_good nd"
    "\<And>rs f. has_ops (init_service f) (start_threads rs s') \<longleftrightarrow> f \<in> set fs" "list_all (service_good nd fs) (nd_services nd)"
    using proc_boots[OF assms] by metis
  have "served nd (start_threads rs s') svc" if "svc \<in> set (nd_services nd)" for rs svc
  proof (rule service_served[OF s'(3,4) _ _ that _ s'(7)])
    show "worker_count (start_threads rs s') = length (nd_threads nd)"
      using s'(2)[of rs] s'(5,6) by (simp add: begun_def manifest_good_def)
    show "distinct (map entry_id (entries_from 0 (nd_threads nd)))" using s'(6) by (simp add: manifest_good_def)
    show "service_good nd fs svc" using s'(8) that by (simp add: list_all_iff)
  qed
  then show ?thesis using s'(1) assms(4) by auto
qed

theorem sample_processes_serve_witness:
  "\<exists>s'. main_start good_env (nos_manifest_get_local ProcB) new_process = Some (0, s') \<and>
     reg_route (registry (start_threads [Mgmt, Worker 0, Worker 1] s')) 113 = Some (Remote ''ProcA'' ''/tmp/nos_proc_A.sock'')"
proof -
  obtain s' where s': "main_start good_env (nos_manifest_get_local ProcB) new_process = Some (0, s')"
    "\<forall>rs. \<forall>svc \<in> set (nd_services g_local_node_def_B). served g_local_node_def_B (start_threads rs s') svc"
    using sample_processes_serve[where env = good_env, OF new_process_start(1) new_process_start(3,2) nos_manifest_get_local.simps(2)] by blast
  let ?svc = "svc_def ''SVC_REMOTE_PING'' 113 ''ProcA'' 12 ''/tmp/nos_proc_A.sock''" and ?s = "start_threads [Mgmt, Worker 0, Worker 1] s'"
  have n: "?svc \<in> set (nd_services g_local_node_def_B)" "nd_name g_local_node_def_B = ''ProcB''"
    by (simp_all add: g_local_node_def_B_def g_local_services_B_def)
  have "served g_local_node_def_B ?s ?svc" using s'(2) n(1) by blast
  then obtain proc nd' where p: "nos_manifest_get_local proc = Some nd'" "nd_name nd' = ''ProcA''"
      "reg_route (registry ?s) 113 = Some (Remote (nd_name nd') (nd_uds_path nd'))"
    by (auto simp: served_def svc_def_def n(2))
  have "nd_uds_path nd' = ''/tmp/nos_proc_A.sock''"
    using p(1,2) by (cases proc) (auto simp: g_local_node_def_A_def g_local_node_def_B_def)
  then show ?thesis using s'(1) p(2,3) by auto
qed

section \<open>The performance test\<close>

lemma served_local:
  assumes "served nd s svc" "sd_node_name svc = nd_name nd" "(Worker i, sd_provider_comp_id svc, name, model) \<in> set (entries_from 0 (nd_threads nd))"
    "distinct (map entry_id (entries_from 0 (nd_threads nd)))" "file_lib (''./'' @ model) = Some l" "loaded_ok s" "tables_ok s"
  obtains p c where "reg_route (registry s) (sd_service_id svc) = Some (Local p (Some (Worker i)))" "comps s p = Some c" "lib_comp l c" "p \<noteq> NULL"
    "threads s (Worker i) \<noteq> None"
proof -
  obtain j name' model' p c k where x: "(Worker j, sd_provider_comp_id svc, name', model') \<in> set (entries_from 0 (nd_threads nd))"
    "reg_route (registry s) (sd_service_id svc) = Some (Local p (Some (Worker j)))" "p \<in> set (comp_list s (Worker j))" "comps s p = Some c"
    "file_lib (''./'' @ model') = Some k" "lib_comp k c"
    using assms(1) unfolding served_def if_P[OF assms(2)] by blast
  have "(Worker j, sd_provider_comp_id svc, name', model') = (Worker i, sd_provider_comp_id svc, name, model)"
    using inj_onD[OF distinct_map[THEN iffD1, THEN conjunct2, OF assms(4)] _ x(1) assms(3)] by (simp add: entry_id_def)
  then have e: "j = i" "k = l" using x(5) assms(5) by auto
  have "p \<noteq> NULL" using x(3) assms(6,7) unfolding tables_ok_def loaded_ok_def by metis
  moreover have "threads s (Worker j) \<noteq> None" using x(3) by (cases "threads s (Worker j)") (simp_all add: comp_list_def comp_tables_def)
  ultimately show ?thesis using that x e by blast
qed

lemma proc_A_facts:
  "(Worker 0, 10, ''Comp-Ping'', ''libcomp-ping.so'') \<in> set (entries_from 0 (nd_threads g_local_node_def_A))"
  "(Worker 1, 11, ''Comp-Pong'', ''libcomp-pong.so'') \<in> set (entries_from 0 (nd_threads g_local_node_def_A))"
  "file_lib (''./'' @ ''libcomp-ping.so'') = Some Comp_ping" "file_lib (''./'' @ ''libcomp-pong.so'') = Some Comp_pong"
  by code_simp+

lemma proc_A_services:
  "svc_def ''SVC_PING'' 111 ''ProcA'' 10 ''/tmp/nos_proc_A.sock'' \<in> set (nd_services g_local_node_def_A)"
  "svc_def ''SVC_PONG'' 112 ''ProcA'' 11 ''/tmp/nos_proc_A.sock'' \<in> set (nd_services g_local_node_def_A)"
  "nd_name g_local_node_def_A = ''ProcA''"
  by (simp_all add: g_local_node_def_A_def g_local_services_A_def)

lemma init_bins_first:
  "init_bins memalign (Suc i) ds p = Some q \<Longrightarrow> g_bins q ! 0 = g_bins p ! 0 \<and> g_bin_count p \<le> g_bin_count q"
proof (induction ds arbitrary: i p)
  case (Cons d ds)
  show ?case
  proof (cases "def_chunk_size d > 0 \<and> Suc i < MAX_BINS")
    case True
    then show ?thesis using Cons.IH[of "Suc i"] Cons.prems by (fastforce simp: Let_def split: if_splits)
  qed (use Cons.prems in auto)
qed simp

lemma proc_A_room:
  assumes "init_bins (\<lambda>_. True) 0 (nd_buffer_pools g_local_node_def_A) empty_pool = Some p"
  shows "pool_room 32 p"
proof -
  let ?d = "\<lparr>def_chunk_size = 32, def_chunk_count = 256\<rparr>"
  obtain ds where "nd_buffer_pools g_local_node_def_A = ?d # ds" by (simp add: g_local_node_def_A_def g_local_pools_A_def)
  then have "init_bins (\<lambda>_. True) (Suc 0) ds (empty_pool\<lparr>g_bins := (g_bins empty_pool)[0 := init_bin 0 ?d], g_bin_count := g_bin_count empty_pool + 1\<rparr>) = Some p"
    using assms by (simp add: MAX_BINS_def Let_def)
  from init_bins_first[OF this] have "g_bins p ! 0 = init_bin 0 ?d" "0 < g_bin_count p"
    by (simp_all add: empty_pool_def MAX_BINS_def)
  moreover have "(32 :: u32) \<le> (32 + 64 - 1) AND NOT (64 - 1)" by simp
  ultimately show ?thesis unfolding pool_room_def by (intro exI[of _ 0]) (simp add: init_bin_def Let_def CACHE_LINE_SIZE_def)
qed

text \<open>
  C15 Process A as shipped can be tested: from \<open>main\<close> with its manifest on a machine where the libraries can be loaded, with
  the threads starting their components in any order, the line \<open>perf start n\<close> at the prompt makes ping and pong exchange
  \<open>n\<close> messages each way, after which no message is left and every buffer is free.
\<close>

theorem process_A_runs_test:
  assumes "process_start s" "\<And>sz. env_memalign env sz" "\<And>n. comp_addrs s n \<noteq> NULL" "0 < n" "n < 2 ^ 31"
  shows "\<exists>s0. main_start env (nos_manifest_get_local ProcA) s = Some (0, s0) \<and>
     (\<forall>rs c. cli_node c = start_threads rs s0 \<longrightarrow>
       (\<exists>c' s' p t. exec_line tty (''perf start '' @ dec n @ NUL # junk) c = Some c' \<and>
          ping_test n (Worker 0) (Worker 1) (cli_node c') = Returned s' \<and> privs s' p = Some (Priv_ping t (of_nat n) (of_nat n)) \<and>
          (\<forall>r. node_queue s' r = []) \<and> (\<forall>i j. pool_held (bufs s') (i, j) = 0)))"
proof -
  let ?A = g_local_node_def_A
  obtain s0 fs where s0: "main_start env (Some ?A) s = Some (0, s0)" "\<And>rs. begun s0 (start_threads rs s0)" "\<And>rs. booted ?A (start_threads rs s0)"
    "\<And>rs. placed (start_threads rs s0) (entries_from 0 (nd_threads ?A))" "worker_count s0 = 2" "manifest_good ?A"
    "\<And>rs f. has_ops (init_service f) (start_threads rs s0) \<longleftrightarrow> f \<in> set fs" "list_all (service_good ?A fs) (nd_services ?A)"
    "init_bins (\<lambda>_. True) 0 (nd_buffer_pools ?A) empty_pool = Some (bufs s0)"
    using proc_boots[OF assms(1-3) nos_manifest_get_local.simps(1)] by metis
  have d: "distinct (map entry_id (entries_from 0 (nd_threads ?A)))" using s0(6) by (simp add: manifest_good_def)
  have run: "\<exists>c' s' p t. exec_line tty (''perf start '' @ dec n @ NUL # junk) c = Some c' \<and>
          ping_test n (Worker 0) (Worker 1) (cli_node c') = Returned s' \<and> privs s' p = Some (Priv_ping t (of_nat n) (of_nat n)) \<and>
          (\<forall>r. node_queue s' r = []) \<and> (\<forall>i j. pool_held (bufs s') (i, j) = 0)" if c: "cli_node c = start_threads rs s0" for rs c
  proof -
    let ?s = "start_threads rs s0"
    have b: "booted ?A ?s" using s0(3) .
    have ok: "loaded_ok ?s" "tables_ok ?s" "owned ?s []" "no_msg ?s" "well_typed ?s" using b by (simp_all add: booted_def mgr_ok_def)
    have served: "served ?A ?s svc" if "svc \<in> set (nd_services ?A)" for svc
      by (rule service_served[OF b s0(4) _ d that _ s0(7)]) (use s0(2)[of rs] s0(5,6,8) that in \<open>simp_all add: begun_def manifest_good_def list_all_iff\<close>)
    have sp: "sd_node_name (svc_def a i ''ProcA'' k u) = nd_name ?A" "sd_provider_comp_id (svc_def a i x k u) = k" "sd_service_id (svc_def a i x k u) = i"
      for a i k u x using proc_A_services(3) by (simp_all add: svc_def_def)
    obtain p cp where p: "reg_route (registry ?s) 111 = Some (Local p (Some (Worker 0)))" "comps ?s p = Some cp" "lib_comp Comp_ping cp" "p \<noteq> NULL"
        "threads ?s (Worker 0) \<noteq> None"
      using served_local[OF served[OF proc_A_services(1)] sp(1) _ d proc_A_facts(3) ok(1,2)] proc_A_facts(1) sp(2,3) by metis
    obtain q cq where q: "reg_route (registry ?s) 112 = Some (Local q (Some (Worker 1)))" "comps ?s q = Some cq" "lib_comp Comp_pong cq" "q \<noteq> NULL"
        "threads ?s (Worker 1) \<noteq> None"
      using served_local[OF served[OF proc_A_services(2)] sp(1) _ d proc_A_facts(4) ok(1,2)] proc_A_facts(2) sp(2,3) by metis
    have room: "pool_room 32 (bufs ?s)" using proc_A_room[OF s0(9)] s0(2)[of rs] by (simp add: begun_def)
    have "priv_ok Comp_ping (length (kv_tables ?s)) (privs ?s p)"
      using ok(5) p(2) lib_compD(1)[OF p(3)] unfolding well_typed_def comps_typed_def by blast
    then obtain t0 n0 k0 where pr: "privs ?s p = Some (Priv_ping t0 n0 k0)" by (auto split: option.splits comp_priv.splits)
    have "(28 :: u32) \<le> 32" by simp
    then have "pool_room 28 (bufs ?s)" using room unfolding pool_room_def by (meson order_trans)
    then have "perf_node (Worker 0) (Worker 1) p q (cli_node c)"
      using c ok(3) p q lib_compD(1)[OF p(3)] lib_compD(1)[OF q(3)] by (simp add: perf_node_def SVC_PING_def SVC_PONG_def)
    moreover have "no_msg (cli_node c)" "pool_room 32 (bufs (cli_node c))" "privs (cli_node c) p = Some (Priv_ping t0 n0 k0)"
      unfolding c by (rule ok(4), rule room, rule pr)
    ultimately show ?thesis using perf_runs[OF _ _ _ _ assms(4,5), of "Worker 0" "Worker 1" p q c] by blast
  qed
  show ?thesis unfolding nos_manifest_get_local.simps(1) by (intro exI[of _ s0] conjI allI impI s0(1) run)
qed

theorem process_A_runs_test_witness:
  "\<exists>s0. main_start good_env (nos_manifest_get_local ProcA) new_process = Some (0, s0) \<and>
     (\<exists>c' s' p t. exec_line True (''perf start '' @ dec 7 @ [NUL]) (sample_cli\<lparr>cli_node := start_threads [Mgmt, Worker 0, Worker 1] s0\<rparr>) = Some c' \<and>
        ping_test 7 (Worker 0) (Worker 1) (cli_node c') = Returned s' \<and> privs s' p = Some (Priv_ping t 7 7) \<and> (\<forall>r. node_queue s' r = []))"
proof -
  have n: "0 < (7 :: nat)" "(7 :: nat) < 2 ^ 31" by simp_all
  obtain s0 where s0: "main_start good_env (nos_manifest_get_local ProcA) new_process = Some (0, s0)"
    "\<forall>rs c. cli_node c = start_threads rs s0 \<longrightarrow>
       (\<exists>c' s' p t. exec_line True (''perf start '' @ dec 7 @ [NUL]) c = Some c' \<and>
          ping_test 7 (Worker 0) (Worker 1) (cli_node c') = Returned s' \<and> privs s' p = Some (Priv_ping t (of_nat 7) (of_nat 7)) \<and>
          (\<forall>r. node_queue s' r = []) \<and> (\<forall>i j. pool_held (bufs s') (i, j) = 0))"
    using process_A_runs_test[where env = good_env and tty = True and junk = "[]", OF new_process_start(1) new_process_start(3,2) n] by blast
  have "cli_node (sample_cli\<lparr>cli_node := start_threads [Mgmt, Worker 0, Worker 1] s0\<rparr>) = start_threads [Mgmt, Worker 0, Worker 1] s0" by simp
  with s0(2) obtain c' s' p t where
    "exec_line True (''perf start '' @ dec 7 @ [NUL]) (sample_cli\<lparr>cli_node := start_threads [Mgmt, Worker 0, Worker 1] s0\<rparr>) = Some c'"
    "ping_test 7 (Worker 0) (Worker 1) (cli_node c') = Returned s'" "privs s' p = Some (Priv_ping t (of_nat 7) (of_nat 7))" "\<forall>r. node_queue s' r = []"
    by blast
  then show ?thesis using s0(1) by auto
qed

end
