(* ===== verification/ShutdownClaims.thy ===== *)
theory ShutdownClaims
  imports BootMain RefClaims LogClaims CliRun
begin

text \<open>
  Shutdown (\<open>main\<close> from the joined threads on): what becomes of messages still in queues, of components, of the
  store and of the log.
\<close>

section \<open>Messages in the queues of threads\<close>

lemma release_upd_thread: "nos_buffer_release b (upd_thread r f s) = upd_thread r f (nos_buffer_release b s)"
  by (cases b) (simp_all add: nos_buffer_release_def upd_thread_def)

lemma release_queue_owned:
  fixes s :: "'z ipc_node_scheme"
  assumes "owned s []" "length (node_queue s r) \<le> n" "s' = release_queue n r s"
  shows "owned s' [] \<and> node_queue s' r = [] \<and> conns s' = conns s \<and> (\<forall>q. q \<noteq> r \<longrightarrow> threads s' q = threads s q)"
  using assms
proof (induction n arbitrary: s)
  case (Suc n)
  show ?case
  proof (cases "\<exists>th x th'. threads s r = Some th \<and> thread_pop th = Some (x, th')")
    case False
    have "s' = s \<and> node_queue s r = []"
    proof (cases "threads s r")
      case None
      then show ?thesis using Suc.prems(3) by (simp add: node_queue_def)
    next
      case (Some th)
      then have "head th = tail th" using False by (auto simp: thread_pop_def split: if_splits)
      then show ?thesis using Suc.prems(3) Some by (simp add: node_queue_def thread_msgs_def thread_slots_def ring_items_def ring_used_def MAX_QUEUE_SIZE_def)
    qed
    then show ?thesis using Suc.prems(1) by simp
  next
    case True
    then obtain th x th' where th: "threads s r = Some th" "thread_pop th = Some (x, th')" by blast
    obtain b where b: "x = Some b" "owned (upd_thread r (\<lambda>_. th') s) [b]" by (rule owned_pop[OF Suc.prems(1) th])
    let ?u = "nos_buffer_release b (upd_thread r (\<lambda>_. th') s)"
    have p: "head th \<noteq> tail th" "msg_queue th ! head th = Some b" "th' = th\<lparr>head := (head th + 1) mod MAX_QUEUE_SIZE\<rparr>"
      using th(2) b(1) by (auto simp: thread_pop_def split: if_splits)
    have "threads (nos_buffer_release b s) r = Some th" using th(1) by (cases b) (simp_all add: nos_buffer_release_def)
    then have e: "upd_thread r (\<lambda>th. th\<lparr>head := (head th + 1) mod MAX_QUEUE_SIZE\<rparr>) (nos_buffer_release b s) = ?u"
      unfolding release_upd_thread by (simp add: upd_thread_def p(3))
    have s': "s' = release_queue n r ?u" using Suc.prems(3) th(1) p(1,2) e by (simp add: Let_def)
    have "queue_ok th" using ownedD(8)[OF Suc.prems(1) th(1)] p(1) by simp
    then have "thread_msgs th = b # thread_msgs th'" using thread_pop_Some[OF _ p(1)] th(2) b(1) by auto
    moreover have u: "threads ?u q = (if q = r then Some th' else threads s q)" "conns ?u = conns s" for q
      using th(1) by (cases b; simp add: nos_buffer_release_def upd_thread_def)+
    ultimately have "length (node_queue ?u r) \<le> n" using Suc.prems(2) th(1) by (simp add: node_queue_def)
    from Suc.IH[OF owned_release[OF b(2)] this s'] u show ?thesis by simp
  qed
qed simp

text \<open>The node with only some of its threads; those that have been freed have left it.\<close>

definition only_threads :: "thread_ref set \<Rightarrow> 'z ipc_node_scheme \<Rightarrow> 'z ipc_node_scheme" where
  "only_threads R s = s\<lparr>threads := threads s |` R\<rparr>"

lemma only_threads_simps [simp]:
  "threads (only_threads R s) r = (if r \<in> R then threads s r else None)" "conns (only_threads R s) = conns s"
  "bufs (only_threads R s) = bufs s" "registry (only_threads R s) = registry s"
  by (simp_all add: only_threads_def)

lemma only_release:
  fixes s :: "'z ipc_node_scheme"
  shows "r \<in> R \<Longrightarrow> release_queue n r (only_threads R s) = only_threads R (release_queue n r s)"
proof (induction n arbitrary: s)
  case (Suc n)
  have rel: "nos_buffer_release b (only_threads R x) = only_threads R (nos_buffer_release b x)" for b and x :: "'z ipc_node_scheme"
    by (cases b) (simp_all add: nos_buffer_release_def only_threads_def)
  have upd: "upd_thread r f (only_threads R x) = only_threads R (upd_thread r f x)" for f and x :: "'z ipc_node_scheme"
    using Suc.prems by (simp add: upd_thread_def only_threads_def fun_eq_iff restrict_map_def)
  have t: "threads (only_threads R s) r = threads s r" using Suc.prems by simp
  show ?case
    unfolding release_queue.simps t using rel upd Suc by (simp add: Let_def split: option.split)
qed simp

lemma only_drop:
  assumes o: "owned (only_threads R s) []" and e: "\<And>r. r \<in> R - R' \<Longrightarrow> node_queue s r = []" and sub: "R' \<subseteq> R"
  shows "owned (only_threads R' s) []"
proof -
  have nq: "node_queue (only_threads R' s) r = node_queue (only_threads R s) r" for r
    using e[of r] sub by (auto simp: node_queue_def)
  have "queued (only_threads R' s) b = queued (only_threads R s) b" for b by (simp add: queued_def nq)
  moreover have qv: "queue_view (only_threads R' s) r \<in> {None, queue_view (only_threads R s) r}" for r
    using sub by (auto simp: queue_view_def)
  have "flow_ok (only_threads R' s)"
    unfolding flow_ok_def
  proof (intro conjI allI impI)
    have f: "flow_ok (only_threads R s)" using o by (simp add: owned_def)
    show "pool_ok (bufs (only_threads R' s))" "\<forall>c \<in> set (conns (only_threads R' s)). conn_ok c" "length (conns (only_threads R' s)) \<le> MAX_REMOTE_CONNS"
      using f by (simp_all add: flow_ok_def)
    fix r
    have q: "queue_view (only_threads R' s) r = None \<or> queue_view (only_threads R' s) r = queue_view (only_threads R s) r" using qv[of r] by blast
    show "queue_view (only_threads R' s) r = None \<or>
        r \<in> set flow_threads \<and> (node_queue_ok (only_threads R' s) r \<or> queue_view (only_threads R' s) r = Some ([], 0, 0))"
      using q f queue_view_eq(2)[of "only_threads R' s" r "only_threads R s"] unfolding flow_ok_def by metis
    show "queue_view (only_threads R' s) r = None \<or> node_queue_ok (only_threads R' s) r"
      if "reg_route (registry (only_threads R' s)) sid = Some (Local p (Some r))" for sid p
      using that q f queue_view_eq(2)[of "only_threads R' s" r "only_threads R s"] unfolding flow_ok_def by (metis only_threads_simps(4))
  qed
  ultimately show ?thesis using o by (simp add: owned_def)
qed

lemma queue_length: "owned s hs \<Longrightarrow> length (node_queue s r) \<le> MAX_QUEUE_SIZE"
proof (cases "node_queue s r = []")
  case False
  assume "owned s hs"
  then have "node_queue_ok s r" using ownedD(4) False by blast
  then show ?thesis
    using ring_used_less[of _ MAX_QUEUE_SIZE] by (fastforce simp: node_queue_ok_def node_queue_def thread_msgs_def thread_slots_def queue_ok_def ring_ok_def)
qed simp

lemma deinit_thread_owned:
  fixes s :: "'z ipc_node_scheme"
  assumes o: "owned (only_threads R s) []" and r: "r \<in> R" and s': "s' = nos_scheduler_deinit_thread r s"
  shows "owned (only_threads (R - {r}) s') []" "conns s' = conns s" "q \<noteq> r \<Longrightarrow> threads s' q = threads s q"
    "threads s r \<noteq> None \<Longrightarrow> \<exists>th. threads s' r = Some (free_arrays th)"
proof -
  let ?n = "MAX_QUEUE_SIZE"
  have "owned (only_threads (R - {r}) s') [] \<and> conns s' = conns s \<and> (q \<noteq> r \<longrightarrow> threads s' q = threads s q) \<and>
      (threads s r \<noteq> None \<longrightarrow> (\<exists>th. threads s' r = Some (free_arrays th)))" for q
  proof (cases "threads s r")
    case None
    then have "s' = s" by (simp add: s' nos_scheduler_deinit_thread_def)
    moreover have "node_queue s q = []" if "q \<in> R - (R - {r})" for q using that None by (simp add: node_queue_def)
    ultimately show ?thesis using only_drop[OF o, of "R - {r}"] None by auto
  next
    case (Some th)
    define x where "x = release_queue ?n r s"
    have x: "owned (only_threads R x) []" "node_queue (only_threads R x) r = []" "conns x = conns s" "\<And>q. q \<noteq> r \<Longrightarrow> q \<in> R \<Longrightarrow> threads x q = threads s q"
      using release_queue_owned[OF o queue_length[OF o, where r = r] refl] r by (auto simp: only_release x_def split: if_splits)
    have all: "q \<noteq> r \<longrightarrow> threads (release_queue n r y) q = threads y q" "threads y r \<noteq> None \<longrightarrow> threads (release_queue n r y) r \<noteq> None"
      for n q and y :: "'z ipc_node_scheme"
    proof -
      have rel: "threads (nos_buffer_release b y) = threads y" for b and y :: "'z ipc_node_scheme" by (cases b) (simp_all add: nos_buffer_release_def)
      show "q \<noteq> r \<longrightarrow> threads (release_queue n r y) q = threads y q" "threads y r \<noteq> None \<longrightarrow> threads (release_queue n r y) r \<noteq> None"
        by (induction n arbitrary: y) (auto simp: Let_def rel upd_thread_def split: option.split)
    qed
    have s'x: "s' = upd_thread r free_arrays x" using Some by (simp add: s' nos_scheduler_deinit_thread_def x_def)
    have "node_queue x r = []" using x(2) r by (simp add: node_queue_def)
    then have "owned (only_threads (R - {r}) x) []" by (intro only_drop[OF x(1)]) auto
    moreover have "only_threads (R - {r}) s' = only_threads (R - {r}) x"
      by (auto simp: only_threads_def s'x upd_thread_def fun_eq_iff restrict_map_def)
    ultimately show ?thesis using all(1)[where n = ?n and y = s] all(2)[where n = ?n and y = s] Some x(3) by (auto simp: s'x x_def upd_thread_def)
  qed
  then show "owned (only_threads (R - {r}) s') []" "conns s' = conns s" "q \<noteq> r \<Longrightarrow> threads s' q = threads s q"
    "threads s r \<noteq> None \<Longrightarrow> \<exists>th. threads s' r = Some (free_arrays th)" by blast+
qed

text \<open>The threads of a node that is shut down, the manager's first.\<close>

definition node_threads :: "'z node_scheme \<Rightarrow> thread_ref list" where
  "node_threads s = Mgmt # map Worker [0..<worker_count s]"

lemma deinit_list_owned:
  fixes s :: "'z ipc_node_scheme"
  assumes "owned (only_threads (set rs) s) []" "distinct rs" "s' = foldl (\<lambda>s r. nos_scheduler_deinit_thread r s) s rs"
  shows "owned (only_threads {} s') [] \<and> conns s' = conns s \<and> (\<forall>q. q \<notin> set rs \<longrightarrow> threads s' q = threads s q) \<and>
    (\<forall>r \<in> set rs. threads s r \<noteq> None \<longrightarrow> (\<exists>th. threads s' r = Some (free_arrays th)))"
  using assms
proof (induction rs arbitrary: s)
  case (Cons r rs)
  define u where "u = nos_scheduler_deinit_thread r s"
  have u: "owned (only_threads (set (r # rs) - {r}) u) []" "conns u = conns s" "\<And>q. q \<noteq> r \<Longrightarrow> threads u q = threads s q"
    "threads s r \<noteq> None \<Longrightarrow> \<exists>th. threads u r = Some (free_arrays th)"
    using deinit_thread_owned[OF Cons.prems(1) _ u_def] by auto
  have "set (r # rs) - {r} = set rs" using Cons.prems(2) by auto
  then have o: "owned (only_threads (set rs) u) []" using u(1) by simp
  have i: "owned (only_threads {} s') []" "conns s' = conns u" "\<And>q. q \<notin> set rs \<Longrightarrow> threads s' q = threads u q"
    "\<And>q. q \<in> set rs \<Longrightarrow> threads u q \<noteq> None \<Longrightarrow> \<exists>th. threads s' q = Some (free_arrays th)"
    using Cons.IH[OF o] Cons.prems(2,3) by (simp_all add: u_def)
  have "\<exists>th. threads s' q = Some (free_arrays th)" if "q \<in> set (r # rs)" "threads s q \<noteq> None" for q
  proof (cases "q = r")
    case True
    then show ?thesis using u(4) i(3) that Cons.prems(2) by auto
  next
    case False
    then show ?thesis using u(3) i(4) that by simp
  qed
  then show ?case using i u by simp
qed simp

lemma deinit_threads_list: "deinit_threads s = foldl (\<lambda>s r. nos_scheduler_deinit_thread r s) s (node_threads s)"
  by (simp add: deinit_threads_def node_threads_def foldl_map)

lemma deinit_threads_owned:
  fixes s :: "'z ipc_node_scheme"
  assumes "owned s []" "\<And>k. worker_count s \<le> k \<Longrightarrow> node_queue s (Worker k) = []" "s' = deinit_threads s"
  shows "pool_held (bufs s') (i, j) = (\<Sum>c\<leftarrow>conns s. count_list (conn_items c) (PoolBuf i j))"
    "r \<in> set (node_threads s) \<Longrightarrow> threads s r \<noteq> None \<Longrightarrow> \<exists>th. threads s' r = Some (free_arrays th)" "conns s' = conns s"
proof -
  have "owned (only_threads UNIV s) []" using assms(1) by (simp add: only_threads_def restrict_map_def)
  moreover have "node_queue s r = []" if "r \<notin> set (node_threads s)" for r
  proof (cases r)
    case (Worker k)
    then have "worker_count s \<le> k" using that by (auto simp: node_threads_def)
    then show ?thesis using assms(2) Worker by simp
  qed (use that in \<open>simp add: node_threads_def\<close>)
  ultimately have o: "owned (only_threads (set (node_threads s)) s) []" using only_drop[of UNIV s "set (node_threads s)"] by blast
  have "distinct (node_threads s)" by (auto simp: node_threads_def distinct_map inj_on_def)
  from deinit_list_owned[OF o this assms(3)[unfolded deinit_threads_list]]
  have d: "owned (only_threads {} s') []" "conns s' = conns s"
    "\<And>r. r \<in> set (node_threads s) \<Longrightarrow> threads s r \<noteq> None \<Longrightarrow> \<exists>th. threads s' r = Some (free_arrays th)" by blast+
  have nq: "node_queue (only_threads {} s') r = []" for r by (simp add: node_queue_def)
  show "pool_held (bufs s') (i, j) = (\<Sum>c\<leftarrow>conns s. count_list (conn_items c) (PoolBuf i j))"
    using ownedD(2)[OF d(1), of i j] d(2) by (simp add: queued_def nq)
  show "r \<in> set (node_threads s) \<Longrightarrow> threads s r \<noteq> None \<Longrightarrow> \<exists>th. threads s' r = Some (free_arrays th)" "conns s' = conns s"
    using d by blast+
qed

section \<open>Components\<close>

text \<open>The timer of a component 1 exists, and no other component has it.\<close>

definition own_timers :: "sys_node \<Rightarrow> bool" where
  "own_timers s \<longleftrightarrow> (\<forall>p tm t. comps s p \<noteq> None \<longrightarrow> privs s p = Some (Priv_1 tm t) \<longrightarrow> tm \<noteq> NULL \<longrightarrow>
     timers s tm \<noteq> None \<and> (\<forall>q u. comps s q \<noteq> None \<longrightarrow> privs s q = Some (Priv_1 tm u) \<longrightarrow> q = p))"

text \<open>What closing components one after the other keeps.\<close>

definition closing :: "sys_node \<Rightarrow> bool" where
  "closing s \<longleftrightarrow> comps_typed s \<and> (\<forall>t \<in> set (kv_tables s). kv_inv t) \<and> own_timers s \<and> \<not> crashed s \<and>
     (\<forall>p c. comps s p = Some c \<longrightarrow> (\<exists>l. lib_comp l c))"

definition log_view :: "sys_node \<Rightarrow> nos_log_context \<times> (nat \<Rightarrow> string) \<times> nat" where
  "log_view s = (log_ctx s, local_times s, time_no s)"

text \<open>What a stop handler leaves.\<close>

definition stops :: "ptr \<Rightarrow> sys_node \<Rightarrow> sys_node \<Rightarrow> bool" where
  "stops p s s' \<longleftrightarrow> same_node s s' \<and> (\<forall>t \<in> set (kv_tables s'). kv_inv t) \<and> length (kv_tables s') = length (kv_tables s) \<and>
     privs s' = (privs s)(p := None) \<and> log_view s' = log_view s \<and>
     (\<forall>tm. timers s tm \<noteq> None \<longrightarrow> timers s' tm \<noteq> None \<or> (\<exists>t. privs s p = Some (Priv_1 tm t)))"

lemma timer_delete_stops:
  assumes "tm \<noteq> NULL \<Longrightarrow> timers s tm \<noteq> None"
  obtains s' where "(if tm \<noteq> NULL then timer_delete_auto tm s else Some s) = Some s'" "same_node s s'" "kv_tables s' = kv_tables s"
    "privs s' = privs s" "log_view s' = log_view s" "\<forall>x. x \<noteq> tm \<longrightarrow> timers s' x = timers s x"
proof (cases "tm = NULL \<or> \<not> has_ops ''SVC_TIMER'' s")
  case True
  then show ?thesis using that[of s] by (auto simp: timer_delete_auto_def)
next
  case False
  then obtain t where t: "timers s tm = Some t" using assms by auto
  have u: "timers (unlink_timer tm t s) = timers s" "kv_tables (unlink_timer tm t s) = kv_tables s" "privs (unlink_timer tm t s) = privs s"
      "log_view (unlink_timer tm t s) = log_view s"
    by (auto simp: unlink_timer_def upd_heap_def upd_thread_def log_view_def split: option.split bool.split)
  define s' where "s' = set_timer tm None (unlink_timer tm t s)"
  have d: "timer_delete_auto tm s = Some s'" using False t u(1) by (simp add: timer_delete_auto_def nos_timer_delete_def s'_def Let_def)
  show ?thesis
  proof (rule that[of s'])
    show "(if tm \<noteq> NULL then timer_delete_auto tm s else Some s) = Some s'" using d False by simp
  qed (use u auto_node(3)[OF d] in \<open>simp_all add: s'_def set_timer_def log_view_def\<close>)
qed

lemma kv_unsubscribe_stops:
  assumes inv: "\<forall>t \<in> set (kv_tables s). kv_inv t" and i: "handle_ok (length (kv_tables s)) t"
  obtains s' where "(if t = None then Some s else map_option snd (kv_unsubscribe_auto t (key32 ''Comp-2'') (model_1_sub p) s)) = Some s'"
    "same_node s s'" "\<forall>t \<in> set (kv_tables s'). kv_inv t" "length (kv_tables s') = length (kv_tables s)" "privs s' = privs s" "log_view s' = log_view s"
    "timers s' = timers s"
proof (cases "t = None \<or> \<not> has_ops ''SVC_KV_DB'' s")
  case True
  then show ?thesis using that[of s] inv by (auto simp: kv_unsubscribe_auto_def)
next
  case False
  then obtain k where k: "t = Some k" "k < length (kv_tables s)" using i by (auto simp: handle_ok_def)
  have n: "sub_notify (model_1_sub p) \<noteq> NULL" by (simp add: model_1_sub_def)
  obtain st t' where u: "nos_kv_unsubscribe (Some (kv_tables s ! k)) (Some (key32 ''Comp-2'')) (model_1_sub p) = Some (st, Some t')" "kv_inv t'"
    using nos_kv_subscribe_correct[OF _ n, of "kv_tables s ! k" "key32 ''Comp-2''"] inv k(2) by force
  define s' where "s' = kv_store t (Some t') s"
  have r: "kv_unsubscribe_auto t (key32 ''Comp-2'') (model_1_sub p) s = Some (st, s')"
    using False u(1) k(1) by (simp add: kv_unsubscribe_auto_def kv_handle_def s'_def)
  show ?thesis
  proof (rule that[of s'])
    show "same_node s s'" by (rule same_flow_node[OF kv_sub_flow(2)[OF r]])
    show "\<forall>t \<in> set (kv_tables s'). kv_inv t"
      using inv u(2) set_update_subset_insert[of "kv_tables s" k t'] by (auto simp: s'_def kv_store_def k(1))
  qed (use r False k in \<open>simp_all add: s'_def kv_store_def log_view_def\<close>)
qed

lemma lib_stops:
  assumes c: "closing s" "comps s p = Some c" and l: "lib_comp l c" "comp_stop c \<noteq> NULL"
  shows "\<exists>s'. lib_stop l p s = Some s' \<and> stops p s s'"
proof -
  have l4: "l \<in> {Comp_1, Comp_2, Comp_ping, Comp_rping}" using lib_compD(4)[OF l(1)] l(2) by (auto split: if_splits)
  have inv: "\<forall>t \<in> set (kv_tables s). kv_inv t" using c(1) by (simp add: closing_def)
  have free: "stops p s (set_priv p None s)"
    using inv by (simp add: stops_def same_flow_node log_view_def) (simp add: set_priv_def)
  show ?thesis
  proof (cases "l = Comp_1")
    case False
    then have "lib_stop l p s = Some (set_priv p None s)" using l4 by (auto simp: free_priv_def)
    then show ?thesis using free by blast
  next
    case True
    have "priv_ok Comp_1 (length (kv_tables s)) (privs s p)"
      using c lib_compD(1)[OF l(1)] True unfolding closing_def comps_typed_def by blast
    then consider "privs s p = None" | tm t where "privs s p = Some (Priv_1 tm t)" "handle_ok (length (kv_tables s)) t"
      by (auto split: option.splits comp_priv.splits)
    then show ?thesis
    proof cases
      case 1
      then have "stops p s s" using inv by (simp add: stops_def fun_upd_idem)
      then show ?thesis using True 1 by (simp add: model_1_stop_def)
    next
      case (2 tm t)
      have "tm \<noteq> NULL \<Longrightarrow> timers s tm \<noteq> None" using c 2(1) unfolding closing_def own_timers_def by blast
      then obtain x where x: "(if tm \<noteq> NULL then timer_delete_auto tm s else Some s) = Some x" "same_node s x" "kv_tables x = kv_tables s"
        "privs x = privs s" "log_view x = log_view s" "\<forall>y. y \<noteq> tm \<longrightarrow> timers x y = timers s y" by (rule timer_delete_stops)
      have xi: "\<forall>t \<in> set (kv_tables x). kv_inv t" "handle_ok (length (kv_tables x)) t" using inv 2(2) x(3) by simp_all
      obtain y where y: "(if t = None then Some x else map_option snd (kv_unsubscribe_auto t (key32 ''Comp-2'') (model_1_sub p) x)) = Some y"
        "same_node x y" "\<forall>t \<in> set (kv_tables y). kv_inv t" "length (kv_tables y) = length (kv_tables x)" "privs y = privs x" "log_view y = log_view x"
        "timers y = timers x" by (rule kv_unsubscribe_stops[OF xi])
      have "model_1_stop p s = Some (set_priv p None y)"
        by (simp only: model_1_stop_def 2(1) option.case comp_priv.case x(1) y(1) bind.bind_lunit)
      moreover have "same_node s (set_priv p None y)" "log_view (set_priv p None y) = log_view y"
        using same_node_trans[OF same_node_trans[OF x(2) y(2)] same_flow_node[of y "set_priv p None y"]] by simp_all (simp add: log_view_def set_priv_def)
      moreover have "timers s z \<noteq> None \<longrightarrow> timers (set_priv p None y) z \<noteq> None \<or> (\<exists>t. privs s p = Some (Priv_1 z t))" for z
        using x(6) y(7) 2(1) by (cases "z = tm") (auto simp: set_priv_def)
      ultimately have "stops p s (set_priv p None y)" using x y by (simp add: stops_def)
      then show ?thesis using True \<open>model_1_stop p s = _\<close> by simp
    qed
  qed
qed

lemma close_component_ok:
  assumes c: "closing s" "comps s (info_comp i) = Some c" and s': "s' = close_component sys_env i s"
  shows "closing s' \<and> comps s' = (comps s)(info_comp i := None) \<and> log_view s' = log_view s \<and> flow_view s' = flow_view s \<and>
     conns s' = conns s \<and> worker_count s' = worker_count s \<and> embedded s' = embedded s"
proof -
  let ?p = "info_comp i"
  obtain l where l: "lib_comp l c" using c unfolding closing_def by blast
  have inv: "\<forall>t \<in> set (kv_tables s). kv_inv t" "\<not> crashed s" using c(1) by (simp_all add: closing_def)
  obtain x where x: "(if comp_stop c \<noteq> NULL then comp_call_stop (comp_stop c) ?p s else s) = x" "same_node s x" "\<forall>t \<in> set (kv_tables x). kv_inv t"
    "length (kv_tables x) = length (kv_tables s)" "\<forall>q. q \<noteq> ?p \<longrightarrow> privs x q = privs s q" "log_view x = log_view s"
    "\<forall>tm. timers s tm \<noteq> None \<longrightarrow> timers x tm \<noteq> None \<or> (\<exists>t. privs s ?p = Some (Priv_1 tm t))"
  proof (cases "comp_stop c = NULL")
    case True
    then show ?thesis using that[of s] inv by simp
  next
    case False
    then obtain x where x: "lib_stop l ?p s = Some x" "stops ?p s x" using lib_stops[OF c l] by blast
    have "comp_stop c = fn_ptr l Fn_stop" using lib_compD(4)[OF l] False by (auto split: if_splits)
    then have "comp_call_stop (comp_stop c) ?p s = x" using x(1) by (simp add: comp_call_stop_def or_crash_def)
    then show ?thesis using that[of x] False x(2) by (simp add: stops_def)
  qed
  note f = same_nodeD[OF x(2)]
  have e: "s' = x\<lparr>comps := (comps s)(?p := None)\<rparr>" using x(1) c(2) f(3) by (auto simp: s' close_component_def Let_def)
  have "comps_typed s'"
    unfolding comps_typed_def
  proof (intro allI impI)
    fix q d k assume d: "comps s' q = Some d" "comp_on_msg d = fn_ptr k Fn_on_msg"
    then have q: "q \<noteq> ?p" "comps s q = Some d" by (auto simp: e split: if_splits)
    then have "priv_ok k (length (kv_tables s)) (privs s q)" using c(1) d(2) unfolding closing_def comps_typed_def by blast
    then show "priv_ok k (length (kv_tables s')) (privs s' q)" using x(4,5) q by (simp add: e)
  qed
  moreover have "own_timers s'"
    unfolding own_timers_def
  proof (intro allI impI)
    fix q tm t assume q: "comps s' q \<noteq> None" "privs s' q = Some (Priv_1 tm t)" "tm \<noteq> NULL"
    then have q': "q \<noteq> ?p" "comps s q \<noteq> None" "privs s q = Some (Priv_1 tm t)" using x(5) by (auto simp: e split: if_splits)
    have o: "timers s tm \<noteq> None" "\<And>r u. comps s r \<noteq> None \<Longrightarrow> privs s r = Some (Priv_1 tm u) \<Longrightarrow> r = q"
      using c(1) q' q(3) unfolding closing_def own_timers_def by blast+
    have "timers x tm \<noteq> None" using o x(7) c(2) q'(1) by blast
    moreover have "r = q" if "comps s' r \<noteq> None" "privs s' r = Some (Priv_1 tm u)" for r u
    proof (rule o(2))
      have "r \<noteq> ?p" using that(1) by (auto simp: e)
      then show "comps s r \<noteq> None" "privs s r = Some (Priv_1 tm u)" using that x(5) by (simp_all add: e)
    qed
    ultimately show "timers s' tm \<noteq> None \<and> (\<forall>r u. comps s' r \<noteq> None \<longrightarrow> privs s' r = Some (Priv_1 tm u) \<longrightarrow> r = q)" by (simp add: e)
  qed
  moreover have "\<exists>k. lib_comp k d" if "comps s' q = Some d" for q d
    using that c(1) unfolding closing_def e by (auto split: if_splits)
  ultimately have "closing s'" using x(3) f(15) inv(2) unfolding closing_def by (simp add: e)
  moreover have "log_view s' = log_view s" using x(6) by (simp add: e log_view_def)
  moreover have "flow_view s' = flow_view s" using f by (simp add: e flow_view_def queue_view_def[abs_def])
  ultimately show ?thesis using f by (simp add: e)
qed

lemma close_list_ok:
  assumes "closing s" "distinct (map info_comp is)" "\<And>i. i \<in> set is \<Longrightarrow> comps s (info_comp i) \<noteq> None" "s' = foldr (close_component sys_env) is s"
  shows "closing s' \<and> comps s' = (\<lambda>p. if p \<in> info_comp ` set is then None else comps s p) \<and> log_view s' = log_view s \<and> flow_view s' = flow_view s \<and>
     conns s' = conns s \<and> worker_count s' = worker_count s \<and> embedded s' = embedded s"
  using assms
proof (induction "is" arbitrary: s')
  case (Cons i "is")
  define u where "u = foldr (close_component sys_env) is s"
  have u: "closing u" "comps u = (\<lambda>p. if p \<in> info_comp ` set is then None else comps s p)" "log_view u = log_view s" "flow_view u = flow_view s"
     "conns u = conns s" "worker_count u = worker_count s" "embedded u = embedded s"
    using Cons.IH[OF Cons.prems(1) _ _ u_def] Cons.prems(2,3) by simp_all
  have "info_comp i \<notin> info_comp ` set is" using Cons.prems(2) by auto
  then obtain c where c: "comps u (info_comp i) = Some c" using u(2) Cons.prems(3)[of i] by auto
  have "s' = close_component sys_env i u" using Cons.prems(4) by (simp add: u_def)
  from close_component_ok[OF u(1) c this] show ?case using u by (auto simp: fun_eq_iff)
qed simp

section \<open>All of it\<close>

lemma deinit_threads_frame:
  fixes s :: sys_node
  assumes "s' = deinit_threads s"
  shows "kv_tables s' = kv_tables s" "embedded s' = embedded s" "comps s' = comps s" "log_view s' = log_view s" "crashed s' = crashed s"
proof -
  have rel: "kv_tables (nos_buffer_release b x) = kv_tables x \<and> embedded (nos_buffer_release b x) = embedded x \<and> comps (nos_buffer_release b x) = comps x \<and>
      log_view (nos_buffer_release b x) = log_view x \<and> crashed (nos_buffer_release b x) = crashed x" for b and x :: sys_node
    by (cases b) (simp_all add: nos_buffer_release_def log_view_def)
  have upd: "kv_tables (upd_thread r f x) = kv_tables x \<and> embedded (upd_thread r f x) = embedded x \<and> comps (upd_thread r f x) = comps x \<and>
      log_view (upd_thread r f x) = log_view x \<and> crashed (upd_thread r f x) = crashed x" for r f and x :: sys_node
    by (simp add: upd_thread_def log_view_def)
  have q: "kv_tables (release_queue n r x) = kv_tables x \<and> embedded (release_queue n r x) = embedded x \<and> comps (release_queue n r x) = comps x \<and>
      log_view (release_queue n r x) = log_view x \<and> crashed (release_queue n r x) = crashed x" for n r and x :: sys_node
    by (induction n arbitrary: x) (simp_all add: rel upd Let_def split: option.split)
  have t: "kv_tables (nos_scheduler_deinit_thread r x) = kv_tables x \<and> embedded (nos_scheduler_deinit_thread r x) = embedded x \<and>
      comps (nos_scheduler_deinit_thread r x) = comps x \<and> log_view (nos_scheduler_deinit_thread r x) = log_view x \<and>
      crashed (nos_scheduler_deinit_thread r x) = crashed x" for r and x :: sys_node
    by (simp add: nos_scheduler_deinit_thread_def q upd)
  have "kv_tables (foldl (\<lambda>s r. nos_scheduler_deinit_thread r s) x rs) = kv_tables x \<and> embedded (foldl (\<lambda>s r. nos_scheduler_deinit_thread r s) x rs) = embedded x \<and>
      comps (foldl (\<lambda>s r. nos_scheduler_deinit_thread r s) x rs) = comps x \<and> log_view (foldl (\<lambda>s r. nos_scheduler_deinit_thread r s) x rs) = log_view x \<and>
      crashed (foldl (\<lambda>s r. nos_scheduler_deinit_thread r s) x rs) = crashed x" for rs and x :: sys_node
    by (induction rs arbitrary: x) (simp_all add: t)
  then show "kv_tables s' = kv_tables s" "embedded s' = embedded s" "comps s' = comps s" "log_view s' = log_view s" "crashed s' = crashed s"
    by (simp_all add: assms deinit_threads_list)
qed

lemma log_last_line:
  assumes "log_ok ctx" "initialized ctx" "length (log_items ctx) < LOG_BUFFER_SIZE" "effective_level ctx 0 \<le> NOS_LOG_LEVEL_INFO"
  shows "\<exists>ctx'. nos_log_deinit (nos_log_impl NOS_LOG_LEVEL_INFO 0 tm t ctx) =
     (map (log_print ctx) (log_items ctx @ [log_cut (NOS_LOG_LEVEL_INFO, 0, tm, t)]), ctx')"
proof -
  have "nos_log_impl NOS_LOG_LEVEL_INFO 0 tm t ctx = log_put (NOS_LOG_LEVEL_INFO, 0, tm, t) ctx"
    using assms(4) by (simp add: nos_log_impl_def not_less)
  then show ?thesis using log_drains[OF assms(1,2), of "[(NOS_LOG_LEVEL_INFO, 0, tm, t)]"] assms(3) by (auto simp: LOG_BUFFER_SIZE_def)
qed


text \<open>A node with one component and an empty log.\<close>

definition last_thread :: nos_thread where
  "last_thread = (sample_thread [])\<lparr>msg_queue := replicate MAX_QUEUE_SIZE None, head := 0, tail := 0,
     components := (replicate MAX_COMP_PER_THREAD NULL)[0 := 7], component_count := 1\<rparr>"

definition last_node :: sys_node where
  "last_node = (sys_sample [Worker 0 \<mapsto> last_thread] empty_registry [7 \<mapsto> sample_comp Comp_ping 10] [7 \<mapsto> Priv_ping 0 0 0] (sample_msg 5))\<lparr>
     bufs := sample_pool, log_ctx := nos_log_init g_log_ctx, embedded := snd (nos_embedded_service_register ''SVC_LOG'' g_log_ops empty_embedded),
     loaded_info := [\<lparr>info_comp = 7, info_handle = 6, info_lib_name = ''libcomp-ping.so'', info_owner = Worker 0\<rparr>]\<rparr>"

lemma last_thread_ok: "queue_ok last_thread" "thread_msgs last_thread = []" "thread_comps last_thread = [7]" "comps_ok last_thread"
  by (simp_all add: last_thread_def queue_ok_def ring_ok_def thread_msgs_def thread_slots_def ring_items_def ring_used_def MAX_QUEUE_SIZE_def
      thread_comps_def comps_ok_def MAX_COMP_PER_THREAD_def take_first_slot)

lemma last_node_ok:
  "mgr_ok last_node" "owned last_node []" "closing last_node" "node_queue last_node r = []"
proof -
  have th: "threads last_node r = (if r = Worker 0 then Some last_thread else None)" for r by (simp add: last_node_def)
  show nq: "node_queue last_node r = []" for r using last_thread_ok(2) by (simp add: node_queue_def th)
  have cl: "comp_list last_node r = (if r = Worker 0 then [7] else [])" "table_ok last_node (Worker 0)" for r
    using comp_list_thread[of last_node "Worker 0" last_thread] th last_thread_ok(3,4)
    by (auto simp: comp_list_def comp_tables_def)
  have f: "registry last_node = empty_registry" "node_def last_node = sample_def" "conns last_node = []" "bufs last_node = sample_pool"
    "comps last_node = [7 \<mapsto> sample_comp Comp_ping 10]" "privs last_node = [7 \<mapsto> Priv_ping 0 0 0]" "kv_tables last_node = []" "\<not> crashed last_node"
    "loaded_info last_node = [\<lparr>info_comp = 7, info_handle = 6, info_lib_name = ''libcomp-ping.so'', info_owner = Worker 0\<rparr>]"
    by (simp_all add: last_node_def) (simp_all add: sys_sample_def)
  show "mgr_ok last_node"
    using cl f by (simp add: mgr_ok_def loaded_ok_def tables_ok_def routes_ok_def MAX_COMPONENTS_PER_NODE_def empty_registry_ok sample_def_def MAX_SERVICES_def)
  show "owned last_node []"
  proof (rule ownedI)
    show "r \<in> set flow_threads \<and> queue_ok th" if "threads last_node r = Some th" for r th
      using that th last_thread_ok(1) by (auto simp: flow_threads_def MAX_WORKERS_def split: if_splits)
  qed (simp_all add: f nq sample_pool_ok)
  have "lib_comp Comp_ping (sample_comp Comp_ping 10)" unfolding sample_comp_def by (rule export_lib_comp(1)) simp_all
  moreover from this have "comp_on_msg (sample_comp Comp_ping 10) = fn_ptr Comp_ping Fn_on_msg" by (rule lib_compD)
  moreover from this have "priv_ok l 0 (Some (Priv_ping 0 0 0))" if "comp_on_msg (sample_comp Comp_ping 10) = fn_ptr l Fn_on_msg" for l
    using that fn_ptr_inj[of l Fn_on_msg Comp_ping Fn_on_msg] by auto
  ultimately have "comps_typed last_node" "\<exists>l. lib_comp l (sample_comp Comp_ping 10)"
    by (auto simp: comps_typed_def f split: if_splits)
  then show "closing last_node" by (auto simp: closing_def own_timers_def f split: if_splits)
qed


end
