(* ===== verification/DaemonClaims.thy ===== *)
theory DaemonClaims
  imports Manifests ShmClaims
begin

text \<open>
  The daemon and the nodes that attach to the shared memory it creates.
\<close>

section \<open>Waiting\<close>

lemma wait_magic_iff: "wait_magic n k reads \<longleftrightarrow> (\<exists>j < n. reads (k + j) = SHM_MAGIC)"
proof (induction n arbitrary: k)
  case (Suc n)
  have "(\<exists>j < Suc n. reads (k + j) = SHM_MAGIC) \<longleftrightarrow> reads k = SHM_MAGIC \<or> (\<exists>j < n. reads (Suc k + j) = SHM_MAGIC)"
    by (auto simp: less_Suc_eq_0_disj)
  then show ?case using Suc by simp
qed simp

lemma sleep_while_stops: "stop (i + k) \<Longrightarrow> \<exists>j \<ge> i. sleep_while stop i = Some j \<and> stop j"
proof (induction k arbitrary: i)
  case 0
  then show ?case by (subst sleep_while.simps) auto
next
  case (Suc k)
  show ?case
  proof (cases "stop i")
    case True
    then show ?thesis by (subst sleep_while.simps) auto
  next
    case False
    obtain j where "j \<ge> Suc i" "sleep_while stop (Suc i) = Some j" "stop j" using Suc.IH[of "Suc i"] Suc.prems by auto
    then show ?thesis using False by (subst sleep_while.simps) (auto intro: exI[of _ j])
  qed
qed

section \<open>The table of nodes\<close>

text \<open>The first slots belong to the nodes \<open>ns\<close>, in the order in which they came.\<close>

definition nodes_ok :: "nos_shm \<Rightarrow> string list \<Rightarrow> bool" where
  "nodes_ok shm ns \<longleftrightarrow> distinct ns \<and> length ns \<le> MAX_SHM_NODES \<and>
     nodes shm = map (\<lambda>n. \<lparr>node_name = n, in_use = True\<rparr>) ns @ replicate (MAX_SHM_NODES - length ns) \<lparr>node_name = [], in_use = False\<rparr> \<and>
     rx_queues shm = replicate MAX_SHM_NODES zero_queue"

lemma claim_known:
  "distinct ns \<Longrightarrow> j < length ns \<Longrightarrow> claim_node i (ns ! j) (map (\<lambda>n. \<lparr>node_name = n, in_use = True\<rparr>) ns @ rest) = Some (i + j, False)"
proof (induction ns arbitrary: i j)
  case (Cons n ns)
  show ?case
  proof (cases j)
    case (Suc k)
    then have "ns ! k \<noteq> n" using Cons.prems by (metis Suc_less_eq distinct.simps(2) length_Cons nth_mem)
    then show ?thesis using Cons.IH[of k "Suc i"] Cons.prems Suc by (auto simp: eq_commute)
  qed simp
qed simp

lemma claim_new:
  "name \<notin> set ns \<Longrightarrow> claim_node i name (map (\<lambda>n. \<lparr>node_name = n, in_use = True\<rparr>) ns @ replicate m \<lparr>node_name = [], in_use = False\<rparr>) =
     (if m = 0 then None else Some (i + length ns, True))"
proof (induction ns arbitrary: i)
  case Nil
  then show ?case by (cases m) simp_all
next
  case (Cons n ns)
  then show ?case using Cons.IH[of "Suc i"] by auto
qed

text \<open>A node that restarts finds its slot and queue again; a new one takes the next slot, while there is one.\<close>

lemma init_node_known: "nodes_ok shm ns \<Longrightarrow> i < length ns \<Longrightarrow> nos_shm_init_node (ns ! i) shm = Some (i, shm)"
  using claim_known[of ns i 0] by (simp add: nodes_ok_def nos_shm_init_node_def)

lemma init_node_new:
  assumes "nodes_ok shm ns" "name \<notin> set ns" "length name < 32"
  shows "if length ns = MAX_SHM_NODES then nos_shm_init_node name shm = None
    else \<exists>shm'. nos_shm_init_node name shm = Some (length ns, shm') \<and> nodes_ok shm' (ns @ [name])"
proof (cases "length ns = MAX_SHM_NODES")
  case True
  then show ?thesis using assms(1) claim_new[OF assms(2), of 0 0] by (simp add: nodes_ok_def nos_shm_init_node_def)
next
  case False
  define k where "k = MAX_SHM_NODES - Suc (length ns)"
  have k: "MAX_SHM_NODES - length ns = Suc k" "length ns < MAX_SHM_NODES" using False assms(1) by (auto simp: nodes_ok_def k_def)
  define shm' where "shm' = shm\<lparr>nodes := (nodes shm)[length ns := \<lparr>node_name = name, in_use = True\<rparr>],
      rx_queues := (rx_queues shm)[length ns := (rx_queues shm ! length ns)\<lparr>q_head := 0, q_tail := 0\<rparr>]\<rparr>"
  have n: "nodes shm = map (\<lambda>n. \<lparr>node_name = n, in_use = True\<rparr>) ns @ replicate (Suc k) \<lparr>node_name = [], in_use = False\<rparr>"
    using assms(1) k(1) by (simp add: nodes_ok_def)
  have "nos_shm_init_node name shm = Some (length ns, shm')"
    using claim_new[OF assms(2), of 0 "Suc k"] assms(3) by (simp add: nos_shm_init_node_def n shm'_def)
  moreover have "nodes shm' = map (\<lambda>n. \<lparr>node_name = n, in_use = True\<rparr>) (ns @ [name]) @ replicate k \<lparr>node_name = [], in_use = False\<rparr>"
    by (simp add: shm'_def n list_update_append)
  moreover have "zero_queue\<lparr>q_head := 0, q_tail := 0\<rparr> = zero_queue" by (simp add: zero_queue_def)
  then have "rx_queues shm' = replicate MAX_SHM_NODES zero_queue"
    using assms(1) k(2) by (simp add: shm'_def nodes_ok_def list_update_same_conv)
  ultimately show ?thesis using assms k False by (simp add: nodes_ok_def k_def)
qed

lemma remote_queue_nodes:
  assumes "nodes_ok shm ns"
  shows "i < length ns \<Longrightarrow> nos_shm_get_remote_queue (ns ! i) shm = Some i" "name \<notin> set ns \<Longrightarrow> nos_shm_get_remote_queue name shm = None"
proof -
  let ?P = "\<lambda>name (n :: nos_shm_node). in_use n \<and> node_name n = name"
  have len: "length (nodes shm) = MAX_SHM_NODES" using assms by (simp add: nodes_ok_def)
  have P: "?P name (nodes shm ! j) \<longleftrightarrow> j < length ns \<and> ns ! j = name" if "j < MAX_SHM_NODES" for j name
    using assms that by (auto simp: nodes_ok_def nth_append)
  show "nos_shm_get_remote_queue name shm = None" if "name \<notin> set ns"
    using P that len find_slot_None[of MAX_SHM_NODES "nodes shm" "?P name"] by (auto simp: nos_shm_get_remote_queue_def)
  show "nos_shm_get_remote_queue (ns ! i) shm = Some i" if i: "i < length ns"
  proof (cases "find_slot (?P (ns ! i)) MAX_SHM_NODES (nodes shm)")
    case None
    have "i < MAX_SHM_NODES" using i assms by (simp add: nodes_ok_def)
    then show ?thesis using None P[of i "ns ! i"] i len find_slot_None[of MAX_SHM_NODES "nodes shm" "?P (ns ! i)"] by auto
  next
    case (Some j)
    then have "j < length ns" "ns ! j = ns ! i" using find_slot_Some[OF Some] P[of j "ns ! i"] by auto
    then have "j = i" using assms i by (simp add: nodes_ok_def nth_eq_iff_index_eq)
    then show ?thesis using Some by (simp add: nos_shm_get_remote_queue_def)
  qed
qed

text \<open>Nodes that attach one after the other.\<close>

fun attach_nodes :: "string list \<Rightarrow> nos_shm \<Rightarrow> (nat list \<times> nos_shm) option" where
  "attach_nodes [] shm = Some ([], shm)"
| "attach_nodes (n # ns) shm = do {
     (i, shm) \<leftarrow> nos_shm_init_node n shm;
     (is, shm) \<leftarrow> attach_nodes ns shm;
     Some (i # is, shm)
   }"

lemma attach_nodes_ok:
  assumes "nodes_ok shm ms" "distinct (ms @ ns)" "length (ms @ ns) \<le> MAX_SHM_NODES" "\<And>n. n \<in> set ns \<Longrightarrow> length n < 32"
  shows "\<exists>shm'. attach_nodes ns shm = Some ([length ms..<length (ms @ ns)], shm') \<and> nodes_ok shm' (ms @ ns)"
  using assms
proof (induction ns arbitrary: ms shm)
  case (Cons n ns)
  obtain s where s: "nos_shm_init_node n shm = Some (length ms, s)" "nodes_ok s (ms @ [n])"
    using init_node_new[OF Cons.prems(1), of n] Cons.prems(2-4) by (auto split: if_splits)
  obtain shm' where "attach_nodes ns s = Some ([length (ms @ [n])..<length ((ms @ [n]) @ ns)], shm')" "nodes_ok shm' ((ms @ [n]) @ ns)"
    using Cons.IH[OF s(2)] Cons.prems(2-4) by auto
  moreover have "[length ms..<length (ms @ n # ns)] = length ms # [length (ms @ [n])..<length ((ms @ [n]) @ ns)]"
    by (subst upt_conv_Cons) simp_all
  ultimately show ?case using s(1) by (simp only: attach_nodes.simps bind.bind_lunit prod.case append_assoc append_Cons append_Nil) simp
qed simp

section \<open>Properties\<close>

text \<open>
  C17 The daemon serves up to 16 nodes: it publishes a segment, keeps it until a signal comes, and then takes the name away.
  Nodes of different names that attach to the segment get queues of their own, empty ones, and every node finds the queue
  of every other by its name; a name that nobody has leads nowhere. A node that comes again, as after a crash, gets its
  queue back, and a 17th is refused; for both it is enough that the magic number is seen within the time of waiting.
\<close>

theorem daemon_serves_nodes:
  fixes s :: "'z ipc_node_scheme"
  assumes "stop k" "distinct names" "length names \<le> 16" "\<And>n. n \<in> set names \<Longrightarrow> length n < 32" "j \<le> 50" "reads j = SHM_MAGIC"
  shows "\<exists>shm shm'. daemon_main (Some m) stop seg = Some (0, Some shm, None) \<and> magic shm = SHM_MAGIC \<and>
     attach_nodes names shm = Some ([0..<length names], shm') \<and>
     (\<forall>i < length names. nos_shm_get_remote_queue (names ! i) shm' = Some i \<and> rx_queues shm' ! i = zero_queue \<and>
        nos_shm_init (Some shm') reads (names ! i) s = (NOS_OK, s\<lparr>shmem := shm', local_queue := Some i\<rparr>)) \<and>
     (\<forall>name. name \<notin> set names \<longrightarrow> nos_shm_get_remote_queue name shm' = None \<and>
        (length names = 16 \<longrightarrow> length name < 32 \<longrightarrow> nos_shm_init (Some shm') reads name s = (NOS_ERR, s\<lparr>shmem := shm'\<rparr>)))"
proof -
  define shm where "shm = nos_shm_create_and_init m"
  obtain i where "sleep_while stop 0 = Some i" using sleep_while_stops[of stop 0 k] assms(1) by auto
  then have d: "daemon_main (Some m) stop seg = Some (0, Some shm, None)" by (simp add: daemon_main_def shm_def)
  have "magic shm = SHM_MAGIC" "nodes_ok shm []"
    by (simp_all add: shm_def nos_shm_create_and_init_def nodes_ok_def init_shm_pool_def Let_def)
  moreover have "distinct ([] @ names)" "length ([] @ names) \<le> MAX_SHM_NODES" using assms(2,3) by (simp_all add: MAX_SHM_NODES_def)
  ultimately obtain shm' where a: "attach_nodes names shm = Some ([0..<length names], shm')" "nodes_ok shm' names" "magic shm = SHM_MAGIC"
    using attach_nodes_ok[of shm "[]" names] assms(4) by auto
  have w: "wait_magic 51 0 reads" using assms(5,6) wait_magic_iff[of 51 0 reads] by auto
  have known: "nos_shm_init (Some shm') reads (names ! i) s = (NOS_OK, s\<lparr>shmem := shm', local_queue := Some i\<rparr>)" if "i < length names" for i
    using init_node_known[OF a(2) that] w by (simp add: nos_shm_init_def)
  have new: "nos_shm_init (Some shm') reads name s = (NOS_ERR, s\<lparr>shmem := shm'\<rparr>)"
    if "name \<notin> set names" "length names = 16" "length name < 32" for name
    using init_node_new[OF a(2) that(1,3)] that(2) w by (simp add: nos_shm_init_def MAX_SHM_NODES_def)
  have "rx_queues shm' ! i = zero_queue" if "i < length names" for i
    using a(2) that by (simp add: nodes_ok_def)
  then show ?thesis using d a(1,3) known new remote_queue_nodes[OF a(2)] by blast
qed

theorem daemon_serves_nodes_witness:
  "\<exists>shm shm'. daemon_main (Some Map.empty) (\<lambda>i. i = 7) None = Some (0, Some shm, None) \<and>
     attach_nodes [''ProcA'', ''ProcB''] shm = Some ([0, 1], shm') \<and> nos_shm_get_remote_queue ''ProcB'' shm' = Some 1"
proof -
  have h: "(\<lambda>i :: nat. i = 7) 7" "distinct [''ProcA'', ''ProcB'']" "length [''ProcA'', ''ProcB''] \<le> 16" "(3 :: nat) \<le> 50"
    "(\<lambda>i :: nat. if i = 3 then SHM_MAGIC else 0) 3 = SHM_MAGIC" "\<And>n. n \<in> set [''ProcA'', ''ProcB''] \<Longrightarrow> length n < 32" by auto
  obtain shm shm' where s: "daemon_main (Some Map.empty) (\<lambda>i. i = 7) None = Some (0, Some shm, None)"
    "attach_nodes [''ProcA'', ''ProcB''] shm = Some ([0..<length [''ProcA'', ''ProcB'']], shm')"
    "\<forall>i < length [''ProcA'', ''ProcB'']. nos_shm_get_remote_queue ([''ProcA'', ''ProcB''] ! i) shm' = Some i"
    using daemon_serves_nodes[where stop = "\<lambda>i. i = 7" and k = 7 and m = Map.empty and seg = None and j = 3 and
        reads = "\<lambda>i. if i = 3 then SHM_MAGIC else 0" and names = "[''ProcA'', ''ProcB'']", OF h(1-3) h(6) h(4,5)] by blast
  have "[0..<length [''ProcA'', ''ProcB'']] = [0, 1]" by (simp add: upt_rec)
  moreover have "nos_shm_get_remote_queue ''ProcB'' shm' = Some 1" using s(3)[rule_format, of 1] by simp
  ultimately show ?thesis using s(1,2) by metis
qed

end
