(* ===== verification/IpcEndToEnd.thy ===== *)
theory IpcEndToEnd
  imports IpcClaims CompPerf
begin

text \<open>
  Two nodes and the socket between them: what a thread of node A sends to a service of node B goes through the transmit queue of
  the link (\<open>nos_ipc_send_enqueue_ex\<close>, \<open>nos_ipc_process_tx\<close>), over the socket, and through
  \<open>nos_ipc_recv_handler\<close> into the queue of the thread of the provider. The socket is of type
  \<open>SOCK_SEQPACKET\<close>: it delivers the messages whole and in the order of the sends.
\<close>

section \<open>Free buffers\<close>

text \<open>The buffers nobody holds in the bins whose chunks have \<open>sz\<close> bytes or more.\<close>

definition free_bufs :: "u32 \<Rightarrow> bufpool \<Rightarrow> (nat \<times> nat) list" where
  "free_bufs sz p =
     concat (map (\<lambda>i. if sz \<le> chunk_size (g_bins p ! i)
                      then map (Pair i) (filter (\<lambda>j. pool_held p (i, j) = 0) [0..<unat (chunk_count (g_bins p ! i))]) else [])
       [0..<g_bin_count p])"

lemma set_free_bufs:
  "set (free_bufs sz p) = {(i, j). i < g_bin_count p \<and> sz \<le> chunk_size (g_bins p ! i) \<and>
     j < unat (chunk_count (g_bins p ! i)) \<and> pool_held p (i, j) = 0}"
  by (auto simp: free_bufs_def split: if_splits)

lemma distinct_free_bufs: "distinct (free_bufs sz p)"
proof -
  have d: "distinct (concat (map f xs))"
    if "distinct xs" "\<And>x. distinct (f x)" "\<And>x q. q \<in> set (f x) \<Longrightarrow> fst q = x" for f :: "nat \<Rightarrow> (nat \<times> nat) list" and xs
    using that(1)
  proof (induction xs)
    case (Cons x xs)
    have "set (f x) \<inter> (\<Union>y\<in>set xs. set (f y)) = {}" using that(3) Cons.prems by auto blast
    then show ?case using Cons that(2) by simp
  qed simp
  then show ?thesis unfolding free_bufs_def by (intro d) (auto simp: distinct_map inj_on_def split: if_splits)
qed

lemma free_bufs_alloc:
  assumes ok: "pool_ok p" and free: "free_bufs sz p \<noteq> []" "sz' \<le> sz"
  shows "\<exists>r p'. nos_buffer_alloc sz' 0 p = Some (r, p')"
proof (rule ccontr)
  assume no: "\<not> ?thesis"
  obtain i j where f: "i < g_bin_count p" "sz \<le> chunk_size (g_bins p ! i)" "j < unat (chunk_count (g_bins p ! i))" "pool_held p (i, j) = 0"
    using free(1) set_free_bufs[of sz p] by (cases "free_bufs sz p") auto
  have "nos_buffer_alloc sz' 0 p = None" using no by (cases "nos_buffer_alloc sz' 0 p") auto
  then have "nos_buffer_bin.free_top (g_bins p ! i) < 0"
    using nos_buffer_alloc_None[OF ok, of sz' 0] f(1,2) free(2) by fastforce
  then have "free_list (g_bins p ! i) = []" by (simp add: free_list_def)
  then have "0 < pool_held p (i, j)"
    using bin_ok_buf(2)[OF pool_ok_bin[OF ok f(1)] f(3)] f(1,3) by (simp add: pool_held_def pool_buf_def)
  then show False using f(4) by simp
qed

text \<open>One more buffer is held: the others are still free.\<close>

lemma free_bufs_taken:
  assumes "pool_shape p' = pool_shape p" "g_bin_count p \<le> length (g_bins p)" "\<And>q. q \<noteq> r \<Longrightarrow> pool_held p' q = pool_held p q"
  shows "length (free_bufs sz p) \<le> Suc (length (free_bufs sz p'))"
proof -
  have m: "map (\<lambda>b. (chunk_size b, chunk_count b)) (g_bins p') = map (\<lambda>b. (chunk_size b, chunk_count b)) (g_bins p)" "g_bin_count p' = g_bin_count p"
    using assms(1) by (auto simp: pool_shape_def)
  have l: "length (g_bins p') = length (g_bins p)" using arg_cong[OF m(1), of length] by simp
  have "chunk_size (g_bins p' ! i) = chunk_size (g_bins p ! i) \<and> chunk_count (g_bins p' ! i) = chunk_count (g_bins p ! i)"
    if "i < g_bin_count p" for i
    using nth_map[of i "g_bins p'" "\<lambda>b. (chunk_size b, chunk_count b)"] nth_map[of i "g_bins p" "\<lambda>b. (chunk_size b, chunk_count b)"]
      that assms(2) l m(1) by simp
  then have "set (free_bufs sz p) \<subseteq> insert r (set (free_bufs sz p'))"
    using assms(3) m(2) unfolding set_free_bufs by auto
  then have "card (set (free_bufs sz p)) \<le> card (insert r (set (free_bufs sz p')))" by (intro card_mono) simp_all
  also have "\<dots> \<le> Suc (card (set (free_bufs sz p')))" by (simp add: card_insert_if)
  finally show ?thesis using distinct_card[OF distinct_free_bufs] by metis
qed

section \<open>Receiving one message after another\<close>

lemma recv_local_frame:
  assumes m: "plain_msg m" "node_alloc (Inl (ucast (full_len m), 0)) s = Some (b, s1)"
    and route: "reg_route (registry s) (dst_service m) = Some (Local p (Some q))"
    and h: "nos_ipc_recv_handler fuel (Peek m) (Some m) fd conn r s = Returned s'"
  shows "registry s' = registry s" "msgs s' = (msgs s)(b := m)" "pool_shape (bufs s') = pool_shape (bufs s)"
    "w \<noteq> q \<Longrightarrow> node_queue s' w = node_queue s w"
proof -
  note f = node_alloc_frame[OF m(2)]
  define u where "u = count_stat (\<lambda>st. st\<lparr>rx_packets := rx_packets st + 1, rx_bytes := rx_bytes st + full_len m\<rparr>) (s1\<lparr>msgs := (msgs s1)(b := m)\<rparr>)"
  define v where "v = snd (nos_transport_local_send b (Some q) u)"
  have u: "registry u = registry s" "msgs u = (msgs s)(b := m)" "pool_shape (bufs u) = pool_shape (bufs s)" "node_queue u w = node_queue s w"
    using f m(2) by (auto simp: u_def count_stat_def node_alloc_def shape_alloc node_queue_def)
  have "nos_service_msg_send nos_transport_remote_uds_send (Some b) u = nos_transport_local_send b (Some q) u"
    using send_routes(3)[of u b p "Some q"] route u(1,2) by simp
  then have s': "s' = nos_buffer_release b v"
    using h m by (simp add: nos_ipc_recv_handler_def plain_msg_def u_def v_def)
  have "registry v = registry u \<and> msgs v = msgs u \<and> pool_shape (bufs v) = pool_shape (bufs u) \<and> (w \<noteq> q \<longrightarrow> node_queue v w = node_queue u w)"
    by (auto simp: v_def nos_transport_local_send_def Let_def upd_thread_def nos_buffer_retain_def node_queue_def split: option.splits buf_ref.splits)
  moreover have "registry s' = registry v" "msgs s' = msgs v" "pool_shape (bufs s') = pool_shape (bufs v)" "node_queue s' w = node_queue v w"
    by (auto simp: s' nos_buffer_release_def node_queue_def split: buf_ref.splits)
  ultimately show "registry s' = registry s" "msgs s' = (msgs s)(b := m)" "pool_shape (bufs s') = pool_shape (bufs s)"
    "w \<noteq> q \<Longrightarrow> node_queue s' w = node_queue s w" using u by simp_all
qed

text \<open>The events of a socket on which the messages \<open>ms\<close> arrive.\<close>

fun recv_all ::
  "nat \<Rightarrow> int \<Rightarrow> nat option \<Rightarrow> thread_ref \<Rightarrow> nos_service_msg list \<Rightarrow> 'z ipc_node_scheme \<Rightarrow> 'z ipc_node_scheme run" where
  "recv_all fuel fd conn r [] s = Returned s"
| "recv_all fuel fd conn r (m # ms) s =
     (case nos_ipc_recv_handler fuel (Peek m) (Some m) fd conn r s of
        Returned s' \<Rightarrow> recv_all fuel fd conn r ms s'
      | x \<Rightarrow> x)"

text \<open>Messages of the protocol of at most \<open>sz\<close> bytes for services whose provider runs in thread \<open>q\<close>.\<close>

definition for_thread :: "u32 \<Rightarrow> thread_ref \<Rightarrow> service_registry \<Rightarrow> nos_service_msg \<Rightarrow> bool" where
  "for_thread sz q reg m \<longleftrightarrow> plain_msg m \<and> ucast (full_len m) \<le> sz \<and>
     (case reg_route reg (dst_service m) of Some (Local p t) \<Rightarrow> t = Some q | _ \<Rightarrow> False)"

lemma for_threadD:
  assumes "for_thread sz q reg m"
  obtains p where "plain_msg m" "ucast (full_len m) \<le> sz" "reg_route reg (dst_service m) = Some (Local p (Some q))"
  using assms by (auto simp: for_thread_def split: option.splits route.splits)

text \<open>The buffers \<open>bs\<close>, free before, hold the messages \<open>ms\<close> and wait in the queue of thread \<open>q\<close>, which has their only reference.\<close>

definition delivered :: "thread_ref \<Rightarrow> 'z ipc_node_scheme \<Rightarrow> nos_service_msg list \<Rightarrow> buf_ref list \<Rightarrow> 'z ipc_node_scheme \<Rightarrow> bool" where
  "delivered q s ms bs s' \<longleftrightarrow> bufs_ok s' \<and> node_queue_ok s' q \<and> node_queue s' q = node_queue s q @ bs \<and>
     map (msgs s') bs = ms \<and> distinct bs \<and> (\<forall>b\<in>set bs. buf_held s b = 0) \<and>
     (\<forall>b. buf_held s' b = (if b \<in> set bs then 1 else buf_held s b)) \<and> (\<forall>b. b \<notin> set bs \<longrightarrow> msgs s' b = msgs s b) \<and>
     (\<forall>w. w \<noteq> q \<longrightarrow> node_queue s' w = node_queue s w) \<and> rx_packets (stats s') = rx_packets (stats s) + of_nat (length ms)"

lemma recv_one:
  fixes s :: "'z ipc_node_scheme"
  assumes s: "bufs_ok s" "node_queue_ok s q" "length (node_queue s q) < 1023" and m: "for_thread sz q (registry s) m"
    and room: "free_bufs sz (bufs s) \<noteq> []"
  obtains s' b where "nos_ipc_recv_handler fuel (Peek m) (Some m) fd conn r s = Returned s'" "delivered q s [m] [b] s'"
    "registry s' = registry s" "length (free_bufs sz (bufs s)) \<le> Suc (length (free_bufs sz (bufs s')))"
proof -
  obtain p where m: "plain_msg m" "ucast (full_len m) \<le> sz" "reg_route (registry s) (dst_service m) = Some (Local p (Some q))"
    using for_threadD[OF m] .
  have ok: "pool_ok (bufs s)" using s(1) by (simp add: bufs_ok_def)
  obtain i j p' where "nos_buffer_alloc (ucast (full_len m)) 0 (bufs s) = Some ((i, j), p')"
    using free_bufs_alloc[OF ok room m(2)] by auto
  then have al: "node_alloc (Inl (ucast (full_len m), 0)) s = Some (PoolBuf i j, s\<lparr>bufs := p'\<rparr>)" by (simp add: node_alloc_def)
  let ?b = "PoolBuf i j"
  obtain s' where h: "nos_ipc_recv_handler fuel (Peek m) (Some m) fd conn r s = Returned s'" "msgs s' ?b = m" "bufs_ok s'"
    "node_queue_ok s' q" "rx_packets (stats s') = rx_packets (stats s) + 1"
    "node_queue s' q = node_queue s q @ [?b]" "buf_held s ?b = 0" "buf_held s' = (buf_held s)(?b := 1)"
    using recv_local[OF m(1) al m(3) s(2,1), of fuel fd conn r] s(3) by auto
  note fr = recv_local_frame[OF m(1) al m(3) h(1)]
  have d: "delivered q s [m] [?b] s'" using h fr(2,4) by (simp add: delivered_def)
  have "pool_held (bufs s') x = pool_held (bufs s) x" if "x \<noteq> (i, j)" for x
    using fun_cong[OF h(8), of "PoolBuf (fst x) (snd x)"] that by (auto simp: buf_held_def split: if_splits)
  then have "length (free_bufs sz (bufs s)) \<le> Suc (length (free_bufs sz (bufs s')))"
    using free_bufs_taken[OF fr(3), of "(i, j)" sz] ok by (auto simp: pool_ok_def)
  with h(1) d fr(1) show thesis using that by blast
qed

lemma delivered_Cons:
  assumes "delivered q s [m] [b] u" "delivered q u ms bs s'"
  shows "delivered q s (m # ms) (b # bs) s'"
proof -
  note d = assms[unfolded delivered_def]
  have "buf_held u b = 1" using d(1) by simp
  then have "b \<notin> set bs" using d(2) by fastforce
  then show ?thesis using d unfolding delivered_def by (auto split: if_splits)
qed

lemma recv_all_delivers:
  assumes "bufs_ok s" "node_queue_ok s q" "list_all (for_thread sz q (registry s)) ms"
    "length ms \<le> length (free_bufs sz (bufs s))" "length (node_queue s q) + length ms \<le> 1023"
  shows "\<exists>s' bs. recv_all fuel fd conn r ms s = Returned s' \<and> delivered q s ms bs s'"
  using assms
proof (induction ms arbitrary: s)
  case Nil
  then show ?case by (intro exI[of _ s] exI[of _ "[]"]) (simp add: delivered_def)
next
  case (Cons m ms)
  have len: "length (node_queue s q) < 1023" and m: "for_thread sz q (registry s) m" and ne: "free_bufs sz (bufs s) \<noteq> []"
    using Cons.prems(3-5) by auto
  obtain u b where u: "nos_ipc_recv_handler fuel (Peek m) (Some m) fd conn r s = Returned u" "delivered q s [m] [b] u"
    "registry u = registry s" "length (free_bufs sz (bufs s)) \<le> Suc (length (free_bufs sz (bufs u)))"
    using recv_one[OF Cons.prems(1,2) len m ne] .
  have "bufs_ok u" "node_queue_ok u q" "node_queue u q = node_queue s q @ [b]" using u(2) by (simp_all add: delivered_def)
  then obtain s' bs where "recv_all fuel fd conn r ms u = Returned s'" "delivered q u ms bs s'"
    using Cons.IH[of u] Cons.prems(3-5) u(3,4) by auto
  then show ?case
    using u(1) delivered_Cons[OF u(2)] by (intro exI[of _ s'] exI[of _ "b # bs"]) simp
qed

section \<open>A socket that takes everything\<close>

lemma sent_count_all: "(\<And>n. os_sends s n = Sent) \<Longrightarrow> sent_count s n = n"
  by (simp add: sent_count_def takeWhile_eq_all_conv[THEN iffD2])

lemma process_all_sent:
  assumes "link_up i nname uds_path s" "tx_refs i bs s" "\<And>n. os_sends s n = Sent"
  shows "conn_items (conns (nos_ipc_process_tx i s) ! i) = []"
proof -
  have le: "count_list (conn_items (conns s ! i)) b \<le> buf_held s b" for b using assms(2) by (simp add: tx_refs_def)
  have i: "i < length (conns s)" "conn_ok (conns s ! i)" "bufs_ok s" using assms by (simp_all add: link_up_def tx_refs_def)
  show ?thesis using process_tx_spec[OF i(1,2) refl i(3) le refl refl] sent_count_all[OF assms(3)] by simp
qed

lemma enqueue_all_sent:
  assumes up: "link_up i nname uds_path s" and os: "\<And>n. os_sends s n = Sent"
    and refs: "tx_refs i (b # bs) s" "buf_held s b < 2 ^ 31 - 1" and empty: "conn_items (conns s ! i) = []"
  shows "fst (nos_ipc_send_enqueue_ex nname uds_path b s) = NOS_OK"
    "conn_items (conns (snd (nos_ipc_send_enqueue_ex nname uds_path b s)) ! i) = []"
proof -
  obtain c where c: "nos_ipc_send_enqueue_ex nname uds_path b s =
        (NOS_OK, nos_ipc_process_tx i (upd_conn i (\<lambda>_. c) (nos_buffer_retain b s)))"
      "conn_ok c" "conn_items c = [b]" "\<exists>q t. c = (conns s ! i)\<lparr>tx_queue := q, conn_tail := t\<rparr>"
    using enqueue_up[OF up, of b] empty by (auto simp: TX_HIGH_WATERMARK_def)
  let ?u = "upd_conn i (\<lambda>_. c) (nos_buffer_retain b s)"
  have i: "i < length (conns s)" using up by (simp add: link_up_def)
  have b: "0 < buf_held s b" "bufs_ok s" using refs(1) by (auto simp: tx_refs_def)
  have held: "buf_held ?u = (buf_held s)(b := buf_held s b + 1)" "bufs_ok ?u"
    using node_bufs.retain_held[OF b(2,1) refs(2)] by simp_all
  have up': "link_up i nname uds_path ?u"
    by (rule link_up_cong[OF up]) (use up i c(2,4) in \<open>auto simp: link_up_def conn_key_def\<close>)
  have "tx_refs i [] ?u" using held c(3) i by (simp add: tx_refs_def)
  from process_all_sent[OF up' this] os
  show "fst (nos_ipc_send_enqueue_ex nname uds_path b s) = NOS_OK"
    "conn_items (conns (snd (nos_ipc_send_enqueue_ex nname uds_path b s)) ! i) = []" by (simp_all add: c(1))
qed

lemma tx_run_all_sent:
  assumes "link_up i nname uds_path s" "\<forall>n. os_sends s n = Sent" "tx_refs i (tx_sends ops) s"
    "\<forall>b. buf_held s b + length ops < 2 ^ 31" "conn_items (conns s ! i) = []" "tx_run i nname uds_path s ops = (s', acc)"
  shows "conn_items (conns s' ! i) = [] \<and> acc = tx_sends ops"
  using assms
proof (induction ops arbitrary: s acc)
  case (Cons op ops)
  have os: "os_sends s n = Sent" "os_sends s n \<noteq> Send_failed" for n using Cons.prems(2) by simp_all
  show ?case
  proof (cases op)
    case TxReady
    have refs: "tx_refs i (tx_sends ops) s" using Cons.prems(3) TxReady by simp
    obtain sent where p: "link_up i nname uds_path (nos_ipc_process_tx i s)" "os_sends (nos_ipc_process_tx i s) = os_sends s"
      "\<forall>b. buf_held (nos_ipc_process_tx i s) b + count_list sent b = buf_held s b" "tx_refs i (tx_sends ops) (nos_ipc_process_tx i s)"
      using process_tx_balance[OF Cons.prems(1) os(2) refs refl] by blast
    have "buf_held (nos_ipc_process_tx i s) b + length ops < 2 ^ 31" for b
      using Cons.prems(4)[rule_format, of b] p(3)[rule_format, of b] by simp
    then show ?thesis
      using Cons.IH[OF p(1) _ p(4)] process_all_sent[OF Cons.prems(1) refs os(1)] Cons.prems(2,6) p(2) TxReady by simp
  next
    case (TxSend b)
    obtain st u where e: "nos_ipc_send_enqueue_ex nname uds_path b s = (st, u)" by (metis prod.exhaust)
    have refs: "tx_refs i (b # tx_sends ops) s" using Cons.prems(3) TxSend by simp
    have lim: "buf_held s b < 2 ^ 31 - 1" using Cons.prems(4)[rule_format, of b] by simp
    have a: "st = NOS_OK" "conn_items (conns u ! i) = []"
      using enqueue_all_sent[OF Cons.prems(1) os(1) refs lim Cons.prems(5)] by (simp_all add: e)
    obtain sent where p: "link_up i nname uds_path u" "os_sends u = os_sends s"
      "\<forall>x. buf_held u x + count_list sent x = buf_held s x + count_list [b] x" "tx_refs i (tx_sends ops) u"
      using enqueue_balance[OF Cons.prems(1) os(2) refs lim e] a(1) by auto
    have small: "buf_held u x + length ops < 2 ^ 31" for x
    proof -
      have "count_list [b] x \<le> 1" by simp
      then show ?thesis using Cons.prems(4)[rule_format, of x] p(3)[rule_format, of x] by simp
    qed
    obtain acc' where "tx_run i nname uds_path u ops = (s', acc')" "acc = b # acc'"
      using Cons.prems(6) TxSend e a(1) by (auto split: prod.splits)
    then show ?thesis using Cons.IH[OF p(1) _ p(4) _ a(2), of acc'] Cons.prems(2) p(2) small TxSend by simp
  qed
qed simp

section \<open>From node to node\<close>

lemma tx_run_accepted: "tx_run i nname uds_path s ops = (s', acc) \<Longrightarrow> set acc \<subseteq> set (tx_sends ops) \<and> length acc \<le> length (tx_sends ops)"
proof (induction ops arbitrary: s acc)
  case (Cons op ops)
  then show ?case by (cases op) (fastforce split: prod.splits if_splits)+
qed simp

text \<open>Two nodes: A has both buffers of its first bin in use, with the messages 1 and 2 for service 5 of B.\<close>

definition node_A_sample :: "bufpool \<Rightarrow> unit ipc_node_scheme" where
  "node_A_sample p = (ipc_sample [sample_conn 9 [] False] (\<lambda>_. Sent))\<lparr>bufs := p,
     msgs := (\<lambda>x. (sample_msg 5)\<lparr>msg_seq := if x = PoolBuf 0 0 then 1 else 2\<rparr>)\<rparr>"

definition node_B_sample :: "unit ipc_node_scheme" where
  "node_B_sample = (ipc_sample [] (\<lambda>_. Sent))\<lparr>bufs := sample_pool\<rparr>"

lemma node_A_pool:
  obtains p where "bufs_ok (node_A_sample p)" "\<And>x. buf_held (node_A_sample p) x = (if x = PoolBuf 0 0 \<or> x = PoolBuf 0 1 then 1 else 0)"
proof -
  let ?s = "ipc_sample [sample_conn 9 [] False] (\<lambda>_. Sent)"
  obtain u where al: "node_alloc (Inl (28, 0)) ?s = Some (PoolBuf 0 0, u)" using ipc_sample_alloc(1) by blast
  then have u: "u = ?s\<lparr>bufs := bufs u\<rparr>" by (auto simp: node_alloc_def)
  have "bufs_ok u" "buf_held u = (buf_held ?s)(PoolBuf 0 0 := 1)"
    using node_bufs.alloc_Some[OF ipc_sample_bufs(1) al] by auto
  moreover have "bufs_ok (node_A_sample (bufs u)) = bufs_ok u" "buf_held (node_A_sample (bufs u)) = buf_held u"
    by (subst (2) u, simp add: node_A_sample_def)+
  ultimately show thesis using that[of "bufs u"] by simp
qed

lemma node_B_ok:
  "bufs_ok node_B_sample" "node_queue_ok node_B_sample (Worker 0)" "node_queue node_B_sample (Worker 0) = []"
  "registry node_B_sample = service_5" "length (free_bufs 28 (bufs node_B_sample)) \<ge> 2" "wire node_B_sample = []"
proof -
  have t: "threads node_B_sample = threads idle_node" by (simp add: node_B_sample_def)
  show "node_queue_ok node_B_sample (Worker 0)" "node_queue node_B_sample (Worker 0) = []"
    using idle_queue by (simp_all add: node_queue_ok_def node_queue_def t)
  show "bufs_ok node_B_sample" using ipc_sample_bufs(1)[of "[]" "\<lambda>_. Sent"] sample_pool_ok(1) by (simp add: node_B_sample_def bufs_ok_def)
  show "length (free_bufs 28 (bufs node_B_sample)) \<ge> 2"
  proof -
    have "length (free_bufs 28 sample_pool) \<ge> 2" by code_simp
    then show ?thesis by (simp add: node_B_sample_def)
  qed
qed (simp_all add: node_B_sample_def)

section \<open>The property\<close>

text \<open>
  C18 From node to node: over any sequence of sends of node A to a service of node B and of events of their link, the messages
  that A has put on the wire arrive at B in the queue of the thread of the provider, in the order A accepted them, each once and
  unchanged, in a buffer of its own that was free and of which the queue holds the only reference; nothing else of
  B's queues and buffers changes, and A keeps the rest queued. When the socket takes everything,
  all messages sent arrive. This needs a free buffer and a free slot of B's queue for each message.
\<close>

theorem ipc_delivers_across_nodes:
  assumes a: "link_up i nname uds_path a" "\<And>n. os_sends a n \<noteq> Send_failed" "tx_refs i (tx_sends ops) a"
    "\<And>x. buf_held a x + length ops < 2 ^ 31" "tx_run i nname uds_path a ops = (a', acc)"
    and b: "bufs_ok b" "node_queue_ok b q"
    and m: "\<And>x. x \<in> set (conn_items (conns a ! i) @ tx_sends ops) \<Longrightarrow> for_thread sz q (registry b) (msgs a x)"
    and room: "length (conn_items (conns a ! i) @ tx_sends ops) \<le> length (free_bufs sz (bufs b))"
    "length (node_queue b q) + length (conn_items (conns a ! i) @ tx_sends ops) \<le> 1023"
  shows "\<exists>sent b' bs. conn_items (conns a ! i) @ acc = sent @ conn_items (conns a' ! i) \<and>
    (\<forall>x. buf_held a' x + count_list sent x = buf_held a x + count_list acc x) \<and>
    recv_all fuel fd conn r (map snd (drop (length (wire a)) (wire a'))) b = Returned b' \<and>
    node_queue b' q = node_queue b q @ bs \<and> map (msgs b') bs = map (msgs a) sent \<and> distinct bs \<and>
    (\<forall>x. buf_held b' x = (if x \<in> set bs then 1 else buf_held b x)) \<and> (\<forall>x\<in>set bs. buf_held b x = 0) \<and>
    (\<forall>x. x \<notin> set bs \<longrightarrow> msgs b' x = msgs b x) \<and> (\<forall>w. w \<noteq> q \<longrightarrow> node_queue b' w = node_queue b w) \<and>
    (conn_items (conns a ! i) = [] \<and> (\<forall>n. os_sends a n = Sent) \<longrightarrow> sent = tx_sends ops)"
proof -
  let ?is = "conn_items (conns a ! i)"
  obtain sent where s: "?is @ acc = sent @ conn_items (conns a' ! i)"
    "wire a' = wire a @ map (\<lambda>x. (conn_fd (conns a ! i), msgs a x)) sent"
    "\<forall>x. buf_held a' x + count_list sent x = buf_held a x + count_list acc x"
    using tx_run_balance[OF a] by blast
  have acc: "set acc \<subseteq> set (tx_sends ops)" "length acc \<le> length (tx_sends ops)" using tx_run_accepted[OF a(5)] by auto
  have "set sent \<subseteq> set (?is @ acc)" "length sent \<le> length (?is @ acc)" unfolding s(1) by simp_all
  with acc have sub: "set sent \<subseteq> set (?is @ tx_sends ops)" "length sent \<le> length (?is @ tx_sends ops)" by auto
  have arrive: "map snd (drop (length (wire a)) (wire a')) = map (msgs a) sent" by (simp add: s(2))
  have all: "list_all (for_thread sz q (registry b)) (map (msgs a) sent)" using sub(1) m by (auto simp: list_all_iff)
  obtain b' bs where d: "recv_all fuel fd conn r (map (msgs a) sent) b = Returned b'" "delivered q b (map (msgs a) sent) bs b'"
    using recv_all_delivers[OF b all, of fuel fd conn r] sub(2) room by auto
  have "sent = tx_sends ops" if "?is = []" "\<forall>n. os_sends a n = Sent"
    using tx_run_all_sent[OF a(1) that(2) a(3) _ that(1) a(5)] a(4) s(1) that(1) by simp
  then show ?thesis
    using s(1,3) d unfolding arrive delivered_def by (intro exI[of _ sent] exI[of _ b'] exI[of _ bs]) simp
qed

theorem ipc_delivers_across_nodes_witness:
  "\<exists>p a' acc b' x y. tx_run 0 (Some ''B'') None (node_A_sample p) [TxSend (PoolBuf 0 0), TxReady, TxSend (PoolBuf 0 1)] = (a', acc) \<and>
     recv_all 0 12 None Mgmt (map snd (wire a')) node_B_sample = Returned b' \<and> node_queue b' (Worker 0) = [x, y] \<and> x \<noteq> y \<and>
     msg_seq (msgs b' x) = 1 \<and> msg_seq (msgs b' y) = 2 \<and> buf_held b' x = 1"
proof -
  obtain p where p: "bufs_ok (node_A_sample p)" "\<And>x. buf_held (node_A_sample p) x = (if x = PoolBuf 0 0 \<or> x = PoolBuf 0 1 then 1 else 0)"
    using node_A_pool by blast
  let ?a = "node_A_sample p" and ?ops = "[TxSend (PoolBuf 0 0), TxReady, TxSend (PoolBuf 0 1)]"
  obtain a' acc where r: "tx_run 0 (Some ''B'') None ?a ?ops = (a', acc)" by (metis prod.exhaust)
  have c: "conns ?a = [sample_conn 9 [] False]" "os_sends ?a = (\<lambda>_. Sent)" "wire ?a = []"
    "msgs ?a x = (sample_msg 5)\<lparr>msg_seq := if x = PoolBuf 0 0 then 1 else 2\<rparr>" for x
    by (simp_all add: node_A_sample_def)
  have items: "conn_items (conns ?a ! 0) = []" by (simp add: c sample_conn_ok)
  have up: "link_up 0 (Some ''B'') None ?a"
    by (simp add: c link_up_def get_conn_find sample_conn_ok find_slot_def key_matches_def conn_key_def) (simp add: sample_conn_def)
  have os: "os_sends ?a n \<noteq> Send_failed" for n by (simp add: c)
  have refs: "tx_refs 0 (tx_sends ?ops) ?a" using p by (simp add: tx_refs_def items)
  have small: "buf_held ?a x + length ?ops < 2 ^ 31" for x by (simp add: p(2))
  have m: "for_thread 28 (Worker 0) (registry node_B_sample) (msgs ?a x)" if "x \<in> set (conn_items (conns ?a ! 0) @ tx_sends ?ops)" for x
    using service_5_route unfolding c node_B_ok(4)
    by (simp add: for_thread_def plain_msg_def sample_msg_def full_len_def MSG_HEADER_SIZE_def NOS_IPC_MAGIC_def
        NOS_IPC_MSG_HELLO_def NOS_IPC_MSG_SHM_EVENT_def)
  have room: "length (conn_items (conns ?a ! 0) @ tx_sends ?ops) \<le> length (free_bufs 28 (bufs node_B_sample))"
    "length (node_queue node_B_sample (Worker 0)) + length (conn_items (conns ?a ! 0) @ tx_sends ?ops) \<le> 1023"
    using node_B_ok(3,5) by (simp_all add: items)
  obtain sent b' bs where d: "recv_all 0 12 None Mgmt (map snd (drop (length (wire ?a)) (wire a'))) node_B_sample = Returned b'"
    "node_queue b' (Worker 0) = node_queue node_B_sample (Worker 0) @ bs" "map (msgs b') bs = map (msgs ?a) sent" "distinct bs"
    "\<forall>x. buf_held b' x = (if x \<in> set bs then 1 else buf_held node_B_sample x)"
    "conn_items (conns ?a ! 0) = [] \<and> (\<forall>n. os_sends ?a n = Sent) \<longrightarrow> sent = tx_sends ?ops"
    using ipc_delivers_across_nodes[OF up os refs small r node_B_ok(1,2) m room, where fuel = 0 and fd = 12 and conn = None and r = Mgmt]
    by blast
  have "sent = tx_sends ?ops" using d(6) items c(2) by simp
  obtain x y where xy: "bs = [x, y]" "msgs b' x = msgs ?a (PoolBuf 0 0)" "msgs b' y = msgs ?a (PoolBuf 0 1)"
    using d(3) \<open>sent = _\<close> by (auto simp: map_eq_Cons_conv)
  show ?thesis
    using r d(1,2,4,5) xy c(3,4) node_B_ok(3) by (intro exI[of _ p] exI[of _ a'] exI[of _ acc] exI[of _ b'] exI[of _ x] exI[of _ y]) simp
qed

end
