(* ===== verification/Spec2Isabelle.thy ===== *)
theory Spec2Isabelle
  imports TimerClaims BufferClaims MpscSteps PoolSteps EventLoop Wakeup KvClaims LogClaims NodeMgrClaims RefClaims CliRun BootClaims ShutdownClaims
    DaemonClaims IpcEndToEnd
begin

text \<open>
  A model of Gemini-NOS, a component runtime for network nodes written in C, and the theorems that
  make it correct.

  THE PROGRAM. A node process loads components (shared libraries) onto scheduler threads as its manifest
  says. A component has handlers for starting, stopping and messages, may own timers, and reaches
  other components only through services: a message names a service, the service registry says
  which component of which thread, or which other node, provides it. Messages live in buffers with
  reference counts, taken from a local pool or from memory shared by all nodes of the machine. Between
  nodes they travel over Unix sockets, or as offsets through a queue in shared memory with a small
  notification over the socket. Three embedded services are called directly: timers, a
  key-value store with subscriptions, and a log written by a thread of its own.

  HOW THE PARTS CORRESPOND. Each theory keeps the names of the code.

  \<^item> \<open>NosPrelude\<close>: widths, status codes, C strings, the idiom \<open>a[i] = a[--n]\<close>. \<open>RingQueue\<close>: an array with
    head and tail as a bounded FIFO (locale \<open>bounded_fifo\<close>, interpreted by all four rings: the thread
    queues, the shared-memory queue, the transmit queues, the log). \<open>RefPool\<close>: the contract of a
    pool of counted references (interpreted by both pools and by the node that has both).
    \<open>KeyedTable\<close>: the contract of a bounded table with keys (service registry, key-value tables).
  \<^item> \<open>NodeState\<close>: \<open>nos_thread_t\<close>, \<open>nos_timer_t\<close> and component tables
    (\<open>include/nos_scheduler.h\<close>, \<open>src/core/nos_scheduler.c\<close>). \<open>TimerHeap\<close>, \<open>Timers\<close>, \<open>TimerService\<close>: the heap of
    timers and \<open>nos_timer_create/start/stop/delete\<close>, \<open>process_timers\<close>. \<open>TimerProps\<close>, \<open>TimerClaims\<close>: the
    invariant (every running timer is on exactly the heap of its owner) and what a pass does.
  \<^item> \<open>BufferPool\<close>, \<open>BufferClaims\<close>: \<open>src/core/nos_buffer.c\<close>. \<open>ShmPool\<close>, \<open>ShmProps\<close>, \<open>ShmClaims\<close>:
    \<open>src/infra/nos_shm.c\<close>, one operation at a time; \<open>MpscSteps\<close> and \<open>PoolSteps\<close>: its lock-free loops
    as step relations, one atomic access per step, with any number of processes.
  \<^item> \<open>Registry\<close>: service registry and embedded services. \<open>Messages\<close>, \<open>MsgClaims\<close>: sending and
    \<open>process_thread_messages\<close>. \<open>FdTable\<close>: the descriptors of a thread. \<open>EventLoop\<close>: \<open>nos_scheduler_run_loop\<close>.
    \<open>Wakeup\<close>: its sleep/wakeup protocol as a step relation against any number of senders.
  \<^item> \<open>KvStore\<close>, \<open>KvProps\<close>, \<open>KvClaims\<close>: \<open>src/infra/db/nos_kv.c\<close>. \<open>LogRing\<close>, \<open>LogClaims\<close>: \<open>src/infra/log/nos_log.c\<close>.
  \<^item> \<open>IpcConn\<close>, \<open>IpcProps\<close>, \<open>IpcClaims\<close>: \<open>src/infra/nos_ipc_p2p.c\<close>. \<open>IpcEndToEnd\<close>: two nodes and
    the socket between them, from a send on one to the queue of a thread of the other.
  \<^item> \<open>NodeMgr\<close>, \<open>NodeMgrProps\<close>, \<open>NodeMgrClaims\<close>: \<open>src/core/nos_node_mgr.c\<close> and the start of \<open>main\<close>.
  \<^item> \<open>RefCount\<close>, \<open>RefFlow\<close>, \<open>RefClaims\<close>: the references to buffers across the whole node. \<open>owned s hs\<close> says that
    every count is the number of queue entries plus the references \<open>hs\<close> of running code; the locale
    \<open>balanced_handlers\<close> is what a set of components owes the node for that.
  \<^item> \<open>SysNode\<close>: the process with its embedded services, and the macros of \<open>include/nos_api.h\<close> and \<open>nos_log_api.h\<close>.
    \<open>Components\<close>: the nine sample components (\<open>src/components/model_*\<close>, \<open>src/components/perf\<close>). \<open>CompFrames\<close>: what
    their handlers do not touch. \<open>CompRefs\<close>, \<open>CompClaims\<close>: references. \<open>CompTypes\<close>: the shape of their private data, and
    recovery from the store. \<open>CompPerf\<close>: a run of the performance test from the command to the last message.
  \<^item> \<open>NodeMain\<close>: \<open>src/core/nos_node_main.c\<close>, start and shutdown, with the initialisation of the embedded services and of the
    shared memory. \<open>Manifests\<close>: the manifests of the two sample processes and the daemon (\<open>manifest_ProcA.c\<close>, \<open>manifest_ProcB.c\<close>,
    \<open>nos_daemon_main.c\<close>). \<open>CompBoot\<close>, \<open>BootTypes\<close>: what initialising and stopping the sample components changes of a node.
    \<open>NodeBoot\<close>: which components are loaded where. \<open>BootMain\<close>: the state \<open>main\<close> reaches (\<open>booted\<close>). \<open>NodeUp\<close>: the start handlers.
    \<open>BootClaims\<close>: any process, the two sample processes, the performance test on one of them. \<open>ShutdownClaims\<close>: shutdown.
    \<open>DaemonClaims\<close>: the table of nodes in the shared memory.
  \<^item> \<open>CText\<close>: what the command line uses of the C library (\<open>atoi\<close>, \<open>sscanf\<close>, \<open>strcasecmp\<close>). \<open>Cli\<close>, \<open>CliEdit\<close>: \<open>src/core/nos_cli.c\<close>,
    its commands, and its line editor and thread. \<open>CliClaims\<close>: dispatch, history, the editor. \<open>CliRun\<close>: what commands do to the node.

  STATE. The records grow with the program: \<open>tnode\<close> (threads, timers, clock), \<open>node\<close> (registry,
  pools, components, messages), \<open>ipc_node\<close> (connections), \<open>mgr_node\<close> (manifest, loaded components, log), \<open>sys_node\<close>
  (key-value tables, embedded services, private data of components); \<open>cli\<close> holds such a node, the history and the screen. An operation of an inner part is stated on the extensible record, so it applies to all outer ones.
  Arrays keep their C length and their separate count. A pointer is a number with 0 for \<open>NULL\<close>.

  PARAMETERS. Code outside the repository is an argument: the results of \<open>epoll_wait\<close>,
  \<open>epoll_ctl\<close>, \<open>eventfd\<close>, socket calls and \<open>connect\<close> (streams of results), \<open>dlopen\<close> and \<open>dlsym\<close>, the handlers
  of components, the clock, the addresses \<open>calloc\<close> returns, the results of the system calls of the start-up (\<open>boot_env\<close>), the memory and the signals of the daemon, the sizes
  of structures and the printed form of quotients, what other threads do while the command line waits for a key. Theorems name what they need of them (for
  instance that a message handler leaves the queue of its thread alone), each with a witness at a
  concrete instance.

  BOUNDS AND FUEL. \<open>process_thread_messages\<close> and \<open>process_timers\<close> take fuel; their theorems say
  how much is enough (the length of the queue; the number of timers due, with the re-arming of
  periodic ones) so that \<open>Returned\<close> is proved, not assumed. \<open>process_tx_loop\<close> runs at most \<open>TX_QUEUE_SIZE\<close>
  rounds and the log consumer at most \<open>LOG_BUFFER_SIZE\<close>, as every round that goes on takes an item off
  the ring. The thread of the command line reads at most as many lines as its input has bytes. Walks along hash chains and the rounding loop of \<open>nos_kv_table_create\<close> are partial functions
  whose \<open>None\<close> means that the code does not return. Integers keep their width wherever a theorem
  or a defect depends on it.

  THE PROPERTIES. Invariants and refinements: registry and key-value tables refine bounded
  maps, all four queues refine bounded FIFOs, both pools keep exact reference counts over any
  client run, also with all the queues, links and threads that pass the references on, and the structures of
  the node manager never refer to a component that is gone. The sample components respect these contracts
  (with two exceptions that are stated), and never run into undefined behaviour in a node whose data has the shape
  they expect. From \<open>main\<close> on: every manifest within the limits gives a node in which all these invariants hold, both sample
  manifests have all their services served, and shutting down gives up what the node holds. Between two
  nodes: what one sends arrives at the other in order, once, in a buffer with one reference. Functional
  statements for each operation cover the error branches. Step relations give the
  statements about concurrency: linearizability of the queue in shared memory, exclusive ownership of
  shared blocks, no lost wakeup. Some theorems state defects of the code as it is (a log that stalls
  after a dropped message, timers delayed by another's stop, ABA in the shared pool, descriptors routed
  to the wrong callback, remote services that share a link); smaller ones are lemmas.

  NOT MODELLED. Calls of the logger outside the sample components, since a message may be dropped at any time and
  nothing reads it back; the settings of the terminal, the delivery of signals and the creation of threads; and the floating-point figures a performance test logs at its end. \<open>shm_open\<close>, \<open>mmap\<close> and socket set-up beyond success or failure. The locks: an
  operation that runs under a lock is one step, and what is not protected is said where it matters. Weak
  memory, except in \<open>Wakeup\<close>, where the late store of a sender is a step of its own.
\<close>

end
